(* ===== verification/Http_Prelude.thy ===== *)
theory Http_Prelude
  imports Main "HOL-Library.Char_ord" "HOL-Library.List_Lexorder" "HOL-Library.Word"
begin

text \<open>
  Shared vocabulary of the development: the operations of \<open>std::string_view\<close> and
  \<open>std::string\<close> that the sources use, on byte strings (\<^typ>\<open>string\<close>, one
  \<^typ>\<open>char\<close> per byte), with the position and splitting lemmas every component rests on.
  A view is modelled by the bytes it denotes. \<open>npos\<close> is \<^term>\<open>None\<close>.
\<close>

named_theorems sv_simps \<open>evaluation rules of the string view operations\<close>

named_theorems byte_defs \<open>definitions of the byte classes of the parsers\<close>

type_synonym bytes = string

text \<open>\<open>std::expected<T, E>\<close>: the error on the left, the value on the right.\<close>

type_synonym ('e, 'a) expected = "'e + 'a"

text \<open>\<open>static_cast<unsigned char>\<close> of a \<open>char\<close>.\<close>

definition byte :: "char \<Rightarrow> nat" where
  "byte c = of_char c"

lemma byte_lt_256 [simp]: "byte c < 256"
  unfolding byte_def by (metis mod_less_divisor of_char_mod_256 zero_less_numeral)

lemma byte_inj [simp]: "byte c = byte d \<longleftrightarrow> c = d"
  by (simp add: byte_def)

section \<open>Searching\<close>

text \<open>\<open>find(char)\<close>: the position of the first occurrence.\<close>

fun find_char :: "char \<Rightarrow> bytes \<Rightarrow> nat option" where
  "find_char c [] = None"
| "find_char c (x # xs) = (if x = c then Some 0 else map_option Suc (find_char c xs))"

definition starts_with :: "bytes \<Rightarrow> bytes \<Rightarrow> bool" where
  "starts_with s p \<longleftrightarrow> take (length p) s = p"

definition starts_with_char :: "bytes \<Rightarrow> char \<Rightarrow> bool" where
  "starts_with_char s c \<longleftrightarrow> s \<noteq> [] \<and> hd s = c"

definition ends_with_char :: "bytes \<Rightarrow> char \<Rightarrow> bool" where
  "ends_with_char s c \<longleftrightarrow> s \<noteq> [] \<and> last s = c"

text \<open>\<open>ends_with(view)\<close>.\<close>

definition ends_with :: "bytes \<Rightarrow> bytes \<Rightarrow> bool" where
  "ends_with s p \<longleftrightarrow> length p \<le> length s \<and> drop (length s - length p) s = p"

text \<open>\<open>find(view)\<close>: the first position where the needle occurs.\<close>

fun find_str :: "bytes \<Rightarrow> bytes \<Rightarrow> nat option" where
  "find_str p [] = (if p = [] then Some 0 else None)"
| "find_str p (x # xs) =
     (if starts_with (x # xs) p then Some 0 else map_option Suc (find_str p xs))"

text \<open>\<open>find(char, position)\<close>: the search starts at a position of the whole view.\<close>

definition find_char_from :: "char \<Rightarrow> bytes \<Rightarrow> nat \<Rightarrow> nat option" where
  "find_char_from c s pos =
     (if pos > length s then None else map_option (\<lambda>i. pos + i) (find_char c (drop pos s)))"

text \<open>\<open>find_first_of(set)\<close>.\<close>

fun find_first_of :: "bytes \<Rightarrow> bytes \<Rightarrow> nat option" where
  "find_first_of cs [] = None"
| "find_first_of cs (x # xs) =
     (if x \<in> set cs then Some 0 else map_option Suc (find_first_of cs xs))"

text \<open>\<open>substr(offset, length)\<close> for an offset inside the view; the calls of the sources
  never pass an offset past the end.\<close>

definition substr :: "bytes \<Rightarrow> nat \<Rightarrow> nat \<Rightarrow> bytes" where
  "substr s off len = take len (drop off s)"

text \<open>\<open>contains(char)\<close>.\<close>

definition sv_contains :: "bytes \<Rightarrow> char \<Rightarrow> bool" where
  "sv_contains s c \<longleftrightarrow> c \<in> set s"

lemma find_char_None_iff: "find_char c s = None \<longleftrightarrow> c \<notin> set s"
  by (induction s) auto

lemma find_char_SomeD:
  "find_char c s = Some i \<Longrightarrow> i < length s \<and> s ! i = c \<and> c \<notin> set (take i s)"
proof (induction s arbitrary: i)
  case Nil
  then show ?case by simp
next
  case (Cons x xs)
  then show ?case by (auto split: if_splits)
qed

lemma find_char_less [termination_simp]: "find_char c s = Some i \<Longrightarrow> i < length s"
  by (simp add: find_char_SomeD)

lemma find_char_split:
  "find_char c s = Some i \<Longrightarrow> s = take i s @ c # drop (Suc i) s \<and> c \<notin> set (take i s)"
  using find_char_SomeD [of c s i] by (auto simp: id_take_nth_drop [symmetric])

lemma find_char_append_notin:
  "c \<notin> set xs \<Longrightarrow> find_char c (xs @ c # ys) = Some (length xs)"
  by (induction xs) auto

lemma find_char_append_notin2:
  "c \<notin> set xs \<Longrightarrow> find_char c (xs @ ys) = map_option (\<lambda>i. length xs + i) (find_char c ys)"
  by (induction xs) (auto simp: option.map_comp o_def option.map_ident_strong intro: option.map_cong)

lemma find_char_iff:
  "find_char c s = Some i \<longleftrightarrow> i < length s \<and> s ! i = c \<and> c \<notin> set (take i s)"
proof
  assume "find_char c s = Some i"
  then show "i < length s \<and> s ! i = c \<and> c \<notin> set (take i s)" by (rule find_char_SomeD)
next
  assume *: "i < length s \<and> s ! i = c \<and> c \<notin> set (take i s)"
  then have "s = take i s @ c # drop (Suc i) s" by (metis id_take_nth_drop)
  with * show "find_char c s = Some i"
    using find_char_append_notin [of c "take i s" "drop (Suc i) s"] by simp
qed

lemma starts_with_iff: "starts_with s p \<longleftrightarrow> (\<exists>t. s = p @ t)"
  by (auto simp: starts_with_def) (metis append_take_drop_id)

lemma starts_with_append [simp]: "starts_with (p @ s) p"
  by (simp add: starts_with_def)

lemma starts_with_char_Cons [simp]: "starts_with_char (x # xs) c \<longleftrightarrow> x = c"
  by (simp add: starts_with_char_def)

lemma starts_with_char_Nil [simp]: "\<not> starts_with_char [] c"
  by (simp add: starts_with_char_def)

lemma find_str_SomeD:
  "find_str p s = Some i \<Longrightarrow> i + length p \<le> length s \<and> starts_with (drop i s) p"
proof (induction s arbitrary: i)
  case Nil
  then show ?case by (auto simp: starts_with_def split: if_splits)
next
  case (Cons x xs)
  show ?case
  proof (cases "starts_with (x # xs) p")
    case True
    then have "length p \<le> length (x # xs)"
      by (auto simp: starts_with_iff) (metis le_add1 length_Cons length_append)
    with True Cons.prems show ?thesis by simp
  next
    case False
    with Cons show ?thesis by auto
  qed
qed

lemma find_str_less [termination_simp]:
  "find_str p s = Some i \<Longrightarrow> i + length p \<le> length s"
  by (simp add: find_str_SomeD)

lemma find_str_least:
  "find_str p s = Some i \<Longrightarrow> j < i \<Longrightarrow> \<not> starts_with (drop j s) p"
proof (induction s arbitrary: i j)
  case Nil
  then show ?case by (auto split: if_splits)
next
  case (Cons x xs)
  then show ?case by (cases j) (auto split: if_splits)
qed

lemma find_str_None:
  "find_str p s = None \<Longrightarrow> \<not> starts_with (drop j s) p"
proof (induction s arbitrary: j)
  case Nil
  then show ?case by (auto simp: starts_with_def split: if_splits)
next
  case (Cons x xs)
  then show ?case by (cases j) (auto split: if_splits)
qed

lemma find_str_split:
  assumes "find_str p s = Some i"
  shows "s = take i s @ p @ drop (i + length p) s"
proof -
  from find_str_SomeD [OF assms] obtain t where t: "drop i s = p @ t"
    by (auto simp: starts_with_iff)
  then have "drop (i + length p) s = t"
    by (metis add.commute append_eq_conv_conj drop_drop)
  with t show ?thesis by (metis append_take_drop_id)
qed

lemma find_str_unique:
  assumes "starts_with (drop i s) p" and "i \<le> length s"
    and "\<And>j. j < i \<Longrightarrow> \<not> starts_with (drop j s) p"
  shows "find_str p s = Some i"
proof (cases "find_str p s")
  case None
  then show ?thesis using find_str_None assms(1) by blast
next
  case (Some k)
  then show ?thesis
    using find_str_SomeD [OF Some] find_str_least [OF Some] assms by (metis linorder_neqE_nat)
qed

section \<open>Splitting at a separator\<close>

text \<open>The pieces between separators: the reference every hand-written splitting loop of the
  sources is compared with. There is always one piece more than there are separators.\<close>

fun split_on :: "char \<Rightarrow> bytes \<Rightarrow> bytes list" where
  "split_on c [] = [[]]"
| "split_on c (x # xs) =
     (if x = c then [] # split_on c xs
      else (case split_on c xs of [] \<Rightarrow> [[x]] | p # ps \<Rightarrow> (x # p) # ps))"

lemma split_on_not_Nil [simp]: "split_on c s \<noteq> []"
  by (induction s) (auto split: list.splits)

lemma split_on_notin: "c \<notin> set s \<Longrightarrow> split_on c s = [s]"
  by (induction s) auto

lemma split_on_append:
  "c \<notin> set xs \<Longrightarrow> split_on c (xs @ c # ys) = xs # split_on c ys"
  by (induction xs) auto

lemma split_on_None: "find_char c s = None \<Longrightarrow> split_on c s = [s]"
  by (simp add: find_char_None_iff split_on_notin)

lemma split_on_Some:
  "find_char c s = Some i \<Longrightarrow> split_on c s = take i s # split_on c (drop (Suc i) s)"
  by (metis find_char_split split_on_append)

lemma split_on_pieces_free: "p \<in> set (split_on c s) \<Longrightarrow> c \<notin> set p"
proof (induction s arbitrary: p)
  case Nil
  then show ?case by simp
next
  case (Cons x xs)
  show ?case
  proof (cases "split_on c xs")
    case Nil
    then show ?thesis by simp
  next
    case (Cons q qs)
    with Cons.prems Cons.IH show ?thesis by (auto split: if_splits)
  qed
qed

lemma split_on_pieces_subset: "p \<in> set (split_on c s) \<Longrightarrow> set p \<subseteq> set s"
proof (induction s arbitrary: p)
  case Nil
  then show ?case by simp
next
  case (Cons x xs)
  show ?case
  proof (cases "split_on c xs")
    case Nil
    then show ?thesis by simp
  next
    case (Cons q qs)
    with Cons.prems Cons.IH [of q] Cons.IH [of p] show ?thesis
      by (auto split: if_splits)
  qed
qed

fun join_with :: "bytes \<Rightarrow> bytes list \<Rightarrow> bytes" where
  "join_with sep [] = []"
| "join_with sep [p] = p"
| "join_with sep (p # q # ps) = p @ sep @ join_with sep (q # ps)"

lemma join_with_Cons: "ps \<noteq> [] \<Longrightarrow> join_with sep (p # ps) = p @ sep @ join_with sep ps"
  by (cases ps) auto

lemma join_split_on: "join_with [c] (split_on c s) = s"
proof (induction s)
  case Nil
  then show ?case by simp
next
  case (Cons x xs)
  then show ?case
    by (cases "split_on c xs"; cases "tl (split_on c xs)") (auto simp: join_with_Cons)
qed

section \<open>Trimming\<close>

text \<open>The two loops of \<open>trim_optional_whitespace\<close>, which every parser of the library
  repeats: spaces and tabs leave the front, then the back.\<close>

definition is_optional_whitespace :: "char \<Rightarrow> bool" where
  [byte_defs]: "is_optional_whitespace c \<longleftrightarrow> c = CHR '' '' \<or> c = CHR 0x09"

lemma dropWhile_idem_hd: "dropWhile P xs = [] \<or> \<not> P (hd (dropWhile P xs))"
  using hd_dropWhile by blast

lemma set_rev_dropWhile_subset: "set (rev (dropWhile P (rev xs))) \<subseteq> set xs"
  using set_dropWhileD by fastforce

section \<open>Decimal text\<close>

text \<open>\<open>std::to_chars\<close> and \<open>std::format("{}")\<close> of an unsigned integer, and
  \<open>std::from_chars\<close> into an unsigned integer of a given width: the longest run of digits
  is taken, no digit is an invalid argument, a value past the width is out of range; the second
  component is the number of characters consumed.\<close>

definition is_decimal_digit :: "char \<Rightarrow> bool" where
  [byte_defs]: "is_decimal_digit c \<longleftrightarrow> 48 \<le> byte c \<and> byte c \<le> 57"

definition digit_char :: "nat \<Rightarrow> char" where
  "digit_char d = char_of (48 + d)"

lemma digit_char_literals [sv_simps]:
  "digit_char 0 = CHR ''0''" "digit_char (Suc 0) = CHR ''1''" "digit_char 1 = CHR ''1''"
  "digit_char 2 = CHR ''2''"
  "digit_char 3 = CHR ''3''" "digit_char 4 = CHR ''4''" "digit_char 5 = CHR ''5''"
  "digit_char 6 = CHR ''6''" "digit_char 7 = CHR ''7''" "digit_char 8 = CHR ''8''"
  "digit_char 9 = CHR ''9''"
  by code_simp+

fun nat_to_dec :: "nat \<Rightarrow> bytes" where
  "nat_to_dec n =
     (if n < 10 then [digit_char n] else nat_to_dec (n div 10) @ [digit_char (n mod 10)])"

declare nat_to_dec.simps [simp del]

lemma nat_to_dec_small [sv_simps]: "n < 10 \<Longrightarrow> nat_to_dec n = [digit_char n]"
  by (simp add: nat_to_dec.simps [of n])

lemma nat_to_dec_large [sv_simps]:
  "10 \<le> n \<Longrightarrow> nat_to_dec n = nat_to_dec (n div 10) @ [digit_char (n mod 10)]"
  by (simp add: nat_to_dec.simps [of n])

definition dec_value :: "bytes \<Rightarrow> nat" where
  "dec_value s = foldl (\<lambda>n c. 10 * n + (byte c - 48)) 0 s"

datatype errc = InvalidArgument | ResultOutOfRange

definition from_chars :: "nat \<Rightarrow> bytes \<Rightarrow> (errc, nat) expected \<times> nat" where
  "from_chars bits s =
     (let ds = takeWhile is_decimal_digit s in
      if ds = [] then (Inl InvalidArgument, 0)
      else if dec_value ds \<ge> 2 ^ bits then (Inl ResultOutOfRange, length ds)
      else (Inr (dec_value ds), length ds))"

text \<open>An executable form that stays within binary integers.\<close>

definition dec_value_int :: "bytes \<Rightarrow> int" where
  "dec_value_int s = foldl (\<lambda>n c. 10 * n + (int (byte c) - 48)) 0 s"

lemma int_dec_value:
  "\<forall>c \<in> set s. is_decimal_digit c \<Longrightarrow> int (dec_value s) = dec_value_int s"
  by (induction s rule: rev_induct)
    (auto simp: dec_value_def dec_value_int_def is_decimal_digit_def of_nat_diff)

lemma from_chars_code [code]:
  "from_chars bits s =
     (let ds = takeWhile is_decimal_digit s; v = dec_value_int ds in
      if ds = [] then (Inl InvalidArgument, 0)
      else if v \<ge> 2 ^ bits then (Inl ResultOutOfRange, length ds)
      else (Inr (nat v), length ds))"
proof -
  let ?ds = "takeWhile is_decimal_digit s"
  have v: "dec_value_int ?ds = int (dec_value ?ds)"
    by (rule int_dec_value [symmetric]) (metis set_takeWhileD)
  have "(2 :: int) ^ bits \<le> int (dec_value ?ds) \<longleftrightarrow> 2 ^ bits \<le> dec_value ?ds"
    by (metis of_nat_le_iff of_nat_numeral of_nat_power)
  then show ?thesis by (simp add: from_chars_def Let_def v)
qed

lemma byte_char_of [simp]: "n < 256 \<Longrightarrow> byte (char_of n) = n"
  by (simp add: byte_def of_char_of)

lemma byte_digit_char [simp]: "d < 10 \<Longrightarrow> byte (digit_char d) = 48 + d"
  by (simp add: digit_char_def)

lemma is_decimal_digit_digit_char [simp]: "d < 10 \<Longrightarrow> is_decimal_digit (digit_char d)"
  by (simp add: is_decimal_digit_def)

lemma nat_to_dec_digits: "\<forall>c \<in> set (nat_to_dec n). is_decimal_digit c"
proof (induction n rule: nat_to_dec.induct)
  case (1 n)
  then show ?case by (cases "n < 10") (auto simp: nat_to_dec.simps [of n])
qed

lemma nat_to_dec_not_Nil [simp]: "nat_to_dec n \<noteq> []"
  by (subst nat_to_dec.simps) simp

lemma dec_value_snoc [simp]: "dec_value (s @ [c]) = 10 * dec_value s + (byte c - 48)"
  by (simp add: dec_value_def)

lemma dec_value_nat_to_dec [simp]: "dec_value (nat_to_dec n) = n"
proof (induction n rule: nat_to_dec.induct)
  case (1 n)
  show ?case
  proof (cases "n < 10")
    case True
    then show ?thesis by (simp add: nat_to_dec.simps [of n] dec_value_def)
  next
    case False
    with 1 show ?thesis by (simp add: nat_to_dec.simps [of n])
  qed
qed

lemma nat_to_dec_inj [simp]: "nat_to_dec m = nat_to_dec n \<longleftrightarrow> m = n"
  by (metis dec_value_nat_to_dec)

lemma from_chars_nat_to_dec:
  "n < 2 ^ bits \<Longrightarrow> from_chars bits (nat_to_dec n) = (Inr n, length (nat_to_dec n))"
  using nat_to_dec_digits [of n]
  by (simp add: from_chars_def takeWhile_eq_all_conv [THEN iffD2])

lemma dec_value_bound:
  "\<forall>c \<in> set s. is_decimal_digit c \<Longrightarrow> dec_value s < 10 ^ length s"
proof (induction s rule: rev_induct)
  case Nil
  then show ?case by (simp add: dec_value_def)
next
  case (snoc c s)
  then have "dec_value s < 10 ^ length s" and "byte c - 48 \<le> 9"
    by (auto simp: is_decimal_digit_def)
  then show ?case by simp
qed

lemma nat_to_dec_no_leading_zero: "0 < n \<Longrightarrow> hd (nat_to_dec n) \<noteq> CHR ''0''"
proof (induction n rule: nat_to_dec.induct)
  case (1 n)
  show ?case
  proof (cases "n < 10")
    case True
    with 1 have "byte (digit_char n) \<noteq> byte (CHR ''0'')" by (simp add: byte_def digit_char_def of_char_of)
    then have "digit_char n \<noteq> CHR ''0''" by metis
    with True show ?thesis by (simp add: nat_to_dec.simps [of n])
  next
    case False
    with 1 show ?thesis by (simp add: nat_to_dec.simps [of n])
  qed
qed

end
