(* ===== verification/Http_Text.thy ===== *)
theory Http_Text
  imports Http_Prelude
begin

unbundle bit_operations_syntax

text \<open>
  \<open>text.hpp\<close> and \<open>text.cpp\<close>: case folding, FNV-1a and entity tags, the HTML, JSON and
  Prometheus escapers, URL decoding, durations, digit grouping and the constant-time comparison.
  The escapers are compared with decoders that are specified here only.
\<close>

section \<open>Case-insensitive comparison\<close>

definition ascii_to_lower :: "char \<Rightarrow> char" where
  "ascii_to_lower c = (if 65 \<le> byte c \<and> byte c \<le> 90 then char_of (byte c + 32) else c)"

definition equals_ignore_case :: "bytes \<Rightarrow> bytes \<Rightarrow> bool" where
  "equals_ignore_case left right \<longleftrightarrow>
     length left = length right \<and>
     list_all (\<lambda>(a, b). ascii_to_lower a = ascii_to_lower b) (zip left right)"

abbreviation fold_case :: "bytes \<Rightarrow> bytes" where
  "fold_case s \<equiv> map ascii_to_lower s"

lemma equals_ignore_case_iff: "equals_ignore_case l r \<longleftrightarrow> fold_case l = fold_case r"
proof (cases "length l = length r")
  case True
  then show ?thesis
    by (induction l r rule: list_induct2) (auto simp: equals_ignore_case_def)
next
  case False
  then show ?thesis by (auto simp: equals_ignore_case_def dest: map_eq_imp_length_eq)
qed

lemma equals_ignore_case_refl [simp]: "equals_ignore_case s s"
  by (simp add: equals_ignore_case_iff)

lemma equals_ignore_case_sym: "equals_ignore_case s t \<Longrightarrow> equals_ignore_case t s"
  by (simp add: equals_ignore_case_iff)

lemma equals_ignore_case_trans:
  "equals_ignore_case s t \<Longrightarrow> equals_ignore_case t u \<Longrightarrow> equals_ignore_case s u"
  by (simp add: equals_ignore_case_iff)

lemma ascii_to_lower_idem [simp]: "ascii_to_lower (ascii_to_lower c) = ascii_to_lower c"
  by (auto simp: ascii_to_lower_def)

section \<open>FNV-1a and entity tags\<close>

definition kFnvOffsetBasis64 :: "64 word" where
  "kFnvOffsetBasis64 = 14695981039346656037"

definition kFnvPrime64 :: "64 word" where
  "kFnvPrime64 = 1099511628211"

definition fnv1a_64 :: "bytes \<Rightarrow> 64 word" where
  "fnv1a_64 input =
     fold (\<lambda>c hash. (hash XOR of_nat (byte c)) * kFnvPrime64) input kFnvOffsetBasis64"

definition kHexDigits :: bytes where
  "kHexDigits = ''0123456789abcdef''"

definition weak_etag_buffer :: "64 word \<Rightarrow> bytes" where
  "weak_etag_buffer hash =
     [CHR ''W'', CHR ''/'', CHR 0x22] @
     map (\<lambda>index. kHexDigits ! unat (drop_bit ((15 - index) * 4) hash AND 0xF)) [0..<16] @
     [CHR 0x22]"

definition weak_etag :: "bytes \<Rightarrow> bytes" where
  "weak_etag body = weak_etag_buffer (fnv1a_64 body)"

lemma length_weak_etag_buffer [simp]: "length (weak_etag_buffer h) = 20"
  by (simp add: weak_etag_buffer_def)

lemma nibble_less: "unat ((w :: 64 word) AND 0xF) < 16"
proof -
  have "w AND 0xF \<le> 0xF" by (rule word_and_le1)
  then have "unat (w AND 0xF) \<le> unat (0xF :: 64 word)" by (simp add: word_le_nat_alt)
  then show ?thesis by simp
qed

lemma kHexDigits_inj: "i < 16 \<Longrightarrow> j < 16 \<Longrightarrow> kHexDigits ! i = kHexDigits ! j \<Longrightarrow> i = j"
  using nth_eq_iff_index_eq [of kHexDigits i j] by (simp add: kHexDigits_def)

lemma kHexDigits_in: "i < 16 \<Longrightarrow> kHexDigits ! i \<in> set kHexDigits"
  by (rule nth_mem) (simp add: kHexDigits_def)

lemma nibbles_determine_word:
  fixes g h :: "64 word"
  assumes "\<And>k. k < 16 \<Longrightarrow> drop_bit (k * 4) g AND 0xF = drop_bit (k * 4) h AND 0xF"
  shows "g = h"
proof (rule bit_word_eqI)
  fix n assume "n < LENGTH(64)"
  then have "n div 4 < 16" by simp
  then have "bit (drop_bit (n div 4 * 4) g AND mask 4) (n mod 4) =
             bit (drop_bit (n div 4 * 4) h AND mask 4) (n mod 4)"
    using assms [of "n div 4"] by (simp add: mask_eq_exp_minus_1)
  moreover have "n mod 4 < 64"
    by (rule order_less_trans [OF mod_less_divisor]) simp_all
  ultimately show "bit g n = bit h n"
    by (simp add: bit_and_iff bit_drop_bit_eq bit_mask_iff o_def)
qed

lemma weak_etag_buffer_inj [simp]: "weak_etag_buffer g = weak_etag_buffer h \<longleftrightarrow> g = h"
proof
  assume eq: "weak_etag_buffer g = weak_etag_buffer h"
  have "drop_bit (k * 4) g AND 0xF = drop_bit (k * 4) h AND 0xF" if "k < 16" for k
  proof -
    from that eq have "kHexDigits ! unat (drop_bit (k * 4) g AND 0xF) =
        kHexDigits ! unat (drop_bit (k * 4) h AND 0xF)"
      unfolding weak_etag_buffer_def by (auto dest: bspec [of _ _ "15 - k"])
    then show ?thesis
      using kHexDigits_inj [OF nibble_less nibble_less] by (simp add: word_unat_eq_iff)
  qed
  then show "g = h" by (rule nibbles_determine_word)
qed simp

section \<open>HTML\<close>

definition html_escape_char :: "char \<Rightarrow> bytes" where
  "html_escape_char c =
     (if c = CHR ''&'' then ''&amp;''
      else if c = CHR ''<'' then ''&lt;''
      else if c = CHR ''>'' then ''&gt;''
      else if c = CHR 0x22 then ''&quot;''
      else if c = CHR 0x27 then ''&#39;''
      else [c])"

definition html_escape_into :: "bytes \<Rightarrow> bytes \<Rightarrow> bytes" where
  "html_escape_into out input = foldl (\<lambda>out c. out @ html_escape_char c) out input"

definition html_escape :: "bytes \<Rightarrow> bytes" where
  "html_escape input = html_escape_into [] input"

text \<open>What a browser reads back: the five entities, anything else as it stands.\<close>

function html_unescape :: "bytes \<Rightarrow> bytes" where
  "html_unescape s =
     (if s = [] then []
      else if starts_with s ''&amp;'' then CHR ''&'' # html_unescape (drop 5 s)
      else if starts_with s ''&lt;'' then CHR ''<'' # html_unescape (drop 4 s)
      else if starts_with s ''&gt;'' then CHR ''>'' # html_unescape (drop 4 s)
      else if starts_with s ''&quot;'' then CHR 0x22 # html_unescape (drop 6 s)
      else if starts_with s ''&#39;'' then CHR 0x27 # html_unescape (drop 5 s)
      else hd s # html_unescape (tl s))"
  by pat_completeness auto
termination
  by (relation "measure length") auto

declare html_unescape.simps [simp del]

lemma html_escape_into_concat: "html_escape_into out s = out @ concat (map html_escape_char s)"
  unfolding html_escape_into_def by (induction s arbitrary: out) auto

lemma html_escape_Nil [simp]: "html_escape [] = []"
  by (simp add: html_escape_def html_escape_into_concat)

lemma html_escape_Cons [simp]: "html_escape (c # s) = html_escape_char c @ html_escape s"
  by (simp add: html_escape_def html_escape_into_concat)

lemma html_unescape_char: "html_unescape (html_escape_char c @ s) = c # html_unescape s"
  by (subst html_unescape.simps) (auto simp: html_escape_char_def starts_with_def)

lemma html_unescape_escape: "html_unescape (html_escape s) = s"
  by (induction s) (simp_all add: html_unescape.simps [of "[]"] html_unescape_char)

definition html_markup :: "char set" where
  "html_markup = {CHR ''<'', CHR ''>'', CHR 0x22, CHR 0x27}"

lemma html_escape_no_markup: "set (html_escape s) \<inter> html_markup = {}"
  by (induction s) (auto simp: html_escape_char_def html_markup_def)

section \<open>UTF-8\<close>

text \<open>\<open>valid_utf8_sequence_length(input, index)\<close> reads from \<open>index\<close> on: its argument here is
  the non-empty rest of the input from there.\<close>

definition is_continuation :: "nat \<Rightarrow> bool" where
  "is_continuation b \<longleftrightarrow> 0x80 \<le> b \<and> b \<le> 0xBF"

definition valid_utf8_sequence_length :: "bytes \<Rightarrow> nat" where
  "valid_utf8_sequence_length s =
     (let at = (\<lambda>k. byte (s ! k)); first = at 0; remaining = length s in
      if first < 0x80 then 1
      else if 0xC2 \<le> first \<and> first \<le> 0xDF then
        (if remaining \<ge> 2 \<and> is_continuation (at 1) then 2 else 0)
      else if 0xE0 \<le> first \<and> first \<le> 0xEF then
        (if remaining < 3 \<or> \<not> is_continuation (at 2) then 0
         else if \<not> is_continuation (at 1) then 0
         else if first = 0xE0 \<and> at 1 < 0xA0 then 0
         else if first = 0xED \<and> at 1 > 0x9F then 0
         else 3)
      else if 0xF0 \<le> first \<and> first \<le> 0xF4 then
        (if remaining < 4 \<or> \<not> is_continuation (at 2) \<or> \<not> is_continuation (at 3) then 0
         else if \<not> is_continuation (at 1) then 0
         else if first = 0xF0 \<and> at 1 < 0x90 then 0
         else if first = 0xF4 \<and> at 1 > 0x8F then 0
         else 4)
      else 0)"

definition kReplacementCharacter :: bytes where
  "kReplacementCharacter = [CHR 0xEF, CHR 0xBF, CHR 0xBD]"

definition append_utf8_or_replacement :: "bytes \<Rightarrow> bytes \<Rightarrow> bytes \<times> bytes" where
  "append_utf8_or_replacement out s =
     (let n = valid_utf8_sequence_length s in
      if n = 0 then (out @ kReplacementCharacter, tl s)
      else (out @ take n s, drop n s))"

lemma append_utf8_shrinks [termination_simp]:
  "append_utf8_or_replacement out s = (out', s') \<Longrightarrow> s \<noteq> [] \<Longrightarrow> length s' < length s"
  by (auto simp: append_utf8_or_replacement_def Let_def split: if_splits)

lemma append_utf8_snd_less [simp, termination_simp]:
  "length (snd (append_utf8_or_replacement out (c # rest))) < Suc (length rest)"
  using append_utf8_shrinks [of out "c # rest"]
  by (cases "append_utf8_or_replacement out (c # rest)") auto

text \<open>Well-formed UTF-8 (RFC 3629), and the repair that replaces each stray byte by U+FFFD.\<close>

function utf8_ok :: "bytes \<Rightarrow> bool" where
  "utf8_ok s =
     (if s = [] then True
      else let n = valid_utf8_sequence_length s in if n = 0 then False else utf8_ok (drop n s))"
  by pat_completeness auto
termination
  by (relation "measure length") auto

function utf8_repair :: "bytes \<Rightarrow> bytes" where
  "utf8_repair s =
     (if s = [] then []
      else let n = valid_utf8_sequence_length s in
        if n = 0 then kReplacementCharacter @ utf8_repair (tl s)
        else take n s @ utf8_repair (drop n s))"
  by pat_completeness auto
termination
  by (relation "measure length") auto

declare utf8_ok.simps [simp del] utf8_repair.simps [simp del]

lemma utf8_length_1: "valid_utf8_sequence_length s = Suc 0 \<longleftrightarrow> byte (s ! 0) < 0x80"
  by (simp add: valid_utf8_sequence_length_def Let_def)

lemma utf8_length_2:
  "valid_utf8_sequence_length s = 2 \<longleftrightarrow>
     0xC2 \<le> byte (s ! 0) \<and> byte (s ! 0) \<le> 0xDF \<and> 2 \<le> length s \<and> is_continuation (byte (s ! 1))"
  by (simp add: valid_utf8_sequence_length_def Let_def)

lemma utf8_length_3:
  "valid_utf8_sequence_length s = 3 \<longleftrightarrow>
     0xE0 \<le> byte (s ! 0) \<and> byte (s ! 0) \<le> 0xEF \<and> 3 \<le> length s \<and>
     is_continuation (byte (s ! 1)) \<and> is_continuation (byte (s ! 2)) \<and>
     \<not> (byte (s ! 0) = 0xE0 \<and> byte (s ! 1) < 0xA0) \<and>
     \<not> (byte (s ! 0) = 0xED \<and> 0x9F < byte (s ! 1))"
  by (simp add: valid_utf8_sequence_length_def Let_def)

lemma utf8_length_4:
  "valid_utf8_sequence_length s = 4 \<longleftrightarrow>
     0xF0 \<le> byte (s ! 0) \<and> byte (s ! 0) \<le> 0xF4 \<and> 4 \<le> length s \<and>
     is_continuation (byte (s ! 1)) \<and> is_continuation (byte (s ! 2)) \<and>
     is_continuation (byte (s ! 3)) \<and>
     \<not> (byte (s ! 0) = 0xF0 \<and> byte (s ! 1) < 0x90) \<and>
     \<not> (byte (s ! 0) = 0xF4 \<and> 0x8F < byte (s ! 1))"
  by (simp add: valid_utf8_sequence_length_def Let_def) arith

lemmas utf8_lengths = utf8_length_1 utf8_length_2 utf8_length_3 utf8_length_4

lemma utf8_length_range: "valid_utf8_sequence_length s \<in> {0, 1, 2, 3, 4}"
  by (simp add: valid_utf8_sequence_length_def Let_def)

lemma utf8_length_cases:
  assumes "valid_utf8_sequence_length s = n" and "0 < n"
  obtains "n = 1" | "n = 2" | "n = 3" | "n = 4"
  using utf8_length_range [of s] assms by auto

lemma utf8_length_le: "s \<noteq> [] \<Longrightarrow> valid_utf8_sequence_length s \<le> length s"
  by (simp add: valid_utf8_sequence_length_def Let_def Suc_le_eq)

lemma utf8_length_take_append:
  assumes "s \<noteq> []" and n: "valid_utf8_sequence_length s = n" and "0 < n"
  shows "valid_utf8_sequence_length (take n s @ t) = n"
proof -
  have same: "(take n s @ t) ! k = s ! k" if "k < n" for k
    using that utf8_length_le [OF assms(1)] n by (simp add: nth_append)
  have "n \<le> length s" using utf8_length_le [OF assms(1)] n by simp
  then have len: "n \<le> length (take n s @ t)" by simp
  from n \<open>0 < n\<close> show ?thesis
    by (rule utf8_length_cases) (use n same len in \<open>simp_all add: utf8_lengths\<close>)
qed

lemma utf8_sequence_bytes:
  assumes "s \<noteq> []" and n: "valid_utf8_sequence_length s = n" and "0 < n"
  shows "(n = 1 \<and> byte (hd s) < 0x80) \<or> (\<forall>c \<in> set (take n s). 0x80 \<le> byte c)"
proof -
  have "byte (hd s) < 0x80" if "n = 1"
    using n that assms(1) by (simp add: utf8_length_1 hd_conv_nth)
  moreover have "0x80 \<le> byte (s ! k)" if "n \<noteq> 1" and "k < n" for k
  proof -
    have k: "k = 0 \<or> k = 1 \<or> k = 2 \<or> k = 3"
      using that(2) utf8_length_range [of s] n by auto
    from n \<open>0 < n\<close> show ?thesis
      by (rule utf8_length_cases) (use n that k in \<open>auto simp: utf8_lengths is_continuation_def\<close>)
  qed
  ultimately show ?thesis by (cases "n = 1") (auto simp: in_set_conv_nth)
qed

lemma utf8_repair_ok: "utf8_ok s \<Longrightarrow> utf8_repair s = s"
proof (induction s rule: utf8_ok.induct)
  case (1 s)
  then show ?case
    by (cases "s = []")
      (auto simp: utf8_repair.simps [of s] utf8_repair.simps [of "[]"] utf8_ok.simps [of s] Let_def
        split: if_splits)
qed

lemma utf8_ok_append_sequence:
  assumes "s \<noteq> []" and "valid_utf8_sequence_length s = n" and "0 < n" and "utf8_ok t"
  shows "utf8_ok (take n s @ t)"
proof -
  have "length (take n s) = n" using utf8_length_le [OF assms(1)] assms(2) by simp
  with assms utf8_length_take_append [OF assms(1-3)] show ?thesis
    by (subst utf8_ok.simps) (simp add: Let_def)
qed

lemma utf8_ok_ascii: "byte c < 0x80 \<Longrightarrow> utf8_ok t \<Longrightarrow> utf8_ok (c # t)"
  by (subst utf8_ok.simps) (simp add: valid_utf8_sequence_length_def Let_def)

lemma utf8_ok_replacement: "utf8_ok t \<Longrightarrow> utf8_ok (kReplacementCharacter @ t)"
  by (subst utf8_ok.simps)
    (simp add: valid_utf8_sequence_length_def Let_def kReplacementCharacter_def byte_def
      is_continuation_def)

lemma utf8_ok_Nil [simp]: "utf8_ok []"
  by (subst utf8_ok.simps) simp

section \<open>JSON strings\<close>

text \<open>The loop of \<open>json_escape\<close>: the output so far and the rest of the input.\<close>

function json_escape_loop :: "bytes \<Rightarrow> bytes \<Rightarrow> bytes" where
  "json_escape_loop out [] = out"
| "json_escape_loop out (c # rest) =
     (if c = CHR 0x22 \<or> c = CHR 0x5C then json_escape_loop (out @ [CHR 0x5C, c]) rest
      else if byte c < 0x20 then
        json_escape_loop
          (out @ [CHR 0x5C, CHR ''u'', CHR ''0'', CHR ''0'',
                  kHexDigits ! (byte c div 16), kHexDigits ! (byte c mod 16)]) rest
      else (case append_utf8_or_replacement out (c # rest) of
              (out', rest') \<Rightarrow> json_escape_loop out' rest'))"
  by pat_completeness auto
termination
  by (relation "measure (length \<circ> snd)") auto

definition json_escape :: "bytes \<Rightarrow> bytes" where
  "json_escape input = json_escape_loop [] input"

text \<open>A JSON reader positioned after an opening quote: the string up to its closing quote, with
  the escapes the encoder emits, and what follows.\<close>

definition hex_digit_value :: "char \<Rightarrow> int" where
  "hex_digit_value c =
     (if 48 \<le> byte c \<and> byte c \<le> 57 then int (byte c) - 48
      else if 97 \<le> byte c \<and> byte c \<le> 102 then int (byte c) - 97 + 10
      else if 65 \<le> byte c \<and> byte c \<le> 70 then int (byte c) - 65 + 10
      else - 1)"

function json_read_string :: "bytes \<Rightarrow> (bytes \<times> bytes) option" where
  "json_read_string s =
     (case s of
        [] \<Rightarrow> None
      | c # rest \<Rightarrow>
          if c = CHR 0x22 then Some ([], rest)
          else if c = CHR 0x5C then
            (case rest of
               [] \<Rightarrow> None
             | d # rest2 \<Rightarrow>
                 if d = CHR 0x22 \<or> d = CHR 0x5C then
                   map_option (apfst (Cons d)) (json_read_string rest2)
                 else if d = CHR ''u'' \<and> 4 \<le> length rest2 \<and>
                     hex_digit_value (rest2 ! 2) \<noteq> - 1 \<and> hex_digit_value (rest2 ! 3) \<noteq> - 1 \<and>
                     take 2 rest2 = ''00'' then
                   map_option (apfst (Cons (char_of (nat (hex_digit_value (rest2 ! 2) * 16 +
                     hex_digit_value (rest2 ! 3))))))
                     (json_read_string (drop 4 rest2))
                 else None)
          else if byte c < 0x20 then None
          else map_option (apfst (Cons c)) (json_read_string rest))"
  by pat_completeness auto
termination
  by (relation "measure length") (auto split: list.splits)

declare json_read_string.simps [simp del]

lemma append_utf8_accumulates:
  "append_utf8_or_replacement out s = apfst ((@) out) (append_utf8_or_replacement [] s)"
  by (simp add: append_utf8_or_replacement_def Let_def)

lemma json_escape_loop_acc: "json_escape_loop out s = out @ json_escape_loop [] s"
proof (induction "length s" arbitrary: out s rule: less_induct)
  case less
  show ?case
  proof (cases s)
    case Nil
    then show ?thesis by simp
  next
    case (Cons c rest)
    obtain o1 r1 where a: "append_utf8_or_replacement [] s = (o1, r1)"
      by (cases "append_utf8_or_replacement [] s")
    with Cons have "length r1 < length s" by (auto dest: append_utf8_shrinks)
    then have *: "json_escape_loop x r1 = x @ json_escape_loop [] r1" for x
      by (rule less)
    have **: "json_escape_loop x rest = x @ json_escape_loop [] rest" for x
      using less [of rest x] Cons by simp
    from Cons a append_utf8_accumulates [of out s] show ?thesis
      by (simp add: * [of "out @ o1"] * [of o1] **
          [of "out @ [CHR 0x5C, c]"] ** [of "[CHR 0x5C, c]"]
          ** [of "out @ [CHR 0x5C, CHR ''u'', CHR ''0'', CHR ''0'', kHexDigits ! (byte c div 16), kHexDigits ! (byte c mod 16)]"]
          ** [of "[CHR 0x5C, CHR ''u'', CHR ''0'', CHR ''0'', kHexDigits ! (byte c div 16), kHexDigits ! (byte c mod 16)]"])
  qed
qed

text \<open>One round of the loop, without the accumulator.\<close>

definition json_plain :: "char \<Rightarrow> bool" where
  "json_plain c \<longleftrightarrow> c \<noteq> CHR 0x22 \<and> c \<noteq> CHR 0x5C \<and> 0x20 \<le> byte c"

lemma json_escape_Nil [simp]: "json_escape [] = []"
  by (simp add: json_escape_def)

lemma json_escape_special:
  "c = CHR 0x22 \<or> c = CHR 0x5C \<Longrightarrow> json_escape (c # s) = [CHR 0x5C, c] @ json_escape s"
  unfolding json_escape_def by (subst json_escape_loop_acc [symmetric]) auto

lemma json_escape_control:
  assumes "byte c < 0x20"
  shows "json_escape (c # s) =
    [CHR 0x5C, CHR ''u'', CHR ''0'', CHR ''0'',
     kHexDigits ! (byte c div 16), kHexDigits ! (byte c mod 16)] @ json_escape s"
proof -
  have "c \<noteq> CHR 0x22" and "c \<noteq> CHR 0x5C" using assms by (auto simp: byte_def)
  with assms show ?thesis
    unfolding json_escape_def by (subst json_escape_loop_acc [symmetric]) auto
qed

lemma json_escape_stray:
  assumes "json_plain (hd s)" and "s \<noteq> []" and "valid_utf8_sequence_length s = 0"
  shows "json_escape s = kReplacementCharacter @ json_escape (tl s)"
  using assms unfolding json_escape_def json_plain_def
  by (subst json_escape_loop_acc [symmetric], cases s)
    (auto simp: append_utf8_or_replacement_def)

lemma json_escape_sequence:
  assumes "json_plain (hd s)" and "s \<noteq> []" and "valid_utf8_sequence_length s = n" and "0 < n"
  shows "json_escape s = take n s @ json_escape (drop n s)"
  using assms unfolding json_escape_def json_plain_def
  by (subst json_escape_loop_acc [symmetric], cases s)
    (auto simp: append_utf8_or_replacement_def)

lemma ascii_utf8: "byte c < 0x80 \<Longrightarrow> valid_utf8_sequence_length (c # s) = 1"
  by (simp add: utf8_length_1 One_nat_def)

text \<open>Induction along the loop: each round takes a quoted, a control, a stray or a well-formed
  sequence from the front.\<close>

lemma json_escape_induct [case_names Nil special control stray sequence]:
  assumes "P []"
    and "\<And>c s. c = CHR 0x22 \<or> c = CHR 0x5C \<Longrightarrow> P s \<Longrightarrow> P (c # s)"
    and "\<And>c s. byte c < 0x20 \<Longrightarrow> P s \<Longrightarrow> P (c # s)"
    and "\<And>s. s \<noteq> [] \<Longrightarrow> json_plain (hd s) \<Longrightarrow> valid_utf8_sequence_length s = 0 \<Longrightarrow>
           P (tl s) \<Longrightarrow> P s"
    and "\<And>s n. s \<noteq> [] \<Longrightarrow> json_plain (hd s) \<Longrightarrow> valid_utf8_sequence_length s = n \<Longrightarrow> 0 < n \<Longrightarrow>
           P (drop n s) \<Longrightarrow> P s"
  shows "P s"
proof (induction "length s" arbitrary: s rule: less_induct)
  case less
  show ?case
  proof (cases s)
    case Nil
    then show ?thesis using assms(1) by simp
  next
    case (Cons c rest)
    then have "P rest" by (simp add: less)
    have "P (drop n s)" if "0 < n" for n
      using that Cons by (intro less) simp
    with \<open>P rest\<close> Cons show ?thesis
      using assms(2,3) assms(4) [of s] assms(5) [of s "valid_utf8_sequence_length s"]
      by (cases "json_plain c"; cases "valid_utf8_sequence_length s = 0")
        (auto simp: json_plain_def not_le)
  qed
qed

lemma hex_digit_value_kHexDigits: "i < 16 \<Longrightarrow> hex_digit_value (kHexDigits ! i) = int i"
proof -
  assume "i < 16"
  then have "i \<in> set [0..<16]" by simp
  then show ?thesis
    by (auto simp: upt_rec kHexDigits_def hex_digit_value_def byte_def)
qed

lemma json_read_Cons_plain:
  "json_plain c \<Longrightarrow> json_read_string (c # s) = map_option (apfst (Cons c)) (json_read_string s)"
  by (simp add: json_read_string.simps [of "c # s"] json_plain_def)

lemma json_read_plain:
  "\<forall>c \<in> set xs. json_plain c \<Longrightarrow>
     json_read_string (xs @ s) = map_option (apfst ((@) xs)) (json_read_string s)"
  by (induction xs; cases "json_read_string s") (auto simp: json_read_Cons_plain)

lemma json_plain_high: "0x80 \<le> byte c \<Longrightarrow> json_plain c"
  by (auto simp: json_plain_def byte_def)

lemma json_plain_sequence:
  assumes "json_plain (hd s)" and "s \<noteq> []" and "valid_utf8_sequence_length s = n" and "0 < n"
  shows "\<forall>c \<in> set (take n s). json_plain c"
proof (cases "n = 1")
  case True
  then have "take n s = [hd s]" using assms(2) by (cases s) auto
  with assms(1) show ?thesis by simp
next
  case False
  then show ?thesis using utf8_sequence_bytes [OF assms(2-4)] json_plain_high by auto
qed

lemma json_read_u_escape:
  assumes "hi < 16" and "lo < 16"
  shows "json_read_string (CHR 0x5C # CHR ''u'' # CHR ''0'' # CHR ''0'' #
     kHexDigits ! hi # kHexDigits ! lo # s) =
     map_option (apfst (Cons (char_of (hi * 16 + lo)))) (json_read_string s)"
proof -
  have "hex_digit_value (kHexDigits ! hi) = int hi" and "hex_digit_value (kHexDigits ! lo) = int lo"
    by (simp_all add: assms hex_digit_value_kHexDigits)
  moreover have "nat (int hi * 16 + int lo) = hi * 16 + lo" by simp
  ultimately show ?thesis by (subst json_read_string.simps) simp
qed

lemma json_read_control:
  assumes "byte c < 0x20"
  shows "json_read_string ([CHR 0x5C, CHR ''u'', CHR ''0'', CHR ''0'',
     kHexDigits ! (byte c div 16), kHexDigits ! (byte c mod 16)] @ s) =
     map_option (apfst (Cons c)) (json_read_string s)"
proof -
  have "byte c div 16 * 16 + byte c mod 16 = byte c" by simp
  moreover have "char_of (byte c) = c" by (simp add: byte_def)
  ultimately show ?thesis
    using json_read_u_escape [of "byte c div 16" "byte c mod 16" s] assms by simp
qed

lemma kReplacement_plain: "\<forall>c \<in> set kReplacementCharacter. json_plain c"
  by (simp add: kReplacementCharacter_def json_plain_def byte_def)

lemma utf8_repair_Cons_ascii:
  "byte c < 0x80 \<Longrightarrow> utf8_repair (c # s) = c # utf8_repair s"
  using ascii_utf8 [of c s] by (subst utf8_repair.simps) simp

lemma json_read_escape:
  "json_read_string (json_escape s @ CHR 0x22 # rest) = Some (utf8_repair s, rest)"
proof (induction s rule: json_escape_induct)
  case Nil
  show ?case by (subst json_read_string.simps) (simp add: utf8_repair.simps [of "[]"])
next
  case (special c s)
  then have "byte c < 0x80" by (auto simp: byte_def)
  with special show ?case
    by (subst json_read_string.simps) (auto simp: json_escape_special utf8_repair_Cons_ascii)
next
  case (control c s)
  then show ?case
    using json_read_control [of c "json_escape s @ CHR 0x22 # rest"]
    by (simp add: json_escape_control utf8_repair_Cons_ascii)
next
  case (stray s)
  then show ?case
    using json_read_plain [OF kReplacement_plain, of "json_escape (tl s) @ CHR 0x22 # rest"]
    by (simp add: json_escape_stray utf8_repair.simps [of s])
next
  case (sequence s n)
  then show ?case
    using json_read_plain [OF json_plain_sequence, of s n "json_escape (drop n s) @ CHR 0x22 # rest"]
    by (simp add: json_escape_sequence utf8_repair.simps [of s])
qed

lemma kHexDigits_ascii: "i < 16 \<Longrightarrow> 0x20 \<le> byte (kHexDigits ! i) \<and> byte (kHexDigits ! i) < 0x80"
  using kHexDigits_in [of i] by (auto simp: kHexDigits_def byte_def)

lemma json_escape_utf8_ok: "utf8_ok (json_escape s)"
proof (induction s rule: json_escape_induct)
  case Nil
  show ?case by simp
next
  case (special c s)
  then show ?case by (auto simp: json_escape_special byte_def intro!: utf8_ok_ascii)
next
  case (control c s)
  then show ?case
    using kHexDigits_ascii [of "byte c div 16"] kHexDigits_ascii [of "byte c mod 16"]
    by (auto simp: json_escape_control intro!: utf8_ok_ascii) (simp_all add: byte_def)
next
  case (stray s)
  then show ?case by (simp add: json_escape_stray utf8_ok_replacement)
next
  case (sequence s n)
  then show ?case by (simp add: json_escape_sequence utf8_ok_append_sequence)
qed

lemma json_escape_no_control: "\<forall>c \<in> set (json_escape s). 0x20 \<le> byte c"
proof (induction s rule: json_escape_induct)
  case Nil
  show ?case by simp
next
  case (special c s)
  then show ?case by (auto simp: json_escape_special byte_def)
next
  case (control c s)
  then show ?case
    using kHexDigits_ascii [of "byte c div 16"] kHexDigits_ascii [of "byte c mod 16"]
    by (auto simp: json_escape_control) (simp_all add: byte_def)
next
  case (stray s)
  then show ?case using kReplacement_plain by (auto simp: json_escape_stray json_plain_def)
next
  case (sequence s n)
  then show ?case
    using json_plain_sequence [of s n] by (auto simp: json_escape_sequence json_plain_def)
qed

section \<open>Properties\<close>

text \<open>What \<open>json_escape\<close> produces, put between quotes, is one JSON string: a reader that undoes the
  escapes stops at the closing quote and has the input back, with malformed UTF-8 replaced; the text
  holds no control byte and is well-formed UTF-8.\<close>

theorem json_escape_round_trip:
  "json_read_string (json_escape s @ CHR 0x22 # rest) = Some (utf8_repair s, rest) \<and>
   utf8_ok (json_escape s) \<and> (\<forall>c. c \<in> set (json_escape s) \<longrightarrow> 0x20 \<le> byte c)"
  using json_read_escape json_escape_utf8_ok json_escape_no_control by blast

theorem json_escape_round_trip_witness:
  "json_read_string (json_escape [CHR 0x22, CHR 0x0A] @ CHR 0x22 # ''x'') =
     Some (utf8_repair [CHR 0x22, CHR 0x0A], ''x'')"
  using json_escape_round_trip [of "[CHR 0x22, CHR 0x0A]" "''x''"] by blast

text \<open>\<open>html_escape\<close> loses nothing and emits no markup: unescaping gives the input back, and the
  output holds no angle bracket and no quote.\<close>

theorem html_escape_round_trip:
  "html_unescape (html_escape s) = s \<and> set (html_escape s) \<inter> html_markup = {}"
  using html_unescape_escape html_escape_no_markup by blast

end
