(* ===== verification/Http_Text_Format.thy ===== *)
theory Http_Text_Format
  imports Http_Text
begin

unbundle bit_operations_syntax

text \<open>
  The rest of \<open>text.cpp\<close>: Prometheus label values, URL decoding, durations, digit
  grouping, the constant-time comparison and the HTTP date.
\<close>

section \<open>Prometheus label values\<close>

function prometheus_label_escape_loop :: "bytes \<Rightarrow> bytes \<Rightarrow> bytes" where
  "prometheus_label_escape_loop out [] = out"
| "prometheus_label_escape_loop out (c # rest) =
     (if byte c \<ge> 0x80 then
        (case append_utf8_or_replacement out (c # rest) of
           (out', rest') \<Rightarrow> prometheus_label_escape_loop out' rest')
      else if (byte c < 0x20 \<and> c \<noteq> CHR 0x0A) \<or> byte c = 0x7F then
        prometheus_label_escape_loop (out @ kReplacementCharacter) rest
      else
        prometheus_label_escape_loop
          (out @ (if c = CHR 0x5C then [CHR 0x5C, CHR 0x5C]
                  else if c = CHR 0x22 then [CHR 0x5C, CHR 0x22]
                  else if c = CHR 0x0A then [CHR 0x5C, CHR ''n'']
                  else [c])) rest)"
  by pat_completeness auto
termination
  by (relation "measure (length \<circ> snd)") auto

definition prometheus_label_escape :: "bytes \<Rightarrow> bytes" where
  "prometheus_label_escape input = prometheus_label_escape_loop [] input"

text \<open>A scraper reading a label value after its opening quote.\<close>

fun label_read :: "bytes \<Rightarrow> (bytes \<times> bytes) option" where
  "label_read [] = None"
| "label_read (c # rest) =
     (if c = CHR 0x22 then Some ([], rest)
      else if c = CHR 0x5C then
        (case rest of
           [] \<Rightarrow> None
         | d # rest2 \<Rightarrow>
             if d = CHR 0x5C \<or> d = CHR 0x22 then map_option (apfst (Cons d)) (label_read rest2)
             else if d = CHR ''n'' then map_option (apfst (Cons (CHR 0x0A))) (label_read rest2)
             else None)
      else if c = CHR 0x0A then None
      else map_option (apfst (Cons c)) (label_read rest))"

text \<open>What a scraper sees: stray bytes and control characters other than the line feed as U+FFFD,
  everything else unchanged.\<close>

function label_repair :: "bytes \<Rightarrow> bytes" where
  "label_repair s =
     (if s = [] then []
      else if byte (hd s) \<ge> 0x80 then
        (let n = valid_utf8_sequence_length s in
         if n = 0 then kReplacementCharacter @ label_repair (tl s)
         else take n s @ label_repair (drop n s))
      else if (byte (hd s) < 0x20 \<and> hd s \<noteq> CHR 0x0A) \<or> byte (hd s) = 0x7F then
        kReplacementCharacter @ label_repair (tl s)
      else hd s # label_repair (tl s))"
  by pat_completeness auto
termination
  by (relation "measure length") auto

declare label_repair.simps [simp del]

lemma prometheus_loop_acc:
  "prometheus_label_escape_loop out s = out @ prometheus_label_escape_loop [] s"
proof (induction "length s" arbitrary: out s rule: less_induct)
  case less
  show ?case
  proof (cases s)
    case Nil
    then show ?thesis by simp
  next
    case (Cons c rest)
    obtain o1 r1 where a: "append_utf8_or_replacement [] s = (o1, r1)"
      by (cases "append_utf8_or_replacement [] s")
    with Cons have "length r1 < length s" by (auto dest: append_utf8_shrinks)
    then have *: "prometheus_label_escape_loop x r1 = x @ prometheus_label_escape_loop [] r1" for x
      by (rule less)
    have **: "prometheus_label_escape_loop x rest = x @ prometheus_label_escape_loop [] rest" for x
      using less [of rest x] Cons by simp
    from Cons a append_utf8_accumulates [of out s] show ?thesis
      by (simp add: * [of "out @ o1"] * [of o1] ** [of "_ # _"] ** [of "out @ _"]
          ** [of kReplacementCharacter])
  qed
qed

lemma prometheus_escape_Nil [simp]: "prometheus_label_escape [] = []"
  by (simp add: prometheus_label_escape_def)

lemma prometheus_escape_stray:
  assumes "s \<noteq> []" and "0x80 \<le> byte (hd s)" and "valid_utf8_sequence_length s = 0"
  shows "prometheus_label_escape s = kReplacementCharacter @ prometheus_label_escape (tl s)"
  using assms unfolding prometheus_label_escape_def
  by (subst prometheus_loop_acc [symmetric], cases s) (auto simp: append_utf8_or_replacement_def)

lemma prometheus_escape_sequence:
  assumes "s \<noteq> []" and "0x80 \<le> byte (hd s)" and "valid_utf8_sequence_length s = n" and "0 < n"
  shows "prometheus_label_escape s = take n s @ prometheus_label_escape (drop n s)"
  using assms unfolding prometheus_label_escape_def
  by (subst prometheus_loop_acc [symmetric], cases s) (auto simp: append_utf8_or_replacement_def)

definition label_escape_char :: "char \<Rightarrow> bytes" where
  "label_escape_char c =
     (if (byte c < 0x20 \<and> c \<noteq> CHR 0x0A) \<or> byte c = 0x7F then kReplacementCharacter
      else if c = CHR 0x5C then [CHR 0x5C, CHR 0x5C]
      else if c = CHR 0x22 then [CHR 0x5C, CHR 0x22]
      else if c = CHR 0x0A then [CHR 0x5C, CHR ''n'']
      else [c])"

lemma prometheus_escape_ascii:
  "byte c < 0x80 \<Longrightarrow> prometheus_label_escape (c # s) = label_escape_char c @ prometheus_label_escape s"
  unfolding prometheus_label_escape_def label_escape_char_def
  by (subst prometheus_loop_acc [symmetric]) simp

lemma label_escape_induct [case_names Nil ascii stray sequence]:
  assumes "P []"
    and "\<And>c s. byte c < 0x80 \<Longrightarrow> P s \<Longrightarrow> P (c # s)"
    and "\<And>s. s \<noteq> [] \<Longrightarrow> 0x80 \<le> byte (hd s) \<Longrightarrow> valid_utf8_sequence_length s = 0 \<Longrightarrow>
           P (tl s) \<Longrightarrow> P s"
    and "\<And>s n. s \<noteq> [] \<Longrightarrow> 0x80 \<le> byte (hd s) \<Longrightarrow> valid_utf8_sequence_length s = n \<Longrightarrow> 0 < n \<Longrightarrow>
           P (drop n s) \<Longrightarrow> P s"
  shows "P s"
proof (induction "length s" arbitrary: s rule: less_induct)
  case less
  show ?case
  proof (cases s)
    case Nil
    then show ?thesis using assms(1) by simp
  next
    case (Cons c rest)
    then have "P rest" by (simp add: less)
    have "P (drop n s)" if "0 < n" for n
      using that Cons by (intro less) simp
    with \<open>P rest\<close> Cons show ?thesis
      using assms(2) assms(3) [of s] assms(4) [of s "valid_utf8_sequence_length s"]
      by (cases "byte c < 0x80"; cases "valid_utf8_sequence_length s = 0") auto
  qed
qed

definition label_plain :: "char \<Rightarrow> bool" where
  "label_plain c \<longleftrightarrow> c \<noteq> CHR 0x22 \<and> c \<noteq> CHR 0x5C \<and> c \<noteq> CHR 0x0A"

lemma label_read_Cons_plain:
  "label_plain c \<Longrightarrow> label_read (c # s) = map_option (apfst (Cons c)) (label_read s)"
  by (simp add: label_plain_def)

lemma label_read_plain:
  "\<forall>c \<in> set xs. label_plain c \<Longrightarrow>
     label_read (xs @ s) = map_option (apfst ((@) xs)) (label_read s)"
  by (induction xs; cases "label_read s") (auto simp: label_read_Cons_plain simp del: label_read.simps)

lemma label_plain_high: "0x80 \<le> byte c \<Longrightarrow> label_plain c"
  by (auto simp: label_plain_def byte_def)

lemma label_plain_sequence:
  assumes "s \<noteq> []" and "0x80 \<le> byte (hd s)" and "valid_utf8_sequence_length s = n" and "0 < n"
  shows "\<forall>c \<in> set (take n s). 0x80 \<le> byte c"
  using utf8_sequence_bytes [OF assms(1,3,4)] assms(2) by auto

lemma kReplacement_high: "\<forall>c \<in> set kReplacementCharacter. 0x80 \<le> byte c"
  by (simp add: kReplacementCharacter_def byte_def)

lemma label_read_ascii:
  assumes "byte c < 0x80"
  shows "label_read (label_escape_char c @ s) =
    map_option (apfst ((@) (if (byte c < 0x20 \<and> c \<noteq> CHR 0x0A) \<or> byte c = 0x7F
      then kReplacementCharacter else [c]))) (label_read s)"
  using label_read_plain [of kReplacementCharacter s] kReplacement_high label_plain_high
  by (cases "label_read s") (auto simp: label_escape_char_def)

lemma label_read_escape:
  "label_read (prometheus_label_escape s @ CHR 0x22 # rest) = Some (label_repair s, rest)"
proof (induction s rule: label_escape_induct)
  case Nil
  show ?case by (simp add: label_repair.simps [of "[]"])
next
  case (ascii c s)
  then show ?case
    using label_read_ascii [of c "prometheus_label_escape s @ CHR 0x22 # rest"]
    by (simp add: prometheus_escape_ascii label_repair.simps [of "c # s"])
next
  case (stray s)
  then show ?case
    using label_read_plain [of kReplacementCharacter "prometheus_label_escape (tl s) @ CHR 0x22 # rest"]
      kReplacement_high label_plain_high
    by (simp add: prometheus_escape_stray label_repair.simps [of s])
next
  case (sequence s n)
  then show ?case
    using label_read_plain [of "take n s" "prometheus_label_escape (drop n s) @ CHR 0x22 # rest"]
      label_plain_sequence [of s n] label_plain_high
    by (simp add: prometheus_escape_sequence label_repair.simps [of s])
qed

lemma label_escape_char_no_newline: "CHR 0x0A \<notin> set (label_escape_char c)"
  by (auto simp: label_escape_char_def kReplacementCharacter_def)

lemma prometheus_escape_no_newline: "CHR 0x0A \<notin> set (prometheus_label_escape s)"
proof (induction s rule: label_escape_induct)
  case Nil
  show ?case by simp
next
  case (ascii c s)
  then show ?case by (simp add: prometheus_escape_ascii label_escape_char_no_newline)
next
  case (stray s)
  then show ?case by (simp add: prometheus_escape_stray kReplacementCharacter_def)
next
  case (sequence s n)
  then have "CHR 0x0A \<notin> set (take n s)"
    using label_plain_sequence [of s n] by (auto simp: byte_def)
  with sequence show ?case by (simp add: prometheus_escape_sequence)
qed

lemma prometheus_escape_utf8_ok: "utf8_ok (prometheus_label_escape s)"
proof (induction s rule: label_escape_induct)
  case Nil
  show ?case by simp
next
  case (ascii c s)
  then show ?case
    by (auto simp: prometheus_escape_ascii label_escape_char_def byte_def
        intro!: utf8_ok_ascii utf8_ok_replacement)
next
  case (stray s)
  then show ?case by (simp add: prometheus_escape_stray utf8_ok_replacement)
next
  case (sequence s n)
  then show ?case by (simp add: prometheus_escape_sequence utf8_ok_append_sequence)
qed

section \<open>URL decoding\<close>

text \<open>The loop of \<open>url_decode\<close>: the decoded prefix and the rest of the input. An escape needs
  two more characters, both hexadecimal digits, and must not encode NUL.\<close>

fun url_decode_loop :: "bytes \<Rightarrow> bytes \<Rightarrow> bytes option" where
  "url_decode_loop decoded [] = Some decoded"
| "url_decode_loop decoded (c # rest) =
     (if c = CHR ''+'' then url_decode_loop (decoded @ [CHR '' '']) rest
      else if c = CHR ''%'' then
        (if length rest < 2 then None
         else let high = hex_digit_value (rest ! 0); low = hex_digit_value (rest ! 1) in
           if high = - 1 \<or> low = - 1 then None
           else let decoded_byte = high * 16 + low in
             if decoded_byte = 0 then None
             else url_decode_loop (decoded @ [char_of (nat decoded_byte)]) (drop 2 rest))
      else if c = CHR 0x00 then None
      else url_decode_loop (decoded @ [c]) rest)"

definition url_decode :: "bytes \<Rightarrow> bytes option" where
  "url_decode input = url_decode_loop [] input"

text \<open>A strict percent encoder: letters and digits stand for themselves.\<close>

definition url_unreserved :: "char \<Rightarrow> bool" where
  "url_unreserved c \<longleftrightarrow>
     (48 \<le> byte c \<and> byte c \<le> 57) \<or> (97 \<le> byte c \<and> byte c \<le> 122) \<or> (65 \<le> byte c \<and> byte c \<le> 90)"

definition url_encode :: "bytes \<Rightarrow> bytes" where
  "url_encode s =
     concat (map (\<lambda>c. if url_unreserved c then [c]
       else [CHR ''%'', kHexDigits ! (byte c div 16), kHexDigits ! (byte c mod 16)]) s)"

lemma hex_digit_value_range: "hex_digit_value c \<in> {- 1..15}"
  by (auto simp: hex_digit_value_def)

lemma decoded_byte_range:
  assumes "hex_digit_value h \<noteq> - 1" and "hex_digit_value l \<noteq> - 1"
  shows "0 \<le> hex_digit_value h * 16 + hex_digit_value l"
    and "hex_digit_value h * 16 + hex_digit_value l < 256"
  using hex_digit_value_range [of h] hex_digit_value_range [of l] assms by auto

lemma url_decode_loop_bound:
  "url_decode_loop decoded s = Some out \<Longrightarrow>
     length out \<le> length decoded + length s \<and> (CHR 0x00 \<notin> set decoded \<longrightarrow> CHR 0x00 \<notin> set out)"
proof (induction decoded s rule: url_decode_loop.induct)
  case (1 decoded)
  then show ?case by simp
next
  case (2 decoded c rest)
  have nz: "char_of (nat b) \<noteq> CHR 0x00" if "0 \<le> b" "b < 256" "b \<noteq> 0" for b
  proof
    assume "char_of (nat b) = CHR 0x00"
    then have "byte (char_of (nat b)) = byte (CHR 0x00)" by simp
    with that show False by (simp add: nat_less_iff) (simp add: byte_def)
  qed
  consider "c = CHR ''+''" | "c = CHR ''%''" | "c \<noteq> CHR ''+''" "c \<noteq> CHR ''%''" by blast
  then show ?case
  proof cases
    case 1
    with 2 show ?thesis by fastforce
  next
    case c: 2
    let ?b = "hex_digit_value (rest ! 0) * 16 + hex_digit_value (rest ! 1)"
    from c 2(4) have ok: "\<not> length rest < 2" "hex_digit_value (rest ! 0) \<noteq> - 1"
        "hex_digit_value (rest ! 1) \<noteq> - 1" "?b \<noteq> 0"
      and "url_decode_loop (decoded @ [char_of (nat ?b)]) (drop 2 rest) = Some out"
      by (auto simp: Let_def split: if_splits)
    with c 2(2) [OF _ c ok(1) refl refl _ refl ok(4)] have
      "length out \<le> length (decoded @ [char_of (nat ?b)]) + length (drop 2 rest) \<and>
       (CHR 0x00 \<notin> set (decoded @ [char_of (nat ?b)]) \<longrightarrow> CHR 0x00 \<notin> set out)"
      by simp
    with ok nz [OF decoded_byte_range [OF ok(2,3)] ok(4)] show ?thesis by auto
  next
    case 3
    with 2 show ?thesis by (fastforce split: if_splits)
  qed
qed

lemma url_decode_loop_escape:
  assumes "hi < 16" and "lo < 16" and "hi * 16 + lo \<noteq> 0"
  shows "url_decode_loop decoded (CHR ''%'' # kHexDigits ! hi # kHexDigits ! lo # s) =
    url_decode_loop (decoded @ [char_of (hi * 16 + lo)]) s"
proof -
  have "hex_digit_value (kHexDigits ! hi) = int hi" "hex_digit_value (kHexDigits ! lo) = int lo"
    by (simp_all add: assms hex_digit_value_kHexDigits)
  moreover have "nat (int hi * 16 + int lo) = hi * 16 + lo" by simp
  moreover have "int hi * 16 + int lo \<noteq> 0" using assms(3) by linarith
  ultimately show ?thesis by (simp add: Let_def)
qed

lemma url_decode_loop_encode:
  "CHR 0x00 \<notin> set s \<Longrightarrow> url_decode_loop decoded (url_encode s @ t) = url_decode_loop (decoded @ s) t"
proof (induction s arbitrary: decoded)
  case Nil
  then show ?case by (simp add: url_encode_def)
next
  case (Cons c s)
  have tail: "url_encode (c # s) @ t =
      (if url_unreserved c then [c]
       else [CHR ''%'', kHexDigits ! (byte c div 16), kHexDigits ! (byte c mod 16)]) @ (url_encode s @ t)"
    by (simp add: url_encode_def)
  show ?case
  proof (cases "url_unreserved c")
    case True
    then have "c \<noteq> CHR ''+''" "c \<noteq> CHR ''%''" "c \<noteq> CHR 0x00"
      by (auto simp: url_unreserved_def byte_def)
    with True Cons show ?thesis by (simp add: tail)
  next
    case False
    have d: "byte c div 16 < 16" "byte c mod 16 < 16"
      using byte_lt_256 [of c] by (auto simp: less_mult_imp_div_less)
    have "byte c \<noteq> byte (CHR 0x00)" using Cons.prems by auto
    then have "byte c div 16 * 16 + byte c mod 16 \<noteq> 0" by (simp add: byte_def)
    moreover have "char_of (byte c div 16 * 16 + byte c mod 16) = c" by (simp add: byte_def)
    ultimately show ?thesis
      using False Cons url_decode_loop_escape [OF d, of decoded "url_encode s @ t"]
      by (simp add: tail)
  qed
qed

lemma url_decode_encode: "CHR 0x00 \<notin> set s \<Longrightarrow> url_decode (url_encode s) = Some s"
  using url_decode_loop_encode [of s "[]" "[]"] by (simp add: url_decode_def)

section \<open>Durations and digit grouping\<close>

definition format_duration :: "int \<Rightarrow> bytes" where
  "format_duration duration =
     (let seconds_total = nat (max duration 0);
          days = seconds_total div 86400;
          hours = seconds_total div 3600 mod 24;
          minutes = seconds_total div 60 mod 60;
          seconds = seconds_total mod 60
      in if days > 0 then
           nat_to_dec days @ ''d '' @ nat_to_dec hours @ ''h '' @ nat_to_dec minutes @ ''m '' @
           nat_to_dec seconds @ ''s''
         else if hours > 0 then
           nat_to_dec hours @ ''h '' @ nat_to_dec minutes @ ''m '' @ nat_to_dec seconds @ ''s''
         else if minutes > 0 then nat_to_dec minutes @ ''m '' @ nat_to_dec seconds @ ''s''
         else nat_to_dec seconds @ ''s'')"

text \<open>The lambda of \<open>group_digits\<close>: \<open>read_index\<close> counts down over the digits, the buffer is
  written from its end.\<close>

fun fill_from_the_right :: "bytes \<Rightarrow> nat \<Rightarrow> bytes \<Rightarrow> nat \<Rightarrow> nat \<Rightarrow> bytes \<times> nat" where
  "fill_from_the_right digits 0 buffer write_index digits_in_group = (buffer, write_index)"
| "fill_from_the_right digits (Suc read_index) buffer write_index digits_in_group =
     (let (buffer, write_index, digits_in_group) =
            (if digits_in_group = 3 then (buffer[write_index - 1 := CHR '',''], write_index - 1, 0)
             else (buffer, write_index, digits_in_group))
      in fill_from_the_right digits read_index
           (buffer[write_index - 1 := digits ! read_index]) (write_index - 1)
           (Suc digits_in_group))"

definition group_digits :: "nat \<Rightarrow> bytes" where
  "group_digits value =
     (let digits = nat_to_dec value;
          digit_count = length digits;
          separator_count = (digit_count - 1) div 3;
          size = digit_count + separator_count
      in fst (fill_from_the_right digits digit_count (replicate size (CHR 0x00)) size 0))"

text \<open>Specification: reading from the right, a comma before every fourth digit.\<close>

fun grouped_rev :: "nat \<Rightarrow> bytes \<Rightarrow> bytes" where
  "grouped_rev g [] = []"
| "grouped_rev g (d # ds) =
     (if g = 3 then CHR '','' # d # grouped_rev 1 ds else d # grouped_rev (Suc g) ds)"

lemma length_grouped_rev:
  "g \<le> 3 \<Longrightarrow> length (grouped_rev g ds) = length ds + (if ds = [] then 0 else (g + length ds - 1) div 3)"
proof (induction g ds rule: grouped_rev.induct)
  case (1 g)
  then show ?case by simp
next
  case (2 g d ds)
  show ?case
  proof (cases "g = 3")
    case True
    with 2 show ?thesis by (cases "ds = []") auto
  next
    case False
    with 2 show ?thesis by (cases "ds = []") auto
  qed
qed

lemma filter_grouped_rev: "CHR '','' \<notin> set ds \<Longrightarrow> filter (\<lambda>c. c \<noteq> CHR '','') (grouped_rev g ds) = ds"
  by (induction g ds rule: grouped_rev.induct) auto

lemma fill_from_the_right_spec:
  assumes "r \<le> length digits" and "g \<le> 3"
    and "w = length (grouped_rev g (rev (take r digits)))" and "w \<le> length buf"
  shows "fill_from_the_right digits r buf w g =
           (rev (grouped_rev g (rev (take r digits))) @ drop w buf, 0)"
  using assms
proof (induction digits r buf w g rule: fill_from_the_right.induct)
  case (1 digits buffer w g)
  then show ?case by simp
next
  case (2 digits r buffer w g)
  have take: "rev (take (Suc r) digits) = digits ! r # rev (take r digits)"
    using 2(2) by (simp add: take_Suc_conv_app_nth)
  have upd: "(drop (w - 1) (buf[w - 1 := x])) = x # drop w buf" if "0 < w" "w \<le> length buf"
    for buf :: bytes and w x
    using that by (cases w) (simp_all add: drop_update_swap Cons_nth_drop_Suc [symmetric])
  show ?case
  proof (cases "g = 3")
    case True
    let ?rest = "grouped_rev 1 (rev (take r digits))"
    have w: "w = Suc (Suc (length ?rest))" using 2(4) True by (simp add: take)
    let ?buf = "buffer[Suc (length ?rest) := CHR '','', length ?rest := digits ! r]"
    have "fill_from_the_right digits r ?buf (length ?rest) 1 =
        (rev ?rest @ drop (length ?rest) ?buf, 0)"
      using 2(1) [OF refl, of "buffer[w - 1 := CHR '','']" "(w - 1, 0)" "w - 1" 0] 2(2,5) True w
      by (simp add: Let_def)
    moreover have "drop (length ?rest) ?buf = digits ! r # CHR '','' # drop w buffer"
      using w 2(5) upd [of "Suc (length ?rest)" "buffer[Suc (length ?rest) := CHR '','']" "digits ! r"]
        upd [of w buffer "CHR '',''"] by simp
    ultimately show ?thesis using True w by (simp add: take Let_def)
  next
    case False
    let ?rest = "grouped_rev (Suc g) (rev (take r digits))"
    have w: "w = Suc (length ?rest)" using 2(4) False by (simp add: take)
    have "fill_from_the_right digits r (buffer[length ?rest := digits ! r]) (length ?rest) (Suc g) =
        (rev ?rest @ drop (length ?rest) (buffer[length ?rest := digits ! r]), 0)"
      using 2(1) [OF refl, of buffer "(w, g)" w g] 2(2,3,5) False w by (simp add: Let_def)
    then show ?thesis
      using False w 2(5) upd [of w buffer "digits ! r"] by (simp add: take Let_def)
  qed
qed

lemma group_digits_spec: "group_digits v = rev (grouped_rev 0 (rev (nat_to_dec v)))"
proof -
  have "length (nat_to_dec v) + (length (nat_to_dec v) - 1) div 3 =
      length (grouped_rev 0 (rev (nat_to_dec v)))"
    using length_grouped_rev [of 0 "rev (nat_to_dec v)"] by simp
  then show ?thesis
    using fill_from_the_right_spec [of "length (nat_to_dec v)" "nat_to_dec v" 0]
    by (simp add: group_digits_def Let_def)
qed

lemma digits_no_comma: "CHR '','' \<notin> set (nat_to_dec n)"
  using nat_to_dec_digits [of n] by (auto simp: is_decimal_digit_def byte_def)

lemma group_digits_value: "dec_value (filter (\<lambda>c. c \<noteq> CHR '','') (group_digits v)) = v"
  by (simp add: group_digits_spec rev_filter [symmetric] filter_grouped_rev digits_no_comma)

section \<open>Constant-time comparison\<close>

definition constant_time_equals :: "bytes \<Rightarrow> bytes \<Rightarrow> bool" where
  "constant_time_equals left right \<longleftrightarrow>
     (if length left \<noteq> length right then False
      else fold (\<lambda>(l, r) difference. difference OR (of_nat (byte l) XOR of_nat (byte r)))
             (zip left right) (0 :: 8 word) = 0)"

lemma byte_word_eq: "(of_nat (byte l) :: 8 word) = of_nat (byte r) \<longleftrightarrow> l = r"
  by (simp add: of_nat_inverse word_unat_eq_iff unat_of_nat)

lemma or_zero_iff: "(a OR b = 0) \<longleftrightarrow> a = 0 \<and> b = (0 :: 8 word)"
  by (auto simp: bit_eq_iff bit_or_iff)

lemma xor_zero_iff: "(a XOR b = 0) \<longleftrightarrow> a = (b :: 8 word)"
  by (auto simp: bit_eq_iff bit_xor_iff)

lemma difference_zero_iff:
  "length l = length r \<Longrightarrow>
    fold (\<lambda>(l, r) d. d OR (of_nat (byte l) XOR of_nat (byte r))) (zip l r) (d :: 8 word) = 0 \<longleftrightarrow>
      d = 0 \<and> l = r"
  by (induction l r arbitrary: d rule: list_induct2)
    (auto simp: or_zero_iff xor_zero_iff byte_word_eq)

lemma constant_time_equals_eq: "constant_time_equals l r \<longleftrightarrow> l = r"
  by (auto simp: constant_time_equals_def difference_zero_iff)

section \<open>HTTP date\<close>

text \<open>\<open>http_date\<close> of a system-clock time in whole seconds since the epoch: the civil date of the
  proleptic Gregorian calendar and the time of day, in IMF-fixdate form.\<close>

definition civil_from_days :: "int \<Rightarrow> int \<times> int \<times> int" where
  "civil_from_days days =
     (let z = days + 719468;
          era = z div 146097;
          doe = z mod 146097;
          yoe = (doe - doe div 1460 + doe div 36524 - doe div 146096) div 365;
          doy = doe - (365 * yoe + yoe div 4 - yoe div 100);
          mp = (5 * doy + 2) div 153;
          d = doy - (153 * mp + 2) div 5 + 1;
          m = (if mp < 10 then mp + 3 else mp - 9);
          y = yoe + era * 400 + (if m \<le> 2 then 1 else 0)
      in (y, m, d))"

definition pad_left :: "nat \<Rightarrow> bytes \<Rightarrow> bytes" where
  "pad_left n s = replicate (n - length s) (CHR ''0'') @ s"

definition http_date :: "int \<Rightarrow> bytes" where
  "http_date when =
     (let days = when div 86400; sod = nat (when mod 86400);
          (y, m, d) = civil_from_days days;
          two = (\<lambda>n. pad_left 2 (nat_to_dec n))
      in [''Sun'', ''Mon'', ''Tue'', ''Wed'', ''Thu'', ''Fri'', ''Sat''] ! nat ((days + 4) mod 7) @
         '', '' @ two (nat d) @ '' '' @
         [''Jan'', ''Feb'', ''Mar'', ''Apr'', ''May'', ''Jun'', ''Jul'', ''Aug'', ''Sep'', ''Oct'',
          ''Nov'', ''Dec''] ! nat (m - 1) @ '' '' @
         (if y < 0 then ''-'' else []) @ pad_left 4 (nat_to_dec (nat \<bar>y\<bar>)) @ '' '' @
         two (sod div 3600) @ '':'' @ two (sod div 60 mod 60) @ '':'' @ two (sod mod 60) @ '' GMT'')"

lemma civil_from_days_example: "civil_from_days 9075 = (1994, 11, 6)"
  by code_simp

lemma http_date_rfc9110_example: "http_date 784111777 = ''Sun, 06 Nov 1994 08:49:37 GMT''"
  by (simp add: http_date_def civil_from_days_example sv_simps pad_left_def)

section \<open>The range of a date\<close>

text \<open>The year of an era: \<open>civil_f\<close> is monotone, and the table of the 400 years of an era pins it at the
  first and last day of each.\<close>

definition civil_f :: "int \<Rightarrow> int" where
  "civil_f x = x - x div 1460 + x div 36524 - x div 146096"

definition civil_start :: "int \<Rightarrow> int" where
  "civil_start y = 365 * y + y div 4 - y div 100"

definition civil_last :: "int \<Rightarrow> int" where
  "civil_last y = (if y = 399 then 146096 else civil_start (y + 1) - 1)"

lemma sub_div_mono:
  fixes x y k :: int
  assumes "x \<le> y" and "0 < k"
  shows "x - x div k \<le> y - y div k"
proof -
  obtain d where d: "y = x + int d" using assms(1) zle_iff_zadd by blast
  have "(x + int d) div k \<le> x div k + int d" for d
  proof (induction d)
    case (Suc d)
    have "(x + int d + 1) div k \<le> (x + int d) div k + 1"
      using zdiv_mono1 [of "x + int d + 1" "x + int d + k" k] assms(2) by (simp add: div_add_self2)
    then show ?case using Suc by (simp add: algebra_simps)
  qed simp
  from this [of d] show ?thesis using d by simp
qed

lemma civil_f_mono: "x \<le> y \<Longrightarrow> civil_f x \<le> civil_f y"
proof -
  assume le: "x \<le> y"
  have "z div 146096 = z div 36524 div 4" for z :: int by (simp add: zdiv_zmult2_eq [symmetric])
  moreover have "x div 36524 \<le> y div 36524" using le by (intro zdiv_mono1) simp_all
  ultimately show ?thesis
    using sub_div_mono [OF le, of 1460] sub_div_mono [of "x div 36524" "y div 36524" 4]
    unfolding civil_f_def by simp
qed

lemma civil_table:
  "list_all (\<lambda>y. 365 * y \<le> civil_f (civil_start y) \<and> civil_f (civil_last y) < 365 * y + 365 \<and>
     civil_last y - civil_start y \<le> 365) [0..399]"
  by code_simp

lemma civil_year_of:
  assumes "0 \<le> x" and "x < 146097"
  shows "\<exists>y \<in> {0..399}. civil_start y \<le> x \<and> x \<le> civil_last y"
proof -
  have "\<exists>y \<in> {0..int n}. civil_start y \<le> x \<and> x \<le> civil_last y"
    if "n \<le> 399" "x \<le> civil_last (int n)" for n
    using that
  proof (induction n)
    case 0
    then show ?case using assms(1) by (auto simp: civil_start_def)
  next
    case (Suc n)
    show ?case
    proof (cases "civil_start (int (Suc n)) \<le> x")
      case True
      then show ?thesis using Suc.prems by (auto intro!: bexI [of _ "int (Suc n)"])
    next
      case False
      then have "x \<le> civil_last (int n)" using Suc.prems(1) by (simp add: civil_last_def not_le add.commute)
      then obtain y where "y \<in> {0..int n}" "civil_start y \<le> x \<and> x \<le> civil_last y"
        using Suc.IH Suc.prems(1) by auto
      then show ?thesis by (auto intro!: bexI [of _ y])
    qed
  qed
  from this [of 399] show ?thesis using assms(2) by (auto simp: civil_last_def)
qed

lemma civil_doy:
  assumes "0 \<le> x" and "x < 146097"
  defines "y \<equiv> civil_f x div 365"
  shows "0 \<le> x - civil_start y \<and> x - civil_start y \<le> 365"
proof -
  obtain z where z: "z \<in> {0..399}" "civil_start z \<le> x" "x \<le> civil_last z"
    using civil_year_of [OF assms(1,2)] by blast
  then have t: "365 * z \<le> civil_f (civil_start z)" "civil_f (civil_last z) < 365 * z + 365"
    "civil_last z - civil_start z \<le> 365"
    using civil_table by (auto simp: list_all_iff)
  have "365 * z \<le> civil_f x" "civil_f x < 365 * z + 365"
    using t civil_f_mono [OF z(2)] civil_f_mono [OF z(3)] by linarith+
  then have "y = z" unfolding y_def by (intro int_div_pos_eq [of _ _ _ "civil_f x - 365 * z"]) simp_all
  then show ?thesis using z(2,3) t(3) by auto
qed

lemma civil_month:
  assumes "civil_from_days d = (y, m, day)"
  shows "1 \<le> m \<and> m \<le> 12"
proof -
  define doe where "doe = (d + 719468) mod 146097"
  define yoe where "yoe = civil_f doe div 365"
  define doy where "doy = doe - civil_start yoe"
  define mp where "mp = (5 * doy + 2) div 153"
  have "0 \<le> doy" "doy \<le> 365"
    using civil_doy [of doe] by (simp_all add: doe_def doy_def yoe_def)
  then have "0 \<le> mp" "mp \<le> 11" unfolding mp_def by auto
  moreover have "fst (snd (civil_from_days d)) = (if mp < 10 then mp + 3 else mp - 9)"
    unfolding civil_from_days_def Let_def fst_conv snd_conv doe_def yoe_def doy_def mp_def civil_f_def
      civil_start_def by (rule refl)
  ultimately show ?thesis using assms by auto
qed

text \<open>A date is printable.\<close>

lemma pad_left_set: "set (pad_left n s) \<subseteq> insert (CHR ''0'') (set s)"
  by (auto simp: pad_left_def)

lemma http_date_printable: "\<forall>c \<in> set (http_date t). 0x20 \<le> byte c \<and> byte c < 0x7F"
proof -
  obtain y m d where c: "civil_from_days (t div 86400) = (y, m, d)" by (metis prod_cases3)
  define P where "P s \<longleftrightarrow> (\<forall>c \<in> set s. 0x20 \<le> byte c \<and> byte c < 0x7F)" for s
  have app: "P (xs @ ys) \<longleftrightarrow> P xs \<and> P ys" for xs ys by (auto simp: P_def)
  have dec: "P (pad_left n (nat_to_dec k))" for n k
    using nat_to_dec_digits [of k] pad_left_set [of n "nat_to_dec k"]
    by (fastforce simp: is_decimal_digit_def byte_def P_def)
  have "\<forall>s \<in> set [''Sun'', ''Mon'', ''Tue'', ''Wed'', ''Thu'', ''Fri'', ''Sat'']. P s"
    by (simp add: P_def byte_def)
  then have days: "P ([''Sun'', ''Mon'', ''Tue'', ''Wed'', ''Thu'', ''Fri'', ''Sat''] ! nat ((t div 86400 + 4) mod 7))"
    by (rule bspec) (rule nth_mem, simp)
  have "\<forall>s \<in> set [''Jan'', ''Feb'', ''Mar'', ''Apr'', ''May'', ''Jun'', ''Jul'', ''Aug'', ''Sep'', ''Oct'',
      ''Nov'', ''Dec'']. P s"
    by (simp add: P_def byte_def)
  then have months: "P ([''Jan'', ''Feb'', ''Mar'', ''Apr'', ''May'', ''Jun'', ''Jul'', ''Aug'', ''Sep'', ''Oct'',
      ''Nov'', ''Dec''] ! nat (m - 1))"
    by (rule bspec) (rule nth_mem, use civil_month [OF c] in auto)
  have lits: "P '', ''" "P '' ''" "P ''-''" "P []" "P '':''" "P '' GMT''" by (simp_all add: P_def byte_def)
  have "P (http_date t)"
    unfolding http_date_def Let_def c prod.case app using dec days months lits by auto
  then show ?thesis by (simp add: P_def)
qed

section \<open>Properties\<close>

text \<open>An escaped label value stays inside its quotes and on its line: a reader of the exposition
  format stops at the closing quote and has the repaired input back, and the text holds no newline
  and is well-formed UTF-8.\<close>

theorem prometheus_label_round_trip:
  "label_read (prometheus_label_escape s @ CHR 0x22 # rest) = Some (label_repair s, rest) \<and>
   CHR 0x0A \<notin> set (prometheus_label_escape s) \<and> utf8_ok (prometheus_label_escape s)"
  using label_read_escape prometheus_escape_no_newline prometheus_escape_utf8_ok by blast

text \<open>\<open>url_decode\<close> inverts percent encoding on every NUL-free string.\<close>

theorem url_decode_round_trip:
  assumes "CHR 0x00 \<notin> set s"
  shows "url_decode (url_encode s) = Some s"
  using assms by (rule url_decode_encode)

theorem url_decode_round_trip_witness: "url_decode (url_encode ''a b'') = Some ''a b''"
  using url_decode_round_trip [of "''a b''"] by simp

text \<open>Grouping only inserts separators: without its commas the text of \<open>group_digits\<close> is the decimal
  numeral of the value.\<close>

theorem group_digits_inserts_separators:
  "filter (\<lambda>c. c \<noteq> CHR '','') (group_digits v) = nat_to_dec v"
  by (simp add: group_digits_spec rev_filter [symmetric] filter_grouped_rev digits_no_comma)

text \<open>The constant-time comparison decides equality.\<close>

theorem constant_time_equals_correct: "constant_time_equals l r \<longleftrightarrow> l = r"
  by (rule constant_time_equals_eq)

end
