(* ===== verification/Http_Method_Status.thy ===== *)
theory Http_Method_Status
  imports Http_Prelude
begin

unbundle bit_operations_syntax

text \<open>
  \<open>method.hpp\<close> and \<open>status.hpp\<close>: request methods as eight-bit masks and the closed set
  of response statuses.
\<close>

section \<open>Methods\<close>

type_synonym http_method = "8 word"

definition Method_None :: http_method where "Method_None = 0"
definition Method_Get :: http_method where "Method_Get = 1"
definition Method_Head :: http_method where "Method_Head = 2"
definition Method_Post :: http_method where "Method_Post = 4"
definition Method_Put :: http_method where "Method_Put = 8"
definition Method_Patch :: http_method where "Method_Patch = 16"
definition Method_Delete :: http_method where "Method_Delete = 32"
definition Method_Options :: http_method where "Method_Options = 64"

lemmas method_defs = Method_None_def Method_Get_def Method_Head_def Method_Post_def Method_Put_def
  Method_Patch_def Method_Delete_def Method_Options_def

text \<open>\<open>operator|\<close>, \<open>operator&\<close> and \<open>contains\<close>.\<close>

definition method_or :: "http_method \<Rightarrow> http_method \<Rightarrow> http_method" where
  "method_or left right = left OR right"

definition method_and :: "http_method \<Rightarrow> http_method \<Rightarrow> http_method" where
  "method_and left right = left AND right"

definition contains :: "http_method \<Rightarrow> http_method \<Rightarrow> bool" where
  "contains methods required \<longleftrightarrow> methods AND required = required"

definition kAllMethods :: "http_method list" where
  "kAllMethods = [Method_Get, Method_Head, Method_Post, Method_Put, Method_Patch, Method_Delete,
     Method_Options]"

definition method_name :: "http_method \<Rightarrow> bytes" where
  "method_name method =
     (if method = Method_Get then ''GET''
      else if method = Method_Head then ''HEAD''
      else if method = Method_Post then ''POST''
      else if method = Method_Put then ''PUT''
      else if method = Method_Patch then ''PATCH''
      else if method = Method_Delete then ''DELETE''
      else if method = Method_Options then ''OPTIONS''
      else [])"

definition method_from_token :: "bytes \<Rightarrow> http_method option" where
  "method_from_token token = List.find (\<lambda>candidate. method_name candidate = token) kAllMethods"

lemma method_from_token_Some_iff:
  "method_from_token t = Some m \<longleftrightarrow> m \<in> set kAllMethods \<and> method_name m = t"
  by (auto simp: method_from_token_def kAllMethods_def method_name_def method_defs)

lemma method_from_token_name: "m \<in> set kAllMethods \<Longrightarrow> method_from_token (method_name m) = Some m"
  by (simp add: method_from_token_Some_iff)

lemma method_from_token_not_None: "method_from_token t = Some m \<Longrightarrow> m \<noteq> Method_None"
  by (auto simp: method_from_token_Some_iff kAllMethods_def method_defs)

lemma contains_iff: "contains a m \<longleftrightarrow> (\<forall>i. bit m i \<longrightarrow> bit a i)"
proof
  assume c: "contains a m"
  show "\<forall>i. bit m i \<longrightarrow> bit a i"
  proof (intro allI impI)
    fix i assume "bit m i"
    with c have "bit (a AND m) i" by (simp add: contains_def)
    then show "bit a i" by (simp add: bit_and_iff)
  qed
next
  assume "\<forall>i. bit m i \<longrightarrow> bit a i"
  then show "contains a m"
    unfolding contains_def by (intro bit_word_eqI) (auto simp: bit_and_iff)
qed

lemma bit_method_or [simp]: "bit (method_or a b) i \<longleftrightarrow> bit a i \<or> bit b i"
  by (simp add: method_or_def bit_or_iff)

lemma contains_orI1: "contains a m \<Longrightarrow> contains (method_or a b) m"
  by (simp add: contains_iff)

lemma contains_orI2: "contains b m \<Longrightarrow> contains (method_or a b) m"
  by (simp add: contains_iff)

lemma single_method_bit:
  assumes "m \<in> set kAllMethods"
  obtains k where "\<And>i. bit m i \<longleftrightarrow> i = k"
proof -
  have "\<exists>k < 7. m = push_bit k 1"
    using assms by (auto simp: kAllMethods_def method_defs numeral_eq_Suc intro: exI [of _ 0])
      (simp_all add: exI [of _ 0] exI [of _ 1] exI [of _ 2] exI [of _ 3] exI [of _ 4] exI [of _ 5]
        exI [of _ 6])
  then obtain k where k: "k < 7" and m: "m = push_bit k 1" by blast
  show thesis
  proof (rule that)
    show "bit m i \<longleftrightarrow> i = k" for i
      using k by (auto simp: m bit_exp_iff)
  qed
qed

lemma contains_single_or:
  "m \<in> set kAllMethods \<Longrightarrow> contains (method_or a b) m \<longleftrightarrow> contains a m \<or> contains b m"
  by (rule single_method_bit) (auto simp: contains_iff)

section \<open>Statuses\<close>

datatype status =
    Status_Ok | Status_NoContent | Status_MovedPermanently | Status_Found | Status_NotModified
  | Status_BadRequest | Status_Unauthorized | Status_Forbidden | Status_NotFound
  | Status_MethodNotAllowed | Status_NotAcceptable | Status_RequestTimeout | Status_LengthRequired
  | Status_ContentTooLarge | Status_UriTooLong | Status_MisdirectedRequest
  | Status_TooManyRequests | Status_RequestHeaderFieldsTooLarge | Status_InternalServerError
  | Status_NotImplemented | Status_ServiceUnavailable

definition kAllStatuses :: "status list" where
  "kAllStatuses =
     [Status_Ok, Status_NoContent, Status_MovedPermanently, Status_Found, Status_NotModified,
      Status_BadRequest, Status_Unauthorized, Status_Forbidden, Status_NotFound,
      Status_MethodNotAllowed, Status_NotAcceptable, Status_RequestTimeout, Status_LengthRequired,
      Status_ContentTooLarge, Status_UriTooLong, Status_MisdirectedRequest, Status_TooManyRequests,
      Status_RequestHeaderFieldsTooLarge, Status_InternalServerError, Status_NotImplemented,
      Status_ServiceUnavailable]"

fun status_code :: "status \<Rightarrow> nat" where
  "status_code Status_Ok = 200"
| "status_code Status_NoContent = 204"
| "status_code Status_MovedPermanently = 301"
| "status_code Status_Found = 302"
| "status_code Status_NotModified = 304"
| "status_code Status_BadRequest = 400"
| "status_code Status_Unauthorized = 401"
| "status_code Status_Forbidden = 403"
| "status_code Status_NotFound = 404"
| "status_code Status_MethodNotAllowed = 405"
| "status_code Status_NotAcceptable = 406"
| "status_code Status_RequestTimeout = 408"
| "status_code Status_LengthRequired = 411"
| "status_code Status_ContentTooLarge = 413"
| "status_code Status_UriTooLong = 414"
| "status_code Status_MisdirectedRequest = 421"
| "status_code Status_TooManyRequests = 429"
| "status_code Status_RequestHeaderFieldsTooLarge = 431"
| "status_code Status_InternalServerError = 500"
| "status_code Status_NotImplemented = 501"
| "status_code Status_ServiceUnavailable = 503"

fun reason_phrase :: "status \<Rightarrow> bytes" where
  "reason_phrase Status_Ok = ''OK''"
| "reason_phrase Status_NoContent = ''No Content''"
| "reason_phrase Status_MovedPermanently = ''Moved Permanently''"
| "reason_phrase Status_Found = ''Found''"
| "reason_phrase Status_NotModified = ''Not Modified''"
| "reason_phrase Status_BadRequest = ''Bad Request''"
| "reason_phrase Status_Unauthorized = ''Unauthorized''"
| "reason_phrase Status_Forbidden = ''Forbidden''"
| "reason_phrase Status_NotFound = ''Not Found''"
| "reason_phrase Status_MethodNotAllowed = ''Method Not Allowed''"
| "reason_phrase Status_NotAcceptable = ''Not Acceptable''"
| "reason_phrase Status_RequestTimeout = ''Request Timeout''"
| "reason_phrase Status_LengthRequired = ''Length Required''"
| "reason_phrase Status_ContentTooLarge = ''Content Too Large''"
| "reason_phrase Status_UriTooLong = ''URI Too Long''"
| "reason_phrase Status_MisdirectedRequest = ''Misdirected Request''"
| "reason_phrase Status_TooManyRequests = ''Too Many Requests''"
| "reason_phrase Status_RequestHeaderFieldsTooLarge = ''Request Header Fields Too Large''"
| "reason_phrase Status_InternalServerError = ''Internal Server Error''"
| "reason_phrase Status_NotImplemented = ''Not Implemented''"
| "reason_phrase Status_ServiceUnavailable = ''Service Unavailable''"

definition status_class :: "status \<Rightarrow> bytes" where
  "status_class status =
     (let code = status_code status in
      if code < 200 then ''1xx''
      else if code < 300 then ''2xx''
      else if code < 400 then ''3xx''
      else if code < 500 then ''4xx''
      else ''5xx'')"

definition is_bodiless :: "status \<Rightarrow> bool" where
  "is_bodiless status \<longleftrightarrow> status = Status_NoContent \<or> status = Status_NotModified"

lemma kAllStatuses_complete: "set kAllStatuses = UNIV"
  by (auto simp: kAllStatuses_def) (metis status.exhaust)

lemma status_code_inj: "status_code s = status_code t \<Longrightarrow> s = t"
  by (cases s; cases t) simp_all

lemma status_code_range: "200 \<le> status_code s \<and> status_code s \<le> 503"
  by (cases s) simp_all

lemma reason_phrase_printable: "reason_phrase s \<noteq> [] \<and> (\<forall>c \<in> set (reason_phrase s). 0x20 \<le> byte c \<and> byte c < 0x7F)"
  by (cases s) (simp_all add: byte_def)

text \<open>The enumeration is ordered by its codes, as scoped enumerations compare.\<close>

instantiation status :: linorder
begin

definition less_eq_status :: "status \<Rightarrow> status \<Rightarrow> bool" where
  "s \<le> t \<longleftrightarrow> status_code s \<le> status_code t"

definition less_status :: "status \<Rightarrow> status \<Rightarrow> bool" where
  "s < t \<longleftrightarrow> status_code s < status_code t"

instance
  by standard (auto simp: less_eq_status_def less_status_def dest: status_code_inj)

end

lemma kAllStatuses_sorted: "sorted_wrt (<) kAllStatuses"
  by (simp add: kAllStatuses_def less_status_def)

end
