(* ===== verification/Http_Buffer.thy ===== *)
theory Http_Buffer
  imports Http_Prelude
begin

text \<open>
  \<open>internal/buffer.hpp\<close>: a byte buffer with a consumed-prefix cursor. The abstraction is the
  string of readable bytes; every operation refines its effect on that string.
\<close>

definition kInitialBufferBytes :: nat where "kInitialBufferBytes = 4096"
definition kBufferGrowthFactor :: nat where "kBufferGrowthFactor = 2"

record buffer =
  storage :: bytes
  read_cursor :: nat
  write_cursor :: nat

text \<open>\<open>Buffer(initial_capacity)\<close> and \<open>std::vector<char>::resize\<close>.\<close>

definition make_buffer :: "nat \<Rightarrow> buffer" where
  "make_buffer initial_capacity =
     \<lparr>storage = replicate initial_capacity (CHR 0x00), read_cursor = 0, write_cursor = 0\<rparr>"

definition resize :: "nat \<Rightarrow> bytes \<Rightarrow> bytes" where
  "resize n xs = take n xs @ replicate (n - length xs) (CHR 0x00)"

definition buffer_size :: "buffer \<Rightarrow> nat" where
  "buffer_size b = write_cursor b - read_cursor b"

definition buffer_empty :: "buffer \<Rightarrow> bool" where
  "buffer_empty b \<longleftrightarrow> write_cursor b = read_cursor b"

definition capacity :: "buffer \<Rightarrow> nat" where
  "capacity b = length (storage b)"

definition writable_capacity :: "buffer \<Rightarrow> nat" where
  "writable_capacity b = length (storage b) - write_cursor b"

definition readable :: "buffer \<Rightarrow> bytes" where
  "readable b = take (write_cursor b - read_cursor b) (drop (read_cursor b) (storage b))"

definition grow_to :: "nat \<Rightarrow> buffer \<Rightarrow> buffer" where
  "grow_to target b = b\<lparr>storage := resize (max target kInitialBufferBytes) (storage b)\<rparr>"

text \<open>\<open>writable_tail(minimum)\<close>: the buffer after growing; the span it returns starts at the write
  cursor and has \<^const>\<open>writable_capacity\<close> bytes.\<close>

definition writable_tail :: "nat \<Rightarrow> buffer \<Rightarrow> buffer" where
  "writable_tail minimum b =
     (if writable_capacity b < minimum
      then grow_to (max (write_cursor b + minimum) (length (storage b) * kBufferGrowthFactor)) b
      else b)"

text \<open>What a reader of the span does: it overwrites the first bytes of the tail.\<close>

definition copy_into_tail :: "bytes \<Rightarrow> buffer \<Rightarrow> buffer" where
  "copy_into_tail data b =
     b\<lparr>storage := take (write_cursor b) (storage b) @ data @
        drop (write_cursor b + length data) (storage b)\<rparr>"

definition commit :: "nat \<Rightarrow> buffer \<Rightarrow> buffer" where
  "commit n b = b\<lparr>write_cursor := write_cursor b + n\<rparr>"

definition clear :: "buffer \<Rightarrow> buffer" where
  "clear b = b\<lparr>read_cursor := 0, write_cursor := 0\<rparr>"

definition consume :: "nat \<Rightarrow> buffer \<Rightarrow> buffer" where
  "consume n b =
     (let b = b\<lparr>read_cursor := read_cursor b + n\<rparr> in
      if read_cursor b = write_cursor b then clear b else b)"

definition compact :: "buffer \<Rightarrow> buffer" where
  "compact b =
     (if read_cursor b = 0 then b
      else let live = buffer_size b;
               b = (if live > 0
                    then b\<lparr>storage := take live (drop (read_cursor b) (storage b)) @
                           drop live (storage b)\<rparr>
                    else b)
           in b\<lparr>read_cursor := 0, write_cursor := live\<rparr>)"

definition compact_and_reclaim :: "nat \<Rightarrow> buffer \<Rightarrow> buffer" where
  "compact_and_reclaim retained_capacity b =
     (let b = compact b;
          target = max (buffer_size b) (max retained_capacity kInitialBufferBytes)
      in if length (storage b) \<le> target then b
         else let reclaimed = replicate target (CHR 0x00);
                  reclaimed = (if buffer_empty b then reclaimed
                    else take (buffer_size b) (storage b) @ drop (buffer_size b) reclaimed)
              in b\<lparr>storage := reclaimed\<rparr>)"

definition append :: "bytes \<Rightarrow> buffer \<Rightarrow> buffer" where
  "append data b = commit (length data) (copy_into_tail data (writable_tail (length data) b))"

section \<open>Invariant and abstraction\<close>

definition buffer_ok :: "buffer \<Rightarrow> bool" where
  "buffer_ok b \<longleftrightarrow> read_cursor b \<le> write_cursor b \<and> write_cursor b \<le> length (storage b)"

lemmas buffer_defs = buffer_ok_def readable_def buffer_size_def buffer_empty_def
  writable_capacity_def

lemma length_resize [simp]: "length (resize n xs) = n"
  by (simp add: resize_def)

lemma take_resize: "k \<le> n \<Longrightarrow> k \<le> length xs \<Longrightarrow> take k (resize n xs) = take k xs"
  by (simp add: resize_def)

lemma length_readable: "buffer_ok b \<Longrightarrow> length (readable b) = buffer_size b"
  by (auto simp: buffer_defs)

lemma readable_alt: "readable b = drop (read_cursor b) (take (write_cursor b) (storage b))"
  by (simp add: readable_def drop_take)

lemma buffer_empty_iff: "buffer_ok b \<Longrightarrow> buffer_empty b \<longleftrightarrow> readable b = []"
  by (auto simp: buffer_defs)

lemma make_buffer_ok [simp]: "buffer_ok (make_buffer n)" "readable (make_buffer n) = []"
  by (simp_all add: make_buffer_def buffer_defs)

lemma writable_tail_ok:
  assumes "buffer_ok b"
  shows "buffer_ok (writable_tail m b)" and "readable (writable_tail m b) = readable b"
    and "m \<le> writable_capacity (writable_tail m b)"
    and "write_cursor (writable_tail m b) = write_cursor b"
    and "read_cursor (writable_tail m b) = read_cursor b"
  using assms
  by (auto simp: writable_tail_def grow_to_def buffer_ok_def writable_capacity_def readable_alt
      take_resize)

lemma copy_commit_ok:
  assumes "buffer_ok b" and "length data \<le> writable_capacity b"
  shows "buffer_ok (commit (length data) (copy_into_tail data b))"
    and "readable (commit (length data) (copy_into_tail data b)) = readable b @ data"
  using assms
  by (auto simp: commit_def copy_into_tail_def buffer_ok_def writable_capacity_def readable_alt)

lemma clear_ok [simp]: "buffer_ok (clear b)" "readable (clear b) = []"
  by (simp_all add: clear_def buffer_defs)

lemma consume_ok:
  assumes "buffer_ok b" and "n \<le> buffer_size b"
  shows "buffer_ok (consume n b)" and "readable (consume n b) = drop n (readable b)"
  using assms
  by (auto simp: consume_def Let_def clear_def buffer_ok_def buffer_size_def readable_alt add.commute)

lemma compact_ok:
  assumes "buffer_ok b"
  shows "buffer_ok (compact b)" and "readable (compact b) = readable b"
    and "read_cursor (compact b) = 0"
  using assms by (auto simp: compact_def Let_def buffer_ok_def buffer_size_def readable_def)

text \<open>The reallocation of \<^const>\<open>compact_and_reclaim\<close>, once the buffer is compacted.\<close>

lemma reclaim_step_ok:
  assumes "buffer_ok c" and "read_cursor c = 0" and "buffer_size c \<le> n"
  shows "buffer_ok (c\<lparr>storage := if buffer_empty c then replicate n x
           else take (buffer_size c) (storage c) @ drop (buffer_size c) (replicate n x)\<rparr>)"
    and "readable (c\<lparr>storage := if buffer_empty c then replicate n x
           else take (buffer_size c) (storage c) @ drop (buffer_size c) (replicate n x)\<rparr>) = readable c"
  using assms by (auto simp: buffer_defs)

lemma compact_and_reclaim_ok:
  assumes "buffer_ok b"
  shows "buffer_ok (compact_and_reclaim n b)" and "readable (compact_and_reclaim n b) = readable b"
  using compact_ok [OF assms] reclaim_step_ok [OF compact_ok(1) [OF assms] compact_ok(3) [OF assms],
      of "max (buffer_size (compact b)) (max n kInitialBufferBytes)" "CHR 0x00"]
  by (simp_all add: compact_and_reclaim_def Let_def)

lemma buffer_size_compact: "buffer_ok b \<Longrightarrow> buffer_size (compact b) = buffer_size b"
  using compact_ok [of b] length_readable [of b] length_readable [of "compact b"] by simp

lemma compact_and_reclaim_capacity:
  assumes "buffer_ok b" and "buffer_size b \<le> max n kInitialBufferBytes"
  shows "capacity (compact_and_reclaim n b) \<le> max n kInitialBufferBytes"
proof -
  have "buffer_size (compact b) \<le> length (storage (compact b))"
    using compact_ok(1) [OF assms(1)] by (auto simp: buffer_ok_def buffer_size_def)
  moreover have "max (buffer_size (compact b)) (max n kInitialBufferBytes) = max n kInitialBufferBytes"
    using assms buffer_size_compact [OF assms(1)] by (simp add: max_absorb2)
  ultimately show ?thesis
    by (simp add: compact_and_reclaim_def Let_def capacity_def max.coboundedI2)
qed

lemma append_ok:
  assumes "buffer_ok b"
  shows "buffer_ok (append data b)" and "readable (append data b) = readable b @ data"
  using copy_commit_ok [OF writable_tail_ok(1) writable_tail_ok(3), OF assms assms]
    writable_tail_ok(2) [OF assms]
  by (simp_all add: append_def)

section \<open>The byte queue interface\<close>

text \<open>What a connection relies on: a first-in first-out queue of bytes.\<close>

locale byte_queue =
  fixes contents :: "'q \<Rightarrow> bytes"
    and put :: "bytes \<Rightarrow> 'q \<Rightarrow> 'q"
    and drop_front :: "nat \<Rightarrow> 'q \<Rightarrow> 'q"
    and invar :: "'q \<Rightarrow> bool"
  assumes contents_put: "invar q \<Longrightarrow> contents (put xs q) = contents q @ xs"
    and invar_put: "invar q \<Longrightarrow> invar (put xs q)"
    and contents_drop: "invar q \<Longrightarrow> n \<le> length (contents q) \<Longrightarrow>
      contents (drop_front n q) = drop n (contents q)"
    and invar_drop: "invar q \<Longrightarrow> n \<le> length (contents q) \<Longrightarrow> invar (drop_front n q)"
begin

lemma put_many:
  "invar q \<Longrightarrow> invar (fold put xss q) \<and> contents (fold put xss q) = contents q @ concat xss"
  by (induction xss arbitrary: q) (simp_all add: contents_put invar_put)

lemma put_then_drop:
  "invar q \<Longrightarrow> n \<le> length (contents q) \<Longrightarrow>
     contents (put xs (drop_front n q)) = contents (drop_front n (put xs q))"
  by (simp add: contents_put contents_drop invar_put invar_drop)

text \<open>Bytes come out in the order they went in: draining a queue piecewise yields a prefix of what
  was put, and what remains is the rest.\<close>

lemma fifo:
  assumes "invar q" and "contents q = []" and "n \<le> length (concat xss)"
  shows "take n (contents (fold put xss q)) @ contents (drop_front n (fold put xss q)) = concat xss"
  using put_many [OF assms(1)] assms by (simp add: contents_drop)

end

interpretation buf: byte_queue readable append consume buffer_ok
  by unfold_locales (simp_all add: append_ok consume_ok length_readable)

text \<open>A buffer is a first-in first-out byte queue: whatever is appended, in however many
  pieces and across growth, and then consumed, the consumed bytes followed by the readable ones
  are exactly the bytes that were appended, in order.\<close>

theorem buffer_fifo:
  assumes "n \<le> length (concat xss)"
  shows "take n (readable (fold append xss (make_buffer c))) @
         readable (consume n (fold append xss (make_buffer c))) = concat xss"
  using buf.fifo [of "make_buffer c" n xss] assms by simp

theorem buffer_fifo_witness:
  "take 2 (readable (fold append [''ab'', ''c''] (make_buffer 1))) @
     readable (consume 2 (fold append [''ab'', ''c''] (make_buffer 1))) = ''abc''"
  using buffer_fifo [of 2 "[''ab'', ''c'']" 1] by simp

text \<open>Reclaiming keeps the readable bytes and the invariant, and gives memory back: afterwards the
  capacity is at most the retained capacity (or the initial size) whenever the contents fit in it.\<close>

theorem compact_and_reclaim_correct:
  assumes "buffer_ok b"
  shows "buffer_ok (compact_and_reclaim n b) \<and> readable (compact_and_reclaim n b) = readable b \<and>
    (buffer_size b \<le> max n kInitialBufferBytes \<longrightarrow>
       capacity (compact_and_reclaim n b) \<le> max n kInitialBufferBytes)"
  using compact_and_reclaim_ok [OF assms] compact_and_reclaim_capacity [OF assms] by blast

theorem compact_and_reclaim_correct_witness:
  "readable (compact_and_reclaim 8 (append ''ab'' (make_buffer 1))) = ''ab''"
  using compact_and_reclaim_correct [OF append_ok(1), of "make_buffer 1" 8 "''ab''"]
  by (simp add: append_ok)

end
