(* ===== verification/Http_Cidr.thy ===== *)
theory Http_Cidr
  imports Http_Prelude "HOL-Library.Word"
begin

unbundle bit_operations_syntax


text \<open>
  \<open>cidr.cpp\<close>, \<open>cidr.hpp\<close> and \<open>peer_address.hpp\<close>: peer addresses and the allow list. Addresses are
  lists of sixteen 8-bit words; masks are computed on 32-bit words as the promoted arithmetic of the
  code does. \<open>inet_pton\<close> and \<open>inet_ntop\<close> are parameters: \<open>pton4\<close> yields four octets, \<open>pton6\<close> sixteen.
\<close>

type_synonym octets = "8 word list"

definition kIpv6ByteCount :: nat where "kIpv6ByteCount = 16"
definition kIpv4MappedPrefixBits :: nat where "kIpv4MappedPrefixBits = 96"
definition kBitsPerByte :: nat where "kBitsPerByte = 8"
definition kAllBitsSet :: "32 word" where "kAllBitsSet = 0xFF"
definition kIpv6PrefixBitCount :: nat where "kIpv6PrefixBitCount = kIpv6ByteCount * kBitsPerByte"
definition kIpv4PrefixBitCount :: nat where
  "kIpv4PrefixBitCount = kIpv6PrefixBitCount - kIpv4MappedPrefixBits"
definition kIpv4OffsetInMapped :: nat where
  "kIpv4OffsetInMapped = kIpv4MappedPrefixBits div kBitsPerByte"
definition kMappedMarkerFirstIndex :: nat where "kMappedMarkerFirstIndex = kIpv4OffsetInMapped - 2"
definition kMappedMarkerLastIndex :: nat where "kMappedMarkerLastIndex = kIpv4OffsetInMapped - 1"
definition kMappedMarkerByte :: "8 word" where "kMappedMarkerByte = 0xFF"
definition kAddressTextCapacity :: nat where "kAddressTextCapacity = 46"

lemmas cidr_consts = kIpv6ByteCount_def kIpv4MappedPrefixBits_def kBitsPerByte_def
  kIpv6PrefixBitCount_def kIpv4PrefixBitCount_def kIpv4OffsetInMapped_def
  kMappedMarkerFirstIndex_def kMappedMarkerLastIndex_def

record peer_address =
  peer_bytes :: octets
  peer_is_v4 :: bool
  peer_port :: nat
  peer_is_unix :: bool

definition default_peer :: peer_address where
  "default_peer = \<lparr>peer_bytes = replicate kIpv6ByteCount 0, peer_is_v4 = False, peer_port = 0,
                   peer_is_unix = False\<rparr>"

definition is_ipv4_mapped :: "octets \<Rightarrow> bool" where
  "is_ipv4_mapped b \<longleftrightarrow>
     (if \<exists>index \<in> set [0..<kMappedMarkerFirstIndex]. b ! index \<noteq> 0 then False
      else b ! kMappedMarkerFirstIndex = kMappedMarkerByte \<and>
           b ! kMappedMarkerLastIndex = kMappedMarkerByte)"

definition is_ipv6_loopback :: "octets \<Rightarrow> bool" where
  "is_ipv6_loopback b \<longleftrightarrow>
     (if \<exists>index \<in> set [0..<length b - 1]. b ! index \<noteq> 0 then False
      else b ! (length b - 1) = 1)"

record parsed_address =
  pa_bytes :: octets
  pa_from_dotted_quad :: bool

definition parse_address ::
  "(bytes \<Rightarrow> octets option) \<Rightarrow> (bytes \<Rightarrow> octets option) \<Rightarrow> bytes \<Rightarrow> parsed_address option" where
  "parse_address pton4 pton6 t =
     (if t = [] \<or> length t \<ge> kAddressTextCapacity \<or> find_char (CHR 0x00) t \<noteq> None then None
      else case pton4 t of
        Some quad \<Rightarrow>
          Some \<lparr>pa_bytes = replicate kMappedMarkerFirstIndex 0 @
                  [kMappedMarkerByte, kMappedMarkerByte] @ quad,
                pa_from_dotted_quad = True\<rparr>
      | None \<Rightarrow>
          (case pton6 t of
             Some sixteen \<Rightarrow> Some \<lparr>pa_bytes = sixteen, pa_from_dotted_quad = False\<rparr>
           | None \<Rightarrow> None))"

datatype cidr_error = MalformedEntry | BadPrefixLength | BadAddress

definition parse_prefix :: "bytes \<Rightarrow> bool \<Rightarrow> (cidr_error, nat) expected" where
  "parse_prefix t from_dotted_quad =
     (case from_chars 32 t of
        (Inl _, _) \<Rightarrow> Inl BadPrefixLength
      | (Inr written_bits, ptr) \<Rightarrow>
          if ptr \<noteq> length t then Inl BadPrefixLength
          else if written_bits > (if from_dotted_quad then kIpv4PrefixBitCount else kIpv6PrefixBitCount)
          then Inl BadPrefixLength
          else Inr (if from_dotted_quad then written_bits + kIpv4MappedPrefixBits else written_bits))"

definition prefix_mask :: "nat \<Rightarrow> 32 word" where
  "prefix_mask remaining_bits = push_bit (kBitsPerByte - remaining_bits) kAllBitsSet"

definition clear_host_bits :: "octets \<Rightarrow> nat \<Rightarrow> octets" where
  "clear_host_bits b prefix_bits =
     (let whole_bytes = prefix_bits div kBitsPerByte;
          remaining_bits = prefix_bits mod kBitsPerByte;
          b = (if remaining_bits \<noteq> 0 \<and> whole_bytes < length b
               then b[whole_bytes := ucast ((ucast (b ! whole_bytes) :: 32 word) AND
                        prefix_mask remaining_bits)]
               else b)
      in fold (\<lambda>index b. b[index := 0])
           [whole_bytes + (if remaining_bits \<noteq> 0 then 1 else 0)..<length b] b)"

record cidr_rule =
  network :: octets
  prefix_bits :: nat
  rule_is_v4 :: bool

definition parse_entry ::
  "(bytes \<Rightarrow> octets option) \<Rightarrow> (bytes \<Rightarrow> octets option) \<Rightarrow> bytes \<Rightarrow> (cidr_error, cidr_rule) expected" where
  "parse_entry pton4 pton6 entry =
     (if entry = [] then Inl MalformedEntry
      else let separator = find_char (CHR ''/'') entry;
               has_prefix = (separator \<noteq> None);
               address_text = (case separator of Some i \<Rightarrow> take i entry | None \<Rightarrow> entry);
               prefix_text = (case separator of Some i \<Rightarrow> drop (i + 1) entry | None \<Rightarrow> [])
           in if address_text = [] \<or> find_char (CHR ''/'') prefix_text \<noteq> None
              then Inl MalformedEntry
              else case parse_address pton4 pton6 address_text of
                None \<Rightarrow> Inl BadAddress
              | Some address \<Rightarrow>
                  (case (if has_prefix then parse_prefix prefix_text (pa_from_dotted_quad address)
                         else Inr kIpv6PrefixBitCount) of
                     Inl e \<Rightarrow> Inl e
                   | Inr bits \<Rightarrow>
                       let net = clear_host_bits (pa_bytes address) bits in
                       Inr \<lparr>network = net, prefix_bits = bits mod 256,
                            rule_is_v4 = (pa_from_dotted_quad address \<or>
                              (is_ipv4_mapped net \<and> bits \<ge> kIpv4MappedPrefixBits))\<rparr>))"

definition matches :: "cidr_rule \<Rightarrow> octets \<Rightarrow> bool" where
  "matches rule address \<longleftrightarrow>
     (if prefix_bits rule > kIpv6PrefixBitCount then False
      else let whole_bytes = prefix_bits rule div kBitsPerByte in
        if \<exists>index \<in> set [0..<whole_bytes]. address ! index \<noteq> network rule ! index then False
        else let remaining_bits = prefix_bits rule mod kBitsPerByte in
          if remaining_bits = 0 then True
          else (ucast (address ! whole_bytes) AND prefix_mask remaining_bits) =
               (ucast (network rule ! whole_bytes) AND prefix_mask remaining_bits))"

text \<open>\<open>CidrAllowList::parse\<close> and \<open>allows\<close>.\<close>

fun cidr_parse ::
  "(bytes \<Rightarrow> octets option) \<Rightarrow> (bytes \<Rightarrow> octets option) \<Rightarrow> bytes list \<Rightarrow> cidr_rule list \<Rightarrow>
     (cidr_error, cidr_rule list) expected" where
  "cidr_parse pton4 pton6 [] rules = Inr rules"
| "cidr_parse pton4 pton6 (entry # entries) rules =
     (case parse_entry pton4 pton6 entry of
        Inl e \<Rightarrow> Inl e
      | Inr rule \<Rightarrow> cidr_parse pton4 pton6 entries (rules @ [rule]))"

definition allows :: "cidr_rule list \<Rightarrow> peer_address \<Rightarrow> bool" where
  "allows rules peer \<longleftrightarrow>
     (if rules = [] then True
      else if peer_is_unix peer then True
      else (\<exists>rule \<in> set rules. matches rule (peer_bytes peer)))"

text \<open>\<open>PeerAddress::to_string\<close>: \<open>ntop4\<close> and \<open>ntop6\<close> are \<open>inet_ntop\<close>, \<open>None\<close> when it fails.\<close>

definition write_address_text ::
  "(octets \<Rightarrow> bytes option) \<Rightarrow> (octets \<Rightarrow> bytes option) \<Rightarrow> octets \<Rightarrow> bool \<Rightarrow> bytes option" where
  "write_address_text ntop4 ntop6 b as_ipv4 =
     (if as_ipv4 then ntop4 (take 4 (drop kIpv4OffsetInMapped b)) else ntop6 b)"

definition peer_to_string ::
  "(octets \<Rightarrow> bytes option) \<Rightarrow> (octets \<Rightarrow> bytes option) \<Rightarrow> peer_address \<Rightarrow> bytes" where
  "peer_to_string ntop4 ntop6 p =
     (if peer_is_unix p then ''unix''
      else let present_as_ipv4 = (peer_is_v4 p \<or> is_ipv4_mapped (peer_bytes p)) in
           case write_address_text ntop4 ntop6 (peer_bytes p) present_as_ipv4 of
             None \<Rightarrow> ''unknown''
           | Some t \<Rightarrow>
               if present_as_ipv4 then t @ '':'' @ nat_to_dec (peer_port p)
               else ''['' @ t @ '']:'' @ nat_to_dec (peer_port p))"

definition is_loopback :: "peer_address \<Rightarrow> bool" where
  "is_loopback p \<longleftrightarrow>
     (if peer_is_unix p then True
      else if peer_is_v4 p \<or> is_ipv4_mapped (peer_bytes p)
      then peer_bytes p ! kIpv4OffsetInMapped = 127
      else is_ipv6_loopback (peer_bytes p))"

section \<open>Addresses as bit strings\<close>

text \<open>Bit \<open>i\<close> of an address, the most significant bit of the first octet first.\<close>

definition addr_bit :: "octets \<Rightarrow> nat \<Rightarrow> bool" where
  "addr_bit b i = bit (b ! (i div 8)) (7 - i mod 8)"

lemma prefix_mask_bit:
  "r < 8 \<Longrightarrow> n < 8 \<Longrightarrow> bit (prefix_mask r) n \<longleftrightarrow> 8 - r \<le> n"
  by (auto simp: prefix_mask_def kAllBitsSet_def kBitsPerByte_def bit_push_bit_iff
      bit_simps less_Suc_eq numeral_eq_Suc)

lemma masked_bit:
  "r < 8 \<Longrightarrow> n < 8 \<Longrightarrow>
     bit ((ucast (w :: 8 word) :: 32 word) AND prefix_mask r) n \<longleftrightarrow> bit w n \<and> 8 - r \<le> n"
  by (simp add: bit_and_iff bit_ucast_iff prefix_mask_bit)

lemma octet_eq_iff: "(a :: 8 word) = b \<longleftrightarrow> (\<forall>k < 8. bit a (7 - k) = bit b (7 - k))"
proof
  assume eq: "\<forall>k < 8. bit a (7 - k) = bit b (7 - k)"
  have "bit a n = bit b n" if "n < 8" for n
    using eq [rule_format, of "7 - n"] that by simp
  then show "a = b" by (intro bit_word_eqI) simp
qed simp

lemma masked_eq_iff:
  assumes "r < 8"
  shows "((ucast (a :: 8 word) :: 32 word) AND prefix_mask r) = (ucast (b :: 8 word) AND prefix_mask r)
    \<longleftrightarrow> (\<forall>k < r. bit a (7 - k) = bit b (7 - k))"
    (is "?l = ?r \<longleftrightarrow> ?eq")
proof
  assume lr: "?l = ?r"
  show ?eq
  proof (intro allI impI)
    fix k assume "k < r"
    then have "8 - r \<le> 7 - k" using assms by linarith
    then show "bit a (7 - k) = bit b (7 - k)"
      using arg_cong [OF lr, of "\<lambda>w. bit w (7 - k)"] assms by (simp add: masked_bit)
  qed
next
  assume eq: ?eq
  show "?l = ?r"
  proof (rule bit_word_eqI)
    fix n assume "n < LENGTH(32)"
    show "bit ?l n = bit ?r n"
    proof (cases "n < 8")
      case True
      then show ?thesis using eq [rule_format, of "7 - n"] assms by (auto simp: masked_bit)
    next
      case False
      then show ?thesis by (auto simp: bit_and_iff bit_ucast_iff dest: bit_imp_le_length)
    qed
  qed
qed

lemma addr_bit_index: "k < 8 \<Longrightarrow> addr_bit b (8 * j + k) = bit (b ! j) (7 - k)"
  by (simp add: addr_bit_def)

lemma bits_by_octet:
  "(\<forall>i < 8 * m + r. P i) \<longleftrightarrow> (\<forall>j < m. \<forall>k < 8. P (8 * j + k)) \<and> (\<forall>k < r. P (8 * m + k))" for m r :: nat
proof (intro iffI conjI allI impI)
  fix j k assume h: "\<forall>i < 8 * m + r. P i" "j < m" "k < (8 :: nat)"
  then have "8 * j + k < 8 * m + r" by linarith
  then show "P (8 * j + k)" using h(1) by blast
next
  fix i assume h: "(\<forall>j < m. \<forall>k < 8. P (8 * j + k)) \<and> (\<forall>k < r. P (8 * m + k))" "i < 8 * m + r"
  show "P i"
  proof (cases "i < 8 * m")
    case True
    then have "i div 8 < m" by (simp add: less_mult_imp_div_less mult.commute)
    then have "P (8 * (i div 8) + i mod 8)" 
      using h(1) [THEN conjunct1, rule_format, of "i div 8" "i mod 8"] by simp
    then show ?thesis by simp
  next
    case False
    then have "i - 8 * m < r" using h(2) by linarith
    then have "P (8 * m + (i - 8 * m))" using h(1) by blast
    then show ?thesis using False by simp
  qed
qed simp

lemma matches_iff:
  assumes "prefix_bits rule \<le> kIpv6PrefixBitCount"
  shows "matches rule a \<longleftrightarrow> (\<forall>i < prefix_bits rule. addr_bit a i = addr_bit (network rule) i)"
proof -
  let ?m = "prefix_bits rule div 8" and ?r = "prefix_bits rule mod 8"
  have p: "prefix_bits rule = 8 * ?m + ?r" by simp
  have "(\<forall>i < prefix_bits rule. addr_bit a i = addr_bit (network rule) i) \<longleftrightarrow>
      (\<forall>j < ?m. a ! j = network rule ! j) \<and>
      (\<forall>k < ?r. bit (a ! ?m) (7 - k) = bit (network rule ! ?m) (7 - k))"
    by (subst p, subst bits_by_octet) (auto simp: addr_bit_index octet_eq_iff)
  also have "\<dots> \<longleftrightarrow> matches rule a"
    using assms masked_eq_iff [of ?r "a ! ?m" "network rule ! ?m"]
    by (auto simp: matches_def Let_def kBitsPerByte_def)
  finally show ?thesis by simp
qed

lemma fold_zero_nth:
  "i < length b \<Longrightarrow> fold (\<lambda>index b. b[index := 0]) xs b ! i = (if i \<in> set xs then 0 else b ! i)"
  "length (fold (\<lambda>index b. b[index := 0]) xs b) = length b"
  by (induction xs arbitrary: b) (auto simp: nth_list_update)

lemma length_clear_host_bits [simp]: "length (clear_host_bits b p) = length b"
  by (simp add: clear_host_bits_def Let_def fold_zero_nth)

lemma clear_host_bits_nth:
  assumes "j < length b"
  shows "clear_host_bits b p ! j =
    (if j < p div 8 then b ! j
     else if j = p div 8 \<and> p mod 8 \<noteq> 0 then ucast ((ucast (b ! j) :: 32 word) AND prefix_mask (p mod 8))
     else 0)"
  using assms by (auto simp: clear_host_bits_def Let_def fold_zero_nth kBitsPerByte_def nth_list_update)

lemma clear_host_bits_bit:
  assumes "i < 8 * length b"
  shows "addr_bit (clear_host_bits b p) i \<longleftrightarrow> i < p \<and> addr_bit b i"
proof -
  have j: "i div 8 < length b" using assms by (simp add: less_mult_imp_div_less mult.commute)
  consider (lt) "i div 8 < p div 8" | (eq) "i div 8 = p div 8" | (gt) "p div 8 < i div 8" by linarith
  then show ?thesis
  proof cases
    case lt
    then have "i < p" by (metis div_le_mono leI not_less)
    then show ?thesis using lt j by (simp add: addr_bit_def clear_host_bits_nth)
  next
    case eq
    have ip: "i < p \<longleftrightarrow> i mod 8 < p mod 8"
      using eq div_mult_mod_eq [of i 8] div_mult_mod_eq [of p 8] by linarith
    have "(8 - p mod 8 \<le> 7 - i mod 8) = (i mod 8 < p mod 8)"
      using mod_less_divisor [of 8 i] mod_less_divisor [of 8 p] by linarith
    moreover have "7 - i mod 8 < 8" by simp
    ultimately show ?thesis using eq j ip
      by (auto simp: addr_bit_def clear_host_bits_nth bit_ucast_iff masked_bit)
  next
    case gt
    then have "\<not> i < p" by (meson div_le_mono leD less_imp_le)
    then show ?thesis using gt j by (simp add: addr_bit_def clear_host_bits_nth)
  qed
qed

section \<open>The allow list\<close>

text \<open>What the C library documents of \<open>inet_pton\<close>: a parsed address has the size of its family.\<close>

definition pton_sizes :: "(bytes \<Rightarrow> octets option) \<Rightarrow> (bytes \<Rightarrow> octets option) \<Rightarrow> bool" where
  "pton_sizes pton4 pton6 \<longleftrightarrow>
     (\<forall>t a. pton4 t = Some a \<longrightarrow> length a = 4) \<and> (\<forall>t a. pton6 t = Some a \<longrightarrow> length a = 16)"

lemma parse_prefix_bound:
  "parse_prefix t q = Inr n \<Longrightarrow> n \<le> kIpv6PrefixBitCount \<and> (q \<longrightarrow> kIpv4MappedPrefixBits \<le> n)"
  by (auto simp: parse_prefix_def cidr_consts split: prod.splits sum.splits if_splits)

lemma parse_address_length:
  "pton_sizes pton4 pton6 \<Longrightarrow> parse_address pton4 pton6 t = Some a \<Longrightarrow> length (pa_bytes a) = 16"
  by (auto simp: parse_address_def pton_sizes_def cidr_consts split: if_splits option.splits)

text \<open>The address and prefix length an entry denotes.\<close>

definition entry_meaning ::
  "(bytes \<Rightarrow> octets option) \<Rightarrow> (bytes \<Rightarrow> octets option) \<Rightarrow> bytes \<Rightarrow> (parsed_address \<times> nat) option" where
  "entry_meaning pton4 pton6 entry =
     (case split_on (CHR ''/'') entry of
        [t] \<Rightarrow> map_option (\<lambda>a. (a, 128)) (parse_address pton4 pton6 t)
      | [t, n] \<Rightarrow>
          (case parse_address pton4 pton6 t of
             None \<Rightarrow> None
           | Some a \<Rightarrow> (case parse_prefix n (pa_from_dotted_quad a) of Inl _ \<Rightarrow> None | Inr b \<Rightarrow> Some (a, b)))
      | _ \<Rightarrow> None)"

lemma parse_entry_meaning:
  assumes "parse_entry pton4 pton6 entry = Inr rule"
  shows "\<exists>a n. entry_meaning pton4 pton6 entry = Some (a, n) \<and>
       network rule = clear_host_bits (pa_bytes a) n \<and> prefix_bits rule = n \<and> n \<le> kIpv6PrefixBitCount"
proof (cases "find_char (CHR ''/'') entry")
  case None
  then show ?thesis using assms
    by (auto simp: parse_entry_def entry_meaning_def Let_def split_on_None cidr_consts
        split: if_splits option.splits)
next
  case (Some i)
  then have rest: "CHR ''/'' \<notin> set (drop (i + 1) entry)"
    using assms
    by (auto simp: parse_entry_def Let_def find_char_None_iff split: if_splits)
  show ?thesis using assms Some split_on_notin [OF rest]
    by (auto simp: parse_entry_def entry_meaning_def Let_def split_on_Some [OF Some] cidr_consts
        dest: parse_prefix_bound split: if_splits option.splits sum.splits)
qed

lemma parse_entry_matches:
  assumes "pton_sizes pton4 pton6" and "parse_entry pton4 pton6 entry = Inr rule"
  obtains a n where "entry_meaning pton4 pton6 entry = Some (a, n)"
    and "\<And>x. matches rule x \<longleftrightarrow> (\<forall>i < n. addr_bit x i = addr_bit (pa_bytes a) i)"
proof -
  obtain a n where m: "entry_meaning pton4 pton6 entry = Some (a, n)"
    and r: "network rule = clear_host_bits (pa_bytes a) n" "prefix_bits rule = n" "n \<le> kIpv6PrefixBitCount"
    using parse_entry_meaning [OF assms(2)] by blast
  have "length (pa_bytes a) = 16"
    using m parse_address_length [OF assms(1)]
    by (auto simp: entry_meaning_def split: list.splits option.splits sum.splits)
  then have "matches rule x \<longleftrightarrow> (\<forall>i < n. addr_bit x i = addr_bit (pa_bytes a) i)" for x
    using r by (auto simp: matches_iff clear_host_bits_bit cidr_consts)
  with m show ?thesis using that by blast
qed

lemma cidr_parse_Inr:
  "cidr_parse pton4 pton6 es rs = Inr rules \<Longrightarrow>
     \<exists>new. rules = rs @ new \<and> list_all2 (\<lambda>e r. parse_entry pton4 pton6 e = Inr r) es new"
proof (induction pton4 pton6 es rs rule: cidr_parse.induct)
  case (2 pton4 pton6 entry entries rs)
  then obtain r where r: "parse_entry pton4 pton6 entry = Inr r"
    "cidr_parse pton4 pton6 entries (rs @ [r]) = Inr rules"
    by (auto split: sum.splits)
  from 2(1) [OF this] show ?case using r(1) by (auto intro: exI [of _ "r # _"])
qed simp

lemma list_all2_bex:
  "list_all2 R xs ys \<Longrightarrow> (\<And>x y. R x y \<Longrightarrow> P x \<longleftrightarrow> Q y) \<Longrightarrow> (\<exists>x \<in> set xs. P x) \<longleftrightarrow> (\<exists>y \<in> set ys. Q y)"
  by (induction rule: list_all2_induct) auto

text \<open>C30: an allow list that was parsed admits exactly the peers it should: every peer when it has
  no entry, every Unix-domain peer, and otherwise the peers whose address agrees with the address of
  some entry on all of that entry's prefix bits (an IPv4 prefix counted after the 96 mapped bits,
  an entry without a prefix on all 128).\<close>

theorem cidr_allow_list_correct:
  assumes "pton_sizes pton4 pton6" and "cidr_parse pton4 pton6 entries [] = Inr rules"
  shows "allows rules peer \<longleftrightarrow>
    entries = [] \<or> peer_is_unix peer \<or>
    (\<exists>entry \<in> set entries. \<exists>a n. entry_meaning pton4 pton6 entry = Some (a, n) \<and>
       (\<forall>i < n. addr_bit (peer_bytes peer) i = addr_bit (pa_bytes a) i))"
proof -
  have all2: "list_all2 (\<lambda>e r. parse_entry pton4 pton6 e = Inr r) entries rules"
    using cidr_parse_Inr [OF assms(2)] by simp
  have iff: "matches r x \<longleftrightarrow> (\<exists>a n. entry_meaning pton4 pton6 e = Some (a, n) \<and>
      (\<forall>i < n. addr_bit x i = addr_bit (pa_bytes a) i))" if "parse_entry pton4 pton6 e = Inr r" for e r x
    using parse_entry_matches [OF assms(1) that] by (metis option.inject prod.inject)
  have "(\<exists>rule \<in> set rules. matches rule (peer_bytes peer)) \<longleftrightarrow>
    (\<exists>entry \<in> set entries. \<exists>a n. entry_meaning pton4 pton6 entry = Some (a, n) \<and>
       (\<forall>i < n. addr_bit (peer_bytes peer) i = addr_bit (pa_bytes a) i))"
    by (rule sym, rule list_all2_bex [OF all2], rule sym, rule iff)
  moreover have "rules = [] \<longleftrightarrow> entries = []" using all2 by auto
  ultimately show ?thesis by (auto simp: allows_def)
qed

definition sample_pton4 :: "bytes \<Rightarrow> octets option" where
  "sample_pton4 t = (if t = ''10.0.0.0'' then Some [10, 0, 0, 0] else None)"

theorem cidr_allow_list_correct_witness:
  "\<exists>rules. cidr_parse sample_pton4 (\<lambda>_. None) [''10.0.0.0/8''] [] = Inr rules \<and>
     (allows rules default_peer \<longleftrightarrow>
       (\<exists>a n. entry_meaning sample_pton4 (\<lambda>_. None) ''10.0.0.0/8'' = Some (a, n) \<and>
          (\<forall>i < n. addr_bit (peer_bytes default_peer) i = addr_bit (pa_bytes a) i)))"
proof -
  have "\<not> isl (cidr_parse sample_pton4 (\<lambda>_. None) [''10.0.0.0/8''] [])" by code_simp
  then obtain rules where r: "cidr_parse sample_pton4 (\<lambda>_. None) [''10.0.0.0/8''] [] = Inr rules"
    by (metis sum.collapse(2))
  moreover have "pton_sizes sample_pton4 (\<lambda>_. None)"
    by (simp add: pton_sizes_def sample_pton4_def)
  ultimately show ?thesis
    using cidr_allow_list_correct [of sample_pton4 "\<lambda>_. None" "[''10.0.0.0/8'']" rules default_peer]
    by (simp add: default_peer_def)
qed

end
