(* ===== verification/Http_Request_Syntax.thy ===== *)
theory Http_Request_Syntax
  imports Http_Method_Status Http_Text
begin

text \<open>
  The first half of \<open>request.cpp\<close>: byte classes, string views, list fields, query decoding,
  canonical paths, the request target, the request line and the header fields.

  A \<open>std::string_view\<close> that may end up in a \<open>Request\<close> is a \<open>view\<close>: the address of its first byte and
  the bytes it shows. Functions that only inspect a view take the bytes alone.
\<close>


section \<open>Constants\<close>

definition kCrlf :: bytes where "kCrlf = [CHR 0x0D, CHR 0x0A]"
definition kHeaderTerminator :: bytes where
  "kHeaderTerminator = [CHR 0x0D, CHR 0x0A, CHR 0x0D, CHR 0x0A]"
definition kVersionPrefix :: bytes where "kVersionPrefix = ''HTTP/''"
definition kHttpVersion11 :: bytes where "kHttpVersion11 = ''HTTP/1.1''"
definition kHttpVersion10 :: bytes where "kHttpVersion10 = ''HTTP/1.0''"
definition kVersionNumberBytes :: nat where "kVersionNumberBytes = 3"
definition kSchemeSeparator :: bytes where "kSchemeSeparator = ''://''"
definition kAuthorityTerminators :: bytes where "kAuthorityTerminators = ''/?''"
definition kTokenSpecialCharacters :: bytes where
  "kTokenSpecialCharacters = ''!#$%&'' @ [CHR 0x27] @ ''*+-.^_`|~''"
definition kSpaceByte :: nat where "kSpaceByte = 0x20"
definition kDeleteByte :: nat where "kDeleteByte = 0x7F"
definition kMaxParsedHeaders :: nat where "kMaxParsedHeaders = 64"
definition kMaxPathParameters :: nat where "kMaxPathParameters = 8"

lemma crlf_lengths [simp]: "length kCrlf = 2" "length kHeaderTerminator = 4"
  by (simp_all add: kCrlf_def kHeaderTerminator_def)

datatype parse_error =
    NeedsMoreData | MalformedRequestLine | UnsupportedVersion | UnknownMethod | TooManyHeaders
  | MalformedHeader | MissingHost | MalformedHost | TargetTooLong | BadPercentEncoding
  | UnsupportedTransferEncoding | BodyTooLarge

definition status_for :: "parse_error \<Rightarrow> status" where
  "status_for e = (case e of
       TooManyHeaders \<Rightarrow> Status_RequestHeaderFieldsTooLarge
     | TargetTooLong \<Rightarrow> Status_UriTooLong
     | BodyTooLarge \<Rightarrow> Status_ContentTooLarge
     | UnsupportedTransferEncoding \<Rightarrow> Status_NotImplemented
     | UnsupportedVersion \<Rightarrow> Status_MisdirectedRequest
     | NeedsMoreData \<Rightarrow> Status_BadRequest
     | MalformedRequestLine \<Rightarrow> Status_BadRequest
     | UnknownMethod \<Rightarrow> Status_BadRequest
     | MalformedHeader \<Rightarrow> Status_BadRequest
     | MissingHost \<Rightarrow> Status_BadRequest
     | MalformedHost \<Rightarrow> Status_BadRequest
     | BadPercentEncoding \<Rightarrow> Status_BadRequest)"

section \<open>Views\<close>

record view =
  view_data :: nat
  view_text :: bytes

definition null_view :: view where "null_view = \<lparr>view_data = 0, view_text = []\<rparr>"

text \<open>\<open>substr(offset, length)\<close>, \<open>substr(offset)\<close> and \<open>slice\<close>.\<close>

definition view_substr :: "view \<Rightarrow> nat \<Rightarrow> nat \<Rightarrow> view" where
  "view_substr v off len =
     \<lparr>view_data = view_data v + off, view_text = take len (drop off (view_text v))\<rparr>"

definition view_from :: "view \<Rightarrow> nat \<Rightarrow> view" where
  "view_from v off = \<lparr>view_data = view_data v + off, view_text = drop off (view_text v)\<rparr>"

definition slice :: "view \<Rightarrow> nat \<Rightarrow> nat \<Rightarrow> view" where
  "slice v off len = (if off > length (view_text v) then null_view else view_substr v off len)"

lemma view_text_simps [simp]:
  "view_text null_view = []"
  "view_text (view_substr v off len) = take len (drop off (view_text v))"
  "view_text (view_from v off) = drop off (view_text v)"
  "view_text (slice v off len) = take len (drop off (view_text v))"
  by (simp_all add: null_view_def view_substr_def view_from_def slice_def)

record header_view =
  hv_name :: view
  hv_value :: view

section \<open>Byte classes and trimming\<close>

definition byte_at :: "bytes \<Rightarrow> nat \<Rightarrow> char option" where
  "byte_at s index = (if index \<ge> length s then None else Some (s ! index))"

definition hex_value :: "char \<Rightarrow> nat option" where
  "hex_value c =
     (if byte (CHR ''0'') \<le> byte c \<and> byte c \<le> byte (CHR ''9'') then Some (byte c - byte (CHR ''0''))
      else if byte (CHR ''a'') \<le> byte c \<and> byte c \<le> byte (CHR ''f'')
        then Some (byte c - byte (CHR ''a'') + 10)
      else if byte (CHR ''A'') \<le> byte c \<and> byte c \<le> byte (CHR ''F'')
        then Some (byte c - byte (CHR ''A'') + 10)
      else None)"

definition is_token_character :: "char \<Rightarrow> bool" where
  "is_token_character c \<longleftrightarrow>
     (byte (CHR ''a'') \<le> byte c \<and> byte c \<le> byte (CHR ''z'')) \<or>
     (byte (CHR ''A'') \<le> byte c \<and> byte c \<le> byte (CHR ''Z'')) \<or>
     (byte (CHR ''0'') \<le> byte c \<and> byte c \<le> byte (CHR ''9'')) \<or>
     sv_contains kTokenSpecialCharacters c"

definition is_valid_target_byte :: "char \<Rightarrow> bool" where
  "is_valid_target_byte c \<longleftrightarrow>
     (if byte c \<le> kSpaceByte \<or> byte c = kDeleteByte then False else c \<noteq> CHR ''#'')"

definition is_valid_field_value_byte :: "char \<Rightarrow> bool" where
  "is_valid_field_value_byte c \<longleftrightarrow>
     c = CHR 0x09 \<or> (byte c \<ge> kSpaceByte \<and> byte c \<noteq> kDeleteByte)"

text \<open>\<open>trim_optional_whitespace\<close>: one function per loop.\<close>

function trim_front :: "view \<Rightarrow> view" where
  "trim_front v =
     (if view_text v \<noteq> [] \<and> is_optional_whitespace (hd (view_text v))
      then trim_front (view_from v 1) else v)"
  by pat_completeness auto
termination
  by (relation "measure (\<lambda>v. length (view_text v))") auto

function trim_back :: "view \<Rightarrow> view" where
  "trim_back v =
     (if view_text v \<noteq> [] \<and> is_optional_whitespace (last (view_text v))
      then trim_back (view_substr v 0 (length (view_text v) - 1)) else v)"
  by pat_completeness auto
termination
  by (relation "measure (\<lambda>v. length (view_text v))") auto

declare trim_front.simps [simp del] trim_back.simps [simp del]

definition trim_view :: "view \<Rightarrow> view" where
  "trim_view v = trim_back (trim_front v)"

text \<open>The same function on the bytes alone.\<close>

definition trim_optional_whitespace :: "bytes \<Rightarrow> bytes" where
  "trim_optional_whitespace s = rev (dropWhile is_optional_whitespace
     (rev (dropWhile is_optional_whitespace s)))"

lemma trim_front_text:
  "view_text (trim_front v) = dropWhile is_optional_whitespace (view_text v)"
proof (induction v rule: trim_front.induct)
  case (1 v)
  then show ?case by (cases "view_text v") (auto simp: trim_front.simps [of v])
qed

lemma trim_back_text:
  "view_text (trim_back v) = rev (dropWhile is_optional_whitespace (rev (view_text v)))"
proof (induction v rule: trim_back.induct)
  case (1 v)
  then show ?case by (cases "view_text v" rule: rev_cases) (auto simp: trim_back.simps [of v])
qed

lemma trim_view_text [simp]: "view_text (trim_view v) = trim_optional_whitespace (view_text v)"
  by (simp add: trim_view_def trim_front_text trim_back_text trim_optional_whitespace_def)

lemma set_trim: "set (trim_optional_whitespace s) \<subseteq> set s"
  unfolding trim_optional_whitespace_def using set_rev_dropWhile_subset set_dropWhileD by fastforce

lemma trim_ends:
  fixes s :: bytes
  assumes "trim_optional_whitespace s \<noteq> []"
  shows "\<not> is_optional_whitespace (hd (trim_optional_whitespace s))"
    and "\<not> is_optional_whitespace (last (trim_optional_whitespace s))"
proof -
  let ?t = "dropWhile is_optional_whitespace s"
  let ?u = "dropWhile is_optional_whitespace (rev ?t)"
  have u: "?u \<noteq> []" "trim_optional_whitespace s = rev ?u"
    using assms by (simp_all add: trim_optional_whitespace_def)
  then show "\<not> is_optional_whitespace (last (trim_optional_whitespace s))"
    using hd_dropWhile [of is_optional_whitespace "rev ?t"] by (simp add: last_rev)
  have "?t \<noteq> []" using u by (metis dropWhile.simps(1) rev.simps(1))
  moreover have "rev ?t = takeWhile is_optional_whitespace (rev ?t) @ ?u" by simp
  then have "?t = rev ?u @ rev (takeWhile is_optional_whitespace (rev ?t))"
    by (metis rev_append rev_rev_ident)
  then have "hd ?t = hd (rev ?u)" using u(1) by (metis hd_append2 rev_is_Nil_conv)
  ultimately show "\<not> is_optional_whitespace (hd (trim_optional_whitespace s))"
    using hd_dropWhile [of is_optional_whitespace s] u(2) by simp
qed

section \<open>List fields\<close>

text \<open>\<open>for_each_list_member\<close>: the visitor is a function on the state its lambda captures.\<close>

function for_each_list_member :: "bytes \<Rightarrow> char \<Rightarrow> (bytes \<Rightarrow> 's \<Rightarrow> 's) \<Rightarrow> 's \<Rightarrow> 's" where
  "for_each_list_member value separator visit s =
     (if value = [] then s
      else let next = find_char separator value;
               member = trim_optional_whitespace
                 (case next of None \<Rightarrow> value | Some i \<Rightarrow> take i value);
               s = (if member \<noteq> [] then visit member s else s)
           in case next of None \<Rightarrow> s
              | Some i \<Rightarrow> for_each_list_member (drop (i + 1) value) separator visit s)"
  by pat_completeness auto
termination
  by (relation "measure (\<lambda>(value, _, _, _). length value)") auto

declare for_each_list_member.simps [simp del]

definition list_members :: "char \<Rightarrow> bytes \<Rightarrow> bytes list" where
  "list_members separator value =
     filter (\<lambda>m. m \<noteq> []) (map trim_optional_whitespace (split_on separator value))"

lemma trim_Nil [simp]: "trim_optional_whitespace [] = []"
  by (simp add: trim_optional_whitespace_def)

lemma list_members_None:
  "find_char c v = None \<Longrightarrow> list_members c v =
     (if trim_optional_whitespace v = [] then [] else [trim_optional_whitespace v])"
  by (simp add: list_members_def split_on_None)

lemma list_members_Some:
  "find_char c v = Some i \<Longrightarrow> list_members c v =
     (if trim_optional_whitespace (take i v) = [] then [] else [trim_optional_whitespace (take i v)])
       @ list_members c (drop (Suc i) v)"
  by (simp add: list_members_def split_on_Some)

lemma for_each_list_member_fold:
  "for_each_list_member v c visit s = fold visit (list_members c v) s"
proof (induction "length v" arbitrary: v s rule: less_induct)
  case less
  show ?case
  proof (cases "v = []")
    case True
    then show ?thesis by (simp add: for_each_list_member.simps [of "[]"] list_members_def)
  next
    case False
    show ?thesis
    proof (cases "find_char c v")
      case None
      then show ?thesis using False
        by (simp add: for_each_list_member.simps [of v] list_members_None Let_def)
    next
      case (Some i)
      then have "length (drop (Suc i) v) < length v" using False by (simp)
      from less [OF this] show ?thesis using False Some
        by (simp add: for_each_list_member.simps [of v] list_members_Some Let_def)
    qed
  qed
qed

section \<open>Query decoding\<close>

text \<open>\<open>decode_query_component_into\<close>: \<open>raw\<close> is the part from \<open>index\<close> on; the arena is returned in
  either case, as the code leaves what it has pushed.\<close>

fun decode_query_component_into :: "bytes \<Rightarrow> bytes \<Rightarrow> bool \<times> bytes" where
  "decode_query_component_into arena [] = (True, arena)"
| "decode_query_component_into arena (c # raw) =
     (if c = CHR ''+'' then decode_query_component_into (arena @ '' '') raw
      else if c \<noteq> CHR ''%'' then decode_query_component_into (arena @ [c]) raw
      else case (byte_at raw 0, byte_at raw 1) of
        (Some high, Some low) \<Rightarrow>
          (case (hex_value high, hex_value low) of
             (Some h, Some l) \<Rightarrow>
               let decoded = h * 16 + l in
               if decoded < kSpaceByte \<or> decoded = kDeleteByte then (False, arena)
               else decode_query_component_into (arena @ [char_of decoded]) (drop 2 raw)
           | _ \<Rightarrow> (False, arena))
      | _ \<Rightarrow> (False, arena))"

text \<open>\<open>arena_view\<close>: \<open>arena_data\<close> is the address of the reserved allocation.\<close>

definition arena_view :: "nat \<Rightarrow> bytes \<Rightarrow> nat \<Rightarrow> nat \<Rightarrow> view" where
  "arena_view arena_data arena off len =
     \<lparr>view_data = arena_data + off, view_text = take len (drop off arena)\<rparr>"

text \<open>\<open>decode_query_into\<close>: the loop over \<open>rest\<close>. On an error the caller drops the arena and the
  parameters with the request under construction.\<close>

function decode_query_into ::
  "nat \<Rightarrow> bytes \<Rightarrow> bytes \<Rightarrow> header_view list \<Rightarrow> (parse_error, bytes \<times> header_view list) expected" where
  "decode_query_into arena_data arena rest out =
     (if rest = [] then Inr (arena, out)
      else let next_pair = find_char (CHR ''&'') rest;
               pair = (case next_pair of None \<Rightarrow> rest | Some i \<Rightarrow> take i rest);
               rest' = (case next_pair of None \<Rightarrow> [] | Some i \<Rightarrow> drop (i + 1) rest);
               assignment = find_char (CHR ''='') pair;
               raw_name = (case assignment of None \<Rightarrow> pair | Some a \<Rightarrow> take a pair);
               raw_value = (case assignment of None \<Rightarrow> [] | Some a \<Rightarrow> drop (a + 1) pair)
           in if pair = [] then decode_query_into arena_data arena rest' out
              else if raw_name = [] then decode_query_into arena_data arena rest' out
              else if length out = kMaxParsedHeaders then Inl TargetTooLong
              else let (name_ok, arena1) = decode_query_component_into arena raw_name in
                   if \<not> name_ok then Inl BadPercentEncoding
                   else let (value_ok, arena2) = decode_query_component_into arena1 raw_value in
                        if \<not> value_ok then Inl BadPercentEncoding
                        else decode_query_into arena_data arena2 rest'
                          (out @ [\<lparr>hv_name = arena_view arena_data arena2 (length arena)
                                      (length arena1 - length arena),
                                    hv_value = arena_view arena_data arena2 (length arena1)
                                      (length arena2 - length arena1)\<rparr>]))"
  by pat_completeness auto
termination
  by (relation "measure (\<lambda>(_, _, rest, _). length rest)") (auto split: option.splits)

declare decode_query_into.simps [simp del]

section \<open>Canonical paths\<close>

text \<open>\<open>path_is_canonical\<close> and its loop over \<open>rest\<close>.\<close>

function path_segments_canonical :: "bytes \<Rightarrow> bool" where
  "path_segments_canonical rest =
     (if rest = [] then True
      else let separator = find_char (CHR ''/'') rest;
               segment = (case separator of None \<Rightarrow> rest | Some i \<Rightarrow> take i rest)
           in if segment = [] \<or> segment = ''.'' \<or> segment = ''..'' \<or> sv_contains segment (CHR ''%'')
              then False
              else case separator of None \<Rightarrow> True
                   | Some i \<Rightarrow> path_segments_canonical (drop (i + 1) rest))"
  by pat_completeness auto
termination
  by (relation "measure length") auto

declare path_segments_canonical.simps [simp del]

definition path_is_canonical :: "bytes \<Rightarrow> bool" where
  "path_is_canonical raw_path \<longleftrightarrow>
     (if raw_path = [] \<or> hd raw_path \<noteq> CHR ''/'' \<or> sv_contains raw_path (CHR 0x5C) then False
      else path_segments_canonical (drop 1 raw_path))"

section \<open>The request target\<close>

record target_parts =
  tp_path :: view
  tp_query :: view
  tp_authority :: view

text \<open>\<open>kRootPath\<close> is a literal, at an address of its own.\<close>

definition kRootPath :: "nat \<Rightarrow> view" where
  "kRootPath root_path_data = \<lparr>view_data = root_path_data, view_text = ''/''\<rparr>"

text \<open>The scheme and authority of an absolute-form target: authority and remainder.\<close>

definition split_authority :: "view \<Rightarrow> (parse_error, view \<times> view) expected" where
  "split_authority target =
     (if \<not> starts_with_char (view_text target) (CHR ''/'')
      then (case find_str kSchemeSeparator (view_text target) of
          None \<Rightarrow> Inl MalformedRequestLine
        | Some scheme_end \<Rightarrow>
            let scheme = take scheme_end (view_text target) in
            if \<not> equals_ignore_case scheme ''http'' \<and> \<not> equals_ignore_case scheme ''https''
            then Inl MalformedRequestLine
            else let remainder = view_from target (scheme_end + length kSchemeSeparator);
                     authority_end = find_first_of kAuthorityTerminators (view_text remainder);
                     authority = (case authority_end of None \<Rightarrow> remainder
                                    | Some e \<Rightarrow> view_substr remainder 0 e);
                     remainder = (case authority_end of None \<Rightarrow> null_view
                                    | Some e \<Rightarrow> view_from remainder e)
                 in if view_text authority = [] then Inl MalformedRequestLine
                    else Inr (authority, remainder))
      else Inr (null_view, target))"

definition split_target :: "nat \<Rightarrow> view \<Rightarrow> (parse_error, target_parts) expected" where
  "split_target root_path_data target =
     (if \<exists>c \<in> set (view_text target). \<not> is_valid_target_byte c then Inl MalformedRequestLine
      else case split_authority target of
        Inl e \<Rightarrow> Inl e
      | Inr (authority, remainder) \<Rightarrow>
          let query_begin = find_char (CHR ''?'') (view_text remainder);
              path = (case query_begin of None \<Rightarrow> remainder | Some q \<Rightarrow> view_substr remainder 0 q);
              query = (case query_begin of None \<Rightarrow> null_view | Some q \<Rightarrow> view_from remainder (q + 1))
          in if view_text path = []
             then Inr \<lparr>tp_path = kRootPath root_path_data, tp_query = query, tp_authority = authority\<rparr>
             else if \<not> starts_with_char (view_text path) (CHR ''/'') then Inl MalformedRequestLine
             else Inr \<lparr>tp_path = path, tp_query = query, tp_authority = authority\<rparr>)"

section \<open>The request line\<close>

definition version_is_well_formed :: "bytes \<Rightarrow> bool" where
  "version_is_well_formed version \<longleftrightarrow>
     (if \<not> starts_with version kVersionPrefix then False
      else let number = drop (length kVersionPrefix) version in
           length number = kVersionNumberBytes \<and> is_decimal_digit (hd number) \<and>
           number ! 1 = CHR ''.'' \<and> is_decimal_digit (last number))"

record request_line =
  rl_method :: http_method
  rl_target :: view
  rl_is_version_11 :: bool

definition parse_request_line :: "view \<Rightarrow> (parse_error, request_line) expected" where
  "parse_request_line line =
     (case find_char (CHR '' '') (view_text line) of
        None \<Rightarrow> Inl MalformedRequestLine
      | Some method_end \<Rightarrow>
          if method_end = 0 then Inl MalformedRequestLine
          else case find_char_from (CHR '' '') (view_text line) (method_end + 1) of
            None \<Rightarrow> Inl MalformedRequestLine
          | Some target_end \<Rightarrow>
              if find_char_from (CHR '' '') (view_text line) (target_end + 1) \<noteq> None
              then Inl MalformedRequestLine
              else let target = slice line (method_end + 1) (target_end - method_end - 1) in
                if view_text target = [] then Inl MalformedRequestLine
                else case method_from_token (take method_end (view_text line)) of
                  None \<Rightarrow> Inl UnknownMethod
                | Some meth \<Rightarrow>
                    let version = drop (target_end + 1) (view_text line) in
                    if \<not> version_is_well_formed version then Inl MalformedRequestLine
                    else if version \<noteq> kHttpVersion11 \<and> version \<noteq> kHttpVersion10
                      then Inl UnsupportedVersion
                    else Inr \<lparr>rl_method = meth, rl_target = target,
                              rl_is_version_11 = (version = kHttpVersion11)\<rparr>)"

section \<open>Header fields\<close>

text \<open>The body of the loop of \<open>parse_header_fields\<close>, for one line without its CRLF.\<close>

definition parse_field_line :: "view \<Rightarrow> (parse_error, header_view) expected" where
  "parse_field_line line =
     (if starts_with_char (view_text line) (CHR '' '') \<or> starts_with_char (view_text line) (CHR 0x09)
      then Inl MalformedHeader
      else case find_char (CHR '':'') (view_text line) of
        None \<Rightarrow> Inl MalformedHeader
      | Some colon \<Rightarrow>
          if colon = 0 then Inl MalformedHeader
          else let name = view_substr line 0 colon in
            if \<exists>c \<in> set (view_text name). \<not> is_token_character c then Inl MalformedHeader
            else let val = trim_view (view_from line (colon + 1)) in
              if \<exists>c \<in> set (view_text val). \<not> is_valid_field_value_byte c then Inl MalformedHeader
              else Inr \<lparr>hv_name = name, hv_value = val\<rparr>)"

function parse_header_fields ::
  "view \<Rightarrow> nat \<Rightarrow> header_view list \<Rightarrow> (parse_error, header_view list) expected" where
  "parse_header_fields field_lines max_header_count out =
     (if view_text field_lines = [] then Inr out
      else case find_str kCrlf (view_text field_lines) of
        None \<Rightarrow> Inl MalformedHeader
      | Some line_end \<Rightarrow>
          (case parse_field_line (view_substr field_lines 0 line_end) of
             Inl e \<Rightarrow> Inl e
           | Inr field \<Rightarrow>
               if length out \<ge> min max_header_count kMaxParsedHeaders then Inl TooManyHeaders
               else parse_header_fields (view_from field_lines (line_end + length kCrlf))
                      max_header_count (out @ [field])))"
  by pat_completeness auto
termination
  by (relation "measure (\<lambda>(field_lines, _, _). length (view_text field_lines))")
    (auto dest: find_str_less)

declare parse_header_fields.simps [simp del]

section \<open>What the query decoder guarantees\<close>

definition is_control :: "char \<Rightarrow> bool" where
  "is_control c \<longleftrightarrow> byte c < kSpaceByte \<or> byte c = kDeleteByte"

lemma hex_value_bound: "hex_value c = Some h \<Longrightarrow> h < 16"
  by (auto simp: hex_value_def byte_def split: if_splits)

lemma decode_query_component_bounds:
  "decode_query_component_into arena raw = (ok, arena') \<Longrightarrow>
     \<forall>c \<in> set raw. \<not> is_control c \<Longrightarrow>
     \<exists>d. arena' = arena @ d \<and> length d \<le> length raw \<and> (\<forall>c \<in> set d. \<not> is_control c)"
proof (induction arena raw rule: decode_query_component_into.induct)
  case (2 arena c raw)
  note hyps = 2
  consider (plus) "c = CHR ''+''" | (plain) "c \<noteq> CHR ''+''" "c \<noteq> CHR ''%''"
    | (escape) "c = CHR ''%''" by blast
  then show ?case
  proof cases
    case plus
    then obtain d where "arena' = (arena @ '' '') @ d" "length d \<le> length raw"
      "\<forall>c \<in> set d. \<not> is_control c"
      using hyps(1) [OF plus] hyps(4,5) by auto
    then show ?thesis
      by (intro exI [of _ "'' '' @ d"]) (auto simp: is_control_def kSpaceByte_def kDeleteByte_def byte_def)
  next
    case plain
    then obtain d where "arena' = (arena @ [c]) @ d" "length d \<le> length raw"
      "\<forall>c \<in> set d. \<not> is_control c"
      using hyps(2) [OF plain] hyps(4,5) by auto
    then show ?thesis using hyps(5) by (intro exI [of _ "[c] @ d"]) auto
  next
    case escape
    then have npl: "c \<noteq> CHR ''+''" by simp
    show ?thesis
    proof (cases "arena' = arena")
      case True
      then show ?thesis by (intro exI [of _ "[]"]) simp
    next
      case False
      then obtain hi lo h l where hl: "byte_at raw 0 = Some hi" "byte_at raw 1 = Some lo"
        "hex_value hi = Some h" "hex_value lo = Some l"
        and ok: "\<not> (h * 16 + l < kSpaceByte \<or> h * 16 + l = kDeleteByte)"
        and rec: "decode_query_component_into (arena @ [char_of (h * 16 + l)]) (drop 2 raw) = (ok, arena')"
        using hyps(4) escape by (auto simp: Let_def split: option.splits if_splits)
      have "\<forall>c \<in> set (drop 2 raw). \<not> is_control c"
        using hyps(5) by (meson in_set_dropD list.set_intros(2))
      then obtain d where "arena' = (arena @ [char_of (h * 16 + l)]) @ d"
        "length d \<le> length (drop 2 raw)" "\<forall>c \<in> set d. \<not> is_control c"
        using hyps(3) [OF npl] escape hl ok rec by fastforce
      moreover have "h * 16 + l < 256"
        using hex_value_bound [OF hl(3)] hex_value_bound [OF hl(4)] by linarith
      ultimately show ?thesis using ok
        by (intro exI [of _ "[char_of (h * 16 + l)] @ d"]) (auto simp: is_control_def)
    qed
  qed
qed simp

text \<open>The views \<open>decode_query_into\<close> hands out: inside the arena's contents, without control bytes, and
  with a name.\<close>

definition arena_field_ok :: "nat \<Rightarrow> bytes \<Rightarrow> view \<Rightarrow> bool" where
  "arena_field_ok arena_data arena v \<longleftrightarrow>
     (\<exists>off. view_data v = arena_data + off \<and> off + length (view_text v) \<le> length arena \<and>
        view_text v = take (length (view_text v)) (drop off arena)) \<and>
     (\<forall>c \<in> set (view_text v). \<not> is_control c)"

lemma arena_field_ok_mono:
  "arena_field_ok ad arena v \<Longrightarrow> arena_field_ok ad (arena @ d) v"
  unfolding arena_field_ok_def by force

lemma arena_field_okI:
  "(\<forall>c \<in> set d. \<not> is_control c) \<Longrightarrow>
     arena_field_ok ad (arena @ d @ e) (arena_view ad (arena @ d @ e) (length arena) (length d))"
  by (auto simp: arena_field_ok_def arena_view_def)

definition query_params_ok :: "nat \<Rightarrow> bytes \<Rightarrow> header_view list \<Rightarrow> bool" where
  "query_params_ok ad arena out \<longleftrightarrow>
     length out \<le> kMaxParsedHeaders \<and>
     (\<forall>h \<in> set out. arena_field_ok ad arena (hv_name h) \<and> arena_field_ok ad arena (hv_value h))"

lemma query_params_ok_step:
  assumes "query_params_ok ad arena out" and "length out \<noteq> kMaxParsedHeaders"
    and "\<forall>c \<in> set d. \<not> is_control c" and "\<forall>c \<in> set e. \<not> is_control c"
  shows "query_params_ok ad (arena @ d @ e)
     (out @ [\<lparr>hv_name = arena_view ad (arena @ d @ e) (length arena) (length d),
               hv_value = arena_view ad (arena @ d @ e) (length arena + length d) (length e)\<rparr>])"
  using assms arena_field_okI [of d ad arena e] arena_field_okI [of e ad "arena @ d" "[]"]
  by (auto simp: query_params_ok_def intro: arena_field_ok_mono)

text \<open>The pieces of one turn of the loop have no more bytes together than the text they come from.\<close>

lemma query_pieces:
  fixes s :: bytes and c :: char
  defines "h \<equiv> (case find_char c s of None \<Rightarrow> s | Some i \<Rightarrow> take i s)"
    and "t \<equiv> (case find_char c s of None \<Rightarrow> [] | Some i \<Rightarrow> drop (i + 1) s)"
  shows "length h + length t \<le> length s" "set h \<subseteq> set s" "set t \<subseteq> set s"
  unfolding h_def t_def
  by (auto split: option.splits dest: find_char_less in_set_takeD in_set_dropD)

theorem decode_query_into_ok:
  assumes "decode_query_into ad arena rest out = Inr (arena', out')"
    and "\<forall>c \<in> set rest. \<not> is_control c" and "query_params_ok ad arena out"
  shows "length arena' \<le> length arena + length rest \<and> query_params_ok ad arena' out'"
  using assms
proof (induction ad arena rest out rule: decode_query_into.induct)
  case (1 ad arena rest out)
  define pair where "pair = (case find_char (CHR ''&'') rest of None \<Rightarrow> rest | Some i \<Rightarrow> take i rest)"
  define rest' where "rest' = (case find_char (CHR ''&'') rest of None \<Rightarrow> [] | Some i \<Rightarrow> drop (i + 1) rest)"
  define nm where "nm = (case find_char (CHR ''='') pair of None \<Rightarrow> pair | Some a \<Rightarrow> take a pair)"
  define vl where "vl = (case find_char (CHR ''='') pair of None \<Rightarrow> [] | Some a \<Rightarrow> drop (a + 1) pair)"
  note defs = pair_def [symmetric] rest'_def [symmetric] nm_def [symmetric] vl_def [symmetric]
  note IH = 1(1-3) [OF _ refl refl refl refl refl refl, unfolded defs]
  note eq = 1(4) [unfolded decode_query_into.simps [of ad arena rest out] Let_def defs]
  have len: "length pair + length rest' \<le> length rest" "length nm + length vl \<le> length pair"
    unfolding pair_def rest'_def nm_def vl_def by (rule query_pieces)+
  have "set pair \<subseteq> set rest" "set nm \<subseteq> set pair" "set vl \<subseteq> set pair" "set rest' \<subseteq> set rest"
    unfolding pair_def rest'_def nm_def vl_def by (rule query_pieces)+
  with 1(5) have ctl: "\<forall>c \<in> set nm. \<not> is_control c" "\<forall>c \<in> set vl. \<not> is_control c"
    "\<forall>c \<in> set rest'. \<not> is_control c" by blast+
  show ?case
  proof (cases "rest = [] \<or> pair = [] \<or> nm = []")
    case True
    then show ?thesis using eq 1(6) IH(1) IH(2) ctl(3) len by (auto split: if_splits)
  next
    case False
    obtain b1 a1 b2 a2 where d1: "decode_query_component_into arena nm = (b1, a1)"
      and d2: "decode_query_component_into a1 vl = (b2, a2)" by (metis surj_pair)
    from decode_query_component_bounds [OF d1 ctl(1)] obtain d where
      a1: "a1 = arena @ d" and d: "length d \<le> length nm" "\<forall>c \<in> set d. \<not> is_control c" by blast
    from decode_query_component_bounds [OF d2 ctl(2)] obtain e where
      a2: "a2 = a1 @ e" and e: "length e \<le> length vl" "\<forall>c \<in> set e. \<not> is_control c" by blast
    have full: "length out \<noteq> kMaxParsedHeaders" using eq False by auto
    let ?out = "out @ [\<lparr>hv_name = arena_view ad a2 (length arena) (length a1 - length arena),
          hv_value = arena_view ad a2 (length a1) (length a2 - length a1)\<rparr>]"
    have rec: "b1 \<and> b2 \<and> decode_query_into ad a2 rest' ?out = Inr (arena', out')"
      using eq False full d1 d2 by (auto split: if_splits)
    have "query_params_ok ad a2 ?out"
      using query_params_ok_step [OF 1(6) full d(2) e(2)] by (simp add: a1 a2)
    then have "length arena' \<le> length a2 + length rest' \<and> query_params_ok ad arena' out'"
      using IH(3) [OF _ _ _ full refl d1 [symmetric] _ refl d2 [symmetric]] False rec ctl(3) by blast
    then show ?thesis using len d e by (simp add: a1 a2)
  qed
qed

section \<open>Canonical paths\<close>

definition segment_ok :: "bytes \<Rightarrow> bool" where
  "segment_ok seg \<longleftrightarrow> seg \<noteq> [] \<and> seg \<noteq> ''.'' \<and> seg \<noteq> ''..'' \<and> CHR ''%'' \<notin> set seg"

lemma path_segments_canonical_iff:
  "path_segments_canonical rest \<longleftrightarrow>
     (let segs = split_on (CHR ''/'') rest in
      (\<forall>s \<in> set (butlast segs). segment_ok s) \<and> (last segs = [] \<or> segment_ok (last segs)))"
proof (induction rest rule: path_segments_canonical.induct)
  case (1 rest)
  show ?case
  proof (cases "rest = []")
    case True
    then show ?thesis by (simp add: path_segments_canonical.simps [of "[]"])
  next
    case False
    show ?thesis
    proof (cases "find_char (CHR ''/'') rest")
      case None
      then show ?thesis using False
        by (auto simp: path_segments_canonical.simps [of rest] split_on_None segment_ok_def
            sv_contains_def Let_def)
    next
      case (Some i)
      then show ?thesis using False 1 [OF False refl refl, unfolded Some]
        by (auto simp: path_segments_canonical.simps [of rest] split_on_Some segment_ok_def
            sv_contains_def Let_def)
    qed
  qed
qed

text \<open>A path is canonical exactly when it is a slash followed by slash-separated segments, none of
  which is empty (a final slash apart), is a dot segment or holds an escape, and no byte of it is a
  backslash.\<close>

lemma path_is_canonical_iff:
  "path_is_canonical p \<longleftrightarrow>
     (\<exists>segs. p = CHR ''/'' # join_with ''/'' segs \<and> segs \<noteq> [] \<and>
        (\<forall>s \<in> set segs. CHR ''/'' \<notin> set s \<and> CHR 0x5C \<notin> set s) \<and>
        (\<forall>s \<in> set (butlast segs). segment_ok s) \<and> (last segs = [] \<or> segment_ok (last segs)))"
  (is "_ \<longleftrightarrow> (\<exists>segs. ?P segs)")
proof
  assume canon: "path_is_canonical p"
  then obtain r where p: "p = CHR ''/'' # r" and r: "CHR 0x5C \<notin> set r" "path_segments_canonical r"
    by (cases p) (auto simp: path_is_canonical_def sv_contains_def split: if_splits)
  have "?P (split_on (CHR ''/'') r)"
    using r p split_on_pieces_free [of _ "CHR ''/''" r] split_on_pieces_subset [of _ "CHR ''/''" r]
      join_split_on [of "CHR ''/''" r]
    by (auto simp: path_segments_canonical_iff Let_def)
  then show "\<exists>segs. ?P segs" ..
next
  assume "\<exists>segs. ?P segs"
  then obtain segs where P: "?P segs" ..
  have "split_on (CHR ''/'') (join_with ''/'' segs) = segs"
    if "segs \<noteq> []" "\<forall>s \<in> set segs. CHR ''/'' \<notin> set s" for segs
    using that
  proof (induction segs)
    case (Cons s segs)
    then show ?case by (cases segs) (auto simp: split_on_notin split_on_append join_with_Cons)
  qed simp
  moreover have "CHR 0x5C \<notin> set (join_with ''/'' segs)" if "\<forall>s \<in> set segs. CHR 0x5C \<notin> set s" for segs
    using that by (induction "''/''" segs rule: join_with.induct) auto
  ultimately show "path_is_canonical p"
    using P by (simp add: path_is_canonical_def path_segments_canonical_iff Let_def sv_contains_def)
qed

section \<open>The request target and the request line\<close>

lemma set_take_dropD: "c \<in> set (take i (drop j s)) \<Longrightarrow> c \<in> set s"
  by (meson in_set_dropD in_set_takeD)

lemma split_authority_sub:
  assumes "split_authority t = Inr (a, r)"
  shows "set (view_text a) \<subseteq> set (view_text t)" and "set (view_text r) \<subseteq> set (view_text t)"
  using assms
  by (auto simp: split_authority_def Let_def split: if_splits option.splits
      dest: in_set_dropD set_take_dropD)

lemma split_target_bytes:
  assumes "split_target rp t = Inr tp"
  shows "\<forall>c \<in> set (view_text t). is_valid_target_byte c"
    and "\<forall>c \<in> set (view_text (tp_path tp)). is_valid_target_byte c"
    and "\<forall>c \<in> set (view_text (tp_query tp)). is_valid_target_byte c"
    and "\<forall>c \<in> set (view_text (tp_authority tp)). is_valid_target_byte c"
    and "view_text (tp_path tp) \<noteq> []" and "hd (view_text (tp_path tp)) = CHR ''/''"
    and "CHR ''?'' \<notin> set (view_text (tp_path tp))"
proof -
  obtain a r where ar: "split_authority t = Inr (a, r)"
    and tb: "\<forall>c \<in> set (view_text t). is_valid_target_byte c"
    using assms by (auto simp: split_target_def split: if_splits sum.splits)
  note sub = split_authority_sub [OF ar]
  have root: "is_valid_target_byte (CHR ''/'')" by code_simp
  have pieces: "\<And>i c. c \<in> set (take i (view_text r)) \<Longrightarrow> is_valid_target_byte c"
    "\<And>i c. c \<in> set (drop i (view_text r)) \<Longrightarrow> is_valid_target_byte c"
    using sub(2) tb by (auto dest: in_set_takeD in_set_dropD)
  show "\<forall>c \<in> set (view_text t). is_valid_target_byte c" by (rule tb)
  show "\<forall>c \<in> set (view_text (tp_path tp)). is_valid_target_byte c"
    "\<forall>c \<in> set (view_text (tp_query tp)). is_valid_target_byte c"
    "\<forall>c \<in> set (view_text (tp_authority tp)). is_valid_target_byte c"
    "view_text (tp_path tp) \<noteq> []" "hd (view_text (tp_path tp)) = CHR ''/''"
    "CHR ''?'' \<notin> set (view_text (tp_path tp))"
    using assms ar tb sub root pieces
    by (auto simp: split_target_def Let_def kRootPath_def starts_with_char_def find_char_None_iff
        split: if_splits option.splits dest!: find_char_SomeD)
qed

lemma target_byte_not_control: "is_valid_target_byte c \<Longrightarrow> \<not> is_control c"
  by (auto simp: is_valid_target_byte_def is_control_def split: if_splits)

text \<open>The request line is accepted exactly when it is a known method, a target without spaces and a
  supported version, separated by single spaces.\<close>

lemma version_11_10:
  "version_is_well_formed kHttpVersion11" "version_is_well_formed kHttpVersion10"
  "CHR '' '' \<notin> set kHttpVersion11" "CHR '' '' \<notin> set kHttpVersion10"
  by (code_simp; simp add: kHttpVersion11_def kHttpVersion10_def)+

lemma method_names_plain:
  "m \<in> set kAllMethods \<Longrightarrow> method_name m \<noteq> [] \<and> CHR '' '' \<notin> set (method_name m)"
  by (auto simp: kAllMethods_def method_name_def method_defs)

lemma parse_request_line_accepts:
  assumes "view_text line = method_name m @ '' '' @ t @ '' '' @ v" and "m \<in> set kAllMethods"
    and "t \<noteq> []" and "CHR '' '' \<notin> set t" and "v = kHttpVersion11 \<or> v = kHttpVersion10"
  shows "parse_request_line line =
    Inr \<lparr>rl_method = m,
         rl_target = \<lparr>view_data = view_data line + length (method_name m) + 1, view_text = t\<rparr>,
         rl_is_version_11 = (v = kHttpVersion11)\<rparr>"
proof -
  let ?n = "length (method_name m)"
  note mn = method_names_plain [OF assms(2)]
  have f1: "find_char (CHR '' '') (view_text line) = Some ?n"
    using assms(1) mn find_char_append_notin [of "CHR '' ''" "method_name m"] by simp
  have f2: "find_char_from (CHR '' '') (view_text line) (?n + 1) = Some (?n + 1 + length t)"
    using assms(1,4) find_char_append_notin [of "CHR '' ''" t] by (simp add: find_char_from_def)
  have sp: "CHR '' '' \<notin> set v" using assms(5) version_11_10 by auto
  have f3: "find_char_from (CHR '' '') (view_text line) (?n + 1 + length t + 1) = None"
    using assms(1) sp by (simp add: find_char_from_def find_char_None_iff)
  show ?thesis
    using f1 f2 f3 assms mn version_11_10
    by (auto simp: parse_request_line_def Let_def slice_def view_substr_def method_from_token_name)
qed

lemma parse_request_lineD:
  assumes "parse_request_line line = Inr rl"
  obtains v where "view_text line = method_name (rl_method rl) @ '' '' @ view_text (rl_target rl) @ '' '' @ v"
    and "rl_method rl \<in> set kAllMethods" and "view_text (rl_target rl) \<noteq> []"
    and "CHR '' '' \<notin> set (view_text (rl_target rl))"
    and "v = kHttpVersion11 \<or> v = kHttpVersion10" and "rl_is_version_11 rl = (v = kHttpVersion11)"
proof -
  obtain me te m where f1: "find_char (CHR '' '') (view_text line) = Some me" "me \<noteq> 0"
    and f2: "find_char_from (CHR '' '') (view_text line) (me + 1) = Some te"
    and tok: "method_from_token (take me (view_text line)) = Some m"
    and rl: "rl_method rl = m" "rl_target rl = slice line (me + 1) (te - me - 1)"
      "view_text (rl_target rl) \<noteq> []"
      "rl_is_version_11 rl = (drop (te + 1) (view_text line) = kHttpVersion11)"
    and v: "drop (te + 1) (view_text line) = kHttpVersion11 \<or>
      drop (te + 1) (view_text line) = kHttpVersion10"
    using assms by (auto simp: parse_request_line_def Let_def split: option.splits if_splits)
  let ?s = "drop (Suc me) (view_text line)"
  note s1 = find_char_split [OF f1(1)]
  from f2 obtain k where k: "find_char (CHR '' '') ?s = Some k" "te = me + 1 + k"
    by (auto simp: find_char_from_def split: if_splits)
  note s2 = find_char_split [OF k(1)]
  have m: "m \<in> set kAllMethods" "method_name m = take me (view_text line)"
    using tok by (simp_all add: method_from_token_Some_iff)
  have t: "view_text (rl_target rl) = take k ?s" using rl(2) k(2) by simp
  have "?s = take k ?s @ '' '' @ drop (te + 1) (view_text line)"
    using s2 k(2) by (simp add: add.commute)
  then have "view_text line = method_name m @ '' '' @ view_text (rl_target rl) @ '' '' @
      drop (te + 1) (view_text line)"
    using s1 m(2) t by (metis append_Cons append_Nil)
  then show ?thesis using that [of "drop (te + 1) (view_text line)"] rl m v t s2 by simp
qed

section \<open>Header fields\<close>

definition field_ok :: "header_view \<Rightarrow> bool" where
  "field_ok h \<longleftrightarrow>
     view_text (hv_name h) \<noteq> [] \<and> (\<forall>c \<in> set (view_text (hv_name h)). is_token_character c) \<and>
     (\<forall>c \<in> set (view_text (hv_value h)). is_valid_field_value_byte c) \<and>
     trim_optional_whitespace (view_text (hv_value h)) = view_text (hv_value h)"

lemma trim_fix:
  assumes "s = [] \<or> \<not> is_optional_whitespace (hd s) \<and> \<not> is_optional_whitespace (last s)"
  shows "trim_optional_whitespace s = s"
proof -
  have "dropWhile is_optional_whitespace s = s" using assms by (cases s) auto
  moreover have "dropWhile is_optional_whitespace (rev s) = rev s"
    using assms by (cases s rule: rev_cases) auto
  ultimately show ?thesis by (simp add: trim_optional_whitespace_def)
qed

lemma trim_idem [simp]:
  "trim_optional_whitespace (trim_optional_whitespace s) = trim_optional_whitespace s"
  using trim_ends trim_fix by blast

lemma parse_field_line_ok:
  assumes "parse_field_line line = Inr h"
  shows "field_ok h"
  using assms
  by (auto simp: parse_field_line_def field_ok_def Let_def dest: find_char_less
      split: if_splits option.splits)

lemma parse_header_fields_ok:
  assumes "parse_header_fields fl n out = Inr hs"
    and "\<forall>h \<in> set out. field_ok h" and "length out \<le> min n kMaxParsedHeaders"
  shows "(\<forall>h \<in> set hs. field_ok h) \<and> length hs \<le> min n kMaxParsedHeaders"
  using assms
proof (induction fl n out rule: parse_header_fields.induct)
  case (1 fl n out)
  show ?case
  proof (cases "view_text fl = []")
    case True
    then show ?thesis using 1 by (simp add: parse_header_fields.simps [of fl])
  next
    case False
    then obtain e h where e: "find_str kCrlf (view_text fl) = Some e"
      and h: "parse_field_line (view_substr fl 0 e) = Inr h"
      and room: "\<not> length out \<ge> min n kMaxParsedHeaders"
      and rec: "parse_header_fields (view_from fl (e + length kCrlf)) n (out @ [h]) = Inr hs"
      using 1(2) by (auto simp: parse_header_fields.simps [of fl] split: option.splits sum.splits if_splits)
    have "length (out @ [h]) \<le> min n kMaxParsedHeaders" using room by simp linarith
    then show ?thesis
      using 1(1) [OF False e h room rec] 1(3) parse_field_line_ok [OF h] by auto
  qed
qed

text \<open>Conversely, well-formed fields written out line by line are read back as they are.\<close>

definition render_field :: "bytes \<times> bytes \<Rightarrow> bytes" where
  "render_field f = fst f @ '': '' @ snd f @ kCrlf"

definition field_texts :: "header_view \<Rightarrow> bytes \<times> bytes" where
  "field_texts h = (view_text (hv_name h), view_text (hv_value h))"

definition field_pair_ok :: "bytes \<times> bytes \<Rightarrow> bool" where
  "field_pair_ok f \<longleftrightarrow>
     fst f \<noteq> [] \<and> (\<forall>c \<in> set (fst f). is_token_character c) \<and>
     (\<forall>c \<in> set (snd f). is_valid_field_value_byte c) \<and> trim_optional_whitespace (snd f) = snd f"

lemma find_crlf: "CHR 0x0D \<notin> set xs \<Longrightarrow> find_str kCrlf (xs @ kCrlf @ ys) = Some (length xs)"
  by (induction xs) (auto simp: kCrlf_def starts_with_def)

lemma token_not_special:
  "is_token_character c \<Longrightarrow> c \<noteq> CHR '':'' \<and> c \<noteq> CHR '' '' \<and> c \<noteq> CHR 0x09 \<and> c \<noteq> CHR 0x0D"
  by (auto simp: is_token_character_def kTokenSpecialCharacters_def sv_contains_def byte_def)

lemma value_byte_not_cr:
  "is_valid_field_value_byte c \<Longrightarrow> c \<noteq> CHR 0x0D \<and> c \<noteq> CHR 0x0A \<and> c \<noteq> CHR 0x00"
  by (auto simp: is_valid_field_value_byte_def byte_def kSpaceByte_def)

lemma trim_leading_space: "trim_optional_whitespace (CHR '' '' # s) = trim_optional_whitespace s"
  by (simp add: trim_optional_whitespace_def is_optional_whitespace_def)

lemma parse_field_line_accepts:
  assumes "field_pair_ok f" and "view_text line = fst f @ '': '' @ snd f"
  shows "\<exists>h. parse_field_line line = Inr h \<and> field_texts h = f"
proof -
  obtain n v where f: "f = (n, v)" by (cases f)
  note ok = assms(1) [unfolded field_pair_ok_def f fst_conv snd_conv]
  have colon: "find_char (CHR '':'') (view_text line) = Some (length n)"
    using assms(2) ok find_char_append_notin [of "CHR '':''" n] token_not_special by (auto simp: f)
  have "hd n \<noteq> CHR '' '' \<and> hd n \<noteq> CHR 0x09" using ok token_not_special by (metis list.set_sel(1))
  then have first: "\<not> starts_with_char (view_text line) (CHR '' '')"
    "\<not> starts_with_char (view_text line) (CHR 0x09)"
    using assms(2) ok by (auto simp: starts_with_char_def f)
  show ?thesis
    using colon first ok assms(2)
    by (simp add: parse_field_line_def Let_def field_texts_def f trim_leading_space)
qed

lemma drop_two_append: "drop (length xs + length ys) (xs @ ys @ zs) = zs"
  by simp

lemma parse_header_fields_accepts:
  assumes "\<forall>f \<in> set fs. field_pair_ok f" and "length out + length fs \<le> min n kMaxParsedHeaders"
    and "view_text fl = concat (map render_field fs)"
  shows "\<exists>hs. parse_header_fields fl n out = Inr (out @ hs) \<and> map field_texts hs = fs"
  using assms
proof (induction fs arbitrary: fl out)
  case Nil
  then show ?case by (simp add: parse_header_fields.simps [of fl])
next
  case (Cons f fs)
  let ?l = "fst f @ '': '' @ snd f"
  have fl: "view_text fl = ?l @ kCrlf @ concat (map render_field fs)"
    using Cons.prems(3) by (simp add: render_field_def [of f])
  have "CHR 0x0D \<notin> set ?l"
    using Cons.prems(1) token_not_special value_byte_not_cr by (fastforce simp: field_pair_ok_def)
  then have e: "find_str kCrlf (view_text fl) = Some (length ?l)"
    unfolding fl by (rule find_crlf)
  obtain h where h: "parse_field_line (view_substr fl 0 (length ?l)) = Inr h" "field_texts h = f"
    using parse_field_line_accepts [of f "view_substr fl 0 (length ?l)"] Cons.prems(1) fl by auto
  have tl: "view_text (view_from fl (length ?l + length kCrlf)) = concat (map render_field fs)"
    unfolding view_text_simps fl by (rule drop_two_append)
  obtain hs where hs: "parse_header_fields (view_from fl (length ?l + length kCrlf)) n (out @ [h]) =
      Inr ((out @ [h]) @ hs)" "map field_texts hs = fs"
    using Cons.IH [OF _ _ tl, of "out @ [h]"] Cons.prems(1,2) by auto
  have ne: "view_text fl \<noteq> []" "\<not> min n kMaxParsedHeaders \<le> length out"
    using fl Cons.prems(2) by auto
  show ?case
    using e h hs ne by (intro exI [of _ "h # hs"]) (simp add: parse_header_fields.simps [of fl])
qed

end
