(* ===== verification/Http_Request_Fields.thy ===== *)
theory Http_Request_Fields
  imports Http_Request_Syntax
begin

text \<open>
  The second half of \<open>request.cpp\<close>'s helpers: the fields that decide framing, authority, connection
  persistence and content coding. \<open>inet_pton6\<close> stands for \<open>inet_pton(AF_INET6, \<dots>) == 1\<close> on a C string.
\<close>

datatype decimal_error = NotANumber | OutOfRange

definition parse_decimal :: "bytes \<Rightarrow> (decimal_error, nat) expected" where
  "parse_decimal t =
     (if t = [] then Inl NotANumber
      else if \<exists>c \<in> set t. \<not> is_decimal_digit c then Inl NotANumber
      else if length t > 1 \<and> hd t = CHR ''0'' then Inl NotANumber
      else case from_chars 64 t of
        (Inr v, ptr) \<Rightarrow> if ptr \<noteq> length t then Inl OutOfRange else Inr v
      | (Inl _, _) \<Rightarrow> Inl OutOfRange)"

text \<open>The loop of \<open>resolve_content_length\<close>, with its two locals, and the decision after it.\<close>

fun content_length_loop ::
  "header_view list \<Rightarrow> bool \<Rightarrow> nat option \<Rightarrow> (parse_error, bool \<times> nat option) expected" where
  "content_length_loop [] saw_transfer_encoding declared_length =
     Inr (saw_transfer_encoding, declared_length)"
| "content_length_loop (field # headers) saw_transfer_encoding declared_length =
     (if equals_ignore_case (view_text (hv_name field)) ''Transfer-Encoding''
      then content_length_loop headers True declared_length
      else if \<not> equals_ignore_case (view_text (hv_name field)) ''Content-Length''
      then content_length_loop headers saw_transfer_encoding declared_length
      else case parse_decimal (view_text (hv_value field)) of
        Inl OutOfRange \<Rightarrow> Inl BodyTooLarge
      | Inl NotANumber \<Rightarrow> Inl MalformedHeader
      | Inr parsed \<Rightarrow>
          if declared_length \<noteq> None \<and> declared_length \<noteq> Some parsed then Inl MalformedHeader
          else content_length_loop headers saw_transfer_encoding (Some parsed))"

definition resolve_content_length :: "header_view list \<Rightarrow> nat \<Rightarrow> (parse_error, nat) expected" where
  "resolve_content_length headers max_body_bytes =
     (case content_length_loop headers False None of
        Inl e \<Rightarrow> Inl e
      | Inr (saw_transfer_encoding, declared_length) \<Rightarrow>
          if saw_transfer_encoding then Inl UnsupportedTransferEncoding
          else let len = (case declared_length of None \<Rightarrow> 0 | Some n \<Rightarrow> n) in
               if len > max_body_bytes then Inl BodyTooLarge else Inr len)"

section \<open>Authority\<close>

definition kMaxPortNumber :: nat where "kMaxPortNumber = 65535"
definition kMaxPortDigits :: nat where "kMaxPortDigits = 5"
definition kRegisteredNameSpecials :: bytes where "kRegisteredNameSpecials = ''-._~''"
definition INET6_ADDRSTRLEN :: nat where "INET6_ADDRSTRLEN = 46"

definition port_is_well_formed :: "bytes \<Rightarrow> bool" where
  "port_is_well_formed port \<longleftrightarrow>
     (if port = [] \<or> length port > kMaxPortDigits \<or> hd port = CHR ''0'' then False
      else if \<exists>c \<in> set port. \<not> is_decimal_digit c then False
      else case from_chars 32 port of
        (Inr v, ptr) \<Rightarrow> if ptr \<noteq> length port then False else v \<le> kMaxPortNumber
      | (Inl _, _) \<Rightarrow> False)"

definition is_label_character :: "char \<Rightarrow> bool" where
  "is_label_character c \<longleftrightarrow>
     (byte (CHR ''a'') \<le> byte c \<and> byte c \<le> byte (CHR ''z'')) \<or>
     (byte (CHR ''A'') \<le> byte c \<and> byte c \<le> byte (CHR ''Z'')) \<or> is_decimal_digit c \<or>
     sv_contains kRegisteredNameSpecials c"

function labels_well_formed :: "bytes \<Rightarrow> bool" where
  "labels_well_formed rest =
     (let separator = find_char (CHR ''.'') rest;
          label = (case separator of None \<Rightarrow> rest | Some i \<Rightarrow> take i rest)
      in if label = [] then False
         else if \<exists>c \<in> set label. \<not> is_label_character c then False
         else case separator of None \<Rightarrow> True
              | Some i \<Rightarrow> labels_well_formed (drop (i + 1) rest))"
  by pat_completeness auto
termination
  by (relation "measure length") (auto dest!: find_char_less [OF sym])

declare labels_well_formed.simps [simp del]

definition registered_name_is_well_formed :: "bytes \<Rightarrow> bool" where
  "registered_name_is_well_formed host =
     labels_well_formed (if ends_with_char host (CHR ''.'') then butlast host else host)"

text \<open>The literal is copied into a zero-filled array, so what \<open>inet_pton\<close> reads ends at a NUL.\<close>

definition ip_literal_is_well_formed :: "(bytes \<Rightarrow> bool) \<Rightarrow> bytes \<Rightarrow> bool" where
  "ip_literal_is_well_formed inet_pton6 literal \<longleftrightarrow>
     (if \<not> starts_with_char literal (CHR ''['') \<or> \<not> ends_with_char literal (CHR '']'') \<or>
         length literal \<le> 2 then False
      else let body = substr literal 1 (length literal - 2) in
           if length body \<ge> INET6_ADDRSTRLEN then False
           else inet_pton6 (takeWhile (\<lambda>c. c \<noteq> CHR 0x00) body))"

definition authority_is_well_formed :: "(bytes \<Rightarrow> bool) \<Rightarrow> bytes \<Rightarrow> bool" where
  "authority_is_well_formed inet_pton6 authority \<longleftrightarrow>
     (if authority = [] \<or> sv_contains authority (CHR ''@'') then False
      else if starts_with_char authority (CHR ''['')
      then (case find_char (CHR '']'') authority of
          None \<Rightarrow> False
        | Some literal_end \<Rightarrow>
            let host = take (literal_end + 1) authority;
                tail = drop (literal_end + 1) authority
            in if tail \<noteq> [] \<and> hd tail \<noteq> CHR '':'' then False
               else if \<not> ip_literal_is_well_formed inet_pton6 host then False
               else tail = [] \<or> port_is_well_formed (drop 1 tail))
      else (case find_char (CHR '':'') authority of
          None \<Rightarrow> registered_name_is_well_formed authority
        | Some separator \<Rightarrow>
            registered_name_is_well_formed (take separator authority) \<and>
            port_is_well_formed (drop (separator + 1) authority)))"

fun host_loop :: "header_view list \<Rightarrow> view option \<Rightarrow> (parse_error, view option) expected" where
  "host_loop [] host = Inr host"
| "host_loop (field # headers) host =
     (if \<not> equals_ignore_case (view_text (hv_name field)) ''Host'' then host_loop headers host
      else if host \<noteq> None then Inl MalformedHost
      else host_loop headers (Some (hv_value field)))"

definition resolve_authority ::
  "(bytes \<Rightarrow> bool) \<Rightarrow> header_view list \<Rightarrow> view \<Rightarrow> bool \<Rightarrow> (parse_error, view) expected" where
  "resolve_authority inet_pton6 headers target_authority is_version_11 =
     (case host_loop headers None of
        Inl e \<Rightarrow> Inl e
      | Inr host \<Rightarrow>
          if host = None \<and> is_version_11 then Inl MissingHost
          else if host \<noteq> None \<and> \<not> authority_is_well_formed inet_pton6 (view_text (the host))
          then Inl MalformedHost
          else if view_text target_authority = []
          then Inr (case host of None \<Rightarrow> null_view | Some h \<Rightarrow> h)
          else if \<not> authority_is_well_formed inet_pton6 (view_text target_authority)
          then Inl MalformedHost
          else if host \<noteq> None \<and>
            \<not> equals_ignore_case (view_text (the host)) (view_text target_authority)
          then Inl MalformedHost
          else Inr target_authority)"

section \<open>Connection and Accept-Encoding\<close>

text \<open>The visitor of \<open>resolve_keep_alive\<close>: its state is \<open>(close_requested, keep_alive_requested)\<close>.\<close>

definition visit_connection_option :: "bytes \<Rightarrow> bool \<times> bool \<Rightarrow> bool \<times> bool" where
  "visit_connection_option opt s =
     (if equals_ignore_case opt ''close'' then (True, snd s)
      else if equals_ignore_case opt ''keep-alive'' then (fst s, True)
      else s)"

definition resolve_keep_alive :: "header_view list \<Rightarrow> bool \<Rightarrow> bool" where
  "resolve_keep_alive headers is_version_11 =
     (let (close_requested, keep_alive_requested) =
            fold (\<lambda>field s.
              if \<not> equals_ignore_case (view_text (hv_name field)) ''Connection'' then s
              else for_each_list_member (view_text (hv_value field)) (CHR '','')
                     visit_connection_option s) headers (False, False)
      in if close_requested then False else if is_version_11 then True else keep_alive_requested)"

fun weight_is_zero_loop :: "bytes \<Rightarrow> bool \<Rightarrow> bool" where
  "weight_is_zero_loop [] saw_digit = saw_digit"
| "weight_is_zero_loop (c # weight) saw_digit =
     (if c = CHR ''.'' then weight_is_zero_loop weight saw_digit
      else if byte c < byte (CHR ''0'') \<or> byte c > byte (CHR ''9'') then False
      else if c \<noteq> CHR ''0'' then False
      else weight_is_zero_loop weight True)"

definition weight_is_zero :: "bytes \<Rightarrow> bool" where
  "weight_is_zero weight = weight_is_zero_loop weight False"

definition visit_parameter :: "bytes \<Rightarrow> bool \<Rightarrow> bool" where
  "visit_parameter parameter is_zero =
     (case find_char (CHR ''='') parameter of
        None \<Rightarrow> is_zero
      | Some assignment \<Rightarrow>
          if \<not> equals_ignore_case (trim_optional_whitespace (take assignment parameter)) ''q''
          then is_zero
          else weight_is_zero (trim_optional_whitespace (drop (assignment + 1) parameter)))"

definition quality_is_zero :: "bytes \<Rightarrow> bool" where
  "quality_is_zero parameters = for_each_list_member parameters (CHR '';'') visit_parameter False"

text \<open>The visitor of \<open>resolve_wants_gzip\<close>: its state is \<open>(gzip_acceptable, wildcard_acceptable)\<close>.\<close>

definition member_coding :: "bytes \<Rightarrow> bytes" where
  "member_coding member = trim_optional_whitespace
     (case find_char (CHR '';'') member of None \<Rightarrow> member | Some p \<Rightarrow> take p member)"

definition member_acceptable :: "bytes \<Rightarrow> bool" where
  "member_acceptable member =
     (case find_char (CHR '';'') member of None \<Rightarrow> True
      | Some p \<Rightarrow> \<not> quality_is_zero (drop (p + 1) member))"

definition visit_coding :: "bytes \<Rightarrow> bool option \<times> bool option \<Rightarrow> bool option \<times> bool option" where
  "visit_coding member s =
     (if equals_ignore_case (member_coding member) ''gzip'' \<or>
         equals_ignore_case (member_coding member) ''x-gzip''
      then (Some (member_acceptable member), snd s)
      else if member_coding member = ''*'' then (fst s, Some (member_acceptable member))
      else s)"

definition resolve_wants_gzip :: "header_view list \<Rightarrow> bool" where
  "resolve_wants_gzip headers =
     (let (gzip_acceptable, wildcard_acceptable) =
            fold (\<lambda>field s.
              if \<not> equals_ignore_case (view_text (hv_name field)) ''Accept-Encoding'' then s
              else for_each_list_member (view_text (hv_value field)) (CHR '','') visit_coding s)
              headers (None, None)
      in case gzip_acceptable of Some b \<Rightarrow> b
         | None \<Rightarrow> (case wildcard_acceptable of Some b \<Rightarrow> b | None \<Rightarrow> False))"

section \<open>Decimals\<close>

lemma nat_to_dec_dec_value:
  "s \<noteq> [] \<Longrightarrow> \<forall>c \<in> set s. is_decimal_digit c \<Longrightarrow> length s = 1 \<or> hd s \<noteq> CHR ''0'' \<Longrightarrow>
     nat_to_dec (dec_value s) = s"
proof (induction s rule: rev_induct)
  case (snoc c s)
  have c: "byte c - 48 < 10" "digit_char (byte c - 48) = c"
    using snoc.prems(2) by (auto simp: is_decimal_digit_def digit_char_def byte_def)
  show ?case
  proof (cases "s = []")
    case True
    then show ?thesis using c by (simp add: dec_value_def nat_to_dec_small)
  next
    case False
    then have IH: "nat_to_dec (dec_value s) = s" using snoc by (cases s) auto
    have "hd s \<noteq> CHR ''0''" using False snoc.prems(3) by simp
    moreover have "nat_to_dec 0 = ''0''" by (simp add: sv_simps)
    ultimately have "dec_value s \<noteq> 0" using IH by (metis list.sel(1))
    then show ?thesis using c IH by (simp add: nat_to_dec_large)
  qed
qed simp

lemma from_chars_all:
  assumes "t \<noteq> []" and "\<forall>c \<in> set t. is_decimal_digit c"
  shows "from_chars b t =
    (if dec_value t \<ge> 2 ^ b then (Inl ResultOutOfRange, length t) else (Inr (dec_value t), length t))"
proof -
  have "takeWhile is_decimal_digit t = t" using assms(2) by simp
  then show ?thesis unfolding from_chars_def using assms(1) by (simp only: Let_def if_False)
qed

lemma nat_to_dec_zero_head: "hd (nat_to_dec n) = CHR ''0'' \<Longrightarrow> length (nat_to_dec n) = 1"
  using nat_to_dec_no_leading_zero [of n] by (cases "n = 0") (simp_all add: sv_simps)

lemma parse_decimal_iff: "parse_decimal t = Inr n \<longleftrightarrow> t = nat_to_dec n \<and> n < 2 ^ 64"
proof
  assume "parse_decimal t = Inr n"
  then show "t = nat_to_dec n \<and> n < 2 ^ 64"
    using nat_to_dec_dec_value [of t]
    by (cases t) (auto simp: parse_decimal_def from_chars_all split: if_splits)
next
  assume "t = nat_to_dec n \<and> n < 2 ^ 64"
  then show "parse_decimal t = Inr n"
    using nat_to_dec_digits [of n] nat_to_dec_zero_head [of n] from_chars_nat_to_dec [of n 64]
    by (auto simp: parse_decimal_def)
qed

section \<open>Framing\<close>

definition named :: "bytes \<Rightarrow> header_view list \<Rightarrow> header_view list" where
  "named n hs = filter (\<lambda>h. equals_ignore_case (view_text (hv_name h)) n) hs"

lemma named_simps [simp]:
  "named n [] = []"
  "named n (h # hs) = (if equals_ignore_case (view_text (hv_name h)) n then h # named n hs else named n hs)"
  by (simp_all add: named_def)

lemma te_not_cl:
  "equals_ignore_case s ''Transfer-Encoding'' \<Longrightarrow> \<not> equals_ignore_case s ''Content-Length''"
  by (auto simp: equals_ignore_case_iff dest: arg_cong [where f = length])

lemma content_length_loop_iff:
  "content_length_loop hs te d = Inr (te', d') \<longleftrightarrow>
     te' = (te \<or> named ''Transfer-Encoding'' hs \<noteq> []) \<and>
     (if named ''Content-Length'' hs = [] then d' = d
      else \<exists>n. d' = Some n \<and> n < 2 ^ 64 \<and> (d = None \<or> d = Some n) \<and>
             (\<forall>h \<in> set (named ''Content-Length'' hs). view_text (hv_value h) = nat_to_dec n))"
proof (induction hs te d arbitrary: te' d' rule: content_length_loop.induct)
  case (2 h hs te d)
  consider (te) "equals_ignore_case (view_text (hv_name h)) ''Transfer-Encoding''"
    | (other) "\<not> equals_ignore_case (view_text (hv_name h)) ''Transfer-Encoding''"
      "\<not> equals_ignore_case (view_text (hv_name h)) ''Content-Length''"
    | (cl) "\<not> equals_ignore_case (view_text (hv_name h)) ''Transfer-Encoding''"
      "equals_ignore_case (view_text (hv_name h)) ''Content-Length''" by blast
  then show ?case
  proof cases
    case te
    then show ?thesis using 2(1) te_not_cl [OF te] by auto
  next
    case other
    then show ?thesis using 2(2) by auto
  next
    case cl
    show ?thesis
    proof (cases "parse_decimal (view_text (hv_value h))")
      case (Inl e)
      have "view_text (hv_value h) \<noteq> nat_to_dec n" if "n < 2 ^ 64" for n
        using Inl that parse_decimal_iff [of "view_text (hv_value h)" n] by auto
      then show ?thesis using cl Inl by (cases e) auto
    next
      case (Inr n)
      then have v: "view_text (hv_value h) = nat_to_dec n" "n < 2 ^ 64"
        by (simp_all add: parse_decimal_iff)
      show ?thesis
      proof (cases "d \<noteq> None \<and> d \<noteq> Some n")
        case True
        then show ?thesis using cl Inr v by auto
      next
        case False
        then have "content_length_loop (h # hs) te d = content_length_loop hs te (Some n)"
          using cl Inr by auto
        then show ?thesis using 2(3) [OF cl(1) _ Inr False] cl v False
          by (auto split: if_splits)
      qed
    qed
  qed
qed auto

text \<open>The body length is \<open>n\<close> exactly when no transfer coding is present and every Content-Length
  field spells the one number \<open>n\<close> in canonical decimal (no field: zero), within the limit.\<close>

lemma resolve_content_length_iff:
  "resolve_content_length hs m = Inr n \<longleftrightarrow>
     named ''Transfer-Encoding'' hs = [] \<and> n \<le> m \<and>
     (if named ''Content-Length'' hs = [] then n = 0
      else n < 2 ^ 64 \<and> (\<forall>h \<in> set (named ''Content-Length'' hs). view_text (hv_value h) = nat_to_dec n))"
proof (cases "content_length_loop hs False None")
  case (Inl e)
  then show ?thesis
    using content_length_loop_iff [of hs False None False None]
      content_length_loop_iff [of hs False None False "Some n"]
    by (auto simp: resolve_content_length_def)
next
  case (Inr r)
  obtain te d where r: "r = (te, d)" by (cases r)
  note spec = content_length_loop_iff [of hs False None te d, unfolded Inr r, simplified]
  show ?thesis
  proof (cases "named ''Content-Length'' hs = []")
    case True
    then show ?thesis using spec by (auto simp: resolve_content_length_def Inr r)
  next
    case False
    then obtain k where k: "d = Some k" "k < 2 ^ 64"
      and vals: "\<forall>h \<in> set (named ''Content-Length'' hs). view_text (hv_value h) = nat_to_dec k"
      using spec by auto
    obtain h where "h \<in> set (named ''Content-Length'' hs)" using False by (meson last_in_set)
    then have "(\<forall>h \<in> set (named ''Content-Length'' hs). view_text (hv_value h) = nat_to_dec n) \<longleftrightarrow> n = k"
      using vals by auto
    then show ?thesis using False spec k by (auto simp: resolve_content_length_def Inr r)
  qed
qed

section \<open>Ports and authorities\<close>

lemma nat_to_dec_length: "n < 10 ^ Suc k \<Longrightarrow> length (nat_to_dec n) \<le> Suc k"
proof (induction k arbitrary: n)
  case (Suc k)
  then have "n div 10 < 10 ^ Suc k" by (simp add: less_mult_imp_div_less)
  then show ?case using Suc.IH [of "n div 10"]
    by (cases "n < 10") (simp_all add: nat_to_dec_small nat_to_dec_large)
qed (simp add: nat_to_dec_small)

lemma port_length: "n \<le> kMaxPortNumber \<Longrightarrow> length (nat_to_dec n) \<le> kMaxPortDigits"
  using nat_to_dec_length [of n 4] by (simp add: kMaxPortNumber_def kMaxPortDigits_def)

lemma nat_to_dec_0: "nat_to_dec 0 = ''0''"
  by (simp add: sv_simps)

lemma port_is_well_formed_iff:
  "port_is_well_formed p \<longleftrightarrow> (\<exists>n. 1 \<le> n \<and> n \<le> kMaxPortNumber \<and> p = nat_to_dec n)"
proof
  assume ok: "port_is_well_formed p"
  then have p: "p \<noteq> []" "hd p \<noteq> CHR ''0''" "\<forall>c \<in> set p. is_decimal_digit c"
    by (auto simp: port_is_well_formed_def split: if_splits)
  then have "nat_to_dec (dec_value p) = p" by (intro nat_to_dec_dec_value) auto
  moreover have "dec_value p \<le> kMaxPortNumber"
    using ok p by (auto simp: port_is_well_formed_def from_chars_all split: if_splits)
  moreover have "dec_value p \<noteq> 0" using calculation(1) p(2) nat_to_dec_0 by (metis list.sel(1))
  ultimately show "\<exists>n. 1 \<le> n \<and> n \<le> kMaxPortNumber \<and> p = nat_to_dec n"
    by (intro exI [of _ "dec_value p"]) auto
next
  assume "\<exists>n. 1 \<le> n \<and> n \<le> kMaxPortNumber \<and> p = nat_to_dec n"
  then obtain n where n: "1 \<le> n" "n \<le> kMaxPortNumber" "p = nat_to_dec n" by blast
  then have "n < 2 ^ 32" by (simp add: kMaxPortNumber_def)
  from from_chars_nat_to_dec [OF this] show "port_is_well_formed p"
    using n nat_to_dec_digits [of n] nat_to_dec_no_leading_zero [of n] port_length [of n]
    by (simp add: port_is_well_formed_def)
qed

lemma labels_well_formed_iff:
  "labels_well_formed s \<longleftrightarrow>
     (\<forall>l \<in> set (split_on (CHR ''.'') s). l \<noteq> [] \<and> (\<forall>c \<in> set l. is_label_character c))"
proof (induction s rule: labels_well_formed.induct)
  case (1 s)
  show ?case
  proof (cases "find_char (CHR ''.'') s")
    case None
    then show ?thesis by (auto simp: labels_well_formed.simps [of s] split_on_None Let_def)
  next
    case (Some i)
    then show ?thesis using 1 [OF refl refl, unfolded Some]
      by (auto simp: labels_well_formed.simps [of s] split_on_Some Let_def)
  qed
qed

text \<open>At most one Host field; the authority that results is well formed (or absent), and it agrees
  with both the Host field and the target.\<close>

lemma host_loop_iff:
  "host_loop hs h = Inr r \<longleftrightarrow>
     (case (h, named ''Host'' hs) of (_, []) \<Rightarrow> r = h | (None, [f]) \<Rightarrow> r = Some (hv_value f) | _ \<Rightarrow> False)"
  by (induction hs h arbitrary: r rule: host_loop.induct) (auto split: option.splits list.splits)

lemma resolve_authority_iff:
  "resolve_authority pton hs ta v11 = Inr a \<longleftrightarrow>
     (let hosts = map (\<lambda>h. hv_value h) (named ''Host'' hs) in
      length hosts \<le> 1 \<and> (v11 \<longrightarrow> hosts \<noteq> []) \<and>
      (\<forall>h \<in> set hosts. authority_is_well_formed pton (view_text h)) \<and>
      (if view_text ta = [] then a = (case hosts of [] \<Rightarrow> null_view | h # _ \<Rightarrow> h)
       else a = ta \<and> authority_is_well_formed pton (view_text ta) \<and>
         (\<forall>h \<in> set hosts. equals_ignore_case (view_text h) (view_text ta))))"
proof -
  consider (none) "named ''Host'' hs = []" | (one) f where "named ''Host'' hs = [f]"
    | (many) f g fs where "named ''Host'' hs = f # g # fs"
    by (metis neq_Nil_conv)
  then show ?thesis
  proof cases
    case none
    then have "host_loop hs None = Inr None" by (simp add: host_loop_iff)
    then show ?thesis by (auto simp: resolve_authority_def none)
  next
    case one
    then have "host_loop hs None = Inr (Some (hv_value f))" by (simp add: host_loop_iff)
    then show ?thesis by (auto simp: resolve_authority_def one)
  next
    case many
    then have "host_loop hs None \<noteq> Inr r" for r by (simp add: host_loop_iff)
    then show ?thesis by (auto simp: resolve_authority_def many split: sum.splits)
  qed
qed

section \<open>Persistence and content coding\<close>

definition field_members :: "bytes \<Rightarrow> header_view list \<Rightarrow> bytes list" where
  "field_members n hs = concat (map (\<lambda>h. list_members (CHR '','') (view_text (hv_value h))) (named n hs))"

lemma fold_members:
  "fold (\<lambda>field s. if \<not> equals_ignore_case (view_text (hv_name field)) n then s
           else for_each_list_member (view_text (hv_value field)) (CHR '','') visit s) hs s =
     fold visit (field_members n hs) s"
  by (induction hs arbitrary: s) (simp_all add: field_members_def for_each_list_member_fold)

lemma fold_connection:
  "fold visit_connection_option ms (c, k) =
     (c \<or> (\<exists>m \<in> set ms. equals_ignore_case m ''close''),
      k \<or> (\<exists>m \<in> set ms. equals_ignore_case m ''keep-alive''))"
proof (induction ms arbitrary: c k)
  case (Cons m ms)
  have "\<not> (equals_ignore_case m ''close'' \<and> equals_ignore_case m ''keep-alive'')"
    by (auto simp: equals_ignore_case_iff dest: arg_cong [where f = length])
  then show ?case using Cons by (auto simp: visit_connection_option_def)
qed simp

lemma resolve_keep_alive_iff:
  "resolve_keep_alive hs v11 \<longleftrightarrow>
     \<not> (\<exists>m \<in> set (field_members ''Connection'' hs). equals_ignore_case m ''close'') \<and>
     (v11 \<or> (\<exists>m \<in> set (field_members ''Connection'' hs). equals_ignore_case m ''keep-alive''))"
  by (simp add: resolve_keep_alive_def fold_members fold_connection)

definition names_gzip :: "bytes \<Rightarrow> bool" where
  "names_gzip m \<longleftrightarrow> equals_ignore_case (member_coding m) ''gzip'' \<or>
     equals_ignore_case (member_coding m) ''x-gzip''"

definition last_option :: "'a list \<Rightarrow> 'a option" where
  "last_option xs = (if xs = [] then None else Some (last xs))"

lemma names_gzip_not_any: "names_gzip m \<Longrightarrow> member_coding m \<noteq> ''*''"
  by (auto simp: names_gzip_def equals_ignore_case_iff dest: arg_cong [where f = length])

lemma fold_coding:
  "fold visit_coding ms s =
     (case last_option (filter names_gzip ms) of None \<Rightarrow> fst s | Some m \<Rightarrow> Some (member_acceptable m),
      case last_option (filter (\<lambda>m. member_coding m = ''*'') ms) of
        None \<Rightarrow> snd s | Some m \<Rightarrow> Some (member_acceptable m))"
proof (induction ms rule: rev_induct)
  case (snoc m ms)
  then show ?case using names_gzip_not_any [of m]
    by (auto simp: visit_coding_def last_option_def names_gzip_def [symmetric])
qed (simp add: last_option_def)

lemma resolve_wants_gzip_eq:
  "resolve_wants_gzip hs =
     (let ms = field_members ''Accept-Encoding'' hs in
      case last_option (filter names_gzip ms) of
        Some m \<Rightarrow> member_acceptable m
      | None \<Rightarrow> (case last_option (filter (\<lambda>m. member_coding m = ''*'') ms) of
          Some m \<Rightarrow> member_acceptable m | None \<Rightarrow> False))"
  by (simp add: resolve_wants_gzip_def fold_members fold_coding Let_def split: option.splits)

lemma weight_is_zero_iff:
  "weight_is_zero w \<longleftrightarrow> set w \<subseteq> {CHR ''0'', CHR ''.''} \<and> CHR ''0'' \<in> set w"
proof -
  have "weight_is_zero_loop w b \<longleftrightarrow> set w \<subseteq> {CHR ''0'', CHR ''.''} \<and> (b \<or> CHR ''0'' \<in> set w)" for b
    by (induction w b rule: weight_is_zero_loop.induct) (auto simp: byte_def)
  then show ?thesis by (simp add: weight_is_zero_def)
qed

end
