(* ===== verification/Http_Request_Parser.thy ===== *)
theory Http_Request_Parser
  imports Http_Request_Fields Http_Cidr
begin

text \<open>
  \<open>request.hpp\<close>, \<open>request_parser.hpp\<close> and the second half of \<open>request.cpp\<close>: the \<open>Request\<close> class and the
  incremental \<open>RequestParser\<close>. What the parser takes from outside is in \<open>parse_env\<close>: the answer of
  \<open>inet_pton\<close>, the address of the literal \<open>"/"\<close>, the address of the decode arena's reserved allocation
  and the reading of the steady clock.
\<close>

record request_limits =
  max_request_line_bytes :: nat
  max_header_block_bytes :: nat
  max_header_count :: nat
  max_target_bytes :: nat
  max_body_bytes :: nat

definition default_limits :: request_limits where
  "default_limits = \<lparr>max_request_line_bytes = 8192, max_header_block_bytes = 16384,
     max_header_count = kMaxParsedHeaders, max_target_bytes = 2048, max_body_bytes = 1048576\<rparr>"

section \<open>Request\<close>

record request =
  req_method :: http_method
  req_raw_target :: view
  req_path :: view
  req_query :: view
  req_authority :: view
  req_body :: view
  req_headers :: "header_view list"
  req_decode_arena :: "bytes option"
  req_query_parameters :: "header_view list"
  req_path_parameters :: "header_view list"
  req_peer :: peer_address
  req_received_at :: int
  req_client_certificate_subject :: bytes
  req_keep_alive :: bool
  req_wants_gzip :: bool
  req_is_secure :: bool
  req_has_client_certificate :: bool

definition default_request :: request where
  "default_request =
     \<lparr>req_method = Method_None, req_raw_target = null_view, req_path = null_view,
      req_query = null_view, req_authority = null_view, req_body = null_view, req_headers = [],
      req_decode_arena = None, req_query_parameters = [], req_path_parameters = [],
      req_peer = default_peer, req_received_at = 0, req_client_certificate_subject = [],
      req_keep_alive = False, req_wants_gzip = False, req_is_secure = False,
      req_has_client_certificate = False\<rparr>"

definition request_reset :: "request \<Rightarrow> request" where
  "request_reset r = default_request\<lparr>req_decode_arena := map_option (\<lambda>_. []) (req_decode_arena r)\<rparr>"

text \<open>Move construction and assignment: the new value and the moved-from object, whose arena went with
  the value before it is reset.\<close>

definition request_move :: "request \<Rightarrow> request \<times> request" where
  "request_move other = (other, request_reset (other\<lparr>req_decode_arena := None\<rparr>))"

fun lookup_view :: "(bytes \<Rightarrow> bool) \<Rightarrow> header_view list \<Rightarrow> view option" where
  "lookup_view p [] = None"
| "lookup_view p (h # hs) = (if p (view_text (hv_name h)) then Some (hv_value h) else lookup_view p hs)"

definition query_param :: "request \<Rightarrow> bytes \<Rightarrow> view option" where
  "query_param r name = lookup_view (\<lambda>n. n = name) (req_query_parameters r)"

definition header :: "request \<Rightarrow> bytes \<Rightarrow> view option" where
  "header r name = lookup_view (\<lambda>n. equals_ignore_case n name) (req_headers r)"

definition param :: "request \<Rightarrow> bytes \<Rightarrow> view" where
  "param r name = (case lookup_view (\<lambda>n. n = name) (req_path_parameters r) of
                     Some v \<Rightarrow> v | None \<Rightarrow> null_view)"

definition client_certificate_subject :: "request \<Rightarrow> bytes option" where
  "client_certificate_subject r =
     (if \<not> req_has_client_certificate r then None else Some (req_client_certificate_subject r))"

definition set_peer :: "peer_address \<Rightarrow> request \<Rightarrow> request" where
  "set_peer p r = r\<lparr>req_peer := p\<rparr>"

definition set_secure :: "bool \<Rightarrow> request \<Rightarrow> request" where
  "set_secure b r = r\<lparr>req_is_secure := b\<rparr>"

definition set_client_certificate_subject :: "bytes \<Rightarrow> request \<Rightarrow> request" where
  "set_client_certificate_subject s r =
     r\<lparr>req_client_certificate_subject := s, req_has_client_certificate := True\<rparr>"

definition set_received_at :: "int \<Rightarrow> request \<Rightarrow> request" where
  "set_received_at t r = r\<lparr>req_received_at := t\<rparr>"

definition bind_path_parameter :: "view \<Rightarrow> view \<Rightarrow> request \<Rightarrow> request" where
  "bind_path_parameter name val r =
     (if length (req_path_parameters r) = kMaxPathParameters then r
      else r\<lparr>req_path_parameters := req_path_parameters r @ [\<lparr>hv_name = name, hv_value = val\<rparr>]\<rparr>)"

definition clear_path_parameters :: "request \<Rightarrow> request" where
  "clear_path_parameters r = r\<lparr>req_path_parameters := []\<rparr>"

section \<open>RequestParser\<close>

record view_offset =
  vo_value :: nat
  vo_borrowed :: bool

definition default_offset :: view_offset where
  "default_offset = \<lparr>vo_value = 0, vo_borrowed = False\<rparr>"

record request_parser =
  rp_request :: request
  rp_buffer_base :: nat
  rp_raw_target_offset :: view_offset
  rp_path_offset :: view_offset
  rp_query_offset :: view_offset
  rp_authority_offset :: view_offset
  rp_header_offsets :: "(view_offset \<times> view_offset) list"
  rp_body_offset :: nat
  rp_body_bytes :: nat
  rp_head_complete :: bool

definition new_parser :: request_parser where
  "new_parser = \<lparr>rp_request = default_request, rp_buffer_base = 0,
     rp_raw_target_offset = default_offset, rp_path_offset = default_offset,
     rp_query_offset = default_offset, rp_authority_offset = default_offset,
     rp_header_offsets = [], rp_body_offset = 0, rp_body_bytes = 0, rp_head_complete = False\<rparr>"

definition parser_reset :: "request_parser \<Rightarrow> request_parser" where
  "parser_reset p = new_parser\<lparr>rp_request := request_reset (rp_request p)\<rparr>"

definition waiting_for_body :: "request_parser \<Rightarrow> bool" where
  "waiting_for_body p = rp_head_complete p"

definition offset_of :: "nat \<Rightarrow> nat \<Rightarrow> view \<Rightarrow> view_offset" where
  "offset_of base limit v =
     (if view_text v = [] then default_offset
      else if view_data v \<ge> base \<and> view_data v < limit
      then \<lparr>vo_value = view_data v - base, vo_borrowed = True\<rparr>
      else default_offset)"

definition remember_buffer_offsets :: "request_parser \<Rightarrow> request_parser" where
  "remember_buffer_offsets p =
     (let off = offset_of (rp_buffer_base p) (rp_buffer_base p + rp_body_offset p);
          r = rp_request p
      in p\<lparr>rp_raw_target_offset := off (req_raw_target r), rp_path_offset := off (req_path r),
           rp_query_offset := off (req_query r), rp_authority_offset := off (req_authority r),
           rp_header_offsets := map (\<lambda>h. (off (hv_name h), off (hv_value h))) (req_headers r)\<rparr>)"

text \<open>The lambda of \<open>rebase_borrowed_views\<close>: a borrowed view keeps its length and shows what the new
  buffer holds at its offset.\<close>

definition rebase :: "view \<Rightarrow> view \<Rightarrow> view_offset \<Rightarrow> view" where
  "rebase buf v off =
     (if vo_borrowed off
      then \<lparr>view_data = view_data buf + vo_value off,
            view_text = take (length (view_text v)) (drop (vo_value off) (view_text buf))\<rparr>
      else v)"

definition rebase_borrowed_views :: "view \<Rightarrow> request_parser \<Rightarrow> request_parser" where
  "rebase_borrowed_views buf p =
     (let r = rp_request p
      in p\<lparr>rp_request := r\<lparr>
             req_raw_target := rebase buf (req_raw_target r) (rp_raw_target_offset p),
             req_path := rebase buf (req_path r) (rp_path_offset p),
             req_query := rebase buf (req_query r) (rp_query_offset p),
             req_authority := rebase buf (req_authority r) (rp_authority_offset p),
             req_headers := map2 (\<lambda>h off. h\<lparr>hv_name := rebase buf (hv_name h) (fst off),
                                            hv_value := rebase buf (hv_value h) (snd off)\<rparr>)
                              (req_headers r) (rp_header_offsets p)\<rparr>,
           rp_buffer_base := view_data buf\<rparr>)"

record parse_env =
  env_inet_pton6 :: "bytes \<Rightarrow> bool"
  env_root_path_data :: nat
  env_arena_data :: nat
  env_now :: int

text \<open>The part of \<open>parse_head\<close> that decides where the head ends: the prologue, the end of the request
  line and the position of the terminator.\<close>

definition head_extent :: "view \<Rightarrow> request_limits \<Rightarrow> (parse_error, nat \<times> nat \<times> nat) expected" where
  "head_extent buf limits =
     (let prologue_bytes = (if starts_with (view_text buf) kCrlf then length kCrlf else 0);
          request_bytes = drop prologue_bytes (view_text buf);
          request_line_end = find_str kCrlf request_bytes;
          request_line_bytes = (case request_line_end of None \<Rightarrow> length request_bytes | Some e \<Rightarrow> e)
      in if request_line_bytes > max_request_line_bytes limits then Inl TargetTooLong
         else case find_str kHeaderTerminator request_bytes of
           None \<Rightarrow>
             if length request_bytes > max_header_block_bytes limits then Inl TooManyHeaders
             else Inl NeedsMoreData
         | Some terminator \<Rightarrow>
             if terminator + length kHeaderTerminator > max_header_block_bytes limits
             then Inl TooManyHeaders
             else Inr (prologue_bytes, request_line_bytes, terminator))"

text \<open>The rest of \<open>parse_head\<close> up to the completed request: the request and its content length.\<close>

definition build_request ::
  "parse_env \<Rightarrow> view \<Rightarrow> request_limits \<Rightarrow> nat \<Rightarrow> nat \<Rightarrow> (parse_error, request \<times> nat) expected" where
  "build_request env request_bytes limits request_line_end terminator =
     (case parse_request_line (slice request_bytes 0 request_line_end) of
        Inl e \<Rightarrow> Inl e
      | Inr line \<Rightarrow>
     if length (view_text (rl_target line)) > max_target_bytes limits then Inl TargetTooLong
     else let fields_begin = request_line_end + length kCrlf;
              fields_end = terminator + length kCrlf in
     case parse_header_fields (slice request_bytes fields_begin (fields_end - fields_begin))
            (max_header_count limits) [] of
       Inl e \<Rightarrow> Inl e
     | Inr headers \<Rightarrow>
     case resolve_content_length headers (max_body_bytes limits) of
       Inl e \<Rightarrow> Inl e
     | Inr content_length \<Rightarrow>
     case split_target (env_root_path_data env) (rl_target line) of
       Inl e \<Rightarrow> Inl e
     | Inr target \<Rightarrow>
     case resolve_authority (env_inet_pton6 env) headers (tp_authority target)
            (rl_is_version_11 line) of
       Inl e \<Rightarrow> Inl e
     | Inr authority \<Rightarrow>
     if \<not> path_is_canonical (view_text (tp_path target)) then Inl MalformedRequestLine
     else case (if view_text (tp_query target) \<noteq> []
                then map_sum id (map_prod Some id)
                       (decode_query_into (env_arena_data env) [] (view_text (tp_query target)) [])
                else Inr (None, [])) of
       Inl e \<Rightarrow> Inl e
     | Inr (arena, parameters) \<Rightarrow>
         Inr (default_request\<lparr>
                req_method := rl_method line, req_raw_target := rl_target line,
                req_path := tp_path target, req_query := tp_query target,
                req_authority := authority, req_headers := headers,
                req_decode_arena := arena, req_query_parameters := parameters,
                req_keep_alive := resolve_keep_alive headers (rl_is_version_11 line),
                req_wants_gzip := resolve_wants_gzip headers,
                req_received_at := env_now env\<rparr>, content_length))"

definition parse_head ::
  "parse_env \<Rightarrow> view \<Rightarrow> request_limits \<Rightarrow> request_parser \<Rightarrow> (parse_error, request_parser) expected" where
  "parse_head env buf limits p =
     (case head_extent buf limits of
        Inl e \<Rightarrow> Inl e
      | Inr (prologue_bytes, request_line_end, terminator) \<Rightarrow>
          (case build_request env (view_from buf prologue_bytes) limits request_line_end terminator of
             Inl e \<Rightarrow> Inl e
           | Inr (r, content_length) \<Rightarrow>
               Inr ((remember_buffer_offsets
                 (p\<lparr>rp_request := r,
                    rp_body_offset := prologue_bytes + (terminator + length kHeaderTerminator),
                    rp_body_bytes := content_length,
                    rp_buffer_base := view_data buf\<rparr>))\<lparr>rp_head_complete := True\<rparr>)))"

record parsed_request =
  pr_request :: request
  pr_consumed_bytes :: nat
  pr_body_offset :: nat

text \<open>\<open>RequestParser::parse\<close>: what it returns and the parser it leaves. The second part runs once the
  head is complete.\<close>

definition parse_body ::
  "view \<Rightarrow> request_parser \<Rightarrow> (parse_error, parsed_request) expected \<times> request_parser" where
  "parse_body buf p =
     (if length (view_text buf) < rp_body_offset p then (Inl NeedsMoreData, p)
      else let p = (if view_data buf \<noteq> rp_buffer_base p then rebase_borrowed_views buf p else p) in
        if length (view_text buf) - rp_body_offset p < rp_body_bytes p then (Inl NeedsMoreData, p)
        else let request = (rp_request p)\<lparr>
                   req_body := slice buf (rp_body_offset p) (rp_body_bytes p)\<rparr>;
                 moved = request_move request
             in (Inr \<lparr>pr_request = fst moved,
                      pr_consumed_bytes = rp_body_offset p + rp_body_bytes p,
                      pr_body_offset = rp_body_offset p\<rparr>,
                 parser_reset (p\<lparr>rp_request := snd moved\<rparr>)))"

definition parse ::
  "parse_env \<Rightarrow> view \<Rightarrow> request_limits \<Rightarrow> request_parser \<Rightarrow>
     (parse_error, parsed_request) expected \<times> request_parser" where
  "parse env buf limits p =
     (if \<not> rp_head_complete p
      then (case parse_head env buf limits p of
          Inl e \<Rightarrow> (Inl e, p)
        | Inr p' \<Rightarrow> parse_body buf p')
      else parse_body buf p)"

definition parse_request ::
  "parse_env \<Rightarrow> view \<Rightarrow> request_limits \<Rightarrow> (parse_error, parsed_request) expected" where
  "parse_request env buf limits = fst (parse env buf limits new_parser)"

section \<open>What a parsed request consists of\<close>

lemma parse_head_Inr:
  "parse_head env buf limits p = Inr q \<longleftrightarrow>
     (\<exists>pro rle tm r n. head_extent buf limits = Inr (pro, rle, tm) \<and>
        build_request env (view_from buf pro) limits rle tm = Inr (r, n) \<and>
        q = (remember_buffer_offsets (p\<lparr>rp_request := r,
               rp_body_offset := pro + (tm + length kHeaderTerminator), rp_body_bytes := n,
               rp_buffer_base := view_data buf\<rparr>))\<lparr>rp_head_complete := True\<rparr>)"
  by (auto simp: parse_head_def split: sum.splits prod.splits)

lemma remember_fields [simp]:
  "rp_request (remember_buffer_offsets p) = rp_request p"
  "rp_buffer_base (remember_buffer_offsets p) = rp_buffer_base p"
  "rp_body_offset (remember_buffer_offsets p) = rp_body_offset p"
  "rp_body_bytes (remember_buffer_offsets p) = rp_body_bytes p"
  "rp_head_complete (remember_buffer_offsets p) = rp_head_complete p"
  by (simp_all add: remember_buffer_offsets_def Let_def)

lemma rebase_fields [simp]:
  "rp_buffer_base (rebase_borrowed_views b p) = view_data b"
  "rp_body_offset (rebase_borrowed_views b p) = rp_body_offset p"
  "rp_body_bytes (rebase_borrowed_views b p) = rp_body_bytes p"
  "rp_head_complete (rebase_borrowed_views b p) = rp_head_complete p"
  by (simp_all add: rebase_borrowed_views_def Let_def)

lemma parse_requestD:
  assumes "parse_request env buf limits = Inr pr"
  obtains pro rle tm r n where "head_extent buf limits = Inr (pro, rle, tm)"
    and "build_request env (view_from buf pro) limits rle tm = Inr (r, n)"
    and "pr_body_offset pr = pro + (tm + 4)"
    and "pr_consumed_bytes pr = pro + (tm + 4) + n"
    and "pro + (tm + 4) + n \<le> length (view_text buf)"
    and "pr_request pr = r\<lparr>req_body := slice buf (pro + (tm + 4)) n\<rparr>"
proof -
  obtain q where q: "parse_head env buf limits new_parser = Inr q" "fst (parse_body buf q) = Inr pr"
    using assms by (auto simp: parse_request_def parse_def new_parser_def split: sum.splits)
  from q(1) obtain pro rle tm r n where h: "head_extent buf limits = Inr (pro, rle, tm)"
    "build_request env (view_from buf pro) limits rle tm = Inr (r, n)"
    and qs: "q = (remember_buffer_offsets (new_parser\<lparr>rp_request := r,
               rp_body_offset := pro + (tm + length kHeaderTerminator), rp_body_bytes := n,
               rp_buffer_base := view_data buf\<rparr>))\<lparr>rp_head_complete := True\<rparr>"
    by (auto simp: parse_head_Inr)
  have "pro + (tm + 4) + n \<le> length (view_text buf)"
    and "pr = \<lparr>pr_request = r\<lparr>req_body := slice buf (pro + (tm + 4)) n\<rparr>,
           pr_consumed_bytes = pro + (tm + 4) + n, pr_body_offset = pro + (tm + 4)\<rparr>"
    using q(2) by (auto simp: parse_body_def qs request_move_def Let_def split: if_splits)
  with h show ?thesis by (intro that [of pro rle tm r n]) simp_all
qed

lemma build_requestD:
  assumes "build_request env rb limits rle tm = Inr (r, n)"
  obtains line target where "parse_request_line (slice rb 0 rle) = Inr line"
    and "length (view_text (rl_target line)) \<le> max_target_bytes limits"
    and "parse_header_fields (slice rb (rle + 2) (tm - rle)) (max_header_count limits) [] = Inr (req_headers r)"
    and "resolve_content_length (req_headers r) (max_body_bytes limits) = Inr n"
    and "split_target (env_root_path_data env) (rl_target line) = Inr target"
    and "resolve_authority (env_inet_pton6 env) (req_headers r) (tp_authority target)
           (rl_is_version_11 line) = Inr (req_authority r)"
    and "path_is_canonical (view_text (tp_path target))"
    and "if view_text (req_query r) = [] then req_decode_arena r = None \<and> req_query_parameters r = []
         else \<exists>arena. req_decode_arena r = Some arena \<and>
           decode_query_into (env_arena_data env) [] (view_text (req_query r)) [] =
             Inr (arena, req_query_parameters r)"
    and "req_method r = rl_method line" and "req_raw_target r = rl_target line"
    and "req_path r = tp_path target" and "req_query r = tp_query target"
    and "req_keep_alive r = resolve_keep_alive (req_headers r) (rl_is_version_11 line)"
    and "req_wants_gzip r = resolve_wants_gzip (req_headers r)"
    and "req_path_parameters r = []" and "req_received_at r = env_now env"
  using assms
  by (auto simp: build_request_def Let_def default_request_def map_sum_def
      split: sum.splits if_splits prod.splits elim!: that)

lemma valid_target_byte_iff:
  "is_valid_target_byte c \<longleftrightarrow> byte c > 0x20 \<and> byte c \<noteq> 0x7F \<and> c \<noteq> CHR ''#''"
  by (auto simp: is_valid_target_byte_def kSpaceByte_def kDeleteByte_def)

text \<open>C1: the path of every request the parser accepts is a slash followed by slash-separated segments;
  no segment is \<open>.\<close> or \<open>..\<close>, holds a percent escape, a slash or a backslash, only the last may be
  empty, and no byte of the path is a control byte, a space, \<open>#\<close> or \<open>?\<close>. It cannot climb out of a root.\<close>

theorem parsed_path_canonical:
  assumes "parse_request env buf limits = Inr pr"
  shows "(\<exists>segs. view_text (req_path (pr_request pr)) = CHR ''/'' # join_with ''/'' segs \<and> segs \<noteq> [] \<and>
            (\<forall>s \<in> set segs. s \<noteq> ''.'' \<and> s \<noteq> ''..'' \<and> CHR ''%'' \<notin> set s \<and> CHR ''/'' \<notin> set s \<and>
               CHR 0x5C \<notin> set s) \<and>
            (\<forall>s \<in> set (butlast segs). s \<noteq> [])) \<and>
         (\<forall>c \<in> set (view_text (req_path (pr_request pr))).
            byte c > 0x20 \<and> byte c \<noteq> 0x7F \<and> c \<noteq> CHR ''#'' \<and> c \<noteq> CHR ''?'')"
proof -
  obtain pro rle tm r n where b: "build_request env (view_from buf pro) limits rle tm = Inr (r, n)"
    and pr: "pr_request pr = r\<lparr>req_body := slice buf (pro + (tm + 4)) n\<rparr>"
    by (rule parse_requestD [OF assms], rule that, assumption+)
  obtain line :: request_line and target :: target_parts where t: "split_target (env_root_path_data env) (rl_target line) = Inr target"
    "path_is_canonical (view_text (tp_path target))" "req_path r = tp_path target"
    by (rule build_requestD [OF b], rule that, assumption+)
  obtain segs where segs: "view_text (tp_path target) = CHR ''/'' # join_with ''/'' segs" "segs \<noteq> []"
    "\<forall>s \<in> set segs. CHR ''/'' \<notin> set s \<and> CHR 0x5C \<notin> set s"
    "\<forall>s \<in> set (butlast segs). segment_ok s" "last segs = [] \<or> segment_ok (last segs)"
    using t(2) unfolding path_is_canonical_iff by blast
  have "set segs = insert (last segs) (set (butlast segs))"
    using segs(2) by (metis append_butlast_last_id insert_is_Un list.simps(15) set_append sup_commute
        empty_set)
  then have "\<forall>s \<in> set segs. s \<noteq> ''.'' \<and> s \<noteq> ''..'' \<and> CHR ''%'' \<notin> set s"
    "\<forall>s \<in> set (butlast segs). s \<noteq> []"
    using segs(4,5) by (auto simp: segment_ok_def)
  moreover have "\<forall>c \<in> set (view_text (tp_path target)).
      byte c > 0x20 \<and> byte c \<noteq> 0x7F \<and> c \<noteq> CHR ''#'' \<and> c \<noteq> CHR ''?''"
    using split_target_bytes(2,7) [OF t(1)] by (auto simp: valid_target_byte_iff)
  ultimately show ?thesis using segs(1,2,3) t(3) by (auto simp: pr)
qed

text \<open>No header of an accepted request can split a response or a line: names are non-empty tokens,
  values hold no CR, LF or NUL and no whitespace at the ends, and there are at most as many as the
  limit and the fixed capacity allow.\<close>

theorem parsed_headers_safe:
  assumes "parse_request env buf limits = Inr pr"
  shows "length (req_headers (pr_request pr)) \<le> max_header_count limits \<and>
    length (req_headers (pr_request pr)) \<le> kMaxParsedHeaders \<and>
    (\<forall>h \<in> set (req_headers (pr_request pr)).
       view_text (hv_name h) \<noteq> [] \<and> (\<forall>c \<in> set (view_text (hv_name h)). is_token_character c) \<and>
       (\<forall>c \<in> set (view_text (hv_value h)). c \<noteq> CHR 0x0D \<and> c \<noteq> CHR 0x0A \<and> c \<noteq> CHR 0x00) \<and>
       trim_optional_whitespace (view_text (hv_value h)) = view_text (hv_value h))"
proof -
  obtain pro rle tm r n where b: "build_request env (view_from buf pro) limits rle tm = Inr (r, n)"
    and pr: "pr_request pr = r\<lparr>req_body := slice buf (pro + (tm + 4)) n\<rparr>"
    by (rule parse_requestD [OF assms], rule that, assumption+)
  obtain fl where "parse_header_fields fl (max_header_count limits) [] = Inr (req_headers r)"
    by (rule build_requestD [OF b], rule that, assumption+)
  from parse_header_fields_ok [OF this] show ?thesis
    by (auto simp: pr field_ok_def dest: value_byte_not_cr)
qed

text \<open>C2: the framing of an accepted request is unambiguous: it has no Transfer-Encoding field, every
  Content-Length field spells the length of the body in canonical decimal (without one there is no
  body), the body is the bytes that follow the head, and the parser consumes exactly head and body.\<close>

theorem parsed_framing:
  assumes "parse_request env buf limits = Inr pr"
  defines "r \<equiv> pr_request pr"
  shows "named ''Transfer-Encoding'' (req_headers r) = [] \<and>
    (\<forall>h \<in> set (named ''Content-Length'' (req_headers r)).
       view_text (hv_value h) = nat_to_dec (length (view_text (req_body r)))) \<and>
    (named ''Content-Length'' (req_headers r) = [] \<longrightarrow> view_text (req_body r) = []) \<and>
    view_text (req_body r) = take (length (view_text (req_body r))) (drop (pr_body_offset pr) (view_text buf)) \<and>
    pr_consumed_bytes pr = pr_body_offset pr + length (view_text (req_body r)) \<and>
    pr_consumed_bytes pr \<le> length (view_text buf) \<and>
    length (view_text (req_body r)) \<le> max_body_bytes limits"
proof -
  obtain pro rle tm r' n where b: "build_request env (view_from buf pro) limits rle tm = Inr (r', n)"
    and off: "pr_body_offset pr = pro + (tm + 4)" "pr_consumed_bytes pr = pro + (tm + 4) + n"
      "pro + (tm + 4) + n \<le> length (view_text buf)"
    and pr: "r = r'\<lparr>req_body := slice buf (pro + (tm + 4)) n\<rparr>"
    by (rule parse_requestD [OF assms(1)], rule that, assumption+, simp only: r_def)
  have cl: "resolve_content_length (req_headers r') (max_body_bytes limits) = Inr n"
    by (rule build_requestD [OF b])
  have "length (view_text (req_body r)) = n" using off(3) by (simp add: pr)
  with cl off show ?thesis
    by (auto simp: pr resolve_content_length_iff split: if_splits)
qed

lemma head_extent_Inr:
  "head_extent buf limits = Inr (pro, rle, tm) \<longleftrightarrow>
     pro = (if starts_with (view_text buf) kCrlf then 2 else 0) \<and>
     find_str kHeaderTerminator (drop pro (view_text buf)) = Some tm \<and>
     rle = (case find_str kCrlf (drop pro (view_text buf)) of
              None \<Rightarrow> length (drop pro (view_text buf)) | Some e \<Rightarrow> e) \<and>
     rle \<le> max_request_line_bytes limits \<and> tm + 4 \<le> max_header_block_bytes limits"
  by (auto simp: head_extent_def Let_def split: option.splits if_splits)

text \<open>Every size limit is enforced on an accepted request: the head, the request target and the
  body stay within the configured bounds.\<close>

theorem parsed_limits:
  assumes "parse_request env buf limits = Inr pr"
  shows "pr_body_offset pr \<le> 2 + max_header_block_bytes limits \<and>
    pr_consumed_bytes pr \<le> 2 + max_header_block_bytes limits + max_body_bytes limits \<and>
    length (view_text (req_raw_target (pr_request pr))) \<le> max_target_bytes limits"
proof -
  obtain pro rle tm r n where h: "head_extent buf limits = Inr (pro, rle, tm)"
    and b: "build_request env (view_from buf pro) limits rle tm = Inr (r, n)"
    and off: "pr_body_offset pr = pro + (tm + 4)" "pr_consumed_bytes pr = pro + (tm + 4) + n"
    and pr: "pr_request pr = r\<lparr>req_body := slice buf (pro + (tm + 4)) n\<rparr>"
    by (rule parse_requestD [OF assms], rule that, assumption+)
  obtain line :: request_line where "length (view_text (rl_target line)) \<le> max_target_bytes limits"
    "resolve_content_length (req_headers r) (max_body_bytes limits) = Inr n"
    "req_raw_target r = rl_target line"
    by (rule build_requestD [OF b], rule that, assumption+)
  with h off show ?thesis
    by (auto simp: pr head_extent_Inr resolve_content_length_iff split: if_splits)
qed

text \<open>An accepted request names one server: at most one Host field, exactly one in HTTP/1.1 (a
  version other than 1.0); the authority is the target's when the target has one, else the Host
  field's, it is well formed unless neither is given, and the two agree up to case.\<close>

theorem parsed_authority:
  assumes "parse_request env buf limits = Inr pr"
  defines "r \<equiv> pr_request pr"
  defines "hosts \<equiv> map (\<lambda>h. view_text (hv_value h)) (named ''Host'' (req_headers r))"
  shows "length hosts \<le> 1 \<and>
    (view_text (req_authority r) = [] \<longleftrightarrow> hosts = [] \<and> starts_with_char (view_text (req_raw_target r)) (CHR ''/'')) \<and>
    (view_text (req_authority r) \<noteq> [] \<longrightarrow> authority_is_well_formed (env_inet_pton6 env) (view_text (req_authority r))) \<and>
    (\<forall>h \<in> set hosts. authority_is_well_formed (env_inet_pton6 env) h \<and>
       equals_ignore_case h (view_text (req_authority r)))"
proof -
  obtain pro rle tm r' n where b: "build_request env (view_from buf pro) limits rle tm = Inr (r', n)"
    and pr: "r = r'\<lparr>req_body := slice buf (pro + (tm + 4)) n\<rparr>"
    by (rule parse_requestD [OF assms(1)], rule that, assumption+, simp only: r_def)
  obtain line :: request_line and target :: target_parts where
    t: "split_target (env_root_path_data env) (rl_target line) = Inr target" "req_raw_target r' = rl_target line"
    and a: "resolve_authority (env_inet_pton6 env) (req_headers r') (tp_authority target)
           (rl_is_version_11 line) = Inr (req_authority r')"
    by (rule build_requestD [OF b], rule that, assumption+)
  have ta: "view_text (tp_authority target) = [] \<longleftrightarrow> starts_with_char (view_text (rl_target line)) (CHR ''/'')"
    using t(1) by (auto simp: split_target_def split_authority_def Let_def
        split: if_splits sum.splits option.splits)
  have ne: "\<not> authority_is_well_formed (env_inet_pton6 env) []" by (simp add: authority_is_well_formed_def)
  show ?thesis
    using a ta t(2) ne unfolding hosts_def resolve_authority_iff
    by (cases "named ''Host'' (req_headers r')")
      (auto simp: pr Let_def equals_ignore_case_iff split: if_splits)
qed

end
