(* ===== verification/Http_Request_Incremental.thy ===== *)
theory Http_Request_Incremental
  imports Http_Request_Parser
begin

text \<open>
  The incremental parser against the one-shot parser: a request that arrives in pieces, in a read
  buffer that may move between the pieces, is parsed to the same contents as one that arrives at
  once, and the views of the result lie in the last buffer.
\<close>

section \<open>Views inside a buffer\<close>

definition within :: "view \<Rightarrow> view \<Rightarrow> bool" where
  "within b v \<longleftrightarrow> view_text v = [] \<or>
     (\<exists>off. view_data v = view_data b + off \<and> off + length (view_text v) \<le> length (view_text b) \<and>
        view_text v = take (length (view_text v)) (drop off (view_text b)))"

lemma within_self [intro]: "within b b"
  by (auto simp: within_def)

lemma within_null [intro, simp]: "within b null_view"
  by (simp add: within_def)

lemma within_substr [intro]:
  assumes "within b v"
  shows "within b (view_substr v off len)"
proof (cases "view_text v = []")
  case False
  then obtain o1 where o1: "view_data v = view_data b + o1"
    "o1 + length (view_text v) \<le> length (view_text b)"
    "view_text v = take (length (view_text v)) (drop o1 (view_text b))"
    using assms by (auto simp: within_def)
  show ?thesis
  proof (cases "off \<le> length (view_text v)")
    case True
    let ?n = "length (view_text v)"
    have "drop off (view_text v) = take (?n - off) (drop (o1 + off) (view_text b))"
      by (subst o1(3)) (simp add: drop_take add.commute)
    then have "view_text (view_substr v off len) =
        take (min len (?n - off)) (drop (o1 + off) (view_text b))" by simp
    then show ?thesis using o1(1,2) True
      by (auto simp: within_def view_substr_def intro!: exI [of _ "o1 + off"])
  next
    case False
    then show ?thesis by (simp add: within_def)
  qed
qed (simp add: within_def)

lemma view_from_substr: "view_from v off = view_substr v off (length (view_text v))"
  by (simp add: view_from_def view_substr_def)

lemma within_from [intro]: "within b v \<Longrightarrow> within b (view_from v off)"
  by (simp add: view_from_substr within_substr)

lemma within_slice [intro]: "within b v \<Longrightarrow> within b (slice v off len)"
  by (simp add: slice_def within_substr)

lemma within_trim [intro]:
  assumes "within b v"
  shows "within b (trim_view v)"
proof -
  have front: "within b v \<Longrightarrow> within b (trim_front v)" for v
  proof (induction v rule: trim_front.induct)
    case (1 v)
    then show ?case by (simp add: trim_front.simps [of v] within_from)
  qed
  have rear: "within b v \<Longrightarrow> within b (trim_back v)" for v
  proof (induction v rule: trim_back.induct)
    case (1 v)
    then show ?case by (simp add: trim_back.simps [of v] within_substr)
  qed
  show ?thesis unfolding trim_view_def using assms front rear by blast
qed

lemma parse_request_line_within:
  "parse_request_line l = Inr rl \<Longrightarrow> within b l \<Longrightarrow> within b (rl_target rl)"
  by (auto simp: parse_request_line_def Let_def split: option.splits if_splits)

lemma parse_field_line_within:
  "parse_field_line l = Inr h \<Longrightarrow> within b l \<Longrightarrow> within b (hv_name h) \<and> within b (hv_value h)"
  by (auto simp: parse_field_line_def Let_def within_substr within_trim [OF within_from]
      split: option.splits if_splits)

lemma parse_header_fields_within:
  assumes "parse_header_fields fl n out = Inr hs" and "within b fl"
    and "\<forall>h \<in> set out. within b (hv_name h) \<and> within b (hv_value h)"
  shows "\<forall>h \<in> set hs. within b (hv_name h) \<and> within b (hv_value h)"
  using assms
proof (induction fl n out rule: parse_header_fields.induct)
  case (1 fl n out)
  show ?case
  proof (cases "view_text fl = []")
    case True
    then show ?thesis using 1 by (simp add: parse_header_fields.simps [of fl])
  next
    case False
    then obtain e h where e: "find_str kCrlf (view_text fl) = Some e"
      and h: "parse_field_line (view_substr fl 0 e) = Inr h"
      and room: "\<not> length out \<ge> min n kMaxParsedHeaders"
      and rec: "parse_header_fields (view_from fl (e + length kCrlf)) n (out @ [h]) = Inr hs"
      using 1(2) by (auto simp: parse_header_fields.simps [of fl] split: option.splits sum.splits if_splits)
    have "within b (hv_name h) \<and> within b (hv_value h)"
      using parse_field_line_within [OF h] 1(3) by blast
    then show ?thesis using 1(1) [OF False e h room rec] 1(3,4) by auto
  qed
qed

lemma split_target_within:
  assumes "split_target rp t = Inr tp" and "within b t"
  shows "within b (tp_path tp) \<or> tp_path tp = kRootPath rp"
    and "within b (tp_query tp)" and "within b (tp_authority tp)"
proof -
  obtain a r where ar: "split_authority t = Inr (a, r)"
    using assms by (auto simp: split_target_def split: if_splits sum.splits)
  have "within b a \<and> within b r"
    using ar assms(2) by (auto simp: split_authority_def Let_def split: if_splits option.splits)
  then show "within b (tp_path tp) \<or> tp_path tp = kRootPath rp"
    "within b (tp_query tp)" "within b (tp_authority tp)"
    using assms(1) ar by (auto simp: split_target_def Let_def split: if_splits option.splits)
qed

lemma resolve_authority_within:
  assumes "resolve_authority pton hs ta v = Inr a" and "within b ta"
    and "\<forall>h \<in> set hs. within b (hv_value h)"
  shows "within b a"
proof -
  have "\<forall>h \<in> set (named ''Host'' hs). within b (hv_value h)" using assms(3) by (auto simp: named_def)
  then show ?thesis
    using assms(1,2) unfolding resolve_authority_iff
    by (cases "named ''Host'' hs") (auto simp: Let_def split: if_splits)
qed

section \<open>Only the text matters\<close>

text \<open>Erasing the addresses of the buffer views and the arrival time.\<close>

definition erase :: "view \<Rightarrow> view" where "erase v = v\<lparr>view_data := 0\<rparr>"

lemma erase_eq [simp]: "erase v = erase w \<longleftrightarrow> view_text v = view_text w"
  by (cases v, cases w) (auto simp: erase_def)

definition erase_field :: "header_view \<Rightarrow> header_view" where
  "erase_field h = \<lparr>hv_name = erase (hv_name h), hv_value = erase (hv_value h)\<rparr>"

definition erase_request :: "request \<Rightarrow> request" where
  "erase_request r = r\<lparr>req_raw_target := erase (req_raw_target r), req_path := erase (req_path r),
     req_query := erase (req_query r), req_authority := erase (req_authority r),
     req_body := erase (req_body r), req_headers := map erase_field (req_headers r),
     req_received_at := 0\<rparr>"

lemma erase_field_eq [simp]: "erase_field h = erase_field k \<longleftrightarrow> field_texts h = field_texts k"
  by (auto simp: erase_field_def field_texts_def)

lemma map_erase_field_eq:
  "map erase_field hs = map erase_field ks \<longleftrightarrow> map field_texts hs = map field_texts ks"
  by (induction hs arbitrary: ks; case_tac ks) auto

lemma parse_request_line_text:
  assumes "view_text l = view_text l'" and "parse_request_line l = Inr rl"
  shows "\<exists>rl'. parse_request_line l' = Inr rl' \<and> rl_method rl' = rl_method rl \<and>
    view_text (rl_target rl') = view_text (rl_target rl) \<and> rl_is_version_11 rl' = rl_is_version_11 rl"
  using assms by (auto simp: parse_request_line_def Let_def split: option.splits if_splits)

lemma parse_field_line_text:
  assumes "view_text l = view_text l'" and "parse_field_line l = Inr h"
  shows "\<exists>h'. parse_field_line l' = Inr h' \<and> field_texts h' = field_texts h"
  using assms by (auto simp: parse_field_line_def Let_def field_texts_def split: option.splits if_splits)

lemma parse_header_fields_text:
  assumes "view_text fl = view_text fl'" and "parse_header_fields fl n out = Inr hs"
    and "map field_texts out = map field_texts out'"
  shows "\<exists>hs'. parse_header_fields fl' n out' = Inr hs' \<and> map field_texts hs' = map field_texts hs"
  using assms
proof (induction fl n out arbitrary: fl' out' rule: parse_header_fields.induct)
  case (1 fl n out)
  have len: "length out' = length out" using 1(4) map_eq_imp_length_eq by metis
  show ?case
  proof (cases "view_text fl = []")
    case True
    then show ?thesis using 1
      by (simp add: parse_header_fields.simps [of fl] parse_header_fields.simps [of fl'])
  next
    case False
    then obtain e h where e: "find_str kCrlf (view_text fl) = Some e"
      and h: "parse_field_line (view_substr fl 0 e) = Inr h"
      and room: "\<not> length out \<ge> min n kMaxParsedHeaders"
      and rec: "parse_header_fields (view_from fl (e + length kCrlf)) n (out @ [h]) = Inr hs"
      using 1(3) by (auto simp: parse_header_fields.simps [of fl] split: option.splits sum.splits if_splits)
    obtain h' where h': "parse_field_line (view_substr fl' 0 e) = Inr h'" "field_texts h' = field_texts h"
      using parse_field_line_text [OF _ h, of "view_substr fl' 0 e"] 1(2) by auto
    have "\<exists>hs'. parse_header_fields (view_from fl' (e + length kCrlf)) n (out' @ [h']) = Inr hs' \<and>
        map field_texts hs' = map field_texts hs"
      using 1(1) [OF False e h room _ rec] 1(2,4) h'(2) by simp
    then show ?thesis using False e h'(1) room 1(2) len
      by (simp add: parse_header_fields.simps [of fl'])
  qed
qed

lemma split_authority_text:
  assumes "view_text t = view_text t'" and "split_authority t = Inr (a, r)"
  shows "\<exists>a' r'. split_authority t' = Inr (a', r') \<and> view_text a' = view_text a \<and> view_text r' = view_text r"
  using assms by (auto simp: split_authority_def Let_def split: option.splits if_splits)

lemma split_target_text:
  assumes "view_text t = view_text t'" and "split_target rp t = Inr tp"
  shows "\<exists>tp'. split_target rp t' = Inr tp' \<and> view_text (tp_path tp') = view_text (tp_path tp) \<and>
    view_text (tp_query tp') = view_text (tp_query tp) \<and>
    view_text (tp_authority tp') = view_text (tp_authority tp)"
proof -
  obtain a r where ar: "split_authority t = Inr (a, r)"
    using assms by (auto simp: split_target_def split: if_splits sum.splits)
  then obtain a' r' where ar': "split_authority t' = Inr (a', r')" "view_text a' = view_text a"
    "view_text r' = view_text r" using split_authority_text [OF assms(1)] by blast
  show ?thesis using assms ar ar'
    by (auto simp: split_target_def Let_def split: option.splits if_splits)
qed

text \<open>The field resolvers see the headers through their texts.\<close>

lemma named_texts:
  "map field_texts hs = map field_texts ks \<Longrightarrow>
     map field_texts (named n hs) = map field_texts (named n ks)"
  by (induction hs arbitrary: ks; case_tac ks) (auto simp: field_texts_def)

lemma named_texts_values:
  assumes "map field_texts hs = map field_texts ks"
  shows "map (\<lambda>h. view_text (hv_value h)) (named n hs) = map (\<lambda>h. view_text (hv_value h)) (named n ks)"
  using arg_cong [OF named_texts [OF assms, of n], of "map snd"] by (simp add: field_texts_def comp_def)

lemma resolve_content_length_text:
  assumes "map field_texts hs = map field_texts ks" and "resolve_content_length hs m = Inr n"
  shows "resolve_content_length ks m = Inr n"
proof -
  have empty: "named x hs = [] \<longleftrightarrow> named x ks = []" for x
    using named_texts [OF assms(1), of x] by (metis map_is_Nil_conv)
  have "(\<forall>v \<in> set (map (\<lambda>h. view_text (hv_value h)) (named x hs)). v = nat_to_dec n) \<longleftrightarrow>
      (\<forall>v \<in> set (map (\<lambda>h. view_text (hv_value h)) (named x ks)). v = nat_to_dec n)" for x
    using named_texts_values [OF assms(1)] by simp
  then show ?thesis using assms(2) empty unfolding resolve_content_length_iff
    by (auto split: if_splits)
qed

lemma resolve_authority_text:
  assumes "map field_texts hs = map field_texts ks" and "view_text ta = view_text ta'"
    and "resolve_authority pton hs ta v = Inr a"
  shows "\<exists>a'. resolve_authority pton ks ta' v = Inr a' \<and> view_text a' = view_text a"
proof -
  have vals: "map view_text (map (\<lambda>h. hv_value h) (named ''Host'' hs)) =
      map view_text (map (\<lambda>h. hv_value h) (named ''Host'' ks))"
    using named_texts_values [OF assms(1), of "''Host''"] by (simp add: comp_def)
  then show ?thesis using assms(2,3) unfolding resolve_authority_iff Let_def
    by (cases "named ''Host'' hs"; cases "named ''Host'' ks") (auto split: if_splits)
qed

lemma field_members_text:
  assumes "map field_texts hs = map field_texts ks"
  shows "field_members n hs = field_members n ks"
proof -
  have "field_members n xs = concat (map (list_members (CHR '','')) (map (\<lambda>h. view_text (hv_value h)) (named n xs)))" for xs
    by (simp add: field_members_def comp_def)
  then show ?thesis using named_texts_values [OF assms, of n] by metis
qed

section \<open>The head does not depend on what follows it\<close>

lemma starts_with_mono: "starts_with s p \<Longrightarrow> starts_with (s @ t) p"
  by (auto simp: starts_with_iff)

lemma find_str_append:
  assumes "find_str p s = Some i"
  shows "find_str p (s @ t) = Some i"
proof (rule find_str_unique)
  note i = find_str_SomeD [OF assms]
  show "starts_with (drop i (s @ t)) p" using i starts_with_mono [of "drop i s" p t] by simp
  show "i \<le> length (s @ t)" using i by simp
  fix j assume j: "j < i"
  then have len: "j + length p \<le> length s" using i by linarith
  have "\<not> starts_with (drop j s) p" using find_str_least [OF assms j] .
  then show "\<not> starts_with (drop j (s @ t)) p" using len by (simp add: starts_with_def)
qed

lemma find_crlf_of_terminator:
  assumes "find_str kHeaderTerminator s = Some i"
  shows "\<exists>e. find_str kCrlf s = Some e \<and> e \<le> i"
proof -
  have at: "starts_with (drop i s) kCrlf"
    using find_str_SomeD [OF assms] by (auto simp: starts_with_iff kHeaderTerminator_def kCrlf_def)
  then obtain e where e: "find_str kCrlf s = Some e" using find_str_None [of kCrlf s i] by (cases "find_str kCrlf s") auto
  moreover have "e \<le> i" using find_str_least [OF e, of i] at by (meson not_le)
  ultimately show ?thesis by blast
qed

lemma head_extent_append:
  assumes "head_extent buf limits = Inr (pro, rle, tm)" and "view_text buf' = view_text buf @ rest"
  shows "head_extent buf' limits = Inr (pro, rle, tm)" and "pro + tm + 4 \<le> length (view_text buf)"
    and "rle \<le> tm"
proof -
  let ?s = "drop pro (view_text buf)"
  note h = assms(1) [unfolded head_extent_Inr]
  then have tm: "find_str kHeaderTerminator ?s = Some tm" by blast
  note t = find_str_SomeD [OF tm]
  obtain e where e: "find_str kCrlf ?s = Some e" "e \<le> tm" using find_crlf_of_terminator [OF tm] by blast
  have pro: "pro \<le> length (view_text buf)" using t by (simp, linarith)
  have d: "drop pro (view_text buf') = ?s @ rest" using assms(2) pro by simp
  have len4: "tm + 4 \<le> length (view_text buf) - pro" using t by simp
  then have "4 \<le> length (view_text buf)" by linarith
  then have "starts_with (view_text buf') kCrlf \<longleftrightarrow> starts_with (view_text buf) kCrlf"
    unfolding assms(2) by (simp add: starts_with_def)
  then show "head_extent buf' limits = Inr (pro, rle, tm)"
    unfolding head_extent_Inr using h e d find_str_append [OF tm, of rest] find_str_append [OF e(1), of rest]
    by simp
  show "pro + tm + 4 \<le> length (view_text buf)" using len4 pro by linarith
  show "rle \<le> tm" using h e by simp
qed

lemma build_request_defaults:
  assumes "build_request env b limits rle tm = Inr (r, n)"
  shows "req_body r = null_view" and "req_peer r = default_peer" and "req_path_parameters r = []"
    and "req_client_certificate_subject r = []" and "\<not> req_is_secure r"
    and "\<not> req_has_client_certificate r"
  using assms
  by (auto simp: build_request_def Let_def default_request_def split: sum.splits if_splits prod.splits)

lemma build_request_text:
  assumes "build_request env b limits rle tm = Inr (r, n)"
    and "view_text (slice b' 0 rle) = view_text (slice b 0 rle)"
    and "view_text (slice b' (rle + 2) (tm - rle)) = view_text (slice b (rle + 2) (tm - rle))"
  shows "\<exists>r'. build_request (env\<lparr>env_now := t\<rparr>) b' limits rle tm = Inr (r', n) \<and>
    erase_request r' = erase_request r"
proof -
  obtain line :: request_line and target :: target_parts where
    line: "parse_request_line (slice b 0 rle) = Inr line"
      "length (view_text (rl_target line)) \<le> max_target_bytes limits"
    and hs: "parse_header_fields (slice b (rle + 2) (tm - rle)) (max_header_count limits) [] = Inr (req_headers r)"
    and cl: "resolve_content_length (req_headers r) (max_body_bytes limits) = Inr n"
    and tp: "split_target (env_root_path_data env) (rl_target line) = Inr target"
    and au: "resolve_authority (env_inet_pton6 env) (req_headers r) (tp_authority target)
           (rl_is_version_11 line) = Inr (req_authority r)"
    and can: "path_is_canonical (view_text (tp_path target))"
    and q: "if view_text (req_query r) = [] then req_decode_arena r = None \<and> req_query_parameters r = []
         else \<exists>arena. req_decode_arena r = Some arena \<and>
           decode_query_into (env_arena_data env) [] (view_text (req_query r)) [] =
             Inr (arena, req_query_parameters r)"
    and f: "req_method r = rl_method line" "req_raw_target r = rl_target line"
      "req_path r = tp_path target" "req_query r = tp_query target"
      "req_keep_alive r = resolve_keep_alive (req_headers r) (rl_is_version_11 line)"
      "req_wants_gzip r = resolve_wants_gzip (req_headers r)"
    by (rule build_requestD [OF assms(1)], rule that, assumption+)
  obtain line' where line': "parse_request_line (slice b' 0 rle) = Inr line'"
    "rl_method line' = rl_method line" "view_text (rl_target line') = view_text (rl_target line)"
    "rl_is_version_11 line' = rl_is_version_11 line"
    using parse_request_line_text [OF assms(2) [symmetric] line(1)] by blast
  obtain hs' where hs': "parse_header_fields (slice b' (rle + 2) (tm - rle)) (max_header_count limits) [] = Inr hs'"
    "map field_texts hs' = map field_texts (req_headers r)"
    using parse_header_fields_text [OF assms(3) [symmetric] hs, of "[]"] by auto
  note cl' = resolve_content_length_text [OF hs'(2) [symmetric] cl]
  obtain tp' where tp': "split_target (env_root_path_data env) (rl_target line') = Inr tp'"
    "view_text (tp_path tp') = view_text (tp_path target)"
    "view_text (tp_query tp') = view_text (tp_query target)"
    "view_text (tp_authority tp') = view_text (tp_authority target)"
    using split_target_text [OF line'(3) [symmetric] tp] by blast
  obtain a' where a': "resolve_authority (env_inet_pton6 env) hs' (tp_authority tp')
           (rl_is_version_11 line) = Inr a'" "view_text a' = view_text (req_authority r)"
    using resolve_authority_text [OF hs'(2) [symmetric] tp'(4) [symmetric] au] by blast
  have ka: "resolve_keep_alive hs' v = resolve_keep_alive (req_headers r) v"
    "resolve_wants_gzip hs' = resolve_wants_gzip (req_headers r)" for v
    using field_members_text [OF hs'(2)] by (simp_all add: resolve_keep_alive_iff resolve_wants_gzip_eq)
  let ?r' = "default_request\<lparr>req_method := rl_method line, req_raw_target := rl_target line',
                req_path := tp_path tp', req_query := tp_query tp',
                req_authority := a', req_headers := hs',
                req_decode_arena := req_decode_arena r, req_query_parameters := req_query_parameters r,
                req_keep_alive := req_keep_alive r, req_wants_gzip := req_wants_gzip r,
                req_received_at := t\<rparr>"
  have "build_request (env\<lparr>env_now := t\<rparr>) b' limits rle tm = Inr (?r', n)"
    using line line' hs' cl' tp' a' ka can q f
    by (cases "view_text (req_query r) = []") (auto simp: build_request_def)
  moreover have "erase_request ?r' = erase_request r"
    using build_request_defaults [OF assms(1)] f line'(3) tp'(2,3) a'(2) hs'(2)
    by (intro request.equality)
      (simp_all add: erase_request_def map_erase_field_eq default_request_def)
  ultimately show ?thesis by blast
qed

section \<open>What the parser remembers of a head\<close>

text \<open>A remembered offset is right for a view: a borrowed one locates the view in the buffer, and
  a view that is not borrowed is empty or the literal root path.\<close>

definition view_tracks :: "nat \<Rightarrow> view \<Rightarrow> view \<Rightarrow> view_offset \<Rightarrow> bool" where
  "view_tracks root b v off \<longleftrightarrow>
     (if vo_borrowed off
      then view_data v = view_data b + vo_value off \<and>
           vo_value off + length (view_text v) \<le> length (view_text b) \<and>
           view_text v = take (length (view_text v)) (drop (vo_value off) (view_text b))
      else view_text v = [] \<or> v = kRootPath root)"

definition request_tracks :: "nat \<Rightarrow> view \<Rightarrow> request_parser \<Rightarrow> bool" where
  "request_tracks root b p \<longleftrightarrow>
     view_tracks root b (req_raw_target (rp_request p)) (rp_raw_target_offset p) \<and>
     view_tracks root b (req_path (rp_request p)) (rp_path_offset p) \<and>
     view_tracks root b (req_query (rp_request p)) (rp_query_offset p) \<and>
     view_tracks root b (req_authority (rp_request p)) (rp_authority_offset p) \<and>
     list_all2 (\<lambda>h off. view_tracks root b (hv_name h) (fst off) \<and> view_tracks root b (hv_value h) (snd off))
       (req_headers (rp_request p)) (rp_header_offsets p)"

definition parser_tracks :: "parse_env \<Rightarrow> request_limits \<Rightarrow> view \<Rightarrow> request_parser \<Rightarrow> bool" where
  "parser_tracks env limits b p \<longleftrightarrow> (rp_head_complete p \<longrightarrow>
     (\<exists>pro rle tm r n. head_extent b limits = Inr (pro, rle, tm) \<and>
        build_request env (view_from b pro) limits rle tm = Inr (r, n) \<and>
        erase_request (rp_request p) = erase_request r \<and>
        rp_body_offset p = pro + (tm + 4) \<and> rp_body_bytes p = n \<and>
        rp_buffer_base p = view_data b \<and> request_tracks (env_root_path_data env) b p))"

text \<open>The literal is an object of its own, outside the read buffer.\<close>

definition literal_apart :: "parse_env \<Rightarrow> view \<Rightarrow> bool" where
  "literal_apart env b \<longleftrightarrow>
     env_root_path_data env < view_data b \<or> view_data b + length (view_text b) \<le> env_root_path_data env"

lemma offset_of_tracks:
  assumes "within (view_substr b 0 lim) v \<or> v = kRootPath root" and "lim \<le> length (view_text b)"
    and "root < view_data b \<or> view_data b + length (view_text b) \<le> root"
  shows "view_tracks root b v (offset_of (view_data b) (view_data b + lim) v)"
proof (cases "view_text v = []")
  case True
  then show ?thesis by (simp add: view_tracks_def offset_of_def default_offset_def)
next
  case False
  show ?thesis
  proof (cases "v = kRootPath root")
    case True
    then have "\<not> (view_data b \<le> view_data v \<and> view_data v < view_data b + lim)"
      using assms(2,3) by (auto simp: kRootPath_def)
    then have "offset_of (view_data b) (view_data b + lim) v = default_offset"
      by (auto simp: offset_of_def)
    then show ?thesis using True by (simp add: view_tracks_def default_offset_def)
  next
    case ne: False
    then obtain off where off: "view_data v = view_data b + off" "off + length (view_text v) \<le> lim"
      "view_text v = take (length (view_text v)) (drop off (take lim (view_text b)))"
      using assms False by (auto simp: within_def view_substr_def)
    have "off < lim" using off(2) False by (cases "view_text v") auto
    moreover have "view_text v = take (length (view_text v)) (drop off (view_text b))"
      using off(2,3) by (simp add: drop_take min_def) (metis add_le_imp_le_diff add.commute)
    ultimately show ?thesis using off False assms(2)
      by (simp add: view_tracks_def offset_of_def)
  qed
qed

lemma rebase_tracks:
  assumes "view_tracks root b v off" and "view_text b' = view_text b @ rest"
  shows "view_tracks root b' (rebase b' v off) off" and "view_text (rebase b' v off) = view_text v"
proof -
  have "vo_value off + length (view_text v) \<le> length (view_text b) \<Longrightarrow>
      view_text v = take (length (view_text v)) (drop (vo_value off) (view_text b)) \<Longrightarrow>
      take (length (view_text v)) (drop (vo_value off) (view_text b')) = view_text v"
    using assms(2) by simp
  then show "view_tracks root b' (rebase b' v off) off" "view_text (rebase b' v off) = view_text v"
    using assms by (auto simp: view_tracks_def rebase_def)
qed

lemma same_base_tracks:
  assumes "view_tracks root b v off" and "view_text b' = view_text b @ rest"
    and "view_data b' = view_data b"
  shows "view_tracks root b' v off"
  using assms by (auto simp: view_tracks_def)

lemma rebase_request_tracks:
  assumes "request_tracks root b p" and "view_text b' = view_text b @ rest"
  shows "request_tracks root b' (rebase_borrowed_views b' p)"
    and "erase_request (rp_request (rebase_borrowed_views b' p)) = erase_request (rp_request p)"
proof -
  note rt = rebase_tracks [where root = root, OF _ assms(2)]
  let ?f = "\<lambda>h off. h\<lparr>hv_name := rebase b' (hv_name h) (fst off), hv_value := rebase b' (hv_value h) (snd off)\<rparr>"
  have hdrs: "list_all2 (\<lambda>h off. view_tracks root b' (hv_name h) (fst off) \<and> view_tracks root b' (hv_value h) (snd off))
      (map2 ?f hs offs) offs \<and> map field_texts (map2 ?f hs offs) = map field_texts hs"
    if "list_all2 (\<lambda>h off. view_tracks root b (hv_name h) (fst off) \<and> view_tracks root b (hv_value h) (snd off)) hs offs"
    for hs offs
    using that by (induction rule: list_all2_induct) (auto simp: rt field_texts_def)
  show "request_tracks root b' (rebase_borrowed_views b' p)"
    using assms(1) hdrs by (simp add: request_tracks_def rebase_borrowed_views_def Let_def rt)
  have "map erase_field (map2 ?f (req_headers (rp_request p)) (rp_header_offsets p)) =
      map erase_field (req_headers (rp_request p))"
    using assms(1) hdrs [of "req_headers (rp_request p)" "rp_header_offsets p"]
    unfolding map_erase_field_eq request_tracks_def by blast
  then show "erase_request (rp_request (rebase_borrowed_views b' p)) = erase_request (rp_request p)"
    using assms(1)
    by (intro request.equality)
      (simp_all add: request_tracks_def rebase_borrowed_views_def Let_def erase_request_def rt)
qed

lemma same_base_request_tracks:
  assumes "request_tracks root b p" and "view_text b' = view_text b @ rest"
    and "view_data b' = view_data b"
  shows "request_tracks root b' p"
  using assms same_base_tracks [OF _ assms(2,3)]
  by (auto simp: request_tracks_def elim!: list_all2_mono)

lemma within_head:
  assumes "pro + off + len \<le> lim" and "lim \<le> length (view_text b)"
  shows "within (view_substr b 0 lim) (slice (view_from b pro) off len)"
proof -
  have "take len (drop off (drop pro (view_text b))) =
      take (length (take len (drop off (drop pro (view_text b))))) (drop (pro + off) (take lim (view_text b)))"
    using assms by (simp add: drop_take add.commute add.left_commute min_def)
  then show ?thesis
    using assms
    by (auto simp: within_def slice_def view_substr_def view_from_def intro!: exI [of _ "pro + off"])
qed

lemma build_request_within:
  assumes "head_extent b limits = Inr (pro, rle, tm)"
    and "build_request env (view_from b pro) limits rle tm = Inr (r, n)"
  defines "B \<equiv> view_substr b 0 (pro + (tm + 4))"
  shows "within B (req_raw_target r)"
    and "within B (req_path r) \<or> req_path r = kRootPath (env_root_path_data env)"
    and "within B (req_query r)" and "within B (req_authority r)"
    and "\<forall>h \<in> set (req_headers r). within B (hv_name h) \<and> within B (hv_value h)"
proof -
  note he = head_extent_append(2,3) [OF assms(1), of b "[]", simplified]
  obtain line :: request_line and target :: target_parts where
    line: "parse_request_line (slice (view_from b pro) 0 rle) = Inr line"
    and hs: "parse_header_fields (slice (view_from b pro) (rle + 2) (tm - rle)) (max_header_count limits) [] =
       Inr (req_headers r)"
    and tp: "split_target (env_root_path_data env) (rl_target line) = Inr target"
    and au: "resolve_authority (env_inet_pton6 env) (req_headers r) (tp_authority target)
           (rl_is_version_11 line) = Inr (req_authority r)"
    and f: "req_raw_target r = rl_target line" "req_path r = tp_path target" "req_query r = tp_query target"
    by (rule build_requestD [OF assms(2)], rule that, assumption+)
  have "within B (slice (view_from b pro) 0 rle)" "within B (slice (view_from b pro) (rle + 2) (tm - rle))"
    unfolding B_def using he by (auto intro!: within_head)
  then have t: "within B (rl_target line)"
    and h: "\<forall>h \<in> set (req_headers r). within B (hv_name h) \<and> within B (hv_value h)"
    using parse_request_line_within [OF line] parse_header_fields_within [OF hs] by auto
  note st = split_target_within [OF tp t]
  show "within B (req_raw_target r)" using t f by simp
  show "within B (req_path r) \<or> req_path r = kRootPath (env_root_path_data env)" using st(1) f by simp
  show "within B (req_query r)" using st(2) f by simp
  show "\<forall>h \<in> set (req_headers r). within B (hv_name h) \<and> within B (hv_value h)" by (rule h)
  then show "within B (req_authority r)" using resolve_authority_within [OF au st(3)] by blast
qed

lemma same_env: "env\<lparr>env_now := t, env_now := env_now env\<rparr> = env"
  by simp

lemma parse_head_tracks:
  assumes "parse_head (env\<lparr>env_now := t\<rparr>) b limits p = Inr q" and "literal_apart env b"
  shows "rp_head_complete q" and "parser_tracks env limits b q"
proof -
  obtain pro rle tm r n where h: "head_extent b limits = Inr (pro, rle, tm)"
    and br: "build_request (env\<lparr>env_now := t\<rparr>) (view_from b pro) limits rle tm = Inr (r, n)"
    and q: "q = (remember_buffer_offsets (p\<lparr>rp_request := r,
               rp_body_offset := pro + (tm + length kHeaderTerminator), rp_body_bytes := n,
               rp_buffer_base := view_data b\<rparr>))\<lparr>rp_head_complete := True\<rparr>"
    using assms(1) unfolding parse_head_Inr by blast
  show "rp_head_complete q" by (simp add: q)
  have lim: "pro + (tm + 4) \<le> length (view_text b)"
    using head_extent_append(2) [OF h, of b "[]"] by simp
  note w = build_request_within [OF h br]
  note ot = offset_of_tracks [OF _ lim, of _ "env_root_path_data env"]
  have "request_tracks (env_root_path_data env) b q"
    using w ot assms(2)
    by (simp add: request_tracks_def q remember_buffer_offsets_def Let_def literal_apart_def
        list_all2_conv_all_nth)
  moreover obtain r' where "build_request env (view_from b pro) limits rle tm = Inr (r', n)"
    "erase_request r' = erase_request r"
    using build_request_text [OF br refl refl, of "env_now env"] by auto
  ultimately show "parser_tracks env limits b q"
    using h by (auto simp: parser_tracks_def q)
qed

lemma parse_request_eq:
  assumes "head_extent b limits = Inr (pro, rle, tm)"
    and "build_request env (view_from b pro) limits rle tm = Inr (r, n)"
  shows "parse_request env b limits =
    (if length (view_text b) < pro + (tm + 4) + n then Inl NeedsMoreData
     else Inr \<lparr>pr_request = r\<lparr>req_body := slice b (pro + (tm + 4)) n\<rparr>,
               pr_consumed_bytes = pro + (tm + 4) + n, pr_body_offset = pro + (tm + 4)\<rparr>)"
proof -
  have "pro + (tm + 4) \<le> length (view_text b)"
    using head_extent_append(2) [OF assms(1), of b "[]"] by simp
  then show ?thesis
    using assms
    by (auto simp: parse_request_def parse_def parse_head_def parse_body_def new_parser_def
        request_move_def Let_def)
qed

definition same_parsed :: "parsed_request \<Rightarrow> parsed_request \<Rightarrow> bool" where
  "same_parsed x y \<longleftrightarrow> erase_request (pr_request x) = erase_request (pr_request y) \<and>
     pr_consumed_bytes x = pr_consumed_bytes y \<and> pr_body_offset x = pr_body_offset y"

definition request_views_in :: "parse_env \<Rightarrow> view \<Rightarrow> request \<Rightarrow> bool" where
  "request_views_in env b r \<longleftrightarrow>
     (\<forall>v \<in> set ([req_raw_target r, req_path r, req_query r, req_authority r, req_body r] @
          concat (map (\<lambda>h. [hv_name h, hv_value h]) (req_headers r))).
        within b v \<or> v = kRootPath (env_root_path_data env))"

lemma view_tracks_within: "view_tracks root b v off \<Longrightarrow> within b v \<or> v = kRootPath root"
  by (auto simp: view_tracks_def within_def split: if_splits)

lemma request_tracks_views:
  assumes "request_tracks (env_root_path_data env) b p"
  shows "request_views_in env b ((rp_request p)\<lparr>req_body := slice b off n\<rparr>)"
proof -
  have "\<forall>h \<in> set hs. (within b (hv_name h) \<or> hv_name h = kRootPath root) \<and>
      (within b (hv_value h) \<or> hv_value h = kRootPath root)"
    if "list_all2 (\<lambda>h off. view_tracks root b (hv_name h) (fst off) \<and> view_tracks root b (hv_value h) (snd off)) hs offs"
    for hs offs root
    using that by (induction rule: list_all2_induct) (auto dest: view_tracks_within)
  then show ?thesis using assms
    by (auto simp: request_views_in_def request_tracks_def dest!: view_tracks_within)
qed

text \<open>One call, on a buffer that extends the one the parser has seen.\<close>

lemma parse_body_step:
  assumes "parser_tracks env limits b p" and "rp_head_complete p"
    and "view_text b' = view_text b @ rest"
  shows "case parse_body b' p of
      (Inl e, q) \<Rightarrow> e = NeedsMoreData \<and> parse_request (env\<lparr>env_now := t'\<rparr>) b' limits = Inl e \<and>
                   parser_tracks env limits b' q
    | (Inr pr, q) \<Rightarrow> request_views_in env b' (pr_request pr) \<and>
                   (\<exists>pr'. parse_request (env\<lparr>env_now := t'\<rparr>) b' limits = Inr pr' \<and> same_parsed pr pr')"
proof -
  obtain pro rle tm r n where h: "head_extent b limits = Inr (pro, rle, tm)"
    and br: "build_request env (view_from b pro) limits rle tm = Inr (r, n)"
    and p: "erase_request (rp_request p) = erase_request r" "rp_body_offset p = pro + (tm + 4)"
      "rp_body_bytes p = n" "rp_buffer_base p = view_data b" "request_tracks (env_root_path_data env) b p"
    using assms(1,2) unfolding parser_tracks_def by blast
  note h' = head_extent_append [OF h assms(3)]
  have long: "pro + (tm + 4) \<le> length (view_text b')" using h'(2) assms(3) by simp
  have slices: "view_text (slice (view_from b' pro) 0 rle) = view_text (slice (view_from b pro) 0 rle)"
    "view_text (slice (view_from b' pro) (rle + 2) (tm - rle)) =
       view_text (slice (view_from b pro) (rle + 2) (tm - rle))"
    using h'(2,3) assms(3) by auto
  obtain r1 where r1: "build_request env (view_from b' pro) limits rle tm = Inr (r1, n)"
    "erase_request r1 = erase_request r"
    using build_request_text [OF br slices, of "env_now env"] by auto
  obtain r2 where r2: "build_request (env\<lparr>env_now := t'\<rparr>) (view_from b' pro) limits rle tm = Inr (r2, n)"
    "erase_request r2 = erase_request r"
    using build_request_text [OF br slices, of t'] by auto
  define q where "q = (if view_data b' \<noteq> rp_buffer_base p then rebase_borrowed_views b' p else p)"
  have q: "erase_request (rp_request q) = erase_request r" "rp_body_offset q = pro + (tm + 4)"
    "rp_body_bytes q = n" "rp_buffer_base q = view_data b'" "rp_head_complete q"
    "request_tracks (env_root_path_data env) b' q"
    using p assms(2) rebase_request_tracks [OF p(5) assms(3)] same_base_request_tracks [OF p(5) assms(3)]
    by (auto simp: q_def)
  have tracks: "parser_tracks env limits b' q"
    unfolding parser_tracks_def using h'(1) r1 q by auto
  have body: "erase_request (x\<lparr>req_body := v\<rparr>) = erase_request (y\<lparr>req_body := v\<rparr>)"
    if "erase_request x = erase_request y" for x y v
    using that by (cases x, cases y) (simp add: erase_request_def)
  show ?thesis
  proof (cases "length (view_text b') - rp_body_offset q < rp_body_bytes q")
    case True
    then show ?thesis
      using long p(2) q(2,3) tracks parse_request_eq [OF h'(1) r2(1)]
      by (simp add: parse_body_def Let_def q_def [symmetric])
  next
    case False
    have "request_views_in env b' ((rp_request q)\<lparr>req_body := slice b' (pro + (tm + 4)) n\<rparr>)"
      by (rule request_tracks_views [OF q(6)])
    moreover have "erase_request ((rp_request q)\<lparr>req_body := slice b' (pro + (tm + 4)) n\<rparr>) =
        erase_request (r2\<lparr>req_body := slice b' (pro + (tm + 4)) n\<rparr>)"
      using body [of "rp_request q" r2] q(1) r2(2) by simp
    ultimately show ?thesis
      using False long p(2) q(2,3) parse_request_eq [OF h'(1) r2(1)]
      by (simp add: parse_body_def Let_def q_def [symmetric] request_move_def same_parsed_def)
  qed
qed

text \<open>A head that is not complete leaves no trace: every field of the parser is written when it is.\<close>

lemma parse_head_any: "parse_head env b limits p = parse_head env b limits q"
  by (cases p, cases q)
    (simp add: parse_head_def remember_buffer_offsets_def Let_def split: sum.splits prod.splits)

lemma parse_step:
  assumes "parser_tracks env limits b p" and "view_text b' = view_text b @ rest"
    and "literal_apart env b'"
  shows "case parse (env\<lparr>env_now := t\<rparr>) b' limits p of
      (Inl e, q) \<Rightarrow> parse_request (env\<lparr>env_now := t'\<rparr>) b' limits = Inl e \<and>
                   (e = NeedsMoreData \<longrightarrow> parser_tracks env limits b' q)
    | (Inr pr, q) \<Rightarrow> request_views_in env b' (pr_request pr) \<and>
                   (\<exists>pr'. parse_request (env\<lparr>env_now := t'\<rparr>) b' limits = Inr pr' \<and> same_parsed pr pr')"
proof (cases "rp_head_complete p")
  case True
  then show ?thesis
    using parse_body_step [OF assms(1) True assms(2), of t'] by (auto simp: parse_def split: prod.splits sum.splits)
next
  case False
  show ?thesis
  proof (cases "parse_head (env\<lparr>env_now := t\<rparr>) b' limits p")
    case (Inl e)
    have "parse_head (env\<lparr>env_now := t'\<rparr>) b' limits new_parser = Inl e"
    proof (cases "parse_head (env\<lparr>env_now := t'\<rparr>) b' limits new_parser")
      case (Inl e')
      then show ?thesis using \<open>parse_head (env\<lparr>env_now := t\<rparr>) b' limits p = Inl e\<close>
        by (auto simp: parse_head_def build_request_def Let_def split: sum.splits prod.splits if_splits)
    next
      case (Inr q)
      then obtain pro rle tm r n where h: "head_extent b' limits = Inr (pro, rle, tm)"
        and br: "build_request (env\<lparr>env_now := t'\<rparr>) (view_from b' pro) limits rle tm = Inr (r, n)"
        unfolding parse_head_Inr by blast
      obtain r' where "build_request (env\<lparr>env_now := t\<rparr>) (view_from b' pro) limits rle tm = Inr (r', n)"
        using build_request_text [OF br refl refl, of t] by auto
      then show ?thesis using h \<open>parse_head (env\<lparr>env_now := t\<rparr>) b' limits p = Inl e\<close>
        by (simp add: parse_head_def)
    qed
    then show ?thesis using False Inl
      by (simp add: parse_def parse_request_def new_parser_def parser_tracks_def)
  next
    case (Inr q)
    note tr = parse_head_tracks [OF Inr assms(3)]
    from parse_body_step [OF tr(2,1), of b' "[]" t'] show ?thesis
      using False Inr by (auto simp: parse_def split: prod.splits sum.splits)
  qed
qed

section \<open>A request that arrives in pieces\<close>

text \<open>Calls of \<open>parse\<close> on the successive contents of the read buffer, each with its clock reading,
  until one returns something other than \<open>NeedsMoreData\<close>.\<close>

fun feed :: "parse_env \<Rightarrow> request_limits \<Rightarrow> request_parser \<Rightarrow> (view \<times> int) list \<Rightarrow>
    (parse_error, parsed_request) expected" where
  "feed env limits p [] = Inl NeedsMoreData"
| "feed env limits p ((b, t) # bs) =
     (case parse (env\<lparr>env_now := t\<rparr>) b limits p of
        (Inl NeedsMoreData, q) \<Rightarrow> feed env limits q bs
      | (res, _) \<Rightarrow> res)"

fun growing :: "view \<Rightarrow> (view \<times> int) list \<Rightarrow> bool" where
  "growing b [] = True"
| "growing b ((b', t) # bs) \<longleftrightarrow> (\<exists>rest. view_text b' = view_text b @ rest) \<and> growing b' bs"

definition same_outcome ::
  "(parse_error, parsed_request) expected \<Rightarrow> (parse_error, parsed_request) expected \<Rightarrow> bool" where
  "same_outcome x y = rel_sum (=) same_parsed x y"

lemma feed_one_shot:
  assumes "parser_tracks env limits b p" and "growing b bs" and "bs \<noteq> []"
    and "\<forall>x \<in> set bs. literal_apart env (fst x)"
  shows "\<exists>b' \<in> set (map fst bs). same_outcome (feed env limits p bs) (parse_request (env\<lparr>env_now := t'\<rparr>) b' limits) \<and>
     (\<forall>pr. feed env limits p bs = Inr pr \<longrightarrow> request_views_in env b' (pr_request pr)) \<and>
     (feed env limits p bs = Inl NeedsMoreData \<longrightarrow> b' = fst (last bs))"
  using assms
proof (induction env limits p bs arbitrary: b rule: feed.induct)
  case (2 env limits p b1 t bs)
  then obtain rest where ext: "view_text b1 = view_text b @ rest" and gr: "growing b1 bs" by auto
  obtain res q where pq: "parse (env\<lparr>env_now := t\<rparr>) b1 limits p = (res, q)" by fastforce
  note st = parse_step [OF 2(2) ext, where t = t and t' = t', unfolded pq]
  show ?case
  proof (cases "res = Inl NeedsMoreData")
    case True
    then have tr: "parser_tracks env limits b1 q"
      and one: "parse_request (env\<lparr>env_now := t'\<rparr>) b1 limits = Inl NeedsMoreData"
      using st 2(5) by auto
    show ?thesis
    proof (cases bs)
      case Nil
      then show ?thesis using True pq one by (simp add: same_outcome_def)
    next
      case (Cons x xs)
      then have "bs \<noteq> []" by simp
      from 2(1) [OF pq [symmetric] True refl tr gr this] 2(5) show ?thesis
        using True pq Cons by auto
    qed
  next
    case False
    then have f: "feed env limits p ((b1, t) # bs) = res"
      using pq by (auto split: parse_error.splits sum.splits)
    show ?thesis
      using st 2(5) False unfolding f by (cases res) (auto simp: same_outcome_def)
  qed
qed simp

text \<open>What is accepted stays accepted, and means the same, whatever follows it.\<close>

lemma parse_request_extended:
  assumes "parse_request env b limits = Inr pr" and "view_text b' = view_text b @ rest"
  shows "\<exists>pr'. parse_request (env\<lparr>env_now := t\<rparr>) b' limits = Inr pr' \<and> same_parsed pr pr'"
proof -
  obtain pro rle tm r n where h: "head_extent b limits = Inr (pro, rle, tm)"
    and br: "build_request env (view_from b pro) limits rle tm = Inr (r, n)"
    and off: "pr_body_offset pr = pro + (tm + 4)" "pr_consumed_bytes pr = pro + (tm + 4) + n"
      "pro + (tm + 4) + n \<le> length (view_text b)"
    and pr: "pr_request pr = r\<lparr>req_body := slice b (pro + (tm + 4)) n\<rparr>"
    by (rule parse_requestD [OF assms(1)], rule that, assumption+)
  note h' = head_extent_append [OF h assms(2)]
  have slices: "view_text (slice (view_from b' pro) 0 rle) = view_text (slice (view_from b pro) 0 rle)"
    "view_text (slice (view_from b' pro) (rle + 2) (tm - rle)) = view_text (slice (view_from b pro) (rle + 2) (tm - rle))"
    "view_text (slice b' (pro + (tm + 4)) n) = view_text (slice b (pro + (tm + 4)) n)"
    using h'(2,3) off(3) assms(2) by auto
  obtain r' where r': "build_request (env\<lparr>env_now := t\<rparr>) (view_from b' pro) limits rle tm = Inr (r', n)"
    "erase_request r' = erase_request r"
    using build_request_text [OF br slices(1,2), of t] by auto
  have "erase_request (r'\<lparr>req_body := slice b' (pro + (tm + 4)) n\<rparr>) = erase_request (r\<lparr>req_body := slice b (pro + (tm + 4)) n\<rparr>)"
    using r'(2) slices(3) by (cases r, cases r') (simp add: erase_request_def)
  moreover have "\<not> length (view_text b') < pro + (tm + 4) + n" using off(3) assms(2) by simp
  ultimately show ?thesis
    using parse_request_eq [OF h'(1) r'(1)] off(1,2) pr by (auto simp: same_parsed_def)
qed

text \<open>A part of what is accepted is not refused, unless it ends one byte past the request-line limit with the
  end of that line not complete in it: its last byte is then the CR of a line of exactly the permitted length.\<close>

definition cut_at_limit :: "request_limits \<Rightarrow> bytes \<Rightarrow> bool" where
  "cut_at_limit limits s \<longleftrightarrow> (let line = drop (if starts_with s kCrlf then 2 else 0) s in
     length line = max_request_line_bytes limits + 1 \<and> find_str kCrlf line = None)"

lemma find_str_part:
  assumes "find_str p (s @ t) = Some i" and "i + length p \<le> length s"
  shows "find_str p s = Some i"
proof (rule find_str_unique)
  note i = find_str_SomeD [OF assms(1)]
  show "starts_with (drop i s) p" using i assms(2) by (auto simp: starts_with_def)
  show "i \<le> length s" using assms(2) by simp
  show "\<not> starts_with (drop j s) p" if "j < i" for j
    using find_str_least [OF assms(1) that] starts_with_mono [of "drop j s" p t] that assms(2) by auto
qed

lemma head_extent_part:
  assumes "head_extent b' limits = Inr (pro, rle, tm)" and "view_text b' = view_text b @ rest"
    and "\<not> cut_at_limit limits (view_text b)" and "head_extent b limits = Inl e"
  shows "e = NeedsMoreData"
proof -
  define pro0 where "pro0 = (if starts_with (view_text b) kCrlf then 2 else 0 :: nat)"
  let ?s = "drop pro0 (view_text b)"
  note h' = assms(1) [unfolded head_extent_Inr]
  have tm': "find_str kHeaderTerminator (drop pro (view_text b')) = Some tm" and lim: "rle \<le> max_request_line_bytes limits"
    "tm + 4 \<le> max_header_block_bytes limits" using h' by blast+
  have line': "find_str kCrlf (drop pro (view_text b')) = Some rle" using find_crlf_of_terminator [OF tm'] h' by auto
  have eq: "head_extent b limits =
      (let line = (case find_str kCrlf ?s of None \<Rightarrow> length ?s | Some n \<Rightarrow> n) in
       if max_request_line_bytes limits < line then Inl TargetTooLong
       else case find_str kHeaderTerminator ?s of
         None \<Rightarrow> if max_header_block_bytes limits < length ?s then Inl TooManyHeaders else Inl NeedsMoreData
       | Some n \<Rightarrow> if max_header_block_bytes limits < n + 4 then Inl TooManyHeaders else Inr (pro0, line, n))"
  proof -
    have "(if starts_with (view_text b) kCrlf then length kCrlf else 0) = pro0" "length kHeaderTerminator = 4"
      by (simp_all add: pro0_def)
    then show ?thesis unfolding head_extent_def Let_def by (simp only:)
  qed
  have found: "find_str kHeaderTerminator ?s = Some tm \<Longrightarrow> pro = pro0 \<Longrightarrow> e = NeedsMoreData"
    and missing: "find_str kHeaderTerminator ?s = None \<Longrightarrow> length ?s < tm + 4 \<Longrightarrow> e = NeedsMoreData"
    if "(case find_str kCrlf ?s of None \<Rightarrow> length ?s | Some n \<Rightarrow> n) \<le> max_request_line_bytes limits"
    using that assms(4) lim unfolding eq Let_def by (simp_all del: length_drop split: if_splits)
  show ?thesis
  proof (cases "length (view_text b) < 2")
    case True
    have absent: "find_str p (view_text b) = None" if "2 \<le> length p" for p
      using find_str_SomeD [of p "view_text b"] that True by (cases "find_str p (view_text b)") fastforce+
    have "\<not> starts_with (view_text b) kCrlf"
      using True by (cases "view_text b"; cases "tl (view_text b)") (auto simp: starts_with_def kCrlf_def)
    then have "pro0 = 0" by (simp add: pro0_def)
    moreover have "find_str kCrlf (view_text b) = None" "find_str kHeaderTerminator (view_text b) = None"
      by (rule absent; simp)+
    moreover have "\<not> starts_with (view_text b) kCrlf" "length (view_text b) \<noteq> max_request_line_bytes limits + 1"
      using assms(3) calculation by (auto simp: cut_at_limit_def Let_def pro0_def split: if_splits)
    moreover from this(2) have "length (view_text b) \<le> max_request_line_bytes limits" using True by simp
    ultimately show ?thesis using missing True by simp
  next
    case False
    have pro: "pro = pro0" using h' False by (simp add: pro0_def assms(2) starts_with_def)
    have "pro0 \<le> length (view_text b)" using False by (simp add: pro0_def)
    then have d: "drop pro (view_text b') = ?s @ rest" and len: "length (view_text b) = pro0 + length ?s"
      using pro assms(2) by simp_all
    have early: "length ?s < i + length p" if "find_str p ?s = None" "find_str p (drop pro (view_text b')) = Some i" for p i
    proof (rule ccontr)
      assume "\<not> length ?s < i + length p"
      then have "i + length p \<le> length ?s" by simp
      from find_str_part [OF that(2) [unfolded d] this] that(1) show False by simp
    qed
    have "(case find_str kCrlf ?s of None \<Rightarrow> length ?s | Some n \<Rightarrow> n) \<le> max_request_line_bytes limits"
    proof (cases "find_str kCrlf ?s")
      case None
      then have "length ?s < rle + 2" using early [OF None line'] by simp
      moreover have "length ?s \<noteq> max_request_line_bytes limits + 1"
        using assms(3) None unfolding cut_at_limit_def Let_def pro0_def by blast
      ultimately show ?thesis using None lim(1) by simp
    next
      case (Some n)
      then show ?thesis using find_str_append [OF Some, of rest] line' d lim(1) by simp
    qed
    note line = this
    show ?thesis
    proof (cases "find_str kHeaderTerminator ?s")
      case None
      have "length ?s < tm + 4" using early [OF None tm'] by simp
      then show ?thesis using missing [OF line None] by simp
    next
      case (Some n)
      then have "n = tm" using find_str_append [OF Some, of rest] tm' d by simp
      then show ?thesis using found [OF line] Some pro by simp
    qed
  qed
qed

lemma parse_request_part:
  assumes "parse_request env b' limits = Inr pr" and "view_text b' = view_text b @ rest"
    and "\<not> cut_at_limit limits (view_text b)" and "parse_request env b limits = Inl e"
  shows "e = NeedsMoreData"
proof -
  obtain pro rle tm r n where h: "head_extent b' limits = Inr (pro, rle, tm)"
    and br: "build_request env (view_from b' pro) limits rle tm = Inr (r, n)"
    by (rule parse_requestD [OF assms(1)], rule that, assumption+)
  show ?thesis
  proof (cases "head_extent b limits")
    case (Inl e')
    then have "e' = e" using assms(4) by (simp add: parse_request_def parse_def parse_head_def new_parser_def)
    then show ?thesis using head_extent_part [OF h assms(2,3)] Inl by simp
  next
    case (Inr x)
    then obtain pro1 rle1 tm1 where h1: "head_extent b limits = Inr (pro1, rle1, tm1)" by (cases x) auto
    note h' = head_extent_append [OF h1 assms(2)]
    have same: "pro1 = pro" "rle1 = rle" "tm1 = tm" using h'(1) h by simp_all
    have slices: "view_text (slice (view_from b pro) 0 rle) = view_text (slice (view_from b' pro) 0 rle)"
      "view_text (slice (view_from b pro) (rle + 2) (tm - rle)) = view_text (slice (view_from b' pro) (rle + 2) (tm - rle))"
      using h'(2,3) assms(2) by (auto simp: same)
    obtain r' where "build_request env (view_from b pro) limits rle tm = Inr (r', n)"
      using build_request_text [OF br slices, of "env_now env"] by auto
    from parse_request_eq [OF h1 [unfolded same] this] show ?thesis using assms(4) by (auto split: if_splits)
  qed
qed

lemma growing_last:
  "growing b bs \<Longrightarrow> bs \<noteq> [] \<Longrightarrow> x \<in> set bs \<Longrightarrow> \<exists>rest. view_text (fst (last bs)) = view_text (fst x) @ rest"
  "growing b bs \<Longrightarrow> \<exists>rest. view_text (fst (last ((b, t) # bs))) = view_text b @ rest"
proof (induction b bs arbitrary: x t rule: growing.induct)
  case (2 b b' t' bs)
  { case 1
    then show ?case using 2(1) [of x] 2(2) [of t'] by (cases "bs = []") auto
  next
    case 2
    then show ?case using \<open>\<And>t. growing b' bs \<Longrightarrow> \<exists>rest. view_text (fst (last ((b', t) # bs))) = view_text b' @ rest\<close> [of t']
      by auto }
qed simp_all

text \<open>C3: a request that arrives in pieces means what it means in one piece. Take any sequence of growing buffer
  contents the parser is called on, wherever the buffer moves between the calls. A request that is accepted
  is the request, with the same contents, body offset and consumed bytes, that one call on all the bytes
  received gives; and every view of it lies in the buffer of the call that accepted it (or is the literal
  root path), so none dangles. While more data is asked for, one call on all the bytes would ask for it
  too, and an error is the error of one call on the contents at hand. Conversely a request that one call on
  all the bytes accepts is accepted in pieces, except where a piece ends between the CR and the LF of a
  request line of exactly the permitted length (which is refused, as a theorem on that limit shows).\<close>

theorem incremental_parse_equals_one_shot:
  fixes limits :: request_limits and now :: int
  assumes "growing null_view bs" and "bs \<noteq> []" and "\<forall>x \<in> set bs. literal_apart env (fst x)"
  defines "outcome \<equiv> feed env limits new_parser bs"
    and "one_shot \<equiv> \<lambda>b. parse_request (env\<lparr>env_now := now\<rparr>) b limits" and "everything \<equiv> fst (last bs)"
  shows "(\<exists>b \<in> set (map fst bs). same_outcome outcome (one_shot b) \<and>
       (\<forall>pr. outcome = Inr pr \<longrightarrow> request_views_in env b (pr_request pr)) \<and>
       (outcome = Inl NeedsMoreData \<longrightarrow> b = everything)) \<and>
    (\<forall>pr. outcome = Inr pr \<longrightarrow> (\<exists>pr'. one_shot everything = Inr pr' \<and> same_parsed pr pr')) \<and>
    (\<forall>pr'. one_shot everything = Inr pr' \<and> (\<forall>x \<in> set bs. \<not> cut_at_limit limits (view_text (fst x))) \<longrightarrow>
       (\<exists>pr. outcome = Inr pr \<and> same_parsed pr pr'))"
proof -
  obtain b where b: "b \<in> set (map fst bs)" "same_outcome outcome (one_shot b)"
    "\<forall>pr. outcome = Inr pr \<longrightarrow> request_views_in env b (pr_request pr)" "outcome = Inl NeedsMoreData \<longrightarrow> b = everything"
    using feed_one_shot [OF _ assms(1-3), of limits new_parser now]
    unfolding outcome_def one_shot_def everything_def by (auto simp: parser_tracks_def new_parser_def)
  obtain rest where ext: "view_text everything = view_text b @ rest"
    using growing_last(1) [OF assms(1,2)] b(1) by (auto simp: everything_def)
  have accepted: "\<exists>pr'. one_shot everything = Inr pr' \<and> same_parsed pr pr'" if out: "outcome = Inr pr" for pr
  proof -
    obtain pr1 where p1: "one_shot b = Inr pr1" "same_parsed pr pr1"
      using b(2) unfolding out same_outcome_def by (cases "one_shot b") auto
    obtain pr2 where "one_shot everything = Inr pr2" "same_parsed pr1 pr2"
      using parse_request_extended [OF p1(1) [unfolded one_shot_def] ext, of now] by (auto simp: one_shot_def)
    then show ?thesis using p1(2) by (auto simp: same_parsed_def)
  qed
  have "\<exists>pr. outcome = Inr pr \<and> same_parsed pr pr'"
    if e: "one_shot everything = Inr pr'" and cut: "\<forall>x \<in> set bs. \<not> cut_at_limit limits (view_text (fst x))" for pr'
  proof (cases outcome)
    case (Inl err)
    have "one_shot b = Inl err" using b(2) unfolding Inl same_outcome_def by (cases "one_shot b") auto
    moreover from this have "err = NeedsMoreData"
      using parse_request_part [OF e [unfolded one_shot_def] ext] cut b(1) by (auto simp: one_shot_def)
    ultimately show ?thesis using b(4) Inl e by simp
  next
    case (Inr pr)
    then show ?thesis using accepted [OF Inr] e by auto
  qed
  then show ?thesis using b accepted by blast
qed

end
