(* ===== verification/Http_Request_Properties.thy ===== *)
theory Http_Request_Properties
  imports Http_Request_Incremental
begin

text \<open>
  What the request parser accepts (a plain origin-form request written out on the wire), what its query
  parameters are, where its size check depends on how the bytes arrive, and concrete requests on
  which the parser's properties apply.
\<close>

section \<open>Query parameters\<close>

text \<open>The query parameters of an accepted request are free of control bytes, at most as many as
  the fixed capacity, and all views into a decode arena that never grows past the bytes reserved
  for it (the length of the raw query), so decoding cannot move the arena under earlier views.\<close>

theorem parsed_query_parameters:
  assumes "parse_request env buf limits = Inr pr"
  defines "r \<equiv> pr_request pr"
  defines "arena \<equiv> (case req_decode_arena r of None \<Rightarrow> [] | Some a \<Rightarrow> a)"
  shows "length (req_query_parameters r) \<le> kMaxParsedHeaders \<and>
    length arena \<le> length (view_text (req_query r)) \<and>
    (\<forall>h \<in> set (req_query_parameters r). \<forall>v \<in> {hv_name h, hv_value h}.
       (\<forall>c \<in> set (view_text v). 0x20 \<le> byte c \<and> byte c \<noteq> 0x7F) \<and>
       (\<exists>off. view_data v = env_arena_data env + off \<and> off + length (view_text v) \<le> length arena \<and>
          view_text v = take (length (view_text v)) (drop off arena)))"
proof -
  obtain pro rle tm r' n where b: "build_request env (view_from buf pro) limits rle tm = Inr (r', n)"
    and pr: "r = r'\<lparr>req_body := slice buf (pro + (tm + 4)) n\<rparr>"
    by (rule parse_requestD [OF assms(1)], rule that, assumption+, simp only: r_def)
  obtain line :: request_line and target :: target_parts where
    t: "split_target (env_root_path_data env) (rl_target line) = Inr target"
    and q: "if view_text (req_query r') = [] then req_decode_arena r' = None \<and> req_query_parameters r' = []
         else \<exists>arena. req_decode_arena r' = Some arena \<and>
           decode_query_into (env_arena_data env) [] (view_text (req_query r')) [] =
             Inr (arena, req_query_parameters r')" "req_query r' = tp_query target"
    by (rule build_requestD [OF b], rule that, assumption+)
  show ?thesis
  proof (cases "view_text (req_query r') = []")
    case True
    then show ?thesis using q by (simp add: pr arena_def)
  next
    case False
    then obtain a where a: "req_decode_arena r' = Some a"
      "decode_query_into (env_arena_data env) [] (view_text (req_query r')) [] = Inr (a, req_query_parameters r')"
      using q by auto
    have "\<forall>c \<in> set (view_text (req_query r')). \<not> is_control c"
      using split_target_bytes(3) [OF t] q(2) target_byte_not_control by simp
    from decode_query_into_ok [OF a(2) this] show ?thesis
      by (auto simp: query_params_ok_def arena_field_ok_def pr arena_def a(1) is_control_def
          kSpaceByte_def kDeleteByte_def not_less)
  qed
qed

section \<open>Requests on the wire\<close>

definition render_request :: "bytes \<Rightarrow> bytes \<Rightarrow> (bytes \<times> bytes) list \<Rightarrow> bytes \<Rightarrow> bytes" where
  "render_request m t fs body =
     (m @ '' '' @ t @ '' '' @ kHttpVersion11) @ kCrlf @ concat (map render_field fs) @ kCrlf @ body"

lemma find_terminator_skip:
  assumes "CHR 0x0D \<notin> set xs" and "y \<noteq> []" and "hd y \<noteq> CHR 0x0D"
  shows "find_str kHeaderTerminator (xs @ kCrlf @ y) =
    map_option (\<lambda>i. length xs + 2 + i) (find_str kHeaderTerminator y)"
  using assms
proof (induction xs)
  case Nil
  then show ?case
    by (cases y) (auto simp: kHeaderTerminator_def kCrlf_def starts_with_def option.map_comp comp_def)
next
  case (Cons x xs)
  then show ?case
    by (auto simp: kHeaderTerminator_def starts_with_def option.map_comp comp_def)
qed

lemma find_terminator_here:
  "CHR 0x0D \<notin> set xs \<Longrightarrow> find_str kHeaderTerminator (xs @ kCrlf @ kCrlf @ z) = Some (length xs)"
  by (induction xs) (auto simp: kHeaderTerminator_def kCrlf_def starts_with_def)

text \<open>A field that stays on its line.\<close>

definition field_line_safe :: "bytes \<times> bytes \<Rightarrow> bool" where
  "field_line_safe f \<longleftrightarrow> fst f \<noteq> [] \<and> (\<forall>c \<in> set (fst f). is_token_character c) \<and>
     (\<forall>c \<in> set (snd f). is_valid_field_value_byte c)"

lemma field_pair_ok_safe: "field_pair_ok f \<Longrightarrow> field_line_safe f"
  by (simp add: field_pair_ok_def field_line_safe_def)

lemma field_line_no_cr: "field_line_safe f \<Longrightarrow> CHR 0x0D \<notin> set (fst f @ '': '' @ snd f)"
  using token_not_special value_byte_not_cr by (fastforce simp: field_line_safe_def)

lemma find_terminator_fields:
  assumes "CHR 0x0D \<notin> set l" and "\<forall>f \<in> set fs. field_line_safe f"
  shows "find_str kHeaderTerminator (l @ kCrlf @ concat (map render_field fs) @ kCrlf @ z) =
    Some (length l + length (concat (map render_field fs)))"
  using assms
proof (induction fs arbitrary: l)
  case Nil
  then show ?case using find_terminator_here by simp
next
  case (Cons f fs)
  let ?fl = "fst f @ '': '' @ snd f"
  let ?y = "?fl @ kCrlf @ concat (map render_field fs) @ kCrlf @ z"
  have fp: "field_line_safe f" using Cons.prems by simp
  then have "fst f \<noteq> []" "hd (fst f) \<noteq> CHR 0x0D"
    using token_not_special by (auto simp: field_line_safe_def)
  then have y: "?y \<noteq> []" "hd ?y \<noteq> CHR 0x0D" by auto
  have "find_str kHeaderTerminator (l @ kCrlf @ ?y) =
      map_option (\<lambda>i. length l + 2 + i) (find_str kHeaderTerminator ?y)"
    by (rule find_terminator_skip [OF Cons.prems(1) y])
  also have "\<dots> = Some (length l + 2 + (length ?fl + length (concat (map render_field fs))))"
    using Cons.IH [OF field_line_no_cr [OF fp]] Cons.prems(2) by simp
  finally show ?case by (simp add: render_field_def [of f])
qed

text \<open>The conditions on the fields, on their texts.\<close>

definition fields_named :: "bytes \<Rightarrow> (bytes \<times> bytes) list \<Rightarrow> bytes list" where
  "fields_named n fs = map snd (filter (\<lambda>f. equals_ignore_case (fst f) n) fs)"

lemma fields_named_texts:
  "fields_named n (map field_texts hs) = map (\<lambda>h. view_text (hv_value h)) (named n hs)"
  by (induction hs) (auto simp: fields_named_def field_texts_def)

lemma split_target_path:
  assumes "\<forall>c \<in> set (view_text t). is_valid_target_byte c" and "CHR ''?'' \<notin> set (view_text t)"
    and "path_is_canonical (view_text t)"
  shows "split_target root t = Inr \<lparr>tp_path = t, tp_query = null_view, tp_authority = null_view\<rparr>"
proof -
  have "starts_with_char (view_text t) (CHR ''/'')"
    using assms(3) by (auto simp: path_is_canonical_def starts_with_char_def split: if_splits)
  moreover have "find_char (CHR ''?'') (view_text t) = None" using assms(2) by (simp add: find_char_None_iff)
  ultimately show ?thesis using assms(1)
    by (auto simp: split_target_def split_authority_def starts_with_char_def)
qed

lemma target_no_cr: "is_valid_target_byte c \<Longrightarrow> c \<noteq> CHR 0x0D \<and> c \<noteq> CHR '' ''"
  by (auto simp: valid_target_byte_iff byte_def)

lemma method_name_no_cr: "m \<in> set kAllMethods \<Longrightarrow> CHR 0x0D \<notin> set (method_name m) \<and> \<not> starts_with (method_name m @ s) kCrlf"
  by (auto simp: kAllMethods_def method_name_def method_defs kCrlf_def starts_with_def)

abbreviation rendered_line :: "http_method \<Rightarrow> bytes \<Rightarrow> bytes" where
  "rendered_line m t \<equiv> method_name m @ '' '' @ t @ '' '' @ kHttpVersion11"

lemma rendered_line_parsed:
  assumes "m \<in> set kAllMethods" "\<forall>c \<in> set t. is_valid_target_byte c" "t \<noteq> []"
    and "view_text buf = rendered_line m t @ z"
  shows "parse_request_line (slice (view_from buf 0) 0 (length (rendered_line m t))) =
    Inr \<lparr>rl_method = m, rl_target = \<lparr>view_data = view_data buf + length (method_name m) + 1, view_text = t\<rparr>,
         rl_is_version_11 = True\<rparr>"
proof -
  let ?l = "rendered_line m t"
  have "view_text (slice (view_from buf 0) 0 (length ?l)) = ?l" by (simp add: assms(4))
  moreover have "CHR '' '' \<notin> set t" using assms(2) target_no_cr by blast
  moreover have "view_data (slice (view_from buf 0) 0 (length ?l)) = view_data buf"
    by (simp add: slice_def view_substr_def view_from_def)
  ultimately show ?thesis
    using parse_request_line_accepts [OF _ assms(1), of _ t kHttpVersion11] assms(3) by presburger
qed

lemma rendered_fields_parsed:
  assumes "\<forall>f \<in> set fs. field_pair_ok f" "length fs \<le> min limit kMaxParsedHeaders"
    and "view_text buf = l @ kCrlf @ concat (map render_field fs) @ z"
  obtains hs where "parse_header_fields (slice (view_from buf 0) (length l + 2) (length (concat (map render_field fs)))) limit [] = Inr hs"
    "map field_texts hs = fs"
proof -
  let ?F = "concat (map render_field fs)"
  have "view_text (slice (view_from buf 0) (length l + 2) (length ?F)) = ?F"
    unfolding view_text_simps assms(3) using drop_two_append [of l kCrlf] by simp
  from parse_header_fields_accepts [OF assms(1) _ this, of "[]" limit] assms(2) that show ?thesis by auto
qed

lemma named_field_texts:
  assumes "map field_texts hs = fs"
  shows "map (\<lambda>h. view_text (hv_value h)) (named n hs) = fields_named n fs" "named n hs = [] \<longleftrightarrow> fields_named n fs = []"
proof -
  show texts: "map (\<lambda>h. view_text (hv_value h)) (named n hs) = fields_named n fs"
    using fields_named_texts [of n hs] assms by simp
  show "named n hs = [] \<longleftrightarrow> fields_named n fs = []" unfolding texts [symmetric] by simp
qed

lemma agreeing_content_length:
  assumes "map field_texts hs = fs" "fields_named ''Transfer-Encoding'' fs = []"
    and "\<forall>v \<in> set (fields_named ''Content-Length'' fs). v = nat_to_dec (length body)"
    and "fields_named ''Content-Length'' fs = [] \<longrightarrow> body = []" "length body < 2 ^ 64" "length body \<le> limit"
  shows "resolve_content_length hs limit = Inr (length body)"
proof -
  have "\<forall>h \<in> set (named ''Content-Length'' hs). view_text (hv_value h) = nat_to_dec (length body)"
    using assms(3) named_field_texts(1) [OF assms(1), of "''Content-Length''", symmetric] by simp
  then show ?thesis using assms(2,4,5,6) named_field_texts(2) [OF assms(1)] by (simp add: resolve_content_length_iff)
qed

lemma one_host_resolved:
  assumes "map field_texts hs = fs" "fields_named ''Host'' fs = [h]" "authority_is_well_formed pton6 h"
  obtains host where "resolve_authority pton6 hs null_view True = Inr host" "view_text host = h"
proof -
  obtain hf where "named ''Host'' hs = [hf]" "view_text (hv_value hf) = h"
    using named_field_texts(1) [OF assms(1), of "''Host''"] assms(2) by auto
  with assms(3) that show ?thesis by (simp add: resolve_authority_iff)
qed


section \<open>The request-line limit and the arrival of bytes\<close>

text \<open>C40: the limit on the request line is checked against the bytes before a line end, or against
  everything received when none has arrived; a request line of exactly the permitted length is
  therefore refused when its CR arrives without its LF, and passes the check when the whole head
  arrives at once.\<close>

theorem request_line_limit_depends_on_arrival:
  assumes "l \<noteq> []" and "CHR 0x0D \<notin> set l" and "length l = max_request_line_bytes limits"
    and "length l + 4 \<le> max_header_block_bytes limits"
  shows "head_extent \<lparr>view_data = base, view_text = l @ [CHR 0x0D]\<rparr> limits = Inl TargetTooLong \<and>
         head_extent \<lparr>view_data = base, view_text = l @ kCrlf @ kCrlf @ rest\<rparr> limits = Inr (0, length l, length l)"
proof -
  have "find_str kCrlf (l @ [CHR 0x0D]) = None"
    using assms(2) by (induction l) (auto simp: kCrlf_def starts_with_def)
  moreover have "\<not> starts_with (l @ [CHR 0x0D]) kCrlf" "\<not> starts_with (l @ kCrlf @ kCrlf @ rest) kCrlf"
    using assms(1,2) by (cases l; auto simp: kCrlf_def starts_with_def)+
  ultimately show ?thesis
    unfolding head_extent_Inr
    using assms find_crlf [OF assms(2), of "kCrlf @ rest"] find_terminator_here [OF assms(2), of rest]
    by (simp add: head_extent_def Let_def)
qed

section \<open>Concrete requests\<close>

definition sample_env :: parse_env where
  "sample_env = \<lparr>env_inet_pton6 = (\<lambda>_. False), env_root_path_data = 0, env_arena_data = 64, env_now = 7\<rparr>"

definition sample_limits :: request_limits where
  "sample_limits = \<lparr>max_request_line_bytes = 40, max_header_block_bytes = 80,
     max_header_count = 4, max_target_bytes = 20, max_body_bytes = 10\<rparr>"

definition sample_bytes :: bytes where
  "sample_bytes = ''POST /a?x=%41+b HTTP/1.1'' @ kCrlf @ ''Host: h'' @ kCrlf @
     ''Content-Length: 2'' @ kCrlf @ kCrlf @ ''okGET''"

definition sample_buffer :: view where
  "sample_buffer = \<lparr>view_data = 10, view_text = sample_bytes\<rparr>"

lemma sample_request_parses: "\<exists>pr. parse_request sample_env sample_buffer sample_limits = Inr pr"
proof -
  have "map_sum id pr_consumed_bytes (parse_request sample_env sample_buffer sample_limits) = Inr 58"
    by code_simp
  then show ?thesis by (cases "parse_request sample_env sample_buffer sample_limits") auto
qed

theorem parsed_path_canonical_witness:
  "\<exists>pr segs. parse_request sample_env sample_buffer sample_limits = Inr pr \<and>
     view_text (req_path (pr_request pr)) = CHR ''/'' # join_with ''/'' segs"
  using sample_request_parses parsed_path_canonical by blast

theorem parsed_headers_safe_witness:
  "\<exists>pr. parse_request sample_env sample_buffer sample_limits = Inr pr \<and>
     length (req_headers (pr_request pr)) \<le> 4"
  using sample_request_parses parsed_headers_safe [of sample_env sample_buffer sample_limits]
  by (auto simp: sample_limits_def)

theorem parsed_framing_witness:
  "\<exists>pr. parse_request sample_env sample_buffer sample_limits = Inr pr \<and>
     named ''Transfer-Encoding'' (req_headers (pr_request pr)) = [] \<and>
     pr_consumed_bytes pr = pr_body_offset pr + length (view_text (req_body (pr_request pr)))"
  using sample_request_parses parsed_framing by blast

theorem parsed_limits_witness:
  "\<exists>pr. parse_request sample_env sample_buffer sample_limits = Inr pr \<and> pr_consumed_bytes pr \<le> 92"
  using sample_request_parses parsed_limits [of sample_env sample_buffer sample_limits]
  by (auto simp: sample_limits_def)

theorem parsed_authority_witness:
  "\<exists>pr. parse_request sample_env sample_buffer sample_limits = Inr pr \<and>
     length (named ''Host'' (req_headers (pr_request pr))) \<le> 1"
  using sample_request_parses parsed_authority by (metis length_map)

theorem parsed_query_parameters_witness:
  "\<exists>pr. parse_request sample_env sample_buffer sample_limits = Inr pr \<and>
     length (req_query_parameters (pr_request pr)) \<le> kMaxParsedHeaders"
  using sample_request_parses parsed_query_parameters by blast

definition sample_pieces :: "(view \<times> int) list" where
  "sample_pieces = [(\<lparr>view_data = 10, view_text = take 54 sample_bytes\<rparr>, 1),
     (\<lparr>view_data = 90, view_text = sample_bytes\<rparr>, 2)]"

theorem incremental_parse_equals_one_shot_witness:
  "\<exists>pr pr'. parse_request (sample_env\<lparr>env_now := 9\<rparr>) (fst (last sample_pieces)) sample_limits = Inr pr' \<and>
     feed sample_env sample_limits new_parser sample_pieces = Inr pr \<and> same_parsed pr pr' \<and> pr_consumed_bytes pr' = 58"
proof -
  have "map_sum id pr_consumed_bytes (parse_request (sample_env\<lparr>env_now := 9\<rparr>) (fst (last sample_pieces)) sample_limits) = Inr 58"
    by code_simp
  then obtain pr' where pr': "parse_request (sample_env\<lparr>env_now := 9\<rparr>) (fst (last sample_pieces)) sample_limits = Inr pr'"
    "pr_consumed_bytes pr' = 58"
    by (cases "parse_request (sample_env\<lparr>env_now := 9\<rparr>) (fst (last sample_pieces)) sample_limits") auto
  have pieces: "growing null_view sample_pieces" "sample_pieces \<noteq> []"
    by (simp add: sample_pieces_def, metis append_take_drop_id) (simp add: sample_pieces_def)
  have apart: "\<forall>x \<in> set sample_pieces. literal_apart sample_env (fst x)"
    by (simp add: sample_pieces_def literal_apart_def sample_env_def)
  have uncut: "\<forall>x \<in> set sample_pieces. \<not> cut_at_limit sample_limits (view_text (fst x))" by code_simp
  obtain pr where "feed sample_env sample_limits new_parser sample_pieces = Inr pr" "same_parsed pr pr'"
    using incremental_parse_equals_one_shot [OF pieces apart, of sample_limits 9] pr'(1) uncut by blast
  with pr' show ?thesis by blast
qed


theorem request_line_limit_depends_on_arrival_witness:
  "head_extent \<lparr>view_data = 10, view_text = ''GET / HTTP/1.1'' @ [CHR 0x0D]\<rparr>
     (sample_limits\<lparr>max_request_line_bytes := 14\<rparr>) = Inl TargetTooLong"
  using request_line_limit_depends_on_arrival
    [of "''GET / HTTP/1.1''" "sample_limits\<lparr>max_request_line_bytes := 14\<rparr>" 10 "[]"]
  by (simp add: sample_limits_def)

end
