(* ===== verification/Http_Flat_Map.thy ===== *)
theory Http_Flat_Map
  imports Http_Prelude "HOL-Library.List_Lexorder" "HOL-Library.Char_ord"
begin

text \<open>
  \<open>std::flat_map\<close>, which the response headers, the router's index and the reactor's tables use: a
  sequence of pairs in strictly increasing key order. Strings compare byte by byte as
  \<open>std::less<std::string>\<close> does.
\<close>

type_synonym ('k, 'v) flat_map = "('k \<times> 'v) list"

definition fm_ok :: "('k :: linorder, 'v) flat_map \<Rightarrow> bool" where
  "fm_ok m \<longleftrightarrow> sorted_wrt (<) (map fst m)"

definition fm_find :: "'k \<Rightarrow> ('k, 'v) flat_map \<Rightarrow> 'v option" where
  "fm_find k m = map_of m k"

fun fm_insert_or_assign :: "'k :: linorder \<Rightarrow> 'v \<Rightarrow> ('k, 'v) flat_map \<Rightarrow> ('k, 'v) flat_map" where
  "fm_insert_or_assign k v [] = [(k, v)]"
| "fm_insert_or_assign k v ((k', v') # m) =
     (if k < k' then (k, v) # (k', v') # m
      else if k = k' then (k, v) # m
      else (k', v') # fm_insert_or_assign k v m)"

definition fm_erase :: "'k \<Rightarrow> ('k, 'v) flat_map \<Rightarrow> ('k, 'v) flat_map" where
  "fm_erase k m = filter (\<lambda>kv. fst kv \<noteq> k) m"

lemma fm_keys_insert:
  "fst ` set (fm_insert_or_assign k v m) = insert k (fst ` set m)"
  by (induction k v m rule: fm_insert_or_assign.induct) auto

lemma fm_ok_Nil [simp]: "fm_ok []"
  by (simp add: fm_ok_def)

lemma fm_ok_insert [simp]: "fm_ok m \<Longrightarrow> fm_ok (fm_insert_or_assign k v m)"
proof (induction k v m rule: fm_insert_or_assign.induct)
  case (2 k v k' v' m)
  then show ?case
    using fm_keys_insert [of k v m] by (auto simp: fm_ok_def image_iff)
qed (simp add: fm_ok_def)

lemma fm_ok_erase [simp]: "fm_ok m \<Longrightarrow> fm_ok (fm_erase k m)"
  by (induction m) (auto simp: fm_ok_def fm_erase_def)

lemma fm_find_Nil [simp]: "fm_find k [] = None"
  by (simp add: fm_find_def)

lemma fm_find_insert:
  "fm_ok m \<Longrightarrow> fm_find j (fm_insert_or_assign k v m) = (if j = k then Some v else fm_find j m)"
  by (induction k v m rule: fm_insert_or_assign.induct) (auto simp: fm_ok_def fm_find_def)

lemma fm_find_erase: "fm_find j (fm_erase k m) = (if j = k then None else fm_find j m)"
  by (induction m) (auto simp: fm_erase_def fm_find_def)

lemma fm_ok_distinct: "fm_ok m \<Longrightarrow> distinct (map fst m)"
  by (induction m) (auto simp: fm_ok_def)

lemma fm_set_insert:
  "fm_ok m \<Longrightarrow> set (fm_insert_or_assign k v m) = insert (k, v) {kv \<in> set m. fst kv \<noteq> k}"
  by (induction k v m rule: fm_insert_or_assign.induct) (auto simp: fm_ok_def)

lemma fm_set_erase: "set (fm_erase k m) = {kv \<in> set m. fst kv \<noteq> k}"
  by (simp add: fm_erase_def)

section \<open>The interface of a map\<close>

locale map_store =
  fixes lookup :: "'k \<Rightarrow> 'm \<Rightarrow> 'v option"
    and assign :: "'k \<Rightarrow> 'v \<Rightarrow> 'm \<Rightarrow> 'm"
    and remove :: "'k \<Rightarrow> 'm \<Rightarrow> 'm"
    and invar :: "'m \<Rightarrow> bool"
  assumes lookup_assign: "invar m \<Longrightarrow> lookup j (assign k v m) = (if j = k then Some v else lookup j m)"
    and lookup_remove: "invar m \<Longrightarrow> lookup j (remove k m) = (if j = k then None else lookup j m)"
    and invar_assign: "invar m \<Longrightarrow> invar (assign k v m)"
    and invar_remove: "invar m \<Longrightarrow> invar (remove k m)"
begin

lemma invar_assign_all: "invar m \<Longrightarrow> invar (fold (\<lambda>kv. assign (fst kv) (snd kv)) kvs m)"
  by (induction kvs arbitrary: m) (simp_all add: invar_assign)

text \<open>Of several assignments to one key the last stands.\<close>

lemma lookup_assign_all:
  "invar m \<Longrightarrow> lookup j (fold (\<lambda>kv. assign (fst kv) (snd kv)) kvs m) =
     (case map_of (rev kvs) j of Some v \<Rightarrow> Some v | None \<Rightarrow> lookup j m)"
  by (induction kvs arbitrary: m)
    (auto simp: lookup_assign invar_assign map_add_def split: option.splits)

lemma assign_remove: "invar m \<Longrightarrow> lookup j (remove k (assign k v m)) = lookup j (remove k m)"
  by (simp add: lookup_assign lookup_remove invar_assign)

end

interpretation fm: map_store fm_find fm_insert_or_assign fm_erase fm_ok
  by unfold_locales (simp_all add: fm_find_insert fm_find_erase)

end
