(* ===== verification/Http_Response.thy ===== *)
theory Http_Response
  imports Http_Text_Format Http_Flat_Map Http_Request_Syntax
begin

text \<open>
  \<open>response.cpp\<close> and \<open>response.hpp\<close>: the response a handler builds. The header map is a flat map in
  which no two names are equal up to case; a stream source is known by its identity.
\<close>

datatype response_body = Owned bytes | Borrowed bytes

record response =
  res_status :: status
  res_body :: response_body
  res_headers :: "(bytes, bytes) flat_map"
  res_stream :: "nat option"

definition default_response :: response where
  "default_response = \<lparr>res_status = Status_Ok, res_body = Owned [], res_headers = [], res_stream = None\<rparr>"

definition kMaxLoggedFieldNameBytes :: nat where "kMaxLoggedFieldNameBytes = 64"
definition kMaxLoggedFieldDrops :: "32 word" where "kMaxLoggedFieldDrops = 16"
definition kInvalidNameReason :: bytes where
  "kInvalidNameReason = ''the name is empty or carries a character outside the RFC 9110 token set''"
definition kInvalidValueReason :: bytes where
  "kInvalidValueReason = ''the value carries a control character, which would split the response''"
definition kEmptyLocationReason :: bytes where
  "kEmptyLocationReason =
     ''the redirect target is empty, and an empty Location is one no client can act on''"

definition is_valid_field_name :: "bytes \<Rightarrow> bool" where
  "is_valid_field_name name \<longleftrightarrow>
     (if name = [] then False
      else \<not> (\<exists>c \<in> set name.
        \<not> ((byte (CHR ''a'') \<le> byte c \<and> byte c \<le> byte (CHR ''z'')) \<or>
           (byte (CHR ''A'') \<le> byte c \<and> byte c \<le> byte (CHR ''Z'')) \<or>
           (byte (CHR ''0'') \<le> byte c \<and> byte c \<le> byte (CHR ''9''))) \<and>
        \<not> sv_contains kTokenSpecialCharacters c))"

definition is_valid_field_value :: "bytes \<Rightarrow> bool" where
  "is_valid_field_value val \<longleftrightarrow>
     \<not> (\<exists>c \<in> set val. c \<noteq> CHR 0x09 \<and> (byte c < kSpaceByte \<or> byte c = kDeleteByte))"

text \<open>\<open>log_dropped_field\<close>: the counter's next value and the line it logs, if any.\<close>

definition log_dropped_field :: "bytes \<Rightarrow> bytes \<Rightarrow> 32 word \<Rightarrow> 32 word \<times> bytes option" where
  "log_dropped_field reason name dropped_fields_logged =
     (dropped_fields_logged + 1,
      if dropped_fields_logged \<ge> kMaxLoggedFieldDrops then None
      else Some (''response: dropped the field '' @ [CHR 0x22] @
                 json_escape (take kMaxLoggedFieldNameBytes name) @ [CHR 0x22] @ '': '' @ reason))"

text \<open>\<open>set_header\<close>, and beside it what the same call logs.\<close>

definition set_header :: "bytes \<Rightarrow> bytes \<Rightarrow> response \<Rightarrow> response" where
  "set_header name val r =
     (if \<not> is_valid_field_name name then r
      else if \<not> is_valid_field_value val then r
      else case List.find (\<lambda>existing_name. equals_ignore_case existing_name name) (map fst (res_headers r)) of
        Some canonical_name \<Rightarrow> r\<lparr>res_headers := fm_insert_or_assign canonical_name val (res_headers r)\<rparr>
      | None \<Rightarrow> r\<lparr>res_headers := fm_insert_or_assign name val (res_headers r)\<rparr>)"

definition set_header_log :: "bytes \<Rightarrow> bytes \<Rightarrow> 32 word \<Rightarrow> 32 word \<times> bytes option" where
  "set_header_log name val dropped =
     (if \<not> is_valid_field_name name then log_dropped_field kInvalidNameReason name dropped
      else if \<not> is_valid_field_value val then log_dropped_field kInvalidValueReason name dropped
      else (dropped, None))"

fun find_header_in :: "bytes \<Rightarrow> (bytes, bytes) flat_map \<Rightarrow> bytes option" where
  "find_header_in name [] = None"
| "find_header_in name ((field_name, field_value) # m) =
     (if equals_ignore_case field_name name then Some field_value else find_header_in name m)"

definition find_header :: "bytes \<Rightarrow> response \<Rightarrow> bytes option" where
  "find_header name r = find_header_in name (res_headers r)"

definition response_body_bytes :: "response \<Rightarrow> bytes" where
  "response_body_bytes r = (case res_body r of Owned s \<Rightarrow> s | Borrowed s \<Rightarrow> s)"

definition is_stream :: "response \<Rightarrow> bool" where
  "is_stream r \<longleftrightarrow> res_stream r \<noteq> None"

section \<open>Factories\<close>

definition response_with :: "bytes \<Rightarrow> bytes \<Rightarrow> status \<Rightarrow> response" where
  "response_with content_type body st =
     set_header ''Content-Type'' content_type
       (default_response\<lparr>res_status := st, res_body := Owned body\<rparr>)"

definition response_text :: "bytes \<Rightarrow> status \<Rightarrow> response" where
  "response_text body st = response_with ''text/plain; charset=utf-8'' body st"

definition response_html :: "bytes \<Rightarrow> status \<Rightarrow> response" where
  "response_html body st = response_with ''text/html; charset=utf-8'' body st"

definition response_json :: "bytes \<Rightarrow> status \<Rightarrow> response" where
  "response_json body st = response_with ''application/json'' body st"

definition response_prometheus :: "bytes \<Rightarrow> response" where
  "response_prometheus body = response_with ''text/plain; version=0.0.4; charset=utf-8'' body Status_Ok"

definition response_borrowed :: "bytes \<Rightarrow> bytes \<Rightarrow> status \<Rightarrow> response" where
  "response_borrowed body content_type st =
     (let r = default_response\<lparr>res_status := st, res_body := Borrowed body\<rparr>
      in if content_type \<noteq> [] then set_header ''Content-Type'' content_type r else r)"

definition response_empty :: "status \<Rightarrow> response" where
  "response_empty st = default_response\<lparr>res_status := st\<rparr>"

definition response_redirect :: "bytes \<Rightarrow> status \<Rightarrow> response" where
  "response_redirect location st =
     (let r = default_response\<lparr>res_status := st\<rparr>
      in if location = [] then r else set_header ''Location'' location r)"

text \<open>\<open>Response::stream\<close>: a source, if not null, with the content type it declares.\<close>

definition response_stream :: "(nat \<times> bytes) option \<Rightarrow> response" where
  "response_stream source =
     (case source of
        None \<Rightarrow> default_response
      | Some (src, content_type) \<Rightarrow>
          let r = default_response;
              r = (if content_type \<noteq> [] then set_header ''Content-Type'' content_type r else r);
              r = set_header ''Cache-Control'' ''no-store'' r
          in r\<lparr>res_stream := Some src\<rparr>)"

definition apply_etag_from_body :: "response \<Rightarrow> response" where
  "apply_etag_from_body r =
     (if is_stream r then r else set_header ''ETag'' (weak_etag (response_body_bytes r)) r)"

definition apply_cache_for :: "int \<Rightarrow> response \<Rightarrow> response" where
  "apply_cache_for max_age r =
     set_header ''Cache-Control'' (''max-age='' @ nat_to_dec (nat (max max_age 0))) r"

section \<open>Invariant\<close>

text \<open>The class invariant of the header map.\<close>

definition headers_ok :: "(bytes, bytes) flat_map \<Rightarrow> bool" where
  "headers_ok m \<longleftrightarrow> fm_ok m \<and> distinct (map (fold_case \<circ> fst) m) \<and>
     (\<forall>kv \<in> set m. is_valid_field_name (fst kv) \<and> is_valid_field_value (snd kv))"

lemma is_valid_field_name_iff:
  "is_valid_field_name n \<longleftrightarrow> n \<noteq> [] \<and> (\<forall>c \<in> set n. is_token_character c)"
  by (auto simp: is_valid_field_name_def is_token_character_def)

lemma is_valid_field_value_iff:
  "is_valid_field_value v \<longleftrightarrow> (\<forall>c \<in> set v. is_valid_field_value_byte c)"
  by (auto simp: is_valid_field_value_def is_valid_field_value_byte_def not_less)

lemma distinct_fold_caseI:
  assumes "distinct (map fst m)"
    and "\<And>a b. a \<in> set m \<Longrightarrow> b \<in> set m \<Longrightarrow> fold_case (fst a) = fold_case (fst b) \<Longrightarrow> fst a = fst b"
  shows "distinct (map (fold_case \<circ> fst) m)"
proof -
  have "inj_on fold_case (set (map fst m))" using assms(2) by (auto intro!: inj_onI)
  then have "distinct (map fold_case (map fst m))" using assms(1) by (metis distinct_map)
  then show ?thesis by (simp only: map_map)
qed

lemma headers_ok_names:
  assumes "headers_ok m" and "a \<in> set m" and "b \<in> set m" and "equals_ignore_case (fst a) (fst b)"
  shows "a = b"
  using assms unfolding headers_ok_def distinct_map
  by (auto simp: inj_on_def equals_ignore_case_iff)

lemma headers_ok_insert:
  assumes ok: "headers_ok m" and n: "is_valid_field_name n" and v: "is_valid_field_value v"
    and key: "\<And>a. a \<in> set m \<Longrightarrow> equals_ignore_case (fst a) n \<Longrightarrow> fst a = n"
  shows "headers_ok (fm_insert_or_assign n v m)"
proof -
  have fm: "fm_ok m" using ok by (simp add: headers_ok_def)
  have "distinct (map (fold_case \<circ> fst) (fm_insert_or_assign n v m))"
  proof (rule distinct_fold_caseI)
    show "distinct (map fst (fm_insert_or_assign n v m))" by (rule fm_ok_distinct) (simp add: fm)
    fix a b assume ab: "a \<in> set (fm_insert_or_assign n v m)" "b \<in> set (fm_insert_or_assign n v m)"
      "fold_case (fst a) = fold_case (fst b)"
    then have mem: "a = (n, v) \<or> a \<in> set m" "b = (n, v) \<or> b \<in> set m"
      by (auto simp: fm_set_insert [OF fm])
    show "fst a = fst b"
      using mem ab(3) key headers_ok_names [OF ok] unfolding equals_ignore_case_iff by (metis fst_conv)
  qed
  then show ?thesis
    using ok n v by (auto simp: headers_ok_def fm_set_insert)
qed

lemma find_Some: "List.find P xs = Some x \<Longrightarrow> x \<in> set xs \<and> P x"
  by (metis find_Some_iff nth_mem)

lemma find_None: "List.find P xs = None \<Longrightarrow> x \<in> set xs \<Longrightarrow> \<not> P x"
  by (simp add: find_None_iff)

text \<open>The name under which \<open>set_header\<close> stores.\<close>

definition stored_name :: "bytes \<Rightarrow> (bytes, bytes) flat_map \<Rightarrow> bytes" where
  "stored_name name m =
     (case List.find (\<lambda>k. equals_ignore_case k name) (map fst m) of Some k \<Rightarrow> k | None \<Rightarrow> name)"

lemma set_header_eq:
  "set_header name val r =
     (if is_valid_field_name name \<and> is_valid_field_value val
      then r\<lparr>res_headers := fm_insert_or_assign (stored_name name (res_headers r)) val (res_headers r)\<rparr>
      else r)"
  by (auto simp: set_header_def stored_name_def split: option.splits)

lemma stored_name:
  assumes "headers_ok m" and "is_valid_field_name name"
  shows "is_valid_field_name (stored_name name m)" "fold_case (stored_name name m) = fold_case name"
    and "\<And>a. a \<in> set m \<Longrightarrow> equals_ignore_case (fst a) (stored_name name m) \<Longrightarrow> fst a = stored_name name m"
proof -
  let ?f = "List.find (\<lambda>k. equals_ignore_case k name) (map fst m)"
  show 1: "is_valid_field_name (stored_name name m)" "fold_case (stored_name name m) = fold_case name"
    using assms by (auto simp: stored_name_def headers_ok_def equals_ignore_case_iff
        split: option.splits dest!: find_Some)
  fix a assume a: "a \<in> set m" "equals_ignore_case (fst a) (stored_name name m)"
  show "fst a = stored_name name m"
  proof (cases ?f)
    case None
    then have "\<not> equals_ignore_case (fst a) name" using a(1) find_None [OF None] by simp
    then show ?thesis using a(2) None by (simp add: stored_name_def)
  next
    case (Some k)
    then obtain b where b: "b \<in> set m" "fst b = k" using find_Some [OF Some] by auto
    then have "a = b" using a Some headers_ok_names [OF assms(1) a(1) b(1)] by (simp add: stored_name_def)
    then show ?thesis using b Some by (simp add: stored_name_def)
  qed
qed

lemma set_header_ok: "headers_ok (res_headers r) \<Longrightarrow> headers_ok (res_headers (set_header n v r))"
  using headers_ok_insert stored_name by (simp add: set_header_eq)

lemma find_header_in_Some_iff:
  "headers_ok m \<Longrightarrow> find_header_in n m = Some v \<longleftrightarrow> (\<exists>k. (k, v) \<in> set m \<and> fold_case k = fold_case n)"
proof (induction n m rule: find_header_in.induct)
  case (2 n k w m)
  have ok: "headers_ok m" using 2(2) by (auto simp: headers_ok_def fm_ok_def)
  have "fold_case k \<notin> set (map (fold_case \<circ> fst) m)" using 2(2) by (simp add: headers_ok_def)
  then have ne: "fold_case k' \<noteq> fold_case k" if "(k', v') \<in> set m" for k' v' using that by force
  show ?case
  proof (cases "equals_ignore_case k n")
    case True
    then have "\<not> (\<exists>k'. (k', v) \<in> set m \<and> fold_case k' = fold_case n)"
      using ne by (auto simp: equals_ignore_case_iff)
    then show ?thesis using True by (auto simp: equals_ignore_case_iff)
  next
    case False
    then show ?thesis using 2(1) [OF False ok] by (auto simp: equals_ignore_case_iff)
  qed
qed simp

lemma find_header_in_eq:
  assumes "headers_ok m" and "headers_ok m'"
    and "\<And>v. (\<exists>k. (k, v) \<in> set m \<and> fold_case k = fold_case n) \<longleftrightarrow> (\<exists>k. (k, v) \<in> set m' \<and> fold_case k = fold_case n')"
  shows "find_header_in n m = find_header_in n' m'"
proof -
  have "find_header_in n m = Some v \<longleftrightarrow> find_header_in n' m' = Some v" for v
    using find_header_in_Some_iff [OF assms(1)] find_header_in_Some_iff [OF assms(2)] assms(3) by simp
  then show ?thesis by (metis option.exhaust)
qed

lemma find_header_set_header:
  assumes "headers_ok (res_headers r)" and "is_valid_field_name n" and "is_valid_field_value v"
  shows "find_header j (set_header n v r) =
    (if equals_ignore_case j n then Some v else find_header j r)"
proof -
  let ?s = "stored_name n (res_headers r)"
  let ?m = "fm_insert_or_assign ?s v (res_headers r)"
  note sn = stored_name [OF assms(1,2)]
  have fm: "fm_ok (res_headers r)" using assms(1) by (simp add: headers_ok_def)
  have ok: "headers_ok ?m" using set_header_ok [OF assms(1), of n v] assms(2,3) by (simp add: set_header_eq)
  have "find_header_in j ?m = (if equals_ignore_case j n then Some v else find_header_in j (res_headers r))"
  proof (cases "equals_ignore_case j n")
    case True
    then have "\<exists>k. (k, v) \<in> set ?m \<and> fold_case k = fold_case j"
      using sn(2) by (auto simp: fm_set_insert [OF fm] equals_ignore_case_iff intro: exI [of _ ?s])
    then show ?thesis using True find_header_in_Some_iff [OF ok] by simp
  next
    case False
    then have ne: "fold_case ?s \<noteq> fold_case j" using sn(2) by (auto simp: equals_ignore_case_iff)
    have "find_header_in j ?m = find_header_in j (res_headers r)"
    proof (rule find_header_in_eq [OF ok assms(1)])
      fix w show "(\<exists>k. (k, w) \<in> set ?m \<and> fold_case k = fold_case j) \<longleftrightarrow>
          (\<exists>k. (k, w) \<in> set (res_headers r) \<and> fold_case k = fold_case j)"
        using ne by (auto simp: fm_set_insert [OF fm])
    qed
    then show ?thesis using False by simp
  qed
  then show ?thesis using assms(2,3) by (simp add: find_header_def set_header_eq)
qed

section \<open>Responses a handler can build\<close>

inductive built :: "response \<Rightarrow> bool" where
  built_default: "built default_response"
| built_text: "built (response_text body st)"
| built_html: "built (response_html body st)"
| built_json: "built (response_json body st)"
| prometheus: "built (response_prometheus body)"
| borrowed: "built (response_borrowed body content_type st)"
| empty: "built (response_empty st)"
| redirect: "built (response_redirect location st)"
| stream: "built (response_stream source)"
| built_header: "built r \<Longrightarrow> built (set_header name val r)"
| etag_from_body: "built r \<Longrightarrow> built (apply_etag_from_body r)"
| cache_for: "built r \<Longrightarrow> built (apply_cache_for max_age r)"

lemma default_headers_ok [simp]: "headers_ok []"
  by (simp add: headers_ok_def)

lemma default_response_headers [simp]: "res_headers default_response = []"
  by (simp add: default_response_def)

lemma factory_headers_ok:
  "headers_ok (res_headers (response_with ct body st))"
  "headers_ok (res_headers (response_borrowed body ct st))"
  "headers_ok (res_headers (response_empty st))"
  "headers_ok (res_headers (response_redirect location st))"
  "headers_ok (res_headers (response_stream source))"
  by (auto simp: response_with_def response_borrowed_def response_empty_def response_redirect_def
      response_stream_def Let_def set_header_ok split: option.splits)

lemma built_ok: "built r \<Longrightarrow> headers_ok (res_headers r)"
  by (induction rule: built.induct)
    (simp_all add: response_text_def response_html_def response_json_def response_prometheus_def
      factory_headers_ok set_header_ok apply_etag_from_body_def apply_cache_for_def)

text \<open>Whatever a handler does with a response, its header map keeps its invariant: keys in strictly
  increasing order, no two names equal up to case, every name a token, no value with a control byte.\<close>

theorem response_headers_invariant:
  assumes "built r"
  shows "fm_ok (res_headers r) \<and> distinct (map (fold_case \<circ> fst) (res_headers r)) \<and>
    (\<forall>kv \<in> set (res_headers r). fst kv \<noteq> [] \<and> (\<forall>c \<in> set (fst kv). is_token_character c) \<and>
       (\<forall>c \<in> set (snd kv). c \<noteq> CHR 0x0D \<and> c \<noteq> CHR 0x0A \<and> c \<noteq> CHR 0x00))"
  using built_ok [OF assms] value_byte_not_cr
  unfolding headers_ok_def is_valid_field_name_iff is_valid_field_value_iff by metis

theorem response_headers_invariant_witness:
  "fm_ok (res_headers (set_header ''X'' ''1'' (response_text ''hi'' Status_Ok)))"
  using response_headers_invariant [OF built_header [OF built_text]] by blast

text \<open>Setting a header replaces the value under every spelling of its name and leaves every other
  header alone; a name that is not a token or a value with a control byte changes nothing.\<close>

theorem set_header_lookup:
  assumes "built r"
  shows "find_header j (set_header n v r) =
    (if is_valid_field_name n \<and> is_valid_field_value v \<and> equals_ignore_case j n then Some v
     else find_header j r)"
  using find_header_set_header [OF built_ok [OF assms]] by (auto simp: set_header_eq)

theorem set_header_lookup_witness:
  "find_header ''x'' (set_header ''X'' ''1'' default_response) = Some ''1''"
proof -
  have "is_valid_field_name ''X''" "is_valid_field_value ''1''" "equals_ignore_case ''x'' ''X''"
    by code_simp+
  then show ?thesis using set_header_lookup [OF built_default, of "''x''" "''X''" "''1''"] by simp
qed

end
