(* ===== verification/Http_Encoder.thy ===== *)
theory Http_Encoder
  imports Http_Response Http_Request_Properties Http_Buffer
begin

text \<open>
  \<open>compress.cpp\<close>, \<open>conditional_request.cpp\<close> and \<open>response_encoder.cpp\<close>: which responses vary on
  Accept-Encoding, conditional requests, and the one function that frames a response. The encoder
  writes into the connection's head buffer of \<open>Http_Buffer\<close>. zlib is a parameter: \<open>deflate_gzip\<close> is
  what initialising a stream and finishing it in one call yields, \<open>None\<close> when zlib reports failure.
\<close>

section \<open>Compression\<close>

record compress_env =
  zlib_enabled :: bool
  deflate_gzip :: "bytes \<Rightarrow> bytes option"

definition kMinimumCompressibleBodyBytes :: nat where "kMinimumCompressibleBodyBytes = 1024"
definition kMaximumCompressibleBodyBytes :: nat where "kMaximumCompressibleBodyBytes = 8388608"
definition kCompressibleMediaTypeSuffixes :: "bytes list" where
  "kCompressibleMediaTypeSuffixes = [''+json'', ''+xml'']"
definition kCompressibleMediaTypes :: "bytes list" where
  "kCompressibleMediaTypes =
     [''application/json'', ''application/javascript'', ''application/x-javascript'', ''application/xml'']"

definition starts_with_ignore_case :: "bytes \<Rightarrow> bytes \<Rightarrow> bool" where
  "starts_with_ignore_case t prefix \<longleftrightarrow>
     length t \<ge> length prefix \<and> equals_ignore_case (take (length prefix) t) prefix"

definition ends_with_ignore_case :: "bytes \<Rightarrow> bytes \<Rightarrow> bool" where
  "ends_with_ignore_case t suf \<longleftrightarrow>
     length t \<ge> length suf \<and> equals_ignore_case (drop (length t - length suf) t) suf"

definition media_type_of :: "bytes \<Rightarrow> bytes" where
  "media_type_of content_type = trim_optional_whitespace
     (case find_char (CHR '';'') content_type of None \<Rightarrow> content_type | Some i \<Rightarrow> take i content_type)"

definition media_type_is_compressible :: "bytes \<Rightarrow> bool" where
  "media_type_is_compressible content_type \<longleftrightarrow>
     (let media_type = media_type_of content_type in
      if media_type = [] then False
      else if starts_with_ignore_case media_type ''text/'' then True
      else if \<exists>suf \<in> set kCompressibleMediaTypeSuffixes. ends_with_ignore_case media_type suf then True
      else \<exists>candidate \<in> set kCompressibleMediaTypes. equals_ignore_case media_type candidate)"

definition response_varies_on_accept_encoding :: "compress_env \<Rightarrow> bytes \<Rightarrow> bytes \<Rightarrow> nat \<Rightarrow> bool" where
  "response_varies_on_accept_encoding cenv content_type content_encoding body_bytes \<longleftrightarrow>
     (if \<not> zlib_enabled cenv then False
      else if content_encoding \<noteq> [] then False
      else if body_bytes < kMinimumCompressibleBodyBytes \<or> body_bytes > kMaximumCompressibleBodyBytes
      then False
      else media_type_is_compressible content_type)"

text \<open>\<open>gzip_compress\<close>: whether it succeeded, and what it leaves in \<open>out\<close>.\<close>

definition gzip_compress :: "compress_env \<Rightarrow> bytes \<Rightarrow> bool \<times> bytes" where
  "gzip_compress cenv body =
     (if \<not> zlib_enabled cenv then (False, [])
      else if length body < kMinimumCompressibleBodyBytes \<or> length body > kMaximumCompressibleBodyBytes
      then (False, [])
      else case deflate_gzip cenv body of
        None \<Rightarrow> (False, [])
      | Some out \<Rightarrow> if length out \<ge> length body then (False, []) else (True, out))"

section \<open>Conditional requests\<close>

definition without_weak_marker :: "bytes \<Rightarrow> bytes" where
  "without_weak_marker tag = (if starts_with tag ''W/'' then drop 2 tag else tag)"

text \<open>The loop of \<open>if_none_match_matches\<close>; \<open>rest\<close> is the field from \<open>cursor\<close> on.\<close>

function if_none_match_loop :: "bytes \<Rightarrow> bytes \<Rightarrow> bool" where
  "if_none_match_loop wanted rest =
     (let comma = find_char (CHR '','') rest;
          candidate = trim_optional_whitespace (case comma of None \<Rightarrow> rest | Some i \<Rightarrow> take i rest)
      in if candidate = ''*'' \<or> (candidate \<noteq> [] \<and> without_weak_marker candidate = wanted) then True
         else case comma of None \<Rightarrow> False | Some i \<Rightarrow> if_none_match_loop wanted (drop (i + 1) rest))"
  by pat_completeness auto
termination
  by (relation "measure (\<lambda>(_, rest). length rest)") (auto dest!: find_char_less [OF sym])

declare if_none_match_loop.simps [simp del]

definition if_none_match_matches :: "bytes \<Rightarrow> bytes \<Rightarrow> bool" where
  "if_none_match_matches field etag \<longleftrightarrow>
     (if etag = [] then False else if_none_match_loop (without_weak_marker etag) field)"

lemma if_none_match_loop_iff:
  "if_none_match_loop wanted rest \<longleftrightarrow>
     (\<exists>p \<in> set (split_on (CHR '','') rest). trim_optional_whitespace p = ''*'' \<or>
        trim_optional_whitespace p \<noteq> [] \<and> without_weak_marker (trim_optional_whitespace p) = wanted)"
proof (induction wanted rest rule: if_none_match_loop.induct)
  case (1 wanted rest)
  show ?case
  proof (cases "find_char (CHR '','') rest")
    case None
    then show ?thesis by (simp add: if_none_match_loop.simps [of wanted rest] split_on_None Let_def)
  next
    case (Some i)
    then show ?thesis using 1 [OF refl refl, unfolded Some]
      by (auto simp: if_none_match_loop.simps [of wanted rest] split_on_Some Let_def)
  qed
qed

section \<open>Encoding\<close>

definition kHtmlContentSecurityPolicy :: bytes where
  "kHtmlContentSecurityPolicy =
     ''default-src '' @ [CHR 0x27] @ ''self'' @ [CHR 0x27] @ ''; style-src '' @ [CHR 0x27] @
     ''unsafe-inline'' @ [CHR 0x27] @ ''; base-uri '' @ [CHR 0x27] @ ''none'' @ [CHR 0x27] @
     ''; frame-ancestors '' @ [CHR 0x27] @ ''none'' @ [CHR 0x27] @ ''; form-action '' @ [CHR 0x27] @
     ''none'' @ [CHR 0x27] @ ''; object-src '' @ [CHR 0x27] @ ''none'' @ [CHR 0x27]"

definition has_control_character :: "bytes \<Rightarrow> bool" where
  "has_control_character val \<longleftrightarrow> (\<exists>c \<in> set val. byte c < 0x20 \<or> byte c = 0x7F)"

definition append_number :: "nat \<Rightarrow> buffer \<Rightarrow> buffer" where
  "append_number n b = append (nat_to_dec n) b"

definition append_field :: "bytes \<Rightarrow> bytes \<Rightarrow> buffer \<Rightarrow> buffer" where
  "append_field name val b = append kCrlf (append val (append '': '' (append name b)))"

definition is_framing_field :: "bytes \<Rightarrow> bool" where
  "is_framing_field name \<longleftrightarrow> equals_ignore_case name ''Content-Length'' \<or>
     equals_ignore_case name ''Connection'' \<or> equals_ignore_case name ''Transfer-Encoding''"

function list_names :: "bytes \<Rightarrow> bytes \<Rightarrow> bool" where
  "list_names val member =
     (if val = [] then False
      else let comma = find_char (CHR '','') val;
               entry = trim_optional_whitespace (case comma of None \<Rightarrow> val | Some i \<Rightarrow> take i val)
           in if equals_ignore_case entry member then True
              else case comma of None \<Rightarrow> False | Some i \<Rightarrow> list_names (drop (i + 1) val) member)"
  by pat_completeness auto
termination
  by (relation "measure (\<lambda>(val, _). length val)") auto

declare list_names.simps [simp del]

text \<open>\<open>append_accept_encoding_vary\<close>: the parts it hands to its append function, in order.\<close>

definition accept_encoding_vary_parts :: "bytes \<Rightarrow> bytes list" where
  "accept_encoding_vary_parts declared =
     (if declared = [] then [''Accept-Encoding'']
      else declared # (if \<not> list_names declared ''Accept-Encoding''
                       then ['', '', ''Accept-Encoding''] else []))"

definition value_or :: "'a option \<Rightarrow> 'a \<Rightarrow> 'a" where
  "value_or x d = (case x of None \<Rightarrow> d | Some v \<Rightarrow> v)"

definition kPreservedFields :: "bytes list" where
  "kPreservedFields = [''Cache-Control'', ''Content-Location'', ''Date'', ''ETag'', ''Expires'']"

definition not_modified_from :: "compress_env \<Rightarrow> response \<Rightarrow> response" where
  "not_modified_from cenv source =
     (let not_modified = fold (\<lambda>field r. case find_header field source of
                Some v \<Rightarrow> set_header field v r | None \<Rightarrow> r) kPreservedFields (response_empty Status_NotModified);
          declared_vary = find_header ''Vary'' source
      in if response_varies_on_accept_encoding cenv (value_or (find_header ''Content-Type'' source) [])
              (value_or (find_header ''Content-Encoding'' source) []) (length (response_body_bytes source))
         then set_header ''Vary'' (concat (accept_encoding_vary_parts (value_or declared_vary []))) not_modified
         else case declared_vary of
             Some v \<Rightarrow> set_header ''Vary'' v not_modified
           | None \<Rightarrow> not_modified)"

definition apply_conditional_request :: "compress_env \<Rightarrow> request \<Rightarrow> response \<Rightarrow> response" where
  "apply_conditional_request cenv req res =
     (if \<not> (req_method req = Method_Get \<or> req_method req = Method_Head) \<or>
         res_status res \<noteq> Status_Ok \<or> is_stream res then res
      else case (find_header ''ETag'' res, header req ''If-None-Match'') of
          (Some etag, Some condition) \<Rightarrow>
            if etag \<noteq> [] \<and> if_none_match_matches (view_text condition) etag
            then not_modified_from cenv res else res
        | _ \<Rightarrow> res)"

record encoding_options =
  server_header :: bytes
  opt_keep_alive :: bool
  opt_secure :: bool
  strict_transport_security :: bool
  hsts_max_age_seconds :: nat

record encoded_response =
  enc_body :: bytes
  suppress_body :: bool

text \<open>The appends of \<open>encode_response\<close> that stand under a condition.\<close>

definition append_field_if :: "bool \<Rightarrow> bytes \<Rightarrow> bytes \<Rightarrow> buffer \<Rightarrow> buffer" where
  "append_field_if c name val head = (if c then append_field name val head else head)"

definition append_field_unless_set :: "response \<Rightarrow> bytes \<Rightarrow> bytes \<Rightarrow> buffer \<Rightarrow> buffer" where
  "append_field_unless_set res name val head = append_field_if (find_header name res = None) name val head"

definition append_response_fields :: "bool \<Rightarrow> response \<Rightarrow> buffer \<Rightarrow> buffer" where
  "append_response_fields varies res head =
     fold (\<lambda>(name, val) head.
        if is_framing_field name then head
        else if varies \<and> equals_ignore_case name ''Vary'' then head
        else append_field name val head) (res_headers res) head"

definition append_vary :: "bool \<Rightarrow> response \<Rightarrow> buffer \<Rightarrow> buffer" where
  "append_vary varies res head =
     (if varies
      then append kCrlf (fold append
             (accept_encoding_vary_parts (value_or (find_header ''Vary'' res) []))
             (append '': '' (append ''Vary'' head)))
      else head)"

definition append_server :: "encoding_options \<Rightarrow> response \<Rightarrow> buffer \<Rightarrow> buffer" where
  "append_server options res head =
     append_field_if (server_header options \<noteq> [] \<and> \<not> has_control_character (server_header options) \<and>
       find_header ''Server'' res = None) ''Server'' (server_header options) head"

definition append_framing :: "bool \<Rightarrow> status \<Rightarrow> bool \<Rightarrow> nat \<Rightarrow> buffer \<Rightarrow> buffer" where
  "append_framing streaming st keep_alive body_size head =
     (let connection = (if keep_alive then ''keep-alive'' else ''close'') in
      if streaming then append_field ''Connection'' ''close'' head
      else if is_bodiless st then append_field ''Connection'' connection head
      else append_field ''Connection'' connection
             (append kCrlf (append_number body_size
               (append '': '' (append ''Content-Length'' head)))))"

definition encode_response ::
  "compress_env \<Rightarrow> int \<Rightarrow> request \<Rightarrow> response \<Rightarrow> encoding_options \<Rightarrow> buffer \<Rightarrow> bytes \<Rightarrow>
     encoded_response \<times> buffer \<times> bytes" where
  "encode_response cenv now req res options head compressed_body =
     (let st = res_status res;
          streaming = is_stream res;
          handler_body = (if streaming then [] else response_body_bytes res);
          content_type = value_or (find_header ''Content-Type'' res) [];
          content_encoding = value_or (find_header ''Content-Encoding'' res) [];
          varies = (\<not> is_bodiless st \<and>
            response_varies_on_accept_encoding cenv content_type content_encoding (length handler_body));
          gz = (if varies \<and> req_wants_gzip req then gzip_compress cenv handler_body
                else (False, compressed_body));
          body = (if fst gz then snd gz else handler_body);
          suppress = (streaming \<or> req_method req = Method_Head \<or> is_bodiless st);
          head = clear head;
          head = append ''HTTP/1.1 '' head;
          head = append_number (status_code st) head;
          head = append '' '' head;
          head = append (reason_phrase st) head;
          head = append kCrlf head;
          head = append_response_fields varies res head;
          head = append_field_if (fst gz) ''Content-Encoding'' ''gzip'' head;
          head = append_vary varies res head;
          head = append_field_unless_set res ''Date'' (http_date now) head;
          head = append_server options res head;
          head = append_field_unless_set res ''Cache-Control'' ''no-store'' head;
          head = append_field_unless_set res ''X-Content-Type-Options'' ''nosniff'' head;
          head = append_field_unless_set res ''Referrer-Policy'' ''no-referrer'' head;
          head = append_field_if (starts_with content_type ''text/html'' \<and>
                   find_header ''Content-Security-Policy'' res = None)
                   ''Content-Security-Policy'' kHtmlContentSecurityPolicy head;
          head = append_field_if (opt_secure options \<and> strict_transport_security options \<and>
                   find_header ''Strict-Transport-Security'' res = None)
                   ''Strict-Transport-Security'' (''max-age='' @ nat_to_dec (hsts_max_age_seconds options)) head;
          head = append_framing streaming st (opt_keep_alive options) (length body) head;
          head = append kCrlf head
      in (\<lparr>enc_body = body, suppress_body = suppress\<rparr>, head, snd gz))"

section \<open>The head as text\<close>

lemmas buffer_text = append_ok

lemma append_field_text:
  assumes "buffer_ok b"
  shows "buffer_ok (append_field n v b)" and "readable (append_field n v b) = readable b @ render_field (n, v)"
  using assms by (simp_all add: append_field_def buffer_text render_field_def)

lemma append_field_if_text:
  assumes "buffer_ok b"
  shows "buffer_ok (append_field_if c n v b)"
    and "readable (append_field_if c n v b) = readable b @ concat (map render_field (if c then [(n, v)] else []))"
  using assms by (simp_all add: append_field_if_def append_field_text)

definition passed_through :: "bool \<Rightarrow> bytes \<times> bytes \<Rightarrow> bool" where
  "passed_through varies f \<longleftrightarrow>
     \<not> is_framing_field (fst f) \<and> \<not> (varies \<and> equals_ignore_case (fst f) ''Vary'')"

lemma append_response_fields_text:
  assumes "buffer_ok b"
  shows "buffer_ok (append_response_fields varies res b) \<and>
    readable (append_response_fields varies res b) =
      readable b @ concat (map render_field (filter (passed_through varies) (res_headers res)))"
proof -
  have "buffer_ok (fold (\<lambda>(name, val) head.
        if is_framing_field name then head
        else if varies \<and> equals_ignore_case name ''Vary'' then head
        else append_field name val head) hs b) \<and>
    readable (fold (\<lambda>(name, val) head.
        if is_framing_field name then head
        else if varies \<and> equals_ignore_case name ''Vary'' then head
        else append_field name val head) hs b) =
      readable b @ concat (map render_field (filter (passed_through varies) hs))" for hs
    using assms
  proof (induction hs arbitrary: b)
    case (Cons f hs)
    then show ?case
      by (cases f; cases "passed_through varies f") (auto simp: passed_through_def append_field_text)
  qed simp
  then show ?thesis by (simp add: append_response_fields_def)
qed

definition merged_vary :: "response \<Rightarrow> bytes" where
  "merged_vary res = concat (accept_encoding_vary_parts (value_or (find_header ''Vary'' res) []))"

lemma append_vary_text:
  assumes "buffer_ok b"
  shows "buffer_ok (append_vary varies res b)"
    and "readable (append_vary varies res b) =
      readable b @ concat (map render_field (if varies then [(''Vary'', merged_vary res)] else []))"
  using assms buf.put_many [of "append '': '' (append ''Vary'' b)"]
  by (simp_all add: append_vary_def buffer_text render_field_def merged_vary_def)

lemma append_framing_text:
  assumes "buffer_ok b"
  shows "buffer_ok (append_framing str st ka n b)"
    and "readable (append_framing str st ka n b) = readable b @
      concat (map render_field (if \<not> str \<and> \<not> is_bodiless st then [(''Content-Length'', nat_to_dec n)] else [])) @
      render_field (''Connection'', if \<not> str \<and> ka then ''keep-alive'' else ''close'')"
  using assms
  by (simp_all add: append_framing_def append_field_text buffer_text append_number_def
      render_field_def Let_def)

lemmas head_texts = buffer_text append_field_if_text append_response_fields_text append_vary_text
  append_framing_text clear_ok

text \<open>The decisions of the encoder, and the fields it writes, in order.\<close>

definition enc_handler_body :: "response \<Rightarrow> bytes" where
  "enc_handler_body res = (if is_stream res then [] else response_body_bytes res)"

definition enc_varies :: "compress_env \<Rightarrow> response \<Rightarrow> bool" where
  "enc_varies cenv res \<longleftrightarrow> \<not> is_bodiless (res_status res) \<and>
     response_varies_on_accept_encoding cenv (value_or (find_header ''Content-Type'' res) [])
       (value_or (find_header ''Content-Encoding'' res) []) (length (enc_handler_body res))"

definition enc_compressed :: "compress_env \<Rightarrow> request \<Rightarrow> response \<Rightarrow> bool" where
  "enc_compressed cenv req res \<longleftrightarrow> enc_varies cenv res \<and> req_wants_gzip req \<and>
     fst (gzip_compress cenv (enc_handler_body res))"

definition enc_final_body :: "compress_env \<Rightarrow> request \<Rightarrow> response \<Rightarrow> bytes" where
  "enc_final_body cenv req res =
     (if enc_compressed cenv req res then snd (gzip_compress cenv (enc_handler_body res))
      else enc_handler_body res)"

text \<open>A list of fields, each with the condition under which it is written.\<close>

definition guarded :: "(bool \<times> 'a) list \<Rightarrow> 'a list" where
  "guarded xs = map snd (filter fst xs)"

lemma guarded_Nil: "guarded [] = []"
  by (simp add: guarded_def)

lemma concat_guarded:
  "concat (map r (guarded ((c, x) # xs))) = concat (map r (if c then [x] else [])) @ concat (map r (guarded xs))"
  by (simp add: guarded_def)

lemma set_guarded: "set (guarded xs) = {x. (True, x) \<in> set xs}"
  by (force simp: guarded_def)

definition encoder_fields ::
  "compress_env \<Rightarrow> int \<Rightarrow> request \<Rightarrow> response \<Rightarrow> encoding_options \<Rightarrow> (bool \<times> bytes \<times> bytes) list" where
  "encoder_fields cenv now req res options =
     [(enc_compressed cenv req res, ''Content-Encoding'', ''gzip''),
      (enc_varies cenv res, ''Vary'', merged_vary res),
      (find_header ''Date'' res = None, ''Date'', http_date now),
      (server_header options \<noteq> [] \<and> \<not> has_control_character (server_header options) \<and>
         find_header ''Server'' res = None, ''Server'', server_header options),
      (find_header ''Cache-Control'' res = None, ''Cache-Control'', ''no-store''),
      (find_header ''X-Content-Type-Options'' res = None, ''X-Content-Type-Options'', ''nosniff''),
      (find_header ''Referrer-Policy'' res = None, ''Referrer-Policy'', ''no-referrer''),
      (starts_with (value_or (find_header ''Content-Type'' res) []) ''text/html'' \<and>
         find_header ''Content-Security-Policy'' res = None, ''Content-Security-Policy'', kHtmlContentSecurityPolicy),
      (opt_secure options \<and> strict_transport_security options \<and> find_header ''Strict-Transport-Security'' res = None,
         ''Strict-Transport-Security'', ''max-age='' @ nat_to_dec (hsts_max_age_seconds options)),
      (\<not> is_stream res \<and> \<not> is_bodiless (res_status res), ''Content-Length'',
         nat_to_dec (length (enc_final_body cenv req res))),
      (True, ''Connection'', if \<not> is_stream res \<and> opt_keep_alive options then ''keep-alive'' else ''close'')]"

definition response_fields ::
  "compress_env \<Rightarrow> int \<Rightarrow> request \<Rightarrow> response \<Rightarrow> encoding_options \<Rightarrow> (bytes \<times> bytes) list" where
  "response_fields cenv now req res options =
     filter (passed_through (enc_varies cenv res)) (res_headers res) @
     guarded (encoder_fields cenv now req res options)"

definition status_line :: "status \<Rightarrow> bytes" where
  "status_line st = ''HTTP/1.1 '' @ nat_to_dec (status_code st) @ '' '' @ reason_phrase st"

lemma encode_response_head:
  assumes "buffer_ok head"
  shows "encode_response cenv now req res options head cb =
      (\<lparr>enc_body = enc_final_body cenv req res,
        suppress_body = (is_stream res \<or> req_method req = Method_Head \<or> is_bodiless (res_status res))\<rparr>,
       fst (snd (encode_response cenv now req res options head cb)),
       snd (snd (encode_response cenv now req res options head cb)))"
    and "buffer_ok (fst (snd (encode_response cenv now req res options head cb)))"
    and "readable (fst (snd (encode_response cenv now req res options head cb))) =
      status_line (res_status res) @ kCrlf @
      concat (map render_field (response_fields cenv now req res options)) @ kCrlf"
proof -
  let ?gz = "if enc_varies cenv res \<and> req_wants_gzip req then gzip_compress cenv (enc_handler_body res)
    else (False, cb)"
  have gz: "fst ?gz = enc_compressed cenv req res"
    "(if enc_compressed cenv req res then snd ?gz else enc_handler_body res) = enc_final_body cenv req res"
    by (auto simp: enc_compressed_def enc_final_body_def)
  note enc = encode_response_def [of cenv now req res options head cb, unfolded Let_def,
      folded enc_handler_body_def, folded enc_varies_def, unfolded gz]
  show "encode_response cenv now req res options head cb =
      (\<lparr>enc_body = enc_final_body cenv req res,
        suppress_body = (is_stream res \<or> req_method req = Method_Head \<or> is_bodiless (res_status res))\<rparr>,
       fst (snd (encode_response cenv now req res options head cb)),
       snd (snd (encode_response cenv now req res options head cb)))"
    unfolding enc by simp
  show "buffer_ok (fst (snd (encode_response cenv now req res options head cb)))"
    unfolding enc
    by (simp add: head_texts append_field_unless_set_def append_server_def append_number_def)
  show "readable (fst (snd (encode_response cenv now req res options head cb))) =
      status_line (res_status res) @ kCrlf @
      concat (map render_field (response_fields cenv now req res options)) @ kCrlf"
    unfolding enc
    by (simp add: head_texts append_field_unless_set_def append_server_def append_number_def
        status_line_def response_fields_def encoder_fields_def concat_guarded guarded_Nil)
qed

section \<open>No response splitting\<close>

lemma printable_value_byte: "0x20 \<le> byte c \<Longrightarrow> byte c < 0x7F \<Longrightarrow> is_valid_field_value_byte c"
  by (simp add: is_valid_field_value_byte_def kSpaceByte_def kDeleteByte_def)

lemma nat_to_dec_value_bytes: "c \<in> set (nat_to_dec n) \<Longrightarrow> is_valid_field_value_byte c"
  using nat_to_dec_digits [of n] by (auto simp: is_decimal_digit_def intro!: printable_value_byte)

lemma list_names_suffix_free: "c \<in> set (merged_vary res) \<Longrightarrow>
    c \<in> set (value_or (find_header ''Vary'' res) []) \<or> c \<in> set '', Accept-Encoding''"
  by (auto simp: merged_vary_def accept_encoding_vary_parts_def split: if_splits)

lemma header_value_valid:
  "headers_ok m \<Longrightarrow> find_header_in n m = Some v \<Longrightarrow> \<forall>c \<in> set v. is_valid_field_value_byte c"
  using find_header_in_Some_iff [of m n v] by (auto simp: headers_ok_def is_valid_field_value_iff)

lemma literal_fields_safe:
  "list_all field_line_safe [(''Content-Encoding'', ''gzip''), (''Cache-Control'', ''no-store''),
     (''X-Content-Type-Options'', ''nosniff''), (''Referrer-Policy'', ''no-referrer''),
     (''Content-Security-Policy'', kHtmlContentSecurityPolicy), (''Connection'', ''close''),
     (''Connection'', ''keep-alive''), (''Vary'', '', Accept-Encoding''), (''Date'', []), (''Server'', []),
     (''Content-Length'', []), (''Strict-Transport-Security'', ''max-age='')]"
  by code_simp

lemma field_line_safe_value:
  "field_line_safe (n, w) \<Longrightarrow> \<forall>c \<in> set v. is_valid_field_value_byte c \<Longrightarrow> field_line_safe (n, v)"
  by (simp add: field_line_safe_def)

lemma field_line_safe_append:
  "field_line_safe (n, w) \<Longrightarrow> \<forall>c \<in> set v. is_valid_field_value_byte c \<Longrightarrow> field_line_safe (n, w @ v)"
  by (auto simp: field_line_safe_def)

lemma server_value: "\<not> has_control_character v \<Longrightarrow> \<forall>c \<in> set v. is_valid_field_value_byte c"
  by (auto simp: has_control_character_def is_valid_field_value_byte_def kSpaceByte_def kDeleteByte_def not_less)

lemma merged_vary_value:
  assumes "headers_ok (res_headers res)"
  shows "\<forall>c \<in> set (merged_vary res). is_valid_field_value_byte c"
proof -
  have "\<forall>c \<in> set (value_or (find_header ''Vary'' res) []). is_valid_field_value_byte c"
    using header_value_valid [OF assms, of "''Vary''"]
    by (cases "find_header ''Vary'' res") (auto simp: value_or_def find_header_def)
  moreover have "\<forall>c \<in> set '', Accept-Encoding''. is_valid_field_value_byte c"
    using literal_fields_safe by (simp add: field_line_safe_def)
  ultimately show ?thesis using list_names_suffix_free by blast
qed

lemma response_fields_safe:
  assumes "headers_ok (res_headers res)"
  shows "\<forall>f \<in> set (response_fields cenv now req res options). field_line_safe f"
proof -
  have all: "field_line_safe f" if "f \<in> set [(''Content-Encoding'', ''gzip''), (''Cache-Control'', ''no-store''),
     (''X-Content-Type-Options'', ''nosniff''), (''Referrer-Policy'', ''no-referrer''),
     (''Content-Security-Policy'', kHtmlContentSecurityPolicy), (''Connection'', ''close''),
     (''Connection'', ''keep-alive''), (''Vary'', '', Accept-Encoding''), (''Date'', []), (''Server'', []),
     (''Content-Length'', []), (''Strict-Transport-Security'', ''max-age='')]" for f
    using literal_fields_safe that unfolding list_all_iff by blast
  have lits: "field_line_safe (''Content-Encoding'', ''gzip'')" "field_line_safe (''Cache-Control'', ''no-store'')"
    "field_line_safe (''X-Content-Type-Options'', ''nosniff'')" "field_line_safe (''Referrer-Policy'', ''no-referrer'')"
    "field_line_safe (''Content-Security-Policy'', kHtmlContentSecurityPolicy)"
    "field_line_safe (''Connection'', ''close'')" "field_line_safe (''Connection'', ''keep-alive'')"
    by (rule all, simp)+
  have vals: "field_line_safe (''Vary'', merged_vary res)" "field_line_safe (''Date'', http_date now)"
    "field_line_safe (''Content-Length'', nat_to_dec n)"
    "field_line_safe (''Strict-Transport-Security'', ''max-age='' @ nat_to_dec n)" for n
  proof -
    show "field_line_safe (''Vary'', merged_vary res)"
      by (rule field_line_safe_value [OF all merged_vary_value [OF assms]]) simp
    show "field_line_safe (''Date'', http_date now)"
      by (rule field_line_safe_value [OF all]) (simp, use http_date_printable printable_value_byte in blast)
    show "field_line_safe (''Content-Length'', nat_to_dec n)"
      by (rule field_line_safe_value [OF all]) (simp, use nat_to_dec_value_bytes in blast)
    show "field_line_safe (''Strict-Transport-Security'', ''max-age='' @ nat_to_dec n)"
      by (rule field_line_safe_append [OF all]) (simp, use nat_to_dec_value_bytes in blast)
  qed
  have server: "field_line_safe (''Server'', v)" if "\<not> has_control_character v" for v
    by (rule field_line_safe_value [OF all server_value [OF that]]) simp
  have hdrs: "field_line_safe f" if "f \<in> set (res_headers res)" for f
    using assms that
    by (simp add: headers_ok_def field_line_safe_def is_valid_field_name_iff is_valid_field_value_iff)
  show ?thesis
    using lits vals server hdrs
    by (auto simp: response_fields_def set_guarded encoder_fields_def)
qed

lemma status_line_no_cr: "CHR 0x0D \<notin> set (status_line st)"
proof -
  have "0x20 \<le> byte c" if "c \<in> set (status_line st)" for c
    using that reason_phrase_printable [of st] nat_to_dec_digits [of "status_code st"]
    by (auto simp: status_line_def is_decimal_digit_def byte_def)
  then show ?thesis by (force simp: byte_def)
qed

text \<open>C13: no header a handler sets and no option can split a response: the head the encoder writes is the
  status line, fields that each stay on their line, and an empty line; the first empty line on the
  wire is the one that ends the head, whatever the body holds.\<close>

theorem encoded_head_not_splittable:
  assumes "built res" and "buffer_ok head"
    and "encode_response cenv now req res options head cb = (enc, head', cb')"
  shows "readable head' = status_line (res_status res) @ kCrlf @
      concat (map render_field (response_fields cenv now req res options)) @ kCrlf \<and>
    (\<forall>f \<in> set (response_fields cenv now req res options). field_line_safe f) \<and>
    find_str kHeaderTerminator (readable head' @ enc_body enc) = Some (length (readable head') - 4)"
proof -
  note ok = built_ok [OF assms(1)]
  note safe = response_fields_safe [OF ok, of cenv now req options]
  have hd_text: "readable head' = status_line (res_status res) @ kCrlf @
      concat (map render_field (response_fields cenv now req res options)) @ kCrlf"
    using encode_response_head(3) [OF assms(2), of cenv now req res options cb] assms(3) by simp
  show ?thesis
    using hd_text safe find_terminator_fields [OF status_line_no_cr safe, of "res_status res" "enc_body enc"]
    by simp
qed

section \<open>Framing\<close>

lemma fields_named_append: "fields_named n (xs @ ys) = fields_named n xs @ fields_named n ys"
  by (simp add: fields_named_def)

lemma fields_named_Cons:
  "fields_named n (f # fs) = (if equals_ignore_case (fst f) n then snd f # fields_named n fs else fields_named n fs)"
  "fields_named n [] = []"
  by (simp_all add: fields_named_def)

lemma fields_named_guarded:
  "fields_named n (guarded ((c, f) # xs)) =
     (if c \<and> equals_ignore_case (fst f) n then [snd f] else []) @ fields_named n (guarded xs)"
  by (simp add: guarded_def fields_named_def)

lemma generated_not_framing:
  "list_all (\<lambda>m. list_all (\<lambda>n. \<not> equals_ignore_case m n) [''Content-Length'', ''Connection'', ''Transfer-Encoding''])
     [''Content-Encoding'', ''Vary'', ''Date'', ''Server'', ''Cache-Control'', ''X-Content-Type-Options'',
      ''Referrer-Policy'', ''Content-Security-Policy'', ''Strict-Transport-Security'']"
  by code_simp

lemma framing_names:
  "equals_ignore_case ''Content-Length'' ''Content-Length''" "equals_ignore_case ''Connection'' ''Connection''"
  "\<not> equals_ignore_case ''Content-Length'' ''Connection''" "\<not> equals_ignore_case ''Connection'' ''Content-Length''"
  "\<not> equals_ignore_case ''Content-Length'' ''Transfer-Encoding''" "\<not> equals_ignore_case ''Connection'' ''Transfer-Encoding''"
  by code_simp+

lemma fields_named_passed:
  "n \<in> {''Content-Length'', ''Connection'', ''Transfer-Encoding''} \<Longrightarrow>
     fields_named n (filter (passed_through varies) hs) = []"
  by (induction hs) (auto simp: fields_named_def passed_through_def is_framing_field_def)

lemma response_fields_framing:
  assumes "n \<in> {''Content-Length'', ''Connection'', ''Transfer-Encoding''}"
  shows "fields_named n (response_fields cenv now req res options) =
    (if \<not> is_stream res \<and> \<not> is_bodiless (res_status res) \<and> equals_ignore_case ''Content-Length'' n
     then [nat_to_dec (length (enc_final_body cenv req res))] else []) @
    (if equals_ignore_case ''Connection'' n
     then [if \<not> is_stream res \<and> opt_keep_alive options then ''keep-alive'' else ''close''] else [])"
proof -
  have "\<not> equals_ignore_case m n" if "m \<in> set [''Content-Encoding'', ''Vary'', ''Date'', ''Server'',
      ''Cache-Control'', ''X-Content-Type-Options'', ''Referrer-Policy'', ''Content-Security-Policy'',
      ''Strict-Transport-Security'']" for m
    using generated_not_framing that assms unfolding list_all_iff by auto
  then show ?thesis
    using fields_named_passed [OF assms]
    by (simp add: response_fields_def encoder_fields_def fields_named_append fields_named_guarded
        guarded_Nil fields_named_Cons(2))
qed

text \<open>C14: framing is the encoder's alone. Whatever framing fields a handler sets, the head never carries
  Transfer-Encoding, carries exactly one Connection field, and exactly one Content-Length field, the
  size of the body the encoder returns, unless the response is a stream (then the connection closes)
  or has a bodiless status; body bytes are suppressed exactly for streams, HEAD and bodiless statuses.\<close>

theorem encoded_framing:
  assumes "buffer_ok head" and "encode_response cenv now req res options head cb = (enc, head', cb')"
  defines "fs \<equiv> response_fields cenv now req res options"
  shows "readable head' = status_line (res_status res) @ kCrlf @ concat (map render_field fs) @ kCrlf \<and>
    fields_named ''Transfer-Encoding'' fs = [] \<and>
    fields_named ''Content-Length'' fs =
      (if is_stream res \<or> is_bodiless (res_status res) then [] else [nat_to_dec (length (enc_body enc))]) \<and>
    fields_named ''Connection'' fs =
      [if \<not> is_stream res \<and> opt_keep_alive options then ''keep-alive'' else ''close''] \<and>
    suppress_body enc = (is_stream res \<or> req_method req = Method_Head \<or> is_bodiless (res_status res))"
proof -
  have enc: "enc_body enc = enc_final_body cenv req res"
    "suppress_body enc = (is_stream res \<or> req_method req = Method_Head \<or> is_bodiless (res_status res))"
    using encode_response_head(1) [OF assms(1), of cenv now req res options cb] assms(2) by simp_all
  show ?thesis
    using encode_response_head(3) [OF assms(1), of cenv now req res options cb] assms(2) enc framing_names
    by (simp add: fs_def response_fields_framing)
qed

section \<open>Field names are written once\<close>

lemma distinct_guarded: "distinct (map (g \<circ> snd) xs) \<Longrightarrow> distinct (map g (guarded xs))"
  by (induction xs) (auto simp: guarded_def)

lemma encoder_names_distinct:
  "distinct (map (fold_case \<circ> fst \<circ> snd) (encoder_fields cenv now req res options))"
proof -
  have "distinct (map fold_case [''Content-Encoding'', ''Vary'', ''Date'', ''Server'', ''Cache-Control'',
      ''X-Content-Type-Options'', ''Referrer-Policy'', ''Content-Security-Policy'', ''Strict-Transport-Security'',
      ''Content-Length'', ''Connection''])"
    by code_simp
  then show ?thesis by (simp only: encoder_fields_def list.map comp_apply fst_conv snd_conv)
qed

lemma find_header_in_None:
  "find_header_in n m = None \<Longrightarrow> kv \<in> set m \<Longrightarrow> \<not> equals_ignore_case (fst kv) n"
  by (induction n m rule: find_header_in.induct) (auto split: if_splits)

lemma passed_not_encoder:
  assumes "find_header ''Content-Encoding'' res \<noteq> Some []"
    and "a \<in> set (res_headers res)" and "passed_through (enc_varies cenv res) a"
    and "f \<in> set (guarded (encoder_fields cenv now req res options))"
  shows "fold_case (fst a) \<noteq> fold_case (fst f)"
proof -
  have ce: "find_header ''Content-Encoding'' res = None" if "enc_varies cenv res"
    using that assms(1)
    by (auto simp: enc_varies_def response_varies_on_accept_encoding_def value_or_def split: if_splits option.splits)
  have none: "\<not> equals_ignore_case (fst a) n" if "find_header n res = None" for n
    using find_header_in_None [of n "res_headers res" a] that assms(2) by (simp add: find_header_def)
  have fr: "\<not> equals_ignore_case (fst a) ''Content-Length''" "\<not> equals_ignore_case (fst a) ''Connection''"
    "enc_varies cenv res \<Longrightarrow> \<not> equals_ignore_case (fst a) ''Vary''"
    using assms(3) by (auto simp: passed_through_def is_framing_field_def)
  have "\<not> equals_ignore_case (fst a) (fst f)"
    using assms(4) ce none fr
    by (auto simp: set_guarded encoder_fields_def enc_compressed_def)
  then show ?thesis by (simp add: equals_ignore_case_iff)
qed

text \<open>Every field name is written at most once, whatever the case a handler used, provided the handler
  did not set an empty Content-Encoding.\<close>

theorem encoded_field_names_unique:
  assumes "built res" and "find_header ''Content-Encoding'' res \<noteq> Some []"
  shows "distinct (map (fold_case \<circ> fst) (response_fields cenv now req res options))"
proof -
  have "distinct (map (fold_case \<circ> fst) (res_headers res))"
    using built_ok [OF assms(1)] by (simp add: headers_ok_def)
  then have 1: "distinct (map (fold_case \<circ> fst) (filter (passed_through (enc_varies cenv res)) (res_headers res)))"
    by (rule distinct_map_filter)
  have 2: "distinct (map (fold_case \<circ> fst) (guarded (encoder_fields cenv now req res options)))"
    by (rule distinct_guarded) (use encoder_names_distinct [of cenv now req res options] in \<open>simp only: comp_assoc\<close>)
  show ?thesis
    unfolding response_fields_def map_append distinct_append
    using 1 2 passed_not_encoder [OF assms(2)] by fastforce
qed

lemma fields_named_headers:
  "headers_ok m \<Longrightarrow> fields_named n m = (case find_header_in n m of None \<Rightarrow> [] | Some v \<Rightarrow> [v])"
proof (induction n m rule: find_header_in.induct)
  case (2 n k w m)
  have ok: "headers_ok m" using 2(2) by (auto simp: headers_ok_def fm_ok_def)
  have "fold_case k \<notin> set (map (fold_case \<circ> fst) m)" using 2(2) by (simp add: headers_ok_def)
  then have "fields_named n m = []" if "equals_ignore_case k n"
    using that by (force simp: fields_named_def filter_empty_conv equals_ignore_case_iff)
  then show ?case using 2(1) [OF _ ok] by (auto simp: fields_named_Cons)
qed (simp add: fields_named_Cons)

lemma fields_named_filter:
  "(\<And>f. f \<in> set m \<Longrightarrow> equals_ignore_case (fst f) n \<Longrightarrow> P f) \<Longrightarrow> fields_named n (filter P m) = fields_named n m"
  by (induction m) (auto simp: fields_named_def)

lemma content_encoding_names:
  "\<not> equals_ignore_case ''Content-Encoding'' ''Content-Length''" "\<not> equals_ignore_case ''Content-Encoding'' ''Connection''"
  "\<not> equals_ignore_case ''Content-Encoding'' ''Transfer-Encoding''" "\<not> equals_ignore_case ''Content-Encoding'' ''Vary''"
  "list_all (\<lambda>m. \<not> equals_ignore_case m ''Content-Encoding'') [''Vary'', ''Date'', ''Server'', ''Cache-Control'',
     ''X-Content-Type-Options'', ''Referrer-Policy'', ''Content-Security-Policy'', ''Strict-Transport-Security'',
     ''Content-Length'', ''Connection'']"
  "equals_ignore_case ''Content-Encoding'' ''Content-Encoding''"
  by code_simp+

text \<open>With an empty Content-Encoding set by the handler, a response the encoder compresses carries
  two Content-Encoding fields, the empty one and gzip.\<close>

theorem empty_content_encoding_written_twice:
  assumes "built res" and "find_header ''Content-Encoding'' res = Some []" and "enc_compressed cenv req res"
  shows "fields_named ''Content-Encoding'' (response_fields cenv now req res options) = [[], ''gzip'']"
proof -
  have "passed_through (enc_varies cenv res) f" if "equals_ignore_case (fst f) ''Content-Encoding''" for f
    using that content_encoding_names(1-4)
    by (auto simp: passed_through_def is_framing_field_def equals_ignore_case_iff)
  then have "fields_named ''Content-Encoding'' (filter (passed_through (enc_varies cenv res)) (res_headers res)) =
      fields_named ''Content-Encoding'' (res_headers res)"
    by (intro fields_named_filter) blast
  also have "\<dots> = [[]]"
    using fields_named_headers [OF built_ok [OF assms(1)], of "''Content-Encoding''"] assms(2)
    by (simp add: find_header_def)
  finally show ?thesis
    using assms(3) content_encoding_names(5,6)
    by (simp add: response_fields_def encoder_fields_def fields_named_append fields_named_guarded
        guarded_Nil fields_named_Cons(2) list_all_iff)
qed

section \<open>The body\<close>

text \<open>The media types that are compressed: the type before its parameters, without regard to case.\<close>

definition compressible_type :: "bytes \<Rightarrow> bool" where
  "compressible_type content_type \<longleftrightarrow>
     (let m = fold_case (trim_optional_whitespace (takeWhile (\<lambda>c. c \<noteq> CHR '';'') content_type)) in
      take 5 m = ''text/'' \<or> (\<exists>tree. m = tree @ ''+json'') \<or> (\<exists>tree. m = tree @ ''+xml'') \<or>
      m \<in> {''application/json'', ''application/javascript'', ''application/x-javascript'', ''application/xml''})"

lemma lower_case_types:
  "fold_case ''text/'' = ''text/''" "fold_case ''+json'' = ''+json''" "fold_case ''+xml'' = ''+xml''"
  "fold_case ''application/json'' = ''application/json''" "fold_case ''application/javascript'' = ''application/javascript''"
  "fold_case ''application/x-javascript'' = ''application/x-javascript''" "fold_case ''application/xml'' = ''application/xml''"
  by code_simp+

lemma ends_with_ignore_case_iff: "ends_with_ignore_case t suf \<longleftrightarrow> (\<exists>tree. fold_case t = tree @ fold_case suf)"
proof
  assume "ends_with_ignore_case t suf"
  then have "fold_case t = fold_case (take (length t - length suf) t) @ fold_case suf"
    unfolding ends_with_ignore_case_def equals_ignore_case_iff by (metis append_take_drop_id map_append)
  then show "\<exists>tree. fold_case t = tree @ fold_case suf" by blast
next
  assume "\<exists>tree. fold_case t = tree @ fold_case suf"
  then obtain tree where t: "fold_case t = tree @ fold_case suf" by blast
  then have "length t = length tree + length suf" by (metis length_append length_map)
  with t show "ends_with_ignore_case t suf"
    by (simp add: ends_with_ignore_case_def equals_ignore_case_iff drop_map [symmetric])
qed

lemma starts_with_ignore_case_iff:
  "starts_with_ignore_case t prefix \<longleftrightarrow> take (length prefix) (fold_case t) = fold_case prefix"
proof -
  have "length prefix \<le> length t" if "take (length prefix) (fold_case t) = fold_case prefix"
    using arg_cong [OF that, of length] by simp
  then show ?thesis by (auto simp: starts_with_ignore_case_def equals_ignore_case_iff take_map)
qed

lemma media_type_is_compressible_iff: "media_type_is_compressible content_type \<longleftrightarrow> compressible_type content_type"
proof -
  have cut: "takeWhile (\<lambda>c. c \<noteq> d) s = (case find_char d s of None \<Rightarrow> s | Some i \<Rightarrow> take i s)" for d s
    by (induction s) (auto split: option.splits)
  define m where "m = media_type_of content_type"
  have m: "m = trim_optional_whitespace (takeWhile (\<lambda>c. c \<noteq> CHR '';'') content_type)"
    by (simp add: m_def media_type_of_def cut)
  have chain: "(if a then False else if b then True else if c then True else d) \<longleftrightarrow> \<not> a \<and> (b \<or> c \<or> d)" for a b c d
    by simp
  have plain_text: "starts_with_ignore_case m ''text/'' \<longleftrightarrow> take 5 (fold_case m) = ''text/''"
    unfolding starts_with_ignore_case_iff lower_case_types by (simp add: numeral_eq_Suc)
  have "m \<noteq> []" if "compressible_type content_type"
    using that unfolding compressible_type_def m [symmetric] Let_def by (intro notI) auto
  moreover have "media_type_is_compressible content_type \<longleftrightarrow> m \<noteq> [] \<and> compressible_type content_type"
    unfolding media_type_is_compressible_def compressible_type_def m_def [symmetric] m [symmetric] Let_def
      kCompressibleMediaTypeSuffixes_def kCompressibleMediaTypes_def
      plain_text
    by (simp only: list.set bex_simps ends_with_ignore_case_iff equals_ignore_case_iff
        lower_case_types insert_iff empty_iff chain disj_assoc simp_thms)
  ultimately show ?thesis by blast
qed

text \<open>The members of a comma-separated list.\<close>

definition list_member :: "bytes \<Rightarrow> bytes \<Rightarrow> bool" where
  "list_member v member \<longleftrightarrow> (\<exists>p \<in> set (split_on (CHR '','') v). equals_ignore_case (trim_optional_whitespace p) member)"

lemma list_names_member: "list_names v member \<Longrightarrow> list_member v member"
proof (induction v member rule: list_names.induct)
  case (1 v member)
  show ?case
  proof (cases "find_char (CHR '','') v")
    case None
    then show ?thesis using 1(2) by (simp add: list_names.simps [of v] list_member_def split_on_None Let_def split: if_splits)
  next
    case (Some i)
    then show ?thesis using 1(1) [OF _ refl refl, unfolded Some] 1(2)
      by (auto simp: list_names.simps [of v] list_member_def split_on_Some Let_def split: if_splits)
  qed
qed

lemma split_on_join: "split_on c (xs @ c # ys) = split_on c xs @ split_on c ys"
  by (induction xs) (auto split: list.split)

lemma merged_vary_lists: "list_member (merged_vary res) ''Accept-Encoding''"
proof -
  have trims: "trim_optional_whitespace '' Accept-Encoding'' = ''Accept-Encoding''"
    "trim_optional_whitespace ''Accept-Encoding'' = ''Accept-Encoding''" by code_simp+
  have "list_member ''Accept-Encoding'' ''Accept-Encoding''" by code_simp
  moreover have "list_member (v @ '', '' @ ''Accept-Encoding'') ''Accept-Encoding''" for v
  proof -
    have "split_on (CHR '','') (v @ CHR '','' # '' Accept-Encoding'') = split_on (CHR '','') v @ split_on (CHR '','') '' Accept-Encoding''"
      by (rule split_on_join)
    moreover have "split_on (CHR '','') '' Accept-Encoding'' = [ '' Accept-Encoding'']" by code_simp
    ultimately have "'' Accept-Encoding'' \<in> set (split_on (CHR '','') (v @ CHR '','' # '' Accept-Encoding''))" by (simp only:) simp
    then show ?thesis unfolding list_member_def equals_ignore_case_iff append.simps by (rule bexI [rotated]) (simp only: trims)
  qed
  ultimately show ?thesis
    using list_names_member [of "value_or (find_header ''Vary'' res) []"]
    by (auto simp: merged_vary_def accept_encoding_vary_parts_def)
qed

lemma fields_named_handler:
  assumes "\<not> equals_ignore_case n ''Content-Length''" "\<not> equals_ignore_case n ''Connection''"
    "\<not> equals_ignore_case n ''Transfer-Encoding''" "\<not> equals_ignore_case n ''Vary''"
    and "find_header n res = None"
  shows "fields_named n (filter (passed_through varies) (res_headers res)) = []"
  using find_header_in_None [of n "res_headers res"] assms(5)
  by (auto simp: fields_named_def find_header_def filter_empty_conv)

lemma fields_named_vary:
  "fields_named ''Vary'' (filter (passed_through True) hs) = []"
  by (auto simp: fields_named_def passed_through_def filter_empty_conv)

lemma vary_names:
  "list_all (\<lambda>m. \<not> equals_ignore_case m ''Vary'') [''Content-Encoding'', ''Date'', ''Server'', ''Cache-Control'',
     ''X-Content-Type-Options'', ''Referrer-Policy'', ''Content-Security-Policy'', ''Strict-Transport-Security'',
     ''Content-Length'', ''Connection'']"
  "equals_ignore_case ''Vary'' ''Vary''"
  by code_simp+

text \<open>C31: a response is compressed exactly when it may be, and the head on the wire says so. For a response
  without a Content-Encoding of its own, whose status has a body and whose body has between 1024 and
  8388608 bytes of a compressible type: the head names Accept-Encoding in its one Vary field, whoever
  asks; and when the client takes gzip and zlib makes the body strictly shorter, the body sent is what
  zlib made and the head carries one Content-Encoding field, gzip. In every other case the body is the
  handler's (none for a stream, whose bytes follow later) and no Content-Encoding is written.\<close>

theorem compression_announced:
  assumes "built res" and "find_header ''Content-Encoding'' res = None" and "buffer_ok head"
    and "encode_response cenv now req res options head cb = (enc, head', cb')"
  defines "handler_body \<equiv> if is_stream res then [] else response_body_bytes res"
  defines "negotiable \<equiv> zlib_enabled cenv \<and> \<not> is_bodiless (res_status res) \<and> length handler_body \<in> {1024..8388608} \<and>
      (\<exists>content_type. find_header ''Content-Type'' res = Some content_type \<and> compressible_type content_type)"
  shows "\<exists>fs. readable head' = status_line (res_status res) @ kCrlf @ concat (map render_field fs) @ kCrlf \<and>
    (\<forall>f \<in> set fs. field_line_safe f) \<and>
    (negotiable \<longrightarrow> (\<exists>v. fields_named ''Vary'' fs = [v] \<and> list_member v ''Accept-Encoding'')) \<and>
    (if negotiable \<and> req_wants_gzip req \<and> (\<exists>out. deflate_gzip cenv handler_body = Some out \<and> length out < length handler_body)
     then fields_named ''Content-Encoding'' fs = [''gzip''] \<and> deflate_gzip cenv handler_body = Some (enc_body enc)
     else fields_named ''Content-Encoding'' fs = [] \<and> enc_body enc = handler_body)"
proof -
  let ?fs = "response_fields cenv now req res options"
  have enc: "enc_body enc = enc_final_body cenv req res"
    using encode_response_head(1) [OF assms(3), of cenv now req res options cb] assms(4) by simp
  have head: "readable head' = status_line (res_status res) @ kCrlf @ concat (map render_field ?fs) @ kCrlf"
    using encode_response_head(3) [OF assms(3), of cenv now req res options cb] assms(4) by simp
  have hb: "handler_body = enc_handler_body res" by (simp add: handler_body_def enc_handler_body_def)
  have "\<not> compressible_type []" unfolding media_type_is_compressible_iff [symmetric] by code_simp
  then have varies: "enc_varies cenv res \<longleftrightarrow> negotiable"
    using assms(2) unfolding negotiable_def hb
    by (cases "find_header ''Content-Type'' res") (auto simp: enc_varies_def response_varies_on_accept_encoding_def
        value_or_def media_type_is_compressible_iff kMinimumCompressibleBodyBytes_def kMaximumCompressibleBodyBytes_def)
  have compressed: "enc_compressed cenv req res \<longleftrightarrow> negotiable \<and> req_wants_gzip req \<and>
      (\<exists>out. deflate_gzip cenv handler_body = Some out \<and> length out < length handler_body)"
    unfolding enc_compressed_def varies
    by (auto simp: negotiable_def hb gzip_compress_def kMinimumCompressibleBodyBytes_def
        kMaximumCompressibleBodyBytes_def split: option.splits)
  have body: "if enc_compressed cenv req res then deflate_gzip cenv handler_body = Some (enc_body enc) else enc_body enc = handler_body"
    unfolding enc hb by (auto simp: enc_final_body_def enc_compressed_def gzip_compress_def split: if_splits option.splits)
  have ce: "fields_named ''Content-Encoding'' ?fs = (if enc_compressed cenv req res then [''gzip''] else [])"
    using content_encoding_names(5,6) fields_named_handler [OF content_encoding_names(1-4) assms(2)]
    by (simp add: response_fields_def encoder_fields_def fields_named_append fields_named_guarded
        guarded_Nil fields_named_Cons(2) list_all_iff)
  have vary: "fields_named ''Vary'' ?fs = [merged_vary res]" if "enc_varies cenv res"
    using vary_names fields_named_vary that
    by (simp add: response_fields_def encoder_fields_def fields_named_append fields_named_guarded
        guarded_Nil fields_named_Cons(2) list_all_iff)
  show ?thesis
    using head response_fields_safe [OF built_ok [OF assms(1)], of cenv now req options] vary merged_vary_lists body ce
    unfolding compressed [symmetric] unfolding varies [symmetric] by (intro exI [of _ ?fs]) simp
qed

section \<open>Conditional responses\<close>

lemma find_header_cong: "equals_ignore_case j n \<Longrightarrow> find_header j r = find_header n r"
proof -
  assume "equals_ignore_case j n"
  then have "find_header_in j m = find_header_in n m" for m
    by (induction j m rule: find_header_in.induct) (auto simp: equals_ignore_case_iff)
  then show ?thesis by (simp add: find_header_def)
qed

definition keep_field :: "response \<Rightarrow> bytes \<Rightarrow> response \<Rightarrow> response" where
  "keep_field source field r = (case find_header field source of Some v \<Rightarrow> set_header field v r | None \<Rightarrow> r)"

lemma keep_field_ok:
  assumes "headers_ok (res_headers source)" and "headers_ok (res_headers r)" and "is_valid_field_name f"
  shows "headers_ok (res_headers (keep_field source f r))"
    and "find_header j (keep_field source f r) =
      (if equals_ignore_case j f \<and> find_header j source \<noteq> None then find_header j source else find_header j r)"
proof -
  have v: "is_valid_field_value v" if "find_header f source = Some v" for v
    using header_value_valid [OF assms(1), of f v] that by (simp add: find_header_def is_valid_field_value_iff)
  show "headers_ok (res_headers (keep_field source f r))"
    using assms(2) set_header_ok by (auto simp: keep_field_def split: option.splits)
  show "find_header j (keep_field source f r) =
      (if equals_ignore_case j f \<and> find_header j source \<noteq> None then find_header j source else find_header j r)"
    using v find_header_cong [of j f source] find_header_set_header [OF assms(2,3)]
    by (auto simp: keep_field_def split: option.splits)
qed

lemma keep_fields_ok:
  assumes "headers_ok (res_headers source)" and "headers_ok (res_headers r)"
    and "\<forall>f \<in> set fs. is_valid_field_name f"
  shows "headers_ok (res_headers (fold (keep_field source) fs r)) \<and>
    find_header j (fold (keep_field source) fs r) =
      (if (\<exists>f \<in> set fs. equals_ignore_case j f) \<and> find_header j source \<noteq> None then find_header j source
       else find_header j r)"
  using assms(2,3)
proof (induction fs arbitrary: r)
  case (Cons f fs)
  show ?case
    using Cons.IH [of "keep_field source f r"] Cons.prems keep_field_ok [OF assms(1) Cons.prems(1)] by auto
qed simp

lemma preserved_names:
  "list_all is_valid_field_name (''Vary'' # kPreservedFields)"
  "list_all (\<lambda>n. \<not> equals_ignore_case n ''Vary'') kPreservedFields"
  by code_simp+

lemma set_header_other_fields:
  "res_status (set_header n v r) = res_status r" "res_body (set_header n v r) = res_body r"
  "res_stream (set_header n v r) = res_stream r"
  by (simp_all add: set_header_eq)

lemma keep_fields_rest:
  "res_status (fold (keep_field s) fs r) = res_status r" "res_body (fold (keep_field s) fs r) = res_body r"
  "res_stream (fold (keep_field s) fs r) = res_stream r"
  by (induction fs arbitrary: r) (auto simp: keep_field_def set_header_other_fields split: option.splits)

lemma find_header_not_touched:
  assumes "headers_ok (res_headers r)" and "\<not> equals_ignore_case j n"
  shows "find_header j (set_header n v r) = find_header j r"
  using assms find_header_set_header [OF assms(1)] by (auto simp: set_header_eq)

lemma not_modified_from_alt:
  "\<exists>v. not_modified_from cenv source \<in>
     {fold (keep_field source) kPreservedFields (response_empty Status_NotModified),
      set_header ''Vary'' v (fold (keep_field source) kPreservedFields (response_empty Status_NotModified))}"
  unfolding not_modified_from_def keep_field_def [abs_def] Let_def by (auto split: option.splits)

text \<open>A conditional request is answered with 304 exactly when it is GET or HEAD, the response is an
  ordinary 200 with an entity tag, and a member of If-None-Match is \<open>*\<close> or the tag up to weakness;
  the 304 has no body and keeps the validators and caching fields unchanged; anything else leaves the
  response as it was.\<close>

theorem conditional_request_correct:
  fixes req :: request and res :: response and cenv :: compress_env
  assumes "built res"
  defines "matched \<equiv> (req_method req = Method_Get \<or> req_method req = Method_Head) \<and>
      res_status res = Status_Ok \<and> \<not> is_stream res \<and>
      (\<exists>etag condition. find_header ''ETag'' res = Some etag \<and> etag \<noteq> [] \<and>
         header req ''If-None-Match'' = Some condition \<and>
         (\<exists>p \<in> set (split_on (CHR '','') (view_text condition)). trim_optional_whitespace p = ''*'' \<or>
            trim_optional_whitespace p \<noteq> [] \<and>
            without_weak_marker (trim_optional_whitespace p) = without_weak_marker etag))"
    and "out \<equiv> apply_conditional_request cenv req res"
  shows "if matched
    then res_status out = Status_NotModified \<and> response_body_bytes out = [] \<and> \<not> is_stream out \<and>
         (\<forall>n \<in> set kPreservedFields. find_header n out = find_header n res) \<and>
         (\<forall>n. (\<forall>m \<in> set (''Vary'' # kPreservedFields). \<not> equals_ignore_case n m) \<longrightarrow> find_header n out = None)
    else out = res"
proof (cases matched)
  case False
  then show ?thesis
    by (auto simp: out_def matched_def apply_conditional_request_def if_none_match_matches_def
        if_none_match_loop_iff split: option.splits if_splits)
next
  case True
  let ?base = "response_empty Status_NotModified"
  let ?k = "fold (keep_field res) kPreservedFields ?base"
  have out: "out = not_modified_from cenv res"
    using True by (auto simp: out_def matched_def apply_conditional_request_def if_none_match_matches_def
        if_none_match_loop_iff)
  obtain v where v: "out = ?k \<or> out = set_header ''Vary'' v ?k"
    using not_modified_from_alt [of cenv res] out by auto
  have keep: "headers_ok (res_headers ?k)"
    "\<And>j. find_header j ?k = (if (\<exists>f \<in> set kPreservedFields. equals_ignore_case j f) \<and> find_header j res \<noteq> None
       then find_header j res else find_header j ?base)"
    using keep_fields_ok [OF built_ok [OF assms(1)] factory_headers_ok(3)] preserved_names(1)
    by (simp_all add: list_all_iff)
  have base: "find_header j ?base = None" for j
    by (simp add: find_header_def response_empty_def)
  have same: "find_header n out = find_header n ?k" if "\<not> equals_ignore_case n ''Vary''" for n
    using v find_header_not_touched [OF keep(1) that] by auto
  have refl: "equals_ignore_case n n" for n by (simp add: equals_ignore_case_iff)
  have 1: "find_header n out = find_header n res" if "n \<in> set kPreservedFields" for n
    using same [of n] keep(2) [of n] base that refl preserved_names(2)
    by (auto simp: list_all_iff)
  have 2: "find_header n out = None" if "\<forall>m \<in> set (''Vary'' # kPreservedFields). \<not> equals_ignore_case n m" for n
    using same [of n] keep(2) [of n] base that by auto
  have 3: "res_status out = Status_NotModified \<and> response_body_bytes out = [] \<and> \<not> is_stream out"
    using v keep_fields_rest [of res kPreservedFields ?base] set_header_other_fields
    by (auto simp: response_empty_def default_response_def response_body_bytes_def is_stream_def)
  show ?thesis using True 1 2 3 by simp
qed

section \<open>Concrete responses\<close>

definition sample_cenv :: "(bytes \<Rightarrow> bytes option) \<Rightarrow> compress_env" where
  "sample_cenv deflate = \<lparr>zlib_enabled = True, deflate_gzip = deflate\<rparr>"

definition sample_options :: encoding_options where
  "sample_options = \<lparr>server_header = ''srv'', opt_keep_alive = True, opt_secure = False,
     strict_transport_security = True, hsts_max_age_seconds = 60\<rparr>"

abbreviation sample_encode :: "encoded_response \<times> buffer \<times> bytes" where
  "sample_encode \<equiv> encode_response (sample_cenv Some) 0 default_request (response_text ''hi'' Status_Ok)
     sample_options (make_buffer 16) []"

theorem encoded_head_not_splittable_witness:
  "find_str kHeaderTerminator (readable (fst (snd sample_encode)) @ enc_body (fst sample_encode)) =
     Some (length (readable (fst (snd sample_encode))) - 4)"
proof -
  have "sample_encode = (fst sample_encode, fst (snd sample_encode), snd (snd sample_encode))" by simp
  from encoded_head_not_splittable [OF built_text make_buffer_ok(1) this] show ?thesis by blast
qed

theorem encoded_framing_witness:
  "fields_named ''Content-Length'' (response_fields (sample_cenv Some) 0 default_request
       (response_text ''hi'' Status_Ok) sample_options) = [nat_to_dec (length (enc_body (fst sample_encode)))]"
proof -
  have "\<not> is_stream (response_text ''hi'' Status_Ok)" "\<not> is_bodiless (res_status (response_text ''hi'' Status_Ok))"
    by code_simp+
  then show ?thesis
    using encoded_framing [OF make_buffer_ok(1), of "sample_cenv Some" 0 default_request
        "response_text ''hi'' Status_Ok" sample_options 16 "[]"
        "fst sample_encode" "fst (snd sample_encode)" "snd (snd sample_encode)"]
    by simp
qed

theorem encoded_field_names_unique_witness:
  "distinct (map (fold_case \<circ> fst) (response_fields (sample_cenv Some) 0 default_request
     (response_text ''hi'' Status_Ok) sample_options))"
proof -
  have "find_header ''Content-Encoding'' (response_text ''hi'' Status_Ok) \<noteq> Some []" by code_simp
  then show ?thesis by (rule encoded_field_names_unique [OF built_text])
qed

text \<open>A handler's response with an empty Content-Encoding and a body that compresses.\<close>

definition doubled_response :: response where
  "doubled_response = set_header ''Content-Encoding'' []
     (response_text (replicate kMinimumCompressibleBodyBytes (CHR ''a'')) Status_Ok)"

lemma set_header_body: "set_header n v (r\<lparr>res_body := b\<rparr>) = (set_header n v r)\<lparr>res_body := b\<rparr>"
  by (simp add: set_header_eq)

lemma doubled_response_fields:
  "res_headers doubled_response = [(''Content-Encoding'', []), (''Content-Type'', ''text/plain; charset=utf-8'')]"
  "res_status doubled_response = Status_Ok" "res_stream doubled_response = None"
  "response_body_bytes doubled_response = replicate kMinimumCompressibleBodyBytes (CHR ''a'')"
proof -
  have "res_headers (set_header ''Content-Encoding'' [] (response_text [] Status_Ok)) =
      [(''Content-Encoding'', []), (''Content-Type'', ''text/plain; charset=utf-8'')]"
    by code_simp
  then show "res_headers doubled_response = [(''Content-Encoding'', []), (''Content-Type'', ''text/plain; charset=utf-8'')]"
    by (simp add: doubled_response_def response_text_def response_with_def set_header_body)
  show "res_status doubled_response = Status_Ok" "res_stream doubled_response = None"
    "response_body_bytes doubled_response = replicate kMinimumCompressibleBodyBytes (CHR ''a'')"
    by (simp_all add: doubled_response_def response_text_def response_with_def set_header_other_fields
        default_response_def response_body_bytes_def)
qed

theorem empty_content_encoding_written_twice_witness:
  "fields_named ''Content-Encoding'' (response_fields (sample_cenv (\<lambda>_. Some [])) 0
     (default_request\<lparr>req_wants_gzip := True\<rparr>) doubled_response sample_options) = [[], ''gzip'']"
proof -
  have ce: "find_header ''Content-Encoding'' doubled_response = Some []"
    using content_encoding_names(6) by (simp add: find_header_def doubled_response_fields)
  have ct: "find_header ''Content-Type'' doubled_response = Some ''text/plain; charset=utf-8''"
    unfolding find_header_def doubled_response_fields by code_simp
  have "media_type_is_compressible ''text/plain; charset=utf-8''" by code_simp
  then have "enc_compressed (sample_cenv (\<lambda>_. Some [])) (default_request\<lparr>req_wants_gzip := True\<rparr>) doubled_response"
    using ce ct
    by (simp add: enc_compressed_def enc_varies_def response_varies_on_accept_encoding_def sample_cenv_def
        enc_handler_body_def is_stream_def doubled_response_fields is_bodiless_def gzip_compress_def value_or_def
        kMinimumCompressibleBodyBytes_def kMaximumCompressibleBodyBytes_def)
  moreover have "built doubled_response"
    unfolding doubled_response_def by (intro built.intros)
  ultimately show ?thesis using empty_content_encoding_written_twice ce by blast
qed

text \<open>A response that is compressed, to the string \<open>z\<close> by this compressor.\<close>

definition large_response :: response where
  "large_response = response_text (replicate 1024 (CHR ''a'')) Status_Ok"

lemma large_response_fields:
  "find_header ''Content-Encoding'' large_response = None"
  "find_header ''Content-Type'' large_response = Some ''text/plain; charset=utf-8''"
  "res_status large_response = Status_Ok" "\<not> is_stream large_response"
  "response_body_bytes large_response = replicate 1024 (CHR ''a'')"
proof -
  have hd: "res_headers large_response = res_headers (response_text [] Status_Ok)"
    by (simp add: large_response_def response_text_def response_with_def set_header_body)
  have "find_header ''Content-Encoding'' (response_text [] Status_Ok) = None"
    "find_header ''Content-Type'' (response_text [] Status_Ok) = Some ''text/plain; charset=utf-8''" by code_simp+
  then show "find_header ''Content-Encoding'' large_response = None"
    "find_header ''Content-Type'' large_response = Some ''text/plain; charset=utf-8''"
    unfolding find_header_def hd .
  show "res_status large_response = Status_Ok" "\<not> is_stream large_response"
    "response_body_bytes large_response = replicate 1024 (CHR ''a'')"
    by (simp_all add: large_response_def response_text_def response_with_def set_header_other_fields
        default_response_def response_body_bytes_def is_stream_def)
qed

abbreviation large_encode :: "encoded_response \<times> buffer \<times> bytes" where
  "large_encode \<equiv> encode_response (sample_cenv (\<lambda>_. Some ''z'')) 0 (default_request\<lparr>req_wants_gzip := True\<rparr>) large_response
     sample_options (make_buffer 16) []"

theorem compression_announced_witness:
  "enc_body (fst large_encode) = ''z'' \<and>
   (\<exists>fs. readable (fst (snd large_encode)) = status_line Status_Ok @ kCrlf @ concat (map render_field fs) @ kCrlf \<and>
      fields_named ''Content-Encoding'' fs = [''gzip''])"
proof -
  have b: "built large_response" unfolding large_response_def by (rule built_text)
  have enc: "large_encode = (fst large_encode, fst (snd large_encode), snd (snd large_encode))" by simp
  have ct: "compressible_type ''text/plain; charset=utf-8''"
    unfolding media_type_is_compressible_iff [symmetric] by code_simp
  show ?thesis
    using compression_announced [OF b large_response_fields(1) make_buffer_ok(1) enc] ct large_response_fields(2-5)
    by (auto simp: sample_cenv_def is_bodiless_def)
qed

definition sample_conditional :: request where
  "sample_conditional = default_request\<lparr>req_method := Method_Get,
     req_headers := [\<lparr>hv_name = \<lparr>view_data = 0, view_text = ''if-none-match''\<rparr>,
                      hv_value = \<lparr>view_data = 0, view_text = ''*''\<rparr>\<rparr>]\<rparr>"

theorem conditional_request_correct_witness:
  "res_status (apply_conditional_request (sample_cenv Some) sample_conditional
     (set_header ''ETag'' ''x'' default_response)) = Status_NotModified"
proof -
  let ?res = "set_header ''ETag'' ''x'' default_response"
  have "req_method sample_conditional = Method_Get" "res_status ?res = Status_Ok" "\<not> is_stream ?res"
    "find_header ''ETag'' ?res = Some ''x''" "map_option view_text (header sample_conditional ''If-None-Match'') = Some ''*''"
    "trim_optional_whitespace ''*'' = ''*''" "split_on (CHR '','') ''*'' = [''*'']"
    by code_simp+
  then show ?thesis
    using conditional_request_correct [OF built_header [OF built_default], of sample_conditional "''ETag''" "''x''" "sample_cenv Some"]
    by (cases "header sample_conditional ''If-None-Match''") auto
qed

end
