(* ===== verification/Http_Assets.thy ===== *)
theory Http_Assets
  imports Http_Text "HOL-Library.List_Lexorder" "HOL-Library.Char_ord"
begin

text \<open>
  \<open>assets.cpp\<close> and \<open>assets.hpp\<close>: the compiled-in files the router mounts. A bundle is the sequence of
  its assets; \<open>find\<close> probes a large bundle by binary search, trusting nothing about its order, and
  falls back to the linear scan.
\<close>

record asset =
  asset_path :: bytes
  asset_content_type :: bytes
  asset_bytes :: bytes
  asset_etag :: bytes
  asset_content_encoding :: bytes

type_synonym asset_bundle = "asset list"

text \<open>\<open>rfind(char)\<close>.\<close>

definition rfind_char :: "char \<Rightarrow> bytes \<Rightarrow> nat option" where
  "rfind_char c s = map_option (\<lambda>i. length s - 1 - i) (find_char c (rev s))"

definition content_type_for_extension :: "bytes \<Rightarrow> bytes" where
  "content_type_for_extension path =
     (case rfind_char (CHR ''.'') path of
        None \<Rightarrow> ''application/octet-stream''
      | Some dot \<Rightarrow>
          let extension = drop dot path in
          if extension = ''.html'' \<or> extension = ''.htm'' then ''text/html; charset=utf-8''
          else if extension = ''.css'' then ''text/css; charset=utf-8''
          else if extension = ''.js'' \<or> extension = ''.mjs'' then ''text/javascript; charset=utf-8''
          else if extension = ''.json'' then ''application/json''
          else if extension = ''.svg'' then ''image/svg+xml''
          else if extension = ''.png'' then ''image/png''
          else if extension = ''.ico'' then ''image/vnd.microsoft.icon''
          else if extension = ''.woff2'' then ''font/woff2''
          else if extension = ''.txt'' then ''text/plain; charset=utf-8''
          else if extension = ''.map'' then ''application/json''
          else ''application/octet-stream'')"

text \<open>The two overloads of \<open>make_asset\<close>; the \<open>EtagBuffer\<close> argument is the text it shows.\<close>

definition make_asset_typed :: "bytes \<Rightarrow> bytes \<Rightarrow> bytes \<Rightarrow> bytes \<Rightarrow> bytes \<Rightarrow> asset" where
  "make_asset_typed path content_type contents etag content_encoding =
     \<lparr>asset_path = path, asset_content_type = content_type, asset_bytes = contents,
      asset_etag = etag, asset_content_encoding = content_encoding\<rparr>"

definition make_asset :: "bytes \<Rightarrow> bytes \<Rightarrow> bytes \<Rightarrow> bytes \<Rightarrow> asset" where
  "make_asset path contents etag content_encoding =
     \<lparr>asset_path = path, asset_content_type = content_type_for_extension path,
      asset_bytes = contents, asset_etag = etag, asset_content_encoding = content_encoding\<rparr>"

definition kBinarySearchThreshold :: nat where "kBinarySearchThreshold = 16"

text \<open>The loop of \<open>binary_probe\<close> between \<open>low\<close> and \<open>high\<close>.\<close>

function probe_between :: "asset_bundle \<Rightarrow> bytes \<Rightarrow> nat \<Rightarrow> nat \<Rightarrow> asset option" where
  "probe_between assets path low high =
     (if low < high
      then let middle = low + (high - low) div 2; found = asset_path (assets ! middle) in
           if found = path then Some (assets ! middle)
           else if found < path then probe_between assets path (middle + 1) high
           else probe_between assets path low middle
      else None)"
  by pat_completeness auto
termination
  by (relation "measure (\<lambda>(_, _, low, high). high - low)") auto

declare probe_between.simps [simp del]

definition binary_probe :: "asset_bundle \<Rightarrow> bytes \<Rightarrow> asset option" where
  "binary_probe assets path = probe_between assets path 0 (length assets)"

definition bundle_find :: "asset_bundle \<Rightarrow> bytes \<Rightarrow> asset option" where
  "bundle_find assets path =
     (let linear = List.find (\<lambda>a. asset_path a = path) assets in
      if length assets \<ge> kBinarySearchThreshold
      then (case binary_probe assets path of Some probed \<Rightarrow> Some probed | None \<Rightarrow> linear)
      else linear)"

section \<open>Correctness of the search\<close>

lemma probe_between_Some:
  "probe_between assets path low high = Some a \<Longrightarrow> high \<le> length assets \<Longrightarrow>
     a \<in> set assets \<and> asset_path a = path"
proof (induction assets path low high rule: probe_between.induct)
  case (1 assets path low high)
  show ?case
  proof (cases "low < high")
    case True
    let ?m = "low + (high - low) div 2"
    have m: "?m < high" using True by linarith
    show ?thesis
      using 1(1) [OF True refl refl] 1(2) [OF True refl refl] 1(3,4) True m
      by (auto simp: probe_between.simps [of assets path low high] Let_def split: if_splits)
  next
    case False
    with 1(3) show ?thesis by (simp add: probe_between.simps [of assets path low high])
  qed
qed

text \<open>On a sorted bundle the probe alone decides.\<close>

lemma probe_between_complete:
  assumes "sorted_wrt (<) (map asset_path assets)"
  shows "low \<le> k \<Longrightarrow> k < high \<Longrightarrow> high \<le> length assets \<Longrightarrow>
    probe_between assets (asset_path (assets ! k)) low high = Some (assets ! k)"
proof (induction "high - low" arbitrary: low high rule: less_induct)
  case less
  let ?m = "low + (high - low) div 2"
  have lt: "asset_path (assets ! i) < asset_path (assets ! j)" if "i < j" "j < length assets" for i j
    using assms that by (auto simp: sorted_wrt_iff_nth_less)
  have m: "low \<le> ?m" "?m < high" using less.prems by linarith+
  consider "k = ?m" | "k < ?m" | "?m < k" by linarith
  then show ?case
  proof cases
    case 1
    with less.prems show ?thesis
      by (subst probe_between.simps) (simp add: Let_def)
  next
    case 2
    have "asset_path (assets ! k) < asset_path (assets ! ?m)" using lt 2 m less.prems by simp
    moreover have "probe_between assets (asset_path (assets ! k)) low ?m = Some (assets ! k)"
      by (rule less.hyps) (use 2 m less.prems in auto)
    ultimately show ?thesis
      using less.prems by (subst probe_between.simps) (auto simp: Let_def)
  next
    case 3
    have "asset_path (assets ! ?m) < asset_path (assets ! k)" using lt 3 m less.prems by simp
    moreover have "probe_between assets (asset_path (assets ! k)) (?m + 1) high = Some (assets ! k)"
      by (rule less.hyps) (use 3 m less.prems in auto)
    ultimately show ?thesis
      using less.prems by (subst probe_between.simps) (auto simp: Let_def)
  qed
qed

lemma bundle_find_Some: "bundle_find assets path = Some a \<Longrightarrow> a \<in> set assets \<and> asset_path a = path"
  by (auto simp: bundle_find_def binary_probe_def Let_def find_Some_iff in_set_conv_nth
      split: if_splits option.splits dest: probe_between_Some)

lemma bundle_find_None: "bundle_find assets path = None \<longleftrightarrow> path \<notin> asset_path ` set assets"
  by (auto simp: bundle_find_def Let_def find_None_iff binary_probe_def
      split: option.splits dest: probe_between_Some)

text \<open>Whatever the order of a bundle, \<open>find\<close> returns an asset with exactly the requested path and
  fails only when the bundle has none; on a bundle with strictly increasing paths it returns the one the
  linear scan returns, and the binary probe alone finds it.\<close>

theorem asset_find_correct:
  "(case bundle_find assets path of
      Some a \<Rightarrow> a \<in> set assets \<and> asset_path a = path
    | None \<Rightarrow> path \<notin> asset_path ` set assets) \<and>
   (sorted_wrt (<) (map asset_path assets) \<longrightarrow>
      bundle_find assets path = List.find (\<lambda>a. asset_path a = path) assets \<and>
      binary_probe assets path = List.find (\<lambda>a. asset_path a = path) assets)"
proof -
  have *: "binary_probe assets path = List.find (\<lambda>a. asset_path a = path) assets"
    if s: "sorted_wrt (<) (map asset_path assets)"
  proof (cases "path \<in> asset_path ` set assets")
    case True
    then obtain k where k: "k < length assets" "asset_path (assets ! k) = path"
      by (auto simp: in_set_conv_nth)
    then have "binary_probe assets path = Some (assets ! k)"
      using probe_between_complete [OF s, of 0 k "length assets"] by (simp add: binary_probe_def)
    moreover have "List.find (\<lambda>a. asset_path a = path) assets = Some (assets ! k)"
    proof -
      have "asset_path (assets ! j) \<noteq> path" if "j < k" for j
        using s that k by (auto simp: sorted_wrt_iff_nth_less dest!: spec)
      then show ?thesis using k by (auto simp: find_Some_iff)
    qed
    ultimately show ?thesis by simp
  next
    case False
    then have "binary_probe assets path = None"
      by (cases "binary_probe assets path") (auto simp: binary_probe_def dest!: probe_between_Some)
    moreover have "List.find (\<lambda>a. asset_path a = path) assets = None"
      using False by (auto simp: find_None_iff)
    ultimately show ?thesis by simp
  qed
  then have "bundle_find assets path = List.find (\<lambda>a. asset_path a = path) assets"
    if "sorted_wrt (<) (map asset_path assets)"
    using that by (auto simp: bundle_find_def Let_def split: option.splits)
  with * show ?thesis
    using bundle_find_Some [of assets path] bundle_find_None [of assets path]
    by (auto split: option.splits)
qed

definition sample_bundle :: asset_bundle where
  "sample_bundle = [make_asset ''/a.css'' ''x'' [] [], make_asset ''/b.js'' ''y'' [] []]"

theorem asset_find_correct_witness:
  "sorted_wrt (<) (map asset_path sample_bundle) \<and>
   binary_probe sample_bundle ''/b.js'' = List.find (\<lambda>a. asset_path a = ''/b.js'') sample_bundle \<and>
   bundle_find sample_bundle ''/b.js'' \<noteq> None"
proof -
  have s: "sorted_wrt (<) (map asset_path sample_bundle)" by code_simp
  with asset_find_correct [where assets = sample_bundle and path = "''/b.js''"] show ?thesis
    by (auto simp: sample_bundle_def make_asset_def split: option.splits)
qed

end
