(* ===== verification/Http_Router.thy ===== *)
theory Http_Router
  imports Http_Encoder Http_Assets
begin

text \<open>
  \<open>router.cpp\<close> and \<open>router.hpp\<close>: route patterns, registration and dispatch. Handlers and middleware are
  the application's code, hence functions the model is given; what they throw is a value. The names of
  captured parameters are views of strings the router owns; \<open>names_at\<close> is where those strings lie.
\<close>

datatype 'a call_result = Returned 'a | Threw

type_synonym handler = "request \<Rightarrow> response call_result"
type_synonym middleware = "request \<Rightarrow> response option call_result"

section \<open>Patterns\<close>

datatype route_segment_kind = Segment_Literal | Segment_Parameter | Segment_Wildcard | Segment_Invalid

definition is_reachable_segment :: "bytes \<Rightarrow> bool \<Rightarrow> bool" where
  "is_reachable_segment segment is_final_segment \<longleftrightarrow>
     (if segment = [] then is_final_segment else segment \<noteq> ''.'' \<and> segment \<noteq> ''..'')"

definition classify_segment :: "bytes \<Rightarrow> bool \<Rightarrow> route_segment_kind" where
  "classify_segment segment is_final_segment =
     (if \<not> is_reachable_segment segment is_final_segment then Segment_Invalid
      else if segment = ''*'' then (if is_final_segment then Segment_Wildcard else Segment_Invalid)
      else if sv_contains segment (CHR ''*'') then Segment_Invalid
      else if \<not> (sv_contains segment (CHR ''{'') \<or> sv_contains segment (CHR ''}'')) then Segment_Literal
      else if length segment < 3 \<or> \<not> starts_with_char segment (CHR ''{'') \<or>
              \<not> ends_with_char segment (CHR ''}'') then Segment_Invalid
      else let name = substr segment 1 (length segment - 2) in
           if name = [] \<or> sv_contains name (CHR ''{'') \<or> sv_contains name (CHR ''}'')
           then Segment_Invalid else Segment_Parameter)"

text \<open>The loop of \<open>is_valid_route_pattern\<close>; \<open>rest\<close> is the pattern from \<open>cursor\<close> on.\<close>

function route_pattern_loop :: "nat \<Rightarrow> bytes \<Rightarrow> bool" where
  "route_pattern_loop parameter_count rest =
     (let slash = find_char (CHR ''/'') rest;
          piece = (case slash of None \<Rightarrow> rest | Some i \<Rightarrow> take i rest);
          kind = classify_segment piece (slash = None);
          parameter_count' = (if kind = Segment_Parameter then parameter_count + 1 else parameter_count)
      in if kind = Segment_Invalid then False
         else if kind = Segment_Parameter \<and> parameter_count' > kMaxPathParameters then False
         else case slash of None \<Rightarrow> True
              | Some i \<Rightarrow> route_pattern_loop parameter_count' (drop (i + 1) rest))"
  by pat_completeness auto
termination
  by (relation "measure (\<lambda>(_, rest). length rest)") (auto dest!: find_char_less [OF sym])

declare route_pattern_loop.simps [simp del]

definition is_valid_route_pattern :: "bytes \<Rightarrow> bool" where
  "is_valid_route_pattern pattern \<longleftrightarrow>
     (if pattern = [] \<or> hd pattern \<noteq> CHR ''/'' then False else route_pattern_loop 0 (drop 1 pattern))"

section \<open>The router's state\<close>

record segment =
  seg_literal :: bytes
  seg_parameter_name :: bytes
  seg_is_parameter :: bool

record route =
  rt_methods :: http_method
  rt_pattern :: bytes
  rt_segments :: "segment list"
  rt_has_wildcard :: bool
  rt_handler :: handler

record mount =
  mt_prefix :: bytes
  mt_bundle :: asset_bundle

record router =
  rtr_routes :: "route list"
  rtr_exact_index :: "(bytes, nat list) flat_map"
  rtr_dynamic_routes :: "nat list"
  rtr_mounts :: "mount list"
  rtr_middleware :: "middleware list"
  rtr_fallback :: "handler option"

definition default_router :: router where
  "default_router = \<lparr>rtr_routes = [], rtr_exact_index = [], rtr_dynamic_routes = [], rtr_mounts = [],
     rtr_middleware = [], rtr_fallback = None\<rparr>"

text \<open>The \<open>ServerError\<close>s of registration.\<close>

datatype registration_error =
    NoMethod bytes | EmptyHandler bytes | InvalidPattern bytes | TooManyCaptures bytes nat
  | AlreadyRegistered bytes | MountPrefixNotAbsolute bytes | MountPrefixIsPattern bytes
  | MountPrefixUnreachable bytes | EmptyMiddleware | EmptyFallback | FallbackAlreadySet

section \<open>Registration\<close>

text \<open>The loop of \<open>Router::route\<close> that compiles the pattern: segments, wildcard and number of captures.
  The contract on invalid segments may be switched off; the loop then goes on.\<close>

function compile_loop :: "bytes \<Rightarrow> segment list \<Rightarrow> bool \<Rightarrow> nat \<Rightarrow> segment list \<times> bool \<times> nat" where
  "compile_loop rest segments has_wildcard parameter_count =
     (let slash = find_char (CHR ''/'') rest;
          piece = (case slash of None \<Rightarrow> rest | Some i \<Rightarrow> take i rest);
          kind = classify_segment piece (slash = None);
          has_wildcard' = (kind = Segment_Wildcard \<or> has_wildcard);
          segments' = segments @
            (case kind of
               Segment_Parameter \<Rightarrow> [\<lparr>seg_literal = [], seg_parameter_name = substr piece 1 (length piece - 2),
                                      seg_is_parameter = True\<rparr>]
             | Segment_Literal \<Rightarrow> [\<lparr>seg_literal = piece, seg_parameter_name = [], seg_is_parameter = False\<rparr>]
             | _ \<Rightarrow> []);
          parameter_count' = (if kind = Segment_Parameter then parameter_count + 1 else parameter_count)
      in case slash of
           None \<Rightarrow> (segments', has_wildcard', parameter_count')
         | Some i \<Rightarrow> compile_loop (drop (i + 1) rest) segments' has_wildcard' parameter_count')"
  by pat_completeness auto
termination
  by (relation "measure (\<lambda>(rest, _). length rest)") (auto dest!: find_char_less [OF sym])

declare compile_loop.simps [simp del]

text \<open>\<open>static_cast<uint32_t>\<close> of a \<open>size_t\<close>.\<close>

definition to_uint32 :: "nat \<Rightarrow> nat" where
  "to_uint32 n = n mod 2 ^ 32"

lemma to_uint32_code [code]: "to_uint32 n = nat (int n mod 2 ^ 32)"
  by (simp add: to_uint32_def nat_mod_distrib)

text \<open>\<open>reject_overlap\<close>, asked of every route already registered under the pattern.\<close>

definition overlaps :: "http_method \<Rightarrow> route \<Rightarrow> bool" where
  "overlaps methods existing \<longleftrightarrow> method_and (rt_methods existing) methods \<noteq> Method_None"

definition add_route :: "http_method \<Rightarrow> bytes \<Rightarrow> handler option \<Rightarrow> router \<Rightarrow>
    (registration_error, router) expected" where
  "add_route methods pattern handler r =
     (if methods = Method_None then Inl (NoMethod pattern)
      else case handler of None \<Rightarrow> Inl (EmptyHandler pattern) | Some h \<Rightarrow>
      if \<not> is_valid_route_pattern pattern then Inl (InvalidPattern pattern)
      else
        let (segments, has_wildcard, parameter_count) = compile_loop (drop 1 pattern) [] False 0 in
        if parameter_count > kMaxPathParameters then Inl (TooManyCaptures pattern parameter_count)
        else
          let is_dynamic = (has_wildcard \<or> parameter_count > 0);
              compiled = \<lparr>rt_methods = methods, rt_pattern = pattern,
                          rt_segments = (if is_dynamic then segments else []),
                          rt_has_wildcard = has_wildcard, rt_handler = h\<rparr>;
              rivals = (if is_dynamic
                        then filter (\<lambda>existing. rt_pattern existing = pattern)
                               (map (\<lambda>i. rtr_routes r ! i) (rtr_dynamic_routes r))
                        else case fm_find pattern (rtr_exact_index r) of
                               None \<Rightarrow> [] | Some indices \<Rightarrow> map (\<lambda>i. rtr_routes r ! i) indices) in
          if list_ex (overlaps methods) rivals then Inl (AlreadyRegistered pattern)
          else
            let route_index = to_uint32 (length (rtr_routes r));
                r = r\<lparr>rtr_routes := rtr_routes r @ [compiled]\<rparr> in
            Inr (if is_dynamic
                 then r\<lparr>rtr_dynamic_routes := rtr_dynamic_routes r @ [route_index]\<rparr>
                 else r\<lparr>rtr_exact_index :=
                   fm_insert_or_assign pattern
                     (value_or (fm_find pattern (rtr_exact_index r)) [] @ [route_index])
                     (rtr_exact_index r)\<rparr>))"

definition kGetAndHead :: http_method where "kGetAndHead = method_or Method_Get Method_Head"

definition route_get :: "bytes \<Rightarrow> handler option \<Rightarrow> router \<Rightarrow> (registration_error, router) expected" where
  "route_get pattern handler r = add_route kGetAndHead pattern handler r"

definition route_post :: "bytes \<Rightarrow> handler option \<Rightarrow> router \<Rightarrow> (registration_error, router) expected" where
  "route_post pattern handler r = add_route Method_Post pattern handler r"

definition route_put :: "bytes \<Rightarrow> handler option \<Rightarrow> router \<Rightarrow> (registration_error, router) expected" where
  "route_put pattern handler r = add_route Method_Put pattern handler r"

definition route_patch :: "bytes \<Rightarrow> handler option \<Rightarrow> router \<Rightarrow> (registration_error, router) expected" where
  "route_patch pattern handler r = add_route Method_Patch pattern handler r"

definition route_del :: "bytes \<Rightarrow> handler option \<Rightarrow> router \<Rightarrow> (registration_error, router) expected" where
  "route_del pattern handler r = add_route Method_Delete pattern handler r"

definition route_options :: "bytes \<Rightarrow> handler option \<Rightarrow> router \<Rightarrow> (registration_error, router) expected" where
  "route_options pattern handler r = add_route Method_Options pattern handler r"

definition add_mount :: "bytes \<Rightarrow> asset_bundle \<Rightarrow> router \<Rightarrow> (registration_error, router) expected" where
  "add_mount prefix bundle r =
     (if prefix = [] \<or> hd prefix \<noteq> CHR ''/'' then Inl (MountPrefixNotAbsolute prefix)
      else if sv_contains prefix (CHR ''*'') \<or> sv_contains prefix (CHR ''{'') \<or>
              sv_contains prefix (CHR ''}'') then Inl (MountPrefixIsPattern prefix)
      else if \<not> is_valid_route_pattern prefix then Inl (MountPrefixUnreachable prefix)
      else Inr (r\<lparr>rtr_mounts := rtr_mounts r @
             [\<lparr>mt_prefix = (if ends_with_char prefix (CHR ''/'') then prefix else prefix @ ''/''),
               mt_bundle = bundle\<rparr>]\<rparr>))"

definition add_middleware :: "middleware option \<Rightarrow> router \<Rightarrow> (registration_error, router) expected" where
  "add_middleware middleware r =
     (case middleware of None \<Rightarrow> Inl EmptyMiddleware
      | Some m \<Rightarrow> Inr (r\<lparr>rtr_middleware := rtr_middleware r @ [m]\<rparr>))"

definition set_fallback :: "handler option \<Rightarrow> router \<Rightarrow> (registration_error, router) expected" where
  "set_fallback handler r =
     (case handler of None \<Rightarrow> Inl EmptyFallback
      | Some h \<Rightarrow> if rtr_fallback r \<noteq> None then Inl FallbackAlreadySet
                  else Inr (r\<lparr>rtr_fallback := Some h\<rparr>))"

section \<open>Dispatch\<close>

definition immutable_cache_control :: bytes where
  "immutable_cache_control = ''public, max-age=31536000, immutable''"

text \<open>The loop of \<open>allow_field_value\<close>.\<close>

fun allow_loop :: "http_method \<Rightarrow> http_method list \<Rightarrow> bytes \<Rightarrow> bytes" where
  "allow_loop methods [] value_text = value_text"
| "allow_loop methods (candidate # rest) value_text =
     (if \<not> contains methods candidate then allow_loop methods rest value_text
      else allow_loop methods rest
             ((if value_text \<noteq> [] then value_text @ '', '' else value_text) @ method_name candidate))"

definition allow_field_value :: "http_method \<Rightarrow> bytes" where
  "allow_field_value methods = allow_loop methods kAllMethods []"

definition line_feed_text :: "bytes \<Rightarrow> bytes" where
  "line_feed_text s = s @ [CHR 0x0A]"

definition not_found_response :: response where
  "not_found_response = response_text (line_feed_text ''Not Found'') Status_NotFound"

definition method_not_allowed_response :: "http_method \<Rightarrow> response" where
  "method_not_allowed_response allowed =
     set_header ''Allow'' (allow_field_value allowed)
       (response_text (line_feed_text ''Method Not Allowed'') Status_MethodNotAllowed)"

definition precompressed_asset_not_acceptable :: response where
  "precompressed_asset_not_acceptable =
     set_header ''Vary'' ''Accept-Encoding''
       (response_text (line_feed_text ''Not Acceptable'') Status_NotAcceptable)"

definition internal_error_response :: response where
  "internal_error_response =
     response_text (line_feed_text ''Internal Server Error'') Status_InternalServerError"

definition bad_request_response :: response where
  "bad_request_response = response_text (line_feed_text ''Bad Request'') Status_BadRequest"

definition invoke_handler :: "handler \<Rightarrow> request \<Rightarrow> response" where
  "invoke_handler handler request =
     (case handler request of Returned response \<Rightarrow> response | Threw \<Rightarrow> internal_error_response)"

definition invoke_middleware :: "middleware \<Rightarrow> request \<Rightarrow> response option" where
  "invoke_middleware middleware request =
     (case middleware request of Returned result \<Rightarrow> result | Threw \<Rightarrow> Some internal_error_response)"

text \<open>\<open>find_exact\<close>: \<open>std::lower_bound\<close> over the sorted keys.\<close>

definition find_exact :: "(bytes, nat list) flat_map \<Rightarrow> bytes \<Rightarrow> nat list option" where
  "find_exact index path =
     (case dropWhile (\<lambda>kv. fst kv < path) index of
        [] \<Rightarrow> None
      | kv # _ \<Rightarrow> if fst kv \<noteq> path then None else Some (snd kv))"

definition asset_response :: "asset \<Rightarrow> request \<Rightarrow> response" where
  "asset_response asset request =
     (let is_precompressed = asset_content_encoding asset \<noteq> [];
          if_none_match = header request ''If-None-Match''
      in if is_precompressed \<and> header request ''Accept-Encoding'' \<noteq> None \<and> \<not> req_wants_gzip request
         then precompressed_asset_not_acceptable
         else if asset_etag asset \<noteq> [] \<and> if_none_match \<noteq> None \<and>
                 if_none_match_matches (view_text (the if_none_match)) (asset_etag asset)
         then (let not_modified = set_header ''Cache-Control'' immutable_cache_control
                     (set_header ''ETag'' (asset_etag asset) (response_empty Status_NotModified))
               in if is_precompressed then set_header ''Vary'' ''Accept-Encoding'' not_modified
                  else not_modified)
         else let response = response_borrowed (asset_bytes asset) (asset_content_type asset) Status_Ok;
                  response = (if asset_etag asset \<noteq> []
                              then set_header ''ETag'' (asset_etag asset) response else response);
                  response = (if asset_content_encoding asset \<noteq> []
                              then set_header ''Content-Encoding'' (asset_content_encoding asset) response
                              else response);
                  response = (if is_precompressed
                              then set_header ''Vary'' ''Accept-Encoding'' response else response)
              in set_header ''Cache-Control'' immutable_cache_control response)"

text \<open>The lambda \<open>match\<close>: its loop over the segments yields the captures and what remains of the path.
  Its captures live in a vector of capacity \<open>kMaxPathParameters\<close>.\<close>

fun match_segments :: "(bytes \<Rightarrow> nat) \<Rightarrow> segment list \<Rightarrow> view \<Rightarrow> (header_view list \<times> view) option" where
  "match_segments names_at [] remaining = Some ([], remaining)"
| "match_segments names_at (segment # segments) remaining =
     (if view_text remaining = [] \<or> hd (view_text remaining) \<noteq> CHR ''/'' then None
      else let remaining = view_from remaining 1;
               slash = find_char (CHR ''/'') (view_text remaining);
               piece = (case slash of None \<Rightarrow> remaining | Some i \<Rightarrow> view_substr remaining 0 i);
               remaining' = (case slash of None \<Rightarrow> null_view | Some i \<Rightarrow> view_from remaining i)
           in if seg_is_parameter segment
              then (if view_text piece = [] then None
                    else map_option (\<lambda>(captures, left).
                           (\<lparr>hv_name = \<lparr>view_data = names_at (seg_parameter_name segment),
                                       view_text = seg_parameter_name segment\<rparr>,
                             hv_value = piece\<rparr> # captures, left))
                         (match_segments names_at segments remaining'))
              else if view_text piece \<noteq> seg_literal segment then None
              else match_segments names_at segments remaining')"

definition match_route :: "(bytes \<Rightarrow> nat) \<Rightarrow> route \<Rightarrow> view \<Rightarrow> header_view list option" where
  "match_route names_at candidate path =
     (case match_segments names_at (rt_segments candidate) path of
        None \<Rightarrow> None
      | Some (captures, remaining) \<Rightarrow>
          if rt_has_wildcard candidate
          then (if view_text remaining \<noteq> [] \<and> hd (view_text remaining) = CHR ''/'' then Some captures else None)
          else if view_text remaining = [] then Some captures else None)"

definition invoke_route :: "route \<Rightarrow> header_view list \<Rightarrow> request \<Rightarrow> response \<times> request" where
  "invoke_route route captures request =
     (let request = fold (\<lambda>capture. bind_path_parameter (hv_name capture) (hv_value capture)) captures request
      in (invoke_handler (rt_handler route) request, request))"

text \<open>The three searches of \<open>dispatch\<close>. Each returns what answers the request, or goes on with the methods
  the path would have allowed.\<close>

datatype route_target = To_Route route "header_view list" | To_Asset asset

fun search_exact :: "route list \<Rightarrow> http_method \<Rightarrow> nat list \<Rightarrow> http_method \<Rightarrow> http_method + route_target" where
  "search_exact routes method [] allowed = Inl allowed"
| "search_exact routes method (index # indices) allowed =
     (let candidate = routes ! index in
      if contains (rt_methods candidate) method then Inr (To_Route candidate [])
      else search_exact routes method indices (method_or allowed (rt_methods candidate)))"

fun search_dynamic :: "(bytes \<Rightarrow> nat) \<Rightarrow> route list \<Rightarrow> http_method \<Rightarrow> view \<Rightarrow> nat list \<Rightarrow> http_method \<Rightarrow>
    http_method + route_target" where
  "search_dynamic names_at routes method path [] allowed = Inl allowed"
| "search_dynamic names_at routes method path (index # indices) allowed =
     (let candidate = routes ! index in
      case match_route names_at candidate path of
        None \<Rightarrow> search_dynamic names_at routes method path indices allowed
      | Some captures \<Rightarrow>
          if contains (rt_methods candidate) method then Inr (To_Route candidate captures)
          else search_dynamic names_at routes method path indices (method_or allowed (rt_methods candidate)))"

definition mount_find :: "mount \<Rightarrow> bytes \<Rightarrow> asset option" where
  "mount_find m path =
     (if \<not> starts_with path (mt_prefix m) then None
      else let asset = bundle_find (mt_bundle m) path;
               relative = drop (length (mt_prefix m) - 1) path
           in if asset = None \<and> relative \<noteq> path then bundle_find (mt_bundle m) relative else asset)"

fun search_mounts :: "http_method \<Rightarrow> bytes \<Rightarrow> mount list \<Rightarrow> http_method \<Rightarrow> http_method + route_target" where
  "search_mounts method path [] allowed = Inl allowed"
| "search_mounts method path (asset_mount # mounts) allowed =
     (case mount_find asset_mount path of
        None \<Rightarrow> search_mounts method path mounts allowed
      | Some asset \<Rightarrow>
          if \<not> contains kGetAndHead method
          then search_mounts method path mounts (method_or allowed kGetAndHead)
          else Inr (To_Asset asset))"

definition resolve_route :: "(bytes \<Rightarrow> nat) \<Rightarrow> router \<Rightarrow> http_method \<Rightarrow> view \<Rightarrow> http_method + route_target" where
  "resolve_route names_at r method path =
     (case (case find_exact (rtr_exact_index r) (view_text path) of
              None \<Rightarrow> Inl Method_None
            | Some exact \<Rightarrow> search_exact (rtr_routes r) method exact Method_None) of
        Inr target \<Rightarrow> Inr target
      | Inl allowed \<Rightarrow>
          case search_dynamic names_at (rtr_routes r) method path (rtr_dynamic_routes r) allowed of
            Inr target \<Rightarrow> Inr target
          | Inl allowed \<Rightarrow> search_mounts method (view_text path) (rtr_mounts r) allowed)"

fun run_middleware :: "middleware list \<Rightarrow> request \<Rightarrow> response option" where
  "run_middleware [] request = None"
| "run_middleware (m # ms) request =
     (case invoke_middleware m request of
        Some short_circuit \<Rightarrow> Some short_circuit
      | None \<Rightarrow> run_middleware ms request)"

text \<open>\<open>Router::dispatch\<close>: the response and the request it leaves.\<close>

definition dispatch :: "(bytes \<Rightarrow> nat) \<Rightarrow> router \<Rightarrow> request \<Rightarrow> response \<times> request" where
  "dispatch names_at r request =
     (if req_method request = Method_None then (bad_request_response, request)
      else
        let request = clear_path_parameters request in
        case run_middleware (rtr_middleware r) request of
          Some short_circuit \<Rightarrow> (short_circuit, request)
        | None \<Rightarrow>
          case resolve_route names_at r (req_method request) (req_path request) of
            Inr (To_Route route captures) \<Rightarrow> invoke_route route captures request
          | Inr (To_Asset asset) \<Rightarrow> (asset_response asset request, request)
          | Inl allowed \<Rightarrow>
              if allowed \<noteq> Method_None then (method_not_allowed_response allowed, request)
              else case rtr_fallback r of
                Some handler \<Rightarrow> (invoke_handler handler request, request)
              | None \<Rightarrow> (not_found_response, request))"

text \<open>\<open>Router::paths\<close>: sorted, without repetitions.\<close>

definition router_paths :: "router \<Rightarrow> bytes list" where
  "router_paths r =
     remdups_adj (sort (map rt_pattern (rtr_routes r) @ map (\<lambda>m. mt_prefix m @ ''*'') (rtr_mounts r)))"

section \<open>Patterns as lists of pieces\<close>

text \<open>The reference reading of a pattern and of a path: the pieces between slashes.\<close>

definition pieces :: "bytes \<Rightarrow> bytes list" where
  "pieces t = (case t of [] \<Rightarrow> [] | _ # rest \<Rightarrow> split_on (CHR ''/'') rest)"

definition piece_kinds :: "bytes list \<Rightarrow> route_segment_kind list" where
  "piece_kinds ps = map (\<lambda>p. classify_segment p False) (butlast ps) @ [classify_segment (last ps) True]"

definition captures_declared :: "bytes list \<Rightarrow> nat" where
  "captures_declared ps = length (filter (\<lambda>k. k = Segment_Parameter) (piece_kinds ps))"

definition literal_segment :: "bytes \<Rightarrow> segment" where
  "literal_segment p = \<lparr>seg_literal = p, seg_parameter_name = [], seg_is_parameter = False\<rparr>"

definition parameter_segment :: "bytes \<Rightarrow> segment" where
  "parameter_segment name = \<lparr>seg_literal = [], seg_parameter_name = name, seg_is_parameter = True\<rparr>"

definition compile_piece :: "bytes \<Rightarrow> route_segment_kind \<Rightarrow> segment list" where
  "compile_piece p k =
     (case k of Segment_Parameter \<Rightarrow> [parameter_segment (substr p 1 (length p - 2))]
      | Segment_Literal \<Rightarrow> [literal_segment p] | _ \<Rightarrow> [])"

definition compiled_segments :: "bytes list \<Rightarrow> segment list" where
  "compiled_segments ps = concat (map2 compile_piece ps (piece_kinds ps))"

lemma piece_kinds_single: "piece_kinds [p] = [classify_segment p True]"
  by (simp add: piece_kinds_def)

lemma piece_kinds_Cons: "ps \<noteq> [] \<Longrightarrow> piece_kinds (p # ps) = classify_segment p False # piece_kinds ps"
  by (simp add: piece_kinds_def)

lemma captures_declared_single:
  "captures_declared [p] = (if classify_segment p True = Segment_Parameter then 1 else 0)"
  by (simp add: captures_declared_def piece_kinds_single)

lemma captures_declared_Cons:
  "ps \<noteq> [] \<Longrightarrow> captures_declared (p # ps) =
     (if classify_segment p False = Segment_Parameter then 1 else 0) + captures_declared ps"
  by (simp add: captures_declared_def piece_kinds_Cons)

lemma compiled_segments_single: "compiled_segments [p] = compile_piece p (classify_segment p True)"
  by (simp add: compiled_segments_def piece_kinds_single)

lemma compiled_segments_Cons:
  "ps \<noteq> [] \<Longrightarrow> compiled_segments (p # ps) = compile_piece p (classify_segment p False) @ compiled_segments ps"
  by (simp add: compiled_segments_def piece_kinds_Cons)

lemma length_piece_kinds: "ps \<noteq> [] \<Longrightarrow> length (piece_kinds ps) = length ps"
  by (simp add: piece_kinds_def)

lemma wildcard_only_final: "classify_segment p False \<noteq> Segment_Wildcard"
  by (simp add: classify_segment_def Let_def)

lemmas pieces_simps = piece_kinds_single piece_kinds_Cons captures_declared_single captures_declared_Cons
  compiled_segments_single compiled_segments_Cons

text \<open>The loop of \<open>is_valid_route_pattern\<close> accepts exactly the patterns whose pieces are all valid and
  declare no more captures than fit.\<close>

lemma route_pattern_loop_iff:
  "n \<le> kMaxPathParameters \<Longrightarrow> route_pattern_loop n rest \<longleftrightarrow>
     Segment_Invalid \<notin> set (piece_kinds (split_on (CHR ''/'') rest)) \<and>
     n + captures_declared (split_on (CHR ''/'') rest) \<le> kMaxPathParameters"
proof (induction n rest rule: route_pattern_loop.induct)
  case (1 n rest)
  show ?case
  proof (cases "find_char (CHR ''/'') rest")
    case None
    then show ?thesis using 1(2)
      by (auto simp: route_pattern_loop.simps [of n rest] Let_def split_on_None pieces_simps)
  next
    case (Some i)
    let ?p = "take i rest" and ?k = "classify_segment (take i rest) False"
    have IH: "route_pattern_loop m (drop (Suc i) rest) \<longleftrightarrow>
        Segment_Invalid \<notin> set (piece_kinds (split_on (CHR ''/'') (drop (Suc i) rest))) \<and>
        m + captures_declared (split_on (CHR ''/'') (drop (Suc i) rest)) \<le> kMaxPathParameters"
      if "?k \<noteq> Segment_Invalid" "m = (if ?k = Segment_Parameter then n + 1 else n)"
        "m \<le> kMaxPathParameters" for m
      using 1(1) [OF refl refl refl refl] that Some by (auto split: if_splits)
    show ?thesis
      using 1(2) Some IH [of "n + 1"] IH [of n]
      by (auto simp: route_pattern_loop.simps [of n rest] Let_def split_on_Some pieces_simps)
  qed
qed

lemma compile_loop_eq:
  "compile_loop rest segs w n =
     (segs @ compiled_segments (split_on (CHR ''/'') rest),
      w \<or> last (split_on (CHR ''/'') rest) = ''*'',
      n + captures_declared (split_on (CHR ''/'') rest))"
proof (induction rest segs w n rule: compile_loop.induct)
  case (1 rest segs w n)
  have star: "classify_segment p True = Segment_Wildcard \<longleftrightarrow> p = ''*''" for p
    by (auto simp: classify_segment_def is_reachable_segment_def Let_def)
  have seg: "(case k of Segment_Parameter \<Rightarrow> [\<lparr>seg_literal = [], seg_parameter_name = substr p 1 (length p - 2),
                seg_is_parameter = True\<rparr>]
             | Segment_Literal \<Rightarrow> [\<lparr>seg_literal = p, seg_parameter_name = [], seg_is_parameter = False\<rparr>]
             | _ \<Rightarrow> []) = compile_piece p k" for p k
    by (cases k) (simp_all add: compile_piece_def literal_segment_def parameter_segment_def)
  show ?case
  proof (cases "find_char (CHR ''/'') rest")
    case None
    then show ?thesis
      by (auto simp: compile_loop.simps [of rest segs w n] Let_def split_on_None pieces_simps seg star)
  next
    case (Some i)
    show ?thesis
      using 1 [OF refl refl refl refl refl refl, unfolded seg] Some
      by (simp add: compile_loop.simps [of rest segs w n] Let_def split_on_Some pieces_simps seg
          wildcard_only_final)
  qed
qed

lemma valid_pattern_iff:
  "is_valid_route_pattern pattern \<longleftrightarrow>
     pattern \<noteq> [] \<and> hd pattern = CHR ''/'' \<and> Segment_Invalid \<notin> set (piece_kinds (pieces pattern)) \<and>
     captures_declared (pieces pattern) \<le> kMaxPathParameters"
  by (cases pattern)
    (simp_all add: is_valid_route_pattern_def pieces_def route_pattern_loop_iff)

section \<open>Matching\<close>

text \<open>What it means for a path to match a pattern, and what it captures.\<close>

definition is_capture :: "bytes \<Rightarrow> bool" where
  "is_capture q \<longleftrightarrow> classify_segment q True = Segment_Parameter"

definition capture_name :: "bytes \<Rightarrow> bytes" where
  "capture_name q = substr q 1 (length q - 2)"

definition piece_matches :: "bytes \<Rightarrow> bytes \<Rightarrow> bool" where
  "piece_matches q p \<longleftrightarrow> (if is_capture q then p \<noteq> [] else p = q)"

definition has_star :: "bytes \<Rightarrow> bool" where
  "has_star pattern \<longleftrightarrow> last (pieces pattern) = ''*''"

definition fixed_pieces :: "bytes \<Rightarrow> bytes list" where
  "fixed_pieces pattern = (if has_star pattern then butlast (pieces pattern) else pieces pattern)"

definition pattern_matches :: "bytes \<Rightarrow> bytes \<Rightarrow> bool" where
  "pattern_matches pattern path \<longleftrightarrow>
     starts_with_char path (CHR ''/'') \<and>
     (if has_star pattern then length (fixed_pieces pattern) < length (pieces path)
      else length (fixed_pieces pattern) = length (pieces path)) \<and>
     list_all2 piece_matches (fixed_pieces pattern) (take (length (fixed_pieces pattern)) (pieces path))"

definition captured :: "bytes \<Rightarrow> bytes \<Rightarrow> (bytes \<times> bytes) list" where
  "captured pattern path =
     map (\<lambda>(q, p). (capture_name q, p)) (filter (\<lambda>(q, p). is_capture q) (zip (fixed_pieces pattern) (pieces path)))"

definition capture_texts :: "header_view list \<Rightarrow> (bytes \<times> bytes) list" where
  "capture_texts captures = map (\<lambda>h. (view_text (hv_name h), view_text (hv_value h))) captures"

definition segment_of :: "bytes \<Rightarrow> segment" where
  "segment_of q = (if is_capture q then parameter_segment (capture_name q) else literal_segment q)"

lemma classify_capture: "classify_segment q final = Segment_Parameter \<longleftrightarrow> is_capture q"
  by (cases final) (auto simp: is_capture_def classify_segment_def is_reachable_segment_def Let_def sv_contains_def)

lemma capture_piece: "is_capture q \<Longrightarrow> q = CHR ''{'' # capture_name q @ ''}'' \<and> capture_name q \<noteq> []"
proof -
  assume "is_capture q"
  then have "3 \<le> length q" "hd q = CHR ''{''" "last q = CHR ''}''" "capture_name q \<noteq> []"
    by (auto simp: is_capture_def classify_segment_def Let_def starts_with_char_def ends_with_char_def
        capture_name_def split: if_splits)
  moreover have "capture_name q = butlast (tl q)"
    by (simp add: capture_name_def substr_def butlast_conv_take drop_Suc numeral_2_eq_2)
  ultimately show ?thesis
    by (cases q) (simp_all, metis append_butlast_last_id last_ConsR list.size(3) not_numeral_le_zero
        Suc_le_eq length_greater_0_conv numeral_3_eq_3)
qed

lemma classify_starTrue: "classify_segment p True = Segment_Wildcard \<longleftrightarrow> p = ''*''"
  by (auto simp: classify_segment_def is_reachable_segment_def Let_def)

lemma compile_piece_valid:
  assumes "classify_segment p final \<noteq> Segment_Invalid" "classify_segment p final \<noteq> Segment_Wildcard"
  shows "compile_piece p (classify_segment p final) = [segment_of p]"
  using assms classify_capture [of p final]
  by (cases "classify_segment p final") (auto simp: compile_piece_def segment_of_def capture_name_def)

lemma compiled_segments_valid:
  "ps \<noteq> [] \<Longrightarrow> Segment_Invalid \<notin> set (piece_kinds ps) \<Longrightarrow>
     compiled_segments ps = map segment_of (if last ps = ''*'' then butlast ps else ps)"
proof (induction ps)
  case (Cons p ps)
  show ?case
  proof (cases "ps = []")
    case True
    with Cons.prems show ?thesis
      using compile_piece_valid [of p True] classify_starTrue [of p]
      by (auto simp: pieces_simps compile_piece_def)
  next
    case False
    with Cons show ?thesis
      using compile_piece_valid [of p False] wildcard_only_final [of p] by (auto simp: pieces_simps)
  qed
qed simp

lemma pieces_Cons: "pieces (CHR ''/'' # r) = split_on (CHR ''/'') r"
  by (simp add: pieces_def)

lemma pieces_not_Nil: "t \<noteq> [] \<Longrightarrow> pieces t \<noteq> []"
  by (cases t) (simp_all add: pieces_def)

lemma pieces_eq_Nil [simp]: "pieces t = [] \<longleftrightarrow> t = []"
  by (cases t) (simp_all add: pieces_def)

lemma pieces_step:
  assumes "t = CHR ''/'' # r"
  shows "find_char (CHR ''/'') r = None \<Longrightarrow> pieces t = [r]"
    and "find_char (CHR ''/'') r = Some i \<Longrightarrow>
      pieces t = take i r # pieces (drop i r) \<and> drop i r \<noteq> [] \<and> hd (drop i r) = CHR ''/''"
proof -
  show "find_char (CHR ''/'') r = None \<Longrightarrow> pieces t = [r]"
    by (simp add: assms pieces_Cons split_on_None)
  assume i: "find_char (CHR ''/'') r = Some i"
  then have "drop i r = CHR ''/'' # drop (Suc i) r"
    using find_char_SomeD [OF i] by (metis Cons_nth_drop_Suc)
  with i show "pieces t = take i r # pieces (drop i r) \<and> drop i r \<noteq> [] \<and> hd (drop i r) = CHR ''/''"
    by (simp add: assms pieces_Cons split_on_Some)
qed

text \<open>\<open>rooted\<close>: what the matching loop keeps of the remaining path.\<close>

definition rooted :: "bytes \<Rightarrow> bool" where
  "rooted t \<longleftrightarrow> t = [] \<or> hd t = CHR ''/''"

lemma match_segments_spec:
  "rooted (view_text remaining) \<Longrightarrow>
   (case match_segments names_at (map segment_of qs) remaining of
      None \<Rightarrow> \<not> (length qs \<le> length (pieces (view_text remaining)) \<and>
                  list_all2 piece_matches qs (take (length qs) (pieces (view_text remaining))))
    | Some result \<Rightarrow>
        length qs \<le> length (pieces (view_text remaining)) \<and>
        list_all2 piece_matches qs (take (length qs) (pieces (view_text remaining))) \<and>
        rooted (view_text (snd result)) \<and>
        pieces (view_text (snd result)) = drop (length qs) (pieces (view_text remaining)) \<and>
        capture_texts (fst result) =
          map (\<lambda>(q, p). (capture_name q, p))
            (filter (\<lambda>(q, p). is_capture q) (zip qs (pieces (view_text remaining)))))"
proof (induction qs arbitrary: remaining)
  case Nil
  then show ?case by (simp add: capture_texts_def)
next
  case (Cons q qs)
  show ?case
  proof (cases "view_text remaining = []")
    case True
    then show ?thesis by (simp add: pieces_def)
  next
    case False
    then obtain r where t: "view_text remaining = CHR ''/'' # r"
      using Cons.prems by (cases "view_text remaining") (auto simp: rooted_def)
    define rest where "rest = (case find_char (CHR ''/'') r of None \<Rightarrow> null_view
      | Some i \<Rightarrow> view_from (view_from remaining 1) i)"
    define piece where "piece = (case find_char (CHR ''/'') r of None \<Rightarrow> r | Some i \<Rightarrow> take i r)"
    have split: "rooted (view_text rest)" "pieces (view_text remaining) = piece # pieces (view_text rest)"
      using pieces_step [OF t]
      by (auto simp: rest_def piece_def t rooted_def pieces_def split: option.splits list.splits)
    have r1: "view_text (view_from remaining 1) = r" by (simp add: t)
    note IH = Cons.IH [OF split(1)]
    show ?thesis
    proof (cases "piece_matches q piece")
      case False
      then have "match_segments names_at (map segment_of (q # qs)) remaining = None"
        using t by (auto simp: r1 Let_def piece_def piece_matches_def segment_of_def
            parameter_segment_def literal_segment_def split: option.splits if_splits)
      with False show ?thesis by (simp add: split(2))
    next
      case True
      have step: "match_segments names_at (map segment_of (q # qs)) remaining =
          map_option (\<lambda>(captures, left).
             (if is_capture q then \<lparr>hv_name = \<lparr>view_data = names_at (capture_name q), view_text = capture_name q\<rparr>,
                hv_value = capture_view\<rparr> # captures else captures, left))
            (match_segments names_at (map segment_of qs) rest)"
        if "capture_view = (case find_char (CHR ''/'') r of None \<Rightarrow> view_from remaining 1
              | Some i \<Rightarrow> view_substr (view_from remaining 1) 0 i)" for capture_view
        using True t that
        by (cases "is_capture q"; cases "find_char (CHR ''/'') r")
          (simp_all add: Let_def rest_def piece_def piece_matches_def segment_of_def
            parameter_segment_def literal_segment_def option.map_id)
      note step = step [OF refl]
      have ptext: "view_text (case find_char (CHR ''/'') r of None \<Rightarrow> view_from remaining 1
          | Some i \<Rightarrow> view_substr (view_from remaining 1) 0 i) = piece"
        by (simp add: piece_def t split: option.splits)
      show ?thesis
      proof (cases "match_segments names_at (map segment_of qs) rest")
        case None
        with IH show ?thesis by (simp only: step) (simp add: split(2) True)
      next
        case (Some res)
        with IH True show ?thesis
          by (simp only: step)
            (auto simp: split(2) capture_texts_def ptext simp del: One_nat_def split: prod.splits)
      qed
    qed
  qed
qed

section \<open>The invariant of registration\<close>

definition pattern_dynamic :: "bytes \<Rightarrow> bool" where
  "pattern_dynamic pattern \<longleftrightarrow> has_star pattern \<or> (\<exists>q \<in> set (pieces pattern). is_capture q)"

definition route_ok :: "route \<Rightarrow> bool" where
  "route_ok rt \<longleftrightarrow> rt_methods rt \<noteq> Method_None \<and> is_valid_route_pattern (rt_pattern rt) \<and>
     rt_has_wildcard rt = has_star (rt_pattern rt) \<and>
     rt_segments rt = (if pattern_dynamic (rt_pattern rt) then map segment_of (fixed_pieces (rt_pattern rt)) else [])"

definition indices_where :: "('a \<Rightarrow> bool) \<Rightarrow> 'a list \<Rightarrow> nat list" where
  "indices_where P xs = filter (\<lambda>i. P (xs ! i)) [0..<length xs]"

definition mount_ok :: "mount \<Rightarrow> bool" where
  "mount_ok m \<longleftrightarrow> starts_with_char (mt_prefix m) (CHR ''/'') \<and> ends_with_char (mt_prefix m) (CHR ''/'')"

text \<open>The indexes name exactly the routes they stand for, in registration order, and no method is
  registered twice under one pattern.\<close>

definition router_ok :: "router \<Rightarrow> bool" where
  "router_ok r \<longleftrightarrow>
     list_all route_ok (rtr_routes r) \<and> list_all mount_ok (rtr_mounts r) \<and> fm_ok (rtr_exact_index r) \<and>
     (\<forall>k. value_or (fm_find k (rtr_exact_index r)) [] =
            indices_where (\<lambda>rt. rt_pattern rt = k \<and> \<not> pattern_dynamic k) (rtr_routes r)) \<and>
     rtr_dynamic_routes r = indices_where (\<lambda>rt. pattern_dynamic (rt_pattern rt)) (rtr_routes r) \<and>
     sorted_wrt (\<lambda>a b. rt_pattern a = rt_pattern b \<longrightarrow> method_and (rt_methods a) (rt_methods b) = Method_None)
       (rtr_routes r)"

inductive registered :: "router \<Rightarrow> bool" where
  registered_new: "registered default_router"
| registered_route: "registered r \<Longrightarrow> add_route methods pattern handler r = Inr r' \<Longrightarrow> registered r'"
| registered_mount: "registered r \<Longrightarrow> add_mount prefix bundle r = Inr r' \<Longrightarrow> registered r'"
| registered_middleware: "registered r \<Longrightarrow> add_middleware m r = Inr r' \<Longrightarrow> registered r'"
| registered_fallback: "registered r \<Longrightarrow> set_fallback h r = Inr r' \<Longrightarrow> registered r'"

lemma map_nth_indices: "map (\<lambda>i. xs ! i) (indices_where P xs) = filter P xs"
proof -
  have "filter P xs = filter P (map (\<lambda>i. xs ! i) [0..<length xs])" by (simp add: map_nth)
  then show ?thesis by (simp add: indices_where_def filter_map o_def)
qed

lemma indices_where_snoc:
  "indices_where P (xs @ [x]) = indices_where P xs @ (if P x then [length xs] else [])"
  by (auto simp: indices_where_def nth_append intro!: filter_cong)

lemma captures_declared_eq: "ps \<noteq> [] \<Longrightarrow> captures_declared ps = length (filter is_capture ps)"
proof (induction ps)
  case (Cons p ps)
  then show ?case by (cases "ps = []") (simp_all add: pieces_simps classify_capture)
qed simp

lemma captures_declared_pos: "ps \<noteq> [] \<Longrightarrow> 0 < captures_declared ps \<longleftrightarrow> (\<exists>q \<in> set ps. is_capture q)"
  by (simp add: captures_declared_eq filter_empty_conv)

lemma compile_pattern:
  assumes "is_valid_route_pattern pattern"
  shows "compile_loop (drop 1 pattern) [] False 0 =
    (map segment_of (fixed_pieces pattern), has_star pattern, captures_declared (pieces pattern))"
proof -
  obtain rest where p: "pattern = CHR ''/'' # rest"
    using assms by (cases pattern) (auto simp: valid_pattern_iff)
  then have "pieces pattern = split_on (CHR ''/'') rest" by (simp add: pieces_Cons)
  moreover have "Segment_Invalid \<notin> set (piece_kinds (pieces pattern))"
    using assms by (simp add: valid_pattern_iff)
  ultimately show ?thesis
    using compiled_segments_valid [of "pieces pattern"]
    by (simp add: compile_loop_eq p fixed_pieces_def has_star_def)
qed

text \<open>A successful registration, spelled out over pieces. The capture count needs no second check.\<close>

lemma add_route_InrD:
  assumes "add_route methods pattern handler r = Inr r'"
  obtains h where "handler = Some h" "methods \<noteq> Method_None" "is_valid_route_pattern pattern"
    "\<not> list_ex (overlaps methods)
       (if pattern_dynamic pattern
        then filter (\<lambda>e. rt_pattern e = pattern) (map (\<lambda>i. rtr_routes r ! i) (rtr_dynamic_routes r))
        else map (\<lambda>i. rtr_routes r ! i) (value_or (fm_find pattern (rtr_exact_index r)) []))"
    "r' = (if pattern_dynamic pattern
       then r\<lparr>rtr_routes := rtr_routes r @ [\<lparr>rt_methods = methods, rt_pattern = pattern,
                rt_segments = map segment_of (fixed_pieces pattern), rt_has_wildcard = has_star pattern,
                rt_handler = h\<rparr>],
              rtr_dynamic_routes := rtr_dynamic_routes r @ [to_uint32 (length (rtr_routes r))]\<rparr>
       else r\<lparr>rtr_routes := rtr_routes r @ [\<lparr>rt_methods = methods, rt_pattern = pattern,
                rt_segments = [], rt_has_wildcard = has_star pattern, rt_handler = h\<rparr>],
              rtr_exact_index := fm_insert_or_assign pattern
                (value_or (fm_find pattern (rtr_exact_index r)) [] @ [to_uint32 (length (rtr_routes r))])
                (rtr_exact_index r)\<rparr>)"
proof -
  obtain h where h: "handler = Some h" and v: "is_valid_route_pattern pattern" and m: "methods \<noteq> Method_None"
    using assms by (auto simp: add_route_def split: option.splits if_splits)
  have ne: "pieces pattern \<noteq> []" using v by (auto simp: valid_pattern_iff pieces_not_Nil)
  have dyn: "(has_star pattern \<or> 0 < captures_declared (pieces pattern)) = pattern_dynamic pattern"
    by (simp add: pattern_dynamic_def captures_declared_pos [OF ne])
  have few: "\<not> kMaxPathParameters < captures_declared (pieces pattern)"
    using v by (simp add: valid_pattern_iff)
  have rivals: "(case fm_find pattern (rtr_exact_index r) of None \<Rightarrow> []
      | Some indices \<Rightarrow> map (\<lambda>i. rtr_routes r ! i) indices) =
    map (\<lambda>i. rtr_routes r ! i) (value_or (fm_find pattern (rtr_exact_index r)) [])"
    by (simp add: value_or_def split: option.splits)
  show thesis
    using assms that [OF h m v]
    by (simp add: add_route_def h m v compile_pattern [OF v, simplified] few dyn Let_def rivals
        split: if_splits)
qed

lemma overlaps_free:
  assumes "\<not> list_ex (overlaps methods) (filter (\<lambda>e. rt_pattern e = pattern) rs)"
    and "sorted_wrt (\<lambda>a b. rt_pattern a = rt_pattern b \<longrightarrow> method_and (rt_methods a) (rt_methods b) = Method_None) rs"
    and "rt_pattern new = pattern" "rt_methods new = methods"
  shows "sorted_wrt (\<lambda>a b. rt_pattern a = rt_pattern b \<longrightarrow> method_and (rt_methods a) (rt_methods b) = Method_None)
    (rs @ [new])"
  using assms by (auto simp: sorted_wrt_append overlaps_def list_ex_iff)

lemma add_route_ok:
  assumes ok: "router_ok r" and add: "add_route methods pattern handler r = Inr r'"
    and room: "length (rtr_routes r') \<le> 2 ^ 32"
  shows "router_ok r'"
proof -
  obtain h where m: "methods \<noteq> Method_None" and v: "is_valid_route_pattern pattern"
    and free: "\<not> list_ex (overlaps methods)
       (if pattern_dynamic pattern
        then filter (\<lambda>e. rt_pattern e = pattern) (map (\<lambda>i. rtr_routes r ! i) (rtr_dynamic_routes r))
        else map (\<lambda>i. rtr_routes r ! i) (value_or (fm_find pattern (rtr_exact_index r)) []))"
    and r': "r' = (if pattern_dynamic pattern
       then r\<lparr>rtr_routes := rtr_routes r @ [\<lparr>rt_methods = methods, rt_pattern = pattern,
                rt_segments = map segment_of (fixed_pieces pattern), rt_has_wildcard = has_star pattern,
                rt_handler = h\<rparr>],
              rtr_dynamic_routes := rtr_dynamic_routes r @ [to_uint32 (length (rtr_routes r))]\<rparr>
       else r\<lparr>rtr_routes := rtr_routes r @ [\<lparr>rt_methods = methods, rt_pattern = pattern,
                rt_segments = [], rt_has_wildcard = has_star pattern, rt_handler = h\<rparr>],
              rtr_exact_index := fm_insert_or_assign pattern
                (value_or (fm_find pattern (rtr_exact_index r)) [] @ [to_uint32 (length (rtr_routes r))])
                (rtr_exact_index r)\<rparr>)"
    by (rule add_route_InrD [OF add], rule that, assumption+)
  have idx: "to_uint32 (length (rtr_routes r)) = length (rtr_routes r)"
    using room by (auto simp: r' to_uint32_def split: if_splits)
  have rivals: "\<not> list_ex (overlaps methods) (filter (\<lambda>e. rt_pattern e = pattern) (rtr_routes r))"
    using free ok
    by (auto simp: router_ok_def map_nth_indices list_ex_iff split: if_splits)
  show ?thesis
  proof (cases "pattern_dynamic pattern")
    case True
    then show ?thesis
      using ok m v overlaps_free [OF rivals, of "last (rtr_routes r')"]
      by (auto simp: router_ok_def r' idx route_ok_def indices_where_snoc)
  next
    case False
    then have "\<not> has_star pattern" by (simp add: pattern_dynamic_def)
    with False show ?thesis
      using ok m v overlaps_free [OF rivals, of "last (rtr_routes r')"]
      by (auto simp: router_ok_def r' idx route_ok_def indices_where_snoc fm_find_insert value_or_def)
  qed
qed

lemma add_route_length: "add_route methods pattern handler r = Inr r' \<Longrightarrow>
    length (rtr_routes r') = Suc (length (rtr_routes r))"
  by (erule add_route_InrD) (auto split: if_splits)

lemma registered_ok: "registered r \<Longrightarrow> length (rtr_routes r) \<le> 2 ^ 32 \<Longrightarrow> router_ok r"
proof (induction rule: registered.induct)
  case registered_new
  then show ?case
    by (simp add: router_ok_def default_router_def indices_where_def value_or_def)
next
  case (registered_route r methods pattern handler r')
  then show ?case
    using add_route_ok [of r methods pattern handler r'] add_route_length by (metis Suc_leD)
next
  case (registered_mount r pre assets r')
  then show ?case
    by (auto simp: router_ok_def add_mount_def mount_ok_def starts_with_char_def ends_with_char_def
        split: if_splits)
next
  case (registered_middleware r m r')
  then show ?case
    by (auto simp: router_ok_def add_middleware_def split: option.splits)
next
  case (registered_fallback r h r')
  then show ?case
    by (auto simp: router_ok_def set_fallback_def split: option.splits if_splits)
qed

section \<open>What dispatch promises\<close>

text \<open>The abstract router: literal patterns win over dynamic ones, registration order decides among
  equals, then the first mount that has the asset.\<close>

definition candidates :: "route list \<Rightarrow> bytes \<Rightarrow> route list" where
  "candidates rs path =
     filter (\<lambda>rt. \<not> pattern_dynamic (rt_pattern rt) \<and> pattern_matches (rt_pattern rt) path) rs @
     filter (\<lambda>rt. pattern_dynamic (rt_pattern rt) \<and> pattern_matches (rt_pattern rt) path) rs"

definition chosen_route :: "router \<Rightarrow> http_method \<Rightarrow> bytes \<Rightarrow> route option" where
  "chosen_route r method path =
     List.find (\<lambda>rt. contains (rt_methods rt) method) (candidates (rtr_routes r) path)"

definition chosen_asset :: "router \<Rightarrow> bytes \<Rightarrow> asset option" where
  "chosen_asset r path = (case List.find (\<lambda>m. mount_find m path \<noteq> None) (rtr_mounts r) of
     None \<Rightarrow> None | Some m \<Rightarrow> mount_find m path)"

definition served_methods :: "router \<Rightarrow> bytes \<Rightarrow> http_method set" where
  "served_methods r path =
     {m \<in> set kAllMethods. chosen_route r m path \<noteq> None \<or>
        (chosen_asset r path \<noteq> None \<and> contains kGetAndHead m)}"

lemma find_append: "List.find P (xs @ ys) = (case List.find P xs of None \<Rightarrow> List.find P ys | Some x \<Rightarrow> Some x)"
  by (induction xs) auto

lemma find_in_set: "List.find P xs = Some x \<Longrightarrow> x \<in> set xs \<and> P x"
  by (induction xs) (auto split: if_splits)

lemma find_exact_eq: "fm_ok m \<Longrightarrow> find_exact m path = fm_find path m"
proof (induction m)
  case (Cons kv m)
  have "map_of m path = None" if "path \<le> fst kv"
    using Cons.prems that by (auto simp: fm_ok_def map_of_eq_None_iff)
  with Cons show ?case
    by (cases "fst kv < path") (auto simp: find_exact_def fm_find_def fm_ok_def not_less split: prod.splits)
qed (simp add: find_exact_def)

lemma static_matches:
  assumes "is_valid_route_pattern pattern" "\<not> pattern_dynamic pattern"
  shows "pattern_matches pattern path \<longleftrightarrow> path = pattern"
proof
  have star: "\<not> has_star pattern" and lit: "\<forall>q \<in> set (pieces pattern). \<not> is_capture q"
    using assms(2) by (auto simp: pattern_dynamic_def)
  obtain rest where p: "pattern = CHR ''/'' # rest"
    using assms by (cases pattern) (auto simp: valid_pattern_iff)
  have eq: "list_all2 piece_matches (pieces pattern) ps \<longleftrightarrow> ps = pieces pattern" for ps
    using lit by (auto simp: list_all2_conv_all_nth piece_matches_def intro: nth_equalityI)
  show "path = pattern" if matches: "pattern_matches pattern path"
  proof -
    obtain rest' where p': "path = CHR ''/'' # rest'"
      using matches by (cases path) (auto simp: pattern_matches_def)
    have "pieces path = pieces pattern"
      using matches star eq by (metis pattern_matches_def fixed_pieces_def take_all_iff order_refl)
    then have "join_with ''/'' (split_on (CHR ''/'') rest') = join_with ''/'' (split_on (CHR ''/'') rest)"
      by (simp add: p p' pieces_Cons)
    then show ?thesis by (simp add: join_split_on p p')
  qed
  show "pattern_matches pattern path" if "path = pattern"
    using that star eq p by (simp add: pattern_matches_def fixed_pieces_def starts_with_char_def)
qed

lemma match_route_spec:
  assumes "route_ok rt" "pattern_dynamic (rt_pattern rt)"
  shows "match_route names_at rt path \<noteq> None \<longleftrightarrow> pattern_matches (rt_pattern rt) (view_text path)"
    and "match_route names_at rt path = Some captures \<Longrightarrow>
      capture_texts captures = captured (rt_pattern rt) (view_text path)"
proof -
  let ?p = "rt_pattern rt" and ?t = "view_text path"
  have segs: "rt_segments rt = map segment_of (fixed_pieces ?p)" "rt_has_wildcard rt = has_star ?p"
    using assms by (auto simp: route_ok_def)
  have v: "is_valid_route_pattern ?p" using assms by (simp add: route_ok_def)
  have ne: "fixed_pieces ?p \<noteq> []" if "\<not> has_star ?p"
    using v that by (auto simp: fixed_pieces_def valid_pattern_iff pieces_not_Nil)
  have left: "(t \<noteq> [] \<and> hd t = CHR ''/'') = (pieces t \<noteq> [])" "(t = []) = (pieces t = [])" if "rooted t" for t
    using that by (auto simp: rooted_def)
  have unrooted: "match_segments names_at (map segment_of (fixed_pieces ?p)) path = None"
    if "\<not> rooted ?t" "fixed_pieces ?p \<noteq> []"
    using that by (cases "fixed_pieces ?p") (auto simp: rooted_def)
  have start: "starts_with_char ?t (CHR ''/'') \<longleftrightarrow> rooted ?t \<and> pieces ?t \<noteq> []"
    by (auto simp: rooted_def starts_with_char_def)
  note spec = match_segments_spec [where remaining = path and names_at = names_at and qs = "fixed_pieces ?p"]
  have iff: "match_route names_at rt path \<noteq> None \<longleftrightarrow> pattern_matches ?p ?t"
  proof (cases "rooted ?t")
    case True
    note spec = spec [OF True]
    show ?thesis
    proof (cases "match_segments names_at (map segment_of (fixed_pieces ?p)) path")
      case None
      with spec show ?thesis by (auto simp: match_route_def segs pattern_matches_def split: if_splits)
    next
      case (Some res)
      with spec have res: "length (fixed_pieces ?p) \<le> length (pieces ?t)" "rooted (view_text (snd res))"
        "list_all2 piece_matches (fixed_pieces ?p) (take (length (fixed_pieces ?p)) (pieces ?t))"
        "pieces (view_text (snd res)) = drop (length (fixed_pieces ?p)) (pieces ?t)"
        by auto
      have "match_route names_at rt path \<noteq> None \<longleftrightarrow>
          (if has_star ?p then pieces (view_text (snd res)) \<noteq> [] else pieces (view_text (snd res)) = [])"
        using Some res(2) by (cases res) (auto simp: match_route_def segs rooted_def)
      also have "\<dots> \<longleftrightarrow> (if has_star ?p then length (fixed_pieces ?p) < length (pieces ?t)
          else length (fixed_pieces ?p) = length (pieces ?t))"
        using res(1) by (simp only: res(4) drop_eq_Nil) auto
      finally show ?thesis
        using res ne by (cases "?t = []") (auto simp: pattern_matches_def start True pieces_def)
    qed
  next
    case False
    then have "\<not> pattern_matches ?p ?t" by (simp add: pattern_matches_def start)
    moreover have "match_route names_at rt path = None"
      using unrooted [OF False] ne False
      by (cases "fixed_pieces ?p = []") (auto simp: match_route_def segs rooted_def)
    ultimately show ?thesis by simp
  qed
  show "match_route names_at rt path \<noteq> None \<longleftrightarrow> pattern_matches ?p ?t" by (rule iff)
  assume m: "match_route names_at rt path = Some captures"
  with iff have "rooted ?t" by (simp add: pattern_matches_def start)
  from spec [OF this] m show "capture_texts captures = captured ?p ?t"
    by (auto simp: match_route_def segs captured_def split: option.splits if_splits)
qed

lemma search_exact_eq:
  "search_exact rs method indices allowed =
     (let found = map (\<lambda>i. rs ! i) indices in
      case List.find (\<lambda>rt. contains (rt_methods rt) method) found of
        Some rt \<Rightarrow> Inr (To_Route rt [])
      | None \<Rightarrow> Inl (fold (\<lambda>rt a. method_or a (rt_methods rt)) found allowed))"
  by (induction indices arbitrary: allowed) (auto simp: Let_def split: option.splits)

lemma search_dynamic_eq:
  "search_dynamic names_at rs method path indices allowed =
     (let found = filter (\<lambda>rt. match_route names_at rt path \<noteq> None) (map (\<lambda>i. rs ! i) indices) in
      case List.find (\<lambda>rt. contains (rt_methods rt) method) found of
        Some rt \<Rightarrow> Inr (To_Route rt (the (match_route names_at rt path)))
      | None \<Rightarrow> Inl (fold (\<lambda>rt a. method_or a (rt_methods rt)) found allowed))"
  by (induction indices arbitrary: allowed) (auto simp: Let_def split: option.splits)

lemma search_mounts_eq:
  "search_mounts method path mounts allowed =
     (let found = filter (\<lambda>m. mount_find m path \<noteq> None) mounts in
      if found \<noteq> [] \<and> contains kGetAndHead method then Inr (To_Asset (the (mount_find (hd found) path)))
      else Inl (fold (\<lambda>_ a. method_or a kGetAndHead) found allowed))"
  by (induction mounts arbitrary: allowed) (auto simp: Let_def split: option.splits)

lemma contains_none_single: "m \<in> set kAllMethods \<Longrightarrow> \<not> contains Method_None m"
  by (auto simp: contains_def kAllMethods_def method_defs)

lemma contains_fold:
  "m \<in> set kAllMethods \<Longrightarrow> contains (fold (\<lambda>x a. method_or a (f x)) xs allowed) m \<longleftrightarrow>
     contains allowed m \<or> (\<exists>x \<in> set xs. contains (f x) m)"
  by (induction xs arbitrary: allowed) (auto simp: contains_single_or)

lemma find_filter_hd: "List.find P xs = (case filter P xs of [] \<Rightarrow> None | x # _ \<Rightarrow> Some x)"
  by (induction xs) auto

text \<open>\<open>resolve_route\<close> in one equation.\<close>

lemma resolve_route_eq:
  assumes ok: "router_ok r"
  shows "resolve_route names_at r method path =
    (case chosen_route r method (view_text path) of
       Some rt \<Rightarrow> Inr (To_Route rt (if pattern_dynamic (rt_pattern rt)
                                   then the (match_route names_at rt path) else []))
     | None \<Rightarrow>
         let found = filter (\<lambda>m. mount_find m (view_text path) \<noteq> None) (rtr_mounts r) in
         if found \<noteq> [] \<and> contains kGetAndHead method
         then Inr (To_Asset (the (mount_find (hd found) (view_text path))))
         else Inl (fold (\<lambda>_ a. method_or a kGetAndHead) found
                (fold (\<lambda>rt a. method_or a (rt_methods rt)) (candidates (rtr_routes r) (view_text path))
                   Method_None)))"
proof -
  let ?t = "view_text path" and ?rs = "rtr_routes r"
  let ?static = "filter (\<lambda>rt. \<not> pattern_dynamic (rt_pattern rt) \<and> pattern_matches (rt_pattern rt) ?t) ?rs"
  let ?dyn = "filter (\<lambda>rt. pattern_dynamic (rt_pattern rt) \<and> pattern_matches (rt_pattern rt) ?t) ?rs"
  have rok: "route_ok rt" if "rt \<in> set ?rs" for rt
    using ok that by (simp add: router_ok_def list_all_iff)
  have static: "map (\<lambda>i. ?rs ! i) (value_or (find_exact (rtr_exact_index r) ?t) []) = ?static"
  proof -
    have "(rt_pattern rt = ?t \<and> \<not> pattern_dynamic ?t) \<longleftrightarrow>
        (\<not> pattern_dynamic (rt_pattern rt) \<and> pattern_matches (rt_pattern rt) ?t)" if "rt \<in> set ?rs" for rt
      using static_matches [of "rt_pattern rt" ?t] rok [OF that] by (auto simp: route_ok_def)
    then show ?thesis
      using ok by (auto simp: router_ok_def find_exact_eq map_nth_indices intro!: filter_cong)
  qed
  have exact: "(case find_exact (rtr_exact_index r) ?t of None \<Rightarrow> Inl Method_None
      | Some exact \<Rightarrow> search_exact ?rs method exact Method_None) =
    (case List.find (\<lambda>rt. contains (rt_methods rt) method) ?static of
        Some rt \<Rightarrow> Inr (To_Route rt [])
      | None \<Rightarrow> Inl (fold (\<lambda>rt a. method_or a (rt_methods rt)) ?static Method_None))"
    unfolding static [symmetric]
    by (auto simp: search_exact_eq value_or_def Let_def split: option.splits)
  have dyn: "filter (\<lambda>rt. match_route names_at rt path \<noteq> None)
      (map (\<lambda>i. ?rs ! i) (rtr_dynamic_routes r)) = ?dyn"
  proof -
    have "match_route names_at rt path \<noteq> None \<longleftrightarrow> pattern_matches (rt_pattern rt) ?t"
      if "rt \<in> set ?rs" "pattern_dynamic (rt_pattern rt)" for rt
      using match_route_spec(1) [OF rok [OF that(1)] that(2)] .
    then show ?thesis
      using ok by (auto simp only: router_ok_def map_nth_indices filter_filter conj_commute intro!: filter_cong)
  qed
  have in_static: "\<not> pattern_dynamic (rt_pattern rt)"
    if "List.find (\<lambda>rt. contains (rt_methods rt) method) ?static = Some rt" for rt
    using that by (auto dest: find_in_set)
  have in_dyn: "pattern_dynamic (rt_pattern rt)"
    if "List.find (\<lambda>rt. contains (rt_methods rt) method) ?dyn = Some rt" for rt
    using that by (auto dest: find_in_set)
  note unfolded = resolve_route_def exact search_dynamic_eq dyn Let_def chosen_route_def candidates_def
    find_append search_mounts_eq
  show ?thesis
  proof (cases "List.find (\<lambda>rt. contains (rt_methods rt) method) ?static")
    case static: None
    show ?thesis
    proof (cases "List.find (\<lambda>rt. contains (rt_methods rt) method) ?dyn")
      case None
      show ?thesis by (simp only: unfolded static None option.case sum.case fold_append o_apply)
    next
      case (Some rt)
      show ?thesis by (simp only: unfolded static Some option.case sum.case in_dyn [OF Some] if_True)
    qed
  next
    case (Some rt)
    show ?thesis by (simp only: unfolded Some option.case sum.case in_static [OF Some] if_False)
  qed
qed

text \<open>The methods gathered for \<open>Allow\<close> are those the path is served under.\<close>

lemma refused_methods:
  assumes ok: "router_ok r" and res: "resolve_route names_at r method path = Inl allowed"
    and m: "m \<in> set kAllMethods"
  shows "contains allowed m \<longleftrightarrow> m \<in> served_methods r (view_text path)"
proof -
  let ?t = "view_text path"
  define found where "found = filter (\<lambda>m. mount_find m ?t \<noteq> None) (rtr_mounts r)"
  have allowed: "allowed = fold (\<lambda>_ a. method_or a kGetAndHead) found
      (fold (\<lambda>rt a. method_or a (rt_methods rt)) (candidates (rtr_routes r) ?t) Method_None)"
    using res unfolding resolve_route_eq [OF ok] found_def
    by (auto simp: Let_def split: option.splits if_splits)
  have assets: "chosen_asset r ?t \<noteq> None \<longleftrightarrow> found \<noteq> []"
    by (auto simp: chosen_asset_def found_def find_filter_hd filter_eq_Cons_iff split: list.splits)
  have "chosen_route r m ?t \<noteq> None \<longleftrightarrow> (\<exists>rt \<in> set (candidates (rtr_routes r) ?t). contains (rt_methods rt) m)"
    unfolding chosen_route_def find_None_iff by blast
  then show ?thesis
    using m assets by (auto simp: allowed served_methods_def contains_fold [OF m] contains_none_single
        simp del: not_None_eq)
qed

lemma served_iff:
  assumes ok: "router_ok r" and m: "m \<in> set kAllMethods"
  shows "m \<in> served_methods r (view_text path) \<longleftrightarrow> (\<exists>target. resolve_route names_at r m path = Inr target)"
proof -
  let ?t = "view_text path"
  have assets: "chosen_asset r ?t \<noteq> None \<longleftrightarrow> filter (\<lambda>m. mount_find m ?t \<noteq> None) (rtr_mounts r) \<noteq> []"
    by (auto simp: chosen_asset_def find_filter_hd filter_eq_Cons_iff split: list.splits)
  show ?thesis
    unfolding resolve_route_eq [OF ok] served_methods_def Let_def using m assets
    by (cases "chosen_route r m ?t") (auto simp del: not_None_eq)
qed

text \<open>Registration keeps the router's indexes exact. In every router built by successful registrations,
  the literal index and the dynamic list name precisely the routes they stand for, in registration order,
  every stored pattern is valid and compiled as its text says, and no method is served twice under one
  pattern.\<close>

theorem registration_invariant:
  assumes "registered r" and "length (rtr_routes r) \<le> 2 ^ 32"
  shows "router_ok r"
  using registered_ok [OF assms] .

lemma routing_lemma:
  assumes "registered r" and "length (rtr_routes r) \<le> 2 ^ 32" and "m \<in> set kAllMethods"
  shows "case resolve_route names_at r m path of
      Inr (To_Route rt captures) \<Rightarrow>
        chosen_route r m (view_text path) = Some rt \<and>
        capture_texts captures = captured (rt_pattern rt) (view_text path)
    | Inr (To_Asset a) \<Rightarrow>
        chosen_route r m (view_text path) = None \<and> contains kGetAndHead m \<and>
        chosen_asset r (view_text path) = Some a
    | Inl _ \<Rightarrow> m \<notin> served_methods r (view_text path)"
proof -
  note ok = registered_ok [OF assms(1,2)]
  let ?t = "view_text path"
  have rt: "route_ok rt \<and> pattern_matches (rt_pattern rt) ?t" if "chosen_route r m ?t = Some rt" for rt
    using that ok by (auto simp: chosen_route_def candidates_def router_ok_def list_all_iff dest!: find_in_set)
  have caps: "capture_texts (if pattern_dynamic (rt_pattern rt) then the (match_route names_at rt path) else []) =
      captured (rt_pattern rt) ?t" if "chosen_route r m ?t = Some rt" for rt
  proof (cases "pattern_dynamic (rt_pattern rt)")
    case True
    have "match_route names_at rt path \<noteq> None"
      using match_route_spec(1) [of rt names_at path] rt [OF that] True by blast
    then obtain captures where "match_route names_at rt path = Some captures" by blast
    with match_route_spec(2) [of rt names_at path captures] rt [OF that] True show ?thesis by simp
  next
    case False
    then have "\<not> is_capture q" if "q \<in> set (fixed_pieces (rt_pattern rt))" for q
      using that by (auto simp: pattern_dynamic_def fixed_pieces_def split: if_splits)
    then have "captured (rt_pattern rt) ?t = []"
      by (auto simp: captured_def filter_empty_conv dest: set_zip_leftD)
    with False show ?thesis by (simp add: capture_texts_def)
  qed
  show ?thesis
  proof (cases "resolve_route names_at r m path")
    case (Inl allowed)
    then show ?thesis using served_iff [OF ok assms(3), of path names_at] by simp
  next
    case (Inr target)
    then show ?thesis
      using caps
      by (auto simp: resolve_route_eq [OF ok] Let_def chosen_asset_def find_filter_hd filter_eq_Cons_iff
          neq_Nil_conv split: option.splits if_splits list.splits)
  qed
qed

text \<open>C7: routing refines its specification. The route that runs is the first, literal patterns before
  dynamic ones and then in registration order, whose pattern matches the path piece by piece and which
  accepts the method; its captures are the path's pieces under the pattern's names. With no such route the
  first mount that has the asset answers GET and HEAD, and otherwise nothing serves the request.\<close>

theorem routing_refines_specification:
  assumes "registered r" and "length (rtr_routes r) \<le> 2 ^ 32" and "m \<in> set kAllMethods"
  shows "case resolve_route names_at r m path of
      Inr (To_Route rt captures) \<Rightarrow>
        chosen_route r m (view_text path) = Some rt \<and>
        capture_texts captures = captured (rt_pattern rt) (view_text path)
    | Inr (To_Asset a) \<Rightarrow>
        chosen_route r m (view_text path) = None \<and> contains kGetAndHead m \<and>
        chosen_asset r (view_text path) = Some a
    | Inl _ \<Rightarrow> m \<notin> served_methods r (view_text path)"
  by (rule routing_lemma [OF assms])

text \<open>When a path is registered but not for the request's method, the answer is 405 and its Allow field
  lists exactly the methods, in their fixed order, under which the same path would have been served; the
  refused method is never among them.\<close>

theorem allow_lists_served_methods:
  assumes "registered r" and "length (rtr_routes r) \<le> 2 ^ 32" and "m \<in> set kAllMethods"
    and "resolve_route names_at r m path = Inl allowed"
  shows "allow_field_value allowed =
      join_with '', '' (map method_name (filter (\<lambda>c. c \<in> served_methods r (view_text path)) kAllMethods)) \<and>
    m \<notin> served_methods r (view_text path) \<and>
    (\<forall>c \<in> set kAllMethods. c \<in> served_methods r (view_text path) \<longleftrightarrow>
        (\<exists>target. resolve_route names_at r c path = Inr target))"
proof -
  note ok = registered_ok [OF assms(1,2)]
  have loop: "allow_loop allowed ms acc = join_with '', '' ((if acc = [] then [] else [acc]) @
      map method_name (filter (contains allowed) ms))" if "set ms \<subseteq> set kAllMethods" for ms acc
    using that
  proof (induction ms arbitrary: acc)
    case (Cons c ms)
    moreover have "method_name c \<noteq> []" using Cons.prems by (auto simp: kAllMethods_def method_name_def method_defs)
    ultimately show ?case
      by (cases "map method_name (filter (contains allowed) ms)") auto
  qed simp
  have "filter (contains allowed) kAllMethods = filter (\<lambda>c. c \<in> served_methods r (view_text path)) kAllMethods"
    using refused_methods [OF ok assms(4)] by (auto intro: filter_cong)
  moreover have "m \<notin> served_methods r (view_text path)"
    using served_iff [OF ok assms(3), of path names_at] assms(4) by simp
  ultimately show ?thesis
    using loop [OF order_refl, of "[]"] served_iff [OF ok, of _ path names_at]
    by (simp add: allow_field_value_def)
qed

section \<open>Registered routes are reached\<close>

lemma disjoint_methods:
  assumes "method_and a b = Method_None" "m \<in> set kAllMethods" "contains b m"
  shows "\<not> contains a m"
proof
  assume "contains a m"
  obtain k where k: "\<And>i. bit m i \<longleftrightarrow> i = k" by (rule single_method_bit [OF assms(2)], rule that, assumption)
  then have "bit (a AND b) k"
    using \<open>contains a m\<close> assms(3) by (simp add: contains_iff bit_and_iff)
  with assms(1) show False by (simp add: method_and_def Method_None_def)
qed

lemma find_last: "(\<forall>x \<in> set xs. \<not> P x) \<Longrightarrow> P y \<Longrightarrow> List.find P (xs @ y # ys) = Some y"
  by (induction xs) auto

lemma new_route_chosen:
  assumes reg: "registered r" and add: "add_route methods pattern (Some h) r = Inr r'"
    and room: "length (rtr_routes r') \<le> 2 ^ 32" and static: "\<not> pattern_dynamic pattern"
    and m: "m \<in> set kAllMethods" "contains methods m"
  obtains rt where "chosen_route r' m pattern = Some rt" "rt_handler rt = h" "rt_pattern rt = pattern"
proof -
  obtain h' where h: "Some h = Some h'" and v: "is_valid_route_pattern pattern"
    and r': "r' = (if pattern_dynamic pattern
       then r\<lparr>rtr_routes := rtr_routes r @ [\<lparr>rt_methods = methods, rt_pattern = pattern,
                rt_segments = map segment_of (fixed_pieces pattern), rt_has_wildcard = has_star pattern,
                rt_handler = h'\<rparr>],
              rtr_dynamic_routes := rtr_dynamic_routes r @ [to_uint32 (length (rtr_routes r))]\<rparr>
       else r\<lparr>rtr_routes := rtr_routes r @ [\<lparr>rt_methods = methods, rt_pattern = pattern,
                rt_segments = [], rt_has_wildcard = has_star pattern, rt_handler = h'\<rparr>],
              rtr_exact_index := fm_insert_or_assign pattern
                (value_or (fm_find pattern (rtr_exact_index r)) [] @ [to_uint32 (length (rtr_routes r))])
                (rtr_exact_index r)\<rparr>)"
    by (rule add_route_InrD [OF add], rule that, assumption+)
  define new where "new = \<lparr>rt_methods = methods, rt_pattern = pattern, rt_segments = [],
    rt_has_wildcard = has_star pattern, rt_handler = h\<rparr>"
  have routes: "rtr_routes r' = rtr_routes r @ [new]" using static h by (simp add: r' new_def)
  have ok: "router_ok r'" by (rule registered_ok [OF registered.registered_route [OF reg add] room])
  have old: "\<not> contains (rt_methods e) m" if "e \<in> set (rtr_routes r)" "rt_pattern e = pattern" for e
  proof (rule disjoint_methods [OF _ m])
    show "method_and (rt_methods e) methods = Method_None"
      using ok that by (auto simp: router_ok_def routes sorted_wrt_append new_def)
  qed
  have valid: "is_valid_route_pattern (rt_pattern e)" if "e \<in> set (rtr_routes r)" for e
    using ok that by (simp add: router_ok_def routes list_all_iff route_ok_def)
  have "\<not> contains (rt_methods e) m"
    if "e \<in> set (rtr_routes r)" "\<not> pattern_dynamic (rt_pattern e)" "pattern_matches (rt_pattern e) pattern" for e
    using that old valid static_matches [of "rt_pattern e" pattern] by auto
  moreover have "pattern_matches pattern pattern" using static_matches [OF v static] by simp
  ultimately have "chosen_route r' m pattern = Some new"
    using m static by (simp add: chosen_route_def candidates_def routes new_def find_last)
  with that show thesis by (simp add: new_def)
qed

text \<open>A literal route that was registered is reached: whatever else the router holds, a request for exactly
  that path with one of its methods runs that handler, unless a middleware answers first, and an exception
  of the handler becomes a 500.\<close>

theorem registered_route_reached:
  assumes "registered r" and "add_route methods pattern (Some h) r = Inr r'"
    and "length (rtr_routes r') \<le> 2 ^ 32" and "\<not> pattern_dynamic pattern"
    and "req_method req \<in> set kAllMethods" and "contains methods (req_method req)"
    and "view_text (req_path req) = pattern"
    and "run_middleware (rtr_middleware r') (clear_path_parameters req) = None"
  shows "dispatch names_at r' req =
    (case h (clear_path_parameters req) of Returned response \<Rightarrow> response | Threw \<Rightarrow> internal_error_response,
     clear_path_parameters req)"
proof -
  obtain rt where rt: "chosen_route r' (req_method req) pattern = Some rt" "rt_handler rt = h"
    "rt_pattern rt = pattern"
    by (rule new_route_chosen [OF assms(1-6)])
  note ok = registered_ok [OF registered.registered_route [OF assms(1,2)] assms(3)]
  have "req_method req \<noteq> Method_None" using assms(5) by (auto simp: kAllMethods_def method_defs)
  then show ?thesis
    using assms(4,7,8) rt
    by (simp add: dispatch_def clear_path_parameters_def resolve_route_eq [OF ok] invoke_route_def
        invoke_handler_def Let_def)
qed

text \<open>Captures never overflow their fixed table. The captures of a matched route are at most
  \<open>kMaxPathParameters\<close>, each is a non-empty piece of the path without a slash, and binding them drops
  none: the request the handler sees carries exactly the captures.\<close>

theorem captures_all_bound:
  assumes "registered r" and "length (rtr_routes r) \<le> 2 ^ 32" and "m \<in> set kAllMethods"
    and "resolve_route names_at r m path = Inr (To_Route rt captures)"
  shows "length captures \<le> kMaxPathParameters \<and>
    req_path_parameters (snd (invoke_route rt captures (clear_path_parameters req))) = captures \<and>
    (\<forall>c \<in> set (capture_texts captures). snd c \<noteq> [] \<and> CHR ''/'' \<notin> set (snd c))"
proof -
  note ok = registered_ok [OF assms(1,2)]
  let ?t = "view_text path" and ?p = "rt_pattern rt"
  have chosen: "chosen_route r m ?t = Some rt" and caps: "capture_texts captures = captured ?p ?t"
    using routing_lemma [OF assms(1-3), where names_at = names_at and path = path] assms(4) by auto
  have v: "is_valid_route_pattern ?p" and match: "pattern_matches ?p ?t"
    using chosen ok by (auto simp: chosen_route_def candidates_def router_ok_def list_all_iff route_ok_def
        dest!: find_in_set)
  have "length (capture_texts captures) \<le> length (filter is_capture (fixed_pieces ?p))"
  proof -
    have "length (filter (\<lambda>(q, p). is_capture q) (zip qs ps)) \<le> length (filter is_capture qs)" for qs ps
      by (induction qs arbitrary: ps) (auto simp: zip_Cons1 le_SucI split: list.splits)
    then show ?thesis by (simp add: caps captured_def)
  qed
  also have "\<dots> \<le> length (filter is_capture (pieces ?p))"
    by (cases "pieces ?p" rule: rev_cases) (simp_all add: fixed_pieces_def del: pieces_eq_Nil)
  also have "\<dots> \<le> kMaxPathParameters"
    using v by (auto simp: valid_pattern_iff captures_declared_eq [symmetric] pieces_not_Nil)
  finally have few: "length captures \<le> kMaxPathParameters" by (simp add: capture_texts_def)
  have bind: "req_path_parameters (fold (\<lambda>c. bind_path_parameter (hv_name c) (hv_value c)) cs q) =
      req_path_parameters q @ cs"
    if "length (req_path_parameters q) + length cs \<le> kMaxPathParameters" for cs q
    using that by (induction cs arbitrary: q) (auto simp: bind_path_parameter_def)
  have "snd c \<noteq> [] \<and> CHR ''/'' \<notin> set (snd c)" if c: "c \<in> set (capture_texts captures)" for c
  proof -
    obtain q where q: "(q, snd c) \<in> set (zip (fixed_pieces ?p) (pieces ?t))" "is_capture q"
      using c by (auto simp: caps captured_def)
    then obtain i where i: "i < length (fixed_pieces ?p)" "i < length (pieces ?t)"
      "fixed_pieces ?p ! i = q" "pieces ?t ! i = snd c"
      by (auto simp: in_set_zip)
    have "piece_matches q (snd c)"
      using match i by (auto simp: pattern_matches_def list_all2_conv_all_nth dest!: spec [of _ i])
    moreover have "snd c \<in> set (pieces ?t)" using i by (metis nth_mem)
    ultimately show ?thesis
      using q(2) split_on_pieces_free by (cases ?t) (auto simp: piece_matches_def pieces_def)
  qed
  with few bind [of "clear_path_parameters req" captures] show ?thesis
    by (auto simp: invoke_route_def clear_path_parameters_def Let_def)
qed

text \<open>The parser and the router agree on paths. The path of every request the parser accepts, if free of
  the three bytes patterns give a meaning to, is a valid literal pattern: it can be registered, so the
  checks of registration refuse no path a request can carry.\<close>

theorem accepted_path_is_routable:
  assumes "parse_request env buf limits = Inr pr"
    and "\<forall>c \<in> {CHR ''*'', CHR ''{'', CHR ''}''}. c \<notin> set (view_text (req_path (pr_request pr)))"
  shows "is_valid_route_pattern (view_text (req_path (pr_request pr))) \<and>
    \<not> pattern_dynamic (view_text (req_path (pr_request pr)))"
proof -
  let ?p = "view_text (req_path (pr_request pr))"
  obtain pro rle tm r n where b: "build_request env (view_from buf pro) limits rle tm = Inr (r, n)"
    and pr: "pr_request pr = r\<lparr>req_body := slice buf (pro + (tm + 4)) n\<rparr>"
    by (rule parse_requestD [OF assms(1)], rule that, assumption+)
  obtain target :: target_parts where t: "path_is_canonical (view_text (tp_path target))" "req_path r = tp_path target"
    by (rule build_requestD [OF b], rule that, assumption+)
  have canon: "path_is_canonical ?p" using t by (simp add: pr)
  then obtain rest where p: "?p = CHR ''/'' # rest" and canon: "path_segments_canonical rest"
    by (cases ?p) (auto simp: path_is_canonical_def split: if_splits)
  let ?segs = "split_on (CHR ''/'') rest"
  have plain: "CHR ''*'' \<notin> set s \<and> CHR ''{'' \<notin> set s \<and> CHR ''}'' \<notin> set s" if "s \<in> set ?segs" for s
    using split_on_pieces_subset [OF that] assms(2) by (auto simp: p)
  have lit: "classify_segment s final = Segment_Literal" if "s \<in> set ?segs" "is_reachable_segment s final" for s final
    using plain [OF that(1)] that(2) by (auto simp: classify_segment_def sv_contains_def)
  have mem: "last ?segs \<in> set ?segs" "\<And>s. s \<in> set (butlast ?segs) \<Longrightarrow> s \<in> set ?segs"
    by (auto intro: in_set_butlastD)
  have "k = Segment_Literal" if "k \<in> set (piece_kinds ?segs)" for k
    using that canon lit [OF mem(1), of True] lit [OF mem(2), of _ False]
    by (auto simp: piece_kinds_def path_segments_canonical_iff Let_def segment_ok_def is_reachable_segment_def)
  moreover have "\<not> is_capture s" if "s \<in> set ?segs" for s
    using plain [OF that] capture_piece [of s] by (metis list.set_intros(1))
  ultimately show ?thesis
    using plain [OF mem(1)]
    by (auto simp: valid_pattern_iff pattern_dynamic_def has_star_def p pieces_Cons captures_declared_eq)
qed

section \<open>Witnesses\<close>

definition sample_handler :: "bytes \<Rightarrow> handler" where
  "sample_handler body req = Returned (response_text body Status_Ok)"

definition sample_router :: router where
  "sample_router = projr (route_get ''/a'' (Some (sample_handler ''a''))
     (projr (route_post ''/{x}'' (Some (sample_handler ''x'')) default_router)))"

lemma sample_router_steps:
  "\<exists>r. route_post ''/{x}'' (Some (sample_handler ''x'')) default_router = Inr r \<and>
     registered r \<and> length (rtr_routes r) = 1 \<and> rtr_middleware r = [] \<and>
     route_get ''/a'' (Some (sample_handler ''a'')) r = Inr sample_router"
proof -
  let ?r = "projr (route_post ''/{x}'' (Some (sample_handler ''x'')) default_router)"
  have "\<not> isl (route_post ''/{x}'' (Some (sample_handler ''x'')) default_router)" by code_simp
  then have r: "route_post ''/{x}'' (Some (sample_handler ''x'')) default_router = Inr ?r"
    by (cases "route_post ''/{x}'' (Some (sample_handler ''x'')) default_router") auto
  have "\<not> isl (route_get ''/a'' (Some (sample_handler ''a'')) ?r)" by code_simp
  then have "route_get ''/a'' (Some (sample_handler ''a'')) ?r = Inr sample_router"
    by (cases "route_get ''/a'' (Some (sample_handler ''a'')) ?r") (auto simp: sample_router_def)
  moreover have "registered ?r"
    using registered.registered_route [OF registered.registered_new r [unfolded route_post_def]]
    by (simp only: route_post_def)
  moreover have "length (rtr_routes ?r) = 1" "rtr_middleware ?r = []" by code_simp+
  ultimately show ?thesis using r by blast
qed

lemma sample_router_registered: "registered sample_router" "length (rtr_routes sample_router) = 2"
proof -
  obtain r where r: "registered r" "route_get ''/a'' (Some (sample_handler ''a'')) r = Inr sample_router"
    using sample_router_steps by blast
  show "registered sample_router"
    by (rule registered.registered_route [OF r(1) r(2) [unfolded route_get_def]])
  show "length (rtr_routes sample_router) = 2" by code_simp
qed

definition sample_path :: "bytes \<Rightarrow> view" where
  "sample_path p = \<lparr>view_data = 0, view_text = p\<rparr>"

theorem registration_invariant_witness: "router_ok sample_router"
  using registration_invariant [OF sample_router_registered(1)] sample_router_registered(2) by simp

theorem routing_refines_specification_witness:
  "\<exists>rt captures. resolve_route (\<lambda>_. 0) sample_router Method_Post (sample_path ''/b'') = Inr (To_Route rt captures) \<and>
     capture_texts captures = [(''x'', ''b'')]"
proof -
  have "(case resolve_route (\<lambda>_. 0) sample_router Method_Post (sample_path ''/b'') of
      Inr (To_Route rt captures) \<Rightarrow> captured (rt_pattern rt) ''/b'' = [(''x'', ''b'')] | _ \<Rightarrow> False)"
    by code_simp
  then show ?thesis
    using routing_refines_specification [where r = sample_router and m = Method_Post and names_at = "\<lambda>_. 0"
        and path = "sample_path ''/b''"]
      sample_router_registered
    by (auto simp: kAllMethods_def sample_path_def split: sum.splits route_target.splits)
qed

theorem allow_lists_served_methods_witness:
  "\<exists>allowed. resolve_route (\<lambda>_. 0) sample_router Method_Put (sample_path ''/a'') = Inl allowed \<and>
     Method_Put \<notin> served_methods sample_router ''/a''"
proof -
  have "isl (resolve_route (\<lambda>_. 0) sample_router Method_Put (sample_path ''/a''))" by code_simp
  then obtain allowed where a: "resolve_route (\<lambda>_. 0) sample_router Method_Put (sample_path ''/a'') = Inl allowed"
    by (cases "resolve_route (\<lambda>_. 0) sample_router Method_Put (sample_path ''/a'')") auto
  show ?thesis
    using allow_lists_served_methods [OF sample_router_registered(1) _ _ a] sample_router_registered(2) a
    by (auto simp: kAllMethods_def sample_path_def)
qed

definition sample_get :: request where
  "sample_get = default_request\<lparr>req_method := Method_Get, req_path := sample_path ''/a''\<rparr>"

theorem registered_route_reached_witness:
  "fst (dispatch (\<lambda>_. 0) sample_router sample_get) = response_text ''a'' Status_Ok"
proof -
  obtain r where r: "registered r" "rtr_middleware r = []"
    "route_get ''/a'' (Some (sample_handler ''a'')) r = Inr sample_router"
    using sample_router_steps by blast
  have mid: "rtr_middleware sample_router = []" by code_simp
  have "\<not> pattern_dynamic ''/a''" "contains kGetAndHead Method_Get" by code_simp+
  with registered_route_reached [OF r(1) r(3) [unfolded route_get_def],
      where req = sample_get and names_at = "\<lambda>_. 0"]
  show ?thesis
    using sample_router_registered(2)
    by (simp add: sample_get_def sample_path_def kAllMethods_def mid sample_handler_def)
qed

theorem captures_all_bound_witness:
  "\<exists>rt captures. resolve_route (\<lambda>_. 0) sample_router Method_Post (sample_path ''/b'') = Inr (To_Route rt captures) \<and>
     req_path_parameters (snd (invoke_route rt captures (clear_path_parameters sample_get))) = captures"
proof -
  have "(case resolve_route (\<lambda>_. 0) sample_router Method_Post (sample_path ''/b'') of
      Inr (To_Route rt captures) \<Rightarrow> True | _ \<Rightarrow> False)"
    by code_simp
  then obtain rt captures where
    rc: "resolve_route (\<lambda>_. 0) sample_router Method_Post (sample_path ''/b'') = Inr (To_Route rt captures)"
    by (auto split: sum.splits route_target.splits)
  show ?thesis
    using captures_all_bound [OF sample_router_registered(1) _ _ rc, of sample_get] sample_router_registered(2) rc
    by (auto simp: kAllMethods_def)
qed

theorem accepted_path_is_routable_witness:
  "\<exists>pr. parse_request sample_env sample_buffer sample_limits = Inr pr \<and>
     is_valid_route_pattern (view_text (req_path (pr_request pr)))"
proof -
  have "map_sum id (\<lambda>pr. view_text (req_path (pr_request pr))) (parse_request sample_env sample_buffer sample_limits) =
      Inr ''/a''"
    by code_simp
  then obtain pr where pr: "parse_request sample_env sample_buffer sample_limits = Inr pr"
    "view_text (req_path (pr_request pr)) = ''/a''"
    by (cases "parse_request sample_env sample_buffer sample_limits") auto
  with accepted_path_is_routable [OF pr(1)] show ?thesis by auto
qed

end
