(* ===== verification/Http_Server_State.thy ===== *)
theory Http_Server_State
  imports Http_Cidr Http_Flat_Map "HOL-Library.Multiset"
begin

text \<open>
  \<open>logger.cpp\<close>, \<open>logger.hpp\<close>, \<open>server_state.cpp\<close> and \<open>server_state.hpp\<close>: what all reactors share. Every
  operation holds its mutex throughout, so the operations of several threads are interleaved as whole
  steps. The application's log sink is represented by the lines it is given.
\<close>

section \<open>Logging\<close>

datatype log_level = Log_Debug | Log_Info | Log_Warning | Log_Error

definition kPeerLogBurst :: "32 word" where "kPeerLogBurst = 16"
definition kPeerLogWindow :: int where "kPeerLogWindow = 10000000000"

text \<open>The limiter's state; times are nanoseconds of the steady clock, whose epoch is 0.\<close>

record peer_limiter =
  peer_window_started :: int
  peer_messages :: "32 word"
  peer_suppression_reported :: bool

definition fresh_limiter :: peer_limiter where
  "fresh_limiter = \<lparr>peer_window_started = 0, peer_messages = 0, peer_suppression_reported = False\<rparr>"

definition suppression_notice :: bytes where
  "suppression_notice = ''further peer-triggered log messages are suppressed for 10s''"

definition open_window :: "int \<Rightarrow> peer_limiter \<Rightarrow> peer_limiter" where
  "open_window moment l =
     (if peer_window_started l = 0 \<or> moment - peer_window_started l \<ge> kPeerLogWindow
      then \<lparr>peer_window_started = moment, peer_messages = 0, peer_suppression_reported = False\<rparr>
      else l)"

text \<open>\<open>write_peer\<close>: the limiter afterwards and the line handed to \<open>write\<close>, if any.\<close>

definition write_peer :: "int \<Rightarrow> log_level \<Rightarrow> bytes \<Rightarrow> peer_limiter \<Rightarrow> peer_limiter \<times> (log_level \<times> bytes) option" where
  "write_peer moment level message l =
     (let l = open_window moment l in
      if peer_messages l < kPeerLogBurst
      then (l\<lparr>peer_messages := peer_messages l + 1\<rparr>, Some (level, message))
      else if \<not> peer_suppression_reported l
      then (l\<lparr>peer_suppression_reported := True\<rparr>, Some (Log_Warning, suppression_notice))
      else (l, None))"

fun write_peer_all :: "(int \<times> log_level \<times> bytes) list \<Rightarrow> peer_limiter \<Rightarrow> peer_limiter \<times> (log_level \<times> bytes) list" where
  "write_peer_all [] l = (l, [])"
| "write_peer_all ((moment, level, message) # calls) l =
     (let (l, line) = write_peer moment level message l;
          (l, lines) = write_peer_all calls l
      in (l, (case line of None \<Rightarrow> [] | Some entry \<Rightarrow> [entry]) @ lines))"

text \<open>What the current window still lets through.\<close>

definition window_allowance :: "peer_limiter \<Rightarrow> nat" where
  "window_allowance l = unat (kPeerLogBurst - peer_messages l) + (if peer_suppression_reported l then 0 else 1)"

definition limiter_ok :: "peer_limiter \<Rightarrow> bool" where
  "limiter_ok l \<longleftrightarrow> peer_messages l \<le> kPeerLogBurst"

lemma allowance_bound: "limiter_ok l \<Longrightarrow> window_allowance l \<le> 17"
proof -
  assume "limiter_ok l"
  then have "unat (kPeerLogBurst - peer_messages l) = 16 - unat (peer_messages l)"
    by (simp add: limiter_ok_def kPeerLogBurst_def unat_sub)
  then have "unat (kPeerLogBurst - peer_messages l) \<le> 16" by linarith
  then show ?thesis by (simp add: window_allowance_def)
qed

lemma write_peer_step:
  assumes "limiter_ok l" "write_peer moment level message l = (l', line)"
  shows "limiter_ok l'"
    and "length (case line of None \<Rightarrow> [] | Some entry \<Rightarrow> [entry]) + window_allowance l' \<le>
           window_allowance (open_window moment l)"
    and "peer_window_started l' = peer_window_started (open_window moment l)"
proof -
  define opened where "opened = open_window moment l"
  have ok: "limiter_ok opened" using assms(1) by (simp add: opened_def open_window_def limiter_ok_def)
  have step: "write_peer moment level message l =
      (if peer_messages opened < kPeerLogBurst then (opened\<lparr>peer_messages := peer_messages opened + 1\<rparr>, Some (level, message))
       else if \<not> peer_suppression_reported opened
       then (opened\<lparr>peer_suppression_reported := True\<rparr>, Some (Log_Warning, suppression_notice))
       else (opened, None))"
    by (simp add: write_peer_def opened_def Let_def)
  have inc: "unat (peer_messages opened + 1) = Suc (unat (peer_messages opened))" if "peer_messages opened < kPeerLogBurst"
  proof -
    have "unat (peer_messages opened) < 16" using that by (simp add: kPeerLogBurst_def word_less_nat_alt)
    then show ?thesis by (simp add: unat_word_ariths)
  qed
  have sub: "unat (kPeerLogBurst - x) = 16 - unat x" if "x \<le> kPeerLogBurst" for x :: "32 word"
    using that by (simp add: kPeerLogBurst_def unat_sub)
  have le: "peer_messages opened + 1 \<le> kPeerLogBurst" if "peer_messages opened < kPeerLogBurst"
    using that inc [OF that] by (simp add: kPeerLogBurst_def word_le_nat_alt word_less_nat_alt)
  have lt: "unat (peer_messages opened) < 16" if "peer_messages opened < kPeerLogBurst"
    using that by (simp add: kPeerLogBurst_def word_less_nat_alt)
  show "limiter_ok l'"
    using assms(2) ok le by (auto simp: step limiter_ok_def split: if_splits)
  show "length (case line of None \<Rightarrow> [] | Some entry \<Rightarrow> [entry]) + window_allowance l' \<le> window_allowance (open_window moment l)"
    unfolding opened_def [symmetric]
    using assms(2) ok le inc lt sub by (auto simp: step window_allowance_def limiter_ok_def split: if_splits)
  show "peer_window_started l' = peer_window_started (open_window moment l)"
    unfolding opened_def [symmetric] using assms(2) by (auto simp: step split: if_splits)
qed

text \<open>Inside one window the limiter only counts down.\<close>

lemma write_peer_all_within:
  assumes "limiter_ok l" "0 < peer_window_started l"
    and "\<forall>c \<in> set calls. fst c - peer_window_started l < kPeerLogWindow"
  shows "length (snd (write_peer_all calls l)) \<le> window_allowance l"
  using assms
proof (induction calls arbitrary: l)
  case (Cons c calls)
  obtain moment level message where c: "c = (moment, level, message)" by (cases c)
  obtain l' line where w: "write_peer moment level message l = (l', line)" by fastforce
  have same: "open_window moment l = l" using Cons.prems c by (simp add: open_window_def)
  note s = write_peer_step [OF Cons.prems(1) w, unfolded same]
  have "length (snd (write_peer_all calls l')) \<le> window_allowance l'"
    using Cons.prems s by (intro Cons.IH) (auto simp: c)
  with s show ?case by (auto simp: c w split: prod.splits)
qed simp

lemma write_peer_all_any:
  assumes "limiter_ok l" "\<forall>c \<in> set calls. start < fst c \<and> fst c < start + kPeerLogWindow"
    and "sorted (map fst calls)" "0 \<le> start"
  shows "length (snd (write_peer_all calls l)) \<le> window_allowance l + 17"
  using assms
proof (induction calls arbitrary: l)
  case (Cons c calls)
  obtain moment level message where c: "c = (moment, level, message)" by (cases c)
  obtain l' line where w: "write_peer moment level message l = (l', line)" by fastforce
  note s = write_peer_step [OF Cons.prems(1) w]
  have len: "length (snd (write_peer_all (c # calls) l)) =
      length (case line of None \<Rightarrow> [] | Some entry \<Rightarrow> [entry]) + length (snd (write_peer_all calls l'))"
    by (simp add: c w split: prod.splits)
  show ?case
  proof (cases "open_window moment l = l")
    case True
    have "length (snd (write_peer_all calls l')) \<le> window_allowance l' + 17"
      using Cons.prems s(1) by (intro Cons.IH) auto
    with s(2) True len show ?thesis by simp
  next
    case False
    then have started: "peer_window_started l' = moment"
      using s(3) by (auto simp: open_window_def split: if_splits)
    have "length (snd (write_peer_all calls l')) \<le> window_allowance l'"
    proof (rule write_peer_all_within [OF s(1)])
      show "0 < peer_window_started l'" using Cons.prems by (auto simp: started c)
      show "\<forall>d \<in> set calls. fst d - peer_window_started l' < kPeerLogWindow"
        using Cons.prems by (auto simp: started c)
    qed
    moreover have "window_allowance (open_window moment l) \<le> 17"
      using Cons.prems(1) by (intro allowance_bound) (simp add: open_window_def limiter_ok_def)
    ultimately show ?thesis using s(2) len by simp
  qed
qed simp

text \<open>Peers cannot flood the log. Whatever calls came before, any further calls that fall within one
  ten-second stretch write at most 34 lines: two windows of sixteen messages and one suppression notice
  each.\<close>

theorem peer_log_is_rate_limited:
  assumes "sorted (map fst calls)" and "0 \<le> start"
    and "\<forall>c \<in> set calls. start < fst c \<and> fst c < start + kPeerLogWindow"
  shows "length (snd (write_peer_all calls (fst (write_peer_all earlier fresh_limiter)))) \<le> 34"
proof -
  have ok: "limiter_ok (fst (write_peer_all cs l))" if "limiter_ok l" for cs l
    using that
  proof (induction cs arbitrary: l)
    case (Cons c cs)
    obtain moment level message where c: "c = (moment, level, message)" by (cases c)
    obtain l' line where w: "write_peer moment level message l = (l', line)" by fastforce
    show ?case using Cons.IH [OF write_peer_step(1) [OF Cons.prems w]] by (simp add: c w case_prod_beta Let_def)
  qed simp
  have "limiter_ok fresh_limiter" by (simp add: limiter_ok_def fresh_limiter_def)
  note l = ok [OF this, of earlier]
  show ?thesis
    using write_peer_all_any [OF l assms(3,1,2)] allowance_bound [OF l] by simp
qed

theorem peer_log_is_rate_limited_witness:
  "length (snd (write_peer_all [(2, Log_Info, ''b'')] (fst (write_peer_all [(1, Log_Info, ''a'')] fresh_limiter)))) \<le> 34"
  using peer_log_is_rate_limited [of "[(2, Log_Info, ''b'')]" 1 "[(1, Log_Info, ''a'')]"]
  by (simp add: kPeerLogWindow_def)

section \<open>Connection admission\<close>

datatype admission_rejection = GlobalLimit | SourceLimit

record server_state =
  ss_max_connections :: "32 word"
  ss_max_connections_per_source :: "32 word"
  ss_active_connections :: "32 word"
  ss_source_connections :: "(octets, 32 word) flat_map"
  ss_stop_requested :: bool
  ss_failure :: "nat option"

definition new_server_state :: "32 word \<Rightarrow> 32 word \<Rightarrow> server_state" where
  "new_server_state max_connections max_connections_per_source =
     \<lparr>ss_max_connections = max_connections, ss_max_connections_per_source = max_connections_per_source,
      ss_active_connections = 0, ss_source_connections = [], ss_stop_requested = False, ss_failure = None\<rparr>"

text \<open>\<open>ConnectionAdmission\<close>: \<open>ad_held\<close> is a state pointer that is not null.\<close>

record admission =
  ad_held :: bool
  ad_source :: octets
  ad_source_counted :: bool

definition admit :: "peer_address \<Rightarrow> server_state \<Rightarrow> (admission_rejection, admission) expected \<times> server_state" where
  "admit peer st =
     (let count_source = \<not> peer_is_unix peer in
      if ss_active_connections st \<ge> ss_max_connections st then (Inl GlobalLimit, st)
      else
        let source_count = (case fm_find (peer_bytes peer) (ss_source_connections st) of
                              None \<Rightarrow> 0 | Some n \<Rightarrow> n) in
        if count_source \<and> source_count \<ge> ss_max_connections_per_source st then (Inl SourceLimit, st)
        else
          let st = (if count_source
                    then st\<lparr>ss_source_connections :=
                      fm_insert_or_assign (peer_bytes peer) (source_count + 1) (ss_source_connections st)\<rparr>
                    else st)
          in (Inr \<lparr>ad_held = True, ad_source = peer_bytes peer, ad_source_counted = count_source\<rparr>,
              st\<lparr>ss_active_connections := ss_active_connections st + 1\<rparr>))"

text \<open>\<open>ServerState::release\<close>.\<close>

definition state_release :: "octets \<Rightarrow> bool \<Rightarrow> server_state \<Rightarrow> server_state" where
  "state_release source source_counted st =
     (let st = (if ss_active_connections st > 0
                then st\<lparr>ss_active_connections := ss_active_connections st - 1\<rparr> else st) in
      if \<not> source_counted then st
      else case fm_find source (ss_source_connections st) of
        None \<Rightarrow> st
      | Some n \<Rightarrow>
          if n \<le> 1 then st\<lparr>ss_source_connections := fm_erase source (ss_source_connections st)\<rparr>
          else st\<lparr>ss_source_connections := fm_insert_or_assign source (n - 1) (ss_source_connections st)\<rparr>)"

text \<open>\<open>ConnectionAdmission::release\<close>, which the destructor calls; the move constructor, whose second
  component is the moved-from slot; move assignment.\<close>

definition admission_release :: "admission \<Rightarrow> server_state \<Rightarrow> admission \<times> server_state" where
  "admission_release slot st =
     (if \<not> ad_held slot then (slot, st)
      else (slot\<lparr>ad_held := False\<rparr>, state_release (ad_source slot) (ad_source_counted slot) st))"

definition admission_move :: "admission \<Rightarrow> admission \<times> admission" where
  "admission_move other = (other, other\<lparr>ad_held := False\<rparr>)"

definition admission_assign :: "admission \<Rightarrow> admission \<Rightarrow> server_state \<Rightarrow> admission \<times> admission \<times> server_state" where
  "admission_assign target other st =
     (let (target, st) = admission_release target st
      in (target\<lparr>ad_held := ad_held other, ad_source := ad_source other,
            ad_source_counted := ad_source_counted other\<rparr>, other\<lparr>ad_held := False\<rparr>, st))"

definition request_stop :: "server_state \<Rightarrow> server_state" where
  "request_stop st = st\<lparr>ss_stop_requested := True\<rparr>"

text \<open>\<open>fail\<close> keeps the first failure; an exception is known by its identity.\<close>

definition state_fail :: "nat \<Rightarrow> server_state \<Rightarrow> server_state" where
  "state_fail failure st =
     request_stop (if ss_failure st = None then st\<lparr>ss_failure := Some failure\<rparr> else st)"

subsection \<open>Runs\<close>

text \<open>The states reachable from a new server, with the slots alive in each: any order of admissions,
  destructions, moves and failures, by any number of threads.\<close>

inductive admission_run :: "32 word \<Rightarrow> 32 word \<Rightarrow> server_state \<Rightarrow> admission multiset \<Rightarrow> bool"
  for g s where
  run_start: "admission_run g s (new_server_state g s) {#}"
| run_admit: "admission_run g s st slots \<Longrightarrow> admit peer st = (Inr slot, st') \<Longrightarrow>
    admission_run g s st' (add_mset slot slots)"
| run_reject: "admission_run g s st slots \<Longrightarrow> admit peer st = (Inl why, st') \<Longrightarrow> admission_run g s st' slots"
| run_destroy: "admission_run g s st (add_mset slot slots) \<Longrightarrow> admission_release slot st = (slot', st') \<Longrightarrow>
    admission_run g s st' slots"
| run_move: "admission_run g s st (add_mset slot slots) \<Longrightarrow> admission_move slot = (fresh, moved) \<Longrightarrow>
    admission_run g s st (add_mset fresh (add_mset moved slots))"
| run_assign: "admission_run g s st (add_mset target (add_mset other slots)) \<Longrightarrow>
    admission_assign target other st = (target', other', st') \<Longrightarrow>
    admission_run g s st' (add_mset target' (add_mset other' slots))"
| run_fail: "admission_run g s st slots \<Longrightarrow> admission_run g s (state_fail failure st) slots"

definition held_slots :: "admission multiset \<Rightarrow> nat" where
  "held_slots slots = size (filter_mset ad_held slots)"

definition held_from :: "octets \<Rightarrow> admission multiset \<Rightarrow> nat" where
  "held_from source slots = size (filter_mset (\<lambda>a. ad_held a \<and> ad_source_counted a \<and> ad_source a = source) slots)"

definition count_in :: "(octets, 32 word) flat_map \<Rightarrow> octets \<Rightarrow> nat" where
  "count_in m source = (case fm_find source m of None \<Rightarrow> 0 | Some n \<Rightarrow> unat n)"

text \<open>The counters are the numbers of slots held, and within their limits.\<close>

definition admission_ok :: "32 word \<Rightarrow> 32 word \<Rightarrow> server_state \<Rightarrow> admission multiset \<Rightarrow> bool" where
  "admission_ok g s st slots \<longleftrightarrow>
     ss_max_connections st = g \<and> ss_max_connections_per_source st = s \<and> fm_ok (ss_source_connections st) \<and>
     unat (ss_active_connections st) = held_slots slots \<and> held_slots slots \<le> unat g \<and>
     (\<forall>source. held_from source slots \<le> unat s \<and>
        count_in (ss_source_connections st) source = held_from source slots \<and>
        fm_find source (ss_source_connections st) \<noteq> Some 0)"

lemma count_in_simps [simp]:
  "count_in [] j = 0"
  "fm_ok m \<Longrightarrow> count_in (fm_insert_or_assign k v m) j = (if j = k then unat v else count_in m j)"
  "count_in (fm_erase k m) j = (if j = k then 0 else count_in m j)"
  by (simp_all add: count_in_def fm_find_insert fm_find_erase)

lemma held_add [simp]:
  "held_slots {#} = 0" "held_from source {#} = 0"
  "held_slots (add_mset a M) = (if ad_held a then 1 else 0) + held_slots M"
  "held_from source (add_mset a M) =
     (if ad_held a \<and> ad_source_counted a \<and> ad_source a = source then 1 else 0) + held_from source M"
  by (simp_all add: held_slots_def held_from_def)

lemma unat_Suc_word: "x < (y :: 32 word) \<Longrightarrow> unat (x + 1) = Suc (unat x)"
proof -
  assume "x < y"
  then have "unat x + 1 < 2 ^ 32"
    using unsigned_less [of y, where 'a = nat] by (simp add: word_less_nat_alt)
  then show ?thesis by (simp add: unat_word_ariths)
qed

lemma word_pos_one_le: "0 < (x :: 32 word) \<Longrightarrow> 1 \<le> x"
  by (simp add: word_le_nat_alt word_less_nat_alt)

lemma unat_pred_word: "0 < (x :: 32 word) \<Longrightarrow> unat (x - 1) = unat x - 1"
  by (simp add: unat_sub word_pos_one_le)

lemma admission_ok_start: "admission_ok g s (new_server_state g s) {#}"
  by (simp add: admission_ok_def new_server_state_def)

lemma admission_ok_admit:
  assumes ok: "admission_ok g s st slots" and adm: "admit peer st = (Inr slot, st')"
  shows "admission_ok g s st' (add_mset slot slots)"
proof -
  let ?src = "peer_bytes peer"
  define n where "n = (case fm_find ?src (ss_source_connections st) of None \<Rightarrow> 0 | Some n \<Rightarrow> n)"
  have room: "ss_active_connections st < g" and per: "\<not> peer_is_unix peer \<Longrightarrow> n < s"
    using adm ok by (auto simp: admit_def Let_def n_def admission_ok_def not_le split: if_splits)
  have n: "unat n = held_from ?src slots"
    using ok by (simp add: admission_ok_def n_def count_in_def [symmetric] split: option.splits)
      (auto simp: count_in_def split: option.splits dest!: spec [of _ ?src])
  have bound: "unat (ss_active_connections st) < unat g" using room by (simp add: word_less_nat_alt)
  note inc = unat_Suc_word [OF room] unat_Suc_word [of n s, OF per]
  show ?thesis
  proof (cases "peer_is_unix peer")
    case True
    then have st': "st' = st\<lparr>ss_active_connections := ss_active_connections st + 1\<rparr>"
      "slot = \<lparr>ad_held = True, ad_source = ?src, ad_source_counted = False\<rparr>"
      using adm room ok by (auto simp: admit_def Let_def admission_ok_def split: if_splits)
    show ?thesis using ok inc(1) bound by (simp add: admission_ok_def st')
  next
    case False
    then have st': "st' = st\<lparr>ss_source_connections := fm_insert_or_assign ?src (n + 1) (ss_source_connections st),
        ss_active_connections := ss_active_connections st + 1\<rparr>"
      "slot = \<lparr>ad_held = True, ad_source = ?src, ad_source_counted = True\<rparr>"
      using adm room ok by (auto simp: admit_def Let_def admission_ok_def n_def split: if_splits)
    have "unat n < unat s" using per [OF False] by (simp add: word_less_nat_alt)
    then show ?thesis
      using ok inc(1) inc(2) [OF False] bound n
      by (auto simp: admission_ok_def st' fm_find_insert)
  qed
qed

lemma state_release_ok:
  assumes ok: "admission_ok g s st (add_mset slot slots)" and held: "ad_held slot"
  shows "admission_ok g s (state_release (ad_source slot) (ad_source_counted slot) st) slots"
proof -
  let ?src = "ad_source slot"
  have act: "unat (ss_active_connections st) = Suc (held_slots slots)"
    using ok held by (simp add: admission_ok_def)
  then have pos: "0 < ss_active_connections st" by (simp add: word_less_nat_alt)
  have dec: "unat (ss_active_connections st - 1) = held_slots slots"
    using unat_pred_word [OF pos] act by simp
  show ?thesis
  proof (cases "ad_source_counted slot")
    case False
    then show ?thesis
      using ok held dec pos by (simp add: admission_ok_def state_release_def)
  next
    case True
    have count: "count_in (ss_source_connections st) ?src = Suc (held_from ?src slots)"
      using ok held True by (simp add: admission_ok_def)
    then obtain n where n: "fm_find ?src (ss_source_connections st) = Some n" and un: "unat n = Suc (held_from ?src slots)"
      by (auto simp: count_in_def split: option.splits)
    then have npos: "0 < n" by (simp add: word_less_nat_alt)
    have le: "(n \<le> 1) = (held_from ?src slots = 0)" using un by (simp add: word_le_nat_alt)
    have dn: "unat (n - 1) = held_from ?src slots" using unat_pred_word [OF npos] un by simp
    have all: "held_from source slots \<le> unat s" "fm_find source (ss_source_connections st) \<noteq> Some 0"
      "source \<noteq> ?src \<Longrightarrow> count_in (ss_source_connections st) source = held_from source slots" for source
    proof -
      have "held_from source (add_mset slot slots) \<le> unat s" using ok by (simp only: admission_ok_def)
      then show "held_from source slots \<le> unat s" by (simp split: if_splits)
    qed (use ok in \<open>auto simp: admission_ok_def\<close>)
    have base: "ss_max_connections st = g" "ss_max_connections_per_source st = s" "fm_ok (ss_source_connections st)"
      "held_slots slots \<le> unat g"
      using ok held by (auto simp: admission_ok_def)
    show ?thesis
    proof (cases "held_from ?src slots = 0")
      case zero: True
      then show ?thesis
        using base dec pos True n le all
        by (simp add: admission_ok_def state_release_def fm_find_erase)
    next
      case False
      then show ?thesis
        using base dec pos True n le dn all
        by (auto simp: admission_ok_def state_release_def fm_find_insert)
    qed
  qed
qed

lemma admission_release_ok:
  assumes ok: "admission_ok g s st (add_mset slot slots)" and rel: "admission_release slot st = (slot', st')"
  shows "admission_ok g s st' slots" "\<not> ad_held slot'"
  using state_release_ok [OF ok] ok rel
  by (auto simp: admission_release_def admission_ok_def split: if_splits)

lemma admission_ok_cong:
  "admission_ok g s st slots \<Longrightarrow> held_slots slots' = held_slots slots \<Longrightarrow>
     (\<And>source. held_from source slots' = held_from source slots) \<Longrightarrow> admission_ok g s st slots'"
  by (simp add: admission_ok_def)

lemma admission_run_ok: "admission_run g s st slots \<Longrightarrow> admission_ok g s st slots"
proof (induction rule: admission_run.induct)
  case run_start
  show ?case by (rule admission_ok_start)
next
  case (run_admit st slots peer slot st')
  then show ?case using admission_ok_admit by blast
next
  case (run_reject st slots peer why st')
  then show ?case by (auto simp: admit_def Let_def split: if_splits)
next
  case (run_destroy st slot slots slot' st')
  then show ?case using admission_release_ok by blast
next
  case (run_move st slot slots fresh moved)
  then show ?case by (auto simp: admission_move_def intro: admission_ok_cong)
next
  case (run_assign st target other slots target' other' st')
  obtain t1 st1 where rel: "admission_release target st = (t1, st1)" by fastforce
  have "admission_ok g s st1 (add_mset other slots)"
    by (rule admission_release_ok(1) [OF run_assign.IH rel])
  then have "admission_ok g s st1 (add_mset target' (add_mset other' slots))"
    by (rule admission_ok_cong) (use run_assign.hyps rel in \<open>auto simp: admission_assign_def\<close>)
  with run_assign.hyps rel show ?case by (auto simp: admission_assign_def)
next
  case (run_fail st slots failure)
  then show ?case by (auto simp: admission_ok_def state_fail_def request_stop_def)
qed

text \<open>C10: admission is exact. In every reachable state of the server the process-wide count and the count of
  every source are the numbers of slots held, never above their limits, and no source without a slot keeps
  an entry: whatever the order of admissions, moves and releases, nothing leaks and nothing is released
  twice.\<close>

theorem admission_counts_exact:
  assumes "admission_run g s st slots"
  shows "unat (ss_active_connections st) = held_slots slots \<and> held_slots slots \<le> unat g \<and>
    (\<forall>source. held_from source slots \<le> unat s \<and>
       map_option unat (fm_find source (ss_source_connections st)) =
         (if held_from source slots = 0 then None else Some (held_from source slots)))"
proof -
  note ok = admission_run_ok [OF assms]
  have "map_option unat (fm_find source (ss_source_connections st)) =
      (if held_from source slots = 0 then None else Some (held_from source slots))" for source
  proof -
    have "count_in (ss_source_connections st) source = held_from source slots"
      "fm_find source (ss_source_connections st) \<noteq> Some 0"
      using ok by (simp_all add: admission_ok_def)
    then show ?thesis
      by (cases "fm_find source (ss_source_connections st)")
        (auto simp: count_in_def unsigned_eq_0_iff intro: ccontr)
  qed
  with ok show ?thesis by (simp add: admission_ok_def)
qed

text \<open>Admission refines its contract: a peer is admitted exactly when a process-wide slot is free and,
  unless it is a Unix-domain peer, its source holds fewer slots than its limit; the rejection names the
  limit that was met.\<close>

theorem admit_decides_by_limits:
  assumes "admission_run g s st slots"
  shows "case fst (admit peer st) of
      Inr slot \<Rightarrow> held_slots slots < unat g \<and> (peer_is_unix peer \<or> held_from (peer_bytes peer) slots < unat s) \<and>
        ad_held slot \<and> ad_source slot = peer_bytes peer \<and> ad_source_counted slot = (\<not> peer_is_unix peer)
    | Inl GlobalLimit \<Rightarrow> held_slots slots = unat g
    | Inl SourceLimit \<Rightarrow> \<not> peer_is_unix peer \<and> held_from (peer_bytes peer) slots = unat s"
proof -
  note ok = admission_run_ok [OF assms]
  define n where "n = (case fm_find (peer_bytes peer) (ss_source_connections st) of None \<Rightarrow> 0 | Some n \<Rightarrow> n)"
  have n: "unat n = held_from (peer_bytes peer) slots" "held_from (peer_bytes peer) slots \<le> unat s"
    using ok by (auto simp: admission_ok_def n_def count_in_def split: option.splits dest!: spec [of _ "peer_bytes peer"])
  have g: "ss_max_connections st = g" "ss_max_connections_per_source st = s"
    "unat (ss_active_connections st) = held_slots slots" "held_slots slots \<le> unat g"
    using ok by (simp_all add: admission_ok_def)
  show ?thesis
    using n g by (auto simp: admit_def Let_def n_def [symmetric] word_le_nat_alt not_le)
qed

text \<open>The first failure is the one kept, and every failure stops the server.\<close>

lemma first_failure_kept:
  "ss_failure (fold state_fail (f # fs) st) = (case ss_failure st of None \<Rightarrow> Some f | Some e \<Rightarrow> Some e) \<and>
   ss_stop_requested (fold state_fail (f # fs) st)"
proof -
  have kept: "ss_failure (fold state_fail fs st) = Some e \<and> (ss_stop_requested st \<longrightarrow> ss_stop_requested (fold state_fail fs st))"
    if "ss_failure st = Some e" for fs st e
    using that by (induction fs arbitrary: st) (auto simp: state_fail_def request_stop_def)
  show ?thesis
    using kept [of "state_fail f st"]
    by (auto simp: state_fail_def request_stop_def split: option.splits)
qed

definition sample_peer :: peer_address where
  "sample_peer = default_peer\<lparr>peer_port := 80\<rparr>"

lemma sample_admission_run:
  "\<exists>st slot. admission_run 1 1 st {#slot#} \<and> ad_held slot"
proof -
  obtain slot st where "admit sample_peer (new_server_state 1 1) = (Inr slot, st)" "ad_held slot"
    by (auto simp: admit_def new_server_state_def sample_peer_def default_peer_def Let_def)
  then show ?thesis using admission_run.run_admit [OF admission_run.run_start] by blast
qed

theorem admission_counts_exact_witness:
  "\<exists>st slot. admission_run 1 1 st {#slot#} \<and> unat (ss_active_connections st) = 1"
  using sample_admission_run admission_counts_exact by fastforce

theorem admit_decides_by_limits_witness:
  "\<exists>st slot. admission_run 1 1 st {#slot#} \<and> fst (admit sample_peer st) \<in> {Inl GlobalLimit, Inl SourceLimit}"
proof -
  obtain st slot where r: "admission_run 1 1 st {#slot#}" "ad_held slot" using sample_admission_run by blast
  have "fst (admit sample_peer st) \<in> {Inl GlobalLimit, Inl SourceLimit}"
    using admit_decides_by_limits [OF r(1), of sample_peer] r(2)
    by (auto split: sum.splits admission_rejection.splits)
  with r show ?thesis by blast
qed

end
