(* ===== verification/Http_Transport.thy ===== *)
theory Http_Transport
  imports Http_Prelude
begin

text \<open>
  \<open>transport.hpp\<close>, \<open>transport.cpp\<close>, \<open>plain_transport.cpp\<close> and \<open>write_vectors\<close> of \<open>socket.cpp\<close>: the byte
  transport under a connection. The kernel is outside: a socket carries the answers its system calls
  will give, in order, and the bytes it accepted; a call with no answer left would block. Outcomes of the
  TLS transport, which rests on OpenSSL, are given likewise at the level of the transport interface.
\<close>

section \<open>Results\<close>

datatype transport_status = T_Ok | T_WantRead | T_WantWrite | T_Closed | T_Error

record transport_result =
  tr_status :: transport_status
  tr_bytes :: nat

definition tr_ok :: "nat \<Rightarrow> transport_result" where
  "tr_ok transferred = \<lparr>tr_status = T_Ok, tr_bytes = transferred\<rparr>"
definition tr_want_read :: transport_result where
  "tr_want_read = \<lparr>tr_status = T_WantRead, tr_bytes = 0\<rparr>"
definition tr_want_write :: transport_result where
  "tr_want_write = \<lparr>tr_status = T_WantWrite, tr_bytes = 0\<rparr>"
definition tr_closed :: transport_result where
  "tr_closed = \<lparr>tr_status = T_Closed, tr_bytes = 0\<rparr>"
definition tr_error :: transport_result where
  "tr_error = \<lparr>tr_status = T_Error, tr_bytes = 0\<rparr>"

lemmas tr_defs = tr_ok_def tr_want_read_def tr_want_write_def tr_closed_def tr_error_def

definition is_blocked :: "transport_result \<Rightarrow> bool" where
  "is_blocked r \<longleftrightarrow> tr_status r = T_WantRead \<or> tr_status r = T_WantWrite"

definition is_terminal :: "transport_result \<Rightarrow> bool" where
  "is_terminal r \<longleftrightarrow> tr_status r = T_Closed \<or> tr_status r = T_Error"

definition kMaxWriteVectors :: nat where "kMaxWriteVectors = 4"

section \<open>Sockets\<close>

datatype errno = EINTR | EAGAIN | EWOULDBLOCK | ENOTCONN | ERRNO_OTHER

datatype recv_answer = Recv_Bytes bytes | Recv_Eof | Recv_Fails errno
datatype send_answer = Send_Accepts nat | Send_Fails errno

record socket =
  so_recv :: "recv_answer list"
  so_send :: "send_answer list"
  so_shutdown :: "errno option list"
  so_sent :: bytes

definition errno_means_would_block :: "errno \<Rightarrow> bool" where
  "errno_means_would_block e \<longleftrightarrow> e = EAGAIN \<or> e = EWOULDBLOCK"

text \<open>The pieces of a vector list after the first \<open>skipped\<close> bytes: the loop that builds a batch.\<close>

fun skip_vectors :: "nat \<Rightarrow> bytes list \<Rightarrow> bytes list" where
  "skip_vectors skipped [] = []"
| "skip_vectors skipped (entry # entries) =
     (if skipped \<ge> length entry then skip_vectors (skipped - length entry) entries
      else drop skipped entry # skip_vectors 0 entries)"

definition kWriteBatchCapacity :: nat where "kWriteBatchCapacity = 8"

text \<open>\<open>write_vectors\<close>: the errno of a failure, or the bytes written; then the answers left and the bytes
  the kernel took.\<close>

fun write_vectors_loop :: "bytes list \<Rightarrow> nat \<Rightarrow> send_answer list \<Rightarrow> bytes \<Rightarrow>
    (errno + nat) \<times> send_answer list \<times> bytes" where
  "write_vectors_loop vectors total_written [] sent =
     (if skip_vectors total_written vectors = [] then (Inr total_written, [], sent)
      else if total_written > 0 then (Inr total_written, [], sent)
      else (Inl EAGAIN, [], sent))"
| "write_vectors_loop vectors total_written (answer # answers) sent =
     (let batch = take kWriteBatchCapacity (skip_vectors total_written vectors) in
      if batch = [] then (Inr total_written, answer # answers, sent)
      else case answer of
        Send_Fails e \<Rightarrow>
          if e = EINTR then write_vectors_loop vectors total_written answers sent
          else if total_written > 0 then (Inr total_written, answers, sent)
          else (Inl e, answers, sent)
      | Send_Accepts k \<Rightarrow>
          let data = concat batch; written = min k (length data) in
          if written < length data then (Inr (total_written + written), answers, sent @ take written data)
          else write_vectors_loop vectors (total_written + written) answers (sent @ take written data))"

definition write_vectors :: "bytes list \<Rightarrow> socket \<Rightarrow> (errno + nat) \<times> socket" where
  "write_vectors vectors so =
     (let (res, answers, sent) = write_vectors_loop vectors 0 (so_send so) (so_sent so)
      in (res, so\<lparr>so_send := answers, so_sent := sent\<rparr>))"

section \<open>PlainTransport\<close>

definition plain_handshake :: "socket \<Rightarrow> transport_result \<times> socket" where
  "plain_handshake so = (tr_ok 0, so)"

text \<open>The loop of \<open>PlainTransport::read\<close> over the answers of \<open>recv\<close>; a read that leaves bytes behind
  leaves them for the next.\<close>

fun plain_read_loop :: "nat \<Rightarrow> recv_answer list \<Rightarrow> transport_result \<times> bytes \<times> recv_answer list" where
  "plain_read_loop n [] = (tr_want_read, [], [])"
| "plain_read_loop n (Recv_Bytes data # answers) =
     (if take n data = [] then (tr_closed, [], answers)
      else (tr_ok (length (take n data)), take n data,
            if drop n data = [] then answers else Recv_Bytes (drop n data) # answers))"
| "plain_read_loop n (Recv_Eof # answers) = (tr_closed, [], answers)"
| "plain_read_loop n (Recv_Fails e # answers) =
     (if e = EINTR then plain_read_loop n answers
      else if errno_means_would_block e then (tr_want_read, [], answers)
      else (tr_error, [], answers))"

definition plain_read :: "nat \<Rightarrow> socket \<Rightarrow> transport_result \<times> bytes \<times> socket" where
  "plain_read n so =
     (if n = 0 then (tr_ok 0, [], so)
      else let (res, data, answers) = plain_read_loop n (so_recv so)
           in (res, data, so\<lparr>so_recv := answers\<rparr>))"

fun plain_write_loop :: "bytes \<Rightarrow> send_answer list \<Rightarrow> bytes \<Rightarrow> transport_result \<times> send_answer list \<times> bytes" where
  "plain_write_loop data [] sent = (tr_want_write, [], sent)"
| "plain_write_loop data (Send_Accepts k # answers) sent =
     (tr_ok (min k (length data)), answers, sent @ take k data)"
| "plain_write_loop data (Send_Fails e # answers) sent =
     (if e = EINTR then plain_write_loop data answers sent
      else if errno_means_would_block e then (tr_want_write, answers, sent)
      else (tr_error, answers, sent))"

definition plain_write :: "bytes \<Rightarrow> socket \<Rightarrow> transport_result \<times> socket" where
  "plain_write data so =
     (if data = [] then (tr_ok 0, so)
      else let (res, answers, sent) = plain_write_loop data (so_send so) (so_sent so)
           in (res, so\<lparr>so_send := answers, so_sent := sent\<rparr>))"

definition plain_writev :: "bytes list \<Rightarrow> socket \<Rightarrow> transport_result \<times> socket" where
  "plain_writev vectors so =
     (if vectors = [] then (tr_ok 0, so)
      else let (res, so) = write_vectors vectors so in
        (case res of
           Inr n \<Rightarrow> tr_ok n
         | Inl e \<Rightarrow> if errno_means_would_block e then tr_want_write else tr_error, so))"

definition plain_shutdown :: "socket \<Rightarrow> transport_result \<times> socket" where
  "plain_shutdown so =
     (case so_shutdown so of
        [] \<Rightarrow> (tr_ok 0, so)
      | answer # answers \<Rightarrow>
          (if answer = None \<or> answer = Some ENOTCONN then tr_ok 0
           else if errno_means_would_block (the answer) then tr_want_write
           else tr_error, so\<lparr>so_shutdown := answers\<rparr>))"

section \<open>The variant\<close>

record tls_stream =
  ts_handshakes :: "transport_result list"
  ts_reads :: "(transport_status \<times> bytes) list"
  ts_writes :: "transport_result list"
  ts_shutdowns :: "transport_result list"
  ts_sent :: bytes
  ts_alpn :: bytes
  ts_peer_subject :: "bytes option"

datatype transport = Transport_Plain socket | Transport_Tls tls_stream

definition tls_handshake :: "tls_stream \<Rightarrow> transport_result \<times> tls_stream" where
  "tls_handshake ts = (case ts_handshakes ts of
     [] \<Rightarrow> (tr_want_read, ts) | r # rs \<Rightarrow> (r, ts\<lparr>ts_handshakes := rs\<rparr>))"

definition tls_read :: "nat \<Rightarrow> tls_stream \<Rightarrow> transport_result \<times> bytes \<times> tls_stream" where
  "tls_read n ts = (case ts_reads ts of
     [] \<Rightarrow> (tr_want_read, [], ts)
   | (st, data) # rs \<Rightarrow>
       if st = T_Ok
       then (tr_ok (length (take n data)), take n data,
             ts\<lparr>ts_reads := (if n = 0 \<or> drop n data \<noteq> [] then (T_Ok, drop n data) # rs else rs)\<rparr>)
       else (\<lparr>tr_status = st, tr_bytes = 0\<rparr>, [], ts\<lparr>ts_reads := rs\<rparr>))"

definition tls_writev :: "bytes list \<Rightarrow> tls_stream \<Rightarrow> transport_result \<times> tls_stream" where
  "tls_writev vectors ts = (case ts_writes ts of
     [] \<Rightarrow> (tr_want_write, ts)
   | r # rs \<Rightarrow>
       if tr_status r = T_Ok
       then (tr_ok (min (tr_bytes r) (length (concat vectors))),
             ts\<lparr>ts_writes := rs, ts_sent := ts_sent ts @ take (tr_bytes r) (concat vectors)\<rparr>)
       else (\<lparr>tr_status = tr_status r, tr_bytes = 0\<rparr>, ts\<lparr>ts_writes := rs\<rparr>))"

definition tls_write :: "bytes \<Rightarrow> tls_stream \<Rightarrow> transport_result \<times> tls_stream" where
  "tls_write data ts = tls_writev [data] ts"

definition tls_shutdown :: "tls_stream \<Rightarrow> transport_result \<times> tls_stream" where
  "tls_shutdown ts = (case ts_shutdowns ts of
     [] \<Rightarrow> (tr_ok 0, ts) | r # rs \<Rightarrow> (r, ts\<lparr>ts_shutdowns := rs\<rparr>))"

text \<open>\<open>visit_transport\<close>: each operation goes to the alternative in place.\<close>

definition transport_handshake :: "transport \<Rightarrow> transport_result \<times> transport" where
  "transport_handshake t = (case t of
     Transport_Plain so \<Rightarrow> map_prod id Transport_Plain (plain_handshake so)
   | Transport_Tls ts \<Rightarrow> map_prod id Transport_Tls (tls_handshake ts))"

definition transport_read :: "nat \<Rightarrow> transport \<Rightarrow> transport_result \<times> bytes \<times> transport" where
  "transport_read n t = (case t of
     Transport_Plain so \<Rightarrow> map_prod id (map_prod id Transport_Plain) (plain_read n so)
   | Transport_Tls ts \<Rightarrow> map_prod id (map_prod id Transport_Tls) (tls_read n ts))"

definition transport_write :: "bytes \<Rightarrow> transport \<Rightarrow> transport_result \<times> transport" where
  "transport_write data t = (case t of
     Transport_Plain so \<Rightarrow> map_prod id Transport_Plain (plain_write data so)
   | Transport_Tls ts \<Rightarrow> map_prod id Transport_Tls (tls_write data ts))"

definition transport_writev :: "bytes list \<Rightarrow> transport \<Rightarrow> transport_result \<times> transport" where
  "transport_writev vectors t = (case t of
     Transport_Plain so \<Rightarrow> map_prod id Transport_Plain (plain_writev vectors so)
   | Transport_Tls ts \<Rightarrow> map_prod id Transport_Tls (tls_writev vectors ts))"

definition transport_shutdown :: "transport \<Rightarrow> transport_result \<times> transport" where
  "transport_shutdown t = (case t of
     Transport_Plain so \<Rightarrow> map_prod id Transport_Plain (plain_shutdown so)
   | Transport_Tls ts \<Rightarrow> map_prod id Transport_Tls (tls_shutdown ts))"

definition transport_is_secure :: "transport \<Rightarrow> bool" where
  "transport_is_secure t = (case t of Transport_Plain _ \<Rightarrow> False | Transport_Tls _ \<Rightarrow> True)"

definition transport_alpn_selected :: "transport \<Rightarrow> bytes" where
  "transport_alpn_selected t = (case t of Transport_Plain _ \<Rightarrow> [] | Transport_Tls ts \<Rightarrow> ts_alpn ts)"

definition transport_peer_certificate_subject :: "transport \<Rightarrow> bytes option" where
  "transport_peer_certificate_subject t =
     (case t of Transport_Plain _ \<Rightarrow> None | Transport_Tls ts \<Rightarrow> ts_peer_subject ts)"

definition transport_sent :: "transport \<Rightarrow> bytes" where
  "transport_sent t = (case t of Transport_Plain so \<Rightarrow> so_sent so | Transport_Tls ts \<Rightarrow> ts_sent ts)"

text \<open>How much input is still to come: a measure every successful read decreases.\<close>

fun recv_weight :: "recv_answer \<Rightarrow> nat" where
  "recv_weight (Recv_Bytes data) = 1 + length data"
| "recv_weight Recv_Eof = 1"
| "recv_weight (Recv_Fails e) = 1"

definition socket_input :: "socket \<Rightarrow> nat" where
  "socket_input so = sum_list (map recv_weight (so_recv so))"

definition tls_input :: "tls_stream \<Rightarrow> nat" where
  "tls_input ts = sum_list (map (\<lambda>(_, data). 1 + length data) (ts_reads ts))"

definition transport_input :: "transport \<Rightarrow> nat" where
  "transport_input t = (case t of Transport_Plain so \<Rightarrow> socket_input so | Transport_Tls ts \<Rightarrow> tls_input ts)"

section \<open>The interface of a transport\<close>

locale byte_transport =
  fixes receive :: "nat \<Rightarrow> 't \<Rightarrow> transport_result \<times> bytes \<times> 't"
    and send :: "bytes list \<Rightarrow> 't \<Rightarrow> transport_result \<times> 't"
    and sent :: "'t \<Rightarrow> bytes"
    and input :: "'t \<Rightarrow> nat"
  assumes receive_bytes: "receive n t = (res, data, t') \<Longrightarrow> length data = tr_bytes res \<and> tr_bytes res \<le> n"
    and receive_sent: "receive n t = (res, data, t') \<Longrightarrow> sent t' = sent t"
    and receive_progress: "receive n t = (res, data, t') \<Longrightarrow> 0 < tr_bytes res \<Longrightarrow> input t' < input t"
    and receive_monotone: "receive n t = (res, data, t') \<Longrightarrow> input t' \<le> input t"
    and receive_failed: "receive n t = (res, data, t') \<Longrightarrow> tr_status res \<noteq> T_Ok \<Longrightarrow> tr_bytes res = 0"
    and send_bytes: "send vectors t = (res, t') \<Longrightarrow> tr_bytes res \<le> length (concat vectors)"
    and send_sent: "send vectors t = (res, t') \<Longrightarrow> sent t' = sent t @ take (tr_bytes res) (concat vectors)"
    and send_input: "send vectors t = (res, t') \<Longrightarrow> input t' = input t"
    and send_failed: "send vectors t = (res, t') \<Longrightarrow> tr_status res \<noteq> T_Ok \<Longrightarrow> tr_bytes res = 0"
begin

text \<open>Sending a suffix of some data, twice in a row, sends a longer prefix of it.\<close>

lemma send_resumed:
  assumes "concat vectors = drop off data" "off \<le> length data"
    and "send vectors t = (res, t')" "sent t = base @ take off data"
  shows "sent t' = base @ take (off + tr_bytes res) data \<and> off + tr_bytes res \<le> length data"
  using send_sent [OF assms(3)] send_bytes [OF assms(3)] assms
  by (simp add: take_add)

lemma send_not_ok: "send vectors t = (res, t') \<Longrightarrow> tr_status res \<noteq> T_Ok \<Longrightarrow> sent t' = sent t"
  by (simp add: send_sent send_failed)

end

lemma concat_skip_vectors: "concat (skip_vectors k vs) = drop k (concat vs)"
  by (induction k vs rule: skip_vectors.induct) auto

lemma skip_vectors_nonempty: "[] \<notin> set (skip_vectors k vs)"
  by (induction k vs rule: skip_vectors.induct) auto

lemma skip_vectors_Nil_iff: "skip_vectors k vs = [] \<longleftrightarrow> length (concat vs) \<le> k"
  by (induction k vs rule: skip_vectors.induct) auto

lemma length_skip_vectors: "length (skip_vectors k vs) \<le> length vs"
  by (induction k vs rule: skip_vectors.induct) auto

lemma concat_take_prefix: "concat (take n xs) = take (length (concat (take n xs))) (concat xs)"
  by (metis append_eq_conv_conj append_take_drop_id concat_append)

lemma write_vectors_loop_spec:
  assumes "write_vectors_loop vs done_so_far answers out = (res, answers', out')" "done_so_far \<le> length (concat vs)"
  shows "case res of
      Inr n \<Rightarrow> done_so_far \<le> n \<and> n \<le> length (concat vs) \<and> out' = out @ take (n - done_so_far) (drop done_so_far (concat vs))
    | Inl e \<Rightarrow> done_so_far = 0 \<and> out' = out \<and> e \<noteq> EINTR"
  using assms
proof (induction vs done_so_far answers out arbitrary: res answers' out' rule: write_vectors_loop.induct)
  case (1 vs done_so_far out)
  then show ?case by (auto split: if_splits)
next
  case (2 vs done_so_far answer answers out)
  define batch where "batch = take kWriteBatchCapacity (skip_vectors done_so_far vs)"
  have pre: "concat batch = take (length (concat batch)) (drop done_so_far (concat vs))"
    unfolding batch_def concat_skip_vectors [symmetric] by (rule concat_take_prefix)
  have len: "done_so_far + length (concat batch) \<le> length (concat vs)"
  proof -
    have "length (concat batch) \<le> length (drop done_so_far (concat vs))" by (subst pre) simp
    with 2(4) show ?thesis by simp
  qed
  show ?case
  proof (cases "batch = []")
    case True
    with 2(3,4) show ?thesis by (auto simp: batch_def [symmetric])
  next
    case False
    show ?thesis
    proof (cases answer)
      case (Send_Fails e)
      show ?thesis
      proof (cases "e = EINTR")
        case True
        with 2(2) [OF batch_def False Send_Fails] 2(3,4) Send_Fails False show ?thesis
          by (simp add: batch_def [symmetric])
      next
        case eintr: False
        with 2(3,4) Send_Fails False show ?thesis
          by (auto simp: batch_def [symmetric] split: if_splits)
      qed
    next
      case (Send_Accepts k)
      define written where "written = min k (length (concat batch))"
      have sent: "take written (concat batch) = take written (drop done_so_far (concat vs))"
        by (subst pre) (simp add: written_def min_def take_take)
      show ?thesis
      proof (cases "written < length (concat batch)")
        case True
        with 2(3,4) Send_Accepts False len sent show ?thesis
          by (auto simp: batch_def [symmetric] written_def [symmetric] Let_def)
      next
        case full: False
        have rec: "write_vectors_loop vs (done_so_far + written) answers (out @ take written (concat batch)) = (res, answers', out')"
          using 2(3) Send_Accepts False full
          by (simp add: batch_def [symmetric] written_def [symmetric] Let_def)
        have room: "done_so_far + written \<le> length (concat vs)" using len by (simp add: written_def)
        have pos: "0 < length (concat batch)"
          using False skip_vectors_nonempty [of done_so_far vs]
          by (cases batch) (auto simp: batch_def dest!: arg_cong [of _ _ set] in_set_takeD)
        note IH = 2(1) [OF batch_def False Send_Accepts refl written_def full rec room]
        have "case res of
            Inr n \<Rightarrow> done_so_far + written \<le> n \<and> n \<le> length (concat vs) \<and>
              out' = (out @ take written (concat batch)) @ take (n - (done_so_far + written)) (drop (done_so_far + written) (concat vs))
          | Inl e \<Rightarrow> done_so_far + written = 0 \<and> out' = out @ take written (concat batch) \<and> e \<noteq> EINTR"
          using IH .
        then show ?thesis
          using full pos by (auto simp: sent take_add [symmetric] add.commute [of done_so_far] simp flip: drop_drop
              split: sum.splits)
      qed
    qed
  qed
qed

lemma plain_read_loop_spec:
  "plain_read_loop n answers = (res, data, answers') \<Longrightarrow> 0 < n \<Longrightarrow>
     length data = tr_bytes res \<and> tr_bytes res \<le> n \<and>
     (tr_status res \<noteq> T_Ok \<longrightarrow> tr_bytes res = 0) \<and>
     sum_list (map recv_weight answers') \<le> sum_list (map recv_weight answers) \<and>
     (0 < tr_bytes res \<longrightarrow> sum_list (map recv_weight answers') < sum_list (map recv_weight answers))"
proof (induction n answers arbitrary: res data answers' rule: plain_read_loop.induct)
  case (4 n e answers)
  show ?case
  proof (cases "e = EINTR")
    case True
    with 4(2) have "plain_read_loop n answers = (res, data, answers')" by simp
    from 4(1) [OF True this 4(3)] show ?thesis by auto
  next
    case False
    with 4(2) show ?thesis by (auto simp: tr_defs split: if_splits)
  qed
qed (auto simp: tr_defs split: if_splits)

interpretation plain: byte_transport plain_read plain_writev so_sent socket_input
proof unfold_locales
  fix n t res data t'
  assume r: "plain_read n t = (res, data, t')"
  show "length data = tr_bytes res \<and> tr_bytes res \<le> n" "so_sent t' = so_sent t"
    "socket_input t' \<le> socket_input t"
    using r by (auto simp: plain_read_def socket_input_def tr_defs split: if_splits prod.splits
        dest!: plain_read_loop_spec)
  show "0 < tr_bytes res \<Longrightarrow> socket_input t' < socket_input t" "tr_status res \<noteq> T_Ok \<Longrightarrow> tr_bytes res = 0"
    using r by (auto simp: plain_read_def socket_input_def tr_defs split: if_splits prod.splits
        dest!: plain_read_loop_spec)
next
  fix vectors t res t'
  assume w: "plain_writev vectors t = (res, t')"
  obtain out answers sent where l: "write_vectors_loop vectors 0 (so_send t) (so_sent t) = (out, answers, sent)"
    using prod_cases3 by blast
  note spec = write_vectors_loop_spec [OF l]
  show "tr_bytes res \<le> length (concat vectors)"
    "so_sent t' = so_sent t @ take (tr_bytes res) (concat vectors)" "socket_input t' = socket_input t"
    "tr_status res \<noteq> T_Ok \<Longrightarrow> tr_bytes res = 0"
    using w spec
    by (auto simp: plain_writev_def write_vectors_def l tr_defs socket_input_def split: if_splits sum.splits)
qed

interpretation tls: byte_transport tls_read tls_writev ts_sent tls_input
proof unfold_locales
  fix n t res data t'
  assume r: "tls_read n t = (res, data, t')"
  show "length data = tr_bytes res \<and> tr_bytes res \<le> n" "ts_sent t' = ts_sent t" "tls_input t' \<le> tls_input t"
    "0 < tr_bytes res \<Longrightarrow> tls_input t' < tls_input t" "tr_status res \<noteq> T_Ok \<Longrightarrow> tr_bytes res = 0"
    using r by (auto simp: tls_read_def tls_input_def tr_defs split: if_splits list.splits)
next
  fix vectors t res t'
  assume w: "tls_writev vectors t = (res, t')"
  show "tr_bytes res \<le> length (concat vectors)"
    "ts_sent t' = ts_sent t @ take (tr_bytes res) (concat vectors)" "tls_input t' = tls_input t"
    "tr_status res \<noteq> T_Ok \<Longrightarrow> tr_bytes res = 0"
    using w by (auto simp: tls_writev_def tls_input_def tr_defs min_def split: if_splits list.splits)
qed

text \<open>The variant keeps the contract of its alternatives.\<close>

interpretation tp: byte_transport transport_read transport_writev transport_sent transport_input
proof unfold_locales
  fix n t res data t'
  assume r: "transport_read n t = (res, data, t')"
  show "length data = tr_bytes res \<and> tr_bytes res \<le> n" "transport_sent t' = transport_sent t"
    "transport_input t' \<le> transport_input t" "0 < tr_bytes res \<Longrightarrow> transport_input t' < transport_input t"
    "tr_status res \<noteq> T_Ok \<Longrightarrow> tr_bytes res = 0"
    using r
    by (auto simp: transport_read_def transport_sent_def transport_input_def map_prod_def
        dest: plain.receive_bytes plain.receive_sent plain.receive_monotone plain.receive_progress plain.receive_failed
          tls.receive_bytes tls.receive_sent tls.receive_monotone tls.receive_progress tls.receive_failed
        split: transport.splits prod.splits)
next
  fix vectors t res t'
  assume w: "transport_writev vectors t = (res, t')"
  show "tr_bytes res \<le> length (concat vectors)"
    "transport_sent t' = transport_sent t @ take (tr_bytes res) (concat vectors)"
    "transport_input t' = transport_input t" "tr_status res \<noteq> T_Ok \<Longrightarrow> tr_bytes res = 0"
    using w
    by (auto simp: transport_writev_def transport_sent_def transport_input_def map_prod_def
        dest: plain.send_bytes plain.send_sent plain.send_input plain.send_failed
          tls.send_bytes tls.send_sent tls.send_input tls.send_failed
        split: transport.splits prod.splits)
qed

text \<open>\<open>writev\<close> on a plain socket sends a prefix of the data and reports its exact length. Whatever the
  kernel answers, interrupted calls and partial writes included, the bytes that left are the first
  bytes of the concatenated vectors, as many as the result says; a failed or blocked call has sent
  nothing.\<close>

theorem plain_writev_sends_prefix:
  assumes "plain_writev vectors so = (res, so')"
  shows "so_sent so' = so_sent so @ take (tr_bytes res) (concat vectors) \<and>
    tr_bytes res \<le> length (concat vectors) \<and> (tr_status res \<noteq> T_Ok \<longrightarrow> so_sent so' = so_sent so)"
  using plain.send_sent [OF assms] plain.send_bytes [OF assms] plain.send_not_ok [OF assms] by blast

theorem plain_writev_sends_prefix_witness:
  "\<exists>res so'. plain_writev [''ab'', ''cd''] \<lparr>so_recv = [], so_send = [Send_Fails EINTR, Send_Accepts 3],
     so_shutdown = [], so_sent = []\<rparr> = (res, so') \<and> so_sent so' = take (tr_bytes res) ''abcd''"
proof -
  obtain res so' where w: "plain_writev [''ab'', ''cd''] \<lparr>so_recv = [], so_send = [Send_Fails EINTR, Send_Accepts 3],
     so_shutdown = [], so_sent = []\<rparr> = (res, so')" by fastforce
  then show ?thesis using plain_writev_sends_prefix [OF w] by auto
qed

end
