(* ===== verification/Http_Connection.thy ===== *)
theory Http_Connection
  imports Http_Router Http_Transport
begin

text \<open>
  \<open>connection.cpp\<close> and \<open>connection.hpp\<close>: one connection, driven by readiness, deadlines and stream
  notifications. The record holds the members of \<open>Connection\<close> and, in the fields \<open>cx_\<close>, what the connection
  meets outside: the ticks of the steady clock between its readings, the answers of the stream source it
  pulls, whether attaching throws, and the calls it made to the source and the metrics.
\<close>

datatype connection_state = Handshaking | ReadingHeaders | ReadingBody | Writing | Streaming | Closing

datatype epoll_interest = Interest_Done | Interest_Quiescent | Interest_Read | Interest_Write | Interest_ReadWrite

datatype pull_answer = Pull_Wrote bytes | Pull_Idle bytes | Pull_Finished bytes | Pull_Threw bytes

datatype metric_call =
    M_Bytes_Written nat | M_Tls_Handshake_Completed | M_Tls_Handshake_Failed | M_Rejected_Parse
  | M_Response_Completed status "int option"

datatype conn_event = Ev_Attached nat | Ev_Pulled nat | Ev_Detached nat | Ev_Metric metric_call

text \<open>The members of \<open>ServerOptions\<close> a connection reads; durations are milliseconds, clock readings
  nanoseconds.\<close>

record server_options =
  opt_limits :: request_limits
  opt_max_requests_per_connection :: "32 word"
  opt_handshake_timeout :: nat
  opt_header_timeout :: nat
  opt_body_timeout :: nat
  opt_write_timeout :: nat
  opt_keep_alive_idle :: nat
  opt_request_deadline :: nat
  opt_stream_idle_timeout :: nat
  opt_server_header :: bytes

definition millis :: "nat \<Rightarrow> int" where
  "millis n = int n * 1000000"

text \<open>What a connection refers to and does not own, with the parameters of the components it calls;
  \<open>cf_storage_at\<close> is where the read buffer's storage of a given capacity lies.\<close>

record conn_config =
  cf_router :: router
  cf_options :: server_options
  cf_strict_transport_security :: bool
  cf_hsts_max_age_seconds :: nat
  cf_metrics :: bool
  cf_parse_env :: parse_env
  cf_compress_env :: compress_env
  cf_names_at :: "bytes \<Rightarrow> nat"
  cf_storage_at :: "nat \<Rightarrow> nat"
  cf_date :: int

record connection =
  cn_peer :: peer_address
  cn_transport :: transport
  cn_read_buffer :: buffer
  cn_write_buffer :: buffer
  cn_request_parser :: request_parser
  cn_request :: request
  cn_pending_response :: "response option"
  cn_compressed_body :: bytes
  cn_write_vectors :: "bytes list"
  cn_write_offset :: nat
  cn_stream :: "nat option"
  cn_notifier :: bool
  cn_deadline :: int
  cn_request_deadline :: int
  cn_requests_served :: "32 word"
  cn_state :: connection_state
  cn_saw_any_bytes :: bool
  cn_stream_waiting_for_write_progress :: bool
  cx_now :: int
  cx_ticks :: "nat list"
  cx_pulls :: "pull_answer list"
  cx_attach_throws :: "bool list"
  cx_events :: "conn_event list"

definition kReadChunkBytes :: nat where "kReadChunkBytes = 4096"
definition kMaxPipelinedRequestsPerStep :: nat where "kMaxPipelinedRequestsPerStep = 8"
definition kCloseDrainPasses :: nat where "kCloseDrainPasses = 4"
definition kCloseDrainChunkBytes :: nat where "kCloseDrainChunkBytes = 1024"

definition size_max :: nat where "size_max = 2 ^ 64 - 1"

definition saturating_add :: "nat \<Rightarrow> nat \<Rightarrow> nat" where
  "saturating_add left right = (if right > size_max - left then size_max else left + right)"

lemma saturating_add_code [code]:
  "saturating_add left right =
     (if int left \<le> 2 ^ 64 - 1 \<and> int left + int right \<le> 2 ^ 64 - 1 then left + right
      else if int left > 2 ^ 64 - 1 \<and> right = 0 then left else nat (2 ^ 64 - 1))"
  by (auto simp: saturating_add_def size_max_def nat_diff_distrib)

section \<open>Clock, events and deadlines\<close>

definition read_clock :: "connection \<Rightarrow> connection" where
  "read_clock c = (case cx_ticks c of [] \<Rightarrow> c
     | t # ts \<Rightarrow> c\<lparr>cx_now := cx_now c + int t, cx_ticks := ts\<rparr>)"

definition emit :: "conn_event \<Rightarrow> connection \<Rightarrow> connection" where
  "emit e c = c\<lparr>cx_events := cx_events c @ [e]\<rparr>"

definition emit_metric :: "conn_config \<Rightarrow> metric_call \<Rightarrow> connection \<Rightarrow> connection" where
  "emit_metric cfg m c = (if cf_metrics cfg then emit (Ev_Metric m) c else c)"

definition arm_deadline :: "nat \<Rightarrow> connection \<Rightarrow> connection" where
  "arm_deadline budget c =
     (let c = read_clock c; deadline = cx_now c + millis budget
      in c\<lparr>cn_deadline :=
            (if cn_request_deadline c \<noteq> 0 \<and> cn_state c \<noteq> Streaming \<and> deadline > cn_request_deadline c
             then cn_request_deadline c else deadline)\<rparr>)"

definition stream_liveness_budget :: "conn_config \<Rightarrow> nat" where
  "stream_liveness_budget cfg = opt_stream_idle_timeout (cf_options cfg)"

definition enter_state :: "conn_config \<Rightarrow> connection_state \<Rightarrow> connection \<Rightarrow> connection" where
  "enter_state cfg next_state c =
     (let c = c\<lparr>cn_state := next_state\<rparr>; options = cf_options cfg in
      case next_state of
        Handshaking \<Rightarrow> arm_deadline (opt_handshake_timeout options) c
      | ReadingHeaders \<Rightarrow>
          arm_deadline (if \<not> cn_saw_any_bytes c \<and> cn_requests_served c > 0
                        then opt_keep_alive_idle options else opt_header_timeout options) c
      | ReadingBody \<Rightarrow> arm_deadline (opt_body_timeout options) c
      | Writing \<Rightarrow> arm_deadline (opt_write_timeout options) c
      | Streaming \<Rightarrow> arm_deadline (stream_liveness_budget cfg) c
      | Closing \<Rightarrow> arm_deadline (opt_write_timeout options) c)"

definition release_stream_source :: "connection \<Rightarrow> connection" where
  "release_stream_source c =
     (let c = c\<lparr>cn_stream_waiting_for_write_progress := False\<rparr>;
          c = (case cn_stream c of None \<Rightarrow> c
               | Some source \<Rightarrow> (emit (Ev_Detached source) c)\<lparr>cn_stream := None\<rparr>)
      in c\<lparr>cn_notifier := False\<rparr>)"

definition new_connection :: "conn_config \<Rightarrow> peer_address \<Rightarrow> transport \<Rightarrow> connection \<Rightarrow> connection" where
  "new_connection cfg peer transport outside =
     enter_state cfg Handshaking
       \<lparr>cn_peer = peer, cn_transport = transport, cn_read_buffer = make_buffer kInitialBufferBytes,
        cn_write_buffer = make_buffer kInitialBufferBytes, cn_request_parser = new_parser,
        cn_request = set_secure (transport_is_secure transport) (set_peer peer default_request),
        cn_pending_response = None, cn_compressed_body = [], cn_write_vectors = [], cn_write_offset = 0,
        cn_stream = None, cn_notifier = False, cn_deadline = 0, cn_request_deadline = 0,
        cn_requests_served = 0, cn_state = Handshaking, cn_saw_any_bytes = False,
        cn_stream_waiting_for_write_progress = False, cx_now = cx_now outside, cx_ticks = cx_ticks outside,
        cx_pulls = cx_pulls outside, cx_attach_throws = cx_attach_throws outside, cx_events = []\<rparr>"

section \<open>Closing\<close>

definition begin_close :: "conn_config \<Rightarrow> connection \<Rightarrow> connection" where
  "begin_close cfg c =
     (if cn_state c = Closing then c
      else let c = release_stream_source c;
               c = c\<lparr>cn_transport := snd (transport_shutdown (cn_transport c))\<rparr>
           in enter_state cfg Closing c)"

text \<open>The loop of \<open>drive_close\<close>: what the peer still sends is read and dropped.\<close>

fun close_drain :: "nat \<Rightarrow> transport \<Rightarrow> transport" where
  "close_drain 0 t = t"
| "close_drain (Suc passes) t =
     (let (res, _, t) = transport_read kCloseDrainChunkBytes t in
      if is_terminal res then t
      else if is_blocked res \<or> tr_bytes res = 0 then t
      else close_drain passes t)"

definition drive_close :: "connection \<Rightarrow> epoll_interest \<times> connection" where
  "drive_close c = (Interest_Done, c\<lparr>cn_transport := close_drain kCloseDrainPasses (cn_transport c)\<rparr>)"

definition close_now :: "conn_config \<Rightarrow> connection \<Rightarrow> epoll_interest \<times> connection" where
  "close_now cfg c = drive_close (begin_close cfg c)"

section \<open>Serializing\<close>

text \<open>The first part of \<open>dispatch_and_serialize\<close>: a response that is not pending yet is made by the router.\<close>

definition dispatch_request :: "conn_config \<Rightarrow> connection \<Rightarrow> connection" where
  "dispatch_request cfg c =
     (case cn_pending_response c of
        Some _ \<Rightarrow> c
      | None \<Rightarrow>
          let (response, request) = dispatch (cf_names_at cfg) (cf_router cfg) (cn_request c) in
          c\<lparr>cn_request := request,
            cn_pending_response := Some (apply_conditional_request (cf_compress_env cfg) request response)\<rparr>)"

definition response_options :: "conn_config \<Rightarrow> response \<Rightarrow> connection \<Rightarrow> encoding_options" where
  "response_options cfg response c =
     \<lparr>server_header = opt_server_header (cf_options cfg),
      opt_keep_alive = (\<not> is_stream response \<and> req_keep_alive (cn_request c) \<and>
        cn_requests_served c + 1 < opt_max_requests_per_connection (cf_options cfg)),
      opt_secure = transport_is_secure (cn_transport c),
      strict_transport_security = cf_strict_transport_security cfg,
      hsts_max_age_seconds = cf_hsts_max_age_seconds cfg\<rparr>"

definition dispatch_and_serialize :: "conn_config \<Rightarrow> connection \<Rightarrow> connection" where
  "dispatch_and_serialize cfg c =
     (let c = dispatch_request cfg c;
          response = the (cn_pending_response c);
          c = (if is_stream response then c\<lparr>cn_stream := res_stream response\<rparr> else c);
          (encoded, head, compressed) = encode_response (cf_compress_env cfg) (cf_date cfg) (cn_request c) response
            (response_options cfg response c) (cn_write_buffer c) (cn_compressed_body c)
      in c\<lparr>cn_write_buffer := head, cn_compressed_body := compressed, cn_write_offset := 0,
           cn_write_vectors := [readable head] @
             (if \<not> suppress_body encoded \<and> enc_body encoded \<noteq> [] then [enc_body encoded] else []),
           cn_request_deadline := 0\<rparr>)"

definition serialize_error :: "conn_config \<Rightarrow> status \<Rightarrow> connection \<Rightarrow> connection" where
  "serialize_error cfg st c =
     (let c = read_clock c;
          request = set_received_at (cx_now c)
            (set_secure (transport_is_secure (cn_transport c)) (set_peer (cn_peer c) (request_reset (cn_request c))))
      in dispatch_and_serialize cfg
           (c\<lparr>cn_request_parser := parser_reset (cn_request_parser c), cn_request := request,
              cn_pending_response := Some (response_text (reason_phrase st @ [CHR 0x0A]) st)\<rparr>))"

definition adopt_parsed_request :: "parsed_request \<Rightarrow> connection \<Rightarrow> connection" where
  "adopt_parsed_request parsed c =
     (let c = read_clock c;
          request = set_received_at (cx_now c)
            (set_secure (transport_is_secure (cn_transport c)) (set_peer (cn_peer c) (pr_request parsed)))
      in c\<lparr>cn_read_buffer := consume (pr_consumed_bytes parsed) (cn_read_buffer c),
           cn_request := (case transport_peer_certificate_subject (cn_transport c) of
             None \<Rightarrow> request | Some subject \<Rightarrow> set_client_certificate_subject subject request)\<rparr>)"

section \<open>Streaming\<close>

lemma arm_deadline_fields [simp]:
  "cn_write_vectors (arm_deadline b c) = cn_write_vectors c"
  "cn_write_offset (arm_deadline b c) = cn_write_offset c"
  "cn_transport (arm_deadline b c) = cn_transport c"
  "cn_state (arm_deadline b c) = cn_state c"
  "cn_stream (arm_deadline b c) = cn_stream c"
  "cx_pulls (arm_deadline b c) = cx_pulls c"
  "cx_events (arm_deadline b c) = cx_events c"
  "cn_read_buffer (arm_deadline b c) = cn_read_buffer c"
  "cn_write_buffer (arm_deadline b c) = cn_write_buffer c"
  "cn_request_parser (arm_deadline b c) = cn_request_parser c"
  "cn_request (arm_deadline b c) = cn_request c"
  "cn_pending_response (arm_deadline b c) = cn_pending_response c"
  "cn_request_deadline (arm_deadline b c) = cn_request_deadline c"
  "cn_requests_served (arm_deadline b c) = cn_requests_served c"
  "cn_saw_any_bytes (arm_deadline b c) = cn_saw_any_bytes c"
  "cn_notifier (arm_deadline b c) = cn_notifier c"
  "cn_peer (arm_deadline b c) = cn_peer c"
  "cx_attach_throws (arm_deadline b c) = cx_attach_throws c"
  by (simp_all add: arm_deadline_def read_clock_def Let_def split: list.split)

lemma emit_metric_fields [simp]:
  "cn_write_vectors (emit_metric cfg m c) = cn_write_vectors c"
  "cn_write_offset (emit_metric cfg m c) = cn_write_offset c"
  "cn_transport (emit_metric cfg m c) = cn_transport c"
  "cn_state (emit_metric cfg m c) = cn_state c"
  "cn_stream (emit_metric cfg m c) = cn_stream c"
  "cx_pulls (emit_metric cfg m c) = cx_pulls c"
  "cn_read_buffer (emit_metric cfg m c) = cn_read_buffer c"
  "cn_write_buffer (emit_metric cfg m c) = cn_write_buffer c"
  "cn_request_parser (emit_metric cfg m c) = cn_request_parser c"
  "cn_request (emit_metric cfg m c) = cn_request c"
  "cn_pending_response (emit_metric cfg m c) = cn_pending_response c"
  "cn_request_deadline (emit_metric cfg m c) = cn_request_deadline c"
  "cn_requests_served (emit_metric cfg m c) = cn_requests_served c"
  "cn_saw_any_bytes (emit_metric cfg m c) = cn_saw_any_bytes c"
  "cn_deadline (emit_metric cfg m c) = cn_deadline c"
  "cx_now (emit_metric cfg m c) = cx_now c"
  "cn_notifier (emit_metric cfg m c) = cn_notifier c"
  "cn_peer (emit_metric cfg m c) = cn_peer c"
  "cx_attach_throws (emit_metric cfg m c) = cx_attach_throws c"
  by (simp_all add: emit_metric_def emit_def)

text \<open>The inner loop of \<open>drive_stream\<close>: the interest it returns with, or none when everything pending was
  written.\<close>

definition stream_advance :: "conn_config \<Rightarrow> nat \<Rightarrow> connection \<Rightarrow> connection" where
  "stream_advance cfg n c =
     emit_metric cfg (M_Bytes_Written n)
       (arm_deadline (opt_write_timeout (cf_options cfg))
         (c\<lparr>cn_write_offset := cn_write_offset c + n, cn_stream_waiting_for_write_progress := False\<rparr>))"

definition stream_blocked :: "conn_config \<Rightarrow> connection \<Rightarrow> connection" where
  "stream_blocked cfg c =
     (if \<not> cn_stream_waiting_for_write_progress c
      then arm_deadline (opt_write_timeout (cf_options cfg)) (c\<lparr>cn_stream_waiting_for_write_progress := True\<rparr>)
      else c)"

function stream_write_loop :: "conn_config \<Rightarrow> connection \<Rightarrow> epoll_interest option \<times> connection" where
  "stream_write_loop cfg c =
     (if cn_write_offset c < length (concat (cn_write_vectors c))
      then let batch = skip_vectors (cn_write_offset c) (cn_write_vectors c) in
        if batch = [] then (None, c)
        else let (res, t) = transport_writev batch (cn_transport c); c' = c\<lparr>cn_transport := t\<rparr> in
          if is_terminal res then map_prod Some id (close_now cfg c')
          else if is_blocked res \<or> tr_bytes res = 0
          then (Some (if tr_status res = T_WantRead then Interest_Read else Interest_Write),
                stream_blocked cfg c')
          else stream_write_loop cfg (stream_advance cfg (tr_bytes res) c')
      else (None, c))"
  by pat_completeness auto
termination
  by (relation "measure (\<lambda>(_, c). length (concat (cn_write_vectors c)) - cn_write_offset c)")
    (auto simp: stream_advance_def split: prod.splits)

declare stream_write_loop.simps [simp del]

text \<open>How the loop ends, from the state its last successful write left; \<open>I\<close> is anything those writes keep.\<close>

lemma stream_write_loop_outcome:
  assumes "stream_write_loop cfg c = (r, c')" and "I c"
    and "\<And>c res t. I c \<Longrightarrow> cn_write_offset c < length (concat (cn_write_vectors c)) \<Longrightarrow>
      transport_writev (skip_vectors (cn_write_offset c) (cn_write_vectors c)) (cn_transport c) = (res, t) \<Longrightarrow>
      0 < tr_bytes res \<Longrightarrow> I (stream_advance cfg (tr_bytes res) (c\<lparr>cn_transport := t\<rparr>))"
  obtains (finished) "r = None" "I c'" "length (concat (cn_write_vectors c')) \<le> cn_write_offset c'"
  | (blocked) d res t where "I d" "cn_write_offset d < length (concat (cn_write_vectors d))"
      "transport_writev (skip_vectors (cn_write_offset d) (cn_write_vectors d)) (cn_transport d) = (res, t)"
      "\<not> is_terminal res" "is_blocked res \<or> tr_bytes res = 0" "c' = stream_blocked cfg (d\<lparr>cn_transport := t\<rparr>)"
      "r = Some (if tr_status res = T_WantRead then Interest_Read else Interest_Write)"
  | (closed) d res t where "I d" "cn_write_offset d < length (concat (cn_write_vectors d))"
      "transport_writev (skip_vectors (cn_write_offset d) (cn_write_vectors d)) (cn_transport d) = (res, t)"
      "is_terminal res" "(r, c') = map_prod Some id (close_now cfg (d\<lparr>cn_transport := t\<rparr>))"
proof -
  have "(r = None \<and> I c' \<and> length (concat (cn_write_vectors c')) \<le> cn_write_offset c') \<or>
    (\<exists>d res t. I d \<and> cn_write_offset d < length (concat (cn_write_vectors d)) \<and>
      transport_writev (skip_vectors (cn_write_offset d) (cn_write_vectors d)) (cn_transport d) = (res, t) \<and>
      ((\<not> is_terminal res \<and> (is_blocked res \<or> tr_bytes res = 0) \<and> c' = stream_blocked cfg (d\<lparr>cn_transport := t\<rparr>) \<and>
        r = Some (if tr_status res = T_WantRead then Interest_Read else Interest_Write)) \<or>
       (is_terminal res \<and> (r, c') = map_prod Some id (close_now cfg (d\<lparr>cn_transport := t\<rparr>)))))"
    using assms(1,2)
  proof (induction "length (concat (cn_write_vectors c)) - cn_write_offset c" arbitrary: c rule: less_induct)
    case less
    show ?case
    proof (cases "cn_write_offset c < length (concat (cn_write_vectors c))")
      case False
      with less.prems show ?thesis by (auto simp: stream_write_loop.simps [of cfg c])
    next
      case True
      let ?batch = "skip_vectors (cn_write_offset c) (cn_write_vectors c)"
      have ne: "?batch \<noteq> []" using True by (simp add: skip_vectors_Nil_iff)
      obtain res t where w: "transport_writev ?batch (cn_transport c) = (res, t)" by fastforce
      consider (ended) "is_terminal res \<or> is_blocked res \<or> tr_bytes res = 0"
        | (progress) "\<not> is_terminal res" "\<not> is_blocked res" "0 < tr_bytes res" by auto
      then show ?thesis
      proof cases
        case progress
        let ?c = "stream_advance cfg (tr_bytes res) (c\<lparr>cn_transport := t\<rparr>)"
        have "stream_write_loop cfg ?c = (r, c')"
          using less.prems(1) True ne w progress by (simp add: stream_write_loop.simps [of cfg c])
        then show ?thesis
          using True progress by (intro less.hyps [OF _ _ assms(3) [OF less.prems(2) True w progress(3)]])
            (auto simp: stream_advance_def)
      next
        case ended
        then have "(r, c') = (if is_terminal res then map_prod Some id (close_now cfg (c\<lparr>cn_transport := t\<rparr>))
            else (Some (if tr_status res = T_WantRead then Interest_Read else Interest_Write),
                  stream_blocked cfg (c\<lparr>cn_transport := t\<rparr>)))"
          using less.prems(1) True ne w by (simp add: stream_write_loop.simps [of cfg c] Let_def split: if_splits)
        with ended less.prems(2) True w show ?thesis
          by (intro disjI2 exI [of _ c] exI [of _ res] exI [of _ t]) (auto split: if_split_asm)
      qed
    qed
  qed
  then show thesis using finished blocked closed by blast
qed

lemma close_now_pulls [simp]: "cx_pulls (begin_close cfg c) = cx_pulls c"
  by (simp add: begin_close_def enter_state_def release_stream_source_def emit_def Let_def
      split: connection_state.split option.split)

lemma stream_write_loop_pulls:
  "stream_write_loop cfg c = (None, c') \<Longrightarrow> cx_pulls c' = cx_pulls c"
  by (erule stream_write_loop_outcome [where I = "\<lambda>d. cx_pulls d = cx_pulls c"])
    (auto simp: stream_advance_def close_now_def drive_close_def)

text \<open>The bytes pulled become the only pending vector.\<close>

definition queue_pulled :: "bytes \<Rightarrow> connection \<Rightarrow> connection" where
  "queue_pulled scratch c =
     (let c = c\<lparr>cn_write_buffer := append scratch (cn_write_buffer c)\<rparr>
      in c\<lparr>cn_write_vectors := cn_write_vectors c @ [readable (cn_write_buffer c)]\<rparr>)"

definition clear_pending_writes :: "connection \<Rightarrow> connection" where
  "clear_pending_writes c =
     c\<lparr>cn_write_vectors := [], cn_write_offset := 0, cn_write_buffer := clear (cn_write_buffer c)\<rparr>"

text \<open>\<open>drive_stream\<close>; a source with no answer left is idle.\<close>

function drive_stream :: "conn_config \<Rightarrow> connection \<Rightarrow> epoll_interest \<times> connection" where
  "drive_stream cfg c =
     (case stream_write_loop cfg c of
        (Some interest, c') \<Rightarrow> (interest, c')
      | (None, c') \<Rightarrow>
          let c1 = (if length (concat (cn_write_vectors c)) > 0
                    then arm_deadline (stream_liveness_budget cfg)
                           (c'\<lparr>cn_stream_waiting_for_write_progress := False\<rparr>)
                    else c');
              c2 = clear_pending_writes c1 in
          if cn_stream c2 = None then close_now cfg c2
          else case cx_pulls c2 of
            [] \<Rightarrow> (Interest_Quiescent, c2)
          | answer # answers \<Rightarrow>
              let c3 = emit (Ev_Pulled (the (cn_stream c2))) (c2\<lparr>cx_pulls := answers\<rparr>) in
              (case answer of
                 Pull_Idle scratch \<Rightarrow> (Interest_Quiescent, c3)
               | Pull_Wrote scratch \<Rightarrow>
                   if scratch = [] then (Interest_Quiescent, c3)
                   else drive_stream cfg (queue_pulled scratch c3)
               | Pull_Finished scratch \<Rightarrow>
                   if scratch = [] then close_now cfg c3
                   else drive_stream cfg (release_stream_source (queue_pulled scratch c3))
               | Pull_Threw scratch \<Rightarrow>
                   if scratch = [] then close_now cfg c3
                   else drive_stream cfg (release_stream_source (queue_pulled scratch c3))))"
  by pat_completeness auto
termination
proof (relation "measure (\<lambda>(_, c). length (cx_pulls c))")
qed (auto simp: queue_pulled_def release_stream_source_def emit_def clear_pending_writes_def Let_def
    dest!: sym [of "(None, _)"] stream_write_loop_pulls split: option.splits if_splits)

declare drive_stream.simps [simp del]

section \<open>Writing\<close>

definition write_advance :: "conn_config \<Rightarrow> nat \<Rightarrow> connection \<Rightarrow> connection" where
  "write_advance cfg n c =
     emit_metric cfg (M_Bytes_Written n) (c\<lparr>cn_write_offset := cn_write_offset c + n\<rparr>)"

text \<open>The loop of \<open>drive_write\<close>.\<close>

function write_loop :: "conn_config \<Rightarrow> connection \<Rightarrow> epoll_interest option \<times> connection" where
  "write_loop cfg c =
     (if cn_write_offset c < length (concat (cn_write_vectors c))
      then let batch = skip_vectors (cn_write_offset c) (cn_write_vectors c) in
        if batch = [] then (None, c)
        else let (res, t) = transport_writev batch (cn_transport c); c' = c\<lparr>cn_transport := t\<rparr> in
          if tr_status res = T_WantWrite then (Some Interest_Write, c')
          else if tr_status res = T_WantRead then (Some Interest_Read, c')
          else if is_terminal res then (Some Interest_Done, c')
          else if tr_bytes res = 0 then (Some Interest_Write, c')
          else write_loop cfg (write_advance cfg (tr_bytes res) c')
      else (None, c))"
  by pat_completeness auto
termination
  by (relation "measure (\<lambda>(_, c). length (concat (cn_write_vectors c)) - cn_write_offset c)")
    (auto simp: write_advance_def split: prod.splits)

declare write_loop.simps [simp del]

definition attach_stream :: "conn_config \<Rightarrow> nat \<Rightarrow> connection \<Rightarrow> epoll_interest \<times> connection" where
  "attach_stream cfg source c =
     (let c = (clear_pending_writes c)\<lparr>cn_pending_response := None, cn_notifier := True\<rparr>;
          c = emit (Ev_Attached source) c;
          throws = (case cx_attach_throws c of [] \<Rightarrow> False | b # _ \<Rightarrow> b);
          c = c\<lparr>cx_attach_throws := tl (cx_attach_throws c)\<rparr>
      in if throws then close_now cfg c else drive_stream cfg (enter_state cfg Streaming c))"

definition response_finished :: "conn_config \<Rightarrow> connection \<Rightarrow> connection" where
  "response_finished cfg c =
     (let answered = (case cn_pending_response c of Some r \<Rightarrow> res_status r | None \<Rightarrow> Status_InternalServerError);
          c = (if cf_metrics cfg
               then if req_received_at (cn_request c) \<noteq> 0
                    then let c = read_clock c in
                      emit_metric cfg (M_Response_Completed answered
                        (Some (cx_now c - req_received_at (cn_request c)))) c
                    else emit_metric cfg (M_Response_Completed answered None) c
               else c);
          c = c\<lparr>cn_requests_served := cn_requests_served c + 1\<rparr>;
          c = release_stream_source c
      in (clear_pending_writes c)\<lparr>cn_pending_response := None\<rparr>)"

definition prepare_next_request :: "conn_config \<Rightarrow> connection \<Rightarrow> connection" where
  "prepare_next_request cfg c =
     (let limits = opt_limits (cf_options cfg);
          retained = saturating_add (max_request_line_bytes limits) (max_header_block_bytes limits);
          c = c\<lparr>cn_request := request_reset (cn_request c),
                cn_read_buffer := compact_and_reclaim retained (cn_read_buffer c)\<rparr>;
          c = c\<lparr>cn_saw_any_bytes := \<not> buffer_empty (cn_read_buffer c)\<rparr>;
          c = (if cn_saw_any_bytes c
               then let c = read_clock c in
                 c\<lparr>cn_request_deadline := cx_now c + millis (opt_request_deadline (cf_options cfg))\<rparr>
               else c\<lparr>cn_request_deadline := 0\<rparr>)
      in enter_state cfg ReadingHeaders c)"

definition drive_write :: "conn_config \<Rightarrow> connection \<Rightarrow> epoll_interest \<times> connection" where
  "drive_write cfg c =
     (case write_loop cfg c of
        (Some interest, c) \<Rightarrow> (interest, c)
      | (None, c) \<Rightarrow>
          let streaming = (case cn_pending_response c of Some r \<Rightarrow> is_stream r | None \<Rightarrow> False) in
          if streaming \<and> cn_stream c \<noteq> None \<and> req_method (cn_request c) \<noteq> Method_Head
          then attach_stream cfg (the (cn_stream c)) c
          else
            let c = response_finished cfg c;
                keep_alive = (\<not> streaming \<and> req_keep_alive (cn_request c) \<and>
                  cn_requests_served c < opt_max_requests_per_connection (cf_options cfg))
            in if \<not> keep_alive then close_now cfg c
               else (Interest_Read, prepare_next_request cfg c))"

section \<open>Reading\<close>

definition read_view :: "conn_config \<Rightarrow> connection \<Rightarrow> view" where
  "read_view cfg c =
     \<lparr>view_data = cf_storage_at cfg (capacity (cn_read_buffer c)) + read_cursor (cn_read_buffer c),
      view_text = readable (cn_read_buffer c)\<rparr>"

text \<open>One call of \<open>parse\<close> on what is buffered.\<close>

definition parse_buffered :: "conn_config \<Rightarrow> connection \<Rightarrow> (parse_error, parsed_request) expected \<times> connection" where
  "parse_buffered cfg c =
     (let (parsed, p) = parse ((cf_parse_env cfg)\<lparr>env_now := cx_now c\<rparr>) (read_view cfg c)
            (opt_limits (cf_options cfg)) (cn_request_parser c)
      in (parsed, c\<lparr>cn_request_parser := p\<rparr>))"

definition answer_request :: "conn_config \<Rightarrow> parsed_request \<Rightarrow> connection \<Rightarrow> connection" where
  "answer_request cfg parsed c =
     enter_state cfg Writing (dispatch_and_serialize cfg (adopt_parsed_request parsed c))"

definition answer_parse_error :: "conn_config \<Rightarrow> parse_error \<Rightarrow> connection \<Rightarrow> connection" where
  "answer_parse_error cfg error c =
     enter_state cfg Writing (serialize_error cfg (status_for error) (emit_metric cfg M_Rejected_Parse c))"

text \<open>\<open>transport_read\<close> into the tail of the read buffer; the bytes are committed by the callers.\<close>

definition read_chunk :: "connection \<Rightarrow> transport_result \<times> connection" where
  "read_chunk c =
     (let b = writable_tail kReadChunkBytes (cn_read_buffer c);
          (res, data, t) = transport_read (writable_capacity b) (cn_transport c)
      in (res, c\<lparr>cn_read_buffer := copy_into_tail data b, cn_transport := t\<rparr>))"

definition commit_chunk :: "nat \<Rightarrow> connection \<Rightarrow> connection" where
  "commit_chunk n c = c\<lparr>cn_read_buffer := commit n (cn_read_buffer c)\<rparr>"

lemma read_chunk_progress:
  "read_chunk c = (res, c') \<Longrightarrow> 0 < tr_bytes res \<Longrightarrow> transport_input (cn_transport c') < transport_input (cn_transport c)"
  by (auto simp: read_chunk_def Let_def split: prod.splits dest: tp.receive_progress)

lemma parse_buffered_transport:
  "parse_buffered cfg c = (parsed, c') \<Longrightarrow> cn_transport c' = cn_transport c"
  by (auto simp: parse_buffered_def split: prod.splits)

function drive_read_body :: "conn_config \<Rightarrow> connection \<Rightarrow> epoll_interest \<times> connection" where
  "drive_read_body cfg c =
     (let (parsed, c1) = parse_buffered cfg c in
      case parsed of
        Inr request \<Rightarrow> drive_write cfg (answer_request cfg request c1)
      | Inl error \<Rightarrow>
          if error \<noteq> NeedsMoreData then drive_write cfg (answer_parse_error cfg error c1)
          else let (res, c2) = read_chunk c1 in
            if tr_status res = T_WantRead then (Interest_Read, c2)
            else if tr_status res = T_WantWrite then (Interest_Write, c2)
            else if is_terminal res \<or> tr_bytes res = 0 then close_now cfg c2
            else drive_read_body cfg (commit_chunk (tr_bytes res) c2))"
  by pat_completeness auto
termination
  by (relation "measure (\<lambda>(_, c). transport_input (cn_transport c))")
    (auto simp: commit_chunk_def dest!: sym [of "(_, _)"] read_chunk_progress parse_buffered_transport)

declare drive_read_body.simps [simp del]

text \<open>The first byte of a request starts its absolute budget.\<close>

definition note_first_bytes :: "conn_config \<Rightarrow> connection \<Rightarrow> connection" where
  "note_first_bytes cfg c =
     (if \<not> cn_saw_any_bytes c
      then let c = read_clock (c\<lparr>cn_saw_any_bytes := True\<rparr>);
               c = c\<lparr>cn_request_deadline := cx_now c + millis (opt_request_deadline (cf_options cfg))\<rparr>
           in arm_deadline (opt_header_timeout (cf_options cfg)) c
      else c)"

lemma note_first_bytes_transport [simp]: "cn_transport (note_first_bytes cfg c) = cn_transport c"
  by (simp add: note_first_bytes_def read_clock_def Let_def split: list.split)

definition parse_if_buffered :: "conn_config \<Rightarrow> connection \<Rightarrow> (parse_error, parsed_request) expected \<times> connection" where
  "parse_if_buffered cfg c =
     (if \<not> buffer_empty (cn_read_buffer c) then parse_buffered cfg c else (Inl NeedsMoreData, c))"

lemma parse_if_buffered_transport:
  "parse_if_buffered cfg c = (parsed, c') \<Longrightarrow> cn_transport c' = cn_transport c"
  by (auto simp: parse_if_buffered_def dest: parse_buffered_transport split: if_splits)

datatype head_outcome = Head_Returned epoll_interest | Head_Answered | Head_Body_Pending

text \<open>The inner loop of \<open>drive_read_headers\<close>.\<close>

function read_head_loop :: "conn_config \<Rightarrow> connection \<Rightarrow> head_outcome \<times> connection" where
  "read_head_loop cfg c =
     (let (parsed, c1) = parse_if_buffered cfg c in
      case parsed of
        Inr request \<Rightarrow> (Head_Answered, answer_request cfg request c1)
      | Inl error \<Rightarrow>
          if error \<noteq> NeedsMoreData then (Head_Answered, answer_parse_error cfg error c1)
          else if \<not> buffer_empty (cn_read_buffer c) \<and> waiting_for_body (cn_request_parser c1)
          then (Head_Body_Pending, enter_state cfg ReadingBody c1)
          else let (res, c2) = read_chunk c1 in
            if tr_status res = T_WantRead then (Head_Returned Interest_Read, c2)
            else if tr_status res = T_WantWrite then (Head_Returned Interest_Write, c2)
            else if is_terminal res \<or> tr_bytes res = 0 then map_prod Head_Returned id (close_now cfg c2)
            else read_head_loop cfg (note_first_bytes cfg (commit_chunk (tr_bytes res) c2)))"
  by pat_completeness auto
termination
  by (relation "measure (\<lambda>(_, c). transport_input (cn_transport c))")
    (auto simp: commit_chunk_def dest!: sym [of "(_, _)"] read_chunk_progress parse_if_buffered_transport)

declare read_head_loop.simps [simp del]

fun read_headers_passes :: "nat \<Rightarrow> conn_config \<Rightarrow> connection \<Rightarrow> epoll_interest \<times> connection" where
  "read_headers_passes 0 cfg c =
     (if \<not> buffer_empty (cn_read_buffer c) then Interest_ReadWrite else Interest_Read, c)"
| "read_headers_passes (Suc passes) cfg c =
     (case read_head_loop cfg c of
        (Head_Returned interest, c) \<Rightarrow> (interest, c)
      | (outcome, c) \<Rightarrow>
          let (interest, c) = (if outcome = Head_Body_Pending then drive_read_body cfg c else drive_write cfg c)
          in if cn_state c \<noteq> ReadingHeaders then (interest, c) else read_headers_passes passes cfg c)"

definition drive_read_headers :: "conn_config \<Rightarrow> connection \<Rightarrow> epoll_interest \<times> connection" where
  "drive_read_headers cfg c = read_headers_passes kMaxPipelinedRequestsPerStep cfg c"

section \<open>Events\<close>

definition drive_handshake :: "conn_config \<Rightarrow> connection \<Rightarrow> epoll_interest \<times> connection" where
  "drive_handshake cfg c =
     (let (res, t) = transport_handshake (cn_transport c); c = c\<lparr>cn_transport := t\<rparr> in
      case tr_status res of
        T_Ok \<Rightarrow>
          let c = (if transport_is_secure t then emit_metric cfg M_Tls_Handshake_Completed c else c);
              c = c\<lparr>cn_request := set_secure (transport_is_secure t) (cn_request c)\<rparr>
          in drive_read_headers cfg (enter_state cfg ReadingHeaders c)
      | T_WantRead \<Rightarrow> (Interest_Read, c)
      | T_WantWrite \<Rightarrow> (Interest_Write, c)
      | _ \<Rightarrow> (Interest_Done, if transport_is_secure t then emit_metric cfg M_Tls_Handshake_Failed c else c))"

unbundle bit_operations_syntax

definition kTerminalEvents :: "32 word" where "kTerminalEvents = 0x8 OR 0x10"

definition conn_step :: "conn_config \<Rightarrow> 32 word \<Rightarrow> connection \<Rightarrow> epoll_interest \<times> connection" where
  "conn_step cfg epoll_events c =
     (if epoll_events AND kTerminalEvents \<noteq> 0 then (Interest_Done, c)
      else case cn_state c of
        Handshaking \<Rightarrow> drive_handshake cfg c
      | ReadingHeaders \<Rightarrow> drive_read_headers cfg c
      | ReadingBody \<Rightarrow>
          let (interest, c) = drive_read_body cfg c in
          if cn_state c = ReadingHeaders \<and> \<not> buffer_empty (cn_read_buffer c) then drive_read_headers cfg c
          else (interest, c)
      | Writing \<Rightarrow>
          let (interest, c) = drive_write cfg c in
          if cn_state c = ReadingHeaders then drive_read_headers cfg c else (interest, c)
      | Streaming \<Rightarrow> drive_stream cfg c
      | Closing \<Rightarrow> drive_close c)"

definition on_stream_notified :: "conn_config \<Rightarrow> connection \<Rightarrow> epoll_interest \<times> connection" where
  "on_stream_notified cfg c =
     (if cn_state c \<noteq> Streaming
      then (if cn_state c = Closing then Interest_Done else Interest_Read, c)
      else drive_stream cfg c)"

definition on_deadline_expired :: "conn_config \<Rightarrow> connection \<Rightarrow> epoll_interest \<times> connection" where
  "on_deadline_expired cfg c =
     (case cn_state c of
        Handshaking \<Rightarrow>
          close_now cfg (if transport_is_secure (cn_transport c)
                         then emit_metric cfg M_Tls_Handshake_Failed c else c)
      | ReadingHeaders \<Rightarrow>
          if \<not> cn_saw_any_bytes c then close_now cfg c
          else drive_write cfg (enter_state cfg Writing (serialize_error cfg Status_RequestTimeout c))
      | ReadingBody \<Rightarrow>
          if \<not> cn_saw_any_bytes c then close_now cfg c
          else drive_write cfg (enter_state cfg Writing (serialize_error cfg Status_RequestTimeout c))
      | _ \<Rightarrow> close_now cfg c)"

text \<open>The destructor.\<close>

definition destroy_connection :: "connection \<Rightarrow> connection" where
  "destroy_connection c = release_stream_source c"

end
