(* ===== verification/Http_Request_Progress.thy ===== *)
theory Http_Request_Progress
  imports Http_Request_Parser
begin

text \<open>
  When the parser asks for more data: only while the head, or the body it announced, is incomplete. What
  a caller has to buffer is therefore bounded by the limits, and what a parse consumes is in the buffer.
\<close>

definition request_bound :: "request_limits \<Rightarrow> nat" where
  "request_bound limits = 2 + max_header_block_bytes limits + max_body_bytes limits"

definition parser_ok :: "request_limits \<Rightarrow> request_parser \<Rightarrow> bool" where
  "parser_ok limits p \<longleftrightarrow>
     (rp_head_complete p \<longrightarrow> rp_body_offset p + rp_body_bytes p \<le> request_bound limits)"

lemma decode_query_into_final: "decode_query_into ad arena rest out \<noteq> Inl NeedsMoreData"
  by (induction ad arena rest out rule: decode_query_into.induct)
    (subst decode_query_into.simps, auto simp: Let_def split: prod.splits)

lemma parse_field_line_final: "parse_field_line line \<noteq> Inl NeedsMoreData"
  by (auto simp: parse_field_line_def Let_def split: option.splits)

lemma parse_header_fields_final: "parse_header_fields fl n out \<noteq> Inl NeedsMoreData"
  by (induction fl n out rule: parse_header_fields.induct)
    (subst parse_header_fields.simps, auto simp: parse_field_line_final split: option.splits sum.splits)

lemma content_length_loop_final: "content_length_loop hs b d \<noteq> Inl NeedsMoreData"
  by (induction hs b d rule: content_length_loop.induct) (auto simp: Let_def split: sum.splits option.splits decimal_error.splits)

lemma host_loop_final: "host_loop hs h \<noteq> Inl NeedsMoreData"
  by (induction hs h rule: host_loop.induct) auto

lemma build_request_final: "build_request env rb limits rle tm \<noteq> Inl NeedsMoreData"
proof -
  have "parse_request_line l \<noteq> Inl NeedsMoreData" for l
    by (auto simp: parse_request_line_def Let_def split: option.splits)
  moreover have "resolve_content_length hs n \<noteq> Inl NeedsMoreData" for hs n
    by (auto simp: resolve_content_length_def Let_def content_length_loop_final split: sum.splits)
  moreover have "split_authority t \<noteq> Inl NeedsMoreData" for t
    by (auto simp: split_authority_def Let_def split: option.splits)
  then have "split_target n t \<noteq> Inl NeedsMoreData" for n t
    by (auto simp: split_target_def Let_def split: sum.splits)
  moreover have "resolve_authority f hs t b \<noteq> Inl NeedsMoreData" for f hs t b
    by (auto simp: resolve_authority_def host_loop_final split: sum.splits)
  ultimately show ?thesis
    by (auto simp: build_request_def Let_def parse_header_fields_final decode_query_into_final map_sum_def
        split: sum.splits if_splits)
qed

text \<open>What one call of the parser keeps, consumes and may leave in the buffer.\<close>

lemma parse_head_ok:
  assumes "parse_head env buf limits p = Inr q" shows "parser_ok limits q \<and> rp_head_complete q"
proof -
  obtain pro rle tm r n where h: "head_extent buf limits = Inr (pro, rle, tm)"
    "build_request env (view_from buf pro) limits rle tm = Inr (r, n)"
    and q: "q = (remember_buffer_offsets (p\<lparr>rp_request := r,
               rp_body_offset := pro + (tm + length kHeaderTerminator), rp_body_bytes := n,
               rp_buffer_base := view_data buf\<rparr>))\<lparr>rp_head_complete := True\<rparr>"
    using assms by (auto simp: parse_head_Inr)
  have "resolve_content_length (req_headers r) (max_body_bytes limits) = Inr n" by (rule build_requestD [OF h(2)])
  then have "n \<le> max_body_bytes limits" by (auto simp: resolve_content_length_iff)
  moreover have "pro + (tm + 4) \<le> 2 + max_header_block_bytes limits" using h(1) by (auto simp: head_extent_Inr split: if_splits)
  ultimately show ?thesis
    by (simp add: q parser_ok_def request_bound_def remember_buffer_offsets_def Let_def)
qed

lemma parse_head_waits:
  "parse_head env buf limits p = Inl NeedsMoreData \<Longrightarrow>
     head_extent buf limits = Inl NeedsMoreData \<and> length (view_text buf) \<le> 2 + max_header_block_bytes limits"
  by (auto simp: parse_head_def build_request_final head_extent_def Let_def
      split: sum.splits option.splits if_splits)

lemma parse_body_ok:
  assumes "parser_ok limits p" "rp_head_complete p" "parse_body buf p = (res, q)"
  shows "parser_ok limits q" "res = Inl NeedsMoreData \<Longrightarrow> rp_head_complete q \<and> length (view_text buf) \<le> request_bound limits"
    "res = Inr pr \<Longrightarrow> pr_consumed_bytes pr \<le> length (view_text buf)" "res = Inl e \<Longrightarrow> e = NeedsMoreData"
  using assms
  by (auto simp: parse_body_def Let_def parser_ok_def rebase_borrowed_views_def parser_reset_def new_parser_def
      split: if_splits)

lemma parse_ok:
  assumes "parser_ok limits p" "parse env buf limits p = (res, q)"
  shows "parser_ok limits q" "res = Inl NeedsMoreData \<Longrightarrow> length (view_text buf) \<le> request_bound limits"
    "res = Inr pr \<Longrightarrow> pr_consumed_bytes pr \<le> length (view_text buf)"
    "res = Inl NeedsMoreData \<Longrightarrow> rp_head_complete q \<or> (q = p \<and> head_extent buf limits = Inl NeedsMoreData)"
proof -
  have "parser_ok limits q \<and> (res = Inl NeedsMoreData \<longrightarrow> length (view_text buf) \<le> request_bound limits) \<and>
    (\<forall>pr. res = Inr pr \<longrightarrow> pr_consumed_bytes pr \<le> length (view_text buf)) \<and>
    (res = Inl NeedsMoreData \<longrightarrow> rp_head_complete q \<or> (q = p \<and> head_extent buf limits = Inl NeedsMoreData))"
  proof (cases "rp_head_complete p")
    case True
    with assms have "parse_body buf p = (res, q)" by (simp add: parse_def)
    from parse_body_ok [OF assms(1) True this] show ?thesis by blast
  next
    case False
    show ?thesis
    proof (cases "parse_head env buf limits p")
      case (Inl e)
      with False assms parse_head_waits [of env buf limits p] show ?thesis
        by (auto simp: parse_def request_bound_def)
    next
      case (Inr p')
      with False assms have "parse_body buf p' = (res, q)" by (simp add: parse_def)
      with parse_body_ok [OF _ _ this] parse_head_ok [OF Inr] show ?thesis by blast
    qed
  qed
  then show "parser_ok limits q" "res = Inl NeedsMoreData \<Longrightarrow> length (view_text buf) \<le> request_bound limits"
    "res = Inr pr \<Longrightarrow> pr_consumed_bytes pr \<le> length (view_text buf)"
    "res = Inl NeedsMoreData \<Longrightarrow> rp_head_complete q \<or> (q = p \<and> head_extent buf limits = Inl NeedsMoreData)"
    by auto
qed

end
