(* ===== verification/Http_Connection_Invariant.thy ===== *)
theory Http_Connection_Invariant
  imports Http_Connection Http_Request_Progress
begin

text \<open>
  What every operation of a connection keeps, whatever the peer, the clock and the stream source do: the
  fields that belong to each state, the life of a stream source and the bound on what is buffered.
\<close>

section \<open>The life of a stream source\<close>

text \<open>The discipline of the calls a source sees: it is attached before it is pulled, pulled only while
  attached, and detached once. The result is the source attached at the end.\<close>

fun lifecycle :: "nat option \<Rightarrow> conn_event list \<Rightarrow> nat option option" where
  "lifecycle cur [] = Some cur"
| "lifecycle cur (Ev_Attached s # es) = (if cur = None then lifecycle (Some s) es else None)"
| "lifecycle cur (Ev_Pulled s # es) = (if cur = Some s then lifecycle cur es else None)"
| "lifecycle cur (Ev_Detached s # es) = (if cur = None \<or> cur = Some s then lifecycle None es else None)"
| "lifecycle cur (Ev_Metric m # es) = lifecycle cur es"

lemma lifecycle_append:
  "lifecycle cur (xs @ ys) = (case lifecycle cur xs of None \<Rightarrow> None | Some cur' \<Rightarrow> lifecycle cur' ys)"
  by (induction cur xs rule: lifecycle.induct) auto

definition life :: "connection \<Rightarrow> nat option option" where
  "life c = lifecycle None (cx_events c)"

lemma life_emit: "life (emit e c) = (case life c of None \<Rightarrow> None | Some cur \<Rightarrow> lifecycle cur [e])"
  by (simp add: life_def emit_def lifecycle_append)

lemma life_cong: "cx_events c = cx_events d \<Longrightarrow> life c = life d"
  by (simp add: life_def)

lemma life_update [simp]:
  "life (c\<lparr>cn_transport := t\<rparr>) = life c" "life (c\<lparr>cn_write_offset := n\<rparr>) = life c"
  "life (c\<lparr>cn_requests_served := k\<rparr>) = life c" "life (c\<lparr>cn_pending_response := p\<rparr>) = life c"
  "life (c\<lparr>cn_read_buffer := b\<rparr>) = life c" "life (c\<lparr>cn_request := q\<rparr>) = life c"
  "life (c\<lparr>cn_request_parser := rp\<rparr>) = life c" "life (c\<lparr>cn_saw_any_bytes := s\<rparr>) = life c"
  "life (c\<lparr>cn_request_deadline := i\<rparr>) = life c" "life (c\<lparr>cn_stream := st\<rparr>) = life c"
  by (simp_all add: life_def)

lemma life_emit_metric [simp]: "life (emit_metric cfg m c) = life c"
  by (simp add: emit_metric_def life_emit split: option.split)

lemma life_arm_deadline [simp]: "life (arm_deadline b c) = life c"
  by (rule life_cong) simp

section \<open>The invariant of the states\<close>

definition attached :: "connection \<Rightarrow> nat option" where
  "attached c = (if cn_state c = Streaming then cn_stream c else None)"

definition pending_ok :: "connection \<Rightarrow> bool" where
  "pending_ok c \<longleftrightarrow>
     (case cn_state c of
        Writing \<Rightarrow> (\<exists>r. cn_pending_response c = Some r \<and> cn_stream c = res_stream r) \<and>
          cn_write_offset c \<le> length (concat (cn_write_vectors c)) \<and>
          cn_write_vectors c \<noteq> [] \<and> length (cn_write_vectors c) \<le> 2 \<and> cn_request_deadline c = 0
      | Streaming \<Rightarrow> cn_pending_response c = None \<and>
          cn_write_offset c \<le> length (concat (cn_write_vectors c)) \<and> length (cn_write_vectors c) \<le> 1
      | Closing \<Rightarrow> cn_stream c = None \<and> length (cn_write_vectors c) \<le> 2
      | _ \<Rightarrow> cn_pending_response c = None \<and> cn_stream c = None \<and> cn_write_vectors c = [] \<and> cn_write_offset c = 0)"

text \<open>What is buffered for reading: never more than a head and a body of the configured size and one read
  beyond them, doubled by the growth of the storage.\<close>

definition reading :: "connection_state \<Rightarrow> bool" where
  "reading st \<longleftrightarrow> st = Handshaking \<or> st = ReadingHeaders \<or> st = ReadingBody"

definition read_ok :: "conn_config \<Rightarrow> connection \<Rightarrow> bool" where
  "read_ok cfg c \<longleftrightarrow> buffer_ok (cn_read_buffer c) \<and>
     parser_ok (opt_limits (cf_options cfg)) (cn_request_parser c) \<and>
     capacity (cn_read_buffer c) \<le> 2 * (request_bound (opt_limits (cf_options cfg)) + kReadChunkBytes) \<and>
     (reading (cn_state c) \<longrightarrow> read_cursor (cn_read_buffer c) = 0)"

definition conn_ok :: "conn_config \<Rightarrow> connection \<Rightarrow> bool" where
  "conn_ok cfg c \<longleftrightarrow>
     buffer_ok (cn_write_buffer c) \<and> pending_ok c \<and> life c = Some (attached c) \<and> read_ok cfg c"

lemma release_stream_source_fields [simp]:
  "cn_state (release_stream_source c) = cn_state c"
  "cn_stream (release_stream_source c) = None"
  "cn_transport (release_stream_source c) = cn_transport c"
  "cn_write_vectors (release_stream_source c) = cn_write_vectors c"
  "cn_write_offset (release_stream_source c) = cn_write_offset c"
  "cn_write_buffer (release_stream_source c) = cn_write_buffer c"
  "cn_read_buffer (release_stream_source c) = cn_read_buffer c"
  "cn_request (release_stream_source c) = cn_request c"
  "cn_request_parser (release_stream_source c) = cn_request_parser c"
  "cn_pending_response (release_stream_source c) = cn_pending_response c"
  "cn_requests_served (release_stream_source c) = cn_requests_served c"
  "cn_request_deadline (release_stream_source c) = cn_request_deadline c"
  "cn_saw_any_bytes (release_stream_source c) = cn_saw_any_bytes c"
  "cx_pulls (release_stream_source c) = cx_pulls c"
  by (simp_all add: release_stream_source_def emit_def Let_def split: option.split)

lemma life_release:
  "life (release_stream_source c) =
     (case cn_stream c of None \<Rightarrow> life c
      | Some s \<Rightarrow> (case life c of None \<Rightarrow> None | Some cur \<Rightarrow> if cur = None \<or> cur = Some s then Some None else None))"
  by (simp add: release_stream_source_def life_def emit_def lifecycle_append Let_def split: option.split)

lemma life_release_Some:
  "life c = Some cur \<Longrightarrow> cur = None \<or> cur = cn_stream c \<Longrightarrow> life (release_stream_source c) = Some None"
  by (auto simp: life_release split: option.split)

lemma enter_state_fields [simp]:
  "cn_state (enter_state cfg s c) = s"
  "cn_stream (enter_state cfg s c) = cn_stream c"
  "cn_transport (enter_state cfg s c) = cn_transport c"
  "cn_write_vectors (enter_state cfg s c) = cn_write_vectors c"
  "cn_write_offset (enter_state cfg s c) = cn_write_offset c"
  "cn_write_buffer (enter_state cfg s c) = cn_write_buffer c"
  "cn_read_buffer (enter_state cfg s c) = cn_read_buffer c"
  "cn_request (enter_state cfg s c) = cn_request c"
  "cn_request_parser (enter_state cfg s c) = cn_request_parser c"
  "cn_pending_response (enter_state cfg s c) = cn_pending_response c"
  "cn_requests_served (enter_state cfg s c) = cn_requests_served c"
  "cn_request_deadline (enter_state cfg s c) = cn_request_deadline c"
  "cn_saw_any_bytes (enter_state cfg s c) = cn_saw_any_bytes c"
  "cx_pulls (enter_state cfg s c) = cx_pulls c"
  "cx_events (enter_state cfg s c) = cx_events c"
  by (simp_all add: enter_state_def Let_def split: connection_state.split)

lemma life_enter_state [simp]: "life (enter_state cfg s c) = life c"
  by (rule life_cong) simp

lemma read_clock_fields [simp]:
  "cn_state (read_clock c) = cn_state c" "cn_stream (read_clock c) = cn_stream c"
  "cn_transport (read_clock c) = cn_transport c" "cn_write_vectors (read_clock c) = cn_write_vectors c"
  "cn_write_offset (read_clock c) = cn_write_offset c" "cn_write_buffer (read_clock c) = cn_write_buffer c"
  "cn_read_buffer (read_clock c) = cn_read_buffer c" "cn_request (read_clock c) = cn_request c"
  "cn_request_parser (read_clock c) = cn_request_parser c"
  "cn_pending_response (read_clock c) = cn_pending_response c"
  "cn_requests_served (read_clock c) = cn_requests_served c"
  "cn_request_deadline (read_clock c) = cn_request_deadline c"
  "cn_saw_any_bytes (read_clock c) = cn_saw_any_bytes c" "cx_events (read_clock c) = cx_events c"
  "cn_compressed_body (read_clock c) = cn_compressed_body c" "cn_peer (read_clock c) = cn_peer c"
  by (simp_all add: read_clock_def split: list.split)

lemma life_read_clock [simp]: "life (read_clock c) = life c"
  by (rule life_cong) simp

text \<open>Closing from any state leaves no source behind.\<close>

lemma close_now_ok:
  assumes "buffer_ok (cn_write_buffer c)" "length (cn_write_vectors c) \<le> 2"
    and "life c = Some cur" "cur = None \<or> cur = cn_stream c"
    and "cn_state c = Closing \<Longrightarrow> cn_stream c = None" and "read_ok cfg c"
  shows "conn_ok cfg (snd (close_now cfg c))" "cn_state (snd (close_now cfg c)) = Closing"
    "fst (close_now cfg c) = Interest_Done"
proof -
  have *: "close_now cfg c = (Interest_Done, (begin_close cfg c)\<lparr>cn_transport :=
      close_drain kCloseDrainPasses (cn_transport (begin_close cfg c))\<rparr>)"
    by (simp add: close_now_def drive_close_def)
  have st: "cn_state (begin_close cfg c) = Closing" by (simp add: begin_close_def Let_def)
  have lf: "life (begin_close cfg c) = Some None"
  proof (cases "cn_state c = Closing")
    case True
    then show ?thesis using assms by (auto simp: begin_close_def)
  next
    case False
    have "life (begin_close cfg c) = life (release_stream_source c)"
      using False by (simp add: begin_close_def Let_def life_def)
    then show ?thesis using life_release_Some [OF assms(3,4)] by simp
  qed
  have "cn_stream (begin_close cfg c) = None" "cn_write_buffer (begin_close cfg c) = cn_write_buffer c"
    "cn_write_vectors (begin_close cfg c) = cn_write_vectors c"
    "cn_read_buffer (begin_close cfg c) = cn_read_buffer c"
    "cn_request_parser (begin_close cfg c) = cn_request_parser c"
    using assms(5) by (auto simp: begin_close_def Let_def)
  then show "conn_ok cfg (snd (close_now cfg c))"
    using assms(1,2,6) st lf by (simp add: * conn_ok_def read_ok_def reading_def pending_ok_def attached_def life_def)
  show "cn_state (snd (close_now cfg c)) = Closing" "fst (close_now cfg c) = Interest_Done"
    using st by (simp_all add: *)
qed

lemma close_now_conn_ok:
  assumes "conn_ok cfg c" shows "conn_ok cfg (snd (close_now cfg c))" "cn_state (snd (close_now cfg c)) = Closing"
proof -
  have "length (cn_write_vectors c) \<le> 2"
    using assms by (auto simp: conn_ok_def read_ok_def reading_def pending_ok_def split: connection_state.splits)
  moreover have "life c = Some (attached c)" "attached c = None \<or> attached c = cn_stream c"
    using assms by (auto simp: conn_ok_def read_ok_def reading_def attached_def)
  moreover have "cn_state c = Closing \<Longrightarrow> cn_stream c = None" using assms by (simp add: conn_ok_def read_ok_def reading_def pending_ok_def)
  moreover have "buffer_ok (cn_write_buffer c)" "read_ok cfg c" using assms by (simp_all add: conn_ok_def)
  ultimately show "conn_ok cfg (snd (close_now cfg c))" "cn_state (snd (close_now cfg c)) = Closing"
    using close_now_ok by blast+
qed

section \<open>Streaming keeps the invariant\<close>

lemma stream_advance_ok:
  assumes "conn_ok cfg c \<and> cn_state c = Streaming" "cn_write_offset c < length (concat (cn_write_vectors c))"
    and "transport_writev (skip_vectors (cn_write_offset c) (cn_write_vectors c)) (cn_transport c) = (res, t)"
  shows "conn_ok cfg (stream_advance cfg (tr_bytes res) (c\<lparr>cn_transport := t\<rparr>)) \<and>
    cn_state (stream_advance cfg (tr_bytes res) (c\<lparr>cn_transport := t\<rparr>)) = Streaming"
proof -
  have "cn_write_offset c + tr_bytes res \<le> length (concat (cn_write_vectors c))"
    using tp.send_bytes [OF assms(3)] assms(2) by (simp add: concat_skip_vectors)
  then show ?thesis
    using assms(1) by (auto simp: conn_ok_def read_ok_def reading_def pending_ok_def stream_advance_def attached_def life_def emit_metric_def
        emit_def lifecycle_append)
qed

text \<open>Once everything pending is written, the source is pulled.\<close>

lemma drive_stream_drained:
  assumes "stream_write_loop cfg c = (None, c')"
  defines "c2 \<equiv> clear_pending_writes (if length (concat (cn_write_vectors c)) > 0
      then arm_deadline (stream_liveness_budget cfg) (c'\<lparr>cn_stream_waiting_for_write_progress := False\<rparr>) else c')"
  shows "drive_stream cfg c =
      (if cn_stream c2 = None then close_now cfg c2
       else case cx_pulls c2 of [] \<Rightarrow> (Interest_Quiescent, c2)
        | answer # answers \<Rightarrow>
            (let c3 = emit (Ev_Pulled (the (cn_stream c2))) (c2\<lparr>cx_pulls := answers\<rparr>) in
             case answer of
               Pull_Idle scratch \<Rightarrow> (Interest_Quiescent, c3)
             | Pull_Wrote scratch \<Rightarrow> if scratch = [] then (Interest_Quiescent, c3)
                 else drive_stream cfg (queue_pulled scratch c3)
             | Pull_Finished scratch \<Rightarrow> if scratch = [] then close_now cfg c3
                 else drive_stream cfg (release_stream_source (queue_pulled scratch c3))
             | Pull_Threw scratch \<Rightarrow> if scratch = [] then close_now cfg c3
                 else drive_stream cfg (release_stream_source (queue_pulled scratch c3))))"
  unfolding drive_stream.simps [of cfg c] assms(1) prod.case option.case c2_def Let_def by (rule refl)

lemma drive_stream_ok:
  "conn_ok cfg c \<Longrightarrow> cn_state c = Streaming \<Longrightarrow>
     conn_ok cfg (snd (drive_stream cfg c)) \<and> cn_state (snd (drive_stream cfg c)) \<in> {Streaming, Closing}"
proof (induction cfg c rule: drive_stream.induct)
  case (1 cfg c)
  obtain r c' where loop: "stream_write_loop cfg c = (r, c')" by fastforce
  show ?case
  proof (rule stream_write_loop_outcome [OF loop, where I = "\<lambda>d. conn_ok cfg d \<and> cn_state d = Streaming"])
    show "conn_ok cfg c \<and> cn_state c = Streaming" using 1 by simp
  next
    fix d res t
    assume "conn_ok cfg d \<and> cn_state d = Streaming" "cn_write_offset d < length (concat (cn_write_vectors d))"
      "transport_writev (skip_vectors (cn_write_offset d) (cn_write_vectors d)) (cn_transport d) = (res, t)"
    then show "conn_ok cfg (stream_advance cfg (tr_bytes res) (d\<lparr>cn_transport := t\<rparr>)) \<and>
      cn_state (stream_advance cfg (tr_bytes res) (d\<lparr>cn_transport := t\<rparr>)) = Streaming"
      by (rule stream_advance_ok)
  next
    fix d res t
    assume d: "conn_ok cfg d \<and> cn_state d = Streaming" "c' = stream_blocked cfg (d\<lparr>cn_transport := t\<rparr>)"
      and r: "r = Some (if tr_status res = T_WantRead then Interest_Read else Interest_Write)"
    then have "conn_ok cfg c' \<and> cn_state c' = Streaming"
      by (auto simp: stream_blocked_def conn_ok_def read_ok_def reading_def pending_ok_def attached_def life_def)
    then show ?case using loop r by (simp add: drive_stream.simps [of cfg c])
  next
    fix d res t
    assume d: "conn_ok cfg d \<and> cn_state d = Streaming"
      and r: "(r, c') = map_prod Some id (close_now cfg (d\<lparr>cn_transport := t\<rparr>))"
    have "conn_ok cfg (d\<lparr>cn_transport := t\<rparr>)" using d
      by (auto simp: conn_ok_def read_ok_def reading_def pending_ok_def attached_def life_def)
    note cl = close_now_conn_ok [OF this]
    have "r = Some (fst (close_now cfg (d\<lparr>cn_transport := t\<rparr>)))" "c' = snd (close_now cfg (d\<lparr>cn_transport := t\<rparr>))"
      using r by (simp_all add: map_prod_def split: prod.splits)
    then show ?case using cl loop by (simp add: drive_stream.simps [of cfg c])
  next
    assume r: "r = None" and inv: "conn_ok cfg c' \<and> cn_state c' = Streaming"
    define c1 where "c1 = (if length (concat (cn_write_vectors c)) > 0
      then arm_deadline (stream_liveness_budget cfg) (c'\<lparr>cn_stream_waiting_for_write_progress := False\<rparr>) else c')"
    define c2 where "c2 = clear_pending_writes c1"
    have c2: "conn_ok cfg c2" "cn_state c2 = Streaming" "cn_write_vectors c2 = []" "readable (cn_write_buffer c2) = []"
      "buffer_ok (cn_write_buffer c2)"
      using inv by (auto simp: c2_def c1_def clear_pending_writes_def conn_ok_def read_ok_def reading_def pending_ok_def attached_def life_def)
    note eq = drive_stream_drained [OF loop [unfolded r], folded c1_def, folded c2_def]
    show ?case
    proof (cases "cn_stream c2")
      case None
      then show ?thesis using close_now_conn_ok [OF c2(1)] by (simp add: eq)
    next
      case (Some s)
      show ?thesis
      proof (cases "cx_pulls c2")
        case Nil
        then show ?thesis using Some c2 by (simp add: eq)
      next
        case (Cons answer answers)
        define c3 where "c3 = emit (Ev_Pulled (the (cn_stream c2))) (c2\<lparr>cx_pulls := answers\<rparr>)"
        have lf: "life c2 = Some (Some s)" using c2 Some by (simp add: conn_ok_def read_ok_def reading_def attached_def)
        have c3: "conn_ok cfg c3" "cn_state c3 = Streaming" "cn_write_vectors c3 = []" "buffer_ok (cn_write_buffer c3)"
          "cn_write_offset c3 = 0" "cn_pending_response c3 = None" "cn_stream c3 = Some s" "life c3 = Some (Some s)"
          using c2 Some lf
          by (auto simp: c3_def emit_def conn_ok_def read_ok_def reading_def pending_ok_def attached_def life_def lifecycle_append c2_def
              clear_pending_writes_def)
        have q: "conn_ok cfg (queue_pulled scratch c3)" "cn_state (queue_pulled scratch c3) = Streaming" for scratch
          using c3 by (auto simp: queue_pulled_def conn_ok_def read_ok_def reading_def pending_ok_def attached_def life_def Let_def append_ok)
        have rel: "conn_ok cfg (release_stream_source (queue_pulled scratch c3))"
          "cn_state (release_stream_source (queue_pulled scratch c3)) = Streaming" for scratch
        proof -
          have "life (queue_pulled scratch c3) = Some (Some s)" "cn_stream (queue_pulled scratch c3) = Some s"
            using c3 by (simp_all add: queue_pulled_def life_def Let_def)
          with life_release_Some [OF this(1)]
          have "life (release_stream_source (queue_pulled scratch c3)) = Some None" by simp
          then show "conn_ok cfg (release_stream_source (queue_pulled scratch c3))"
            using q [of scratch] by (auto simp: conn_ok_def read_ok_def reading_def pending_ok_def attached_def)
        qed (use q in simp)
        note cl = close_now_conn_ok [OF c3(1)]
        have ne: "\<not> cn_stream c2 = None" using Some by simp
        note IH = 1(1) [OF loop [symmetric] r c1_def c2_def ne Cons c3_def]
          1(2) [OF loop [symmetric] r c1_def c2_def ne Cons c3_def]
          1(3) [OF loop [symmetric] r c1_def c2_def ne Cons c3_def]
        show ?thesis
          using IH q rel cl c3 ne Cons
          by (cases answer) (auto simp: eq c3_def [symmetric] Let_def)
      qed
    qed
  qed
qed

section \<open>Writing keeps the invariant\<close>

text \<open>How the loop of \<open>drive_write\<close> ends; \<open>I\<close> is anything its successful writes keep.\<close>

lemma write_loop_outcome:
  assumes "write_loop cfg c = (r, c')" and "I c"
    and "\<And>c res t. I c \<Longrightarrow> cn_write_offset c < length (concat (cn_write_vectors c)) \<Longrightarrow>
      transport_writev (skip_vectors (cn_write_offset c) (cn_write_vectors c)) (cn_transport c) = (res, t) \<Longrightarrow>
      0 < tr_bytes res \<Longrightarrow> I (write_advance cfg (tr_bytes res) (c\<lparr>cn_transport := t\<rparr>))"
  obtains (finished) "r = None" "I c'" "length (concat (cn_write_vectors c')) \<le> cn_write_offset c'"
  | (stopped) d res t i where "I d" "cn_write_offset d < length (concat (cn_write_vectors d))"
      "transport_writev (skip_vectors (cn_write_offset d) (cn_write_vectors d)) (cn_transport d) = (res, t)"
      "tr_bytes res = 0" "c' = d\<lparr>cn_transport := t\<rparr>" "r = Some i"
      "i \<in> {Interest_Write, Interest_Read, Interest_Done}" "i = Interest_Done \<longleftrightarrow> is_terminal res"
proof -
  have "(r = None \<and> I c' \<and> length (concat (cn_write_vectors c')) \<le> cn_write_offset c') \<or>
    (\<exists>d res t i. I d \<and> cn_write_offset d < length (concat (cn_write_vectors d)) \<and>
      transport_writev (skip_vectors (cn_write_offset d) (cn_write_vectors d)) (cn_transport d) = (res, t) \<and>
      tr_bytes res = 0 \<and> c' = d\<lparr>cn_transport := t\<rparr> \<and> r = Some i \<and>
      i \<in> {Interest_Write, Interest_Read, Interest_Done} \<and> (i = Interest_Done \<longleftrightarrow> is_terminal res))"
    using assms(1,2)
  proof (induction "length (concat (cn_write_vectors c)) - cn_write_offset c" arbitrary: c rule: less_induct)
    case less
    show ?case
    proof (cases "cn_write_offset c < length (concat (cn_write_vectors c))")
      case False
      with less.prems show ?thesis by (auto simp: write_loop.simps [of cfg c])
    next
      case True
      let ?batch = "skip_vectors (cn_write_offset c) (cn_write_vectors c)"
      have ne: "?batch \<noteq> []" using True by (simp add: skip_vectors_Nil_iff)
      obtain res t where w: "transport_writev ?batch (cn_transport c) = (res, t)" by fastforce
      note failed = tp.send_failed [OF w]
      show ?thesis
      proof (cases "tr_status res = T_Ok \<and> 0 < tr_bytes res")
        case progress: True
        let ?c = "write_advance cfg (tr_bytes res) (c\<lparr>cn_transport := t\<rparr>)"
        have "write_loop cfg ?c = (r, c')"
          using less.prems(1) True ne w progress by (simp add: write_loop.simps [of cfg c] is_terminal_def)
        then show ?thesis
          using True progress by (intro less.hyps [OF _ _ assms(3) [OF less.prems(2) True w]])
            (auto simp: write_advance_def)
      next
        case False
        then have "tr_bytes res = 0" using failed by auto
        moreover from this have "(r, c') = (Some (if tr_status res = T_WantWrite then Interest_Write
             else if tr_status res = T_WantRead then Interest_Read
             else if is_terminal res then Interest_Done else Interest_Write), c\<lparr>cn_transport := t\<rparr>)"
          using less.prems(1) True ne w by (simp add: write_loop.simps [of cfg c] Let_def split: if_splits)
        ultimately show ?thesis
          using less.prems(2) True w
          by (intro disjI2 exI [of _ c] exI [of _ res] exI [of _ t]) (auto simp: is_terminal_def split: if_split_asm)
      qed
    qed
  qed
  then show thesis using finished stopped by blast
qed

lemma write_advance_fields [simp]:
  "cn_state (write_advance cfg n c) = cn_state c" "cn_write_offset (write_advance cfg n c) = cn_write_offset c + n"
  "cn_write_vectors (write_advance cfg n c) = cn_write_vectors c" "cn_stream (write_advance cfg n c) = cn_stream c"
  "cn_pending_response (write_advance cfg n c) = cn_pending_response c"
  "cn_write_buffer (write_advance cfg n c) = cn_write_buffer c"
  "cn_read_buffer (write_advance cfg n c) = cn_read_buffer c"
  "cn_request_parser (write_advance cfg n c) = cn_request_parser c"
  "cn_request (write_advance cfg n c) = cn_request c"
  "cn_requests_served (write_advance cfg n c) = cn_requests_served c"
  "cn_request_deadline (write_advance cfg n c) = cn_request_deadline c"
  "cn_transport (write_advance cfg n c) = cn_transport c"
  "cx_pulls (write_advance cfg n c) = cx_pulls c"
  by (simp_all add: write_advance_def)

lemma write_advance_ok:
  assumes "conn_ok cfg c \<and> cn_state c = Writing" "cn_write_offset c < length (concat (cn_write_vectors c))"
    and "transport_writev (skip_vectors (cn_write_offset c) (cn_write_vectors c)) (cn_transport c) = (res, t)"
  shows "conn_ok cfg (write_advance cfg (tr_bytes res) (c\<lparr>cn_transport := t\<rparr>)) \<and>
    cn_state (write_advance cfg (tr_bytes res) (c\<lparr>cn_transport := t\<rparr>)) = Writing"
proof -
  have "cn_write_offset c + tr_bytes res \<le> length (concat (cn_write_vectors c))"
    using tp.send_bytes [OF assms(3)] assms(2) by (simp add: concat_skip_vectors)
  moreover have "life (write_advance cfg (tr_bytes res) (c\<lparr>cn_transport := t\<rparr>)) = life c"
    by (simp add: write_advance_def)
  ultimately show ?thesis
    using assms(1) by (auto simp: conn_ok_def read_ok_def reading_def pending_ok_def attached_def)
qed

lemma attach_stream_ok:
  assumes "conn_ok cfg c" "cn_state c = Writing" "cn_stream c = Some source"
  shows "conn_ok cfg (snd (attach_stream cfg source c)) \<and>
    cn_state (snd (attach_stream cfg source c)) \<in> {Streaming, Closing}"
proof -
  define c2 where "c2 = (emit (Ev_Attached source)
    ((clear_pending_writes c)\<lparr>cn_pending_response := None, cn_notifier := True\<rparr>))\<lparr>cx_attach_throws := tl (cx_attach_throws c)\<rparr>"
  have f: "cn_state c2 = Writing" "cn_stream c2 = Some source" "cn_write_vectors c2 = []" "cn_write_offset c2 = 0"
    "buffer_ok (cn_write_buffer c2)" "cn_pending_response c2 = None" "cn_read_buffer c2 = cn_read_buffer c"
    "cn_request_parser c2 = cn_request_parser c"
    using assms by (simp_all add: c2_def emit_def clear_pending_writes_def)
  have "life c = Some None" using assms by (simp add: conn_ok_def attached_def)
  then have lf: "life c2 = Some (Some source)"
    by (simp add: c2_def life_def emit_def clear_pending_writes_def lifecycle_append)
  have rd: "read_ok cfg c2" using assms f by (simp add: conn_ok_def read_ok_def reading_def)
  have eq: "attach_stream cfg source c =
    (if (case cx_attach_throws c of [] \<Rightarrow> False | b # _ \<Rightarrow> b) then close_now cfg c2
     else drive_stream cfg (enter_state cfg Streaming c2))"
    by (simp add: attach_stream_def c2_def emit_def clear_pending_writes_def Let_def)
  have "conn_ok cfg (enter_state cfg Streaming c2)"
    using f lf rd by (simp add: conn_ok_def pending_ok_def attached_def read_ok_def reading_def)
  from drive_stream_ok [OF this] close_now_ok [OF _ _ lf _ _ rd] f show ?thesis by (simp add: eq)
qed

lemma response_finished_fields [simp]:
  "cn_state (response_finished cfg c) = cn_state c" "cn_stream (response_finished cfg c) = None"
  "cn_write_vectors (response_finished cfg c) = []" "cn_write_offset (response_finished cfg c) = 0"
  "buffer_ok (cn_write_buffer (response_finished cfg c))" "cn_pending_response (response_finished cfg c) = None"
  "cn_read_buffer (response_finished cfg c) = cn_read_buffer c"
  "cn_request_parser (response_finished cfg c) = cn_request_parser c"
  "cn_transport (response_finished cfg c) = cn_transport c" "cn_request (response_finished cfg c) = cn_request c"
  "cn_requests_served (response_finished cfg c) = cn_requests_served c + 1"
  "cn_request_deadline (response_finished cfg c) = cn_request_deadline c"
  by (simp_all add: response_finished_def clear_pending_writes_def Let_def)

lemma response_finished_life:
  assumes "life c = Some None" shows "life (response_finished cfg c) = Some None"
proof -
  have rel: "life (release_stream_source d) = Some None" if "life d = Some None" for d
    using life_release_Some [OF that] by simp
  have [simp]: "life (clear_pending_writes d) = life d" for d by (simp add: life_def clear_pending_writes_def)
  show ?thesis using assms by (simp add: response_finished_def Let_def rel)
qed

lemma compact_and_reclaim_reading:
  "buffer_ok b \<Longrightarrow> read_cursor (compact_and_reclaim n b) = 0 \<and> capacity (compact_and_reclaim n b) \<le> capacity b"
proof -
  assume ok: "buffer_ok b"
  have "length (storage (compact b)) = length (storage b)"
    using ok by (auto simp: compact_def Let_def buffer_ok_def buffer_size_def)
  then show ?thesis using compact_ok [OF ok]
    by (auto simp: compact_and_reclaim_def Let_def capacity_def buffer_ok_def buffer_size_def)
qed

lemma prepare_next_request_ok:
  assumes "read_ok cfg c" "buffer_ok (cn_write_buffer c)" "life c = Some None" "cn_stream c = None"
    "cn_write_vectors c = []" "cn_write_offset c = 0" "cn_pending_response c = None"
  shows "conn_ok cfg (prepare_next_request cfg c)" "cn_state (prepare_next_request cfg c) = ReadingHeaders"
proof -
  note b = compact_and_reclaim_ok(1) compact_and_reclaim_reading
  show "conn_ok cfg (prepare_next_request cfg c)"
    using assms b [of "cn_read_buffer c"]
    by (simp add: prepare_next_request_def Let_def conn_ok_def read_ok_def pending_ok_def attached_def
        le_trans [of "capacity _" "capacity (cn_read_buffer c)"])
  show "cn_state (prepare_next_request cfg c) = ReadingHeaders"
    by (simp add: prepare_next_request_def Let_def)
qed

lemma drive_write_ok:
  assumes "conn_ok cfg c" "cn_state c = Writing"
  shows "conn_ok cfg (snd (drive_write cfg c)) \<and>
    cn_state (snd (drive_write cfg c)) \<in> {Writing, ReadingHeaders, Streaming, Closing} \<and>
    (cn_state (snd (drive_write cfg c)) = ReadingHeaders \<longrightarrow> fst (drive_write cfg c) = Interest_Read)"
proof -
  obtain r c' where loop: "write_loop cfg c = (r, c')" by fastforce
  show ?thesis
  proof (rule write_loop_outcome [OF loop, where I = "\<lambda>d. conn_ok cfg d \<and> cn_state d = Writing"])
    fix d res t
    assume "conn_ok cfg d \<and> cn_state d = Writing" "cn_write_offset d < length (concat (cn_write_vectors d))"
      "transport_writev (skip_vectors (cn_write_offset d) (cn_write_vectors d)) (cn_transport d) = (res, t)"
    then show "conn_ok cfg (write_advance cfg (tr_bytes res) (d\<lparr>cn_transport := t\<rparr>)) \<and>
      cn_state (write_advance cfg (tr_bytes res) (d\<lparr>cn_transport := t\<rparr>)) = Writing" by (rule write_advance_ok)
  next
    fix d res t i
    assume "conn_ok cfg d \<and> cn_state d = Writing" "c' = d\<lparr>cn_transport := t\<rparr>" "r = Some i"
    then show ?thesis
      using loop by (auto simp: drive_write_def conn_ok_def read_ok_def pending_ok_def attached_def life_def)
  next
    assume r: "r = None" and inv: "conn_ok cfg c' \<and> cn_state c' = Writing"
    define streaming where "streaming = (case cn_pending_response c' of Some r \<Rightarrow> is_stream r | None \<Rightarrow> False)"
    have lf: "life c' = Some None" using inv by (simp add: conn_ok_def attached_def)
    have rd: "read_ok cfg (response_finished cfg c')" using inv by (simp add: conn_ok_def read_ok_def)
    note fin = response_finished_life [OF lf, of cfg]
    note prep = prepare_next_request_ok [OF rd _ fin, simplified]
    have cl: "conn_ok cfg (snd (close_now cfg (response_finished cfg c'))) \<and>
      cn_state (snd (close_now cfg (response_finished cfg c'))) = Closing"
      using close_now_ok [OF _ _ fin _ _ rd] by simp
    have "conn_ok cfg (snd (attach_stream cfg (the (cn_stream c')) c')) \<and>
      cn_state (snd (attach_stream cfg (the (cn_stream c')) c')) \<in> {Streaming, Closing}" if "cn_stream c' \<noteq> None"
      using attach_stream_ok inv that by auto
    then show ?thesis
      using cl prep by (auto simp: drive_write_def loop r streaming_def [symmetric] Let_def)
  qed (use assms in simp)
qed

section \<open>Reading keeps the invariant\<close>

lemma conn_ok_reading:
  "reading (cn_state c) \<Longrightarrow> conn_ok cfg c \<longleftrightarrow>
     buffer_ok (cn_write_buffer c) \<and> cn_pending_response c = None \<and> cn_stream c = None \<and> cn_write_vectors c = [] \<and>
     cn_write_offset c = 0 \<and> life c = Some None \<and> buffer_ok (cn_read_buffer c) \<and>
     parser_ok (opt_limits (cf_options cfg)) (cn_request_parser c) \<and>
     capacity (cn_read_buffer c) \<le> 2 * (request_bound (opt_limits (cf_options cfg)) + kReadChunkBytes) \<and>
     read_cursor (cn_read_buffer c) = 0"
  by (auto simp: conn_ok_def pending_ok_def attached_def read_ok_def reading_def)

lemma parse_buffered_ok:
  assumes "conn_ok cfg c" "reading (cn_state c)" "parse_buffered cfg c = (parsed, c1)"
  shows "conn_ok cfg c1" "cn_state c1 = cn_state c"
    "cn_read_buffer c1 = cn_read_buffer c"
    "parsed = Inl NeedsMoreData \<Longrightarrow> buffer_size (cn_read_buffer c1) \<le> request_bound (opt_limits (cf_options cfg))"
    "parsed = Inr request \<Longrightarrow> pr_consumed_bytes request \<le> buffer_size (cn_read_buffer c1)"
    "parsed = Inl NeedsMoreData \<Longrightarrow> \<not> rp_head_complete (cn_request_parser c1) \<Longrightarrow>
       head_extent (read_view cfg c) (opt_limits (cf_options cfg)) = Inl NeedsMoreData"
proof -
  let ?limits = "opt_limits (cf_options cfg)"
  obtain p where p: "parse ((cf_parse_env cfg)\<lparr>env_now := cx_now c\<rparr>) (read_view cfg c) ?limits (cn_request_parser c) = (parsed, p)"
    and c1: "c1 = c\<lparr>cn_request_parser := p\<rparr>"
    using assms(3) by (auto simp: parse_buffered_def split: prod.splits)
  have ok: "parser_ok ?limits (cn_request_parser c)" "buffer_ok (cn_read_buffer c)"
    using assms(1) by (simp_all add: conn_ok_def read_ok_def)
  have len: "length (view_text (read_view cfg c)) = buffer_size (cn_read_buffer c)"
    using length_readable [OF ok(2)] by (simp add: read_view_def)
  note P = parse_ok [OF ok(1) p]
  show "conn_ok cfg c1"
    using assms(1,2) P(1) by (simp add: c1 conn_ok_reading)
  show "cn_state c1 = cn_state c" "cn_read_buffer c1 = cn_read_buffer c" by (simp_all add: c1)
  show "parsed = Inl NeedsMoreData \<Longrightarrow> buffer_size (cn_read_buffer c1) \<le> request_bound ?limits"
    "parsed = Inr request \<Longrightarrow> pr_consumed_bytes request \<le> buffer_size (cn_read_buffer c1)"
    "parsed = Inl NeedsMoreData \<Longrightarrow> \<not> rp_head_complete (cn_request_parser c1) \<Longrightarrow>
       head_extent (read_view cfg c) ?limits = Inl NeedsMoreData"
    using P(2-4) len by (auto simp: c1)
qed

text \<open>A read into the tail grows the storage only as far as the bound.\<close>

lemma read_chunk_ok:
  assumes "conn_ok cfg c" "reading (cn_state c)" "read_chunk c = (res, c2)"
    and "buffer_size (cn_read_buffer c) \<le> request_bound (opt_limits (cf_options cfg))"
  shows "conn_ok cfg c2" "cn_state c2 = cn_state c" "conn_ok cfg (commit_chunk (tr_bytes res) c2)"
    "cn_request_parser c2 = cn_request_parser c" "readable (cn_read_buffer c2) = readable (cn_read_buffer c)"
proof -
  let ?b = "writable_tail kReadChunkBytes (cn_read_buffer c)"
  obtain data t where r: "transport_read (writable_capacity ?b) (cn_transport c) = (res, data, t)"
    and c2: "c2 = c\<lparr>cn_read_buffer := copy_into_tail data ?b, cn_transport := t\<rparr>"
    using assms(3) by (auto simp: read_chunk_def Let_def split: prod.splits)
  have ok: "buffer_ok (cn_read_buffer c)" "read_cursor (cn_read_buffer c) = 0"
    "capacity (cn_read_buffer c) \<le> 2 * (request_bound (opt_limits (cf_options cfg)) + kReadChunkBytes)"
    using assms(1,2) by (simp_all add: conn_ok_def read_ok_def)
  have len: "length data = tr_bytes res" "length data \<le> writable_capacity ?b"
    using tp.receive_bytes [OF r] by simp_all
  note W = writable_tail_ok [OF ok(1), of kReadChunkBytes]
  have cap: "capacity ?b \<le> 2 * (request_bound (opt_limits (cf_options cfg)) + kReadChunkBytes)"
    using assms(4) ok by (auto simp: writable_tail_def grow_to_def capacity_def writable_capacity_def buffer_size_def
      kBufferGrowthFactor_def kInitialBufferBytes_def kReadChunkBytes_def)
  have copy: "buffer_ok (copy_into_tail data ?b)" "readable (copy_into_tail data ?b) = readable ?b"
    "capacity (copy_into_tail data ?b) = capacity ?b" "read_cursor (copy_into_tail data ?b) = 0"
    using W(1,5) len(2) ok(2)
    by (auto simp: copy_into_tail_def buffer_ok_def writable_capacity_def readable_alt capacity_def)
  have com: "buffer_ok (commit (tr_bytes res) (copy_into_tail data ?b))"
    using copy_commit_ok(1) [OF W(1) len(2)] len(1) by simp
  show "conn_ok cfg c2"
    using assms(1,2) copy cap
    by (simp add: c2 conn_ok_reading)
  show "conn_ok cfg (commit_chunk (tr_bytes res) c2)"
    using assms(1,2) copy cap com
    by (simp add: commit_chunk_def c2 conn_ok_reading commit_def capacity_def)
  show "cn_state c2 = cn_state c" "cn_request_parser c2 = cn_request_parser c"
    "readable (cn_read_buffer c2) = readable (cn_read_buffer c)"
    using copy(2) W(2) by (simp_all add: c2)
qed

text \<open>A response that was serialized in a reading state is ready to be written.\<close>

lemma dispatch_request_fields [simp]:
  "cn_write_buffer (dispatch_request cfg c) = cn_write_buffer c" "cn_stream (dispatch_request cfg c) = cn_stream c"
  "cn_read_buffer (dispatch_request cfg c) = cn_read_buffer c" "cn_transport (dispatch_request cfg c) = cn_transport c"
  "cn_request_parser (dispatch_request cfg c) = cn_request_parser c"
  "cn_requests_served (dispatch_request cfg c) = cn_requests_served c"
  "cn_state (dispatch_request cfg c) = cn_state c" "life (dispatch_request cfg c) = life c"
  by (simp_all add: dispatch_request_def life_def split: option.split prod.split)

text \<open>Everything \<^const>\<open>dispatch_and_serialize\<close> leaves, by the response it serialized.\<close>

lemma dispatch_and_serialize_cases:
  obtains response d encoded head compressed where
    "cn_pending_response (dispatch_request cfg c) = Some response"
    "d = (if is_stream response then (dispatch_request cfg c)\<lparr>cn_stream := res_stream response\<rparr>
          else dispatch_request cfg c)"
    "encode_response (cf_compress_env cfg) (cf_date cfg) (cn_request d) response
       (response_options cfg response d) (cn_write_buffer c) (cn_compressed_body d) = (encoded, head, compressed)"
    "dispatch_and_serialize cfg c =
       d\<lparr>cn_write_buffer := head, cn_compressed_body := compressed, cn_write_offset := 0,
         cn_write_vectors := [readable head] @
           (if \<not> suppress_body encoded \<and> enc_body encoded \<noteq> [] then [enc_body encoded] else []),
         cn_request_deadline := 0\<rparr>"
proof -
  have "cn_pending_response (dispatch_request cfg c) \<noteq> None"
    by (auto simp: dispatch_request_def split: option.splits prod.splits)
  then obtain response where r: "cn_pending_response (dispatch_request cfg c) = Some response" by blast
  define d where d: "d = (if is_stream response then (dispatch_request cfg c)\<lparr>cn_stream := res_stream response\<rparr>
          else dispatch_request cfg c)"
  have w: "cn_write_buffer d = cn_write_buffer c" by (simp add: d)
  obtain encoded head compressed where e: "encode_response (cf_compress_env cfg) (cf_date cfg) (cn_request d) response
       (response_options cfg response d) (cn_write_buffer d) (cn_compressed_body d) = (encoded, head, compressed)"
    by (metis prod_cases3)
  have "dispatch_and_serialize cfg c =
       d\<lparr>cn_write_buffer := head, cn_compressed_body := compressed, cn_write_offset := 0,
         cn_write_vectors := [readable head] @
           (if \<not> suppress_body encoded \<and> enc_body encoded \<noteq> [] then [enc_body encoded] else []),
         cn_request_deadline := 0\<rparr>"
    unfolding dispatch_and_serialize_def Let_def r option.sel d [symmetric] e prod.case by (rule refl)
  from that [OF r d e [unfolded w] this] show thesis .
qed

lemma dispatch_and_serialize_ok:
  assumes "buffer_ok (cn_write_buffer c)" "cn_stream c = None" "life c = Some None" "read_ok cfg (c\<lparr>cn_state := Writing\<rparr>)"
  shows "conn_ok cfg (enter_state cfg Writing (dispatch_and_serialize cfg c))"
proof (rule dispatch_and_serialize_cases [of cfg c])
  fix response d encoded head compressed
  assume r: "cn_pending_response (dispatch_request cfg c) = Some response"
    and d: "d = (if is_stream response then (dispatch_request cfg c)\<lparr>cn_stream := res_stream response\<rparr>
          else dispatch_request cfg c)"
    and enc: "encode_response (cf_compress_env cfg) (cf_date cfg) (cn_request d) response
       (response_options cfg response d) (cn_write_buffer c) (cn_compressed_body d) = (encoded, head, compressed)"
    and e: "dispatch_and_serialize cfg c =
       d\<lparr>cn_write_buffer := head, cn_compressed_body := compressed, cn_write_offset := 0,
         cn_write_vectors := [readable head] @
           (if \<not> suppress_body encoded \<and> enc_body encoded \<noteq> [] then [enc_body encoded] else []),
         cn_request_deadline := 0\<rparr>"
  have g: "cn_stream d = res_stream response" "life d = Some None"
    "cn_read_buffer d = cn_read_buffer c" "cn_request_parser d = cn_request_parser c" "cn_pending_response d = Some response"
    using r assms(2,3) by (auto simp: d is_stream_def)
  have "buffer_ok head"
    using encode_response_head(2) [OF assms(1), of "cf_compress_env cfg" "cf_date cfg" "cn_request d" response
        "response_options cfg response d" "cn_compressed_body d"] enc by simp
  then show ?thesis
    using g assms(4) by (simp add: e conn_ok_def pending_ok_def attached_def read_ok_def reading_def life_def)
qed

lemma answer_request_ok:
  assumes "conn_ok cfg c" "reading (cn_state c)" "pr_consumed_bytes parsed \<le> buffer_size (cn_read_buffer c)"
  shows "conn_ok cfg (answer_request cfg parsed c)" "cn_state (answer_request cfg parsed c) = Writing"
proof -
  have b: "buffer_ok (cn_read_buffer c)" using assms(1) by (simp add: conn_ok_def read_ok_def)
  have "capacity (consume n b) = capacity b" for n b by (simp add: consume_def Let_def clear_def capacity_def)
  then show "conn_ok cfg (answer_request cfg parsed c)"
    unfolding answer_request_def using assms consume_ok(1) [OF b assms(3)]
    by (intro dispatch_and_serialize_ok)
      (simp_all add: conn_ok_reading adopt_parsed_request_def Let_def read_ok_def reading_def)
  show "cn_state (answer_request cfg parsed c) = Writing" by (simp add: answer_request_def)
qed

lemma serialize_error_ok:
  assumes "conn_ok cfg c" "reading (cn_state c)"
  shows "conn_ok cfg (enter_state cfg Writing (serialize_error cfg st c))"
  unfolding serialize_error_def Let_def using assms
  by (intro dispatch_and_serialize_ok)
    (simp_all add: conn_ok_reading read_ok_def reading_def parser_ok_def parser_reset_def new_parser_def)

lemma answer_parse_error_ok:
  assumes "conn_ok cfg c" "reading (cn_state c)"
  shows "conn_ok cfg (answer_parse_error cfg e c)" "cn_state (answer_parse_error cfg e c) = Writing"
proof -
  have "conn_ok cfg (emit_metric cfg M_Rejected_Parse c)" using assms by (simp add: conn_ok_reading)
  then show "conn_ok cfg (answer_parse_error cfg e c)"
    unfolding answer_parse_error_def using assms(2) by (intro serialize_error_ok) simp_all
  show "cn_state (answer_parse_error cfg e c) = Writing" by (simp add: answer_parse_error_def)
qed

lemma drive_read_body_ok:
  "conn_ok cfg c \<Longrightarrow> cn_state c = ReadingBody \<Longrightarrow> conn_ok cfg (snd (drive_read_body cfg c)) \<and>
     (cn_state (snd (drive_read_body cfg c)) = ReadingHeaders \<longrightarrow> fst (drive_read_body cfg c) = Interest_Read)"
proof (induction cfg c rule: drive_read_body.induct)
  case (1 cfg c)
  obtain parsed c1 where p: "parse_buffered cfg c = (parsed, c1)" by fastforce
  have rc: "reading (cn_state c)" using 1(3) by (simp add: reading_def)
  note P = parse_buffered_ok [OF 1(2) rc p]
  have rd: "reading (cn_state c1)" using P(2) rc by simp
  show ?case
  proof (cases parsed)
    case (Inr request)
    then show ?thesis
      using drive_write_ok [OF answer_request_ok [OF P(1) rd P(5)]] p by (simp add: drive_read_body.simps [of cfg c])
  next
    case (Inl e)
    show ?thesis
    proof (cases "e = NeedsMoreData")
      case False
      then show ?thesis
        using drive_write_ok [OF answer_parse_error_ok [OF P(1) rd]] p Inl by (simp add: drive_read_body.simps [of cfg c])
    next
      case True
      obtain res c2 where c: "read_chunk c1 = (res, c2)" by fastforce
      note C = read_chunk_ok [OF P(1) rd c] P(4)
      have cm: "conn_ok cfg (commit_chunk (tr_bytes res) c2)" "cn_state (commit_chunk (tr_bytes res) c2) = ReadingBody"
        "conn_ok cfg c2" "cn_state c2 = ReadingBody"
        using C rd Inl True 1(3) P(2) by (simp_all add: commit_chunk_def)
      show ?thesis
        using 1(1) [OF p [symmetric] refl Inl _ c [symmetric] refl] True cm close_now_conn_ok [OF cm(3)] p c Inl
        by (simp add: drive_read_body.simps [of cfg c])
    qed
  qed
qed

text \<open>A connection that waits for a request head has nothing buffered that could be answered.\<close>

definition awaiting_head :: "conn_config \<Rightarrow> connection \<Rightarrow> bool" where
  "awaiting_head cfg c \<longleftrightarrow> readable (cn_read_buffer c) = [] \<or>
     head_extent (read_view cfg c) (opt_limits (cf_options cfg)) = Inl NeedsMoreData"

lemma head_extent_text: "view_text a = view_text b \<Longrightarrow> head_extent a limits = head_extent b limits"
  by (simp add: head_extent_def)

lemma note_first_bytes_ok:
  assumes "conn_ok cfg c" "cn_state c = ReadingHeaders"
  shows "conn_ok cfg (note_first_bytes cfg c)" "cn_state (note_first_bytes cfg c) = ReadingHeaders"
  using assms by (simp_all add: note_first_bytes_def Let_def conn_ok_reading reading_def)

lemma parse_if_buffered_ok:
  assumes "conn_ok cfg c" "reading (cn_state c)" "parse_if_buffered cfg c = (parsed, c1)"
  shows "conn_ok cfg c1" "cn_state c1 = cn_state c" "cn_read_buffer c1 = cn_read_buffer c"
    "parsed = Inl NeedsMoreData \<Longrightarrow> buffer_size (cn_read_buffer c1) \<le> request_bound (opt_limits (cf_options cfg))"
    "parsed = Inr request \<Longrightarrow> pr_consumed_bytes request \<le> buffer_size (cn_read_buffer c1)"
    "parsed = Inl NeedsMoreData \<Longrightarrow> buffer_empty (cn_read_buffer c) \<or> \<not> waiting_for_body (cn_request_parser c1) \<Longrightarrow>
       awaiting_head cfg c"
proof -
  have b: "buffer_ok (cn_read_buffer c)" using assms(1) by (simp add: conn_ok_def read_ok_def)
  have "conn_ok cfg c1 \<and> cn_state c1 = cn_state c \<and> cn_read_buffer c1 = cn_read_buffer c \<and>
    (parsed = Inl NeedsMoreData \<longrightarrow> buffer_size (cn_read_buffer c1) \<le> request_bound (opt_limits (cf_options cfg))) \<and>
    (parsed = Inr request \<longrightarrow> pr_consumed_bytes request \<le> buffer_size (cn_read_buffer c1)) \<and>
    (parsed = Inl NeedsMoreData \<longrightarrow> buffer_empty (cn_read_buffer c) \<or> \<not> waiting_for_body (cn_request_parser c1) \<longrightarrow>
       awaiting_head cfg c)"
  proof (cases "buffer_empty (cn_read_buffer c)")
    case True
    then show ?thesis
      using assms b by (auto simp: parse_if_buffered_def buffer_empty_def buffer_size_def awaiting_head_def readable_def)
  next
    case False
    then have p: "parse_buffered cfg c = (parsed, c1)" using assms(3) by (simp add: parse_if_buffered_def)
    show ?thesis using parse_buffered_ok [OF assms(1,2) p] False by (auto simp: awaiting_head_def waiting_for_body_def)
  qed
  then show "conn_ok cfg c1" "cn_state c1 = cn_state c" "cn_read_buffer c1 = cn_read_buffer c"
    "parsed = Inl NeedsMoreData \<Longrightarrow> buffer_size (cn_read_buffer c1) \<le> request_bound (opt_limits (cf_options cfg))"
    "parsed = Inr request \<Longrightarrow> pr_consumed_bytes request \<le> buffer_size (cn_read_buffer c1)"
    "parsed = Inl NeedsMoreData \<Longrightarrow> buffer_empty (cn_read_buffer c) \<or> \<not> waiting_for_body (cn_request_parser c1) \<Longrightarrow>
       awaiting_head cfg c" by auto
qed

text \<open>What the loop over the head leaves, for each way it ends.\<close>

definition head_post :: "conn_config \<Rightarrow> head_outcome \<times> connection \<Rightarrow> bool" where
  "head_post cfg r \<longleftrightarrow> conn_ok cfg (snd r) \<and>
     (case fst r of
        Head_Returned i \<Rightarrow> i = Interest_Done \<and> cn_state (snd r) = Closing \<or>
          i \<in> {Interest_Read, Interest_Write} \<and> cn_state (snd r) = ReadingHeaders \<and> awaiting_head cfg (snd r)
      | Head_Answered \<Rightarrow> cn_state (snd r) = Writing
      | Head_Body_Pending \<Rightarrow> cn_state (snd r) = ReadingBody)"

lemma read_head_loop_ok:
  "conn_ok cfg c \<Longrightarrow> cn_state c = ReadingHeaders \<Longrightarrow> head_post cfg (read_head_loop cfg c)"
proof (induction cfg c rule: read_head_loop.induct)
  case (1 cfg c)
  obtain parsed c1 where p: "parse_if_buffered cfg c = (parsed, c1)" by fastforce
  have rd: "reading (cn_state c)" using 1(3) by (simp add: reading_def)
  note P = parse_if_buffered_ok [OF 1(2) rd p]
  have rd1: "reading (cn_state c1)" "cn_state c1 = ReadingHeaders" using P(2) 1(3) rd by simp_all
  show ?case
  proof (cases parsed)
    case (Inr request)
    then show ?thesis
      using answer_request_ok [OF P(1) rd1(1) P(5)] p by (simp add: read_head_loop.simps [of cfg c] head_post_def)
  next
    case (Inl e)
    show ?thesis
    proof (cases "e = NeedsMoreData")
      case False
      then show ?thesis
        using answer_parse_error_ok [OF P(1) rd1(1)] p Inl by (simp add: read_head_loop.simps [of cfg c] head_post_def)
    next
      case True
      show ?thesis
      proof (cases "\<not> buffer_empty (cn_read_buffer c) \<and> waiting_for_body (cn_request_parser c1)")
        case body: True
        have "conn_ok cfg (enter_state cfg ReadingBody c1)" using P(1) rd1 by (simp add: conn_ok_reading reading_def)
        then show ?thesis using body p Inl True by (simp add: read_head_loop.simps [of cfg c] head_post_def)
      next
        case head: False
        obtain res c2 where c: "read_chunk c1 = (res, c2)" by fastforce
        have sz: "buffer_size (cn_read_buffer c1) \<le> request_bound (opt_limits (cf_options cfg))" using P(4) Inl True by simp
        note C = read_chunk_ok [OF P(1) rd1(1) c sz]
        have st: "cn_state c2 = ReadingHeaders" using C(2) rd1 by simp
        have "awaiting_head cfg c" using P(6) Inl True head by blast
        then have aw: "awaiting_head cfg c2"
          using C(5) P(3) head_extent_text [of "read_view cfg c2" "read_view cfg c"]
          by (simp add: awaiting_head_def read_view_def)
        have cm: "cn_state (commit_chunk (tr_bytes res) c2) = ReadingHeaders" using st by (simp add: commit_chunk_def)
        note N = note_first_bytes_ok [OF C(3) cm]
        have ret: "head_post cfg (Head_Returned Interest_Read, c2)" "head_post cfg (Head_Returned Interest_Write, c2)"
          using aw st C(1) by (simp_all add: head_post_def)
        have cl: "head_post cfg (map_prod Head_Returned id (close_now cfg c2))"
          using close_now_conn_ok [OF C(1)] by (simp add: head_post_def close_now_def drive_close_def)
        have eq: "read_head_loop cfg c =
          (if tr_status res = T_WantRead then (Head_Returned Interest_Read, c2)
           else if tr_status res = T_WantWrite then (Head_Returned Interest_Write, c2)
           else if is_terminal res \<or> tr_bytes res = 0 then map_prod Head_Returned id (close_now cfg c2)
           else read_head_loop cfg (note_first_bytes cfg (commit_chunk (tr_bytes res) c2)))"
          using True head by (simp add: read_head_loop.simps [of cfg c] p Inl c del: de_Morgan_conj)
        show ?thesis
          using 1(1) [OF p [symmetric] refl Inl _ head c [symmetric] refl] True N ret cl by (simp add: eq)
      qed
    qed
  qed
qed

section \<open>Events keep the invariant\<close>

text \<open>What a step returns with: back in the header state, the interest wakes the connection when there is
  something to do.\<close>

definition step_post :: "conn_config \<Rightarrow> epoll_interest \<times> connection \<Rightarrow> bool" where
  "step_post cfg r \<longleftrightarrow> conn_ok cfg (snd r) \<and>
     (cn_state (snd r) = ReadingHeaders \<longrightarrow>
        fst r = Interest_ReadWrite \<and> readable (cn_read_buffer (snd r)) \<noteq> [] \<or>
        fst r \<in> {Interest_Read, Interest_Write} \<and> awaiting_head cfg (snd r))"

lemma read_headers_passes_post:
  "conn_ok cfg c \<Longrightarrow> cn_state c = ReadingHeaders \<Longrightarrow> step_post cfg (read_headers_passes n cfg c)"
proof (induction n arbitrary: c)
  case 0
  then have "buffer_ok (cn_read_buffer c)" by (simp add: conn_ok_def read_ok_def)
  with 0 show ?case by (auto simp: step_post_def buffer_empty_iff awaiting_head_def)
next
  case (Suc n)
  obtain out c1 where l: "read_head_loop cfg c = (out, c1)" by fastforce
  note H = read_head_loop_ok [OF Suc.prems, unfolded l head_post_def, simplified]
  define r where "r = (if out = Head_Body_Pending then drive_read_body cfg c1 else drive_write cfg c1)"
  have r: "conn_ok cfg (snd r)" if "\<forall>i. out \<noteq> Head_Returned i"
    using H that drive_write_ok [of cfg c1] drive_read_body_ok [of cfg c1]
    by (cases out) (auto simp: r_def)
  have eq: "read_headers_passes (Suc n) cfg c = (case out of Head_Returned i \<Rightarrow> (i, c1)
      | _ \<Rightarrow> if cn_state (snd r) \<noteq> ReadingHeaders then r else read_headers_passes n cfg (snd r))"
    by (simp add: l r_def split: head_outcome.split prod.split)
  show ?case
  proof (cases out)
    case (Head_Returned i)
    then show ?thesis using H by (auto simp: eq step_post_def simp del: read_headers_passes.simps)
  next
    case Head_Answered
    then show ?thesis using r Suc.IH [of "snd r"] by (auto simp: eq step_post_def simp del: read_headers_passes.simps)
  next
    case Head_Body_Pending
    then show ?thesis using r Suc.IH [of "snd r"] by (auto simp: eq step_post_def simp del: read_headers_passes.simps)
  qed
qed

lemma drive_read_headers_post:
  "conn_ok cfg c \<Longrightarrow> cn_state c = ReadingHeaders \<Longrightarrow> step_post cfg (drive_read_headers cfg c)"
  by (simp add: drive_read_headers_def read_headers_passes_post)

lemma drive_handshake_post:
  assumes "conn_ok cfg c" "cn_state c = Handshaking" shows "step_post cfg (drive_handshake cfg c)"
proof -
  obtain res t where h: "transport_handshake (cn_transport c) = (res, t)" by fastforce
  have c1: "conn_ok cfg (c\<lparr>cn_transport := t\<rparr>)" "conn_ok cfg (emit_metric cfg m (c\<lparr>cn_transport := t\<rparr>))" for m
    using assms by (simp_all add: conn_ok_reading reading_def)
  define c2 where "c2 = (if transport_is_secure t then emit_metric cfg M_Tls_Handshake_Completed (c\<lparr>cn_transport := t\<rparr>)
    else c\<lparr>cn_transport := t\<rparr>)"
  have "conn_ok cfg c2" "reading (cn_state c2)" using c1 assms(2) by (simp_all add: c2_def reading_def)
  then have "conn_ok cfg (enter_state cfg ReadingHeaders (c2\<lparr>cn_request := q\<rparr>))" for q
    by (simp add: conn_ok_reading reading_def)
  note R = drive_read_headers_post [OF this]
  have "drive_handshake cfg c = (case tr_status res of
      T_Ok \<Rightarrow> drive_read_headers cfg (enter_state cfg ReadingHeaders
        (c2\<lparr>cn_request := set_secure (transport_is_secure t) (cn_request c2)\<rparr>))
    | T_WantRead \<Rightarrow> (Interest_Read, c\<lparr>cn_transport := t\<rparr>) | T_WantWrite \<Rightarrow> (Interest_Write, c\<lparr>cn_transport := t\<rparr>)
    | _ \<Rightarrow> (Interest_Done, if transport_is_secure t then emit_metric cfg M_Tls_Handshake_Failed (c\<lparr>cn_transport := t\<rparr>)
        else c\<lparr>cn_transport := t\<rparr>))"
    unfolding drive_handshake_def h Let_def prod.case c2_def by (rule refl)
  then show ?thesis using R c1 assms(2) by (simp add: step_post_def split: transport_status.split)
qed

lemma drive_close_ok: "conn_ok cfg c \<Longrightarrow> cn_state c = Closing \<Longrightarrow> conn_ok cfg (snd (drive_close c))"
  by (simp add: drive_close_def conn_ok_def pending_ok_def attached_def read_ok_def reading_def)

lemma conn_step_post:
  assumes "conn_ok cfg c" "events AND kTerminalEvents = 0"
  shows "step_post cfg (conn_step cfg events c)"
proof (cases "cn_state c")
  case Handshaking
  then show ?thesis using assms drive_handshake_post by (simp add: conn_step_def)
next
  case ReadingHeaders
  then show ?thesis using assms drive_read_headers_post by (simp add: conn_step_def)
next
  case ReadingBody
  obtain i c1 where d: "drive_read_body cfg c = (i, c1)" by fastforce
  have c1: "conn_ok cfg c1" "cn_state c1 = ReadingHeaders \<Longrightarrow> i = Interest_Read"
    using drive_read_body_ok [OF assms(1) ReadingBody] d by simp_all
  have "readable (cn_read_buffer c1) = []" if "buffer_empty (cn_read_buffer c1)"
    using that by (simp add: buffer_empty_def readable_def)
  then show ?thesis
    using assms(2) ReadingBody d drive_read_headers_post [OF c1(1)] c1
    by (simp add: conn_step_def step_post_def awaiting_head_def)
next
  case Writing
  obtain i c1 where d: "drive_write cfg c = (i, c1)" by fastforce
  have "conn_ok cfg c1" using drive_write_ok [OF assms(1) Writing] d by simp
  then show ?thesis
    using assms(2) Writing d drive_read_headers_post [of cfg c1] by (auto simp: conn_step_def step_post_def)
next
  case Streaming
  then show ?thesis using assms drive_stream_ok [OF assms(1) Streaming] by (auto simp: conn_step_def step_post_def)
next
  case Closing
  then show ?thesis using assms drive_close_ok [OF assms(1) Closing] by (simp add: conn_step_def step_post_def drive_close_def)
qed

lemma conn_step_ok: "conn_ok cfg c \<Longrightarrow> conn_ok cfg (snd (conn_step cfg events c))"
  using conn_step_post [of cfg c events]
  by (cases "events AND kTerminalEvents = 0") (simp_all add: step_post_def conn_step_def)

lemma on_stream_notified_ok: "conn_ok cfg c \<Longrightarrow> conn_ok cfg (snd (on_stream_notified cfg c))"
  using drive_stream_ok by (simp add: on_stream_notified_def)

lemma on_deadline_expired_ok: "conn_ok cfg c \<Longrightarrow> conn_ok cfg (snd (on_deadline_expired cfg c))"
proof -
  assume ok: "conn_ok cfg c"
  have "conn_ok cfg (emit_metric cfg m c)" if "cn_state c = Handshaking" for m
    using ok that by (simp add: conn_ok_reading reading_def)
  moreover have "conn_ok cfg (snd (drive_write cfg (enter_state cfg Writing (serialize_error cfg st c))))"
    if "reading (cn_state c)" for st
    using drive_write_ok [OF serialize_error_ok [OF ok that]] by simp
  ultimately show ?thesis
    using close_now_conn_ok(1) [OF ok] close_now_conn_ok(1) [of cfg "emit_metric cfg M_Tls_Handshake_Failed c"]
    by (auto simp: on_deadline_expired_def reading_def split: connection_state.split)
qed

lemma new_connection_ok: "conn_ok cfg (new_connection cfg peer transport outside)"
  by (simp add: new_connection_def conn_ok_reading reading_def life_def parser_ok_def new_parser_def
      make_buffer_def capacity_def request_bound_def kInitialBufferBytes_def kReadChunkBytes_def buffer_ok_def)

section \<open>Runs of a connection\<close>

text \<open>A connection is created, then readiness, deadlines and notifications arrive in any order, and its
  reactor may begin to close it. Between them the world moves: the kernel will answer otherwise, time passes, the source has more to give; what
  was sent stays sent.\<close>

inductive connection_run :: "conn_config \<Rightarrow> connection \<Rightarrow> bool" for cfg where
  run_new: "connection_run cfg (new_connection cfg peer transport outside)"
| run_world: "connection_run cfg c \<Longrightarrow> transport_sent t = transport_sent (cn_transport c) \<Longrightarrow>
    transport_is_secure t = transport_is_secure (cn_transport c) \<Longrightarrow>
    connection_run cfg (c\<lparr>cn_transport := t, cx_ticks := ticks, cx_pulls := pulls, cx_attach_throws := throws\<rparr>)"
| run_step: "connection_run cfg c \<Longrightarrow> connection_run cfg (snd (conn_step cfg events c))"
| run_notified: "connection_run cfg c \<Longrightarrow> connection_run cfg (snd (on_stream_notified cfg c))"
| run_expired: "connection_run cfg c \<Longrightarrow> connection_run cfg (snd (on_deadline_expired cfg c))"
| run_begin_close: "connection_run cfg c \<Longrightarrow> connection_run cfg (begin_close cfg c)"

lemma conn_ok_world:
  "conn_ok cfg c \<Longrightarrow> conn_ok cfg (c\<lparr>cn_transport := t, cx_ticks := ticks, cx_pulls := pulls, cx_attach_throws := throws\<rparr>)"
  by (auto simp: conn_ok_def pending_ok_def attached_def read_ok_def life_def split: connection_state.splits)

lemma begin_close_ok: "conn_ok cfg c \<Longrightarrow> conn_ok cfg (begin_close cfg c)"
proof -
  let ?c = "begin_close cfg c"
  assume "conn_ok cfg c"
  then have "conn_ok cfg (snd (close_now cfg c))" by (rule close_now_conn_ok(1))
  then have "conn_ok cfg ((snd (close_now cfg c))\<lparr>cn_transport := cn_transport ?c, cx_ticks := cx_ticks ?c,
    cx_pulls := cx_pulls ?c, cx_attach_throws := cx_attach_throws ?c\<rparr>)" by (rule conn_ok_world)
  moreover have "(snd (close_now cfg c))\<lparr>cn_transport := cn_transport ?c, cx_ticks := cx_ticks ?c,
    cx_pulls := cx_pulls ?c, cx_attach_throws := cx_attach_throws ?c\<rparr> = ?c"
    by (simp add: close_now_def drive_close_def del: close_now_pulls)
  ultimately show "conn_ok cfg ?c" by simp
qed

lemma connection_run_ok: "connection_run cfg c \<Longrightarrow> conn_ok cfg c"
  by (induction rule: connection_run.induct)
    (simp_all add: new_connection_ok conn_ok_world conn_step_ok on_stream_notified_ok on_deadline_expired_ok
      begin_close_ok)

end
