(* ===== verification/Http_Connection_Properties.thy ===== *)
theory Http_Connection_Properties
  imports Http_Connection_Invariant
begin

text \<open>
  What holds of a connection in every run of it: the invariant, the life of a stream source, the bound on
  what it buffers, that no request is left unanswered in the buffer, which bytes reach the wire, when the
  connection is kept and when it closes.
\<close>

section \<open>The invariant\<close>

text \<open>C5: the invariant of a connection, in every run: the readable bytes of its buffers lie in their
  storage; a response is pending exactly while its head and body are being written, with the offset
  inside the data and at most as many write vectors as their fixed array holds; while it reads, nothing
  is pending to be written and the request begins at the start of the buffer; a stream source is held
  only by a connection that writes its head or streams it.\<close>

theorem connection_invariant:
  assumes "connection_run cfg c"
  shows "buffer_ok (cn_read_buffer c) \<and> buffer_ok (cn_write_buffer c) \<and>
    length (cn_write_vectors c) \<le> kMaxWriteVectors \<and>
    (cn_state c \<in> {Writing, Streaming} \<longrightarrow> cn_write_offset c \<le> length (concat (cn_write_vectors c))) \<and>
    (cn_state c = Writing \<longrightarrow> cn_pending_response c \<noteq> None \<and>
       cn_stream c = res_stream (the (cn_pending_response c))) \<and>
    (cn_state c \<in> {Handshaking, ReadingHeaders, ReadingBody} \<longrightarrow>
       cn_pending_response c = None \<and> cn_write_vectors c = [] \<and> read_cursor (cn_read_buffer c) = 0) \<and>
    (cn_stream c \<noteq> None \<longrightarrow> cn_state c \<in> {Writing, Streaming})"
  using connection_run_ok [OF assms]
  by (cases "cn_state c")
    (auto simp: conn_ok_def pending_ok_def read_ok_def reading_def kMaxWriteVectors_def)

definition sample_limits :: request_limits where
  "sample_limits = \<lparr>max_request_line_bytes = 64, max_header_block_bytes = 128, max_header_count = 8,
     max_target_bytes = 32, max_body_bytes = 16\<rparr>"

definition sample_config :: conn_config where
  "sample_config =
     \<lparr>cf_router = default_router\<lparr>rtr_fallback := Some (sample_handler ''hi'')\<rparr>,
      cf_options = \<lparr>opt_limits = sample_limits, opt_max_requests_per_connection = 3, opt_handshake_timeout = 1,
        opt_header_timeout = 1, opt_body_timeout = 1, opt_write_timeout = 1, opt_keep_alive_idle = 1,
        opt_request_deadline = 1, opt_stream_idle_timeout = 1, opt_server_header = []\<rparr>,
      cf_strict_transport_security = False, cf_hsts_max_age_seconds = 0, cf_metrics = False,
      cf_parse_env = \<lparr>env_inet_pton6 = (\<lambda>_. False), env_root_path_data = 0, env_arena_data = 0, env_now = 0\<rparr>,
      cf_compress_env = sample_cenv Some, cf_names_at = (\<lambda>_. 0), cf_storage_at = (\<lambda>_. 0), cf_date = 0\<rparr>"

definition sample_outside :: "connection" where
  "sample_outside =
     \<lparr>cn_peer = default_peer, cn_transport = Transport_Plain \<lparr>so_recv = [], so_send = [], so_shutdown = [], so_sent = []\<rparr>,
      cn_read_buffer = make_buffer 0, cn_write_buffer = make_buffer 0, cn_request_parser = new_parser,
      cn_request = default_request, cn_pending_response = None, cn_compressed_body = [], cn_write_vectors = [],
      cn_write_offset = 0, cn_stream = None, cn_notifier = False, cn_deadline = 0, cn_request_deadline = 0,
      cn_requests_served = 0, cn_state = Handshaking, cn_saw_any_bytes = False,
      cn_stream_waiting_for_write_progress = False, cx_now = 0, cx_ticks = [], cx_pulls = [], cx_attach_throws = [],
      cx_events = []\<rparr>"

definition sample_socket :: "recv_answer list \<Rightarrow> send_answer list \<Rightarrow> transport" where
  "sample_socket input output =
     Transport_Plain \<lparr>so_recv = input, so_send = output, so_shutdown = [], so_sent = []\<rparr>"

definition sample_connection :: "recv_answer list \<Rightarrow> send_answer list \<Rightarrow> connection" where
  "sample_connection input output = new_connection sample_config default_peer (sample_socket input output) sample_outside"

lemma sample_run: "connection_run sample_config (sample_connection input output)"
  unfolding sample_connection_def by (rule run_new)

theorem connection_invariant_witness:
  "length (cn_write_vectors (snd (conn_step sample_config 1 (sample_connection [Recv_Eof] [])))) \<le> kMaxWriteVectors"
  using connection_invariant [OF run_step [OF sample_run, of 1 "[Recv_Eof]" "[]"]] by simp

text \<open>C15: the stream source of a connection sees a disciplined life, in every run: it is attached before
  it is pulled, pulled only while it is attached, no second source is attached before the first is
  detached, and once the connection is destroyed no source is left attached.\<close>

theorem stream_source_discipline:
  assumes "connection_run cfg c"
  shows "lifecycle None (cx_events c) = Some (if cn_state c = Streaming then cn_stream c else None) \<and>
    lifecycle None (cx_events (destroy_connection c)) = Some None"
proof -
  have l: "life c = Some (attached c)" using connection_run_ok [OF assms] by (simp add: conn_ok_def)
  moreover have "attached c = None \<or> attached c = cn_stream c" by (simp add: attached_def)
  ultimately show ?thesis
    using life_release_Some [OF l] by (simp add: destroy_connection_def life_def attached_def)
qed

theorem stream_source_discipline_witness:
  "lifecycle None (cx_events (destroy_connection (snd (on_deadline_expired sample_config (sample_connection [] []))))) =
     Some None"
  using stream_source_discipline [OF run_expired [OF sample_run, of "[]" "[]"]] by blast

text \<open>C11: what a peer can make a connection buffer is bounded by the configured limits: whatever it sends,
  the capacity of the read buffer never exceeds twice the largest head and body, two bytes of prologue
  and one read.\<close>

theorem read_memory_bounded:
  assumes "connection_run cfg c"
  defines "limits \<equiv> opt_limits (cf_options cfg)"
  shows "capacity (cn_read_buffer c) \<le>
    2 * (2 + max_header_block_bytes limits + max_body_bytes limits + kReadChunkBytes)"
  using connection_run_ok [OF assms(1)] by (simp add: conn_ok_def read_ok_def request_bound_def limits_def)

theorem read_memory_bounded_witness:
  "capacity (cn_read_buffer (snd (conn_step sample_config 1 (sample_connection [Recv_Bytes ''GET''] [])))) \<le>
     2 * (2 + 128 + 16 + 4096)"
  using read_memory_bounded [OF run_step [OF sample_run, of 1 "[Recv_Bytes ''GET'']" "[]"]]
  by (simp add: sample_config_def sample_limits_def kReadChunkBytes_def)

text \<open>C9: no request is left behind. When a step returns with the connection waiting for a request head,
  either the interest asks to be called again at once because input is still buffered, or the buffer
  holds no complete head; pipelined requests are never stranded.\<close>

theorem no_request_stranded:
  assumes "connection_run cfg c" and "events AND kTerminalEvents = 0"
    and "conn_step cfg events c = (interest, c')" and "cn_state c' = ReadingHeaders"
  shows "interest = Interest_ReadWrite \<and> readable (cn_read_buffer c') \<noteq> [] \<or>
    interest \<in> {Interest_Read, Interest_Write} \<and>
      (readable (cn_read_buffer c') = [] \<or>
       head_extent (read_view cfg c') (opt_limits (cf_options cfg)) = Inl NeedsMoreData)"
  using conn_step_post [OF connection_run_ok [OF assms(1)] assms(2)] assms(3,4)
  by (simp add: step_post_def awaiting_head_def)

section \<open>Bytes on the wire\<close>

text \<open>What has been sent, followed by what is still pending.\<close>

definition sent_and_pending :: "connection \<Rightarrow> bytes" where
  "sent_and_pending c = transport_sent (cn_transport c) @ drop (cn_write_offset c) (concat (cn_write_vectors c))"

lemma sent_and_pending_send:
  assumes "cn_write_offset c < length (concat (cn_write_vectors c))"
    and "transport_writev (skip_vectors (cn_write_offset c) (cn_write_vectors c)) (cn_transport c) = (res, t)"
  shows "transport_sent t @ drop (cn_write_offset c + tr_bytes res) (concat (cn_write_vectors c)) = sent_and_pending c"
    "cn_write_offset c + tr_bytes res \<le> length (concat (cn_write_vectors c))"
  using tp.send_sent [OF assms(2)] tp.send_bytes [OF assms(2)] assms(1)
  by (simp_all add: sent_and_pending_def concat_skip_vectors flip: drop_drop)
    (metis add.commute append_take_drop_id drop_drop)

lemma close_drain_sent [simp]: "transport_sent (close_drain n t) = transport_sent t"
proof (induction n t rule: close_drain.induct)
  case (2 n t)
  obtain res data t' where r: "transport_read kCloseDrainChunkBytes t = (res, data, t')" by (metis prod_cases3)
  then show ?case using 2 tp.receive_sent [OF r] by simp
qed simp

lemma shutdown_sent [simp]: "transport_sent (snd (transport_shutdown t)) = transport_sent t"
  by (simp add: transport_shutdown_def plain_shutdown_def tls_shutdown_def transport_sent_def split: transport.split list.split)

lemma close_now_sent [simp]: "transport_sent (cn_transport (snd (close_now cfg c))) = transport_sent (cn_transport c)"
  by (simp add: close_now_def drive_close_def begin_close_def Let_def)

text \<open>What the loop of \<open>drive_write\<close> keeps from the state it started in.\<close>

definition same_response :: "connection \<Rightarrow> connection \<Rightarrow> bool" where
  "same_response c d \<longleftrightarrow> sent_and_pending d = sent_and_pending c \<and> cn_write_vectors d = cn_write_vectors c \<and>
     cn_write_offset c \<le> cn_write_offset d \<and> cn_write_offset d \<le> length (concat (cn_write_vectors d)) \<and>
     cn_state d = cn_state c \<and> cn_pending_response d = cn_pending_response c \<and> cn_stream d = cn_stream c \<and>
     cn_request d = cn_request c \<and> cn_requests_served d = cn_requests_served c"

lemma same_response_advance:
  assumes "same_response c d" "cn_write_offset d < length (concat (cn_write_vectors d))"
    and "transport_writev (skip_vectors (cn_write_offset d) (cn_write_vectors d)) (cn_transport d) = (res, t)"
  shows "same_response c (write_advance cfg (tr_bytes res) (d\<lparr>cn_transport := t\<rparr>))"
    "tr_bytes res = 0 \<Longrightarrow> same_response c (d\<lparr>cn_transport := t\<rparr>)"
  using sent_and_pending_send [OF assms(2,3)] assms(1,2)
  by (auto simp: same_response_def) (auto simp: sent_and_pending_def)

lemma write_loop_same_response:
  assumes "write_loop cfg c = (r, c')" "cn_write_offset c \<le> length (concat (cn_write_vectors c))"
  shows "same_response c c'" "r = None \<Longrightarrow> transport_sent (cn_transport c') = sent_and_pending c"
    "r = Some i \<Longrightarrow> cn_write_offset c' < length (concat (cn_write_vectors c'))"
proof -
  have start: "same_response c c" using assms(2) by (simp add: same_response_def)
  have "same_response c c' \<and> (r = None \<longrightarrow> transport_sent (cn_transport c') = sent_and_pending c) \<and>
    (r = Some i \<longrightarrow> cn_write_offset c' < length (concat (cn_write_vectors c')))"
  proof (rule write_loop_outcome [OF assms(1), where I = "same_response c"])
    fix d res t
    assume "same_response c d" "cn_write_offset d < length (concat (cn_write_vectors d))"
      "transport_writev (skip_vectors (cn_write_offset d) (cn_write_vectors d)) (cn_transport d) = (res, t)"
    then show "same_response c (write_advance cfg (tr_bytes res) (d\<lparr>cn_transport := t\<rparr>))"
      by (rule same_response_advance)
  next
    assume "r = None" "same_response c c'" "length (concat (cn_write_vectors c')) \<le> cn_write_offset c'"
    then show ?thesis by (auto simp: same_response_def sent_and_pending_def)
  next
    fix d res t j
    assume "same_response c d" "cn_write_offset d < length (concat (cn_write_vectors d))"
      "transport_writev (skip_vectors (cn_write_offset d) (cn_write_vectors d)) (cn_transport d) = (res, t)"
      "tr_bytes res = 0" "c' = d\<lparr>cn_transport := t\<rparr>" "r = Some j"
    then show ?thesis using same_response_advance(2) by simp
  qed (fact start)
  then show "same_response c c'" "r = None \<Longrightarrow> transport_sent (cn_transport c') = sent_and_pending c"
    "r = Some i \<Longrightarrow> cn_write_offset c' < length (concat (cn_write_vectors c'))" by auto
qed

text \<open>A response that is not a stream: how \<open>drive_write\<close> leaves it, and what decides what follows.\<close>

lemma prepare_next_request_transport [simp]: "cn_transport (prepare_next_request cfg c) = cn_transport c"
  by (simp add: prepare_next_request_def Let_def)

lemma drive_write_response:
  assumes "cn_state c = Writing" "cn_pending_response c = Some response" "\<not> is_stream response"
    and "cn_write_offset c \<le> length (concat (cn_write_vectors c))" "drive_write cfg c = (interest, c')"
  defines "keep \<equiv> req_keep_alive (cn_request c) \<and> cn_requests_served c + 1 < opt_max_requests_per_connection (cf_options cfg)"
  shows "cn_state c' = Writing \<and> same_response c c' \<and> cn_write_offset c' < length (concat (cn_write_vectors c')) \<or>
    transport_sent (cn_transport c') = sent_and_pending c \<and> cn_state c' = (if keep then ReadingHeaders else Closing) \<and>
      interest = (if keep then Interest_Read else Interest_Done)"
proof -
  obtain r d where loop: "write_loop cfg c = (r, d)" by fastforce
  note W = write_loop_same_response [OF loop assms(4)]
  have d: "cn_pending_response d = Some response" "cn_state d = Writing" "cn_request d = cn_request c"
    "cn_requests_served d = cn_requests_served c"
    using W(1) assms(1,2) by (simp_all add: same_response_def)
  show ?thesis
  proof (cases r)
    case (Some i)
    then show ?thesis using assms(5) W(1,3) d by (simp add: drive_write_def loop)
  next
    case None
    have st: "cn_state (prepare_next_request cfg x) = ReadingHeaders" for x by (simp add: prepare_next_request_def Let_def)
    have cl: "cn_state (snd (close_now cfg x)) = Closing" "fst (close_now cfg x) = Interest_Done" for x
      by (simp_all add: close_now_def drive_close_def begin_close_def Let_def)
    have "(interest, c') = (if keep then (Interest_Read, prepare_next_request cfg (response_finished cfg d))
        else close_now cfg (response_finished cfg d))"
      using assms(3,5) d by (auto simp: drive_write_def loop None keep_def Let_def split: if_splits)
    then have "c' = (if keep then prepare_next_request cfg (response_finished cfg d)
        else snd (close_now cfg (response_finished cfg d)))"
      "interest = (if keep then Interest_Read else fst (close_now cfg (response_finished cfg d)))"
      by (metis fst_conv snd_conv)+
    then show ?thesis using W(2) None st cl by simp
  qed
qed

text \<open>C6: writing a response is resumable without loss or repetition. However the transport accepts it, in
  pieces and over any number of calls, either the connection is still writing and what was sent followed
  by what is pending is unchanged, or every byte of the response has been sent, once, and the connection
  goes on to the next request or closes.\<close>

theorem response_written_exactly:
  assumes "connection_run cfg c" and "cn_state c = Writing" and "cn_stream c = None"
    and "drive_write cfg c = (interest, c')"
  shows "cn_state c' = Writing \<and> sent_and_pending c' = sent_and_pending c \<and>
      cn_write_offset c \<le> cn_write_offset c' \<and> cn_write_offset c' < length (concat (cn_write_vectors c')) \<or>
    cn_state c' \<in> {ReadingHeaders, Closing} \<and> transport_sent (cn_transport c') = sent_and_pending c"
proof -
  have ok: "conn_ok cfg c" using assms(1) by (rule connection_run_ok)
  obtain response where "cn_pending_response c = Some response" "\<not> is_stream response"
    "cn_write_offset c \<le> length (concat (cn_write_vectors c))"
    using ok assms(2,3) by (auto simp: conn_ok_def pending_ok_def is_stream_def)
  from drive_write_response [OF assms(2) this assms(4)] show ?thesis
    by (auto simp: same_response_def split: if_splits)
qed

section \<open>Answering a request\<close>

text \<open>What is pending once a response has been serialized.\<close>

definition response_bytes :: "conn_config \<Rightarrow> request \<Rightarrow> response \<Rightarrow> encoding_options \<Rightarrow> bytes" where
  "response_bytes cfg req res options =
     status_line (res_status res) @ kCrlf @
     concat (map render_field (response_fields (cf_compress_env cfg) (cf_date cfg) req res options)) @ kCrlf @
     (if is_stream res \<or> req_method req = Method_Head \<or> is_bodiless (res_status res) then []
      else enc_final_body (cf_compress_env cfg) req res)"

lemma dispatch_and_serialize_pending:
  assumes "buffer_ok (cn_write_buffer c)" "cn_pending_response (dispatch_request cfg c) = Some response"
  defines "w \<equiv> dispatch_and_serialize cfg c"
  shows "sent_and_pending w = transport_sent (cn_transport c) @
      response_bytes cfg (cn_request w) response (response_options cfg response w)"
    "cn_pending_response w = Some response" "cn_request w = cn_request (dispatch_request cfg c)"
    "cn_requests_served w = cn_requests_served c" "cn_write_offset w = 0" "cn_transport w = cn_transport c"
proof -
  have "sent_and_pending w = transport_sent (cn_transport c) @
      response_bytes cfg (cn_request w) response (response_options cfg response w) \<and>
    cn_pending_response w = Some response \<and> cn_request w = cn_request (dispatch_request cfg c) \<and>
    cn_requests_served w = cn_requests_served c \<and> cn_write_offset w = 0 \<and> cn_transport w = cn_transport c"
  proof (rule dispatch_and_serialize_cases [of cfg c])
    fix res d encoded head compressed
    assume r: "cn_pending_response (dispatch_request cfg c) = Some res"
      and d: "d = (if is_stream res then (dispatch_request cfg c)\<lparr>cn_stream := res_stream res\<rparr>
            else dispatch_request cfg c)"
      and enc: "encode_response (cf_compress_env cfg) (cf_date cfg) (cn_request d) res
         (response_options cfg res d) (cn_write_buffer c) (cn_compressed_body d) = (encoded, head, compressed)"
      and e: "dispatch_and_serialize cfg c =
         d\<lparr>cn_write_buffer := head, cn_compressed_body := compressed, cn_write_offset := 0,
           cn_write_vectors := [readable head] @
             (if \<not> suppress_body encoded \<and> enc_body encoded \<noteq> [] then [enc_body encoded] else []),
           cn_request_deadline := 0\<rparr>"
    have res: "res = response" using r assms(2) by simp
    have fields: "cn_pending_response d = Some response" "cn_request d = cn_request (dispatch_request cfg c)"
      "cn_requests_served d = cn_requests_served c" "cn_transport d = cn_transport c"
      using r by (simp_all add: d res)
    have opts: "response_options cfg response w = response_options cfg response d" by (simp add: w_def e response_options_def)
    note E = encode_response_head [OF assms(1), of "cf_compress_env cfg" "cf_date cfg" "cn_request d" response
        "response_options cfg response d" "cn_compressed_body d"]
    have "encoded = \<lparr>enc_body = enc_final_body (cf_compress_env cfg) (cn_request d) response,
        suppress_body = (is_stream response \<or> req_method (cn_request d) = Method_Head \<or> is_bodiless (res_status response))\<rparr>"
      using E(1) enc res by simp
    moreover have "readable head = status_line (res_status response) @ kCrlf @ concat (map render_field
        (response_fields (cf_compress_env cfg) (cf_date cfg) (cn_request d) response (response_options cfg response d))) @ kCrlf"
      using E(3) enc res by simp
    ultimately show ?thesis
      using fields by (simp add: opts) (auto simp: w_def e sent_and_pending_def response_bytes_def)
  qed
  then show "sent_and_pending w = transport_sent (cn_transport c) @
      response_bytes cfg (cn_request w) response (response_options cfg response w)"
    "cn_pending_response w = Some response" "cn_request w = cn_request (dispatch_request cfg c)"
    "cn_requests_served w = cn_requests_served c" "cn_write_offset w = 0" "cn_transport w = cn_transport c" by simp_all
qed

lemma response_options_keep_alive:
  "opt_keep_alive (response_options cfg res c) \<longleftrightarrow> \<not> is_stream res \<and> req_keep_alive (cn_request c) \<and>
     cn_requests_served c + 1 < opt_max_requests_per_connection (cf_options cfg)"
  by (simp add: response_options_def)

text \<open>Once a serialized response is written, all of it has been sent, and the connection does what the
  response announced.\<close>

lemma serialized_response_sent:
  assumes "buffer_ok (cn_write_buffer c)" "cn_pending_response (dispatch_request cfg c) = Some response"
    and "\<not> is_stream response"
    and "drive_write cfg (enter_state cfg Writing (dispatch_and_serialize cfg c)) = (interest, c')" "cn_state c' \<noteq> Writing"
  defines "options \<equiv> response_options cfg response (dispatch_and_serialize cfg c)"
  shows "transport_sent (cn_transport c') = transport_sent (cn_transport c) @
      response_bytes cfg (cn_request (dispatch_request cfg c)) response options"
    "cn_state c' = (if opt_keep_alive options then ReadingHeaders else Closing)"
proof -
  let ?w = "enter_state cfg Writing (dispatch_and_serialize cfg c)"
  note P = dispatch_and_serialize_pending [OF assms(1,2)]
  have "sent_and_pending ?w = sent_and_pending (dispatch_and_serialize cfg c)" by (simp add: sent_and_pending_def)
  moreover have "cn_write_offset ?w \<le> length (concat (cn_write_vectors ?w))" using P(5) by simp
  moreover have "cn_pending_response ?w = Some response" "cn_state ?w = Writing" using P(2) by simp_all
  moreover have "opt_keep_alive options \<longleftrightarrow> req_keep_alive (cn_request ?w) \<and>
      cn_requests_served ?w + 1 < opt_max_requests_per_connection (cf_options cfg)"
    using assms(3) by (simp add: options_def response_options_keep_alive)
  ultimately show "transport_sent (cn_transport c') = transport_sent (cn_transport c) @
      response_bytes cfg (cn_request (dispatch_request cfg c)) response options"
    "cn_state c' = (if opt_keep_alive options then ReadingHeaders else Closing)"
    using drive_write_response [OF _ _ assms(3) _ assms(4)] assms(5) P(1,3) by (auto simp: options_def)
qed

text \<open>C4: a request is answered with what the router decides, encoded whole, and the connection keeps its
  word. For a parsed request whose response is not a stream: once the connection is no longer writing,
  exactly the bytes of the encoded response have been added to what was sent. They are encoded with the
  configured Server header, with the HSTS setting of the listener and whether the transport is secure,
  and announce that the connection stays open exactly when the request asks for it and the bound on
  requests is not reached; the connection reads the next request precisely then, and closes otherwise.\<close>

theorem request_answered:
  assumes "connection_run cfg c" and "cn_state c \<in> {ReadingHeaders, ReadingBody}"
    and "dispatch (cf_names_at cfg) (cf_router cfg) (cn_request (adopt_parsed_request parsed c)) = (routed, request)"
    and "response = apply_conditional_request (cf_compress_env cfg) request routed" and "\<not> is_stream response"
    and "drive_write cfg (answer_request cfg parsed c) = (interest, c')" and "cn_state c' \<noteq> Writing"
  defines "stays_open \<equiv> req_keep_alive request \<and>
    cn_requests_served c + 1 < opt_max_requests_per_connection (cf_options cfg)"
  shows "transport_sent (cn_transport c') = transport_sent (cn_transport c) @ response_bytes cfg request response
      \<lparr>server_header = opt_server_header (cf_options cfg), opt_keep_alive = stays_open,
       opt_secure = transport_is_secure (cn_transport c),
       strict_transport_security = cf_strict_transport_security cfg,
       hsts_max_age_seconds = cf_hsts_max_age_seconds cfg\<rparr> \<and>
    cn_state c' = (if stays_open then ReadingHeaders else Closing)"
proof -
  let ?d = "adopt_parsed_request parsed c"
  have ok: "conn_ok cfg c" using assms(1) by (rule connection_run_ok)
  have f: "cn_pending_response ?d = None" "buffer_ok (cn_write_buffer ?d)" "cn_transport ?d = cn_transport c"
    "cn_requests_served ?d = cn_requests_served c"
    using ok assms(2) by (auto simp: conn_ok_reading reading_def adopt_parsed_request_def Let_def)
  have d: "cn_pending_response (dispatch_request cfg ?d) = Some response" "cn_request (dispatch_request cfg ?d) = request"
    using f(1) assms(3,4) by (simp_all add: dispatch_request_def)
  let ?options = "response_options cfg response (dispatch_and_serialize cfg ?d)"
  note S = serialized_response_sent [OF f(2) d(1) assms(5) assms(6) [unfolded answer_request_def] assms(7)]
  have "?options = \<lparr>server_header = opt_server_header (cf_options cfg), opt_keep_alive = stays_open,
       opt_secure = transport_is_secure (cn_transport c),
       strict_transport_security = cf_strict_transport_security cfg,
       hsts_max_age_seconds = cf_hsts_max_age_seconds cfg\<rparr>"
    using dispatch_and_serialize_pending(3,4,6) [OF f(2) d(1)] d(2) f(3,4) assms(5)
    by (simp add: response_options_def stays_open_def)
  then show ?thesis using S d(2) f(3) by simp
qed

text \<open>The connection \<open>serialize_error\<close> hands on: a request of its own that keeps nothing alive.\<close>

definition error_connection :: "status \<Rightarrow> connection \<Rightarrow> connection" where
  "error_connection st c =
     (read_clock c)\<lparr>cn_request_parser := parser_reset (cn_request_parser c),
       cn_request := set_received_at (cx_now (read_clock c)) (set_secure (transport_is_secure (cn_transport c))
         (set_peer (cn_peer c) (request_reset (cn_request c)))),
       cn_pending_response := Some (response_text (reason_phrase st @ [CHR 0x0A]) st)\<rparr>"

lemma serialize_error_eq: "serialize_error cfg st c = dispatch_and_serialize cfg (error_connection st c)"
  by (simp add: serialize_error_def error_connection_def Let_def)

lemma error_connection_fields [simp]:
  "cn_write_buffer (error_connection st c) = cn_write_buffer c"
  "cn_transport (error_connection st c) = cn_transport c" "cn_stream (error_connection st c) = cn_stream c"
  by (simp_all add: error_connection_def)

lemma error_connection_dispatched:
  "cn_pending_response (dispatch_request cfg (error_connection st c)) =
     Some (response_text (reason_phrase st @ [CHR 0x0A]) st)"
  "cn_request (dispatch_request cfg (error_connection st c)) = cn_request (error_connection st c)"
  "\<not> is_stream (response_text (reason_phrase st @ [CHR 0x0A]) st)"
  "\<not> req_keep_alive (cn_request (error_connection st c))"
  by (simp_all add: dispatch_request_def error_connection_def response_text_def response_with_def is_stream_def
      default_response_def set_header_eq set_received_at_def set_secure_def set_peer_def request_reset_def
      default_request_def)

text \<open>An error is answered and ends the connection. Whatever the parser rejects, the peer is sent the
  status of that error with its reason as the body, and once it is written the connection closes,
  whatever else is buffered.\<close>

theorem parse_error_closes:
  assumes "connection_run cfg c" and "cn_state c \<in> {ReadingHeaders, ReadingBody}"
    and "drive_write cfg (answer_parse_error cfg error c) = (interest, c')" and "cn_state c' \<noteq> Writing"
  shows "\<exists>options request. transport_sent (cn_transport c') = transport_sent (cn_transport c) @
      response_bytes cfg request (response_text (reason_phrase (status_for error) @ [CHR 0x0A]) (status_for error)) options \<and>
    \<not> opt_keep_alive options \<and> cn_state c' = Closing"
proof -
  let ?d = "error_connection (status_for error) (emit_metric cfg M_Rejected_Parse c)"
  let ?response = "response_text (reason_phrase (status_for error) @ [CHR 0x0A]) (status_for error)"
  have ok: "conn_ok cfg c" using assms(1) by (rule connection_run_ok)
  have eq: "answer_parse_error cfg error c = enter_state cfg Writing (dispatch_and_serialize cfg ?d)"
    by (simp add: answer_parse_error_def serialize_error_eq)
  have f: "buffer_ok (cn_write_buffer ?d)" using ok by (simp add: conn_ok_def)
  note p = error_connection_dispatched
  note S = serialized_response_sent [OF f p(1,3) assms(3) [unfolded eq] assms(4)]
  have "\<not> opt_keep_alive (response_options cfg ?response (dispatch_and_serialize cfg ?d))"
    using dispatch_and_serialize_pending(3) [OF f p(1)] p(2,4) by (simp add: response_options_keep_alive)
  then show ?thesis using S by auto
qed

section \<open>Streaming\<close>

text \<open>What a pull contributes to the body: an idle source contributes nothing.\<close>

fun pulled_bytes :: "pull_answer \<Rightarrow> bytes" where
  "pulled_bytes (Pull_Wrote scratch) = scratch"
| "pulled_bytes (Pull_Idle scratch) = []"
| "pulled_bytes (Pull_Finished scratch) = scratch"
| "pulled_bytes (Pull_Threw scratch) = scratch"

text \<open>The transports that successful or blocked writes lead to.\<close>

inductive writes :: "transport \<Rightarrow> transport \<Rightarrow> bool" for t where
  writes_none: "writes t t"
| writes_more: "writes t t1 \<Longrightarrow> transport_writev vectors t1 = (res, t2) \<Longrightarrow> \<not> is_terminal res \<Longrightarrow> writes t t2"

lemma writes_trans: "writes t1 t2 \<Longrightarrow> writes t t1 \<Longrightarrow> writes t t2"
  by (induction rule: writes.induct) (auto intro: writes_more)

lemma writes_sent: "writes t t' \<Longrightarrow> \<exists>more. transport_sent t' = transport_sent t @ more"
  by (induction rule: writes.induct) (auto dest: tp.send_sent)

text \<open>The transport \<open>t'\<close> was shut down because a write failed: from \<open>t\<close>, after writes that did not fail, the
  whole of the bytes \<open>lost\<close> was offered and the call returned an error.\<close>

definition write_failed :: "transport \<Rightarrow> transport \<Rightarrow> bytes \<Rightarrow> bool" where
  "write_failed t t' lost \<longleftrightarrow> (\<exists>t1 vectors res t2. writes t t1 \<and> concat vectors = lost \<and>
     transport_writev vectors t1 = (res, t2) \<and> is_terminal res \<and>
     t' = close_drain kCloseDrainPasses (snd (transport_shutdown t2)))"

definition source_ended :: "pull_answer list \<Rightarrow> bool" where
  "source_ended used \<longleftrightarrow> used \<noteq> [] \<and> (\<exists>scratch. last used \<in> {Pull_Finished scratch, Pull_Threw scratch})"

text \<open>From \<open>c\<close> to \<open>c'\<close> the pulls \<open>used\<close> were made, and their bytes were sent or are pending, in order.\<close>

definition streamed :: "connection \<Rightarrow> connection \<Rightarrow> pull_answer list \<Rightarrow> bool" where
  "streamed c c' used \<longleftrightarrow> cx_pulls c = used @ cx_pulls c' \<and> (cn_stream c = None \<longrightarrow> used = []) \<and>
     (let body = sent_and_pending c @ concat (map pulled_bytes used) in
      cn_state c' = Streaming \<and> writes (cn_transport c) (cn_transport c') \<and> sent_and_pending c' = body \<or>
      cn_state c' = Closing \<and> (cn_stream c = None \<or> source_ended used) \<and> transport_sent (cn_transport c') = body \<or>
      cn_state c' = Closing \<and> (\<exists>lost. write_failed (cn_transport c) (cn_transport c') lost \<and>
        transport_sent (cn_transport c') @ lost = body))"

lemma write_failed_trans: "write_failed t1 t' lost \<Longrightarrow> writes t t1 \<Longrightarrow> write_failed t t' lost"
  unfolding write_failed_def using writes_trans by blast

lemma source_ended_simps [simp]:
  "source_ended (answer # used) \<longleftrightarrow> (if used = [] then (\<exists>s. answer = Pull_Finished s \<or> answer = Pull_Threw s) else source_ended used)"
  "\<not> source_ended []"
  by (auto simp: source_ended_def)

lemma streamed_pull:
  assumes "streamed d c' used" "cx_pulls c = answer # cx_pulls d"
    and "sent_and_pending d = sent_and_pending c @ pulled_bytes answer"
    and "writes (cn_transport c) (cn_transport d)" "cn_stream c \<noteq> None" "cn_stream d = None \<longrightarrow> source_ended [answer]"
  shows "\<exists>used. streamed c c' used"
  using assms
  by (intro exI [of _ "answer # used"]) (auto simp: streamed_def Let_def intro: writes_trans write_failed_trans split: if_splits)

lemma close_now_transport:
  "cn_state c = Streaming \<Longrightarrow> cn_transport (snd (close_now cfg c)) =
     close_drain kCloseDrainPasses (snd (transport_shutdown (cn_transport c)))"
  "cn_state (snd (close_now cfg c)) = Closing" "cx_pulls (snd (close_now cfg c)) = cx_pulls c"
  by (simp_all add: close_now_def drive_close_def begin_close_def Let_def)

lemma stream_write_loop_bytes:
  assumes "stream_write_loop cfg c = (r, c')" "cn_state c = Streaming"
    and "cn_write_offset c \<le> length (concat (cn_write_vectors c))"
  shows "r = Some i \<Longrightarrow> streamed c c' []"
    "r = None \<Longrightarrow> transport_sent (cn_transport c') = sent_and_pending c \<and> cx_pulls c' = cx_pulls c \<and>
       cn_state c' = Streaming \<and> cn_stream c' = cn_stream c \<and> writes (cn_transport c) (cn_transport c')"
proof -
  let ?I = "\<lambda>d. sent_and_pending d = sent_and_pending c \<and> cx_pulls d = cx_pulls c \<and> cn_state d = Streaming \<and>
    cn_write_offset d \<le> length (concat (cn_write_vectors d)) \<and> cn_stream d = cn_stream c \<and>
    writes (cn_transport c) (cn_transport d)"
  have "(r = Some i \<longrightarrow> streamed c c' []) \<and>
    (r = None \<longrightarrow> transport_sent (cn_transport c') = sent_and_pending c \<and> cx_pulls c' = cx_pulls c \<and>
       cn_state c' = Streaming \<and> cn_stream c' = cn_stream c \<and> writes (cn_transport c) (cn_transport c'))"
  proof (rule stream_write_loop_outcome [OF assms(1), where I = ?I])
    fix d res t
    assume d: "?I d" "cn_write_offset d < length (concat (cn_write_vectors d))"
      "transport_writev (skip_vectors (cn_write_offset d) (cn_write_vectors d)) (cn_transport d) = (res, t)"
    note S = sent_and_pending_send [OF d(2,3)]
    have more: "writes (cn_transport c) t" if "\<not> is_terminal res"
      using d(1,3) that by (auto intro: writes_more)
    show "?I (stream_advance cfg (tr_bytes res) (d\<lparr>cn_transport := t\<rparr>))" if "0 < tr_bytes res"
    proof -
      have "\<not> is_terminal res" using that tp.send_failed [OF d(3)] by (auto simp: is_terminal_def)
      from more [OF this] show ?thesis using d(1) S by (auto simp: stream_advance_def) (auto simp: sent_and_pending_def)
    qed
    show ?thesis if c': "is_blocked res \<or> tr_bytes res = 0" "c' = stream_blocked cfg (d\<lparr>cn_transport := t\<rparr>)"
      "r = Some (if tr_status res = T_WantRead then Interest_Read else Interest_Write)" "\<not> is_terminal res"
    proof -
      have "tr_bytes res = 0" using c'(1) tp.send_failed [OF d(3)] by (auto simp: is_blocked_def)
      then have "sent_and_pending (d\<lparr>cn_transport := t\<rparr>) = sent_and_pending c"
        using S(1) d(1) by (simp add: sent_and_pending_def)
      moreover have "sent_and_pending c' = sent_and_pending (d\<lparr>cn_transport := t\<rparr>)" "cx_pulls c' = cx_pulls d"
        "cn_state c' = cn_state d" "cn_transport c' = t"
        by (simp_all add: c'(2) stream_blocked_def sent_and_pending_def)
      ultimately show ?thesis using d(1) c'(3) more [OF c'(4)] by (simp add: streamed_def)
    qed
    show ?thesis if c': "is_terminal res" "(r, c') = map_prod Some id (close_now cfg (d\<lparr>cn_transport := t\<rparr>))"
    proof -
      let ?batch = "skip_vectors (cn_write_offset d) (cn_write_vectors d)"
      have sent: "transport_sent t = transport_sent (cn_transport d)"
        using c'(1) by (intro tp.send_not_ok [OF d(3)]) (auto simp: is_terminal_def)
      have c'': "r \<noteq> None" "c' = snd (close_now cfg (d\<lparr>cn_transport := t\<rparr>))"
        using c'(2) by (auto simp: map_prod_def split: prod.splits)
      have st: "cn_state (d\<lparr>cn_transport := t\<rparr>) = Streaming" using d(1) by simp
      have "write_failed (cn_transport c) (cn_transport c') (concat ?batch)"
        unfolding write_failed_def c''(2) close_now_transport(1) [OF st] using d(1,3) c'(1) by fastforce
      moreover have "transport_sent (cn_transport c') @ concat ?batch = sent_and_pending c"
        using d(1) sent by (simp add: c''(2) sent_and_pending_def concat_skip_vectors)
      ultimately show ?thesis
        using c'' d(1) close_now_transport(2,3) by (auto simp: streamed_def Let_def)
    qed
  next
    assume "r = None" "?I c'" "length (concat (cn_write_vectors c')) \<le> cn_write_offset c'"
    then show ?thesis by (auto simp: sent_and_pending_def)
  qed (use assms writes_none in simp)
  then show "r = Some i \<Longrightarrow> streamed c c' []"
    "r = None \<Longrightarrow> transport_sent (cn_transport c') = sent_and_pending c \<and> cx_pulls c' = cx_pulls c \<and>
       cn_state c' = Streaming \<and> cn_stream c' = cn_stream c \<and> writes (cn_transport c) (cn_transport c')"
    by auto
qed

lemma queue_pulled_bytes:
  assumes "cn_write_vectors c = []" "cn_write_offset c = 0" "buffer_ok (cn_write_buffer c)" "readable (cn_write_buffer c) = []"
  shows "sent_and_pending (queue_pulled scratch c) = transport_sent (cn_transport c) @ scratch"
  using assms append_ok(2) [OF assms(3)] by (simp add: queue_pulled_def sent_and_pending_def Let_def)

lemma release_bytes [simp]: "sent_and_pending (release_stream_source c) = sent_and_pending c"
  by (simp add: sent_and_pending_def)

lemma streamed_now:
  assumes "transport_sent (cn_transport c2) = sent_and_pending c" "cx_pulls c = used @ cx_pulls c2"
    and "concat (map pulled_bytes used) = []" "cn_stream c = None \<longrightarrow> used = []" "writes (cn_transport c) (cn_transport c2)"
  shows "cn_state c2 = Streaming \<Longrightarrow> cn_write_vectors c2 = [] \<Longrightarrow> \<exists>used. streamed c c2 used"
    "cn_stream c = None \<or> source_ended used \<Longrightarrow> \<exists>used. streamed c (snd (close_now cfg c2)) used"
  using assms by (auto simp: streamed_def sent_and_pending_def close_now_transport(2,3) Let_def intro!: exI [of _ used])

lemma drive_stream_bytes:
  "cn_state c = Streaming \<Longrightarrow> cn_write_offset c \<le> length (concat (cn_write_vectors c)) \<Longrightarrow>
     \<exists>used. streamed c (snd (drive_stream cfg c)) used"
proof (induction cfg c rule: drive_stream.induct)
  case (1 cfg c)
  obtain r c' where loop: "stream_write_loop cfg c = (r, c')" by fastforce
  note W = stream_write_loop_bytes [OF loop 1(4,5)]
  show ?case
  proof (cases r)
    case (Some i)
    then show ?thesis using W(1) loop by (auto simp: drive_stream.simps [of cfg c])
  next
    case None
    define c1 where "c1 = (if length (concat (cn_write_vectors c)) > 0
      then arm_deadline (stream_liveness_budget cfg) (c'\<lparr>cn_stream_waiting_for_write_progress := False\<rparr>) else c')"
    define c2 where "c2 = clear_pending_writes c1"
    have c2: "transport_sent (cn_transport c2) = sent_and_pending c" "cx_pulls c2 = cx_pulls c" "cn_state c2 = Streaming"
      "cn_write_vectors c2 = []" "cn_write_offset c2 = 0" "buffer_ok (cn_write_buffer c2)" "readable (cn_write_buffer c2) = []"
      "cn_stream c2 = cn_stream c" "writes (cn_transport c) (cn_transport c2)"
      using W(2) None by (simp_all add: c2_def c1_def clear_pending_writes_def)
    note eq = drive_stream_drained [OF loop [unfolded None], folded c1_def, folded c2_def]
    note now = streamed_now [where used = "[]", OF c2(1)]
    show ?thesis
    proof (cases "cn_stream c2 = None \<or> cx_pulls c2 = []")
      case True
      then show ?thesis using now c2 by (auto simp: eq)
    next
      case False
      then obtain answer answers where Cons: "cx_pulls c2 = answer # answers" and ne: "\<not> cn_stream c2 = None"
        by (cases "cx_pulls c2") auto
      define c3 where "c3 = emit (Ev_Pulled (the (cn_stream c2))) (c2\<lparr>cx_pulls := answers\<rparr>)"
      have c3: "transport_sent (cn_transport c3) = sent_and_pending c" "cx_pulls c = [answer] @ cx_pulls c3"
        "cn_state c3 = Streaming" "cn_write_vectors c3 = []" "cn_write_offset c3 = 0" "buffer_ok (cn_write_buffer c3)"
        "readable (cn_write_buffer c3) = []" "writes (cn_transport c) (cn_transport c3)" "cn_stream c3 = cn_stream c"
        using c2 Cons by (simp_all add: c3_def emit_def)
      note empty = streamed_now [where used = "[answer]", OF c3(1,2)]
      have q: "sent_and_pending (queue_pulled scratch c3) = sent_and_pending c @ scratch"
        "cn_state (queue_pulled scratch c3) = Streaming" "cx_pulls (queue_pulled scratch c3) = cx_pulls c3"
        "cn_write_offset (queue_pulled scratch c3) = 0" "cn_transport (queue_pulled scratch c3) = cn_transport c3"
        "cn_stream (queue_pulled scratch c3) = cn_stream c" for scratch
        using queue_pulled_bytes [OF c3(4-7)] c3 by (simp_all add: queue_pulled_def Let_def)
      note IH = 1(1) [OF loop [symmetric] None c1_def c2_def ne Cons c3_def]
        1(2) [OF loop [symmetric] None c1_def c2_def ne Cons c3_def]
        1(3) [OF loop [symmetric] None c1_def c2_def ne Cons c3_def]
      show ?thesis
      proof (cases "pulled_bytes answer = []")
        case True
        then have "concat (map pulled_bytes [answer]) = []" "cn_stream c = None \<longrightarrow> [answer] = []" using ne c2(8) by simp_all
        note now = empty(1) [OF this c3(8) c3(3,4)] empty(2) [OF this c3(8), of cfg]
        show ?thesis using now True ne Cons
          by (cases answer) (auto simp: eq c3_def [symmetric] Let_def)
      next
        case False
        let ?q = "queue_pulled (pulled_bytes answer) c3"
        let ?d = "if \<exists>s. answer = Pull_Wrote s then ?q else release_stream_source ?q"
        have "drive_stream cfg c = drive_stream cfg ?d"
          using False ne Cons by (cases answer) (auto simp: eq c3_def [symmetric] Let_def)
        moreover have "\<exists>used. streamed ?d (snd (drive_stream cfg ?d)) used"
          using IH False q by (cases answer) auto
        moreover have "cx_pulls c = answer # cx_pulls ?d" "sent_and_pending ?d = sent_and_pending c @ pulled_bytes answer"
          using q c3(2) by simp_all
        moreover have "writes (cn_transport c) (cn_transport ?d)" "cn_stream c \<noteq> None"
          "cn_stream ?d = None \<longrightarrow> source_ended [answer]"
          using q c3(8) ne c2(8) False by (cases answer; simp)+
        ultimately show ?thesis using streamed_pull by metis
      qed
    qed
  qed
qed

text \<open>C16: a stream's bytes reach the wire in the order they were pulled, none lost and none repeated: what
  was sent and is pending grows by exactly the bytes of the pulls a step made. The step closes the
  connection only when the source was released before or its last pull ended it, and then all of the
  bytes have been sent, or when a write failed: some call of the transport's \<open>writev\<close>, after writes from
  the connection's transport that did not fail, was offered exactly the bytes that were not sent and
  returned an error, and the transport is the one that call left, shut down. The bound on the offset is
  part of the invariant.\<close>

theorem stream_bytes_in_order:
  assumes "cn_state c = Streaming" and "cn_write_offset c \<le> length (concat (cn_write_vectors c))"
    and "drive_stream cfg c = (interest, c')"
  shows "\<exists>used. cx_pulls c = used @ cx_pulls c' \<and>
    (let body = sent_and_pending c @ concat (map pulled_bytes used) in
     cn_state c' = Streaming \<and> sent_and_pending c' = body \<or>
     cn_state c' = Closing \<and> (cn_stream c = None \<or> source_ended used) \<and> transport_sent (cn_transport c') = body \<or>
     cn_state c' = Closing \<and> (\<exists>lost. write_failed (cn_transport c) (cn_transport c') lost \<and>
       transport_sent (cn_transport c') @ lost = body))"
  using drive_stream_bytes [OF assms(1,2), of cfg] assms(3) by (auto simp: streamed_def Let_def)

definition streaming_connection :: connection where
  "streaming_connection = sample_outside\<lparr>cn_state := Streaming, cn_stream := Some 7,
     cn_write_vectors := [''abc''], cn_write_offset := 1,
     cn_transport := sample_socket [] [Send_Accepts 1, Send_Accepts 5], cx_pulls := [Pull_Idle []]\<rparr>"

theorem stream_bytes_in_order_witness:
  "sent_and_pending (snd (drive_stream sample_config streaming_connection)) = ''bc'' \<and>
   cn_state (snd (drive_stream sample_config streaming_connection)) = Streaming"
proof -
  have d: "cn_state (snd (drive_stream sample_config streaming_connection)) = Streaming"
    "cx_pulls (snd (drive_stream sample_config streaming_connection)) = []" by code_simp+
  have s: "sent_and_pending streaming_connection = ''bc''" "cx_pulls streaming_connection = [Pull_Idle []]" by code_simp+
  from stream_bytes_in_order [OF _ _ prod.collapse [symmetric], of streaming_connection sample_config] s d show ?thesis
    by (auto simp: streaming_connection_def sample_outside_def Let_def)
qed

section \<open>Progress\<close>

lemma drive_write_leaves:
  assumes "conn_ok cfg c" "cn_state c = Writing" "write_loop cfg c = (None, d)"
  shows "cn_state (snd (drive_write cfg c)) \<in> {ReadingHeaders, Streaming, Closing}"
proof -
  have d: "conn_ok cfg d" "cn_state d = Writing"
    by (rule write_loop_outcome [OF assms(3), where I = "\<lambda>d. conn_ok cfg d \<and> cn_state d = Writing"];
        use assms(1,2) write_advance_ok in simp)+
  have "cn_state (snd (close_now cfg x)) = Closing" for x by (simp add: close_now_def drive_close_def begin_close_def Let_def)
  moreover have "cn_state (prepare_next_request cfg x) = ReadingHeaders" for x by (simp add: prepare_next_request_def Let_def)
  moreover have "cn_state (snd (attach_stream cfg s d)) \<in> {Streaming, Closing}" if "cn_stream d = Some s" for s
    using attach_stream_ok [OF d that] by simp
  ultimately show ?thesis by (auto simp: drive_write_def assms(3) Let_def)
qed

definition accepting :: "send_answer list \<Rightarrow> bool" where
  "accepting answers \<longleftrightarrow> (\<forall>a \<in> set answers. \<exists>k. a = Send_Accepts (Suc k))"

lemma accepting_simps [simp]:
  "accepting []" "accepting (a # answers) \<longleftrightarrow> (\<exists>k. a = Send_Accepts (Suc k)) \<and> accepting answers"
  by (auto simp: accepting_def)

text \<open>A kernel that takes something of every call, often enough, takes something of a batch and leaves
  enough answers for the rest.\<close>

lemma write_vectors_loop_accepting:
  "accepting answers \<Longrightarrow> length (concat vectors) - start \<le> length answers \<Longrightarrow>
     \<exists>n answers' sent'. write_vectors_loop vectors start answers sent = (Inr n, answers', sent') \<and>
       accepting answers' \<and> length (concat vectors) - n \<le> length answers' \<and> start \<le> n \<and>
       (start < length (concat vectors) \<longrightarrow> start < n)"
proof (induction vectors start answers sent rule: write_vectors_loop.induct)
  case (1 vectors start sent)
  then show ?case by (simp add: skip_vectors_Nil_iff)
next
  case (2 vectors start answer answers sent)
  define batch where "batch = take kWriteBatchCapacity (skip_vectors start vectors)"
  show ?case
  proof (cases "batch = []")
    case True
    then have "skip_vectors start vectors = []" by (auto simp: batch_def kWriteBatchCapacity_def)
    then show ?thesis using 2(3) True 2(4) by (auto simp: skip_vectors_Nil_iff batch_def [symmetric])
  next
    case False
    obtain k where k: "answer = Send_Accepts (Suc k)" using 2(3) by auto
    let ?data = "concat batch"
    have "hd batch \<in> set (skip_vectors start vectors)"
      using False hd_in_set [OF False] by (auto simp: batch_def dest: in_set_takeD)
    then have pos: "0 < length ?data"
      using skip_vectors_nonempty [of start vectors] hd_in_set [OF False] by fastforce
    have "length ?data \<le> length (concat vectors) - start"
      unfolding batch_def length_drop [symmetric] concat_skip_vectors [symmetric]
      by (metis append_take_drop_id concat_append le_add1 length_append)
    with pos have le: "start + length ?data \<le> length (concat vectors)" by linarith
    show ?thesis
    proof (cases "Suc k < length ?data")
      case True
      then show ?thesis
        using 2(3,4) False k le by (auto simp: batch_def [symmetric] Let_def)
    next
      case False
      then have w: "min (Suc k) (length ?data) = length ?data" by simp
      have step: "write_vectors_loop vectors start (answer # answers) sent =
          write_vectors_loop vectors (start + length ?data) answers (sent @ ?data)"
        using \<open>batch \<noteq> []\<close> k w by (simp add: batch_def [symmetric] Let_def)
      have "length (concat vectors) - start \<le> Suc (length answers)" using 2(4) by simp
      with pos le have "length (concat vectors) - (start + length ?data) \<le> length answers" by linarith
      moreover have "accepting answers" using 2(3) by simp
      ultimately
      obtain n answers' sent' where r: "write_vectors_loop vectors (start + length ?data) answers (sent @ ?data) = (Inr n, answers', sent')"
        "accepting answers'" "length (concat vectors) - n \<le> length answers'" "start + length ?data \<le> n"
        using 2(1) [OF batch_def \<open>batch \<noteq> []\<close> k refl refl] unfolding w by auto
      moreover from r(4) pos have "start < n" by linarith
      ultimately show ?thesis unfolding step by (intro exI [of _ n] exI [of _ answers'] exI [of _ sent']) simp
    qed
  qed
qed

lemma plain_writev_accepting:
  assumes "accepting (so_send so)" "length (concat vectors) \<le> length (so_send so)" "concat vectors \<noteq> []"
  obtains res so' where "plain_writev vectors so = (res, so')" "0 < tr_bytes res" "accepting (so_send so')"
    "length (concat vectors) - tr_bytes res \<le> length (so_send so')"
proof -
  obtain n answers' sent' where "write_vectors_loop vectors 0 (so_send so) (so_sent so) = (Inr n, answers', sent')"
    "accepting answers'" "length (concat vectors) - n \<le> length answers'" "0 < n"
    using write_vectors_loop_accepting [OF assms(1), of vectors 0] assms(2,3) by fastforce
  moreover have "vectors \<noteq> []" using assms(3) by auto
  ultimately show thesis
    by (intro that [of "tr_ok n" "so\<lparr>so_send := answers', so_sent := sent'\<rparr>"])
      (simp_all add: plain_writev_def write_vectors_def tr_defs)
qed

definition socket_accepts :: "connection \<Rightarrow> bool" where
  "socket_accepts c \<longleftrightarrow> (\<exists>so. cn_transport c = Transport_Plain so \<and> accepting (so_send so) \<and>
     length (concat (cn_write_vectors c)) - cn_write_offset c \<le> length (so_send so))"

lemma socket_accepts_send:
  assumes "socket_accepts c" "cn_write_offset c < length (concat (cn_write_vectors c))"
    and "transport_writev (skip_vectors (cn_write_offset c) (cn_write_vectors c)) (cn_transport c) = (res, t)"
  shows "0 < tr_bytes res" "socket_accepts (write_advance cfg (tr_bytes res) (c\<lparr>cn_transport := t\<rparr>))"
proof -
  obtain so where so: "cn_transport c = Transport_Plain so" "accepting (so_send so)"
    "length (concat (cn_write_vectors c)) - cn_write_offset c \<le> length (so_send so)"
    using assms(1) by (auto simp: socket_accepts_def)
  let ?batch = "skip_vectors (cn_write_offset c) (cn_write_vectors c)"
  have len: "length (concat ?batch) = length (concat (cn_write_vectors c)) - cn_write_offset c"
    by (simp add: concat_skip_vectors)
  then have "concat ?batch \<noteq> []" using assms(2) by (metis length_greater_0_conv zero_less_diff)
  then obtain res' so' where w: "plain_writev ?batch so = (res', so')" "0 < tr_bytes res'" "accepting (so_send so')"
    "length (concat ?batch) - tr_bytes res' \<le> length (so_send so')"
    using plain_writev_accepting [OF so(2), of ?batch] so(3) len by metis
  have eq: "res = res'" "t = Transport_Plain so'" using assms(3) w(1) so(1) by (simp_all add: transport_writev_def)
  show "0 < tr_bytes res" using w(2) eq by simp
  show "socket_accepts (write_advance cfg (tr_bytes res) (c\<lparr>cn_transport := t\<rparr>))"
    using w(3,4) len eq by (auto simp: socket_accepts_def)
qed

lemma write_loop_accepted:
  assumes "socket_accepts c" "write_loop cfg c = (r, c')" shows "r = None"
proof (rule write_loop_outcome [OF assms(2), where I = socket_accepts])
  fix d res t
  assume "socket_accepts d" "cn_write_offset d < length (concat (cn_write_vectors d))"
    "transport_writev (skip_vectors (cn_write_offset d) (cn_write_vectors d)) (cn_transport d) = (res, t)"
  note S = socket_accepts_send [OF this]
  show "socket_accepts (write_advance cfg (tr_bytes res) (d\<lparr>cn_transport := t\<rparr>))" by (rule S)
  show "tr_bytes res = 0 \<Longrightarrow> r = None" using S(1) by simp
qed (use assms(1) in simp_all)

text \<open>What a stream that was just attached sends comes after the head.\<close>

lemma drive_stream_extends:
  assumes "cn_state c = Streaming" "cn_write_vectors c = []" "cn_write_offset c = 0"
  shows "\<exists>more. transport_sent (cn_transport (snd (drive_stream cfg c))) = transport_sent (cn_transport c) @ more"
proof -
  let ?c' = "snd (drive_stream cfg c)"
  have pending: "sent_and_pending c = transport_sent (cn_transport c)" using assms(2) by (simp add: sent_and_pending_def)
  have failed: "\<exists>more. transport_sent t' = transport_sent (cn_transport c) @ more"
    if f: "write_failed (cn_transport c) t' lost" for t' lost
  proof -
    obtain t1 vectors res t2 where w: "writes (cn_transport c) t1" "transport_writev vectors t1 = (res, t2)"
      "t' = close_drain kCloseDrainPasses (snd (transport_shutdown t2))"
      using f unfolding write_failed_def by blast
    then show ?thesis using writes_sent [OF w(1)] tp.send_sent [OF w(2)] by auto
  qed
  obtain used where u: "streamed c ?c' used" using drive_stream_bytes [OF assms(1), of cfg] assms(2,3) by auto
  then show ?thesis
    using pending failed writes_sent by (auto simp: streamed_def Let_def)
qed

lemma drive_write_sends:
  assumes "conn_ok cfg c" "cn_state c = Writing" "write_loop cfg c = (None, d)"
  shows "\<exists>more. transport_sent (cn_transport (snd (drive_write cfg c))) = sent_and_pending c @ more \<and>
    (cn_stream c = None \<longrightarrow> more = [])"
proof -
  have "cn_write_offset c \<le> length (concat (cn_write_vectors c))" using assms(1,2) by (auto simp: conn_ok_def pending_ok_def)
  note W = write_loop_same_response [OF assms(3) this]
  have d: "transport_sent (cn_transport d) = sent_and_pending c" "cn_stream d = cn_stream c"
    using W(1,2) by (simp_all add: same_response_def)
  have attach: "\<exists>more. transport_sent (cn_transport (snd (attach_stream cfg s d))) = transport_sent (cn_transport d) @ more" for s
  proof -
    let ?d = "d\<lparr>cn_write_vectors := [], cn_write_offset := 0, cn_write_buffer := clear (cn_write_buffer d),
      cn_pending_response := None, cn_notifier := True, cx_events := cx_events d @ [Ev_Attached s],
      cx_attach_throws := tl (cx_attach_throws d)\<rparr>"
    have "attach_stream cfg s d \<in> {close_now cfg ?d, drive_stream cfg (enter_state cfg Streaming ?d)}"
      by (simp add: attach_stream_def Let_def clear_pending_writes_def emit_def)
    then show ?thesis using drive_stream_extends [of "enter_state cfg Streaming ?d" cfg] by auto
  qed
  show ?thesis
  proof (cases "(case cn_pending_response d of Some r \<Rightarrow> is_stream r | None \<Rightarrow> False) \<and> cn_stream d \<noteq> None \<and>
      req_method (cn_request d) \<noteq> Method_Head")
    case True
    then have "drive_write cfg c = attach_stream cfg (the (cn_stream d)) d" by (simp add: drive_write_def assms(3) Let_def)
    then show ?thesis using attach [of "the (cn_stream d)"] d True by auto
  next
    case False
    then have "drive_write cfg c = close_now cfg (response_finished cfg d) \<or>
        drive_write cfg c = (Interest_Read, prepare_next_request cfg (response_finished cfg d))"
      by (auto simp: drive_write_def assms(3) Let_def)
    then show ?thesis using d by auto
  qed
qed


section \<open>A concrete connection\<close>

text \<open>Over a plain socket with nothing to read, the first step leaves the connection waiting for a head.\<close>

lemma sample_fields:
  "cn_state (sample_connection input output) = Handshaking"
  "cn_read_buffer (sample_connection input output) = make_buffer 4096"
  "cn_request_parser (sample_connection input output) = new_parser"
  "cn_transport (sample_connection input output) = sample_socket input output"
  "cn_requests_served (sample_connection input output) = 0"
  "cn_saw_any_bytes (sample_connection input output) = False"
  by (simp_all add: sample_connection_def new_connection_def enter_state_def kInitialBufferBytes_def)

lemma sample_step:
  "conn_step sample_config 1 (sample_connection input output) =
     drive_read_headers sample_config (enter_state sample_config ReadingHeaders
       ((sample_connection input output)\<lparr>cn_transport := sample_socket input output,
          cn_request := set_secure False (cn_request (sample_connection input output))\<rparr>))"
  by (simp add: conn_step_def kTerminalEvents_def sample_fields drive_handshake_def transport_handshake_def
      sample_socket_def plain_handshake_def tr_defs transport_is_secure_def)

lemma make_buffer_fields [simp]:
  "writable_capacity (make_buffer n) = n" "buffer_empty (make_buffer n)" "buffer_size (make_buffer n) = 0"
  by (simp_all add: make_buffer_def writable_capacity_def buffer_empty_def buffer_size_def)

lemma read_chunk_idle:
  assumes "cn_transport c = sample_socket [] output" "writable_capacity (cn_read_buffer c) = 4096"
  shows "read_chunk c = (tr_want_read, c\<lparr>cn_read_buffer := copy_into_tail [] (cn_read_buffer c), cn_transport := cn_transport c\<rparr>)"
  using assms by (simp add: read_chunk_def writable_tail_def kReadChunkBytes_def transport_read_def sample_socket_def
      plain_read_def)

lemma read_headers_idle:
  assumes "cn_transport c = sample_socket [] output" "cn_read_buffer c = make_buffer 4096"
  shows "drive_read_headers cfg c =
    (Interest_Read, c\<lparr>cn_read_buffer := copy_into_tail [] (cn_read_buffer c), cn_transport := cn_transport c\<rparr>)"
proof -
  have r: "read_chunk c = (tr_want_read, c\<lparr>cn_read_buffer := copy_into_tail [] (cn_read_buffer c), cn_transport := cn_transport c\<rparr>)"
    using assms by (intro read_chunk_idle) simp_all
  have "parse_if_buffered cfg c = (Inl NeedsMoreData, c)" "buffer_empty (cn_read_buffer c)"
    using assms by (simp_all add: parse_if_buffered_def)
  then have h: "read_head_loop cfg c = (Head_Returned Interest_Read, snd (read_chunk c))"
    by (subst read_head_loop.simps) (simp add: r tr_defs)
  have k: "kMaxPipelinedRequestsPerStep = Suc 7" by (simp add: kMaxPipelinedRequestsPerStep_def)
  show ?thesis unfolding drive_read_headers_def k read_headers_passes.simps(2) h by (simp add: r)
qed

lemma idle_step:
  "fst (conn_step sample_config 1 (sample_connection [] output)) = Interest_Read"
  "cn_state (snd (conn_step sample_config 1 (sample_connection [] output))) = ReadingHeaders"
  "cn_requests_served (snd (conn_step sample_config 1 (sample_connection [] output))) = 0"
  unfolding sample_step by (subst read_headers_idle; simp add: sample_fields)+

theorem no_request_stranded_witness:
  "readable (cn_read_buffer (snd (conn_step sample_config 1 (sample_connection [] [])))) = [] \<or>
   head_extent (read_view sample_config (snd (conn_step sample_config 1 (sample_connection [] []))))
     (opt_limits (cf_options sample_config)) = Inl NeedsMoreData"
  using no_request_stranded [OF sample_run _ prod.collapse [symmetric] idle_step(2), of "[]"] idle_step(1) [of "[]"]
  by (simp add: kTerminalEvents_def)

text \<open>The same connection, waiting, over a socket that takes a byte of every call.\<close>

definition ready_connection :: "nat \<Rightarrow> connection" where
  "ready_connection n = (snd (conn_step sample_config 1 (sample_connection [] [])))
     \<lparr>cn_transport := sample_socket [] (replicate n (Send_Accepts 1)), cx_ticks := [], cx_pulls := [],
      cx_attach_throws := []\<rparr>"

lemma ready_fields:
  "cn_state (ready_connection n) = ReadingHeaders" "cn_requests_served (ready_connection n) = 0"
  "cn_transport (ready_connection n) = sample_socket [] (replicate n (Send_Accepts 1))"
  by (simp_all add: ready_connection_def idle_step)

lemma idle_transport:
  "cn_transport (snd (conn_step sample_config 1 (sample_connection [] output))) = sample_socket [] output"
  unfolding sample_step by (subst read_headers_idle; simp add: sample_fields)

lemma ready_run: "connection_run sample_config (ready_connection n)"
  unfolding ready_connection_def
  by (rule run_world [OF run_step [OF sample_run]])
    (simp_all add: idle_transport sample_socket_def transport_sent_def transport_is_secure_def)

lemma ready_details:
  "cn_request (ready_connection n) = set_secure False (set_secure False (set_peer default_peer default_request))"
  "cn_peer (ready_connection n) = default_peer" "cx_now (ready_connection n) = 0" "cx_ticks (ready_connection n) = []"
  unfolding ready_connection_def sample_step
  by (subst read_headers_idle; simp add: sample_fields sample_connection_def new_connection_def sample_outside_def
      enter_state_def arm_deadline_def read_clock_def sample_socket_def transport_is_secure_def kInitialBufferBytes_def)+

lemma ready_ok: "conn_ok sample_config (ready_connection n)"
  using ready_run by (rule connection_run_ok)

text \<open>Over that socket a serialized response of at most that many bytes is written at once.\<close>

lemma serialized_leaves:
  assumes "conn_ok cfg (enter_state cfg Writing (dispatch_and_serialize cfg c))" "buffer_ok (cn_write_buffer c)"
    and "cn_pending_response (dispatch_request cfg c) = Some response"
    and "cn_transport c = sample_socket [] (replicate n (Send_Accepts 1))"
    and "length (response_bytes cfg (cn_request (dispatch_request cfg c)) response
      (response_options cfg response (dispatch_and_serialize cfg c))) \<le> n"
  shows "cn_state (snd (drive_write cfg (enter_state cfg Writing (dispatch_and_serialize cfg c)))) \<noteq> Writing"
proof -
  let ?w = "enter_state cfg Writing (dispatch_and_serialize cfg c)"
  note P = dispatch_and_serialize_pending [OF assms(2,3)]
  have "length (concat (cn_write_vectors ?w)) \<le> n"
    using P(1,3,5,6) assms(4,5) by (simp add: sent_and_pending_def)
  moreover have "accepting (replicate n (Send_Accepts 1))" by (simp add: accepting_def)
  ultimately have "socket_accepts ?w" using P(6) assms(4) by (simp add: socket_accepts_def sample_socket_def)
  moreover obtain r d where loop: "write_loop cfg ?w = (r, d)" by fastforce
  ultimately have "r = None" by (rule write_loop_accepted)
  with drive_write_leaves [OF assms(1) _ loop [unfolded this]] show ?thesis by auto
qed

definition plain_options :: encoding_options where
  "plain_options = \<lparr>server_header = [], opt_keep_alive = False, opt_secure = False, strict_transport_security = False,
     hsts_max_age_seconds = 0\<rparr>"

definition error_request :: request where
  "error_request = set_received_at 0 (set_secure False (set_peer default_peer (request_reset
     (set_secure False (set_secure False (set_peer default_peer default_request))))))"

definition error_bytes :: bytes where
  "error_bytes = response_bytes sample_config error_request
     (response_text (reason_phrase Status_BadRequest @ [CHR 0x0A]) Status_BadRequest) plain_options"

theorem parse_error_closes_witness:
  "cn_state (snd (drive_write sample_config (answer_parse_error sample_config MalformedRequestLine (ready_connection (length error_bytes))))) =
     Closing"
proof -
  let ?d = "error_connection Status_BadRequest (emit_metric sample_config M_Rejected_Parse (ready_connection (length error_bytes)))"
  have st: "status_for MalformedRequestLine = Status_BadRequest" by (simp add: status_for_def)
  have eq: "answer_parse_error sample_config MalformedRequestLine (ready_connection (length error_bytes)) =
      enter_state sample_config Writing (dispatch_and_serialize sample_config ?d)"
    by (simp add: answer_parse_error_def serialize_error_eq st)
  have ok: "conn_ok sample_config (answer_parse_error sample_config MalformedRequestLine (ready_connection (length error_bytes)))"
    using answer_parse_error_ok(1) [OF ready_ok] ready_fields(1) by (simp add: reading_def)
  have b: "buffer_ok (cn_write_buffer ?d)" using ready_ok by (simp add: conn_ok_def)
  have "cn_state (snd (drive_write sample_config (answer_parse_error sample_config MalformedRequestLine (ready_connection (length error_bytes))))) \<noteq> Writing"
    unfolding eq
  proof (rule serialized_leaves [OF ok [unfolded eq] b error_connection_dispatched(1), where n = "length error_bytes"])
    have q: "cn_request ?d = error_request" "emit_metric sample_config m x = x" for m x
      by (simp_all add: error_connection_def ready_details ready_fields read_clock_def error_request_def sample_socket_def
          transport_is_secure_def emit_metric_def sample_config_def)
    have "response_options sample_config res (dispatch_and_serialize sample_config ?d) = plain_options"
      if "cn_pending_response (dispatch_request sample_config ?d) = Some res" for res
      using dispatch_and_serialize_pending(3,6) [OF b that] error_connection_dispatched(2,4)
      by (simp add: response_options_def plain_options_def sample_config_def ready_fields sample_socket_def transport_is_secure_def)
    then show "length (response_bytes sample_config (cn_request (dispatch_request sample_config ?d))
        (response_text (reason_phrase Status_BadRequest @ [CHR 0x0A]) Status_BadRequest)
        (response_options sample_config (response_text (reason_phrase Status_BadRequest @ [CHR 0x0A]) Status_BadRequest)
          (dispatch_and_serialize sample_config ?d))) \<le> length error_bytes"
      using error_connection_dispatched(1,2) q by (simp add: error_bytes_def)
  qed (simp add: ready_fields)
  then show ?thesis
    using parse_error_closes [OF ready_run _ prod.collapse [symmetric]] ready_fields(1) by blast
qed

text \<open>A request line without a space is rejected, and over a socket that takes nothing the answer waits.\<close>

definition bad_head :: bytes where "bad_head = ''x'' @ kHeaderTerminator"

lemma bad_head_parse:
  assumes "view_text buf = bad_head"
  shows "parse env buf sample_limits new_parser = (Inl MalformedRequestLine, new_parser)"
proof -
  have "find_str kHeaderTerminator bad_head = Some 1" "find_str kCrlf bad_head = Some 1" "\<not> starts_with bad_head kCrlf"
    by code_simp+
  then have "head_extent buf sample_limits = Inr (0, 1, 1)"
    using assms by (simp add: head_extent_Inr sample_limits_def)
  moreover have "find_char (CHR '' '') (take 1 bad_head) = None" by code_simp
  ultimately show ?thesis
    using assms by (simp add: parse_def new_parser_def parse_head_def build_request_def parse_request_line_def)
qed

lemma read_chunk_bad:
  assumes "cn_transport c = sample_socket [Recv_Bytes bad_head] []" "cn_read_buffer c = make_buffer 4096"
  shows "read_chunk c = (tr_ok (length bad_head), c\<lparr>cn_read_buffer := copy_into_tail bad_head (make_buffer 4096),
     cn_transport := sample_socket [] []\<rparr>)"
proof -
  have "length bad_head = 5" "bad_head \<noteq> []" by code_simp+
  then show ?thesis
    using assms by (simp add: read_chunk_def writable_tail_def kReadChunkBytes_def transport_read_def sample_socket_def
      plain_read_def)
qed

lemma read_head_bad:
  assumes "cn_transport c = sample_socket [Recv_Bytes bad_head] []" "cn_read_buffer c = make_buffer 4096"
    "cn_request_parser c = new_parser" "cn_state c = ReadingHeaders" "conn_ok sample_config c"
  obtains d where "read_head_loop sample_config c = (Head_Answered, answer_parse_error sample_config MalformedRequestLine d)"
    "cn_transport d = sample_socket [] []" "cn_state d = ReadingHeaders" "conn_ok sample_config d"
proof -
  note r = read_chunk_bad [OF assms(1,2)]
  define c2 where "c2 = c\<lparr>cn_read_buffer := copy_into_tail bad_head (make_buffer 4096), cn_transport := sample_socket [] []\<rparr>"
  define c3 where "c3 = note_first_bytes sample_config (commit_chunk (length bad_head) c2)"
  have len: "length bad_head = 5" by code_simp
  have p: "parse_if_buffered sample_config c = (Inl NeedsMoreData, c)" "buffer_empty (cn_read_buffer c)"
    using assms(2) by (simp_all add: parse_if_buffered_def)
  have one: "read_head_loop sample_config c = read_head_loop sample_config c3"
    unfolding read_head_loop.simps [of sample_config c] c3_def c2_def by (simp add: p r tr_ok_def is_terminal_def len)
  have "cn_read_buffer c3 = commit 5 (copy_into_tail bad_head (make_buffer 4096))"
    by (simp add: c3_def note_first_bytes_def commit_chunk_def c2_def len Let_def)
  then have rb: "readable (cn_read_buffer c3) = bad_head" "buffer_ok (cn_read_buffer c3)"
    using copy_commit_ok [OF make_buffer_ok(1), of bad_head 4096] len by simp_all
  have ne: "\<not> buffer_empty (cn_read_buffer c3)" using rb len by (auto simp: buffer_empty_iff)
  have c3p: "cn_request_parser c3 = new_parser" "cn_transport c3 = sample_socket [] []" "cn_state c3 = ReadingHeaders"
    using assms(3,4) by (simp_all add: c3_def note_first_bytes_def commit_chunk_def c2_def Let_def)
  have "opt_limits (cf_options sample_config) = sample_limits" by (simp add: sample_config_def)
  then have "parse_buffered sample_config c3 = (Inl MalformedRequestLine, c3\<lparr>cn_request_parser := new_parser\<rparr>)"
    using bad_head_parse [of "read_view sample_config c3"] rb c3p by (simp add: parse_buffered_def read_view_def)
  then have two: "read_head_loop sample_config c3 =
      (Head_Answered, answer_parse_error sample_config MalformedRequestLine (c3\<lparr>cn_request_parser := new_parser\<rparr>))"
    using ne by (simp add: read_head_loop.simps [of sample_config c3] parse_if_buffered_def)
  have "buffer_size (cn_read_buffer c) \<le> request_bound (opt_limits (cf_options sample_config))" using assms(2) by simp
  with read_chunk_ok(3) [OF assms(5) _ r] assms(4) have "conn_ok sample_config (commit_chunk (length bad_head) c2)"
    by (simp add: reading_def tr_ok_def c2_def)
  moreover have "cn_state (commit_chunk (length bad_head) c2) = ReadingHeaders" using assms(4) by (simp add: commit_chunk_def c2_def)
  ultimately have "conn_ok sample_config c3" unfolding c3_def by (rule note_first_bytes_ok)
  then have "conn_ok sample_config (c3\<lparr>cn_request_parser := new_parser\<rparr>)" using c3p by (simp add: conn_ok_reading reading_def)
  then show thesis using one two c3p by (intro that [of "c3\<lparr>cn_request_parser := new_parser\<rparr>"]) simp_all
qed

lemma drive_write_blocked:
  assumes "conn_ok cfg c" "cn_state c = Writing" "cn_transport c = sample_socket input []"
    "cn_write_offset c < length (concat (cn_write_vectors c))"
  shows "drive_write cfg c = (Interest_Write, c\<lparr>cn_transport := cn_transport c\<rparr>)"
proof -
  let ?batch = "skip_vectors (cn_write_offset c) (cn_write_vectors c)"
  have "?batch \<noteq> []" "skip_vectors 0 ?batch \<noteq> []"
    using assms(4) by (simp_all add: skip_vectors_Nil_iff concat_skip_vectors)
  then have "transport_writev ?batch (cn_transport c) = (tr_want_write, cn_transport c)"
    by (simp add: assms(3) sample_socket_def transport_writev_def plain_writev_def write_vectors_def errno_means_would_block_def)
  then show ?thesis
    using assms(4) \<open>?batch \<noteq> []\<close> by (simp add: drive_write_def write_loop.simps [of cfg c] tr_defs)
qed

lemma answer_parse_error_pending:
  fixes e :: parse_error
  assumes "conn_ok cfg c"
  defines "w \<equiv> answer_parse_error cfg e c"
  shows "cn_write_offset w < length (concat (cn_write_vectors w))" "cn_transport w = cn_transport c" "cn_stream w = cn_stream c"
proof -
  let ?d = "error_connection (status_for e) (emit_metric cfg M_Rejected_Parse c)"
  have b: "buffer_ok (cn_write_buffer ?d)" using assms by (simp add: conn_ok_def)
  have eq: "w = enter_state cfg Writing (dispatch_and_serialize cfg ?d)"
    by (simp add: w_def answer_parse_error_def serialize_error_eq)
  note P = dispatch_and_serialize_pending [OF b error_connection_dispatched(1)]
  have "concat (cn_write_vectors w) \<noteq> []" using P(1,5,6) by (auto simp: eq sent_and_pending_def response_bytes_def kCrlf_def)
  then show "cn_write_offset w < length (concat (cn_write_vectors w))" using P(5) by (simp add: eq)
  show "cn_transport w = cn_transport c" using P(6) by (simp add: eq)
  show "cn_stream w = cn_stream c"
    by (rule dispatch_and_serialize_cases [of cfg ?d])
      (auto simp: eq error_connection_dispatched)
qed

definition waiting_connection :: connection where
  "waiting_connection = snd (conn_step sample_config 1 (sample_connection [Recv_Bytes bad_head] []))"

lemma waiting_fields:
  "cn_state waiting_connection = Writing" "cn_transport waiting_connection = sample_socket [] []"
  "cn_stream waiting_connection = None"
proof -
  let ?c = "enter_state sample_config ReadingHeaders ((sample_connection [Recv_Bytes bad_head] [])
    \<lparr>cn_transport := sample_socket [Recv_Bytes bad_head] [],
     cn_request := set_secure False (cn_request (sample_connection [Recv_Bytes bad_head] []))\<rparr>)"
  have "conn_ok sample_config (sample_connection [Recv_Bytes bad_head] [])" by (rule connection_run_ok [OF sample_run])
  then have "conn_ok sample_config ?c" by (simp add: conn_ok_reading reading_def sample_fields)
  then obtain d where d: "read_head_loop sample_config ?c = (Head_Answered, answer_parse_error sample_config MalformedRequestLine d)"
    "cn_transport d = sample_socket [] []" "cn_state d = ReadingHeaders" "conn_ok sample_config d"
    using read_head_bad [of ?c] by (simp add: sample_fields) blast
  let ?w = "answer_parse_error sample_config MalformedRequestLine d"
  have rd: "reading (cn_state d)" using d(3) by (simp add: reading_def)
  note A = answer_parse_error_ok [OF d(4) rd, of MalformedRequestLine]
    answer_parse_error_pending [OF d(4), of MalformedRequestLine]
  have "drive_write sample_config ?w = (Interest_Write, ?w)"
    using drive_write_blocked [OF A(1,2) _ A(3), where input = "[]"] A(4) d(2) by simp
  then have "drive_read_headers sample_config ?c = (Interest_Write, ?w)"
  proof -
    assume w: "drive_write sample_config ?w = (Interest_Write, ?w)"
    have k: "kMaxPipelinedRequestsPerStep = Suc 7" by (simp add: kMaxPipelinedRequestsPerStep_def)
    show ?thesis unfolding drive_read_headers_def k read_headers_passes.simps(2) d(1) using w A(2) by simp
  qed
  then have "waiting_connection = ?w" unfolding waiting_connection_def sample_step by simp
  then show "cn_state waiting_connection = Writing" "cn_transport waiting_connection = sample_socket [] []"
    "cn_stream waiting_connection = None"
    using A(2,4,5) d(2,4) rd by (simp_all add: conn_ok_reading)
qed

lemma waiting_run: "connection_run sample_config waiting_connection"
  unfolding waiting_connection_def by (rule run_step [OF sample_run])

theorem response_written_exactly_witness:
  "let c' = snd (drive_write sample_config waiting_connection) in
     sent_and_pending c' = sent_and_pending waiting_connection \<or>
     transport_sent (cn_transport c') = sent_and_pending waiting_connection"
  using response_written_exactly [OF waiting_run waiting_fields(1,3) prod.collapse [symmetric]]
  by (auto simp: Let_def)


text \<open>A parsed request without a method is answered with 400 by the router.\<close>

definition empty_parsed :: parsed_request where
  "empty_parsed = \<lparr>pr_request = default_request, pr_consumed_bytes = 0, pr_body_offset = 0\<rparr>"

definition adopted_request :: request where
  "adopted_request = set_received_at 0 (set_secure False (set_peer default_peer default_request))"

definition bad_request_bytes :: bytes where
  "bad_request_bytes = response_bytes sample_config adopted_request bad_request_response plain_options"

lemma adopted_fields:
  "cn_request (adopt_parsed_request empty_parsed (ready_connection n)) = adopted_request"
  "cn_transport (adopt_parsed_request empty_parsed (ready_connection n)) = sample_socket [] (replicate n (Send_Accepts 1))"
  "cn_pending_response (adopt_parsed_request empty_parsed (ready_connection n)) = None"
  "buffer_ok (cn_write_buffer (adopt_parsed_request empty_parsed (ready_connection n)))"
  using ready_ok [of n]
  by (simp_all add: adopt_parsed_request_def Let_def adopted_request_def empty_parsed_def ready_fields ready_details
      read_clock_def sample_socket_def transport_is_secure_def transport_peer_certificate_subject_def conn_ok_reading
      reading_def)

lemma bad_request_dispatched:
  "dispatch (cf_names_at cfg) (cf_router cfg) adopted_request = (bad_request_response, adopted_request)"
  "apply_conditional_request cenv adopted_request bad_request_response = bad_request_response"
  "\<not> is_stream bad_request_response" "\<not> req_keep_alive adopted_request"
  by (simp_all add: dispatch_def apply_conditional_request_def adopted_request_def set_received_at_def set_secure_def
      set_peer_def default_request_def bad_request_response_def response_text_def response_with_def is_stream_def
      default_response_def set_header_eq)

theorem request_answered_witness:
  "transport_sent (cn_transport (snd (drive_write sample_config
      (answer_request sample_config empty_parsed (ready_connection (length bad_request_bytes)))))) = bad_request_bytes"
proof -
  let ?n = "length bad_request_bytes"
  let ?d = "adopt_parsed_request empty_parsed (ready_connection ?n)"
  let ?w = "answer_request sample_config empty_parsed (ready_connection ?n)"
  have pd: "cn_pending_response (dispatch_request sample_config ?d) = Some bad_request_response"
    "cn_request (dispatch_request sample_config ?d) = adopted_request"
    by (simp_all add: dispatch_request_def adopted_fields bad_request_dispatched)
  have ok: "conn_ok sample_config ?w"
    using answer_request_ok(1) [OF ready_ok] ready_fields(1) by (simp add: reading_def empty_parsed_def)
  note P = dispatch_and_serialize_pending [OF adopted_fields(4) pd(1)]
  have opts: "response_options sample_config bad_request_response (dispatch_and_serialize sample_config ?d) = plain_options"
    using P(3,6) pd(2) by (simp add: response_options_def plain_options_def sample_config_def bad_request_dispatched
        adopted_fields sample_socket_def transport_is_secure_def)
  have len: "length (response_bytes sample_config (cn_request (dispatch_request sample_config ?d)) bad_request_response
      (response_options sample_config bad_request_response (dispatch_and_serialize sample_config ?d))) \<le> ?n"
    unfolding pd(2) opts unfolding bad_request_bytes_def by (rule le_refl)
  have "cn_state (snd (drive_write sample_config ?w)) \<noteq> Writing"
    unfolding answer_request_def
    by (rule serialized_leaves [OF ok [unfolded answer_request_def] adopted_fields(4) pd(1) adopted_fields(2) len])
  note A = request_answered [OF ready_run _ _ _ bad_request_dispatched(3) prod.collapse [symmetric] this]
  let ?stays = "req_keep_alive adopted_request \<and> cn_requests_served (ready_connection ?n) + 1 <
    opt_max_requests_per_connection (cf_options sample_config)"
  let ?o = "\<lparr>server_header = opt_server_header (cf_options sample_config), opt_keep_alive = ?stays,
      opt_secure = transport_is_secure (cn_transport (ready_connection ?n)),
      strict_transport_security = cf_strict_transport_security sample_config,
      hsts_max_age_seconds = cf_hsts_max_age_seconds sample_config\<rparr>"
  have o: "plain_options = ?o"
    by (simp add: plain_options_def sample_config_def bad_request_dispatched(4) ready_fields sample_socket_def
        transport_is_secure_def)
  have "response_bytes sample_config adopted_request bad_request_response ?o = bad_request_bytes"
    unfolding o [symmetric] by (rule bad_request_bytes_def [symmetric])
  moreover have "transport_sent (cn_transport (ready_connection ?n)) = []"
    by (simp add: ready_fields sample_socket_def transport_sent_def)
  moreover have "cn_state (ready_connection ?n) \<in> {ReadingHeaders, ReadingBody}" by (simp add: ready_fields)
  note A = A [unfolded adopted_fields(1), OF this bad_request_dispatched(1) bad_request_dispatched(2) [symmetric]]
  ultimately show ?thesis using conjunct1 [OF A] by simp
qed

end
