(* ===== verification/Http_Config.thy ===== *)
theory Http_Config
  imports Http_Encoder Http_Cidr Http_Connection
begin

text \<open>
  \<open>config.cpp\<close>, \<open>config.hpp\<close> and the option checks of \<open>server.cpp\<close>: what a configuration file may say, how it
  becomes the options of a server, and what a server accepts. Numbers are compared and copied, never added,
  so the unsigned members are natural numbers and the durations of the options integers, in milliseconds.
  The parsers and writers of Glaze, \<open>inet_pton\<close> and the file system are parameters. A problem is a value of
  \<open>config_problem\<close> in place of its message.
\<close>

section \<open>Options\<close>

datatype tls_version = Tls13 | Tls12

record tls_options =
  to_enabled :: bool
  to_certificate_chain_file :: bytes
  to_private_key_file :: bytes
  to_certificate_chain_pem :: bytes
  to_private_key_pem :: bytes
  to_minimum_version :: tls_version
  to_client_ca_file :: bytes
  to_require_client_certificate :: bool
  to_alpn_protocols :: bytes
  to_group_list :: bytes
  to_session_tickets :: bool
  to_early_data :: bool
  to_kernel_tls :: bool
  to_strict_transport_security :: bool
  to_hsts_max_age_seconds :: nat

record listener =
  li_bind_address :: bytes
  li_port :: nat
  li_unix_socket_path :: bytes
  li_tls :: tls_options

record options =
  so_listeners :: "listener list"
  so_worker_threads :: nat
  so_limits :: request_limits
  so_max_connections :: nat
  so_max_connections_per_source :: nat
  so_max_requests_per_connection :: nat
  so_handshake_timeout :: int
  so_header_timeout :: int
  so_body_timeout :: int
  so_write_timeout :: int
  so_keep_alive_idle :: int
  so_request_deadline :: int
  so_stream_idle_timeout :: int
  so_listen_backlog :: int
  so_reuse_port :: bool
  so_tcp_nodelay :: bool
  so_warn_on_public_bind :: bool
  so_allow_cidrs :: "bytes list"
  so_server_header :: bytes

definition kDefaultBindAddress :: bytes where "kDefaultBindAddress = ''::1''"
definition kDefaultServerHeader :: bytes where "kDefaultServerHeader = ''erikslund-http''"
definition kDefaultPort :: nat where "kDefaultPort = 7777"
definition kDefaultAlpnProtocols :: bytes where "kDefaultAlpnProtocols = ''http/1.1''"
definition kDefaultHstsMaxAgeSeconds :: nat where "kDefaultHstsMaxAgeSeconds = 31536000"
definition kMinAutoWorkerThreads :: nat where "kMinAutoWorkerThreads = 1"
definition kMaxAutoWorkerThreads :: nat where "kMaxAutoWorkerThreads = 4"
definition kMaxWorkerThreads :: nat where "kMaxWorkerThreads = 256"

definition default_tls_options :: tls_options where
  "default_tls_options =
     \<lparr>to_enabled = False, to_certificate_chain_file = [], to_private_key_file = [], to_certificate_chain_pem = [],
      to_private_key_pem = [], to_minimum_version = Tls13, to_client_ca_file = [], to_require_client_certificate = False,
      to_alpn_protocols = kDefaultAlpnProtocols, to_group_list = [], to_session_tickets = True, to_early_data = False,
      to_kernel_tls = True, to_strict_transport_security = False, to_hsts_max_age_seconds = kDefaultHstsMaxAgeSeconds\<rparr>"

definition default_listener :: listener where
  "default_listener = \<lparr>li_bind_address = kDefaultBindAddress, li_port = kDefaultPort, li_unix_socket_path = [],
     li_tls = default_tls_options\<rparr>"

definition default_options :: options where
  "default_options =
     \<lparr>so_listeners = [], so_worker_threads = 0, so_limits = default_limits, so_max_connections = 512,
      so_max_connections_per_source = 64, so_max_requests_per_connection = 100, so_handshake_timeout = 5000,
      so_header_timeout = 5000, so_body_timeout = 5000, so_write_timeout = 5000, so_keep_alive_idle = 15000,
      so_request_deadline = 3000, so_stream_idle_timeout = 60000, so_listen_backlog = 128, so_reuse_port = True,
      so_tcp_nodelay = True, so_warn_on_public_bind = True, so_allow_cidrs = [], so_server_header = kDefaultServerHeader\<rparr>"

definition on_port :: "nat \<Rightarrow> options" where
  "on_port port = default_options\<lparr>so_listeners := [default_listener\<lparr>li_port := port\<rparr>]\<rparr>"

definition on_port_tls :: "nat \<Rightarrow> tls_options \<Rightarrow> options" where
  "on_port_tls port tls =
     default_options\<lparr>so_listeners := [default_listener\<lparr>li_port := port, li_tls := tls\<lparr>to_enabled := True\<rparr>\<rparr>]\<rparr>"

section \<open>What a server accepts\<close>

datatype config_problem =
    Too_Many_Workers | No_Connections | No_Connections_Per_Source | No_Requests_Per_Connection | No_Backlog
  | Timeout_Not_Positive bytes | Header_Count_Out_Of_Range | Byte_Limit_Zero bytes | Target_Exceeds_Line
  | Control_In_Server_Header | Unix_With_Port_Zero nat | No_Address nat | Endpoint_Repeated nat bytes
  | Unknown_Tls_Version nat | Unsupported_Alpn nat bytes | No_Certificate nat | No_Private_Key nat | No_Client_Ca nat
  | Bad_Cidr bytes cidr_error

text \<open>The first of the conditions that holds.\<close>

fun first_of :: "(bool \<times> 'a) list \<Rightarrow> 'a option" where
  "first_of [] = None"
| "first_of ((found, problem) # rest) = (if found then Some problem else first_of rest)"

definition endpoint_of :: "bytes \<Rightarrow> nat \<Rightarrow> bytes \<Rightarrow> bytes" where
  "endpoint_of bind_address port unix_socket_path =
     (if unix_socket_path = [] then bind_address @ '':'' @ nat_to_dec port else ''unix:'' @ unix_socket_path)"

text \<open>The loop over the listeners, with the endpoints seen so far.\<close>

fun listeners_problem :: "nat \<Rightarrow> bytes list \<Rightarrow> listener list \<Rightarrow> config_problem option" where
  "listeners_problem index endpoints [] = None"
| "listeners_problem index endpoints (l # listeners) =
     (if li_unix_socket_path l \<noteq> [] \<and> li_port l = 0 then Some (Unix_With_Port_Zero index)
      else if li_unix_socket_path l = [] \<and> li_bind_address l = [] then Some (No_Address index)
      else if li_unix_socket_path l = [] \<and> li_port l = 0 then listeners_problem (index + 1) endpoints listeners
      else
        let endpoint = endpoint_of (li_bind_address l) (li_port l) (li_unix_socket_path l) in
        if endpoint \<in> set endpoints then Some (Endpoint_Repeated index endpoint)
        else listeners_problem (index + 1) (endpoints @ [endpoint]) listeners)"

definition option_timeouts :: "options \<Rightarrow> (bytes \<times> int) list" where
  "option_timeouts o' =
     [(''handshake_timeout'', so_handshake_timeout o'), (''header_timeout'', so_header_timeout o'),
      (''body_timeout'', so_body_timeout o'), (''write_timeout'', so_write_timeout o'),
      (''keep_alive_idle'', so_keep_alive_idle o'), (''request_deadline'', so_request_deadline o'),
      (''stream_idle_timeout'', so_stream_idle_timeout o')]"

definition validate_server_options :: "options \<Rightarrow> config_problem option" where
  "validate_server_options o' =
     (case first_of
        ([(so_worker_threads o' > kMaxWorkerThreads, Too_Many_Workers), (so_max_connections o' = 0, No_Connections),
          (so_max_connections_per_source o' = 0, No_Connections_Per_Source),
          (so_max_requests_per_connection o' = 0, No_Requests_Per_Connection), (so_listen_backlog o' \<le> 0, No_Backlog)] @
         map (\<lambda>(name, timeout). (timeout \<le> 0, Timeout_Not_Positive name)) (option_timeouts o') @
         [(max_header_count (so_limits o') = 0 \<or> max_header_count (so_limits o') > kMaxParsedHeaders, Header_Count_Out_Of_Range),
          (max_request_line_bytes (so_limits o') = 0 \<or> max_header_block_bytes (so_limits o') = 0 \<or>
             max_target_bytes (so_limits o') = 0, Byte_Limit_Zero []),
          (max_target_bytes (so_limits o') > max_request_line_bytes (so_limits o'), Target_Exceeds_Line),
          (has_control_character (so_server_header o'), Control_In_Server_Header)]) of
        Some problem \<Rightarrow> Some problem
      | None \<Rightarrow> listeners_problem 0 [] (so_listeners o'))"

section \<open>Configurations\<close>

record tls_config =
  tc_enabled :: bool
  tc_certificate_chain_file :: bytes
  tc_private_key_file :: bytes
  tc_minimum_version :: bytes
  tc_client_ca_file :: bytes
  tc_require_client_certificate :: bool
  tc_alpn_protocols :: bytes
  tc_group_list :: bytes
  tc_session_tickets :: bool
  tc_early_data :: bool
  tc_kernel_tls :: bool
  tc_strict_transport_security :: bool

record listener_config =
  lc_bind_address :: bytes
  lc_port :: nat
  lc_unix_socket_path :: bytes
  lc_tls :: tls_config

record server_config =
  sc_listeners :: "listener_config list"
  sc_worker_threads :: nat
  sc_limits :: request_limits
  sc_max_connections :: nat
  sc_max_connections_per_source :: nat
  sc_max_requests_per_connection :: nat
  sc_handshake_timeout_ms :: nat
  sc_header_timeout_ms :: nat
  sc_body_timeout_ms :: nat
  sc_write_timeout_ms :: nat
  sc_keep_alive_idle_ms :: nat
  sc_request_deadline_ms :: nat
  sc_stream_idle_timeout_ms :: nat
  sc_listen_backlog :: int
  sc_reuse_port :: bool
  sc_tcp_nodelay :: bool
  sc_warn_on_public_bind :: bool
  sc_allow_cidrs :: "bytes list"
  sc_server_header :: bytes

definition kTls13Name :: bytes where "kTls13Name = ''1.3''"
definition kTls12Name :: bytes where "kTls12Name = ''1.2''"
definition kSupportedAlpnProtocol :: bytes where "kSupportedAlpnProtocol = ''http/1.1''"
definition kOptionalWhitespace :: bytes where "kOptionalWhitespace = [CHR '' '', CHR 0x09]"
definition kMaxConfigFileBytes :: nat where "kMaxConfigFileBytes = 1048576"

text \<open>\<open>find_first_not_of\<close> and \<open>find_last_not_of\<close>.\<close>

fun find_first_not_of :: "bytes \<Rightarrow> bytes \<Rightarrow> nat option" where
  "find_first_not_of cs [] = None"
| "find_first_not_of cs (x # xs) = (if x \<notin> set cs then Some 0 else map_option Suc (find_first_not_of cs xs))"

definition find_last_not_of :: "bytes \<Rightarrow> bytes \<Rightarrow> nat option" where
  "find_last_not_of cs s = map_option (\<lambda>i. length s - 1 - i) (find_first_not_of cs (rev s))"

definition config_trim :: "bytes \<Rightarrow> bytes" where
  "config_trim s =
     (case find_first_not_of kOptionalWhitespace s of None \<Rightarrow> []
      | Some first \<Rightarrow> substr s first (the (find_last_not_of kOptionalWhitespace s) - first + 1))"

function comma_separated :: "bytes \<Rightarrow> bytes list" where
  "comma_separated list =
     (let comma = find_char (CHR '','') list;
          token = config_trim (case comma of None \<Rightarrow> list | Some i \<Rightarrow> take i list);
          tokens = (if token \<noteq> [] then [token] else [])
      in case comma of None \<Rightarrow> tokens | Some i \<Rightarrow> tokens @ comma_separated (drop (i + 1) list))"
  by pat_completeness auto
termination
  by (relation "measure length") (auto dest!: sym [of "Some _"] find_char_less)

declare comma_separated.simps [simp del]

definition problem_with_tls :: "tls_config \<Rightarrow> nat \<Rightarrow> config_problem option" where
  "problem_with_tls tls listener_index =
     (if tc_minimum_version tls \<noteq> kTls13Name \<and> tc_minimum_version tls \<noteq> kTls12Name then Some (Unknown_Tls_Version listener_index)
      else case find (\<lambda>protocol. protocol \<noteq> kSupportedAlpnProtocol) (comma_separated (tc_alpn_protocols tls)) of
        Some protocol \<Rightarrow> Some (Unsupported_Alpn listener_index protocol)
      | None \<Rightarrow>
          if \<not> tc_enabled tls then None
          else if tc_certificate_chain_file tls = [] then Some (No_Certificate listener_index)
          else if tc_private_key_file tls = [] then Some (No_Private_Key listener_index)
          else if tc_require_client_certificate tls \<and> tc_client_ca_file tls = [] then Some (No_Client_Ca listener_index)
          else None)"

fun config_listeners_problem :: "nat \<Rightarrow> bytes list \<Rightarrow> listener_config list \<Rightarrow> config_problem option" where
  "config_listeners_problem index endpoints [] = None"
| "config_listeners_problem index endpoints (l # listeners) =
     (if lc_unix_socket_path l \<noteq> [] \<and> lc_port l = 0 then Some (Unix_With_Port_Zero index)
      else if lc_unix_socket_path l = [] \<and> lc_bind_address l = [] then Some (No_Address index)
      else case problem_with_tls (lc_tls l) index of
        Some problem \<Rightarrow> Some problem
      | None \<Rightarrow>
          if lc_port l = 0 \<and> lc_unix_socket_path l = [] then config_listeners_problem (index + 1) endpoints listeners
          else
            let endpoint = endpoint_of (lc_bind_address l) (lc_port l) (lc_unix_socket_path l) in
            if endpoint \<in> set endpoints then Some (Endpoint_Repeated index endpoint)
            else config_listeners_problem (index + 1) (endpoints @ [endpoint]) listeners)"

fun cidrs_problem :: "(bytes \<Rightarrow> octets option) \<Rightarrow> (bytes \<Rightarrow> octets option) \<Rightarrow> bytes list \<Rightarrow> config_problem option" where
  "cidrs_problem pton4 pton6 [] = None"
| "cidrs_problem pton4 pton6 (entry # entries) =
     (case cidr_parse pton4 pton6 [entry] [] of Inl e \<Rightarrow> Some (Bad_Cidr entry e) | Inr _ \<Rightarrow> cidrs_problem pton4 pton6 entries)"

definition config_timeouts :: "server_config \<Rightarrow> (bytes \<times> nat) list" where
  "config_timeouts c =
     [(''handshake_timeout_ms'', sc_handshake_timeout_ms c), (''header_timeout_ms'', sc_header_timeout_ms c),
      (''body_timeout_ms'', sc_body_timeout_ms c), (''write_timeout_ms'', sc_write_timeout_ms c),
      (''keep_alive_idle_ms'', sc_keep_alive_idle_ms c), (''request_deadline_ms'', sc_request_deadline_ms c),
      (''stream_idle_timeout_ms'', sc_stream_idle_timeout_ms c)]"

definition config_byte_limits :: "server_config \<Rightarrow> (bytes \<times> nat) list" where
  "config_byte_limits c =
     [(''limits.max_request_line_bytes'', max_request_line_bytes (sc_limits c)),
      (''limits.max_header_block_bytes'', max_header_block_bytes (sc_limits c)),
      (''limits.max_target_bytes'', max_target_bytes (sc_limits c))]"

definition first_problem_with ::
  "(bytes \<Rightarrow> octets option) \<Rightarrow> (bytes \<Rightarrow> octets option) \<Rightarrow> server_config \<Rightarrow> config_problem option" where
  "first_problem_with pton4 pton6 c =
     (case first_of
        ([(sc_worker_threads c > kMaxWorkerThreads, Too_Many_Workers), (sc_max_connections c = 0, No_Connections),
          (sc_max_connections_per_source c = 0, No_Connections_Per_Source),
          (sc_max_requests_per_connection c = 0, No_Requests_Per_Connection), (sc_listen_backlog c \<le> 0, No_Backlog)] @
         map (\<lambda>(key, milliseconds). (milliseconds = 0, Timeout_Not_Positive key)) (config_timeouts c) @
         [(max_header_count (sc_limits c) = 0 \<or> max_header_count (sc_limits c) > kMaxParsedHeaders, Header_Count_Out_Of_Range)] @
         map (\<lambda>(key, n). (n = 0, Byte_Limit_Zero key)) (config_byte_limits c) @
         [(max_target_bytes (sc_limits c) > max_request_line_bytes (sc_limits c), Target_Exceeds_Line)]) of
        Some problem \<Rightarrow> Some problem
      | None \<Rightarrow>
          (case config_listeners_problem 0 [] (sc_listeners c) of
             Some problem \<Rightarrow> Some problem
           | None \<Rightarrow>
               (case cidrs_problem pton4 pton6 (sc_allow_cidrs c) of
                  Some problem \<Rightarrow> Some problem
                | None \<Rightarrow> if has_control_character (sc_server_header c) then Some Control_In_Server_Header else None)))"

definition to_tls_options :: "tls_config \<Rightarrow> tls_options" where
  "to_tls_options c =
     default_tls_options\<lparr>to_enabled := tc_enabled c, to_certificate_chain_file := tc_certificate_chain_file c,
       to_private_key_file := tc_private_key_file c,
       to_minimum_version := (if tc_minimum_version c = kTls12Name then Tls12 else Tls13),
       to_client_ca_file := tc_client_ca_file c, to_require_client_certificate := tc_require_client_certificate c,
       to_alpn_protocols := tc_alpn_protocols c, to_group_list := tc_group_list c, to_session_tickets := tc_session_tickets c,
       to_early_data := tc_early_data c, to_kernel_tls := tc_kernel_tls c,
       to_strict_transport_security := tc_strict_transport_security c\<rparr>"

definition to_listener :: "listener_config \<Rightarrow> listener" where
  "to_listener source =
     default_listener\<lparr>li_bind_address := lc_bind_address source, li_port := lc_port source,
       li_unix_socket_path := lc_unix_socket_path source, li_tls := to_tls_options (lc_tls source)\<rparr>"

definition to_options ::
  "(bytes \<Rightarrow> octets option) \<Rightarrow> (bytes \<Rightarrow> octets option) \<Rightarrow> server_config \<Rightarrow> (config_problem, options) expected" where
  "to_options pton4 pton6 c =
     (case first_problem_with pton4 pton6 c of
        Some problem \<Rightarrow> Inl problem
      | None \<Rightarrow>
          Inr (default_options\<lparr>so_listeners := map to_listener (sc_listeners c), so_worker_threads := sc_worker_threads c,
            so_limits := sc_limits c, so_max_connections := sc_max_connections c,
            so_max_connections_per_source := sc_max_connections_per_source c,
            so_max_requests_per_connection := sc_max_requests_per_connection c,
            so_handshake_timeout := int (sc_handshake_timeout_ms c), so_header_timeout := int (sc_header_timeout_ms c),
            so_body_timeout := int (sc_body_timeout_ms c), so_write_timeout := int (sc_write_timeout_ms c),
            so_keep_alive_idle := int (sc_keep_alive_idle_ms c), so_request_deadline := int (sc_request_deadline_ms c),
            so_stream_idle_timeout := int (sc_stream_idle_timeout_ms c), so_listen_backlog := sc_listen_backlog c,
            so_reuse_port := sc_reuse_port c, so_tcp_nodelay := sc_tcp_nodelay c,
            so_warn_on_public_bind := sc_warn_on_public_bind c, so_allow_cidrs := sc_allow_cidrs c,
            so_server_header := sc_server_header c\<rparr>))"

section \<open>Configuration files\<close>

datatype config_error = NotFound | Unreadable | UnknownFormat | MalformedYaml | MalformedJson | InvalidValue

datatype config_format = Yaml | Json

definition lowercased :: "bytes \<Rightarrow> bytes" where
  "lowercased s = map ascii_to_lower s"

definition format_for_extension :: "bytes \<Rightarrow> config_format option" where
  "format_for_extension extension =
     (let lowered = lowercased extension in
      if lowered = ''.yml'' \<or> lowered = ''.yaml'' then Some Yaml
      else if lowered = ''.json'' then Some Json
      else None)"

text \<open>What the file system says of a path.\<close>

record file_view =
  fv_exists :: bool
  fv_regular :: bool
  fv_extension :: bytes
  fv_size :: "nat option"
  fv_opens :: bool
  fv_bad :: bool
  fv_data :: bytes

definition read_whole_file :: "file_view \<Rightarrow> bytes option" where
  "read_whole_file f =
     (case fv_size f of None \<Rightarrow> None
      | Some n \<Rightarrow>
          if n > kMaxConfigFileBytes then None
          else if \<not> fv_opens f then None
          else if fv_bad f then None
          else Some (take n (fv_data f)))"

record glaze =
  gz_read_yaml :: "bytes \<Rightarrow> server_config option"
  gz_read_json :: "bytes \<Rightarrow> server_config option"
  gz_write_yaml :: "server_config \<Rightarrow> bytes option"
  gz_write_json :: "server_config \<Rightarrow> bytes option"

definition load_config ::
  "glaze \<Rightarrow> (bytes \<Rightarrow> octets option) \<Rightarrow> (bytes \<Rightarrow> octets option) \<Rightarrow> file_view \<Rightarrow> (config_error, server_config) expected" where
  "load_config gz pton4 pton6 f =
     (if \<not> fv_exists f then Inl NotFound
      else if \<not> fv_regular f then Inl Unreadable
      else case format_for_extension (fv_extension f) of
        None \<Rightarrow> Inl UnknownFormat
      | Some format \<Rightarrow>
          (case read_whole_file f of None \<Rightarrow> Inl Unreadable
           | Some content \<Rightarrow>
               (case (if format = Yaml then gz_read_yaml gz content else gz_read_json gz content) of
                  None \<Rightarrow> Inl (if format = Yaml then MalformedYaml else MalformedJson)
                | Some c \<Rightarrow> if first_problem_with pton4 pton6 c \<noteq> None then Inl InvalidValue else Inr c)))"

definition dump_config :: "glaze \<Rightarrow> server_config \<Rightarrow> bytes \<Rightarrow> (config_error, bytes) expected" where
  "dump_config gz c format =
     (let lowered = lowercased format;
          as_yaml = (lowered = ''yaml'' \<or> lowered = ''yml'' \<or> lowered = ''.yaml'' \<or> lowered = ''.yml'')
      in if as_yaml then (case gz_write_yaml gz c of None \<Rightarrow> Inl MalformedYaml | Some written \<Rightarrow> Inr written)
         else (case gz_write_json gz c of None \<Rightarrow> Inl MalformedJson | Some written \<Rightarrow> Inr written))"

section \<open>What is accepted\<close>

lemma first_of_None: "first_of conditions = None \<longleftrightarrow> (\<forall>(found, problem) \<in> set conditions. \<not> found)"
  by (induction conditions rule: first_of.induct) auto

text \<open>The endpoints that are fixed in advance; port zero is resolved when it is bound.\<close>

definition fixed_endpoints :: "listener list \<Rightarrow> bytes list" where
  "fixed_endpoints listeners =
     map (\<lambda>l. endpoint_of (li_bind_address l) (li_port l) (li_unix_socket_path l))
       (filter (\<lambda>l. li_unix_socket_path l \<noteq> [] \<or> li_port l \<noteq> 0) listeners)"

lemma fixed_endpoints_simps:
  "fixed_endpoints [] = []"
  "fixed_endpoints (l # ls) = (if li_unix_socket_path l \<noteq> [] \<or> li_port l \<noteq> 0
     then endpoint_of (li_bind_address l) (li_port l) (li_unix_socket_path l) # fixed_endpoints ls else fixed_endpoints ls)"
  by (simp_all add: fixed_endpoints_def)

lemma listeners_problem_None:
  "listeners_problem index endpoints listeners = None \<longleftrightarrow>
     (\<forall>l \<in> set listeners. (li_unix_socket_path l \<noteq> [] \<longrightarrow> li_port l \<noteq> 0) \<and>
        (li_unix_socket_path l = [] \<longrightarrow> li_bind_address l \<noteq> [])) \<and>
     distinct (fixed_endpoints listeners) \<and> set endpoints \<inter> set (fixed_endpoints listeners) = {}"
  by (induction index endpoints listeners rule: listeners_problem.induct) (auto simp: fixed_endpoints_simps Let_def)

text \<open>The check of a server's options decides exactly this: worker count within its ceiling, every limit,
  backlog and timeout positive, the header count within the parser's table, the target no longer than its
  request line, a server header that cannot split a response, an address for every listener, and no
  endpoint given twice.\<close>

theorem server_options_accepted_iff:
  "validate_server_options opts = None \<longleftrightarrow>
     so_worker_threads opts \<le> kMaxWorkerThreads \<and> so_max_connections opts > 0 \<and> so_max_connections_per_source opts > 0 \<and>
     so_max_requests_per_connection opts > 0 \<and> so_listen_backlog opts > 0 \<and>
     so_handshake_timeout opts > 0 \<and> so_header_timeout opts > 0 \<and> so_body_timeout opts > 0 \<and> so_write_timeout opts > 0 \<and>
     so_keep_alive_idle opts > 0 \<and> so_request_deadline opts > 0 \<and> so_stream_idle_timeout opts > 0 \<and>
     max_header_count (so_limits opts) \<in> {1..kMaxParsedHeaders} \<and> max_header_block_bytes (so_limits opts) > 0 \<and>
     max_target_bytes (so_limits opts) \<in> {1..max_request_line_bytes (so_limits opts)} \<and>
     \<not> has_control_character (so_server_header opts) \<and>
     (\<forall>l \<in> set (so_listeners opts).
        if li_unix_socket_path l \<noteq> [] then li_port l \<noteq> 0 else li_bind_address l \<noteq> []) \<and>
     distinct (fixed_endpoints (so_listeners opts))"
proof -
  have split: "(case x of Some problem \<Rightarrow> Some problem | None \<Rightarrow> y) = None \<longleftrightarrow> x = None \<and> y = None" for x y :: "'a option"
    by (cases x) simp_all
  show ?thesis
    unfolding validate_server_options_def split first_of_None listeners_problem_None option_timeouts_def
    by (auto simp: not_le not_less)
qed

text \<open>Configurations.\<close>

lemma find_first_not_of_dropWhile:
  "find_first_not_of cs s = (if dropWhile (\<lambda>c. c \<in> set cs) s = [] then None else Some (length (takeWhile (\<lambda>c. c \<in> set cs) s)))"
  by (induction s) auto

lemma whitespace_set: "(\<lambda>c. c \<in> set kOptionalWhitespace) = is_optional_whitespace"
  by (auto simp: kOptionalWhitespace_def is_optional_whitespace_def)

lemma dropWhile_rev_Nil: "dropWhile P (rev s) = [] \<longleftrightarrow> dropWhile P s = []"
  by (simp add: dropWhile_eq_Nil_conv)

lemma config_trim_eq: "config_trim s = trim_optional_whitespace s"
proof (cases "dropWhile is_optional_whitespace s = []")
  case True
  then have "trim_optional_whitespace s = []" by (simp only: trim_optional_whitespace_def rev.simps dropWhile.simps)
  then show ?thesis using True by (simp only: config_trim_def find_first_not_of_dropWhile whitespace_set refl if_True option.case)
next
  case False
  let ?ws = is_optional_whitespace
  define a where "a = takeWhile ?ws s"
  define m where "m = trim_optional_whitespace s"
  define b where "b = rev (takeWhile ?ws (rev (dropWhile ?ws s)))"
  have d: "dropWhile ?ws s = m @ b"
    unfolding m_def b_def trim_optional_whitespace_def by (metis rev_append rev_rev_ident takeWhile_dropWhile_id)
  then have s: "s = a @ m @ b" unfolding a_def by (metis takeWhile_dropWhile_id)
  have nn: "dropWhile ?ws (rev (dropWhile ?ws s)) \<noteq> []"
    using False by (metis dropWhile_eq_Nil_conv hd_dropWhile hd_in_set set_rev)
  then have m: "m \<noteq> []" "\<not> ?ws (last m)"
    using hd_dropWhile [OF nn] by (simp_all add: m_def trim_optional_whitespace_def last_rev)
  have "takeWhile ?ws (rev s) = rev b"
  proof -
    have "takeWhile ?ws (rev b @ rev m @ rev a) = rev b"
      using m by (subst takeWhile_append2) (auto simp: b_def hd_rev [symmetric] dest: set_takeWhileD split: list.split
          intro: takeWhile_eq_Nil_iff [THEN iffD2])
    then show ?thesis by (simp add: s)
  qed
  then have "find_last_not_of kOptionalWhitespace s = Some (length s - 1 - length b)"
    using False by (simp add: find_last_not_of_def find_first_not_of_dropWhile whitespace_set dropWhile_rev_Nil)
  moreover have "length s - 1 - length b - length a + 1 = length m" using m(1) by (simp add: s)
  ultimately show ?thesis
    using False by (auto simp: config_trim_def find_first_not_of_dropWhile whitespace_set a_def [symmetric] substr_def
        m_def [symmetric] dropWhile_eq_Nil_conv) (simp_all add: s)
qed

lemma comma_separated_eq:
  "comma_separated list = filter (\<lambda>t. t \<noteq> []) (map trim_optional_whitespace (split_on (CHR '','') list))"
proof (induction list rule: comma_separated.induct)
  case (1 list)
  show ?case
  proof (cases "find_char (CHR '','') list")
    case None
    then show ?thesis by (simp add: comma_separated.simps [of list] config_trim_eq split_on_None)
  next
    case (Some i)
    then show ?thesis using 1 by (simp add: comma_separated.simps [of list] config_trim_eq split_on_Some [OF Some])
  qed
qed

text \<open>The options a configuration stands for, accepted or not.\<close>

definition options_of :: "server_config \<Rightarrow> options" where
  "options_of c =
     default_options\<lparr>so_listeners := map to_listener (sc_listeners c), so_worker_threads := sc_worker_threads c,
       so_limits := sc_limits c, so_max_connections := sc_max_connections c,
       so_max_connections_per_source := sc_max_connections_per_source c,
       so_max_requests_per_connection := sc_max_requests_per_connection c,
       so_handshake_timeout := int (sc_handshake_timeout_ms c), so_header_timeout := int (sc_header_timeout_ms c),
       so_body_timeout := int (sc_body_timeout_ms c), so_write_timeout := int (sc_write_timeout_ms c),
       so_keep_alive_idle := int (sc_keep_alive_idle_ms c), so_request_deadline := int (sc_request_deadline_ms c),
       so_stream_idle_timeout := int (sc_stream_idle_timeout_ms c), so_listen_backlog := sc_listen_backlog c,
       so_reuse_port := sc_reuse_port c, so_tcp_nodelay := sc_tcp_nodelay c,
       so_warn_on_public_bind := sc_warn_on_public_bind c, so_allow_cidrs := sc_allow_cidrs c,
       so_server_header := sc_server_header c\<rparr>"

lemma to_listener_fields [simp]:
  "li_bind_address (to_listener l) = lc_bind_address l" "li_port (to_listener l) = lc_port l"
  "li_unix_socket_path (to_listener l) = lc_unix_socket_path l" "li_tls (to_listener l) = to_tls_options (lc_tls l)"
  by (simp_all add: to_listener_def)

text \<open>The TLS settings a server can honour.\<close>

definition tls_config_ok :: "tls_config \<Rightarrow> bool" where
  "tls_config_ok tls \<longleftrightarrow> tc_minimum_version tls \<in> {kTls12Name, kTls13Name} \<and>
     (\<forall>p \<in> set (split_on (CHR '','') (tc_alpn_protocols tls)). trim_optional_whitespace p \<in> {[], kSupportedAlpnProtocol}) \<and>
     (tc_enabled tls \<longrightarrow> tc_certificate_chain_file tls \<noteq> [] \<and> tc_private_key_file tls \<noteq> [] \<and>
        (tc_require_client_certificate tls \<longrightarrow> tc_client_ca_file tls \<noteq> []))"

lemma problem_with_tls_None: "problem_with_tls tls index = None \<longleftrightarrow> tls_config_ok tls"
proof -
  define offered where "offered \<longleftrightarrow> (\<forall>p \<in> set (split_on (CHR '','') (tc_alpn_protocols tls)).
    trim_optional_whitespace p \<in> {[], kSupportedAlpnProtocol})"
  have "find (\<lambda>p. p \<noteq> kSupportedAlpnProtocol) (comma_separated (tc_alpn_protocols tls)) = None \<longleftrightarrow> offered"
    by (auto simp: find_None_iff comma_separated_eq offered_def)
  then show ?thesis unfolding problem_with_tls_def tls_config_ok_def offered_def [symmetric]
    by (cases "find (\<lambda>p. p \<noteq> kSupportedAlpnProtocol) (comma_separated (tc_alpn_protocols tls))") auto
qed

lemma config_listeners_problem_None:
  "config_listeners_problem index endpoints ls = None \<longleftrightarrow>
     listeners_problem index endpoints (map to_listener ls) = None \<and> (\<forall>l \<in> set ls. tls_config_ok (lc_tls l))"
proof (induction index endpoints ls rule: config_listeners_problem.induct)
  case (2 index endpoints l ls)
  then show ?case
    using problem_with_tls_None [of "lc_tls l" index]
    by (cases "problem_with_tls (lc_tls l) index") (auto simp: Let_def)
qed simp

lemma cidr_parse_rules:
  "cidr_parse pton4 pton6 entries rules = Inr all \<longleftrightarrow>
     (\<exists>new. all = rules @ new \<and> list_all2 (\<lambda>entry rule. parse_entry pton4 pton6 entry = Inr rule) entries new)"
proof (induction pton4 pton6 entries rules rule: cidr_parse.induct)
  case (2 pton4 pton6 entry entries rules)
  then show ?case
    by (cases "parse_entry pton4 pton6 entry") (auto simp: list_all2_Cons1)
qed auto

lemma cidrs_problem_None:
  "cidrs_problem pton4 pton6 entries = None \<longleftrightarrow> (\<exists>rules. cidr_parse pton4 pton6 entries [] = Inr rules)"
  unfolding cidr_parse_rules
proof (induction entries)
  case (Cons entry entries)
  then show ?case by (cases "parse_entry pton4 pton6 entry") (auto simp: list_all2_Cons1)
qed simp

lemma first_problem_None:
  "first_problem_with pton4 pton6 c = None \<longleftrightarrow>
     validate_server_options (options_of c) = None \<and> (\<exists>rules. cidr_parse pton4 pton6 (sc_allow_cidrs c) [] = Inr rules) \<and>
     (\<forall>l \<in> set (sc_listeners c). tls_config_ok (lc_tls l))"
proof -
  have split: "(case x of Some problem \<Rightarrow> Some problem | None \<Rightarrow> y) = None \<longleftrightarrow> x = None \<and> y = None" for x y :: "'a option"
    by (cases x) simp_all
  show ?thesis
    unfolding first_problem_with_def validate_server_options_def split first_of_None cidrs_problem_None
      config_listeners_problem_None config_timeouts_def config_byte_limits_def option_timeouts_def options_of_def
    by auto
qed

lemma options_of_allow_cidrs [simp]: "so_allow_cidrs (options_of c) = sc_allow_cidrs c"
  by (simp add: options_of_def)

lemma to_options_eq:
  "to_options pton4 pton6 c = (case first_problem_with pton4 pton6 c of None \<Rightarrow> Inr (options_of c) | Some problem \<Rightarrow> Inl problem)"
  unfolding to_options_def options_of_def by (cases "first_problem_with pton4 pton6 c") simp_all

text \<open>C35: the configuration check and the server's own check agree. A configuration passes exactly when the
  server accepts the options it stands for, the allow list parses as a whole and every listener's TLS
  settings can be honoured: a known version, no protocol but HTTP/1.1 offered, and the files TLS needs.
  So what \<open>to_options\<close> yields never makes the start of the server fail on a value.\<close>

theorem config_accepted_iff:
  "(to_options pton4 pton6 c = Inr opts) \<longleftrightarrow>
     opts = options_of c \<and> validate_server_options opts = None \<and>
     (\<exists>rules. cidr_parse pton4 pton6 (so_allow_cidrs opts) [] = Inr rules) \<and>
     (\<forall>l \<in> set (sc_listeners c). tls_config_ok (lc_tls l))"
  unfolding to_options_eq by (cases "first_problem_with pton4 pton6 c") (use first_problem_None [of pton4 pton6 c] in auto)

text \<open>A configuration file that loads can be used. When \<open>load_config\<close> succeeds, the file was a regular one of
  at most the permitted size with a known extension, its options convert without an exception, and the
  server accepts them and their allow list.\<close>

theorem loaded_config_usable:
  assumes "load_config gz pton4 pton6 f = Inr c"
  shows "fv_exists f \<and> fv_regular f \<and> format_for_extension (fv_extension f) \<noteq> None \<and>
    (\<exists>content. length content \<le> kMaxConfigFileBytes \<and> content = take (the (fv_size f)) (fv_data f) \<and>
       Some c \<in> {gz_read_yaml gz content, gz_read_json gz content}) \<and>
    (\<exists>opts rules. to_options pton4 pton6 c = Inr opts \<and> validate_server_options opts = None \<and>
       cidr_parse pton4 pton6 (so_allow_cidrs opts) [] = Inr rules)"
proof -
  obtain format content where f: "fv_exists f" "fv_regular f" "format_for_extension (fv_extension f) = Some format"
    "read_whole_file f = Some content" "Some c \<in> {gz_read_yaml gz content, gz_read_json gz content}"
    "first_problem_with pton4 pton6 c = None"
    using assms by (auto simp: load_config_def split: if_splits option.splits)
  from f(4) have "length content \<le> kMaxConfigFileBytes" "content = take (the (fv_size f)) (fv_data f)"
    by (auto simp: read_whole_file_def split: option.splits if_splits)
  moreover have "to_options pton4 pton6 c = Inr (options_of c)" using f(6) by (simp add: to_options_eq)
  ultimately show ?thesis using f first_problem_None [of pton4 pton6 c] by auto
qed

section \<open>Examples\<close>

theorem server_options_accepted_iff_witness: "validate_server_options (on_port 80) = None"
proof -
  have "kMaxParsedHeaders \<ge> 1" by (simp add: kMaxParsedHeaders_def)
  then show ?thesis
    by (subst server_options_accepted_iff)
      (simp add: on_port_def default_options_def default_listener_def default_limits_def kMaxWorkerThreads_def
        kDefaultBindAddress_def kDefaultServerHeader_def has_control_character_def byte_def fixed_endpoints_def)
qed

definition sample_tls_config :: tls_config where
  "sample_tls_config = \<lparr>tc_enabled = False, tc_certificate_chain_file = [], tc_private_key_file = [],
     tc_minimum_version = kTls13Name, tc_client_ca_file = [], tc_require_client_certificate = False,
     tc_alpn_protocols = kSupportedAlpnProtocol, tc_group_list = [], tc_session_tickets = True, tc_early_data = False,
     tc_kernel_tls = True, tc_strict_transport_security = False\<rparr>"

definition sample_server_config :: server_config where
  "sample_server_config = \<lparr>sc_listeners = [\<lparr>lc_bind_address = ''::1'', lc_port = 80, lc_unix_socket_path = [],
     lc_tls = sample_tls_config\<rparr>], sc_worker_threads = 0, sc_limits = default_limits, sc_max_connections = 512,
     sc_max_connections_per_source = 64, sc_max_requests_per_connection = 100, sc_handshake_timeout_ms = 5000,
     sc_header_timeout_ms = 5000, sc_body_timeout_ms = 5000, sc_write_timeout_ms = 5000, sc_keep_alive_idle_ms = 15000,
     sc_request_deadline_ms = 3000, sc_stream_idle_timeout_ms = 60000, sc_listen_backlog = 128, sc_reuse_port = True,
     sc_tcp_nodelay = True, sc_warn_on_public_bind = True, sc_allow_cidrs = [], sc_server_header = ''x''\<rparr>"

lemma sample_config_ok:
  "validate_server_options (options_of sample_server_config) = None" "tls_config_ok sample_tls_config"
proof -
  have "kMaxParsedHeaders \<ge> 1" by (simp add: kMaxParsedHeaders_def)
  then show "validate_server_options (options_of sample_server_config) = None"
    unfolding validate_server_options_def
    by (simp add: options_of_def sample_server_config_def default_limits_def kMaxWorkerThreads_def option_timeouts_def
        has_control_character_def byte_def endpoint_of_def)
  have "split_on (CHR '','') kSupportedAlpnProtocol = [kSupportedAlpnProtocol]" by code_simp
  moreover have "trim_optional_whitespace kSupportedAlpnProtocol = kSupportedAlpnProtocol" by code_simp
  ultimately show "tls_config_ok sample_tls_config" by (simp add: tls_config_ok_def sample_tls_config_def)
qed

theorem config_accepted_iff_witness:
  "to_options (\<lambda>_. None) (\<lambda>_. None) sample_server_config = Inr (options_of sample_server_config)"
  using sample_config_ok by (subst config_accepted_iff) (simp add: options_of_def sample_server_config_def)

definition sample_file :: file_view where
  "sample_file = \<lparr>fv_exists = True, fv_regular = True, fv_extension = ''.json'', fv_size = Some 2, fv_opens = True,
     fv_bad = False, fv_data = ''{}''\<rparr>"

definition sample_glaze :: glaze where
  "sample_glaze = \<lparr>gz_read_yaml = (\<lambda>_. None), gz_read_json = (\<lambda>_. Some sample_server_config), gz_write_yaml = (\<lambda>_. None),
     gz_write_json = (\<lambda>_. Some ''{}'')\<rparr>"

theorem loaded_config_usable_witness:
  "load_config sample_glaze (\<lambda>_. None) (\<lambda>_. None) sample_file = Inr sample_server_config \<and>
   (\<exists>opts. to_options (\<lambda>_. None) (\<lambda>_. None) sample_server_config = Inr opts \<and> validate_server_options opts = None)"
proof -
  have "first_problem_with (\<lambda>_. None) (\<lambda>_. None) sample_server_config = None"
    using sample_config_ok by (simp add: first_problem_None) (simp add: sample_server_config_def)
  moreover have "format_for_extension ''.json'' = Some Json" by code_simp
  ultimately have "load_config sample_glaze (\<lambda>_. None) (\<lambda>_. None) sample_file = Inr sample_server_config"
    by (simp add: load_config_def sample_file_def sample_glaze_def read_whole_file_def kMaxConfigFileBytes_def)
  then show ?thesis using loaded_config_usable by blast
qed

end
