(* ===== verification/Http_Socket.thy ===== *)
theory Http_Socket
  imports Http_Cidr Http_Config
begin

text \<open>
  \<open>socket.cpp\<close>: addresses, listening sockets and the pathnames of Unix-domain sockets. (\<open>write_vectors\<close> is in
  \<open>Http_Transport\<close>.) The system calls act on a record \<open>kernel\<close>: the files that have a name, the sockets that are
  open, and two tapes. \<open>kn_failures\<close> says which of the next calls fail for a reason of the kernel's own; a
  call with no entry left does not. \<open>kn_others\<close> says what other processes do to the files before the next call
  that looks up a name, except before an \<open>unlink\<close>: the code checks and unlinks in two calls, and what another
  process does between the two is beyond it.
\<close>

section \<open>Addresses\<close>

unbundle bit_operations_syntax

text \<open>The order of bytes on the network, on a machine that stores the low byte first.\<close>

definition htons :: "16 word \<Rightarrow> 16 word" where
  "htons w = push_bit 8 w OR drop_bit 8 w"

definition ntohs :: "16 word \<Rightarrow> 16 word" where
  "ntohs w = push_bit 8 w OR drop_bit 8 w"

datatype sockaddr =
    Sockaddr_In (sin_port: "16 word") (sin_addr: octets)
  | Sockaddr_In6 (sin_port: "16 word") (sin_addr: octets)
  | Sockaddr_Un
  | Sockaddr_Other

definition kInet6AddrStrLen :: nat where "kInet6AddrStrLen = 46"
definition kIpv4AddressOffset :: nat where "kIpv4AddressOffset = 12"
definition kIpv4MappedMarkerOffset :: nat where "kIpv4MappedMarkerOffset = 10"
definition kIpv4MappedMarker :: "8 word" where "kIpv4MappedMarker = 0xFF"
definition kUnixSocketMode :: nat where "kUnixSocketMode = 432"

text \<open>What a C function sees of a buffer that a string was copied into.\<close>

definition c_str :: "bytes \<Rightarrow> bytes" where
  "c_str t = takeWhile (\<lambda>c. c \<noteq> CHR 0x00) t"

definition socket_is_ipv4_mapped :: "octets \<Rightarrow> bool" where
  "socket_is_ipv4_mapped b \<longleftrightarrow>
     (if \<exists>index \<in> set [0..<kIpv4MappedMarkerOffset]. b ! index \<noteq> 0 then False
      else b ! kIpv4MappedMarkerOffset = kIpv4MappedMarker \<and> b ! (kIpv4MappedMarkerOffset + 1) = kIpv4MappedMarker)"

definition is_wildcard_address :: "bytes \<Rightarrow> bool" where
  "is_wildcard_address bind_address \<longleftrightarrow> bind_address = [] \<or> bind_address = ''::'' \<or> bind_address = ''0.0.0.0'' \<or> bind_address = ''*''"

text \<open>The bytes of a peer address that shows an IPv4 address: a zeroed array, the marker and the address.\<close>

definition mapped_bytes :: "octets \<Rightarrow> octets" where
  "mapped_bytes quad =
     take kIpv4AddressOffset ((replicate kIpv6ByteCount 0)
        [kIpv4MappedMarkerOffset := kIpv4MappedMarker, kIpv4MappedMarkerOffset + 1 := kIpv4MappedMarker]) @ quad"

definition parse_literal_address ::
  "(bytes \<Rightarrow> octets option) \<Rightarrow> (bytes \<Rightarrow> octets option) \<Rightarrow> bytes \<Rightarrow> peer_address option" where
  "parse_literal_address pton4 pton6 t =
     (if t = [] \<or> length t \<ge> kInet6AddrStrLen + 1 then None
      else case pton4 (c_str t) of
        Some quad \<Rightarrow> Some (default_peer\<lparr>peer_is_v4 := True, peer_bytes := mapped_bytes quad\<rparr>)
      | None \<Rightarrow>
          (case pton6 (c_str t) of
             Some sixteen \<Rightarrow> Some (default_peer\<lparr>peer_bytes := sixteen, peer_is_v4 := socket_is_ipv4_mapped sixteen\<rparr>)
           | None \<Rightarrow> None))"

datatype socket_error =
    Not_A_Literal bytes | Socket_Failed | ReuseAddr_Failed | V6only_Failed | Bind_Failed | Listen_Failed
  | Unix_Path_Invalid bytes | Inspect_Failed | Not_A_Socket | Probe_Failed | Live_Listener | May_Be_Active
  | Recheck_Failed | Changed_While_Probed | Remove_Failed | Bind_After_Cleanup_Failed | Bound_Inspect_Failed
  | Bound_Replaced | Chmod_Failed | Getsockname_Failed | Eventfd_Failed

definition fill_bind_address ::
  "(bytes \<Rightarrow> octets option) \<Rightarrow> (bytes \<Rightarrow> octets option) \<Rightarrow> bytes \<Rightarrow> 16 word \<Rightarrow> (socket_error, sockaddr) expected" where
  "fill_bind_address pton4 pton6 bind_address port =
     (if bind_address = ''0.0.0.0'' then Inr (Sockaddr_In (htons port) [0, 0, 0, 0])
      else if is_wildcard_address bind_address then Inr (Sockaddr_In6 (htons port) (replicate kIpv6ByteCount 0))
      else if length bind_address \<ge> kInet6AddrStrLen + 1 then Inl (Not_A_Literal bind_address)
      else case pton4 (c_str bind_address) of
        Some quad \<Rightarrow> Inr (Sockaddr_In (htons port) quad)
      | None \<Rightarrow>
          (case pton6 (c_str bind_address) of
             Some sixteen \<Rightarrow> Inr (Sockaddr_In6 (htons port) sixteen)
           | None \<Rightarrow> Inl (Not_A_Literal bind_address)))"

definition peer_address_from :: "sockaddr \<Rightarrow> peer_address" where
  "peer_address_from address =
     (case address of
        Sockaddr_In port quad \<Rightarrow>
          default_peer\<lparr>peer_is_v4 := True, peer_port := unat (ntohs port), peer_bytes := mapped_bytes quad\<rparr>
      | Sockaddr_In6 port sixteen \<Rightarrow>
          default_peer\<lparr>peer_port := unat (ntohs port), peer_bytes := sixteen, peer_is_v4 := socket_is_ipv4_mapped sixteen\<rparr>
      | Sockaddr_Un \<Rightarrow> default_peer\<lparr>peer_is_unix := True\<rparr>
      | Sockaddr_Other \<Rightarrow> default_peer)"

text \<open>\<open>peer_address_of\<close>, with the answer of \<open>getpeername\<close>.\<close>

definition peer_address_of :: "sockaddr option \<Rightarrow> peer_address option" where
  "peer_address_of answer = map_option peer_address_from answer"

definition bind_address_is_local ::
  "(bytes \<Rightarrow> octets option) \<Rightarrow> (bytes \<Rightarrow> octets option) \<Rightarrow> bytes \<Rightarrow> bool" where
  "bind_address_is_local pton4 pton6 bind_address \<longleftrightarrow>
     (if is_wildcard_address bind_address then False
      else if bind_address = ''localhost'' then True
      else case parse_literal_address pton4 pton6 bind_address of None \<Rightarrow> False | Some address \<Rightarrow> is_loopback address)"

section \<open>The kernel\<close>

record identity =
  id_device :: nat
  id_inode :: nat

record node =
  fl_socket :: bool
  fl_identity :: identity
  fl_live :: bool
  fl_mode :: nat

record open_socket =
  os_reuse_addr :: bool
  os_reuse_port :: bool
  os_v6only :: bool
  os_address :: "sockaddr option"
  os_file :: "identity option"
  os_backlog :: "int option"

datatype sys_errno = ENOENT | ECONNREFUSED | EADDRINUSE | EOTHER nat

record kernel =
  kn_files :: "bytes \<Rightarrow> node option"
  kn_sockets :: "int \<Rightarrow> open_socket option"
  kn_next_fd :: int
  kn_next_inode :: nat
  kn_ports :: "16 word list"
  kn_failures :: "nat option list"
  kn_others :: "((bytes \<Rightarrow> node option) \<Rightarrow> (bytes \<Rightarrow> node option)) list"

definition failure :: "kernel \<Rightarrow> nat option \<times> kernel" where
  "failure k = (case kn_failures k of [] \<Rightarrow> (None, k) | f # fs \<Rightarrow> (f, k\<lparr>kn_failures := fs\<rparr>))"

definition others :: "kernel \<Rightarrow> kernel" where
  "others k = (case kn_others k of [] \<Rightarrow> k | change # changes \<Rightarrow> k\<lparr>kn_files := change (kn_files k), kn_others := changes\<rparr>)"

definition sys_socket :: "kernel \<Rightarrow> int option \<times> kernel" where
  "sys_socket k =
     (case failure k of
        (Some _, k) \<Rightarrow> (None, k)
      | (None, k) \<Rightarrow>
          (Some (kn_next_fd k),
           k\<lparr>kn_next_fd := kn_next_fd k + 1,
             kn_sockets := (kn_sockets k)(kn_next_fd k \<mapsto>
               \<lparr>os_reuse_addr = False, os_reuse_port = False, os_v6only = True, os_address = None, os_file = None,
                os_backlog = None\<rparr>)\<rparr>))"

text \<open>The names of the socket file a descriptor is bound to gain or lose their listener.\<close>

definition mark_live :: "identity option \<Rightarrow> bool \<Rightarrow> (bytes \<Rightarrow> node option) \<Rightarrow> bytes \<Rightarrow> node option" where
  "mark_live i live files =
     (\<lambda>path. map_option (\<lambda>f. if i = Some (fl_identity f) then f\<lparr>fl_live := live\<rparr> else f) (files path))"

definition sys_close :: "int \<Rightarrow> kernel \<Rightarrow> kernel" where
  "sys_close fd k =
     (case kn_sockets k fd of
        None \<Rightarrow> k
      | Some s \<Rightarrow> k\<lparr>kn_sockets := (kn_sockets k)(fd := None), kn_files := mark_live (os_file s) False (kn_files k)\<rparr>)"

definition update_socket :: "int \<Rightarrow> (open_socket \<Rightarrow> open_socket) \<Rightarrow> kernel \<Rightarrow> kernel" where
  "update_socket fd change k = k\<lparr>kn_sockets := (kn_sockets k)(fd := map_option change (kn_sockets k fd))\<rparr>"

definition sys_setsockopt :: "int \<Rightarrow> (open_socket \<Rightarrow> open_socket) \<Rightarrow> kernel \<Rightarrow> bool \<times> kernel" where
  "sys_setsockopt fd change k =
     (case failure k of (Some _, k) \<Rightarrow> (False, k) | (None, k) \<Rightarrow> (True, update_socket fd change k))"

text \<open>Port zero is replaced by one the kernel chooses.\<close>

definition choose_port :: "sockaddr \<Rightarrow> kernel \<Rightarrow> sockaddr \<times> kernel" where
  "choose_port address k =
     (if address \<in> {Sockaddr_Un, Sockaddr_Other} \<or> sin_port address \<noteq> 0 then (address, k)
      else
        let (port, k) = (case kn_ports k of [] \<Rightarrow> (32768, k) | p # ps \<Rightarrow> (p, k\<lparr>kn_ports := ps\<rparr>)) in
        (if is_Sockaddr_In address then Sockaddr_In (htons port) (sin_addr address)
         else Sockaddr_In6 (htons port) (sin_addr address), k))"

definition sys_bind :: "int \<Rightarrow> sockaddr \<Rightarrow> kernel \<Rightarrow> bool \<times> kernel" where
  "sys_bind fd address k =
     (case failure k of
        (Some _, k) \<Rightarrow> (False, k)
      | (None, k) \<Rightarrow> (let (address, k) = choose_port address k in (True, update_socket fd (\<lambda>s. s\<lparr>os_address := Some address\<rparr>) k)))"

definition sys_bind_unix :: "int \<Rightarrow> bytes \<Rightarrow> kernel \<Rightarrow> sys_errno option \<times> kernel" where
  "sys_bind_unix fd path k =
     (case failure (others k) of
        (Some n, k) \<Rightarrow> (Some (EOTHER n), k)
      | (None, k) \<Rightarrow>
          if kn_files k path \<noteq> None then (Some EADDRINUSE, k)
          else
            let i = \<lparr>id_device = 0, id_inode = kn_next_inode k\<rparr> in
            (None, update_socket fd (\<lambda>s. s\<lparr>os_address := Some Sockaddr_Un, os_file := Some i\<rparr>)
               (k\<lparr>kn_next_inode := kn_next_inode k + 1,
                 kn_files := (kn_files k)(path \<mapsto> \<lparr>fl_socket = True, fl_identity = i, fl_live = False, fl_mode = 493\<rparr>)\<rparr>)))"

definition sys_listen :: "int \<Rightarrow> int \<Rightarrow> kernel \<Rightarrow> bool \<times> kernel" where
  "sys_listen fd backlog k =
     (case failure k of
        (Some _, k) \<Rightarrow> (False, k)
      | (None, k) \<Rightarrow>
          (True, update_socket fd (\<lambda>s. s\<lparr>os_backlog := Some backlog\<rparr>)
             (k\<lparr>kn_files := mark_live (Option.bind (kn_sockets k fd) os_file) True (kn_files k)\<rparr>)))"

definition sys_lstat :: "bytes \<Rightarrow> kernel \<Rightarrow> (sys_errno, node) expected \<times> kernel" where
  "sys_lstat path k =
     (case failure (others k) of
        (Some n, k) \<Rightarrow> (Inl (EOTHER n), k)
      | (None, k) \<Rightarrow> (case kn_files k path of None \<Rightarrow> (Inl ENOENT, k) | Some f \<Rightarrow> (Inr f, k)))"

definition sys_connect :: "bytes \<Rightarrow> kernel \<Rightarrow> sys_errno option \<times> kernel" where
  "sys_connect path k =
     (case failure (others k) of
        (Some n, k) \<Rightarrow> (Some (EOTHER n), k)
      | (None, k) \<Rightarrow>
          (case kn_files k path of None \<Rightarrow> (Some ENOENT, k)
           | Some f \<Rightarrow> (if fl_socket f \<and> fl_live f then None else Some ECONNREFUSED, k)))"

definition sys_unlink :: "bytes \<Rightarrow> kernel \<Rightarrow> sys_errno option \<times> kernel" where
  "sys_unlink path k =
     (case failure k of
        (Some n, k) \<Rightarrow> (Some (EOTHER n), k)
      | (None, k) \<Rightarrow>
          if kn_files k path = None then (Some ENOENT, k)
          else (None, k\<lparr>kn_files := (kn_files k)(path := None)\<rparr>))"

definition sys_chmod :: "bytes \<Rightarrow> nat \<Rightarrow> kernel \<Rightarrow> bool \<times> kernel" where
  "sys_chmod path mode k =
     (case failure (others k) of
        (Some _, k) \<Rightarrow> (False, k)
      | (None, k) \<Rightarrow>
          (case kn_files k path of None \<Rightarrow> (False, k)
           | Some f \<Rightarrow> (True, k\<lparr>kn_files := (kn_files k)(path \<mapsto> f\<lparr>fl_mode := mode\<rparr>)\<rparr>)))"

section \<open>Listening sockets\<close>

definition bind_tcp_listener ::
  "(bytes \<Rightarrow> octets option) \<Rightarrow> (bytes \<Rightarrow> octets option) \<Rightarrow> bytes \<Rightarrow> 16 word \<Rightarrow> int \<Rightarrow> bool \<Rightarrow> kernel \<Rightarrow>
     (socket_error, int) expected \<times> kernel" where
  "bind_tcp_listener pton4 pton6 bind_address port backlog reuse_port k =
     (case fill_bind_address pton4 pton6 bind_address port of
        Inl error \<Rightarrow> (Inl error, k)
      | Inr address \<Rightarrow>
          (case sys_socket k of
             (None, k) \<Rightarrow> (Inl Socket_Failed, k)
           | (Some fd, k) \<Rightarrow>
               let (enabled, k) = sys_setsockopt fd (\<lambda>s. s\<lparr>os_reuse_addr := True\<rparr>) k in
               if \<not> enabled then (Inl ReuseAddr_Failed, sys_close fd k)
               else
                 let k = (if reuse_port then snd (sys_setsockopt fd (\<lambda>s. s\<lparr>os_reuse_port := True\<rparr>) k) else k);
                     (cleared, k) = (if is_Sockaddr_In6 address \<and> is_wildcard_address bind_address
                                     then sys_setsockopt fd (\<lambda>s. s\<lparr>os_v6only := False\<rparr>) k else (True, k))
                 in if \<not> cleared then (Inl V6only_Failed, sys_close fd k)
                 else
                   let (bound, k) = sys_bind fd address k in
                   if \<not> bound then (Inl Bind_Failed, sys_close fd k)
                   else
                     let (listening, k) = sys_listen fd backlog k in
                     if \<not> listening then (Inl Listen_Failed, sys_close fd k) else (Inr fd, k)))"

definition resolved_port_of :: "int \<Rightarrow> kernel \<Rightarrow> (socket_error, 16 word) expected \<times> kernel" where
  "resolved_port_of fd k =
     (case failure k of
        (Some _, k) \<Rightarrow> (Inl Getsockname_Failed, k)
      | (None, k) \<Rightarrow>
          (case Option.bind (kn_sockets k fd) os_address of
             Some (Sockaddr_In port _) \<Rightarrow> (Inr (ntohs port), k)
           | Some (Sockaddr_In6 port _) \<Rightarrow> (Inr (ntohs port), k)
           | _ \<Rightarrow> (Inr 0, k)))"

section \<open>Unix-domain sockets\<close>

text \<open>The size of \<open>sun_path\<close>.\<close>

definition kSunPathBytes :: nat where "kSunPathBytes = 108"

definition same_unix_socket :: "node \<Rightarrow> identity \<Rightarrow> bool" where
  "same_unix_socket status i \<longleftrightarrow>
     fl_socket status \<and> id_device (fl_identity status) = id_device i \<and> id_inode (fl_identity status) = id_inode i"

definition unlink_owned_unix_socket :: "bytes \<Rightarrow> identity \<Rightarrow> kernel \<Rightarrow> kernel" where
  "unlink_owned_unix_socket path i k =
     (case sys_lstat path k of
        (Inl _, k) \<Rightarrow> k
      | (Inr current, k) \<Rightarrow> if \<not> same_unix_socket current i then k else snd (sys_unlink path k))"

definition remove_probed :: "bytes \<Rightarrow> node \<Rightarrow> kernel \<Rightarrow> socket_error option \<times> kernel" where
  "remove_probed path before k =
     (case sys_lstat path k of
        (Inl ENOENT, k) \<Rightarrow> (None, k)
      | (Inl _, k) \<Rightarrow> (Some Recheck_Failed, k)
      | (Inr after, k) \<Rightarrow>
          if \<not> same_unix_socket after (fl_identity before) then (Some Changed_While_Probed, k)
          else (case sys_unlink path k of
             (None, k) \<Rightarrow> (None, k)
           | (Some ENOENT, k) \<Rightarrow> (None, k)
           | (Some _, k) \<Rightarrow> (Some Remove_Failed, k)))"

text \<open>The probe is closed at the end of the function, on every path.\<close>

definition remove_stale_unix_socket :: "bytes \<Rightarrow> kernel \<Rightarrow> socket_error option \<times> kernel" where
  "remove_stale_unix_socket path k =
     (case sys_lstat path k of
        (Inl ENOENT, k) \<Rightarrow> (None, k)
      | (Inl _, k) \<Rightarrow> (Some Inspect_Failed, k)
      | (Inr before, k) \<Rightarrow>
          if \<not> fl_socket before then (Some Not_A_Socket, k)
          else (case sys_socket k of
             (None, k) \<Rightarrow> (Some Probe_Failed, k)
           | (Some probe, k) \<Rightarrow>
               apsnd (sys_close probe)
                 (case sys_connect path k of
                    (None, k) \<Rightarrow> (Some Live_Listener, k)
                  | (Some ENOENT, k) \<Rightarrow> (None, k)
                  | (Some ECONNREFUSED, k) \<Rightarrow> remove_probed path before k
                  | (Some _, k) \<Rightarrow> (Some May_Be_Active, k))))"

text \<open>The first or, after cleaning up, the second \<open>bind\<close>.\<close>

definition bind_reclaiming :: "int \<Rightarrow> bytes \<Rightarrow> kernel \<Rightarrow> socket_error option \<times> kernel" where
  "bind_reclaiming fd path k =
     (case sys_bind_unix fd path k of
        (None, k) \<Rightarrow> (None, k)
      | (Some EADDRINUSE, k) \<Rightarrow>
          (case remove_stale_unix_socket path k of
             (Some error, k) \<Rightarrow> (Some error, k)
           | (None, k) \<Rightarrow>
               (case sys_bind_unix fd path k of (None, k) \<Rightarrow> (None, k) | (Some _, k) \<Rightarrow> (Some Bind_After_Cleanup_Failed, k)))
      | (Some _, k) \<Rightarrow> (Some Bind_Failed, k))"

text \<open>The second half of \<open>bind_unix_listener\<close>, from the moment the name is bound.\<close>

definition publish_bound :: "int \<Rightarrow> bytes \<Rightarrow> int \<Rightarrow> kernel \<Rightarrow> (socket_error, int \<times> identity) expected \<times> kernel" where
  "publish_bound fd path backlog k =
     (case sys_lstat path k of
        (Inl _, k) \<Rightarrow> (Inl Bound_Inspect_Failed, sys_close fd k)
      | (Inr status, k) \<Rightarrow>
          if \<not> fl_socket status then (Inl Bound_Replaced, sys_close fd k)
          else
            let i = fl_identity status; (changed, k) = sys_chmod path kUnixSocketMode k in
            if \<not> changed then (Inl Chmod_Failed, sys_close fd (unlink_owned_unix_socket path i k))
            else
              let (listening, k) = sys_listen fd backlog k in
              if \<not> listening then (Inl Listen_Failed, sys_close fd (unlink_owned_unix_socket path i k))
              else (Inr (fd, i), k))"

definition bind_unix_listener :: "bytes \<Rightarrow> int \<Rightarrow> kernel \<Rightarrow> (socket_error, int \<times> identity) expected \<times> kernel" where
  "bind_unix_listener path backlog k =
     (if path = [] \<or> length path \<ge> kSunPathBytes \<or> CHR 0x00 \<in> set path then (Inl (Unix_Path_Invalid path), k)
      else case sys_socket k of
        (None, k) \<Rightarrow> (Inl Socket_Failed, k)
      | (Some fd, k) \<Rightarrow>
          (case bind_reclaiming fd path k of
             (Some error, k) \<Rightarrow> (Inl error, sys_close fd k)
           | (None, k) \<Rightarrow> publish_bound fd path backlog k))"

section \<open>Accepting, options and event descriptors\<close>

datatype accept_errno =
    Errno_EAGAIN | Errno_EWOULDBLOCK | Errno_EINTR | Errno_ECONNABORTED | Errno_EPROTO | Errno_EMFILE | Errno_ENFILE
  | Errno_ENOBUFS | Errno_ENOMEM | Errno_EPERM | Errno_Other nat

datatype accept_status = Status_Accepted | Status_WouldBlock | Status_TransientError | Status_FatalError

record accept_result =
  ac_status :: accept_status
  ac_fd :: "int option"
  ac_peer :: peer_address

definition accept_connection :: "(accept_errno, int \<times> sockaddr) expected \<Rightarrow> accept_result" where
  "accept_connection answer =
     (let result = \<lparr>ac_status = Status_FatalError, ac_fd = None, ac_peer = default_peer\<rparr> in
      case answer of
        Inr (accepted, address) \<Rightarrow>
          result\<lparr>ac_status := Status_Accepted, ac_fd := Some accepted, ac_peer := peer_address_from address\<rparr>
      | Inl e \<Rightarrow>
          if e \<in> {Errno_EAGAIN, Errno_EWOULDBLOCK} then result\<lparr>ac_status := Status_WouldBlock\<rparr>
          else if e \<in> {Errno_EINTR, Errno_ECONNABORTED, Errno_EPROTO, Errno_EMFILE, Errno_ENFILE, Errno_ENOBUFS,
              Errno_ENOMEM, Errno_EPERM} then result\<lparr>ac_status := Status_TransientError\<rparr>
          else result\<lparr>ac_status := Status_FatalError\<rparr>)"

text \<open>\<open>reuse_port_supported\<close>: the probe socket is closed at the end of its scope.\<close>

definition reuse_port_supported :: "kernel \<Rightarrow> bool \<times> kernel" where
  "reuse_port_supported k =
     (case sys_socket k of
        (None, k) \<Rightarrow> (False, k)
      | (Some probe, k) \<Rightarrow> apsnd (sys_close probe) (sys_setsockopt probe (\<lambda>s. s\<lparr>os_reuse_port := True\<rparr>) k))"

text \<open>The counter of an event descriptor holds at most this; a write that would exceed it fails. The tape says
  which of the next calls are interrupted.\<close>

definition kEventFdMax :: nat where "kEventFdMax = 2 ^ 64 - 2"
definition kEventFdTicket :: nat where "kEventFdTicket = 1"

fun eventfd_signal :: "bool list \<Rightarrow> nat \<Rightarrow> nat" where
  "eventfd_signal (True # interrupted) counter = eventfd_signal interrupted counter"
| "eventfd_signal _ counter = (if counter + kEventFdTicket > kEventFdMax then counter else counter + kEventFdTicket)"

fun eventfd_drain :: "bool list \<Rightarrow> nat \<Rightarrow> nat" where
  "eventfd_drain [] counter = 0"
| "eventfd_drain (True # interrupted) counter = eventfd_drain interrupted counter"
| "eventfd_drain (False # interrupted) counter = (if counter > 0 then eventfd_drain interrupted 0 else counter)"

section \<open>Peers and bind addresses\<close>

lemma ntohs_htons [simp]: "ntohs (htons w) = w"
  by (rule bit_word_eqI) (auto simp: ntohs_def htons_def bit_simps)

lemma mapped_bytes_eq: "mapped_bytes quad = replicate 10 0 @ [0xFF, 0xFF] @ quad"
  by (simp add: mapped_bytes_def kIpv4AddressOffset_def kIpv6ByteCount_def kIpv4MappedMarkerOffset_def kIpv4MappedMarker_def
      numeral_eq_Suc)

lemma socket_is_ipv4_mapped_mapped [simp]: "socket_is_ipv4_mapped (mapped_bytes quad)"
  by (auto simp: socket_is_ipv4_mapped_def mapped_bytes_eq kIpv4MappedMarkerOffset_def kIpv4MappedMarker_def nth_append)

lemma socket_is_ipv4_mapped_eq: "socket_is_ipv4_mapped = is_ipv4_mapped"
  by (auto simp: fun_eq_iff socket_is_ipv4_mapped_def is_ipv4_mapped_def cidr_consts kMappedMarkerByte_def
      kIpv4MappedMarkerOffset_def kIpv4MappedMarker_def)

text \<open>A client is the same peer whichever socket it comes through. An IPv4 client of an IPv4 listener and of
  the dual-stack listener, which sees it as an IPv4-mapped address, has the same address, so the limit per
  source and the allow list treat it alike; an address is shown as IPv4 exactly when its bytes are of the
  mapped form, and the allow list looks at the bytes alone.\<close>

theorem peer_independent_of_listener:
  "peer_address_from (Sockaddr_In port quad) = peer_address_from (Sockaddr_In6 port (mapped_bytes quad)) \<and>
   (let peer = peer_address_from (Sockaddr_In6 port sixteen) in
      \<not> peer_is_unix peer \<and> peer_bytes peer = sixteen \<and> (peer_is_v4 peer \<longleftrightarrow> is_ipv4_mapped sixteen) \<and>
      (\<forall>rules. allows rules peer \<longleftrightarrow> rules = [] \<or> (\<exists>rule \<in> set rules. matches rule sixteen)))"
  by (auto simp: peer_address_from_def default_peer_def socket_is_ipv4_mapped_eq [symmetric] allows_def Let_def)

lemma c_str_id: "CHR 0x00 \<notin> set t \<Longrightarrow> c_str t = t"
  by (simp add: c_str_def takeWhile_eq_all_conv) blast

text \<open>A listener counts as local exactly when the address it is bound to is a loopback address. So no
  listener that others can reach escapes the warning about a public address, whatever spelling of the
  address the configuration uses; the literals are what \<open>inet_pton\<close> says they are, and \<open>localhost\<close> is none.\<close>

theorem local_iff_bound_to_loopback:
  assumes "pton4 ''localhost'' = None" and "pton6 ''localhost'' = None"
    and "fill_bind_address pton4 pton6 bind_address port = Inr address"
  shows "bind_address_is_local pton4 pton6 bind_address \<longleftrightarrow> is_loopback (peer_address_from address)"
proof (cases "is_wildcard_address bind_address")
  case True
  then have "address \<in> {Sockaddr_In (htons port) [0, 0, 0, 0], Sockaddr_In6 (htons port) (replicate kIpv6ByteCount 0)}"
    using assms(3) by (auto simp: fill_bind_address_def split: if_splits)
  then have "\<not> is_loopback (peer_address_from address)"
    by (auto simp: is_loopback_def peer_address_from_def default_peer_def mapped_bytes_eq cidr_consts socket_is_ipv4_mapped_eq
        is_ipv4_mapped_def is_ipv6_loopback_def kMappedMarkerByte_def nth_append)
  then show ?thesis using True by (simp add: bind_address_is_local_def)
next
  case False
  then have t: "bind_address \<noteq> []" "bind_address \<noteq> ''0.0.0.0''" by (auto simp: is_wildcard_address_def)
  have "c_str ''localhost'' = ''localhost''" "\<not> is_wildcard_address ''localhost''" by code_simp+
  then have "fill_bind_address pton4 pton6 ''localhost'' port = Inl (Not_A_Literal ''localhost'')"
    using assms(1,2) by (simp add: fill_bind_address_def kInet6AddrStrLen_def)
  then have l: "bind_address \<noteq> ''localhost''" using assms(3) by auto
  have "parse_literal_address pton4 pton6 bind_address =
      Some (peer_address_from address\<lparr>peer_port := 0\<rparr>)"
    using assms(3) False t
    by (auto simp: fill_bind_address_def parse_literal_address_def peer_address_from_def default_peer_def
        split: if_splits option.splits)
  then show ?thesis using False l by (simp add: bind_address_is_local_def is_loopback_def)
qed

section \<open>What the calls change\<close>

text \<open>Descriptors and inodes a new object gets are unused.\<close>

definition kernel_ok :: "kernel \<Rightarrow> bool" where
  "kernel_ok k \<longleftrightarrow> (\<forall>fd \<ge> kn_next_fd k. kn_sockets k fd = None) \<and>
     (\<forall>path f. kn_files k path = Some f \<longrightarrow> id_inode (fl_identity f) < kn_next_inode k)"

definition fresh_socket :: open_socket where
  "fresh_socket = \<lparr>os_reuse_addr = False, os_reuse_port = False, os_v6only = True, os_address = None, os_file = None,
     os_backlog = None\<rparr>"

lemma failure_cases:
  obtains (failed) n fs where "failure k = (Some n, k\<lparr>kn_failures := fs\<rparr>)"
  | (passed) fs where "failure k = (None, k\<lparr>kn_failures := fs\<rparr>)"
proof (cases "kn_failures k")
  case Nil
  then show ?thesis using passed [of "[]"] by (cases k) (simp add: failure_def)
next
  case (Cons f fs)
  then show ?thesis using that by (cases f) (auto simp: failure_def)
qed

lemma others_quiet [simp]: "kn_others k = [] \<Longrightarrow> others k = k"
  by (simp add: others_def)

lemma sys_socket_cases:
  assumes "sys_socket k = (r, k')"
  obtains (failed) fs where "r = None" "k' = k\<lparr>kn_failures := fs\<rparr>"
  | (opened) fs where "r = Some (kn_next_fd k)"
      "k' = k\<lparr>kn_failures := fs, kn_next_fd := kn_next_fd k + 1, kn_sockets := (kn_sockets k)(kn_next_fd k \<mapsto> fresh_socket)\<rparr>"
  by (cases k rule: failure_cases) (use assms that in \<open>auto simp: sys_socket_def fresh_socket_def\<close>)

lemma sys_setsockopt_cases:
  assumes "sys_setsockopt fd change k = (r, k')"
  obtains (failed) fs where "\<not> r" "k' = k\<lparr>kn_failures := fs\<rparr>"
  | (set) fs where "r" "k' = update_socket fd change (k\<lparr>kn_failures := fs\<rparr>)"
  by (cases k rule: failure_cases) (use assms that in \<open>auto simp: sys_setsockopt_def\<close>)

lemma sys_lstat_cases:
  assumes "sys_lstat path k = (r, k')" and "kn_others k = []"
  obtains (failed) fs n where "r = Inl (EOTHER n)" "k' = k\<lparr>kn_failures := fs\<rparr>"
  | (absent) fs where "r = Inl ENOENT" "kn_files k path = None" "k' = k\<lparr>kn_failures := fs\<rparr>"
  | (found) fs f where "r = Inr f" "kn_files k path = Some f" "k' = k\<lparr>kn_failures := fs\<rparr>"
  by (cases k rule: failure_cases; cases "kn_files k path") (use assms that in \<open>auto simp: sys_lstat_def\<close>)

lemma sys_connect_cases:
  assumes "sys_connect path k = (r, k')" and "kn_others k = []"
  obtains (failed) fs n where "r = Some (EOTHER n)" "k' = k\<lparr>kn_failures := fs\<rparr>"
  | (absent) fs where "r = Some ENOENT" "kn_files k path = None" "k' = k\<lparr>kn_failures := fs\<rparr>"
  | (refused) fs f where "r = Some ECONNREFUSED" "kn_files k path = Some f" "\<not> (fl_socket f \<and> fl_live f)"
      "k' = k\<lparr>kn_failures := fs\<rparr>"
  | (accepted) fs f where "r = None" "kn_files k path = Some f" "fl_live f" "k' = k\<lparr>kn_failures := fs\<rparr>"
  by (cases k rule: failure_cases; cases "kn_files k path") (use assms that in \<open>auto simp: sys_connect_def split: if_splits\<close>)

lemma sys_unlink_cases:
  assumes "sys_unlink path k = (r, k')"
  obtains (failed) fs n where "r = Some (EOTHER n)" "k' = k\<lparr>kn_failures := fs\<rparr>"
  | (absent) fs where "r = Some ENOENT" "kn_files k path = None" "k' = k\<lparr>kn_failures := fs\<rparr>"
  | (removed) fs where "r = None" "k' = k\<lparr>kn_failures := fs, kn_files := (kn_files k)(path := None)\<rparr>"
  by (cases k rule: failure_cases; cases "kn_files k path") (use assms that in \<open>auto simp: sys_unlink_def split: if_splits\<close>)

lemma sys_chmod_cases:
  assumes "sys_chmod path mode k = (r, k')" and "kn_others k = []"
  obtains (failed) fs where "\<not> r" "k' = k\<lparr>kn_failures := fs\<rparr>"
  | (changed) fs f where "r" "kn_files k path = Some f"
      "k' = k\<lparr>kn_failures := fs, kn_files := (kn_files k)(path \<mapsto> f\<lparr>fl_mode := mode\<rparr>)\<rparr>"
  by (cases k rule: failure_cases; cases "kn_files k path") (use assms that in \<open>auto simp: sys_chmod_def\<close>)

definition new_identity :: "kernel \<Rightarrow> identity" where
  "new_identity k = \<lparr>id_device = 0, id_inode = kn_next_inode k\<rparr>"

definition bound_file :: "kernel \<Rightarrow> bool \<Rightarrow> nat \<Rightarrow> node" where
  "bound_file k live mode = \<lparr>fl_socket = True, fl_identity = new_identity k, fl_live = live, fl_mode = mode\<rparr>"

lemma sys_bind_unix_cases:
  assumes "sys_bind_unix fd path k = (r, k')" and "kn_others k = []"
  obtains (failed) fs n where "r = Some (EOTHER n)" "k' = k\<lparr>kn_failures := fs\<rparr>"
  | (in_use) fs f where "r = Some EADDRINUSE" "kn_files k path = Some f" "k' = k\<lparr>kn_failures := fs\<rparr>"
  | (bound) fs where "r = None" "kn_files k path = None"
      "k' = update_socket fd (\<lambda>s. s\<lparr>os_address := Some Sockaddr_Un, os_file := Some (new_identity k)\<rparr>)
         (k\<lparr>kn_failures := fs, kn_next_inode := kn_next_inode k + 1,
           kn_files := (kn_files k)(path \<mapsto> bound_file k False 493)\<rparr>)"
  by (cases k rule: failure_cases; cases "kn_files k path") (use assms that in \<open>auto simp: sys_bind_unix_def new_identity_def bound_file_def Let_def\<close>)

lemma kernel_same [simp]: "k\<lparr>kn_sockets := kn_sockets k\<rparr> = k" "k\<lparr>kn_files := kn_files k\<rparr> = k"
  by (cases k; simp)+

lemma same_unix_socket_iff: "same_unix_socket f i \<longleftrightarrow> fl_socket f \<and> fl_identity f = i"
  by (cases i; cases "fl_identity f") (simp add: same_unix_socket_def)

lemma mark_live_None [simp]: "mark_live None live files = files"
  by (simp add: mark_live_def option.map_ident)

lemma mark_live_gone: "\<forall>p g. files p = Some g \<longrightarrow> fl_identity g \<noteq> i \<Longrightarrow> mark_live (Some i) live files = files"
  by (rule ext, rename_tac p, case_tac "files p") (auto simp: mark_live_def)

lemma mark_live_only:
  assumes "files path = Some f" and "fl_identity f = i" and "\<forall>p g. files p = Some g \<and> p \<noteq> path \<longrightarrow> fl_identity g \<noteq> i"
  shows "mark_live (Some i) live files = files(path \<mapsto> f\<lparr>fl_live := live\<rparr>)"
proof
  fix p show "mark_live (Some i) live files p = (files(path \<mapsto> f\<lparr>fl_live := live\<rparr>)) p"
    using assms(1,2) assms(3) [rule_format, of p] by (cases "files p"; cases "p = path") (auto simp: mark_live_def)
qed

lemma close_unbound:
  "kn_sockets k fd = Some s \<Longrightarrow> os_file s = None \<Longrightarrow> sys_close fd k = k\<lparr>kn_sockets := (kn_sockets k)(fd := None)\<rparr>"
  by (cases k) (simp add: sys_close_def)

lemma remove_probed_cases:
  assumes "remove_probed path before k = (r, k')" and "kn_others k = []" and "kn_files k path = Some before"
    and "fl_socket before"
  obtains (kept) fs e where "r = Some e" "k' = k\<lparr>kn_failures := fs\<rparr>"
  | (removed) fs where "r = None" "k' = k\<lparr>kn_failures := fs, kn_files := (kn_files k)(path := None)\<rparr>"
proof -
  obtain looked k1 where l: "sys_lstat path k = (looked, k1)" by fastforce
  obtain gone k2 where u: "sys_unlink path k1 = (gone, k2)" by fastforce
  from l assms(2) show ?thesis
  proof (cases rule: sys_lstat_cases)
    case (found fs f)
    from u found show ?thesis
      by (cases rule: sys_unlink_cases) (use assms l u found that in \<open>auto simp: remove_probed_def same_unix_socket_iff\<close>)
  qed (use assms l that in \<open>auto simp: remove_probed_def\<close>)
qed

text \<open>A call that leaves the sockets as they were.\<close>

definition calm :: "kernel \<Rightarrow> kernel \<Rightarrow> bool" where
  "calm k k' \<longleftrightarrow> kn_sockets k' = kn_sockets k \<and> kn_others k' = kn_others k \<and> kn_next_inode k' = kn_next_inode k \<and>
     kn_next_fd k \<le> kn_next_fd k' \<and> set (kn_ports k') \<subseteq> set (kn_ports k)"

lemma calm_failures [simp]: "calm k (k\<lparr>kn_failures := fs\<rparr>)" "calm k (k\<lparr>kn_failures := fs, kn_files := files\<rparr>)"
  by (simp_all add: calm_def)

lemma remove_stale_cases:
  assumes "remove_stale_unix_socket path k = (r, k')" and "kn_others k = []" and "kernel_ok k"
  obtains (kept) "r = None \<longrightarrow> kn_files k path = None" "kn_files k' = kn_files k" "calm k k'"
  | (removed) f where "r = None" "kn_files k path = Some f" "fl_socket f" "\<not> fl_live f"
      "kn_files k' = (kn_files k)(path := None)" "calm k k'"
proof -
  obtain looked k1 where l: "sys_lstat path k = (looked, k1)" by fastforce
  from l assms(2) show ?thesis
  proof (cases rule: sys_lstat_cases)
    case (found fs before)
    show ?thesis
    proof (cases "fl_socket before")
      case True
      obtain fd k2 where o: "sys_socket k1 = (fd, k2)" by fastforce
      then show ?thesis
      proof (cases rule: sys_socket_cases)
        case (opened fs2)
        obtain c k3 where c: "sys_connect path k2 = (c, k3)" by fastforce
        have q: "kn_others k2 = []" "kn_files k2 path = Some before" using assms(2) found opened by simp_all
        have closed: "kn_files (sys_close (kn_next_fd k) k4) = kn_files k4 \<and> calm k (sys_close (kn_next_fd k) k4)"
          if "calm k2 k4" for k4
          using that opened found assms(3) by (auto simp: calm_def close_unbound fresh_socket_def kernel_ok_def)
        have eq: "(r, k') = apsnd (sys_close (kn_next_fd k)) (case (c, k3) of
            (None, k) \<Rightarrow> (Some Live_Listener, k) | (Some ENOENT, k) \<Rightarrow> (None, k)
          | (Some ECONNREFUSED, k) \<Rightarrow> remove_probed path before k | (Some _, k) \<Rightarrow> (Some May_Be_Active, k))"
          using assms(1) l o c opened(1) found True by (simp add: remove_stale_unix_socket_def)
        from c q(1) show ?thesis
        proof (cases rule: sys_connect_cases)
          case (refused fs3 f)
          obtain r4 k4 where rm: "remove_probed path before k3 = (r4, k4)" by fastforce
          then have k': "r = r4" "k' = sys_close (kn_next_fd k) k4" using eq refused(1) by auto
          have "kn_others k3 = []" "kn_files k3 path = Some before" using q refused by simp_all
          with rm show ?thesis using True
          proof (cases rule: remove_probed_cases)
            case (kept fs4 e)
            then show ?thesis using that(1) k' closed [of k4] refused(4) opened found by (simp add: calm_def)
          next
            case (removed fs4)
            then show ?thesis using that(2) [of before] k' closed [of k4] refused opened found q(2) True by (simp add: calm_def)
          qed
        qed (use eq q found opened closed [of k3] that(1) in \<open>auto simp: calm_def\<close>)
      qed (use assms l found True o that(1) in \<open>auto simp: remove_stale_unix_socket_def\<close>)
    qed (use assms l found that(1) in \<open>auto simp: remove_stale_unix_socket_def\<close>)
  qed (use assms l that(1) in \<open>auto simp: remove_stale_unix_socket_def\<close>)
qed

lemma kernel_ok_upd [simp]:
  "kernel_ok (k\<lparr>kn_failures := fs\<rparr>) \<longleftrightarrow> kernel_ok k"
  by (simp add: kernel_ok_def)

text \<open>A name is free for a listener when nothing has it but a socket nobody listens on.\<close>

definition reclaimable :: "kernel \<Rightarrow> bytes \<Rightarrow> bool" where
  "reclaimable k path \<longleftrightarrow> (\<forall>f. kn_files k path = Some f \<longrightarrow> fl_socket f \<and> \<not> fl_live f)"

lemma bind_reclaiming_cases:
  assumes "bind_reclaiming fd path k = (r, k')" and "kn_others k = []" and "kernel_ok k" and "kn_sockets k fd = Some s"
  obtains (failed) e where "r = Some e" "calm k k'"
      "kn_files k' = kn_files k \<or> reclaimable k path \<and> kn_files k' = (kn_files k)(path := None)"
  | (bound) "r = None" "reclaimable k path" "kn_files k' = (kn_files k)(path \<mapsto> bound_file k False 493)"
      "kn_sockets k' = (kn_sockets k)(fd \<mapsto> s\<lparr>os_address := Some Sockaddr_Un, os_file := Some (new_identity k)\<rparr>)"
      "kn_others k' = []" "kn_next_inode k' = kn_next_inode k + 1" "kn_next_fd k \<le> kn_next_fd k'"
      "set (kn_ports k') \<subseteq> set (kn_ports k)"
proof -
  obtain b k1 where b: "sys_bind_unix fd path k = (b, k1)" by fastforce
  from b assms(2) show ?thesis
  proof (cases rule: sys_bind_unix_cases)
    case (failed fs n)
    then show ?thesis using assms b that(1) by (auto simp: bind_reclaiming_def)
  next
    case (bound fs)
    then show ?thesis using assms b that(2) by (auto simp: bind_reclaiming_def update_socket_def reclaimable_def)
  next
    case (in_use fs f)
    obtain rs k2 where rs: "remove_stale_unix_socket path k1 = (rs, k2)" by fastforce
    obtain b2 k3 where b2: "sys_bind_unix fd path k2 = (b2, k3)" by fastforce
    have eq: "(r, k') = (case rs of Some error \<Rightarrow> (Some error, k2)
        | None \<Rightarrow> (case b2 of None \<Rightarrow> (None, k3) | Some _ \<Rightarrow> (Some Bind_After_Cleanup_Failed, k3)))"
      using assms(1) b rs b2 in_use by (cases rs; cases b2) (auto simp: bind_reclaiming_def)
    have q1: "kn_others k1 = []" "kernel_ok k1" using in_use assms by simp_all
    from rs q1 show ?thesis
    proof (cases rule: remove_stale_cases)
      case kept
      then show ?thesis using eq in_use that(1) by (cases rs) (auto simp: calm_def)
    next
      case (removed f2)
      have "kn_others k2 = []" using removed(6) q1 by (simp add: calm_def)
      with b2 show ?thesis
        by (cases rule: sys_bind_unix_cases) (use eq removed in_use assms(2,4) that in
          \<open>auto simp: update_socket_def reclaimable_def new_identity_def bound_file_def calm_def\<close>)
    qed
  qed
qed

lemma unlink_owned_cases:
  assumes "unlink_owned_unix_socket path i k = k'" and "kn_others k = []"
  obtains (kept) fs where "k' = k\<lparr>kn_failures := fs\<rparr>"
  | (removed) fs f where "kn_files k path = Some f" "fl_socket f" "fl_identity f = i"
      "k' = k\<lparr>kn_failures := fs, kn_files := (kn_files k)(path := None)\<rparr>"
proof -
  obtain looked k1 where l: "sys_lstat path k = (looked, k1)" by fastforce
  obtain gone k2 where u: "sys_unlink path k1 = (gone, k2)" by fastforce
  from l assms(2) show ?thesis
  proof (cases rule: sys_lstat_cases)
    case (found fs f)
    from u found show ?thesis
      by (cases rule: sys_unlink_cases)
        (use assms l u found that in \<open>auto simp: unlink_owned_unix_socket_def same_unix_socket_iff split: if_splits\<close>)
  qed (use assms l that in \<open>auto simp: unlink_owned_unix_socket_def\<close>)
qed

text \<open>Closing a socket that was bound to a new name: the name stays, and nobody listens on it.\<close>

lemma sys_close_fields [simp]:
  "kn_others (sys_close fd k) = kn_others k" "kn_next_inode (sys_close fd k) = kn_next_inode k"
  "kn_next_fd (sys_close fd k) = kn_next_fd k" "kn_ports (sys_close fd k) = kn_ports k" "kn_sockets (sys_close fd k) = (kn_sockets k)(fd := None)"
  by (auto simp: sys_close_def split: option.split)

lemma sys_close_file:
  "kn_files (sys_close fd k) p =
     map_option (\<lambda>f. if Option.bind (kn_sockets k fd) os_file = Some (fl_identity f) then f\<lparr>fl_live := False\<rparr> else f) (kn_files k p)"
  by (cases "kn_files k p") (auto simp: sys_close_def mark_live_def split: option.split)

lemma listen_bound:
  assumes "kn_sockets k fd = Some s" and "os_file s = Some i" and "kn_files k path = Some f" and "fl_identity f = i"
    and "\<forall>p g. kn_files k p = Some g \<and> p \<noteq> path \<longrightarrow> fl_identity g \<noteq> i" and "sys_listen fd backlog k = (r, k')"
  obtains (failed) fs where "\<not> r" "k' = k\<lparr>kn_failures := fs\<rparr>"
  | (listening) fs where "r" "k' = k\<lparr>kn_failures := fs, kn_files := (kn_files k)(path \<mapsto> f\<lparr>fl_live := True\<rparr>),
      kn_sockets := (kn_sockets k)(fd \<mapsto> s\<lparr>os_backlog := Some backlog\<rparr>)\<rparr>"
  by (cases k rule: failure_cases)
    (use assms(1,2,6) mark_live_only [OF assms(3-5)] that in \<open>auto simp: sys_listen_def update_socket_def\<close>)

text \<open>The names a new socket file has: the one it was bound to.\<close>

definition named_only :: "identity \<Rightarrow> bytes \<Rightarrow> kernel \<Rightarrow> bool" where
  "named_only i path k \<longleftrightarrow> (\<forall>p g. kn_files k p = Some g \<longrightarrow> (p = path \<longleftrightarrow> fl_identity g = i))"

lemma named_only_upd [simp]:
  "named_only i path (k\<lparr>kn_failures := fs\<rparr>) \<longleftrightarrow> named_only i path k"
  by (simp add: named_only_def)

definition abandoned :: "int \<Rightarrow> identity \<Rightarrow> bytes \<Rightarrow> kernel \<Rightarrow> kernel \<Rightarrow> bool" where
  "abandoned fd i path k k' \<longleftrightarrow> kn_sockets k' = (kn_sockets k)(fd := None) \<and> kn_others k' = kn_others k \<and>
     kn_next_inode k' = kn_next_inode k \<and> kn_next_fd k' = kn_next_fd k \<and> kn_ports k' = kn_ports k \<and>
     (\<forall>p. p \<noteq> path \<longrightarrow> kn_files k' p = kn_files k p) \<and>
     (\<forall>g. kn_files k' path = Some g \<longrightarrow> \<not> fl_live g \<and> fl_identity g = i)"

lemma abandoned_close:
  assumes "kn_sockets k fd = Some s" and "os_file s = Some i" and "named_only i path k"
  shows "abandoned fd i path k (sys_close fd k)"
  using assms by (auto simp: abandoned_def named_only_def sys_close_file map_option_case split: option.splits)

lemma abandoned_unlinked:
  assumes "kn_sockets k fd = Some s" and "os_file s = Some i" and "named_only i path k" and "kn_others k = []"
  shows "abandoned fd i path k (sys_close fd (unlink_owned_unix_socket path i k))"
  using refl [of "unlink_owned_unix_socket path i k"] assms(4)
proof (cases rule: unlink_owned_cases)
  case (kept fs)
  have "abandoned fd i path (k\<lparr>kn_failures := fs\<rparr>) (sys_close fd (k\<lparr>kn_failures := fs\<rparr>))"
    by (rule abandoned_close) (use assms in simp_all)
  then show ?thesis by (simp add: kept abandoned_def)
next
  case (removed fs f)
  let ?k = "k\<lparr>kn_failures := fs, kn_files := (kn_files k)(path := None)\<rparr>"
  have "abandoned fd i path ?k (sys_close fd ?k)"
    by (rule abandoned_close) (use assms in \<open>auto simp: named_only_def\<close>)
  then show ?thesis by (simp add: removed abandoned_def)
qed

lemma publish_bound_cases:
  assumes "publish_bound fd path backlog k = (r, k')" and "kn_others k = []" and "kn_sockets k fd = Some s"
    and "os_file s = Some i" and "kn_files k path = Some f" and "fl_socket f" and "named_only i path k"
  obtains (listening) fs where "r = Inr (fd, i)"
      "k' = k\<lparr>kn_failures := fs, kn_files := (kn_files k)(path \<mapsto> f\<lparr>fl_mode := kUnixSocketMode, fl_live := True\<rparr>),
        kn_sockets := (kn_sockets k)(fd \<mapsto> s\<lparr>os_backlog := Some backlog\<rparr>)\<rparr>"
  | (failed) e where "r = Inl e" "abandoned fd i path k k'"
proof -
  obtain looked k1 where l: "sys_lstat path k = (looked, k1)" by fastforce
  obtain c k2 where c: "sys_chmod path kUnixSocketMode k1 = (c, k2)" by fastforce
  obtain ls k3 where ls: "sys_listen fd backlog k2 = (ls, k3)" by fastforce
  have i: "fl_identity f = i" using assms(5,7) by (auto simp: named_only_def)
  from l assms(2) show ?thesis
  proof (cases rule: sys_lstat_cases)
    case (failed fs n)
    then have "abandoned fd i path k1 (sys_close fd k1)" by (intro abandoned_close) (use assms in simp_all)
    then show ?thesis using failed assms l that(2) by (auto simp: publish_bound_def abandoned_def)
  next
    case (found fs f')
    then have q: "kn_others k1 = []" "f' = f" using assms by auto
    have eq: "(r, k') = (if \<not> c then (Inl Chmod_Failed, sys_close fd (unlink_owned_unix_socket path i k2))
        else if \<not> ls then (Inl Listen_Failed, sys_close fd (unlink_owned_unix_socket path i k3)) else (Inr (fd, i), k3))"
      using assms(1,6) i l c ls found q by (cases c; cases ls) (simp_all add: publish_bound_def)
    from c q(1) show ?thesis
    proof (cases rule: sys_chmod_cases)
      case (failed fs2)
      then have "abandoned fd i path k2 (sys_close fd (unlink_owned_unix_socket path i k2))"
        by (intro abandoned_unlinked) (use assms found in simp_all)
      then show ?thesis using failed eq found that(2) by (auto simp: abandoned_def)
    next
      case (changed fs2 f2)
      then have k2: "k2 = k\<lparr>kn_failures := fs2, kn_files := (kn_files k)(path \<mapsto> f\<lparr>fl_mode := kUnixSocketMode\<rparr>)\<rparr>"
        using found assms(5) by simp
      then have n: "kn_sockets k2 fd = Some s" "kn_files k2 path = Some (f\<lparr>fl_mode := kUnixSocketMode\<rparr>)" "named_only i path k2"
        "kn_others k2 = []" "\<forall>p g. kn_files k2 p = Some g \<and> p \<noteq> path \<longrightarrow> fl_identity g \<noteq> i"
        using assms i by (auto simp: named_only_def)
      have "fl_identity (f\<lparr>fl_mode := kUnixSocketMode\<rparr>) = i" using i by simp
      from n(1) assms(4) n(2) this n(5) ls show ?thesis
      proof (cases rule: listen_bound)
        case (failed fs3)
        then have "abandoned fd i path k3 (sys_close fd (unlink_owned_unix_socket path i k3))"
          by (intro abandoned_unlinked) (use assms(4) n in simp_all)
        then show ?thesis using failed eq changed(1) k2 that(2) by (auto simp: abandoned_def)
      next
        case (listening fs3)
        then show ?thesis using eq changed(1) k2 that(1) [of fs3] by simp
      qed
    qed
  qed (use assms in simp)
qed

lemma new_identity_fresh: "kernel_ok k \<Longrightarrow> kn_files k p = Some f \<Longrightarrow> fl_identity f \<noteq> new_identity k"
  unfolding kernel_ok_def new_identity_def by (metis identity.select_convs(2) less_irrefl)

lemma bind_unix_cases:
  assumes "bind_unix_listener path backlog k = (r, k')" and "kernel_ok k" and "kn_others k = []"
  obtains (listening) s where "r = Inr (kn_next_fd k, new_identity k)" "reclaimable k path"
      "kn_files k' = (kn_files k)(path \<mapsto> bound_file k True kUnixSocketMode)"
      "kn_sockets k' = (kn_sockets k)(kn_next_fd k \<mapsto> s)" "os_file s = Some (new_identity k)" "os_backlog s = Some backlog"
      "kn_others k' = []" "kn_next_inode k' = kn_next_inode k + 1" "kn_next_fd k < kn_next_fd k'"
      "set (kn_ports k') \<subseteq> set (kn_ports k)"
  | (failed) e where "r = Inl e" "kn_sockets k' = kn_sockets k" "\<forall>p. p \<noteq> path \<longrightarrow> kn_files k' p = kn_files k p"
      "kn_files k' path = kn_files k path \<or> reclaimable k path \<and>
         (\<forall>f. kn_files k' path = Some f \<longrightarrow> \<not> fl_live f \<and> fl_identity f = new_identity k)"
      "kn_others k' = []" "kn_next_inode k \<le> kn_next_inode k'" "kn_next_fd k \<le> kn_next_fd k'" "kernel_ok k'"
      "set (kn_ports k') \<subseteq> set (kn_ports k)"
proof (cases "path = [] \<or> length path \<ge> kSunPathBytes \<or> CHR 0x00 \<in> set path")
  case True
  then show ?thesis using assms that(2) by (auto simp: bind_unix_listener_def)
next
  case valid: False
  obtain fd k1 where o: "sys_socket k = (fd, k1)" by fastforce
  then show ?thesis
  proof (cases rule: sys_socket_cases)
    case (failed fs)
    then show ?thesis using assms valid o that(2) by (auto simp: bind_unix_listener_def)
  next
    case (opened fs)
    have none: "kn_sockets k (kn_next_fd k) = None" using assms(2) by (simp add: kernel_ok_def)
    obtain b k2 where b: "bind_reclaiming (kn_next_fd k) path k1 = (b, k2)" by fastforce
    have q: "kn_others k1 = []" "kernel_ok k1" "kn_sockets k1 (kn_next_fd k) = Some fresh_socket" "new_identity k1 = new_identity k"
      "bound_file k1 = bound_file k" "kn_files k1 = kn_files k" "reclaimable k1 = reclaimable k" "kn_next_inode k1 = kn_next_inode k"
      "kn_sockets k1 = (kn_sockets k)(kn_next_fd k \<mapsto> fresh_socket)" "kn_next_fd k1 = kn_next_fd k + 1"
      "kn_ports k1 = kn_ports k"
      using opened assms by (auto simp: kernel_ok_def new_identity_def bound_file_def reclaimable_def fun_eq_iff)
    from b q(1-3) show ?thesis
    proof (cases rule: bind_reclaiming_cases)
      case (failed e)
      have "kn_files (sys_close (kn_next_fd k) k2) = kn_files k2" "kn_sockets (sys_close (kn_next_fd k) k2) = kn_sockets k"
        using failed q none by (auto simp: calm_def close_unbound fresh_socket_def)
      then show ?thesis using failed assms valid o b opened q that(2) [of e]
        by (auto simp: bind_unix_listener_def calm_def kernel_ok_def split: if_splits)
    next
      case bound
      let ?s = "fresh_socket\<lparr>os_address := Some Sockaddr_Un, os_file := Some (new_identity k)\<rparr>"
      have eq: "publish_bound (kn_next_fd k) path backlog k2 = (r, k')"
        using assms valid o b opened bound(1) by (simp add: bind_unix_listener_def)
      have n: "kn_sockets k2 (kn_next_fd k) = Some ?s" "named_only (new_identity k) path k2"
        "kn_files k2 path = Some (bound_file k False 493)"
        using bound q new_identity_fresh [OF assms(2)] by (auto simp: named_only_def bound_file_def)
      have i: "os_file ?s = Some (new_identity k)" "fl_socket (bound_file k False 493)" by (simp_all add: bound_file_def)
      from eq bound(5) n(1) i(1) n(3) i(2) n(2) show ?thesis
      proof (cases rule: publish_bound_cases)
        case (listening fs)
        then show ?thesis using bound q that(1) [of "?s\<lparr>os_backlog := Some backlog\<rparr>"] by (simp add: bound_file_def)
      next
        case (failed e)
        then have a: "kn_sockets k' = kn_sockets k" "\<forall>p. p \<noteq> path \<longrightarrow> kn_files k' p = kn_files k p"
          "kn_others k' = []" "kn_next_inode k' = kn_next_inode k + 1" "kn_next_fd k < kn_next_fd k'" "set (kn_ports k') \<subseteq> set (kn_ports k)"
          "\<forall>f. kn_files k' path = Some f \<longrightarrow> \<not> fl_live f \<and> fl_identity f = new_identity k"
          using bound q none by (auto simp: abandoned_def)
        have "id_inode (fl_identity f) < kn_next_inode k'" if "kn_files k' p = Some f" for p f
          using that a assms(2) by (cases "p = path") (auto simp: kernel_ok_def new_identity_def less_Suc_eq)
        then have "kernel_ok k'" using a assms(2) by (auto simp: kernel_ok_def)
        then show ?thesis using that(2) [of e] failed a bound(2) q by simp
      qed
    qed
  qed
qed

text \<open>C27: a Unix-domain listener takes a name only if it is free. Provided that no other process changes files
  during the call, a successful call leaves the name on a new socket file that accepts connections, open to owner
  and group only, and the name was free or a socket nobody listened on. A failed call leaves every other
  name and every open socket as it was, never touches a name that is in use, and leaves at most a socket
  file behind that nobody listens on. What other processes can do during the clean-up of a stale name is the
  subject of the theorem after this one.\<close>

theorem unix_listener_owns_path:
  assumes "kernel_ok k" and "kn_others k = []" and "bind_unix_listener path backlog k = (result, k')"
  shows "case result of
      Inr (fd, i) \<Rightarrow> (\<forall>f. kn_files k path = Some f \<longrightarrow> fl_socket f \<and> \<not> fl_live f) \<and> kn_sockets k fd = None \<and>
        (\<forall>p f. kn_files k p = Some f \<longrightarrow> fl_identity f \<noteq> i) \<and>
        kn_files k' = (kn_files k)(path \<mapsto> \<lparr>fl_socket = True, fl_identity = i, fl_live = True, fl_mode = kUnixSocketMode\<rparr>) \<and>
        (\<exists>s. kn_sockets k' = (kn_sockets k)(fd \<mapsto> s) \<and> os_file s = Some i \<and> os_backlog s = Some backlog)
    | Inl e \<Rightarrow> kn_sockets k' = kn_sockets k \<and> (\<forall>p. p \<noteq> path \<longrightarrow> kn_files k' p = kn_files k p) \<and>
        (\<forall>f. kn_files k path = Some f \<and> (fl_live f \<or> \<not> fl_socket f) \<longrightarrow> kn_files k' path = Some f) \<and>
        (\<forall>f. kn_files k' path = Some f \<longrightarrow> kn_files k path = Some f \<or> \<not> fl_live f)"
  using assms(3,1,2)
proof (cases rule: bind_unix_cases)
  case (listening s)
  then show ?thesis using assms(1) new_identity_fresh [OF assms(1)]
    by (auto simp: reclaimable_def bound_file_def kernel_ok_def)
next
  case (failed e)
  then show ?thesis by (auto simp: reclaimable_def)
qed

text \<open>What other processes do to the files commutes with everything the calls themselves change.\<close>

lemma others_fields [simp]:
  "kn_sockets (others k) = kn_sockets k" "kn_failures (others k) = kn_failures k" "kn_next_fd (others k) = kn_next_fd k"
  "kn_next_inode (others k) = kn_next_inode k" "kn_ports (others k) = kn_ports k"
  by (simp_all add: others_def split: list.split)

lemma others_updates [simp]:
  "others (k\<lparr>kn_failures := fs\<rparr>) = (others k)\<lparr>kn_failures := fs\<rparr>"
  "others (k\<lparr>kn_next_fd := n\<rparr>) = (others k)\<lparr>kn_next_fd := n\<rparr>"
  "others (k\<lparr>kn_sockets := ss\<rparr>) = (others k)\<lparr>kn_sockets := ss\<rparr>"
  by (simp_all add: others_def split: list.split)

lemma remove_probed_race:
  assumes "remove_probed path before k = (r, k')"
  shows "kn_sockets k' = kn_sockets k \<and> (kn_files k' = kn_files (others k) \<or>
    kn_files k' = (kn_files (others k))(path := None) \<and> r = None \<and>
      (\<exists>again. kn_files (others k) path = Some again \<and> fl_socket again \<and> fl_identity again = fl_identity before))"
proof -
  obtain looked k1 where l: "sys_lstat path k = (looked, k1)" by fastforce
  then have k1: "kn_files k1 = kn_files (others k)" "kn_sockets k1 = kn_sockets k" "looked = Inr f \<Longrightarrow> kn_files (others k) path = Some f" for f
    by (cases "others k" rule: failure_cases; auto simp: sys_lstat_def split: option.splits)+
  show ?thesis
  proof (cases looked)
    case (Inl e)
    then show ?thesis using assms l k1 by (cases e) (auto simp: remove_probed_def)
  next
    case (Inr f)
    show ?thesis
    proof (cases "same_unix_socket f (fl_identity before)")
      case True
      obtain gone k2 where u: "sys_unlink path k1 = (gone, k2)" by fastforce
      then show ?thesis
        by (cases rule: sys_unlink_cases)
          (use assms l k1 Inr True u in \<open>auto simp: remove_probed_def same_unix_socket_iff\<close>)
    qed (use assms l k1 Inr in \<open>simp add: remove_probed_def\<close>)
  qed
qed

text \<open>C34: a stale socket is reclaimed only if it is the one that was probed. Whatever other processes do to the
  files before the first look, before the probe and before the second look, and whichever calls fail, a
  name is removed only when it was a socket at the first look, refused the probe, and is the same socket at
  the second look; a file that took its place meanwhile stays, and so does every other file and socket.\<close>

theorem reclaims_only_what_it_probed:
  assumes "kernel_ok k" and "remove_stale_unix_socket path k = (result, k')"
  defines "files \<equiv> \<lambda>n. kn_files ((others ^^ n) k)"
  shows "kn_sockets k' = kn_sockets k \<and>
    (kn_files k' \<in> {files 1, files 2, files 3} \<or>
     kn_files k' = (files 3)(path := None) \<and> result = None \<and>
       (\<exists>seen refusing again. files 1 path = Some seen \<and> fl_socket seen \<and>
          files 2 path = Some refusing \<and> \<not> (fl_socket refusing \<and> fl_live refusing) \<and>
          files 3 path = Some again \<and> fl_socket again \<and> fl_identity again = fl_identity seen))"
proof -
  have files: "files 1 = kn_files (others k)" "files 2 = kn_files (others (others k))"
    "files 3 = kn_files (others (others (others k)))"
    by (simp_all add: files_def eval_nat_numeral)
  have none: "kn_sockets k (kn_next_fd k) = None" using assms(1) by (simp add: kernel_ok_def)
  obtain looked k1 where l: "sys_lstat path k = (looked, k1)" by fastforce
  then obtain fs where k1: "k1 = (others k)\<lparr>kn_failures := fs\<rparr>" "looked = Inr f \<Longrightarrow> kn_files (others k) path = Some f" for f
    by (cases "others k" rule: failure_cases; auto simp: sys_lstat_def split: option.splits)+
  show ?thesis
  proof (cases looked)
    case (Inl e)
    then show ?thesis using assms(2) l k1 files by (cases e) (auto simp: remove_stale_unix_socket_def)
  next
    case (Inr seen)
    obtain fd k2 where o: "sys_socket k1 = (fd, k2)" by fastforce
    show ?thesis
    proof (cases "fl_socket seen")
      case True
      from o show ?thesis
      proof (cases rule: sys_socket_cases)
        case (opened fs2)
        let ?probe = "kn_next_fd k"
        obtain c k3 where c: "sys_connect path k2 = (c, k3)" by fastforce
        have k2: "kn_files (others k2) = files 2" "kn_sockets (others k2) = (kn_sockets k)(?probe \<mapsto> fresh_socket)"
          "kn_files (others (others k2)) = files 3"
          using opened k1(1) files by (simp_all)
        have k3: "kn_files k3 = files 2" "kn_sockets k3 = (kn_sockets k)(?probe \<mapsto> fresh_socket)" "kn_files (others k3) = files 3"
          "c = Some ECONNREFUSED \<Longrightarrow> \<exists>f. files 2 path = Some f \<and> \<not> (fl_socket f \<and> fl_live f)"
          using c k2 by (cases "others k2" rule: failure_cases; auto simp: sys_connect_def split: option.splits if_splits)+
        have closed: "kn_files (sys_close ?probe k4) = kn_files k4" "kn_sockets (sys_close ?probe k4) = kn_sockets k"
          if "kn_sockets k4 = kn_sockets k3" for k4
          using that k3(2) none by (auto simp: close_unbound fresh_socket_def)
        have eq: "(result, k') = apsnd (sys_close ?probe) (case (c, k3) of
            (None, k) \<Rightarrow> (Some Live_Listener, k) | (Some ENOENT, k) \<Rightarrow> (None, k)
          | (Some ECONNREFUSED, k) \<Rightarrow> remove_probed path seen k | (Some _, k) \<Rightarrow> (Some May_Be_Active, k))"
          using assms(2) l o c opened(1) Inr True k1(1) by (simp add: remove_stale_unix_socket_def)
        show ?thesis
        proof (cases "c = Some ECONNREFUSED")
          case refused: True
          obtain r4 k4 where rm: "remove_probed path seen k3 = (r4, k4)" by fastforce
          then have k': "result = r4" "k' = sys_close ?probe k4" using eq refused by auto
          show ?thesis
            using remove_probed_race [OF rm] closed [of k4] k' k3(3) k3(4) [OF refused] k1(2) [OF Inr] True files(1) by auto
        next
          case False
          then have "k' = sys_close ?probe k3" using eq by (cases c rule: option.exhaust; cases "the c") auto
          then show ?thesis using closed [of k3] k3(1) by simp
        qed
      qed (use assms(2) l Inr True o k1 files in \<open>auto simp: remove_stale_unix_socket_def\<close>)
    qed (use assms(2) l Inr k1 files in \<open>auto simp: remove_stale_unix_socket_def\<close>)
  qed
qed

section \<open>TCP listeners\<close>

text \<open>A kernel that differs from \<open>k\<close> by one open socket.\<close>

definition holding :: "int \<Rightarrow> open_socket \<Rightarrow> kernel \<Rightarrow> kernel \<Rightarrow> bool" where
  "holding fd s k k' \<longleftrightarrow> kn_sockets k' = (kn_sockets k)(fd \<mapsto> s) \<and> kn_files k' = kn_files k \<and> kn_others k' = kn_others k \<and>
     kn_next_inode k' = kn_next_inode k \<and> kn_next_fd k' = kn_next_fd k + 1 \<and> set (kn_ports k') \<subseteq> set (kn_ports k) \<and>
     kn_sockets k fd = None \<and> os_file s = None"

lemma holding_setsockopt:
  assumes "holding fd s k k1" and "sys_setsockopt fd change k1 = (r, k2)" and "os_file (change s) = os_file s"
  shows "holding fd (if r then change s else s) k k2"
  using assms(2) by (cases rule: sys_setsockopt_cases) (use assms in \<open>auto simp: holding_def update_socket_def\<close>)

lemma holding_close: "holding fd s k k1 \<Longrightarrow> kn_files (sys_close fd k1) = kn_files k \<and> calm k (sys_close fd k1)"
  by (auto simp: holding_def calm_def sys_close_def)

text \<open>The address a socket ends up with: the one asked for, port zero replaced by a port of the kernel's.\<close>

definition bound_to :: "16 word set \<Rightarrow> sockaddr \<Rightarrow> sockaddr \<Rightarrow> bool" where
  "bound_to ports asked got \<longleftrightarrow> is_Sockaddr_In got = is_Sockaddr_In asked \<and> is_Sockaddr_In6 got = is_Sockaddr_In6 asked \<and>
     sin_addr got = sin_addr asked \<and> (if sin_port asked \<noteq> 0 then sin_port got = sin_port asked else ntohs (sin_port got) \<in> insert 32768 ports)"

lemma choose_port_bound_to:
  assumes "choose_port address k = (got, k')" and "address \<notin> {Sockaddr_Un, Sockaddr_Other}"
  shows "bound_to (set (kn_ports k)) address got \<and> (\<exists>ps. set ps \<subseteq> set (kn_ports k) \<and> k' = k\<lparr>kn_ports := ps\<rparr>)"
proof (cases "sin_port address = 0")
  case True
  then show ?thesis
    using assms by (cases address; cases "kn_ports k") (auto simp: choose_port_def bound_to_def)
next
  case False
  have "k\<lparr>kn_ports := kn_ports k\<rparr> = k" by (cases k) simp
  then have "\<exists>ps. set ps \<subseteq> set (kn_ports k) \<and> k = k\<lparr>kn_ports := ps\<rparr>" by (metis order_refl)
  then show ?thesis using assms False by (simp add: choose_port_def bound_to_def)
qed

lemma bound_to_mono: "bound_to ports address got \<Longrightarrow> ports \<subseteq> ports' \<Longrightarrow> bound_to ports' address got"
  by (auto simp: bound_to_def split: if_splits)

lemma holding_bind:
  assumes "holding fd s k k1" and "sys_bind fd address k1 = (r, k2)" and "address \<notin> {Sockaddr_Un, Sockaddr_Other}"
  shows "\<exists>got. holding fd (if r then s\<lparr>os_address := Some got\<rparr> else s) k k2 \<and> bound_to (set (kn_ports k)) address got"
proof -
  have p: "set (kn_ports k1) \<subseteq> set (kn_ports k)" using assms(1) by (simp add: holding_def)
  show ?thesis
  proof (cases k1 rule: failure_cases)
    case (failed n fs)
    obtain got k3 where "choose_port address k1 = (got, k3)" by fastforce
    then show ?thesis using failed assms choose_port_bound_to bound_to_mono [OF _ p]
      by (intro exI [of _ got]) (auto simp: sys_bind_def holding_def)
  next
    case (passed fs)
    obtain got k3 where c: "choose_port address (k1\<lparr>kn_failures := fs\<rparr>) = (got, k3)" by fastforce
    with choose_port_bound_to [OF c assms(3)] show ?thesis using passed assms(1,2) bound_to_mono [OF _ p]
      by (intro exI [of _ got]) (auto simp: sys_bind_def holding_def update_socket_def)
  qed
qed

lemma holding_listen:
  assumes "holding fd s k k1" and "sys_listen fd backlog k1 = (r, k2)"
  shows "holding fd (if r then s\<lparr>os_backlog := Some backlog\<rparr> else s) k k2"
  by (cases k1 rule: failure_cases) (use assms in \<open>auto simp: sys_listen_def holding_def update_socket_def\<close>)

lemma bind_tcp_cases:
  assumes "bind_tcp_listener pton4 pton6 bind_address port backlog reuse_port k = (r, k')" and "kernel_ok k"
  obtains (failed) e where "r = Inl e" "kn_files k' = kn_files k" "calm k k'"
  | (listening) s address got where "r = Inr (kn_next_fd k)" "fill_bind_address pton4 pton6 bind_address port = Inr address"
      "holding (kn_next_fd k) s k k'" "os_address s = Some got" "bound_to (set (kn_ports k)) address got"
      "os_backlog s = Some backlog" "os_reuse_addr s"
      "os_v6only s \<longleftrightarrow> \<not> (is_Sockaddr_In6 address \<and> is_wildcard_address bind_address)"
proof (cases "fill_bind_address pton4 pton6 bind_address port")
  case (Inl e)
  then show ?thesis using assms that(1) by (auto simp: bind_tcp_listener_def calm_def)
next
  case (Inr address)
  let ?fd = "kn_next_fd k"
  have net: "address \<notin> {Sockaddr_Un, Sockaddr_Other}" using Inr by (auto simp: fill_bind_address_def split: if_splits option.splits)
  obtain fd k1 where o: "sys_socket k = (fd, k1)" by fastforce
  then show ?thesis
  proof (cases rule: sys_socket_cases)
    case (failed fs)
    then show ?thesis using assms Inr o that(1) by (auto simp: bind_tcp_listener_def)
  next
    case (opened fs)
    have h1: "holding ?fd fresh_socket k k1"
      using opened assms(2) by (auto simp: holding_def kernel_ok_def fresh_socket_def)
    obtain r2 k2 where c2: "sys_setsockopt ?fd (\<lambda>s. s\<lparr>os_reuse_addr := True\<rparr>) k1 = (r2, k2)" by fastforce
    have h2: "holding ?fd (if r2 then fresh_socket\<lparr>os_reuse_addr := True\<rparr> else fresh_socket) k k2"
      by (rule holding_setsockopt [OF h1 c2]) simp
    define k3 where "k3 = (if reuse_port then snd (sys_setsockopt ?fd (\<lambda>s. s\<lparr>os_reuse_port := True\<rparr>) k2) else k2)"
    have "\<exists>s. holding ?fd s k k3 \<and> os_reuse_addr s = r2 \<and> os_v6only s"
    proof (cases "reuse_port")
      case True
      obtain r3 k3' where "sys_setsockopt ?fd (\<lambda>s. s\<lparr>os_reuse_port := True\<rparr>) k2 = (r3, k3')" by fastforce
      then have "holding ?fd ((\<lambda>s. if r3 then s\<lparr>os_reuse_port := True\<rparr> else s)
          (if r2 then fresh_socket\<lparr>os_reuse_addr := True\<rparr> else fresh_socket)) k k3"
        using holding_setsockopt [OF h2, of "\<lambda>s. s\<lparr>os_reuse_port := True\<rparr>" r3 k3'] True by (simp add: k3_def)
      then show ?thesis by (intro exI conjI) (assumption, simp_all add: fresh_socket_def)
    next
      case False
      then show ?thesis using h2 by (auto simp: k3_def fresh_socket_def split: if_splits)
    qed
    then obtain s3 where h3: "holding ?fd s3 k k3" "os_reuse_addr s3 = r2" "os_v6only s3" by blast
    let ?dual = "is_Sockaddr_In6 address \<and> is_wildcard_address bind_address"
    obtain r4 k4 where c4: "(if ?dual then sys_setsockopt ?fd (\<lambda>s. s\<lparr>os_v6only := False\<rparr>) k3 else (True, k3)) = (r4, k4)" by fastforce
    have "\<exists>s. holding ?fd s k k4 \<and> os_reuse_addr s = r2 \<and> (r4 \<longrightarrow> (os_v6only s \<longleftrightarrow> \<not> ?dual))"
    proof (cases ?dual)
      case True
      then have "sys_setsockopt ?fd (\<lambda>s. s\<lparr>os_v6only := False\<rparr>) k3 = (r4, k4)" using c4 by simp
      then have "holding ?fd (if r4 then s3\<lparr>os_v6only := False\<rparr> else s3) k k4" by (rule holding_setsockopt [OF h3(1)]) simp
      then show ?thesis using h3 True by (intro exI [of _ "if r4 then s3\<lparr>os_v6only := False\<rparr> else s3"]) simp
    qed (use c4 h3 in auto)
    then obtain s4 where h4: "holding ?fd s4 k k4" "os_reuse_addr s4 = r2" "r4 \<longrightarrow> (os_v6only s4 \<longleftrightarrow> \<not> ?dual)" by blast
    obtain r5 k5 where c5: "sys_bind ?fd address k4 = (r5, k5)" by fastforce
    then obtain got where h5: "holding ?fd (if r5 then s4\<lparr>os_address := Some got\<rparr> else s4) k k5" "bound_to (set (kn_ports k)) address got"
      using holding_bind [OF h4(1) c5 net] by blast
    obtain r6 k6 where c6: "sys_listen ?fd backlog k5 = (r6, k6)" by fastforce
    note h6 = holding_listen [OF h5(1) c6]
    have eq: "(r, k') = (if \<not> r2 then (Inl ReuseAddr_Failed, sys_close ?fd k2) else if \<not> r4 then (Inl V6only_Failed, sys_close ?fd k4)
        else if \<not> r5 then (Inl Bind_Failed, sys_close ?fd k5) else if \<not> r6 then (Inl Listen_Failed, sys_close ?fd k6) else (Inr ?fd, k6))"
      using assms(1) Inr o opened(1) c2 c4 [unfolded k3_def] c5 c6
      by (cases r2; cases r4; cases r5; cases r6) (auto simp: bind_tcp_listener_def Let_def)
    show ?thesis
    proof (cases "r2 \<and> r4 \<and> r5 \<and> r6")
      case True
      then have "k' = k6" "r = Inr ?fd" using eq by auto
      moreover have "holding ?fd (s4\<lparr>os_address := Some got, os_backlog := Some backlog\<rparr>) k k6" using h6 True by simp
      ultimately show ?thesis using that(2) [OF _ Inr] h4 h5(2) True by simp
    next
      case False
      have "\<exists>e k1 s. r = Inl e \<and> k' = sys_close ?fd k1 \<and> holding ?fd s k k1"
        using eq False h2 h4(1) h5(1) h6 by (cases r2; cases r4; cases r5) auto
      then show ?thesis using that(1) holding_close by blast
    qed
  qed
qed

text \<open>A TCP listener is what was asked for. A successful call yields a new socket that listens with the backlog
  asked for on the address and port asked for, or on a port the kernel chose where it was zero, and takes
  IPv4 clients too exactly when it is an IPv6 wildcard; a failed call leaves every socket as it was.\<close>

theorem tcp_listener_as_asked:
  assumes "kernel_ok k" and "bind_tcp_listener pton4 pton6 bind_address port backlog reuse_port k = (result, k')"
  shows "kn_files k' = kn_files k \<and>
    (case result of
       Inl e \<Rightarrow> kn_sockets k' = kn_sockets k
     | Inr fd \<Rightarrow> kn_sockets k fd = None \<and>
         (\<exists>s address got. fill_bind_address pton4 pton6 bind_address port = Inr address \<and> kn_sockets k' = (kn_sockets k)(fd \<mapsto> s) \<and>
            os_address s = Some got \<and> bound_to (set (kn_ports k)) address got \<and> os_backlog s = Some backlog \<and>
            (os_v6only s \<longleftrightarrow> \<not> (is_Sockaddr_In6 address \<and> is_wildcard_address bind_address))))"
  using assms(2,1)
proof (cases rule: bind_tcp_cases)
  case (listening s address got)
  then show ?thesis by (auto simp: holding_def)
qed (simp add: calm_def)

section \<open>What a process has opened\<close>

text \<open>The kernel \<open>k\<close> as one process made it of \<open>k0\<close>, while its sockets \<open>own\<close> are open: names that were in use are
  untouched, files that were there are as they were, and on a new name that accepts connections one of the
  own sockets listens.\<close>

definition file_bound_by :: "kernel \<Rightarrow> int \<Rightarrow> identity option" where
  "file_bound_by k fd = Option.bind (kn_sockets k fd) os_file"

definition opened :: "kernel \<Rightarrow> int set \<Rightarrow> kernel \<Rightarrow> bool" where
  "opened k0 own k \<longleftrightarrow> kernel_ok k0 \<and> kernel_ok k \<and> kn_others k = [] \<and> kn_next_inode k0 \<le> kn_next_inode k \<and>
     (\<forall>fd \<in> own. kn_sockets k0 fd = None) \<and> (\<forall>fd \<in> own. kn_sockets k fd \<noteq> None) \<and>
     (\<forall>fd. fd \<notin> own \<longrightarrow> kn_sockets k fd = kn_sockets k0 fd) \<and>
     (\<forall>fd \<in> own. \<forall>i. file_bound_by k fd = Some i \<longrightarrow> kn_next_inode k0 \<le> id_inode i) \<and>
     (\<forall>p. \<not> reclaimable k0 p \<longrightarrow> kn_files k p = kn_files k0 p) \<and>
     (\<forall>p f. kn_files k p = Some f \<longrightarrow> id_inode (fl_identity f) < kn_next_inode k0 \<longrightarrow> kn_files k0 p = Some f) \<and>
     (\<forall>p f. kn_files k p = Some f \<longrightarrow> kn_next_inode k0 \<le> id_inode (fl_identity f) \<longrightarrow> fl_live f \<longrightarrow>
        (\<exists>fd \<in> own. file_bound_by k fd = Some (fl_identity f))) \<and>
     set (kn_ports k) \<subseteq> set (kn_ports k0)"

lemma openedD:
  assumes "opened k0 own k"
  shows "kernel_ok k0" "kernel_ok k" "kn_others k = []" "kn_next_inode k0 \<le> kn_next_inode k"
    "fd \<in> own \<Longrightarrow> kn_sockets k0 fd = None" "fd \<in> own \<Longrightarrow> kn_sockets k fd \<noteq> None"
    "fd \<notin> own \<Longrightarrow> kn_sockets k fd = kn_sockets k0 fd"
    "fd \<in> own \<Longrightarrow> file_bound_by k fd = Some i \<Longrightarrow> kn_next_inode k0 \<le> id_inode i"
    "\<not> reclaimable k0 p \<Longrightarrow> kn_files k p = kn_files k0 p"
    "kn_files k p = Some f \<Longrightarrow> id_inode (fl_identity f) < kn_next_inode k0 \<Longrightarrow> kn_files k0 p = Some f"
    "kn_files k p = Some f \<Longrightarrow> kn_next_inode k0 \<le> id_inode (fl_identity f) \<Longrightarrow> fl_live f \<Longrightarrow>
       \<exists>fd \<in> own. file_bound_by k fd = Some (fl_identity f)"
    "set (kn_ports k) \<subseteq> set (kn_ports k0)"
  using assms unfolding opened_def by blast+

lemma openedI:
  assumes "kernel_ok k0" "kernel_ok k" "kn_others k = []" "kn_next_inode k0 \<le> kn_next_inode k"
    "\<And>fd. fd \<in> own \<Longrightarrow> kn_sockets k0 fd = None" "\<And>fd. fd \<in> own \<Longrightarrow> kn_sockets k fd \<noteq> None"
    "\<And>fd. fd \<notin> own \<Longrightarrow> kn_sockets k fd = kn_sockets k0 fd"
    "\<And>fd i. fd \<in> own \<Longrightarrow> file_bound_by k fd = Some i \<Longrightarrow> kn_next_inode k0 \<le> id_inode i"
    "\<And>p. \<not> reclaimable k0 p \<Longrightarrow> kn_files k p = kn_files k0 p"
    "\<And>p f. kn_files k p = Some f \<Longrightarrow> id_inode (fl_identity f) < kn_next_inode k0 \<Longrightarrow> kn_files k0 p = Some f"
    "\<And>p f. kn_files k p = Some f \<Longrightarrow> kn_next_inode k0 \<le> id_inode (fl_identity f) \<Longrightarrow> fl_live f \<Longrightarrow>
       \<exists>fd \<in> own. file_bound_by k fd = Some (fl_identity f)"
    "set (kn_ports k) \<subseteq> set (kn_ports k0)"
  shows "opened k0 own k"
  unfolding opened_def by (intro conjI allI ballI impI; rule assms; assumption)

lemma opened_start: "kernel_ok k \<Longrightarrow> kn_others k = [] \<Longrightarrow> opened k {} k"
  unfolding opened_def kernel_ok_def by (simp; meson leD)

lemma opened_fresh_fd: "opened k0 own k \<Longrightarrow> kn_next_fd k \<notin> own \<and> kn_sockets k (kn_next_fd k) = None"
  using openedD(2) [of k0 own k] openedD(6) [of k0 own k "kn_next_fd k"] by (auto simp: kernel_ok_def)

lemma opened_calm:
  assumes "opened k0 own k" and "calm k k'" and "kn_files k' = kn_files k"
  shows "opened k0 own k'"
proof -
  have "kernel_ok k'" using openedD(2) [OF assms(1)] assms(2,3) by (simp add: kernel_ok_def calm_def)
  have same: "kn_sockets k' = kn_sockets k" "kn_others k' = kn_others k" "kn_next_inode k' = kn_next_inode k"
    "file_bound_by k' = file_bound_by k"
    using assms(2) by (simp_all add: calm_def file_bound_by_def fun_eq_iff)
  have "set (kn_ports k') \<subseteq> set (kn_ports k0)" using openedD(12) [OF assms(1)] assms(2) by (auto simp: calm_def)
  then show ?thesis using assms(1) \<open>kernel_ok k'\<close> unfolding opened_def same assms(3) by blast
qed

lemma opened_tcp:
  assumes "opened k0 own k" and "bind_tcp_listener pton4 pton6 bind_address port backlog reuse_port k = (r, k')"
  shows "case r of Inl e \<Rightarrow> opened k0 own k' | Inr fd \<Rightarrow> opened k0 (insert fd own) k' \<and> fd \<notin> own"
  using assms(2) openedD(2) [OF assms(1)]
proof (cases rule: bind_tcp_cases)
  case (failed e)
  then show ?thesis using opened_calm [OF assms(1)] by simp
next
  case (listening s address got)
  note o = openedD [OF assms(1)] and fd = opened_fresh_fd [OF assms(1)]
  have h: "kn_sockets k' = (kn_sockets k)(kn_next_fd k \<mapsto> s)" "kn_files k' = kn_files k" "kn_others k' = []"
    "kn_next_inode k' = kn_next_inode k" "kn_next_fd k' = kn_next_fd k + 1" "os_file s = None"
    "set (kn_ports k') \<subseteq> set (kn_ports k0)"
    using listening(3) o(3,12) by (auto simp: holding_def)
  have b: "file_bound_by k' = (file_bound_by k)(kn_next_fd k := None)"
    using h(1,6) fd by (auto simp: file_bound_by_def fun_eq_iff)
  have "opened k0 (insert (kn_next_fd k) own) k'"
  proof (rule openedI)
    show "kernel_ok k0" "kernel_ok k'" "kn_others k' = []" "kn_next_inode k0 \<le> kn_next_inode k'"
      "set (kn_ports k') \<subseteq> set (kn_ports k0)"
      using o(1-4) h by (simp_all add: kernel_ok_def)
    show "kn_files k' p = kn_files k0 p" if "\<not> reclaimable k0 p" for p using o(9) that h(2) by simp
    show "kn_sockets k' fd = kn_sockets k0 fd" if "fd \<notin> insert (kn_next_fd k) own" for fd using o(7) [of fd] that h(1) by simp
    show "kn_sockets k0 fd = None" if "fd \<in> insert (kn_next_fd k) own" for fd using o(5,7) that fd by force
    show "kn_sockets k' fd \<noteq> None" if "fd \<in> insert (kn_next_fd k) own" for fd using o(6) [of fd] that h(1) by auto
    show "kn_next_inode k0 \<le> id_inode i" if "fd \<in> insert (kn_next_fd k) own" "file_bound_by k' fd = Some i" for fd i
      using o(8) [of fd i] that b by (auto split: if_splits)
    show "kn_files k0 p = Some f" if "kn_files k' p = Some f" "id_inode (fl_identity f) < kn_next_inode k0" for p f
      using o(10) that h(2) by simp
    fix p f assume "kn_files k' p = Some f" "kn_next_inode k0 \<le> id_inode (fl_identity f)" "fl_live f"
    then obtain fd' where "fd' \<in> own" "file_bound_by k fd' = Some (fl_identity f)" using o(11) h(2) by metis
    then show "\<exists>fd \<in> insert (kn_next_fd k) own. file_bound_by k' fd = Some (fl_identity f)" using fd b by (metis fun_upd_other insertCI)
  qed
  then show ?thesis using listening(1) fd by simp
qed

lemma opened_reclaimable:
  assumes "opened k0 own k" and "reclaimable k p"
  shows "reclaimable k0 p"
  using openedD(9) [OF assms(1), of p] assms(2) unfolding reclaimable_def by metis

lemma new_identity_inode [simp]: "id_inode (new_identity k) = kn_next_inode k"
  by (simp add: new_identity_def)

lemma opened_unix_failed:
  assumes "opened k0 own k" and "kn_sockets k' = kn_sockets k" and "\<forall>p. p \<noteq> path \<longrightarrow> kn_files k' p = kn_files k p"
    and "kn_files k' path = kn_files k path \<or> reclaimable k0 path \<and>
      (\<forall>f. kn_files k' path = Some f \<longrightarrow> \<not> fl_live f \<and> kn_next_inode k0 \<le> id_inode (fl_identity f))"
    and "kn_others k' = []" "kn_next_inode k \<le> kn_next_inode k'" "kernel_ok k'" "set (kn_ports k') \<subseteq> set (kn_ports k)"
  shows "opened k0 own k'"
proof (rule openedI)
  note o = openedD [OF assms(1)]
  have b: "file_bound_by k' = file_bound_by k" using assms(2) by (simp add: file_bound_by_def fun_eq_iff)
  have was: "kn_files k p = Some f" if "kn_files k' p = Some f" "fl_live f \<or> id_inode (fl_identity f) < kn_next_inode k0" for p f
    using that assms(3,4) by (cases "p = path") auto
  show "kernel_ok k0" "kernel_ok k'" "kn_others k' = []" "kn_next_inode k0 \<le> kn_next_inode k'" using o(1,4) assms by simp_all
  show "set (kn_ports k') \<subseteq> set (kn_ports k0)" using o(12) assms(8) by simp
  show "kn_sockets k0 fd = None" "kn_sockets k' fd \<noteq> None" if "fd \<in> own" for fd using o(5,6) [OF that] assms(2) by simp_all
  show "kn_sockets k' fd = kn_sockets k0 fd" if "fd \<notin> own" for fd using o(7) [OF that] assms(2) by simp
  show "kn_next_inode k0 \<le> id_inode i" if "fd \<in> own" "file_bound_by k' fd = Some i" for fd i using o(8) that b by simp
  show "kn_files k' p = kn_files k0 p" if "\<not> reclaimable k0 p" for p
    using o(9) [OF that] assms(3,4) that by (cases "p = path") auto
  show "kn_files k0 p = Some f" if "kn_files k' p = Some f" "id_inode (fl_identity f) < kn_next_inode k0" for p f
    using o(10) was that by blast
  show "\<exists>fd \<in> own. file_bound_by k' fd = Some (fl_identity f)"
    if "kn_files k' p = Some f" "kn_next_inode k0 \<le> id_inode (fl_identity f)" "fl_live f" for p f
    using o(11) was that b by metis
qed

lemma opened_unix_listening:
  assumes "opened k0 own k" and "reclaimable k path" and "kn_files k' = (kn_files k)(path \<mapsto> bound_file k True kUnixSocketMode)"
    and "kn_sockets k' = (kn_sockets k)(kn_next_fd k \<mapsto> s)" and "os_file s = Some (new_identity k)" and "kn_others k' = []"
    and "kn_next_inode k' = kn_next_inode k + 1" and "kn_next_fd k < kn_next_fd k'" and "set (kn_ports k') \<subseteq> set (kn_ports k)"
  shows "opened k0 (insert (kn_next_fd k) own) k'"
proof (rule openedI)
  note o = openedD [OF assms(1)] and fd = opened_fresh_fd [OF assms(1)]
  have b: "file_bound_by k' = (file_bound_by k)(kn_next_fd k \<mapsto> new_identity k)"
    using assms(4,5) by (auto simp: file_bound_by_def fun_eq_iff)
  show "kernel_ok k0" "kn_others k' = []" "kn_next_inode k0 \<le> kn_next_inode k'" using o(1,4) assms by simp_all
  show "set (kn_ports k') \<subseteq> set (kn_ports k0)" using o(12) assms(9) by simp
  show "kernel_ok k'" using o(2) assms by (auto simp: kernel_ok_def bound_file_def less_Suc_eq)
  show "kn_sockets k0 fd = None" if "fd \<in> insert (kn_next_fd k) own" for fd using o(5,7) that fd by force
  show "kn_sockets k' fd \<noteq> None" if "fd \<in> insert (kn_next_fd k) own" for fd using o(6) [of fd] that assms(4) by auto
  show "kn_sockets k' fd = kn_sockets k0 fd" if "fd \<notin> insert (kn_next_fd k) own" for fd using o(7) [of fd] that assms(4) by simp
  show "kn_next_inode k0 \<le> id_inode i" if "fd \<in> insert (kn_next_fd k) own" "file_bound_by k' fd = Some i" for fd i
    using o(4) o(8) [of fd i] that b by (auto split: if_splits)
  show "kn_files k' p = kn_files k0 p" if "\<not> reclaimable k0 p" for p
    using o(9) [OF that] assms(2,3) opened_reclaimable [OF assms(1)] that by auto
  show "kn_files k0 p = Some f" if "kn_files k' p = Some f" "id_inode (fl_identity f) < kn_next_inode k0" for p f
    using o(4) o(10) [of p f] that assms(3) by (auto simp: bound_file_def split: if_splits)
  show "\<exists>fd \<in> insert (kn_next_fd k) own. file_bound_by k' fd = Some (fl_identity f)"
    if "kn_files k' p = Some f" "kn_next_inode k0 \<le> id_inode (fl_identity f)" "fl_live f" for p f
  proof (cases "p = path")
    case True
    then show ?thesis using that assms(3) b by (auto simp: bound_file_def)
  next
    case False
    then have "kn_files k p = Some f" using that(1) assms(3) by simp
    then have "\<exists>fd' \<in> own. file_bound_by k fd' = Some (fl_identity f)" using o(11) that(2,3) by blast
    then show ?thesis using fd b by (metis fun_upd_other insertCI)
  qed
qed

lemma opened_unix:
  assumes "opened k0 own k" and "bind_unix_listener path backlog k = (r, k')"
  shows "case r of Inl e \<Rightarrow> opened k0 own k'
    | Inr (fd, i) \<Rightarrow> opened k0 (insert fd own) k' \<and> fd \<notin> own \<and> kn_next_inode k0 \<le> id_inode i"
  using assms(2) openedD(2,3) [OF assms(1)]
proof (cases rule: bind_unix_cases)
  case (listening s)
  then show ?thesis
    using opened_unix_listening [OF assms(1) listening(2-5,7-10)] opened_fresh_fd [OF assms(1)] openedD(4) [OF assms(1)] by simp
next
  case (failed e)
  have "kn_files k' path = kn_files k path \<or> reclaimable k0 path \<and>
      (\<forall>f. kn_files k' path = Some f \<longrightarrow> \<not> fl_live f \<and> kn_next_inode k0 \<le> id_inode (fl_identity f))"
    using failed(4) opened_reclaimable [OF assms(1)] openedD(4) [OF assms(1)] by auto
  then show ?thesis using opened_unix_failed [OF assms(1) failed(2,3) _ failed(5,6,8,9)] failed(1) by simp
qed

lemma opened_close:
  assumes "opened k0 own k" and "fd \<in> own"
  shows "opened k0 (own - {fd}) (sys_close fd k)"
proof (rule openedI)
  note o = openedD [OF assms(1)]
  have b: "file_bound_by (sys_close fd k) = (file_bound_by k)(fd := None)" by (auto simp: file_bound_by_def fun_eq_iff)
  have f: "\<exists>f0. kn_files k p = Some f0 \<and> fl_identity f0 = fl_identity f \<and> (file_bound_by k fd \<noteq> Some (fl_identity f) \<longrightarrow> f0 = f) \<and>
      (file_bound_by k fd = Some (fl_identity f) \<longrightarrow> \<not> fl_live f)" if "kn_files (sys_close fd k) p = Some f" for p f
    using that by (auto simp: sys_close_file file_bound_by_def split: if_splits dest: arg_cong [where f = fl_live])
  show "kernel_ok k0" "kn_others (sys_close fd k) = []" "kn_next_inode k0 \<le> kn_next_inode (sys_close fd k)" using o(1,3,4) by simp_all
  show "set (kn_ports (sys_close fd k)) \<subseteq> set (kn_ports k0)" using o(12) by simp
  show "kernel_ok (sys_close fd k)" using o(2) f by (fastforce simp: kernel_ok_def)
  show "kn_sockets k0 fd' = None" "kn_sockets (sys_close fd k) fd' \<noteq> None" if "fd' \<in> own - {fd}" for fd'
    using o(5,6) [of fd'] that by auto
  show "kn_sockets (sys_close fd k) fd' = kn_sockets k0 fd'" if "fd' \<notin> own - {fd}" for fd'
    by (cases "fd' = fd") (use o(5) [OF assms(2)] o(7) [of fd'] that in simp_all)
  show "kn_next_inode k0 \<le> id_inode i" if "fd' \<in> own - {fd}" "file_bound_by (sys_close fd k) fd' = Some i" for fd' i
    using o(8) [of fd' i] that b by auto
  show "kn_files k0 p = Some f" if "kn_files (sys_close fd k) p = Some f" "id_inode (fl_identity f) < kn_next_inode k0" for p f
    using f [OF that(1)] that(2) o(8) [OF assms(2)] o(10) by (metis leD)
  show "\<exists>fd' \<in> own - {fd}. file_bound_by (sys_close fd k) fd' = Some (fl_identity f)"
    if "kn_files (sys_close fd k) p = Some f" "kn_next_inode k0 \<le> id_inode (fl_identity f)" "fl_live f" for p f
  proof -
    have "file_bound_by k fd \<noteq> Some (fl_identity f)" "kn_files k p = Some f" using f [OF that(1)] that(3) by auto
    then show ?thesis using o(11) [OF _ that(2,3)] b by (metis DiffI fun_upd_other singletonD)
  qed
  show "kn_files (sys_close fd k) p = kn_files k0 p" if "\<not> reclaimable k0 p" for p
  proof (cases "kn_files k0 p")
    case None
    then show ?thesis using that by (simp add: reclaimable_def)
  next
    case (Some f0)
    then have "file_bound_by k fd \<noteq> Some (fl_identity f0)" using o(1) o(8) [OF assms(2)] by (fastforce simp: kernel_ok_def)
    then show ?thesis using o(9) [OF that] Some by (simp add: sys_close_file file_bound_by_def)
  qed
qed

lemma opened_unlink:
  assumes "opened k0 own k" and "kn_next_inode k0 \<le> id_inode i"
  shows "opened k0 own (unlink_owned_unix_socket path i k)"
  using refl [of "unlink_owned_unix_socket path i k"] openedD(3) [OF assms(1)]
proof (cases rule: unlink_owned_cases)
  case (kept fs)
  then show ?thesis using opened_calm [OF assms(1)] by simp
next
  case (removed fs f)
  have "kn_files k path \<noteq> kn_files k0 path" using removed(1,3) assms(2) openedD(1) [OF assms(1)] by (fastforce simp: kernel_ok_def)
  then have "reclaimable k0 path" using openedD(9) [OF assms(1)] by blast
  then show ?thesis unfolding removed(4)
    by (intro opened_unix_failed [OF assms(1), of _ path]) (use openedD(2,3) [OF assms(1)] in \<open>auto simp: kernel_ok_def\<close>)
qed

section \<open>When no call fails\<close>

definition quiet :: "kernel \<Rightarrow> bool" where
  "quiet k \<longleftrightarrow> kn_others k = [] \<and> list_all (\<lambda>f. f = None) (kn_failures k)"

lemma quiet_failure:
  assumes "quiet k"
  obtains fs where "failure k = (None, k\<lparr>kn_failures := fs\<rparr>)" "quiet (k\<lparr>kn_failures := fs\<rparr>)" "others k = k"
proof (cases "kn_failures k")
  case Nil
  then show ?thesis using assms that [of "[]"] by (cases k) (simp add: failure_def quiet_def)
next
  case (Cons f fs)
  then show ?thesis using assms that [of fs] by (simp add: failure_def quiet_def)
qed

lemma quiet_updates [simp]:
  "quiet (k\<lparr>kn_files := files\<rparr>) \<longleftrightarrow> quiet k" "quiet (k\<lparr>kn_sockets := ss\<rparr>) \<longleftrightarrow> quiet k"
  "quiet (k\<lparr>kn_next_fd := n\<rparr>) \<longleftrightarrow> quiet k" "quiet (k\<lparr>kn_next_inode := m\<rparr>) \<longleftrightarrow> quiet k"
  "quiet (k\<lparr>kn_ports := ps\<rparr>) \<longleftrightarrow> quiet k" "quiet (update_socket fd change k) \<longleftrightarrow> quiet k" "quiet (sys_close fd k) \<longleftrightarrow> quiet k"
  by (simp_all add: quiet_def update_socket_def sys_close_def split: option.split)

lemma quiet_sys_socket: "quiet k \<Longrightarrow> sys_socket k = (r, k') \<Longrightarrow> quiet k'"
  by (erule quiet_failure) (auto simp: sys_socket_def)

lemma quiet_sys_setsockopt: "quiet k \<Longrightarrow> sys_setsockopt fd change k = (r, k') \<Longrightarrow> quiet k'"
  by (erule quiet_failure) (auto simp: sys_setsockopt_def)

lemma quiet_choose_port: "quiet k \<Longrightarrow> choose_port address k = (a, k') \<Longrightarrow> quiet k'"
  by (auto simp: choose_port_def Let_def split: if_splits list.splits)

lemma quiet_sys_bind: "quiet k \<Longrightarrow> sys_bind fd address k = (r, k') \<Longrightarrow> quiet k'"
  by (erule quiet_failure) (auto simp: sys_bind_def split: prod.splits dest: quiet_choose_port)

lemma quiet_sys_listen: "quiet k \<Longrightarrow> sys_listen fd backlog k = (r, k') \<Longrightarrow> quiet k' \<and> r"
  by (erule quiet_failure) (auto simp: sys_listen_def)

lemma quiet_resolved_port: "quiet k \<Longrightarrow> resolved_port_of fd k = (r, k') \<Longrightarrow> quiet k'"
  by (erule quiet_failure) (auto simp: resolved_port_of_def split: option.splits sockaddr.splits)

lemma quiet_sys_lstat: "quiet k \<Longrightarrow> sys_lstat path k = (r, k') \<Longrightarrow>
    quiet k' \<and> kn_files k' = kn_files k \<and> r = (case kn_files k path of None \<Rightarrow> Inl ENOENT | Some f \<Rightarrow> Inr f)"
  by (erule quiet_failure) (auto simp: sys_lstat_def split: option.splits)

lemma quiet_sys_connect: "quiet k \<Longrightarrow> sys_connect path k = (r, k') \<Longrightarrow> quiet k'"
  by (erule quiet_failure) (auto simp: sys_connect_def split: option.splits)

lemma quiet_sys_unlink: "quiet k \<Longrightarrow> sys_unlink path k = (r, k') \<Longrightarrow>
    quiet k' \<and> kn_files k' = (kn_files k)(path := None)"
  by (erule quiet_failure) (auto simp: sys_unlink_def fun_upd_idem split: if_splits)

lemma quiet_sys_chmod: "quiet k \<Longrightarrow> sys_chmod path mode k = (r, k') \<Longrightarrow> quiet k' \<and> (kn_files k path \<noteq> None \<longrightarrow> r)"
  by (erule quiet_failure) (auto simp: sys_chmod_def split: option.splits)

lemma quiet_sys_bind_unix: "quiet k \<Longrightarrow> sys_bind_unix fd path k = (r, k') \<Longrightarrow> quiet k'"
  by (erule quiet_failure) (auto simp: sys_bind_unix_def Let_def split: if_splits)

text \<open>A name is released: a socket file that is still the one it was bound to is removed.\<close>

lemma quiet_unlink_owned:
  assumes "quiet k"
  shows "quiet (unlink_owned_unix_socket path i k) \<and> kn_files (unlink_owned_unix_socket path i k) =
    (case kn_files k path of Some f \<Rightarrow> if same_unix_socket f i then (kn_files k)(path := None) else kn_files k | None \<Rightarrow> kn_files k)"
proof -
  obtain r k1 where l: "sys_lstat path k = (r, k1)" by fastforce
  obtain r2 k2 where u: "sys_unlink path k1 = (r2, k2)" by fastforce
  show ?thesis
    using quiet_sys_lstat [OF assms l] quiet_sys_unlink [OF _ u] l u by (auto simp: unlink_owned_unix_socket_def split: option.splits)
qed

lemma quiet_calls [simp]:
  assumes "quiet k"
  shows "quiet (snd (sys_socket k))" "quiet (snd (sys_setsockopt fd change k))" "quiet (snd (sys_bind fd address k))"
    "quiet (snd (sys_listen fd backlog k))" "quiet (snd (sys_lstat path k))" "quiet (snd (sys_connect path k))"
    "quiet (snd (sys_unlink path k))" "quiet (snd (sys_bind_unix fd path k))"
  using quiet_sys_socket [OF assms prod.collapse [symmetric]] quiet_sys_setsockopt [OF assms prod.collapse [symmetric]]
    quiet_sys_bind [OF assms prod.collapse [symmetric]] quiet_sys_listen [OF assms prod.collapse [symmetric]]
    quiet_sys_lstat [OF assms prod.collapse [symmetric]] quiet_sys_connect [OF assms prod.collapse [symmetric]]
    quiet_sys_unlink [OF assms prod.collapse [symmetric]] quiet_sys_bind_unix [OF assms prod.collapse [symmetric]]
  by simp_all

lemma quiet_remove_probed [simp]: "quiet k \<Longrightarrow> quiet (snd (remove_probed path before k))"
  by (simp add: remove_probed_def case_prod_beta split: sum.split sys_errno.split option.split)

lemma quiet_remove_stale [simp]: "quiet k \<Longrightarrow> quiet (snd (remove_stale_unix_socket path k))"
  by (simp add: remove_stale_unix_socket_def case_prod_beta split: sum.split sys_errno.split option.split)

lemma quiet_bind_reclaiming: "quiet k \<Longrightarrow> quiet (snd (bind_reclaiming fd path k))"
  by (simp add: bind_reclaiming_def case_prod_beta split: sys_errno.split option.split)

lemma quiet_publish_bound:
  assumes "quiet k" "kn_files k path = Some f" "fl_socket f" "publish_bound fd path backlog k = (r, k')"
  shows "quiet k' \<and> (\<exists>bound. r = Inr bound)"
proof -
  obtain looked k1 where l: "sys_lstat path k = (looked, k1)" by fastforce
  note q1 = quiet_sys_lstat [OF assms(1) l]
  obtain c k2 where c: "sys_chmod path kUnixSocketMode k1 = (c, k2)" by fastforce
  have q2: "quiet k2" "c" using quiet_sys_chmod [OF _ c] q1 assms(2) by auto
  obtain ls k3 where s: "sys_listen fd backlog k2 = (ls, k3)" by fastforce
  show ?thesis using quiet_sys_listen [OF q2(1) s] assms l c s q1 q2(2) by (auto simp: publish_bound_def)
qed

text \<open>When no call fails, binding a name either succeeds or leaves no new file.\<close>

lemma quiet_bind_unix:
  assumes "bind_unix_listener path backlog k = (r, k')" "quiet k" "kernel_ok k"
  shows "quiet k' \<and> (\<forall>e p f. r = Inl e \<longrightarrow> kn_files k' p = Some f \<longrightarrow> kn_files k p = Some f)"
proof (cases "path = [] \<or> length path \<ge> kSunPathBytes \<or> CHR 0x00 \<in> set path")
  case True
  then show ?thesis using assms by (auto simp: bind_unix_listener_def)
next
  case valid: False
  obtain fd k1 where o: "sys_socket k = (fd, k1)" by fastforce
  then show ?thesis
  proof (cases rule: sys_socket_cases)
    case (failed fs)
    then show ?thesis using assms valid o quiet_sys_socket [OF assms(2) o] by (auto simp: bind_unix_listener_def)
  next
    case (opened fs)
    obtain b k2 where b: "bind_reclaiming (kn_next_fd k) path k1 = (b, k2)" by fastforce
    have q: "quiet k1" "quiet k2" "kn_others k1 = []" "kernel_ok k1" "kn_sockets k1 (kn_next_fd k) = Some fresh_socket"
      using quiet_sys_socket [OF assms(2) o] quiet_bind_reclaiming [of k1 "kn_next_fd k" path] b opened assms(3)
      by (auto simp: quiet_def kernel_ok_def)
    from b q(3-5) show ?thesis
    proof (cases rule: bind_reclaiming_cases)
      case (failed e)
      have "kn_files (sys_close (kn_next_fd k) k2) = kn_files k2"
        using failed q(5) by (auto simp: calm_def close_unbound fresh_socket_def)
      then show ?thesis
        using failed assms valid o b opened q(2) by (auto simp: bind_unix_listener_def split: if_splits)
    next
      case bound
      have eq: "publish_bound (kn_next_fd k) path backlog k2 = (r, k')"
        using assms valid o b opened bound(1) by (simp add: bind_unix_listener_def)
      have "kn_files k2 path = Some (bound_file k1 False 493)" "fl_socket (bound_file k1 False 493)"
        using bound by (simp_all add: bound_file_def)
      from quiet_publish_bound [OF q(2) this eq] show ?thesis by auto
    qed
  qed
qed

lemma quiet_bind_tcp:
  assumes "bind_tcp_listener pton4 pton6 bind_address port backlog reuse_port k = (r, k')" "quiet k"
  shows "quiet k'"
proof -
  have "quiet (snd (bind_tcp_listener pton4 pton6 bind_address port backlog reuse_port k))"
    using assms(2) by (simp add: bind_tcp_listener_def case_prod_beta Let_def split: sum.split option.split)
  then show ?thesis using assms(1) by simp
qed

section \<open>Examples\<close>

definition sample_kernel :: kernel where
  "sample_kernel = \<lparr>kn_files = (\<lambda>_. None), kn_sockets = (\<lambda>_. None), kn_next_fd = 3, kn_next_inode = 1, kn_ports = [8080],
     kn_failures = [], kn_others = []\<rparr>"

definition stale_kernel :: kernel where
  "stale_kernel = sample_kernel\<lparr>kn_files := [''/s'' \<mapsto> \<lparr>fl_socket = True, fl_identity = \<lparr>id_device = 0, id_inode = 0\<rparr>,
     fl_live = False, fl_mode = 0\<rparr>], kn_others := [\<lambda>files. files, \<lambda>files. files, \<lambda>files. files]\<rparr>"

lemma sample_kernel_ok: "kernel_ok sample_kernel" "kernel_ok stale_kernel"
  by (auto simp: kernel_ok_def sample_kernel_def stale_kernel_def)

lemmas socket_calls = sys_socket_def sys_lstat_def sys_connect_def sys_unlink_def sys_chmod_def sys_bind_unix_def sys_listen_def
  sys_setsockopt_def sys_bind_def failure_def others_def update_socket_def choose_port_def

theorem unix_listener_owns_path_witness:
  "\<exists>fd i k'. bind_unix_listener ''/s'' 5 sample_kernel = (Inr (fd, i), k') \<and>
     kn_files k' ''/s'' = Some \<lparr>fl_socket = True, fl_identity = i, fl_live = True, fl_mode = kUnixSocketMode\<rparr>"
proof -
  obtain r k' where b: "bind_unix_listener ''/s'' 5 sample_kernel = (r, k')" by fastforce
  then have "r = Inr (3, \<lparr>id_device = 0, id_inode = 1\<rparr>)"
    by (auto simp: bind_unix_listener_def bind_reclaiming_def publish_bound_def socket_calls sample_kernel_def kSunPathBytes_def Let_def)
  then show ?thesis
    using unix_listener_owns_path [OF sample_kernel_ok(1) _ b] b by (auto simp: sample_kernel_def)
qed

theorem reclaims_only_what_it_probed_witness:
  "\<exists>k'. remove_stale_unix_socket ''/s'' stale_kernel = (None, k') \<and> kn_sockets k' = kn_sockets stale_kernel"
proof -
  obtain r k' where b: "remove_stale_unix_socket ''/s'' stale_kernel = (r, k')" by fastforce
  then have "r = None"
    by (auto simp: remove_stale_unix_socket_def remove_probed_def socket_calls stale_kernel_def sample_kernel_def same_unix_socket_iff)
  then show ?thesis
    using reclaims_only_what_it_probed [OF sample_kernel_ok(2) b] b by blast
qed

theorem local_iff_bound_to_loopback_witness:
  "bind_address_is_local sample_pton4 (\<lambda>_. None) ''10.0.0.0'' \<longleftrightarrow>
     is_loopback (peer_address_from (Sockaddr_In (htons 80) [10, 0, 0, 0]))"
proof (rule local_iff_bound_to_loopback)
  show "sample_pton4 ''localhost'' = None" by code_simp
  show "fill_bind_address sample_pton4 (\<lambda>_. None) ''10.0.0.0'' 80 = Inr (Sockaddr_In (htons 80) [10, 0, 0, 0])" by code_simp
qed simp

end
