(* ===== verification/Http_Metrics.thy ===== *)
theory Http_Metrics
  imports Http_Text_Format Http_Method_Status "HOL-Library.Product_Lexorder" "HOL-Library.Multiset"
begin

unbundle bit_operations_syntax

text \<open>
  \<open>metrics.cpp\<close> and \<open>metrics.hpp\<close>: the registry of counters and gauges and its Prometheus exposition, and
  \<open>server_metrics.cpp\<close>, the series of the server itself. A reference to a counter or gauge is its index in
  the registry's storage. A \<open>double\<close> is its 64-bit pattern; its addition, its conversion from an integer and
  its shortest decimal text are the operations of \<open>double_ops\<close>.
\<close>

section \<open>Values\<close>

type_synonym double = "64 word"

record double_ops =
  double_add :: "double \<Rightarrow> double \<Rightarrow> double"
  double_of_int :: "int \<Rightarrow> double"
  double_format :: "double \<Rightarrow> bytes"

definition kExponentMask :: double where "kExponentMask = 0x7FF0000000000000"
definition kFractionMask :: double where "kFractionMask = 0x000FFFFFFFFFFFFF"

definition double_isnan :: "double \<Rightarrow> bool" where
  "double_isnan v \<longleftrightarrow> v AND kExponentMask = kExponentMask \<and> v AND kFractionMask \<noteq> 0"

definition double_isinf :: "double \<Rightarrow> bool" where
  "double_isinf v \<longleftrightarrow> v AND kExponentMask = kExponentMask \<and> v AND kFractionMask = 0"

definition double_positive :: "double \<Rightarrow> bool" where
  "double_positive v \<longleftrightarrow> \<not> bit v 63 \<and> v \<noteq> 0 \<and> \<not> double_isnan v"

definition kBuildInfoValue :: double where "kBuildInfoValue = 0x3FF0000000000000"
definition double_zero :: double where "double_zero = 0"

definition kCounterSuffix :: bytes where "kCounterSuffix = ''_total''"
definition kCounterTypeName :: bytes where "kCounterTypeName = ''counter''"
definition kGaugeTypeName :: bytes where "kGaugeTypeName = ''gauge''"
definition kBuildInfoName :: bytes where "kBuildInfoName = ''build_info''"
definition kBuildInfoLabelName :: bytes where "kBuildInfoLabelName = ''version''"
definition kBuildInfoHelp :: bytes where
  "kBuildInfoHelp = ''Build version of the running binary. The value is always 1; the version is the label.''"
definition kLibraryBuildInfoName :: bytes where "kLibraryBuildInfoName = ''library_build_info''"
definition kLibraryBuildInfoLabelName :: bytes where "kLibraryBuildInfoLabelName = ''library''"
definition kLibraryBuildInfoHelp :: bytes where
  "kLibraryBuildInfoHelp = ''Build version of a library linked into the running binary. The value is always 1; the '' @
     ''library and its version are the labels.''"
definition kNotANumberText :: bytes where "kNotANumberText = ''NaN''"
definition kPositiveInfinityText :: bytes where "kPositiveInfinityText = ''+Inf''"
definition kNegativeInfinityText :: bytes where "kNegativeInfinityText = ''-Inf''"

section \<open>Names and labels\<close>

type_synonym labels = "(bytes \<times> bytes) list"

datatype metric_kind = Kind_Counter | Kind_Gauge

text \<open>The causes of a \<open>ServerError\<close>.\<close>

datatype metrics_error =
    InvalidPrefix bytes | InvalidMetricName bytes | InvalidLabelName bytes bytes | DuplicateLabelName bytes bytes
  | OtherKind bytes metric_kind metric_kind | OtherSource bytes | SeriesLimitReached nat

definition is_identifier_start :: "char \<Rightarrow> bool" where
  "is_identifier_start c \<longleftrightarrow>
     (CHR ''a'' \<le> c \<and> c \<le> CHR ''z'') \<or> (CHR ''A'' \<le> c \<and> c \<le> CHR ''Z'') \<or> c = CHR ''_''"

definition is_identifier_character :: "char \<Rightarrow> bool" where
  "is_identifier_character c \<longleftrightarrow> is_identifier_start c \<or> (CHR ''0'' \<le> c \<and> c \<le> CHR ''9'')"

definition is_valid_identifier :: "bytes \<Rightarrow> bool" where
  "is_valid_identifier name \<longleftrightarrow>
     name \<noteq> [] \<and> is_identifier_start (hd name) \<and> list_all is_identifier_character name"

text \<open>The loop over the labels, with the names already seen.\<close>

fun require_valid_labels :: "bytes \<Rightarrow> bytes list \<Rightarrow> labels \<Rightarrow> (metrics_error, unit) expected" where
  "require_valid_labels name previous [] = Inr ()"
| "require_valid_labels name previous ((label_name, _) # labels) =
     (if \<not> is_valid_identifier label_name then Inl (InvalidLabelName label_name name)
      else if label_name \<in> set previous then Inl (DuplicateLabelName label_name name)
      else require_valid_labels name (previous @ [label_name]) labels)"

definition require_valid_series :: "bytes \<Rightarrow> labels \<Rightarrow> (metrics_error, unit) expected" where
  "require_valid_series name labels =
     (if \<not> is_valid_identifier name then Inl (InvalidMetricName name) else require_valid_labels name [] labels)"

definition validate_and_sort_labels :: "bytes \<Rightarrow> labels \<Rightarrow> (metrics_error, labels) expected" where
  "validate_and_sort_labels name labels =
     (case require_valid_series name labels of Inl e \<Rightarrow> Inl e | Inr _ \<Rightarrow> Inr (sort labels))"

definition qualified_name :: "bytes \<Rightarrow> bytes \<Rightarrow> bytes" where
  "qualified_name prefix name = (if prefix = [] then name else prefix @ [CHR ''_''] @ name)"

definition escape_help_char :: "char \<Rightarrow> bytes" where
  "escape_help_char c =
     (if c = CHR 0x5C then [CHR 0x5C, CHR 0x5C] else if c = CHR 0x0A then [CHR 0x5C, CHR ''n''] else [c])"

definition escape_help :: "bytes \<Rightarrow> bytes" where
  "escape_help help = concat (map escape_help_char help)"

definition render_label :: "bytes \<times> bytes \<Rightarrow> bytes" where
  "render_label label = fst label @ ''=\"'' @ prometheus_label_escape (snd label) @ [CHR 0x22]"

text \<open>The loop of \<open>render_labels\<close>; \<open>first\<close> says that no label was written yet.\<close>

fun render_labels_loop :: "bool \<Rightarrow> labels \<Rightarrow> bytes" where
  "render_labels_loop first [] = []"
| "render_labels_loop first (label # labels) =
     (if first then [] else '','') @ render_label label @ render_labels_loop False labels"

definition render_labels :: "labels \<Rightarrow> bytes" where
  "render_labels labels =
     (if labels = [] then [] else [CHR 0x7B] @ render_labels_loop True labels @ [CHR 0x7D])"

definition kind_type_name :: "metric_kind \<Rightarrow> bytes" where
  "kind_type_name kind = (if kind = Kind_Counter then kCounterTypeName else kGaugeTypeName)"

definition format_gauge_value :: "double_ops \<Rightarrow> double \<Rightarrow> bytes" where
  "format_gauge_value ops v =
     (if double_isnan v then kNotANumberText
      else if double_isinf v then (if double_positive v then kPositiveInfinityText else kNegativeInfinityText)
      else double_format ops v)"

section \<open>The registry\<close>

text \<open>A \<open>std::function\<close> may be empty; otherwise it is the identity of the application's producer.\<close>

record sample =
  sm_name :: bytes
  sm_help :: bytes
  sm_labels :: labels
  sm_kind :: metric_kind
  sm_counter :: "nat option"
  sm_gauge :: "nat option"
  sm_producer :: "nat option"

record registry =
  mr_prefix :: bytes
  mr_max_series :: nat
  mr_counter_storage :: "64 word list"
  mr_gauge_storage :: "double list"
  mr_samples :: "sample list"

definition new_registry :: "bytes \<Rightarrow> nat \<Rightarrow> (metrics_error, registry) expected" where
  "new_registry metric_prefix max_series =
     (if metric_prefix \<noteq> [] \<and> \<not> is_valid_identifier metric_prefix then Inl (InvalidPrefix metric_prefix)
      else Inr \<lparr>mr_prefix = metric_prefix, mr_max_series = max_series, mr_counter_storage = [],
             mr_gauge_storage = [], mr_samples = []\<rparr>)"

fun require_one_kind_per_name :: "sample list \<Rightarrow> bytes \<Rightarrow> metric_kind \<Rightarrow> (metrics_error, unit) expected" where
  "require_one_kind_per_name [] full_name kind = Inr ()"
| "require_one_kind_per_name (sample # samples) full_name kind =
     (if sm_name sample \<noteq> full_name \<or> sm_kind sample = kind then require_one_kind_per_name samples full_name kind
      else Inl (OtherKind full_name (sm_kind sample) kind))"

definition require_room_for_series :: "registry \<Rightarrow> (metrics_error, unit) expected" where
  "require_room_for_series reg =
     (if length (mr_samples reg) \<ge> mr_max_series reg then Inl (SeriesLimitReached (mr_max_series reg)) else Inr ())"

definition is_series :: "bytes \<Rightarrow> labels \<Rightarrow> sample \<Rightarrow> bool" where
  "is_series full_name labels sample \<longleftrightarrow> sm_name sample = full_name \<and> sm_labels sample = labels"

text \<open>The checks that precede the search for the series: the sorted labels, or the error.\<close>

definition check_series :: "bytes \<Rightarrow> labels \<Rightarrow> metric_kind \<Rightarrow> registry \<Rightarrow> (metrics_error, labels) expected" where
  "check_series full_name labels kind reg =
     (case validate_and_sort_labels full_name labels of Inl e \<Rightarrow> Inl e
      | Inr labels \<Rightarrow>
          (case require_one_kind_per_name (mr_samples reg) full_name kind of Inl e \<Rightarrow> Inl e | Inr _ \<Rightarrow> Inr labels))"

definition counter_name :: "bytes \<Rightarrow> bytes \<Rightarrow> bytes" where
  "counter_name prefix name =
     (let full_name = qualified_name prefix name in
      if ends_with full_name kCounterSuffix then full_name else full_name @ kCounterSuffix)"

definition counter :: "bytes \<Rightarrow> bytes \<Rightarrow> labels \<Rightarrow> registry \<Rightarrow> (metrics_error, nat \<times> registry) expected" where
  "counter name help labels reg =
     (let full_name = counter_name (mr_prefix reg) name in
      case check_series full_name labels Kind_Counter reg of Inl e \<Rightarrow> Inl e
      | Inr labels \<Rightarrow>
          (case find (is_series full_name labels) (mr_samples reg) of
             Some sample \<Rightarrow>
               (case sm_counter sample of None \<Rightarrow> Inl (OtherSource full_name) | Some c \<Rightarrow> Inr (c, reg))
           | None \<Rightarrow>
               (case require_room_for_series reg of Inl e \<Rightarrow> Inl e
                | Inr _ \<Rightarrow>
                    let created = length (mr_counter_storage reg) in
                    Inr (created, reg\<lparr>mr_counter_storage := mr_counter_storage reg @ [0],
                      mr_samples := mr_samples reg @
                        [\<lparr>sm_name = full_name, sm_help = help, sm_labels = labels, sm_kind = Kind_Counter,
                          sm_counter = Some created, sm_gauge = None, sm_producer = None\<rparr>]\<rparr>))))"

definition gauge :: "bytes \<Rightarrow> bytes \<Rightarrow> labels \<Rightarrow> registry \<Rightarrow> (metrics_error, nat \<times> registry) expected" where
  "gauge name help labels reg =
     (let full_name = qualified_name (mr_prefix reg) name in
      case check_series full_name labels Kind_Gauge reg of Inl e \<Rightarrow> Inl e
      | Inr labels \<Rightarrow>
          (case find (is_series full_name labels) (mr_samples reg) of
             Some sample \<Rightarrow>
               (case sm_gauge sample of None \<Rightarrow> Inl (OtherSource full_name) | Some g \<Rightarrow> Inr (g, reg))
           | None \<Rightarrow>
               (case require_room_for_series reg of Inl e \<Rightarrow> Inl e
                | Inr _ \<Rightarrow>
                    let created = length (mr_gauge_storage reg) in
                    Inr (created, reg\<lparr>mr_gauge_storage := mr_gauge_storage reg @ [double_zero],
                      mr_samples := mr_samples reg @
                        [\<lparr>sm_name = full_name, sm_help = help, sm_labels = labels, sm_kind = Kind_Gauge,
                          sm_counter = None, sm_gauge = Some created, sm_producer = None\<rparr>]\<rparr>))))"

text \<open>The assignment to the first sample of the series.\<close>

fun update_first :: "('a \<Rightarrow> bool) \<Rightarrow> ('a \<Rightarrow> 'a) \<Rightarrow> 'a list \<Rightarrow> 'a list" where
  "update_first P f [] = []"
| "update_first P f (x # xs) = (if P x then f x # xs else x # update_first P f xs)"

definition gauge_fn ::
  "bytes \<Rightarrow> bytes \<Rightarrow> nat option \<Rightarrow> labels \<Rightarrow> registry \<Rightarrow> (metrics_error, registry) expected" where
  "gauge_fn name help producer labels reg =
     (let full_name = qualified_name (mr_prefix reg) name in
      case check_series full_name labels Kind_Gauge reg of Inl e \<Rightarrow> Inl e
      | Inr labels \<Rightarrow>
          (case find (is_series full_name labels) (mr_samples reg) of
             Some sample \<Rightarrow>
               (case sm_producer sample of None \<Rightarrow> Inl (OtherSource full_name)
                | Some _ \<Rightarrow>
                    Inr (reg\<lparr>mr_samples := update_first (is_series full_name labels)
                      (\<lambda>s. s\<lparr>sm_help := help, sm_producer := producer\<rparr>) (mr_samples reg)\<rparr>))
           | None \<Rightarrow>
               (case require_room_for_series reg of Inl e \<Rightarrow> Inl e
                | Inr _ \<Rightarrow>
                    Inr (reg\<lparr>mr_samples := mr_samples reg @
                        [\<lparr>sm_name = full_name, sm_help = help, sm_labels = labels, sm_kind = Kind_Gauge,
                          sm_counter = None, sm_gauge = None, sm_producer = producer\<rparr>]\<rparr>))))"

definition counter_increment :: "nat \<Rightarrow> 64 word \<Rightarrow> registry \<Rightarrow> registry" where
  "counter_increment c amount reg =
     reg\<lparr>mr_counter_storage := (mr_counter_storage reg)[c := mr_counter_storage reg ! c + amount]\<rparr>"

definition counter_value :: "nat \<Rightarrow> registry \<Rightarrow> 64 word" where
  "counter_value c reg = mr_counter_storage reg ! c"

definition gauge_set :: "nat \<Rightarrow> double \<Rightarrow> registry \<Rightarrow> registry" where
  "gauge_set g v reg = reg\<lparr>mr_gauge_storage := (mr_gauge_storage reg)[g := v]\<rparr>"

definition gauge_value :: "nat \<Rightarrow> registry \<Rightarrow> double" where
  "gauge_value g reg = mr_gauge_storage reg ! g"

text \<open>\<open>Gauge::add\<close>: the compare-exchange loop makes it one atomic step.\<close>

definition gauge_add :: "double_ops \<Rightarrow> nat \<Rightarrow> double \<Rightarrow> registry \<Rightarrow> registry" where
  "gauge_add ops g delta reg = gauge_set g (double_add ops (gauge_value g reg) delta) reg"

definition build_info :: "bytes \<Rightarrow> registry \<Rightarrow> (metrics_error, registry) expected" where
  "build_info version reg =
     (case gauge kBuildInfoName kBuildInfoHelp [(kBuildInfoLabelName, version)] reg of Inl e \<Rightarrow> Inl e
      | Inr (info, reg) \<Rightarrow> Inr (gauge_set info kBuildInfoValue reg))"

definition library_build_info :: "bytes \<Rightarrow> bytes \<Rightarrow> registry \<Rightarrow> (metrics_error, registry) expected" where
  "library_build_info library version reg =
     (case gauge kLibraryBuildInfoName kLibraryBuildInfoHelp
             [(kLibraryBuildInfoLabelName, library), (kBuildInfoLabelName, version)] reg of Inl e \<Rightarrow> Inl e
      | Inr (info, reg) \<Rightarrow> Inr (gauge_set info kBuildInfoValue reg))"

section \<open>Exposition\<close>

record metric_series_snapshot =
  ss_labels :: labels
  ss_value :: bytes

record metric_snapshot =
  ms_name :: bytes
  ms_help :: bytes
  ms_kind :: metric_kind
  ms_series :: "metric_series_snapshot list"

text \<open>The key the sort of \<open>snapshot\<close> compares. \<open>std::ranges::sort\<close> leaves the order of equal keys open, so
  the order it produces is an argument; \<open>snapshot_order\<close> is one of them.\<close>

definition sample_key :: "registry \<Rightarrow> nat \<Rightarrow> bytes \<times> bytes" where
  "sample_key reg i = (let sample = mr_samples reg ! i in (sm_name sample, render_labels (sm_labels sample)))"

definition is_snapshot_order :: "registry \<Rightarrow> nat list \<Rightarrow> bool" where
  "is_snapshot_order reg order \<longleftrightarrow>
     sort order = [0..<length (mr_samples reg)] \<and> sorted (map (sample_key reg) order)"

definition snapshot_order :: "registry \<Rightarrow> nat list" where
  "snapshot_order reg = sort_key (sample_key reg) [0..<length (mr_samples reg)]"

definition sample_value :: "double_ops \<Rightarrow> (nat \<Rightarrow> double) \<Rightarrow> registry \<Rightarrow> sample \<Rightarrow> bytes" where
  "sample_value ops producers reg sample =
     (case sm_counter sample of Some c \<Rightarrow> nat_to_dec (unat (counter_value c reg))
      | None \<Rightarrow>
          (case sm_gauge sample of Some g \<Rightarrow> format_gauge_value ops (gauge_value g reg)
           | None \<Rightarrow>
               (case sm_producer sample of Some p \<Rightarrow> format_gauge_value ops (producers p)
                | None \<Rightarrow> format_gauge_value ops double_zero)))"

definition snapshot_step ::
  "double_ops \<Rightarrow> (nat \<Rightarrow> double) \<Rightarrow> registry \<Rightarrow> nat \<Rightarrow> metric_snapshot list \<Rightarrow> metric_snapshot list" where
  "snapshot_step ops producers reg i snap =
     (let sample = mr_samples reg ! i;
          snap = (if snap = [] \<or> ms_name (last snap) \<noteq> sm_name sample
            then snap @ [\<lparr>ms_name = sm_name sample, ms_help = sm_help sample, ms_kind = sm_kind sample, ms_series = []\<rparr>]
            else snap);
          series = \<lparr>ss_labels = sm_labels sample, ss_value = sample_value ops producers reg sample\<rparr>
      in butlast snap @ [(last snap)\<lparr>ms_series := ms_series (last snap) @ [series]\<rparr>])"

definition snapshot :: "double_ops \<Rightarrow> (nat \<Rightarrow> double) \<Rightarrow> nat list \<Rightarrow> registry \<Rightarrow> metric_snapshot list" where
  "snapshot ops producers order reg = fold (snapshot_step ops producers reg) order []"

definition series_text :: "bytes \<Rightarrow> metric_series_snapshot \<Rightarrow> bytes" where
  "series_text name series = name @ render_labels (ss_labels series) @ '' '' @ ss_value series @ [CHR 0x0A]"

definition metric_text :: "metric_snapshot \<Rightarrow> bytes" where
  "metric_text metric =
     ''# HELP '' @ ms_name metric @ '' '' @ escape_help (ms_help metric) @ [CHR 0x0A] @
     ''# TYPE '' @ ms_name metric @ '' '' @ kind_type_name (ms_kind metric) @ [CHR 0x0A] @
     concat (map (series_text (ms_name metric)) (ms_series metric))"

definition prometheus :: "double_ops \<Rightarrow> (nat \<Rightarrow> double) \<Rightarrow> nat list \<Rightarrow> registry \<Rightarrow> bytes" where
  "prometheus ops producers order reg = concat (map metric_text (snapshot ops producers order reg))"

section \<open>Series and their references\<close>

text \<open>A sample as the registry keeps it: a valid name with sorted labels, no label name twice, and a
  source that fits its kind.\<close>

definition series_ok :: "bytes \<Rightarrow> labels \<Rightarrow> bool" where
  "series_ok name labels \<longleftrightarrow> is_valid_identifier name \<and> sorted labels \<and> distinct (map fst labels) \<and>
     (\<forall>label \<in> set labels. is_valid_identifier (fst label))"

definition source_ok :: "sample \<Rightarrow> bool" where
  "source_ok s \<longleftrightarrow>
     (case sm_kind s of
        Kind_Counter \<Rightarrow> ends_with (sm_name s) kCounterSuffix \<and> sm_counter s \<noteq> None \<and> sm_gauge s = None \<and> sm_producer s = None
      | Kind_Gauge \<Rightarrow> sm_counter s = None \<and> (sm_gauge s = None \<or> sm_producer s = None))"

definition series_id :: "sample \<Rightarrow> bytes \<times> labels" where
  "series_id s = (sm_name s, sm_labels s)"

definition one_kind :: "sample list \<Rightarrow> bool" where
  "one_kind samples \<longleftrightarrow>
     (\<forall>s \<in> set samples. \<forall>t \<in> set samples. sm_name s = sm_name t \<longrightarrow> sm_kind s = sm_kind t)"

definition registry_ok :: "registry \<Rightarrow> bool" where
  "registry_ok reg \<longleftrightarrow>
     (mr_prefix reg = [] \<or> is_valid_identifier (mr_prefix reg)) \<and> length (mr_samples reg) \<le> mr_max_series reg \<and>
     (\<forall>s \<in> set (mr_samples reg). series_ok (sm_name s) (sm_labels s) \<and> source_ok s) \<and>
     distinct (map series_id (mr_samples reg)) \<and>
     one_kind (mr_samples reg) \<and> List.map_filter sm_counter (mr_samples reg) = [0..<length (mr_counter_storage reg)] \<and>
     List.map_filter sm_gauge (mr_samples reg) = [0..<length (mr_gauge_storage reg)]"

lemma one_kindD: "one_kind samples \<Longrightarrow> s \<in> set samples \<Longrightarrow> t \<in> set samples \<Longrightarrow> sm_name s = sm_name t \<Longrightarrow> sm_kind s = sm_kind t"
  unfolding one_kind_def by blast

lemma one_kind_snoc:
  "one_kind samples \<Longrightarrow> \<forall>t \<in> set samples. sm_name t = sm_name s \<longrightarrow> sm_kind t = sm_kind s \<Longrightarrow> one_kind (samples @ [s])"
  unfolding one_kind_def by (metis Un_iff empty_iff empty_set set_ConsD set_append)

lemma one_kind_update:
  "one_kind (ys @ s # zs) \<Longrightarrow> sm_name s' = sm_name s \<Longrightarrow> sm_kind s' = sm_kind s \<Longrightarrow> one_kind (ys @ s' # zs)"
  unfolding one_kind_def set_append list.set by (intro ballI impI) (metis Un_iff insert_iff)

lemma registry_okD:
  "registry_ok reg \<Longrightarrow> s \<in> set (mr_samples reg) \<Longrightarrow> series_ok (sm_name s) (sm_labels s)"
  "registry_ok reg \<Longrightarrow> s \<in> set (mr_samples reg) \<Longrightarrow> source_ok s"
  "registry_ok reg \<Longrightarrow> one_kind (mr_samples reg)"
  "registry_ok reg \<Longrightarrow> distinct (map series_id (mr_samples reg))"
  by (simp_all add: registry_ok_def)

lemma source_kind: "source_ok s \<Longrightarrow> sm_kind s = Kind_Counter \<longleftrightarrow> sm_counter s \<noteq> None"
  by (cases "sm_kind s") (auto simp: source_ok_def)

lemma map_filter_append [simp]: "List.map_filter f (xs @ ys) = List.map_filter f xs @ List.map_filter f ys"
  by (simp add: List.map_filter_def)

lemma map_filter_Cons: "List.map_filter f (x # xs) = (case f x of None \<Rightarrow> [] | Some y \<Rightarrow> [y]) @ List.map_filter f xs"
  by (simp add: List.map_filter_def split: option.split)

lemma set_map_filter_iff: "y \<in> set (List.map_filter f xs) \<longleftrightarrow> (\<exists>x \<in> set xs. f x = Some y)"
  by (induction xs) (auto simp: map_filter_Cons List.map_filter_def split: option.splits)

lemma map_filter_distinct_eq:
  "distinct (List.map_filter f xs) \<Longrightarrow> x \<in> set xs \<Longrightarrow> y \<in> set xs \<Longrightarrow> f x = Some c \<Longrightarrow> f y = Some c \<Longrightarrow> x = y"
  by (induction xs) (auto simp: map_filter_Cons set_map_filter_iff split: option.splits)

lemma require_valid_labels_Inr:
  "require_valid_labels name previous labels = Inr u \<longleftrightarrow>
     (\<forall>label \<in> set labels. is_valid_identifier (fst label)) \<and> distinct (map fst labels) \<and>
     set previous \<inter> set (map fst labels) = {}"
  by (induction name previous labels rule: require_valid_labels.induct) auto

lemma require_one_kind_Inr:
  "require_one_kind_per_name samples full_name kind = Inr u \<longleftrightarrow>
     (\<forall>s \<in> set samples. sm_name s = full_name \<longrightarrow> sm_kind s = kind)"
  by (induction samples full_name kind rule: require_one_kind_per_name.induct) auto

lemma check_series_Inr:
  "check_series full_name labels kind reg = Inr labels' \<longleftrightarrow>
     labels' = sort labels \<and> series_ok full_name (sort labels) \<and>
     (\<forall>s \<in> set (mr_samples reg). sm_name s = full_name \<longrightarrow> sm_kind s = kind)"
proof -
  have "distinct (map fst (sort labels)) \<longleftrightarrow> distinct (map fst labels)"
    by (metis mset_map mset_sort mset_eq_imp_distinct_iff)
  then show ?thesis
    using require_valid_labels_Inr [of full_name "[]" labels] require_one_kind_Inr [of "mr_samples reg" full_name kind]
    by (auto simp: check_series_def validate_and_sort_labels_def require_valid_series_def series_ok_def split: sum.splits)
qed

lemma find_series_None:
  "find (is_series full_name labels) samples = None \<longleftrightarrow> (full_name, labels) \<notin> set (map series_id samples)"
  by (auto simp: find_None_iff is_series_def series_id_def)

lemma find_series_Some:
  "find (is_series full_name labels) samples = Some s \<Longrightarrow> s \<in> set samples \<and> series_id s = (full_name, labels)"
  by (auto simp: find_Some_iff is_series_def series_id_def)

lemma update_first_split:
  assumes "find P xs = Some x"
  obtains ys zs where "xs = ys @ x # zs" "P x" "update_first P f xs = ys @ f x # zs"
  using assms
proof (induction xs arbitrary: thesis)
  case (Cons a xs)
  show ?case
  proof (cases "P a")
    case True
    then show ?thesis using Cons.prems by (intro Cons.prems(1) [of "[]" xs]) auto
  next
    case False
    then obtain ys zs where "xs = ys @ x # zs" "P x" "update_first P f xs = ys @ f x # zs"
      using Cons.IH Cons.prems(2) by (auto split: if_splits)
    then show ?thesis using False by (intro Cons.prems(1) [of "a # ys" zs]) auto
  qed
qed simp

text \<open>What a successful registration does: nothing, one new sample with a new reference, or a change of
  help and producer of a computed gauge.\<close>

lemma counter_cases:
  assumes "counter name help labels reg = Inr (c, reg')"
  obtains (found) s where "reg' = reg" "s \<in> set (mr_samples reg)" "sm_counter s = Some c"
      "series_id s = (counter_name (mr_prefix reg) name, sort labels)"
    | (created) "c = length (mr_counter_storage reg)" "length (mr_samples reg) < mr_max_series reg"
      "(counter_name (mr_prefix reg) name, sort labels) \<notin> set (map series_id (mr_samples reg))"
      "series_ok (counter_name (mr_prefix reg) name) (sort labels)"
      "\<forall>s \<in> set (mr_samples reg). sm_name s = counter_name (mr_prefix reg) name \<longrightarrow> sm_kind s = Kind_Counter"
      "reg' = reg\<lparr>mr_counter_storage := mr_counter_storage reg @ [0], mr_samples := mr_samples reg @
         [\<lparr>sm_name = counter_name (mr_prefix reg) name, sm_help = help, sm_labels = sort labels, sm_kind = Kind_Counter,
           sm_counter = Some c, sm_gauge = None, sm_producer = None\<rparr>]\<rparr>"
proof -
  let ?n = "counter_name (mr_prefix reg) name"
  obtain ls where ls: "check_series ?n labels Kind_Counter reg = Inr ls"
    using assms by (auto simp: counter_def Let_def split: sum.splits)
  then have chk: "ls = sort labels" "series_ok ?n (sort labels)"
    "\<forall>s \<in> set (mr_samples reg). sm_name s = ?n \<longrightarrow> sm_kind s = Kind_Counter"
    by (simp_all add: check_series_Inr)
  show thesis
  proof (cases "find (is_series ?n ls) (mr_samples reg)")
    case None
    then have "(?n, sort labels) \<notin> set (map series_id (mr_samples reg))" using find_series_None chk(1) by metis
    then show thesis using assms ls chk None
      by (intro created) (auto simp: counter_def require_room_for_series_def Let_def split: if_splits)
  next
    case (Some s)
    then show thesis using assms ls chk(1) find_series_Some [OF Some]
      by (intro found [of s]) (auto simp: counter_def Let_def split: option.splits)
  qed
qed

lemma gauge_cases:
  assumes "gauge name help labels reg = Inr (g, reg')"
  obtains (found) s where "reg' = reg" "s \<in> set (mr_samples reg)" "sm_gauge s = Some g"
      "series_id s = (qualified_name (mr_prefix reg) name, sort labels)"
    | (created) "g = length (mr_gauge_storage reg)" "length (mr_samples reg) < mr_max_series reg"
      "(qualified_name (mr_prefix reg) name, sort labels) \<notin> set (map series_id (mr_samples reg))"
      "series_ok (qualified_name (mr_prefix reg) name) (sort labels)"
      "\<forall>s \<in> set (mr_samples reg). sm_name s = qualified_name (mr_prefix reg) name \<longrightarrow> sm_kind s = Kind_Gauge"
      "reg' = reg\<lparr>mr_gauge_storage := mr_gauge_storage reg @ [double_zero], mr_samples := mr_samples reg @
         [\<lparr>sm_name = qualified_name (mr_prefix reg) name, sm_help = help, sm_labels = sort labels, sm_kind = Kind_Gauge,
           sm_counter = None, sm_gauge = Some g, sm_producer = None\<rparr>]\<rparr>"
proof -
  let ?n = "qualified_name (mr_prefix reg) name"
  obtain ls where ls: "check_series ?n labels Kind_Gauge reg = Inr ls"
    using assms by (auto simp: gauge_def Let_def split: sum.splits)
  then have chk: "ls = sort labels" "series_ok ?n (sort labels)"
    "\<forall>s \<in> set (mr_samples reg). sm_name s = ?n \<longrightarrow> sm_kind s = Kind_Gauge"
    by (simp_all add: check_series_Inr)
  show thesis
  proof (cases "find (is_series ?n ls) (mr_samples reg)")
    case None
    then have "(?n, sort labels) \<notin> set (map series_id (mr_samples reg))" using find_series_None chk(1) by metis
    then show thesis using assms ls chk None
      by (intro created) (auto simp: gauge_def require_room_for_series_def Let_def split: if_splits)
  next
    case (Some s)
    then show thesis using assms ls chk(1) find_series_Some [OF Some]
      by (intro found [of s]) (auto simp: gauge_def Let_def split: option.splits)
  qed
qed

lemma gauge_fn_cases:
  assumes "gauge_fn name help producer labels reg = Inr reg'"
  obtains (found) ys s zs where "mr_samples reg = ys @ s # zs" "sm_producer s \<noteq> None" "sm_kind s = Kind_Gauge"
      "reg' = reg\<lparr>mr_samples := ys @ s\<lparr>sm_help := help, sm_producer := producer\<rparr> # zs\<rparr>"
    | (created) "length (mr_samples reg) < mr_max_series reg"
      "(qualified_name (mr_prefix reg) name, sort labels) \<notin> set (map series_id (mr_samples reg))"
      "series_ok (qualified_name (mr_prefix reg) name) (sort labels)"
      "\<forall>s \<in> set (mr_samples reg). sm_name s = qualified_name (mr_prefix reg) name \<longrightarrow> sm_kind s = Kind_Gauge"
      "reg' = reg\<lparr>mr_samples := mr_samples reg @
         [\<lparr>sm_name = qualified_name (mr_prefix reg) name, sm_help = help, sm_labels = sort labels, sm_kind = Kind_Gauge,
           sm_counter = None, sm_gauge = None, sm_producer = producer\<rparr>]\<rparr>"
proof -
  let ?n = "qualified_name (mr_prefix reg) name"
  obtain ls where ls: "check_series ?n labels Kind_Gauge reg = Inr ls"
    using assms by (auto simp: gauge_fn_def Let_def split: sum.splits)
  then have chk: "ls = sort labels" "series_ok ?n (sort labels)"
    "\<forall>s \<in> set (mr_samples reg). sm_name s = ?n \<longrightarrow> sm_kind s = Kind_Gauge"
    by (simp_all add: check_series_Inr)
  show thesis
  proof (cases "find (is_series ?n ls) (mr_samples reg)")
    case None
    then have "(?n, sort labels) \<notin> set (map series_id (mr_samples reg))" using find_series_None chk(1) by metis
    then show thesis using assms ls chk None
      by (intro created) (auto simp: gauge_fn_def require_room_for_series_def Let_def split: if_splits)
  next
    case (Some s)
    then obtain ys zs where sp: "mr_samples reg = ys @ s # zs" "is_series ?n ls s"
      "update_first (is_series ?n ls) (\<lambda>s. s\<lparr>sm_help := help, sm_producer := producer\<rparr>) (mr_samples reg) =
         ys @ s\<lparr>sm_help := help, sm_producer := producer\<rparr> # zs" by (rule update_first_split)
    then have "sm_kind s = Kind_Gauge" using chk(3) by (auto simp: is_series_def)
    then show thesis using assms ls Some sp
      by (intro found [of ys s zs]) (auto simp: gauge_fn_def Let_def split: option.splits)
  qed
qed

text \<open>One operation on a registry; the application and the server share it, each operation under its mutex
  or atomic.\<close>

inductive registry_step :: "registry \<Rightarrow> registry \<Rightarrow> bool" where
  step_counter: "counter name help labels reg = Inr (c, reg') \<Longrightarrow> registry_step reg reg'"
| step_gauge: "gauge name help labels reg = Inr (g, reg') \<Longrightarrow> registry_step reg reg'"
| step_gauge_fn: "gauge_fn name help producer labels reg = Inr reg' \<Longrightarrow> registry_step reg reg'"
| step_build_info: "build_info version reg = Inr reg' \<Longrightarrow> registry_step reg reg'"
| step_library_build_info: "library_build_info library version reg = Inr reg' \<Longrightarrow> registry_step reg reg'"
| step_increment: "registry_step reg (counter_increment c amount reg)"
| step_gauge_set: "registry_step reg (gauge_set g v reg)"
| step_gauge_add: "registry_step reg (gauge_add ops g delta reg)"

definition registry_run :: "bytes \<Rightarrow> nat \<Rightarrow> registry \<Rightarrow> bool" where
  "registry_run metric_prefix max_series reg \<longleftrightarrow>
     (\<exists>reg0. new_registry metric_prefix max_series = Inr reg0 \<and> registry_step\<^sup>*\<^sup>* reg0 reg)"

lemma gauge_set_fields [simp]:
  "mr_samples (gauge_set g v reg) = mr_samples reg" "mr_prefix (gauge_set g v reg) = mr_prefix reg"
  "mr_max_series (gauge_set g v reg) = mr_max_series reg"
  "mr_counter_storage (gauge_set g v reg) = mr_counter_storage reg"
  "length (mr_gauge_storage (gauge_set g v reg)) = length (mr_gauge_storage reg)"
  by (simp_all add: gauge_set_def)

lemma counter_increment_fields [simp]:
  "mr_samples (counter_increment c n reg) = mr_samples reg" "mr_prefix (counter_increment c n reg) = mr_prefix reg"
  "mr_max_series (counter_increment c n reg) = mr_max_series reg"
  "mr_gauge_storage (counter_increment c n reg) = mr_gauge_storage reg"
  "length (mr_counter_storage (counter_increment c n reg)) = length (mr_counter_storage reg)"
  by (simp_all add: counter_increment_def)

lemma upt_split: "a \<le> b \<Longrightarrow> [0..<b] = [0..<a] @ [a..<b]"
  by (metis le_add_diff_inverse upt_add_eq_append zero_le)

lemma registry_ok_add:
  assumes "registry_ok reg" "length (mr_samples reg) < mr_max_series reg"
    and "series_id s \<notin> set (map series_id (mr_samples reg))" "series_ok (sm_name s) (sm_labels s)" "source_ok s"
    and "\<forall>t \<in> set (mr_samples reg). sm_name t = sm_name s \<longrightarrow> sm_kind t = sm_kind s"
    and "mr_samples reg' = mr_samples reg @ [s]" "mr_prefix reg' = mr_prefix reg" "mr_max_series reg' = mr_max_series reg"
    and "List.map_filter sm_counter [s] = [length (mr_counter_storage reg)..<length (mr_counter_storage reg')]"
      "length (mr_counter_storage reg) \<le> length (mr_counter_storage reg')"
    and "List.map_filter sm_gauge [s] = [length (mr_gauge_storage reg)..<length (mr_gauge_storage reg')]"
      "length (mr_gauge_storage reg) \<le> length (mr_gauge_storage reg')"
  shows "registry_ok reg'"
proof -
  have "[0..<length (mr_counter_storage reg')] = List.map_filter sm_counter (mr_samples reg @ [s])"
    "[0..<length (mr_gauge_storage reg')] = List.map_filter sm_gauge (mr_samples reg @ [s])"
    using assms(1,10-13) upt_split [of "length (mr_counter_storage reg)" "length (mr_counter_storage reg')"]
      upt_split [of "length (mr_gauge_storage reg)" "length (mr_gauge_storage reg')"]
    by (simp_all add: registry_ok_def)
  moreover have "one_kind (mr_samples reg')"
    using one_kind_snoc [of "mr_samples reg" s] assms(1,6,7) by (simp add: registry_ok_def)
  ultimately show ?thesis using assms(1-5,7-9) by (auto simp: registry_ok_def)
qed

lemma counter_name_suffix: "ends_with (counter_name prefix name) kCounterSuffix"
  by (simp add: counter_name_def Let_def ends_with_def)

lemma counter_ok: "registry_ok reg \<Longrightarrow> counter name help labels reg = Inr (c, reg') \<Longrightarrow> registry_ok reg'"
  by (erule counter_cases, simp)
    (erule (1) registry_ok_add, auto simp: source_ok_def series_id_def map_filter_Cons List.map_filter_def counter_name_suffix)

lemma gauge_ok: "registry_ok reg \<Longrightarrow> gauge name help labels reg = Inr (g, reg') \<Longrightarrow> registry_ok reg'"
  by (erule gauge_cases, simp)
    (erule (1) registry_ok_add, auto simp: source_ok_def series_id_def map_filter_Cons List.map_filter_def)

lemma gauge_fn_ok:
  assumes "registry_ok reg" "gauge_fn name help producer labels reg = Inr reg'" shows "registry_ok reg'"
  using assms(2)
proof (cases rule: gauge_fn_cases)
  case (found ys s zs)
  then have "series_ok (sm_name s) (sm_labels s)" "source_ok s" using assms(1) by (auto simp: registry_ok_def)
  with found(2,3) have s: "sm_gauge s = None" "sm_counter s = None" "sm_kind s = Kind_Gauge"
    by (auto simp: source_ok_def)
  moreover have "one_kind (mr_samples reg')"
    using one_kind_update [of ys s zs "s\<lparr>sm_help := help, sm_producer := producer\<rparr>"] found assms(1)
    by (simp add: registry_ok_def)
  ultimately show ?thesis using found assms(1)
    by (auto simp: registry_ok_def source_ok_def series_id_def map_filter_Cons)
next
  case created
  then show ?thesis
    by (intro registry_ok_add [OF assms(1)])
      (auto simp: source_ok_def series_id_def map_filter_Cons List.map_filter_def)
qed

lemma storage_ok [simp]:
  "registry_ok (gauge_set g v reg) = registry_ok reg" "registry_ok (counter_increment c n reg) = registry_ok reg"
  by (simp_all add: registry_ok_def)

lemma registry_step_ok: "registry_step reg reg' \<Longrightarrow> registry_ok reg \<Longrightarrow> registry_ok reg'"
  by (induction rule: registry_step.induct)
    (auto simp: build_info_def library_build_info_def gauge_add_def intro: counter_ok gauge_ok gauge_fn_ok
      split: sum.splits)

lemma registry_steps_ok: "registry_step\<^sup>*\<^sup>* reg reg' \<Longrightarrow> registry_ok reg \<Longrightarrow> registry_ok reg'"
  by (induction rule: rtranclp_induct) (auto intro: registry_step_ok)

lemma new_registry_ok:
  assumes "new_registry metric_prefix max_series = Inr reg"
  shows "registry_ok reg" "mr_prefix reg = metric_prefix" "mr_max_series reg = max_series"
  using assms by (auto simp: new_registry_def registry_ok_def one_kind_def List.map_filter_def split: if_splits)

lemma registry_run_ok: "registry_run metric_prefix max_series reg \<Longrightarrow> registry_ok reg"
  by (auto simp: registry_run_def intro: registry_steps_ok new_registry_ok(1))

lemma registration_prefix:
  "counter name help labels reg = Inr (c, reg') \<Longrightarrow> mr_prefix reg' = mr_prefix reg \<and> mr_max_series reg' = mr_max_series reg"
  "gauge name help labels reg = Inr (c, reg') \<Longrightarrow> mr_prefix reg' = mr_prefix reg \<and> mr_max_series reg' = mr_max_series reg"
  "gauge_fn name help producer labels reg = Inr reg' \<Longrightarrow> mr_prefix reg' = mr_prefix reg \<and> mr_max_series reg' = mr_max_series reg"
  by (auto elim: counter_cases gauge_cases gauge_fn_cases)

lemma registry_step_prefix:
  "registry_step reg reg' \<Longrightarrow> mr_prefix reg' = mr_prefix reg \<and> mr_max_series reg' = mr_max_series reg"
  by (induction rule: registry_step.induct)
    (auto simp: build_info_def library_build_info_def gauge_add_def dest: registration_prefix split: sum.splits)

lemma registry_steps_prefix:
  "registry_step\<^sup>*\<^sup>* reg reg' \<Longrightarrow> mr_prefix reg' = mr_prefix reg \<and> mr_max_series reg' = mr_max_series reg"
  by (induction rule: rtranclp_induct) (auto dest: registry_step_prefix)

text \<open>A stored counter's sample never changes and never goes.\<close>

lemma registry_step_keeps_counter:
  assumes "registry_step reg reg'" "s \<in> set (mr_samples reg)" "sm_counter s = Some c" "registry_ok reg"
  shows "s \<in> set (mr_samples reg')"
proof -
  have k: "sm_kind s = Kind_Counter" using source_kind [OF registry_okD(2) [OF assms(4,2)]] assms(3) by simp
  show ?thesis using assms(1)
  proof cases
    case (step_gauge_fn n h p ls)
    then show ?thesis using assms(2) k by (cases rule: gauge_fn_cases) auto
  qed (insert assms(2), auto simp: build_info_def library_build_info_def gauge_add_def elim!: counter_cases gauge_cases split: sum.splits)
qed

lemma registry_steps_keep_counter:
  "registry_step\<^sup>*\<^sup>* reg reg' \<Longrightarrow> s \<in> set (mr_samples reg) \<Longrightarrow> sm_counter s = Some c \<Longrightarrow> registry_ok reg \<Longrightarrow>
     s \<in> set (mr_samples reg')"
  by (induction rule: rtranclp_induct) (blast intro: registry_step_keeps_counter registry_steps_ok)+

lemma series_eq:
  assumes "registry_ok reg" "s \<in> set (mr_samples reg)" "t \<in> set (mr_samples reg)" "series_id s = series_id t"
  shows "s = t"
  using assms by (auto simp: registry_ok_def distinct_map dest: inj_onD)

lemma counter_eq:
  assumes "registry_ok reg" "s \<in> set (mr_samples reg)" "t \<in> set (mr_samples reg)" "sm_counter s = Some c" "sm_counter t = Some c"
  shows "s = t"
  using assms map_filter_distinct_eq [of sm_counter "mr_samples reg"] by (simp add: registry_ok_def)

lemma counter_in_storage:
  assumes "registry_ok reg" "s \<in> set (mr_samples reg)" "sm_counter s = Some c" shows "c < length (mr_counter_storage reg)"
  using assms set_map_filter_iff [of c sm_counter "mr_samples reg"] by (auto simp: registry_ok_def)

lemma counter_registers:
  assumes "registry_ok reg" "counter name help labels reg = Inr (c, reg')"
  obtains s where "s \<in> set (mr_samples reg')" "sm_counter s = Some c" "series_id s = (counter_name (mr_prefix reg) name, sort labels)"
  using assms(2)
proof (cases rule: counter_cases)
  case (found s)
  then show thesis by (intro that) simp_all
next
  case created
  then show thesis by (intro that [of "last (mr_samples reg')"]) (simp_all add: series_id_def)
qed

lemma counter_again:
  assumes "registry_ok reg" "s \<in> set (mr_samples reg)" "sm_counter s = Some c"
    and "series_id s = (counter_name (mr_prefix reg) name, sort labels)"
  shows "counter name help labels reg = Inr (c, reg)"
proof -
  let ?n = "counter_name (mr_prefix reg) name"
  have sn: "sm_name s = ?n" "sm_labels s = sort labels" using assms(4) by (simp_all add: series_id_def)
  have k: "sm_kind s = Kind_Counter" using source_kind [OF registry_okD(2) [OF assms(1,2)]] assms(3) by simp
  have "series_ok ?n (sort labels)" "\<forall>t \<in> set (mr_samples reg). sm_name t = ?n \<longrightarrow> sm_kind t = Kind_Counter"
    using registry_okD(1) [OF assms(1,2)] one_kindD [OF registry_okD(3) [OF assms(1)] _ assms(2)] sn k by auto
  then have chk: "check_series ?n labels Kind_Counter reg = Inr (sort labels)" by (simp add: check_series_Inr)
  obtain t where t: "find (is_series ?n (sort labels)) (mr_samples reg) = Some t"
    using assms(2) sn by (metis find_None_iff is_series_def option.exhaust)
  then have "t = s" using find_series_Some [OF t] series_eq [OF assms(1)] assms(2,4) by metis
  then show ?thesis using chk t assms(3) by (simp add: counter_def Let_def)
qed

text \<open>C36: the registry's contents are well typed in every run: names and label names are Prometheus
  identifiers, labels are sorted without a name twice, one name has one kind, counters end in
  \<open>_total\<close>, no series is stored twice, the configured number of series is never exceeded, and the
  counters and gauges handed out are exactly the cells of the storage, one per sample.\<close>

theorem registry_well_typed:
  assumes "registry_run metric_prefix max_series reg"
  shows "length (mr_samples reg) \<le> max_series \<and>
    (\<forall>s \<in> set (mr_samples reg). is_valid_identifier (sm_name s) \<and> sorted (sm_labels s) \<and>
       distinct (map fst (sm_labels s)) \<and> (\<forall>label \<in> set (sm_labels s). is_valid_identifier (fst label)) \<and>
       (sm_kind s = Kind_Counter \<longleftrightarrow> sm_counter s \<noteq> None) \<and>
       (sm_kind s = Kind_Counter \<longrightarrow> ends_with (sm_name s) kCounterSuffix)) \<and>
    distinct (map (\<lambda>s. (sm_name s, sm_labels s)) (mr_samples reg)) \<and>
    (\<forall>s \<in> set (mr_samples reg). \<forall>t \<in> set (mr_samples reg). sm_name s = sm_name t \<longrightarrow> sm_kind s = sm_kind t) \<and>
    List.map_filter sm_counter (mr_samples reg) = [0..<length (mr_counter_storage reg)] \<and>
    List.map_filter sm_gauge (mr_samples reg) = [0..<length (mr_gauge_storage reg)]"
proof -
  have "mr_max_series reg = max_series"
    using assms new_registry_ok(3) registry_steps_prefix by (auto simp: registry_run_def)
  moreover have "(\<lambda>s. (sm_name s, sm_labels s)) = series_id" by (rule ext) (simp add: series_id_def)
  moreover have "ends_with (sm_name s) kCounterSuffix" if "source_ok s" "sm_kind s = Kind_Counter" for s
    using that by (simp add: source_ok_def)
  ultimately show ?thesis
    using registry_run_ok [OF assms] source_kind unfolding registry_ok_def series_ok_def one_kind_def [symmetric] by simp
qed

text \<open>A registration is a stable name for one counter. Whatever is registered or counted afterwards,
  registering the series again, with its labels in any order and any help text, yields the same counter
  and changes nothing; a registration of another series never yields that counter.\<close>

theorem counter_reference_stable:
  assumes "registry_run metric_prefix max_series reg" and "counter name help labels reg = Inr (c, reg1)"
    and "registry_step\<^sup>*\<^sup>* reg1 reg2"
  shows "(\<forall>help' labels'. mset labels' = mset labels \<longrightarrow> counter name help' labels' reg2 = Inr (c, reg2)) \<and>
    (\<forall>name' help' labels' c' reg3. counter name' help' labels' reg2 = Inr (c', reg3) \<longrightarrow>
       (c' = c \<longleftrightarrow> counter_name metric_prefix name' = counter_name metric_prefix name \<and> mset labels' = mset labels))"
proof -
  have ok: "registry_ok reg" "registry_ok reg1" "registry_ok reg2"
    using registry_run_ok [OF assms(1)] counter_ok [OF _ assms(2)] registry_steps_ok [OF assms(3)] by blast+
  have p: "mr_prefix reg = metric_prefix" "mr_prefix reg2 = metric_prefix"
    using assms new_registry_ok(2) registry_steps_prefix registration_prefix(1) by (fastforce simp: registry_run_def)+
  have sort_eq: "sort ls = sort ls' \<longleftrightarrow> mset ls = mset ls'" for ls ls' :: labels
    by (metis mset_sort properties_for_sort sorted_sort)
  obtain s where s: "s \<in> set (mr_samples reg1)" "sm_counter s = Some c"
    "series_id s = (counter_name metric_prefix name, sort labels)"
    using counter_registers [OF ok(1) assms(2)] p(1) by metis
  have s2: "s \<in> set (mr_samples reg2)" using registry_steps_keep_counter [OF assms(3) s(1,2) ok(2)] .
  have "c' = c \<longleftrightarrow> counter_name metric_prefix name' = counter_name metric_prefix name \<and> mset labels' = mset labels"
    if r: "counter name' help' labels' reg2 = Inr (c', reg3)" for name' help' labels' c' reg3
  proof -
    have ok3: "registry_ok reg3" by (rule counter_ok [OF ok(3) r])
    have s3: "s \<in> set (mr_samples reg3)" by (rule registry_step_keeps_counter [OF step_counter [OF r] s2 s(2) ok(3)])
    obtain t where t: "t \<in> set (mr_samples reg3)" "sm_counter t = Some c'"
      "series_id t = (counter_name metric_prefix name', sort labels')"
      using counter_registers [OF ok(3) r] p(2) by metis
    have "c' = c \<longleftrightarrow> s = t" using counter_eq [OF ok3 s3 t(1)] s(2) t(2) by auto
    also have "\<dots> \<longleftrightarrow> series_id s = series_id t" using series_eq [OF ok3 s3 t(1)] by auto
    finally show ?thesis using s(3) t(3) sort_eq by auto
  qed
  moreover have "counter name help' labels' reg2 = Inr (c, reg2)" if "mset labels' = mset labels" for help' labels'
    using counter_again [OF ok(3) s2 s(2)] s(3) p(2) sort_eq [of labels labels'] that by metis
  ultimately show ?thesis by blast
qed

section \<open>Reading the exposition\<close>

text \<open>A scraper: what a line of the exposition says.\<close>

datatype exposition_line =
    Help_Line bytes bytes | Type_Line bytes bytes | Series_Line bytes labels bytes | End_Line | Bad_Line

fun help_read :: "bytes \<Rightarrow> bytes" where
  "help_read (c # d # rest) =
     (if c = CHR 0x5C then (if d = CHR ''n'' then CHR 0x0A else d) # help_read rest else c # help_read (d # rest))"
| "help_read s = s"

lemma label_read_shorter: "label_read s = Some (v, rest) \<Longrightarrow> length rest < length s"
proof (induction s arbitrary: v rest rule: label_read.induct)
  case (2 c s)
  then show ?case
    by (fastforce split: if_splits list.splits simp: apfst_def map_prod_def)
qed simp

function read_label_list :: "bytes \<Rightarrow> (labels \<times> bytes) option" where
  "read_label_list s =
     (let name = takeWhile (\<lambda>c. c \<noteq> CHR ''='') s; quoted = drop 2 (dropWhile (\<lambda>c. c \<noteq> CHR ''='') s) in
      case label_read quoted of None \<Rightarrow> None
      | Some (v, rest) \<Rightarrow>
          if rest = [] then None
          else if hd rest = CHR '','' then map_option (apfst (Cons (name, v))) (read_label_list (tl rest))
          else Some ([(name, v)], tl rest))"
  by pat_completeness auto
termination
proof (relation "measure length", goal_cases)
  case (2 s name quoted a v rest)
  then have "label_read quoted = Some (v, rest)" by simp
  then have "length rest < length quoted" by (rule label_read_shorter)
  also have "\<dots> \<le> length s" using 2 length_dropWhile_le [of "\<lambda>c. c \<noteq> CHR ''=''" s] by simp
  finally show ?case by simp
qed simp

declare read_label_list.simps [simp del]

definition read_line :: "bytes \<Rightarrow> exposition_line" where
  "read_line line =
     (if line = [] then End_Line
      else if starts_with line ''# HELP '' then
        let rest = drop 7 line in
        Help_Line (takeWhile (\<lambda>c. c \<noteq> CHR '' '') rest) (help_read (tl (dropWhile (\<lambda>c. c \<noteq> CHR '' '') rest)))
      else if starts_with line ''# TYPE '' then
        let rest = drop 7 line in
        Type_Line (takeWhile (\<lambda>c. c \<noteq> CHR '' '') rest) (tl (dropWhile (\<lambda>c. c \<noteq> CHR '' '') rest))
      else
        let name = takeWhile is_identifier_character line; rest = dropWhile is_identifier_character line in
        if rest = [] then Bad_Line
        else if hd rest = CHR 0x7B then
          (case read_label_list (tl rest) of None \<Rightarrow> Bad_Line | Some (labels, v) \<Rightarrow> Series_Line name labels (tl v))
        else Series_Line name [] (tl rest))"

lemma escape_help_Cons: "escape_help (c # s) = escape_help_char c @ escape_help s"
  by (simp add: escape_help_def)

lemma help_read_plain: "c \<noteq> CHR 0x5C \<Longrightarrow> help_read (c # s) = c # help_read s"
  by (cases s) simp_all

lemma help_read_escape: "help_read (escape_help s) = s"
proof (induction s)
  case (Cons c s)
  consider "c = CHR 0x5C" | "c = CHR 0x0A" | "c \<noteq> CHR 0x5C" "c \<noteq> CHR 0x0A" by blast
  then show ?case
    using Cons by cases (simp_all add: escape_help_Cons escape_help_char_def help_read_plain)
qed (simp add: escape_help_def)

lemma escape_help_no_newline: "CHR 0x0A \<notin> set (escape_help s)"
  by (auto simp: escape_help_def escape_help_char_def)

lemma identifier_chars:
  assumes "is_valid_identifier name"
  shows "name \<noteq> []" "\<forall>c \<in> set name. is_identifier_character c" "CHR 0x0A \<notin> set name" "CHR '' '' \<notin> set name"
    "CHR ''='' \<notin> set name" "hd name \<noteq> CHR ''#''"
proof -
  show "name \<noteq> []" and c: "\<forall>c \<in> set name. is_identifier_character c"
    using assms by (auto simp: is_valid_identifier_def list_all_iff)
  have "\<not> is_identifier_character c" if "c \<in> {CHR 0x0A, CHR '' '', CHR ''='', CHR ''#''}" for c
    using that by (auto simp: is_identifier_character_def is_identifier_start_def less_eq_char_def)
  with c \<open>name \<noteq> []\<close> show "CHR 0x0A \<notin> set name" "CHR '' '' \<notin> set name" "CHR ''='' \<notin> set name" "hd name \<noteq> CHR ''#''"
    by (metis insertCI list.set_sel(1))+
qed

lemma takeWhile_until: "c \<notin> set xs \<Longrightarrow> takeWhile (\<lambda>x. x \<noteq> c) (xs @ c # ys) = xs"
  "c \<notin> set xs \<Longrightarrow> dropWhile (\<lambda>x. x \<noteq> c) (xs @ c # ys) = c # ys"
  by (induction xs) auto

lemma render_labels_loop_False:
  "labels \<noteq> [] \<Longrightarrow> render_labels_loop False labels = CHR '','' # render_labels_loop True labels"
  by (cases labels) simp_all

lemma read_rendered_labels:
  "labels \<noteq> [] \<Longrightarrow> (\<forall>label \<in> set labels. is_valid_identifier (fst label)) \<Longrightarrow>
     read_label_list (render_labels_loop True labels @ CHR 0x7D # rest) = Some (map (apsnd label_repair) labels, rest)"
proof (induction labels)
  case (Cons label labels)
  obtain n v where l: "label = (n, v)" by (cases label)
  let ?tail = "render_labels_loop False labels @ CHR 0x7D # rest"
  let ?s = "n @ CHR ''='' # CHR 0x22 # prometheus_label_escape v @ CHR 0x22 # ?tail"
  have s: "render_labels_loop True (label # labels) @ CHR 0x7D # rest = ?s" by (simp add: l render_label_def)
  have n: "CHR ''='' \<notin> set n" using identifier_chars(5) [of n] Cons.prems(2) l by simp
  have step: "read_label_list ?s =
    (if hd ?tail = CHR '','' then map_option (apfst (Cons (n, label_repair v))) (read_label_list (tl ?tail))
     else Some ([(n, label_repair v)], tl ?tail))"
    by (simp add: read_label_list.simps [of ?s] takeWhile_until [OF n] label_read_escape)
  show ?case
  proof (cases "labels = []")
    case True
    then show ?thesis using step s by (simp add: l)
  next
    case False
    then show ?thesis using step s Cons.IH Cons.prems(2) by (simp add: l render_labels_loop_False)
  qed
qed simp

lemma render_labels_no_newline:
  assumes "\<forall>label \<in> set labels. is_valid_identifier (fst label)" shows "CHR 0x0A \<notin> set (render_labels labels)"
proof -
  have "CHR 0x0A \<notin> set (render_labels_loop b labels)" for b
    using assms identifier_chars(3) prometheus_escape_no_newline
    by (induction b labels rule: render_labels_loop.induct) (auto simp: render_label_def)
  then show ?thesis by (simp add: render_labels_def)
qed

lemma starts_with_hd: "line \<noteq> [] \<Longrightarrow> hd line \<noteq> c \<Longrightarrow> \<not> starts_with line (c # p)"
  by (cases line) (auto simp: starts_with_def)

lemma read_series_line:
  assumes "is_valid_identifier name" "\<forall>label \<in> set labels. is_valid_identifier (fst label)"
  shows "read_line (name @ render_labels labels @ '' '' @ v) = Series_Line name (map (apsnd label_repair) labels) v"
proof -
  note n = identifier_chars [OF assms(1)]
  let ?l = "name @ render_labels labels @ '' '' @ v"
  have h: "\<not> starts_with ?l ''# HELP ''" "\<not> starts_with ?l ''# TYPE ''" 
    using starts_with_hd [of ?l "CHR ''#''"] n(1,6) by simp_all
  have nb: "\<not> is_identifier_character (CHR 0x7B)" "\<not> is_identifier_character (CHR '' '')"
    by (auto simp: is_identifier_character_def is_identifier_start_def less_eq_char_def)
  show ?thesis
  proof (cases "labels = []")
    case True
    then show ?thesis using h n nb by (simp add: read_line_def render_labels_def)
  next
    case False
    have "read_label_list (render_labels_loop True labels @ CHR 0x7D # CHR '' '' # v) = Some (map (apsnd label_repair) labels, CHR '' '' # v)"
      by (rule read_rendered_labels [OF False assms(2)])
    then show ?thesis using h n nb False by (simp add: read_line_def render_labels_def)
  qed
qed

lemma read_metadata_lines:
  assumes "is_valid_identifier name"
  shows "read_line (''# HELP '' @ name @ '' '' @ escape_help h) = Help_Line name h"
    "read_line (''# TYPE '' @ name @ '' '' @ k) = Type_Line name k"
  using takeWhile_until [of "CHR '' ''" name] identifier_chars(4) [OF assms]
  by (simp_all add: read_line_def starts_with_def help_read_escape)

text \<open>The snapshot groups the order by name.\<close>

definition name_at :: "registry \<Rightarrow> nat \<Rightarrow> bytes" where
  "name_at reg i = sm_name (mr_samples reg ! i)"

definition group_snapshot :: "double_ops \<Rightarrow> (nat \<Rightarrow> double) \<Rightarrow> registry \<Rightarrow> nat list \<Rightarrow> metric_snapshot" where
  "group_snapshot ops producers reg g =
     (let s = mr_samples reg ! hd g in
      \<lparr>ms_name = sm_name s, ms_help = sm_help s, ms_kind = sm_kind s,
       ms_series = map (\<lambda>i. \<lparr>ss_labels = sm_labels (mr_samples reg ! i),
         ss_value = sample_value ops producers reg (mr_samples reg ! i)\<rparr>) g\<rparr>)"

definition one_name :: "registry \<Rightarrow> nat list \<Rightarrow> bool" where
  "one_name reg g \<longleftrightarrow> (\<forall>i \<in> set g. name_at reg i = name_at reg (hd g))"

lemma one_name_intros: "one_name reg [i]"
  "one_name reg g \<Longrightarrow> g \<noteq> [] \<Longrightarrow> name_at reg (hd g) = name_at reg i \<Longrightarrow> one_name reg (g @ [i])"
  unfolding one_name_def by simp (metis Un_iff empty_iff empty_set hd_append2 set_ConsD set_append)

definition name_groups :: "registry \<Rightarrow> nat list \<Rightarrow> nat list list \<Rightarrow> bool" where
  "name_groups reg order groups \<longleftrightarrow> concat groups = order \<and>
     (\<forall>g \<in> set groups. g \<noteq> [] \<and> one_name reg g) \<and> sorted_wrt (<) (map (name_at reg \<circ> hd) groups)"

lemma snapshot_step_new:
  assumes "groups = [] \<or> name_at reg (hd (last groups)) \<noteq> name_at reg i"
  shows "snapshot_step ops producers reg i (map (group_snapshot ops producers reg) groups) =
    map (group_snapshot ops producers reg) (groups @ [[i]])"
  using assms by (auto simp: snapshot_step_def group_snapshot_def name_at_def Let_def last_map)

lemma snapshot_step_same:
  assumes "g \<noteq> []" "name_at reg (hd g) = name_at reg i"
  shows "snapshot_step ops producers reg i (map (group_snapshot ops producers reg) (gs @ [g])) =
    map (group_snapshot ops producers reg) (gs @ [g @ [i]])"
  using assms by (simp add: snapshot_step_def group_snapshot_def name_at_def Let_def)

lemma snapshot_groups:
  assumes "sorted (map (name_at reg) order)"
  shows "\<exists>groups. fold (snapshot_step ops producers reg) order [] = map (group_snapshot ops producers reg) groups \<and>
    name_groups reg order groups"
  using assms
proof (induction order rule: rev_induct)
  case Nil
  then show ?case by (intro exI [of _ "[]"]) (simp add: name_groups_def)
next
  case (snoc i order)
  then obtain groups where f: "fold (snapshot_step ops producers reg) order [] = map (group_snapshot ops producers reg) groups"
    and g: "concat groups = order" "\<forall>g \<in> set groups. g \<noteq> [] \<and> one_name reg g"
      "sorted_wrt (<) (map (name_at reg \<circ> hd) groups)"
    by (auto simp: sorted_append name_groups_def)
  have le: "name_at reg (hd h) \<le> name_at reg i" if "h \<in> set groups" for h
  proof -
    have "h \<noteq> []" using that g(2) by blast
    then have "hd h \<in> set order" using that g(1) hd_in_set [of h] by (auto simp del: hd_in_set)
    then show ?thesis using snoc.prems by (simp add: sorted_append)
  qed
  show ?case
  proof (cases "groups = [] \<or> name_at reg (hd (last groups)) \<noteq> name_at reg i")
    case True
    have "name_at reg (hd h) < name_at reg i" if h: "h \<in> set groups" for h
    proof -
      obtain gs l where gl: "groups = gs @ [l]" using h by (cases groups rule: rev_cases) auto
      then have "name_at reg (hd l) < name_at reg i" using True le [of l] by simp
      moreover have "name_at reg (hd h) \<le> name_at reg (hd l)" using h g(3) gl by (auto simp: sorted_wrt_append less_imp_le)
      ultimately show ?thesis by simp
    qed
    then have "name_groups reg (order @ [i]) (groups @ [[i]])" using g
      by (auto simp: name_groups_def sorted_wrt_append one_name_intros)
    then show ?thesis using f snapshot_step_new [OF True] by (intro exI [of _ "groups @ [[i]]"]) simp
  next
    case False
    then obtain gs l where gl: "groups = gs @ [l]" by (cases groups rule: rev_cases) auto
    have l: "l \<noteq> []" "name_at reg (hd l) = name_at reg i" using g(2) gl False by auto
    have "name_groups reg (order @ [i]) (gs @ [l @ [i]])"
      using g gl l by (auto simp: name_groups_def sorted_wrt_append one_name_intros)
    then show ?thesis using f gl snapshot_step_same [OF l] by (intro exI [of _ "gs @ [l @ [i]]"]) simp
  qed
qed

text \<open>The lines of the exposition.\<close>

definition metric_lines :: "metric_snapshot \<Rightarrow> bytes list" where
  "metric_lines metric =
     [''# HELP '' @ ms_name metric @ '' '' @ escape_help (ms_help metric),
      ''# TYPE '' @ ms_name metric @ '' '' @ kind_type_name (ms_kind metric)] @
     map (\<lambda>s. ms_name metric @ render_labels (ss_labels s) @ '' '' @ ss_value s) (ms_series metric)"

lemma metric_text_lines: "metric_text metric = concat (map (\<lambda>line. line @ [CHR 0x0A]) (metric_lines metric))"
  by (simp add: metric_text_def metric_lines_def series_text_def [abs_def] comp_def)

lemma split_lines:
  "(\<forall>line \<in> set ls. c \<notin> set line) \<Longrightarrow> split_on c (concat (map (\<lambda>line. line @ [c]) ls)) = ls @ [[]]"
  by (induction ls) (simp_all add: split_on_append)

lemma prometheus_lines:
  assumes "\<forall>metric \<in> set (snapshot ops producers order reg). \<forall>line \<in> set (metric_lines metric). CHR 0x0A \<notin> set line"
  shows "split_on (CHR 0x0A) (prometheus ops producers order reg) =
    concat (map metric_lines (snapshot ops producers order reg)) @ [[]]"
proof -
  have "concat (map metric_text ms) = concat (map (\<lambda>line. line @ [CHR 0x0A]) (concat (map metric_lines ms)))" for ms
    by (induction ms) (simp_all add: metric_text_lines)
  then show ?thesis unfolding prometheus_def
    using split_lines [of "concat (map metric_lines (snapshot ops producers order reg))" "CHR 0x0A"] assms by auto
qed

text \<open>What a scraper is told of one metric: a series with a counter cell is of type counter and shows the
  cell in decimal; any other is a gauge and shows its cell, or what its producer gives, or zero without one.\<close>

definition number_text :: "double_ops \<Rightarrow> double \<Rightarrow> bytes" where
  "number_text ops v = (if double_isnan v then ''NaN'' else if \<not> double_isinf v then double_format ops v
     else if bit v 63 then ''-Inf'' else ''+Inf'')"

definition shown_value :: "double_ops \<Rightarrow> (nat \<Rightarrow> double) \<Rightarrow> registry \<Rightarrow> sample \<Rightarrow> bytes" where
  "shown_value ops producers reg s =
     (case sm_counter s of Some c \<Rightarrow> nat_to_dec (unat (mr_counter_storage reg ! c))
      | None \<Rightarrow> number_text ops (case sm_gauge s of Some g \<Rightarrow> mr_gauge_storage reg ! g 
        | None \<Rightarrow> (case sm_producer s of Some p \<Rightarrow> producers p | None \<Rightarrow> 0)))"

definition group_lines :: "double_ops \<Rightarrow> (nat \<Rightarrow> double) \<Rightarrow> registry \<Rightarrow> nat list \<Rightarrow> exposition_line list" where
  "group_lines ops producers reg g =
     (let s = mr_samples reg ! hd g in
      Help_Line (sm_name s) (sm_help s) #
      Type_Line (sm_name s) (if sm_counter s = None then ''gauge'' else ''counter'') #
      map (\<lambda>i. let t = mr_samples reg ! i in
        Series_Line (sm_name s) (map (apsnd label_repair) (sm_labels t)) (shown_value ops producers reg t)) g)"

lemma format_gauge_value_text: "format_gauge_value ops v = number_text ops v"
proof -
  have "v \<noteq> 0" if "double_isinf v" using that by (auto simp: double_isinf_def kExponentMask_def)
  moreover have "\<not> double_isnan v" if "double_isinf v" using that by (simp add: double_isinf_def double_isnan_def)
  ultimately show ?thesis
    by (auto simp: format_gauge_value_def number_text_def double_positive_def kNotANumberText_def
        kPositiveInfinityText_def kNegativeInfinityText_def)
qed

lemma sample_shown:
  assumes "source_ok s"
  shows "sample_value ops producers reg s = shown_value ops producers reg s"
    "kind_type_name (sm_kind s) = (if sm_counter s = None then ''gauge'' else ''counter'')"
proof -
  show "kind_type_name (sm_kind s) = (if sm_counter s = None then ''gauge'' else ''counter'')"
    using source_kind [OF assms] by (auto simp: kind_type_name_def kCounterTypeName_def kGaugeTypeName_def)
  show "sample_value ops producers reg s = shown_value ops producers reg s"
    by (auto simp: sample_value_def shown_value_def counter_value_def gauge_value_def format_gauge_value_text
        double_zero_def split: option.split)
qed

lemma sample_value_no_newline:
  assumes "\<forall>v. CHR 0x0A \<notin> set (double_format ops v)" shows "CHR 0x0A \<notin> set (sample_value ops producers reg s)"
proof -
  have "CHR 0x0A \<notin> set (format_gauge_value ops v)" for v
    using assms by (simp add: format_gauge_value_def kNotANumberText_def kPositiveInfinityText_def kNegativeInfinityText_def)
  moreover have "CHR 0x0A \<notin> set (nat_to_dec n)" for n
    using nat_to_dec_digits [of n] by (force simp: is_decimal_digit_def byte_def)
  ultimately show ?thesis by (simp add: sample_value_def split: option.split)
qed

lemma read_metric_lines:
  assumes "\<forall>i \<in> set g. series_ok (sm_name (mr_samples reg ! i)) (sm_labels (mr_samples reg ! i))" "g \<noteq> []"
    and "\<forall>v. CHR 0x0A \<notin> set (double_format ops v)" "\<forall>i \<in> set g. source_ok (mr_samples reg ! i)"
  shows "map read_line (metric_lines (group_snapshot ops producers reg g)) = group_lines ops producers reg g"
    "\<forall>line \<in> set (metric_lines (group_snapshot ops producers reg g)). CHR 0x0A \<notin> set line"
proof -
  have h: "is_valid_identifier (sm_name (mr_samples reg ! hd g))" using assms(1,2) by (simp add: series_ok_def)
  have l: "\<forall>label \<in> set (sm_labels (mr_samples reg ! i)). is_valid_identifier (fst label)" if "i \<in> set g" for i
    using that assms(1) by (simp add: series_ok_def)
  show "map read_line (metric_lines (group_snapshot ops producers reg g)) = group_lines ops producers reg g"
    using read_metadata_lines [OF h] read_series_line [OF h l] sample_shown assms(2,4)
    by (simp add: metric_lines_def group_snapshot_def group_lines_def Let_def)
  show "\<forall>line \<in> set (metric_lines (group_snapshot ops producers reg g)). CHR 0x0A \<notin> set line"
    using identifier_chars(3) [OF h] render_labels_no_newline [OF l] sample_value_no_newline [OF assms(3)]
    by (auto simp: metric_lines_def group_snapshot_def Let_def escape_help_no_newline kind_type_name_def
        kCounterTypeName_def kGaugeTypeName_def)
qed

text \<open>C37: the exposition reads back. Whatever help texts and label values the application chose, a scraper
  that reads the text line by line finds the metrics in strictly ascending order of their names, each
  with one HELP line with its help text, one TYPE line, counter for a counter and gauge for a gauge, and
  then one line for each registered series of that name, with its labels, in which a malformed UTF-8
  sequence or a control byte is replaced, and its value: the count in decimal, or the number, NaN or an infinity.
  (Because of the replacement, two series whose labels differ only there read the same.)\<close>

theorem exposition_reads_back:
  assumes "registry_run metric_prefix max_series reg" and "is_snapshot_order reg order"
    and "\<forall>v. CHR 0x0A \<notin> set (double_format ops v)"
  shows "\<exists>groups. concat groups = order \<and> sort (concat groups) = [0..<length (mr_samples reg)] \<and>
    (\<forall>g \<in> set groups. g \<noteq> [] \<and> (\<forall>i \<in> set g. sm_name (mr_samples reg ! i) = sm_name (mr_samples reg ! hd g) \<and>
       sm_kind (mr_samples reg ! i) = sm_kind (mr_samples reg ! hd g))) \<and>
    sorted_wrt (<) (map (\<lambda>g. sm_name (mr_samples reg ! hd g)) groups) \<and>
    map read_line (split_on (CHR 0x0A) (prometheus ops producers order reg)) =
      concat (map (group_lines ops producers reg) groups) @ [End_Line]"
proof -
  note ok = registry_run_ok [OF assms(1)]
  have mem: "i \<in> set order \<longleftrightarrow> i < length (mr_samples reg)" for i
    using assms(2) by (metis atLeastLessThan_iff is_snapshot_order_def set_sort set_upt zero_le)
  have "sorted (map (name_at reg) order)"
    using assms(2) unfolding is_snapshot_order_def sorted_map
    by (auto simp: sample_key_def name_at_def less_eq_prod_def Let_def elim!: sorted_wrt_mono_rel [rotated])
  then obtain groups where sn: "snapshot ops producers order reg = map (group_snapshot ops producers reg) groups"
    and g: "name_groups reg order groups"
    using snapshot_groups by (metis snapshot_def)
  have sub: "i < length (mr_samples reg)" if "h \<in> set groups" "i \<in> set h" for h i
    using that g unfolding name_groups_def mem [symmetric] by auto
  have ne: "h \<noteq> []" if "h \<in> set groups" for h using that g by (simp add: name_groups_def)
  have s_ok: "\<forall>i \<in> set h. series_ok (sm_name (mr_samples reg ! i)) (sm_labels (mr_samples reg ! i))" if "h \<in> set groups" for h
    using registry_okD(1) [OF ok] sub [OF that] by simp
  have sources: "\<forall>i \<in> set h. source_ok (mr_samples reg ! i)" if "h \<in> set groups" for h
    using registry_okD(2) [OF ok] sub [OF that] by simp
  have kinds: "sm_kind (mr_samples reg ! i) = sm_kind (mr_samples reg ! hd h)" if "h \<in> set groups" "i \<in> set h" for h i
  proof -
    have "name_at reg i = name_at reg (hd h)" using that g unfolding name_groups_def one_name_def by blast
    then show ?thesis
      using one_kindD [OF registry_okD(3) [OF ok]] sub [OF that] sub [OF that(1) hd_in_set [OF ne [OF that(1)]]]
      by (simp add: name_at_def)
  qed
  have "map read_line (split_on (CHR 0x0A) (prometheus ops producers order reg)) =
      concat (map (group_lines ops producers reg) groups) @ [End_Line]"
    using prometheus_lines [of ops producers order reg] read_metric_lines [OF s_ok ne assms(3) sources]
    by (simp add: sn map_concat read_line_def [of "[]"] cong: map_cong)
  moreover have "concat groups = order" "sort order = [0..<length (mr_samples reg)]"
    "sorted_wrt (<) (map (\<lambda>g. sm_name (mr_samples reg ! hd g)) groups)"
    using g assms(2) by (simp_all add: name_groups_def name_at_def comp_def is_snapshot_order_def)
  moreover have "\<forall>g \<in> set groups. \<forall>i \<in> set g. sm_name (mr_samples reg ! i) = sm_name (mr_samples reg ! hd g)"
    using g unfolding name_groups_def one_name_def name_at_def by blast
  ultimately show ?thesis using kinds ne by blast
qed

section \<open>Examples\<close>

definition sample_registry0 :: registry where
  "sample_registry0 = \<lparr>mr_prefix = ''app'', mr_max_series = 4, mr_counter_storage = [], mr_gauge_storage = [], mr_samples = []\<rparr>"

definition sample_registry :: registry where
  "sample_registry = \<lparr>mr_prefix = ''app'', mr_max_series = 4, mr_counter_storage = [0], mr_gauge_storage = [],
     mr_samples = [\<lparr>sm_name = ''app_hits_total'', sm_help = ''Hits'', sm_labels = [(''a'', ''1''), (''b'', ''2'')],
       sm_kind = Kind_Counter, sm_counter = Some 0, sm_gauge = None, sm_producer = None\<rparr>]\<rparr>"

definition sample_double_ops :: double_ops where
  "sample_double_ops = \<lparr>double_add = (+), double_of_int = of_int, double_format = (\<lambda>v. ''0'')\<rparr>"

lemma sample_registered: "counter ''hits'' ''Hits'' [(''b'', ''2''), (''a'', ''1'')] sample_registry0 = Inr (0, sample_registry)"
  by code_simp

lemma sample_run0: "registry_run ''app'' 4 sample_registry0"
proof -
  have "new_registry ''app'' 4 = Inr sample_registry0" by code_simp
  then show ?thesis by (auto simp: registry_run_def)
qed

lemma sample_registry_run: "registry_run ''app'' 4 sample_registry"
  using sample_run0 step_counter [OF sample_registered] by (meson registry_run_def rtranclp.rtrancl_into_rtrancl)

theorem registry_well_typed_witness:
  "length (mr_samples sample_registry) \<le> 4 \<and> distinct (map (\<lambda>s. (sm_name s, sm_labels s)) (mr_samples sample_registry)) \<and>
     List.map_filter sm_counter (mr_samples sample_registry) = [0..<length (mr_counter_storage sample_registry)]"
  using registry_well_typed [OF sample_registry_run] by blast

theorem counter_reference_stable_witness:
  "counter ''hits'' [] [(''a'', ''1''), (''b'', ''2'')] sample_registry = Inr (0, sample_registry)"
  using counter_reference_stable [OF sample_run0 sample_registered, of sample_registry] by simp

theorem exposition_reads_back_witness:
  "map read_line (split_on (CHR 0x0A) (prometheus sample_double_ops (\<lambda>_. 0) [0] sample_registry)) =
     [Help_Line ''app_hits_total'' ''Hits'', Type_Line ''app_hits_total'' ''counter'',
      Series_Line ''app_hits_total'' [(''a'', ''1''), (''b'', ''2'')] ''0'', End_Line]"
proof -
  have "is_snapshot_order sample_registry [0]" by (simp add: is_snapshot_order_def sample_registry_def)
  then obtain groups where g: "concat groups = [0]" "\<forall>g \<in> set groups. g \<noteq> []"
    "map read_line (split_on (CHR 0x0A) (prometheus sample_double_ops (\<lambda>_. 0) [0] sample_registry)) =
      concat (map (group_lines sample_double_ops (\<lambda>_. 0) sample_registry) groups) @ [End_Line]"
    using exposition_reads_back [OF sample_registry_run, of "[0]" sample_double_ops "\<lambda>_. 0"] by (auto simp: sample_double_ops_def)
  have "groups = [[0]]"
    using g(1,2) by (cases groups) (auto simp: append_eq_Cons_conv concat_eq_Nil_conv neq_Nil_conv)
  moreover have "group_lines sample_double_ops (\<lambda>_. 0) sample_registry [0] =
     [Help_Line ''app_hits_total'' ''Hits'', Type_Line ''app_hits_total'' ''counter'',
      Series_Line ''app_hits_total'' [(''a'', ''1''), (''b'', ''2'')] ''0'']" by code_simp
  ultimately show ?thesis using g(3) by simp
qed

text \<open>Two series that differ only in bytes that are not text are registered as two counters and exposed
  under one name with the same labels: a scraper sees the series twice.\<close>

theorem invalid_label_values_collide:
  "\<exists>reg1 reg2. counter ''x'' [] [(''l'', [CHR 0xFF])] sample_registry0 = Inr (0, reg1) \<and>
     counter ''x'' [] [(''l'', [CHR 0xFE])] reg1 = Inr (1, reg2) \<and>
     map sm_name (mr_samples reg2) = [''app_x_total'', ''app_x_total''] \<and>
     render_labels (sm_labels (mr_samples reg2 ! 0)) = render_labels (sm_labels (mr_samples reg2 ! 1))"
proof -
  let ?s = "\<lambda>v n. \<lparr>sm_name = ''app_x_total'', sm_help = [], sm_labels = [(''l'', [v])],
       sm_kind = Kind_Counter, sm_counter = Some n, sm_gauge = None, sm_producer = None\<rparr>"
  let ?r1 = "sample_registry0\<lparr>mr_counter_storage := [0], mr_samples := [?s (CHR 0xFF) 0]\<rparr>"
  let ?r2 = "sample_registry0\<lparr>mr_counter_storage := [0, 0], mr_samples := [?s (CHR 0xFF) 0, ?s (CHR 0xFE) 1]\<rparr>"
  have "counter ''x'' [] [(''l'', [CHR 0xFF])] sample_registry0 = Inr (0, ?r1)" by code_simp
  moreover have "counter ''x'' [] [(''l'', [CHR 0xFE])] ?r1 = Inr (1, ?r2)" by code_simp
  moreover have "render_labels [(''l'', [CHR 0xFF])] = render_labels [(''l'', [CHR 0xFE])]" by code_simp
  ultimately show ?thesis by (intro exI [of _ ?r1] exI [of _ ?r2]) simp
qed

end
