(* ===== verification/Http_Server_Metrics.thy ===== *)
theory Http_Server_Metrics
  imports Http_Metrics
begin

text \<open>
  \<open>server_metrics.cpp\<close>: the sixteen series of the server. The constructor registers them in the order of
  \<open>server_series\<close>; the members of \<open>server_metrics\<close> are the references it keeps.
\<close>

section \<open>The series\<close>

definition requests_help :: bytes where "requests_help = ''HTTP responses served, by status class''"
definition rejected_help :: bytes where "rejected_help = ''Connections closed before a response, by reason''"

definition server_series :: "(metric_kind \<times> bytes \<times> bytes \<times> labels) list" where
  "server_series =
     [(Kind_Counter, ''requests'', requests_help, [(''status'', ''2xx'')]),
      (Kind_Counter, ''requests'', requests_help, [(''status'', ''3xx'')]),
      (Kind_Counter, ''requests'', requests_help, [(''status'', ''4xx'')]),
      (Kind_Counter, ''requests'', requests_help, [(''status'', ''5xx'')]),
      (Kind_Counter, ''connections_accepted'', ''Connections accepted by the server'', []),
      (Kind_Gauge, ''connections_active'', ''Connections currently held open'', []),
      (Kind_Counter, ''connections_rejected'', rejected_help, [(''reason'', ''limit'')]),
      (Kind_Counter, ''connections_rejected'', rejected_help, [(''reason'', ''source_limit'')]),
      (Kind_Counter, ''connections_rejected'', rejected_help, [(''reason'', ''cidr'')]),
      (Kind_Counter, ''connections_rejected'', rejected_help, [(''reason'', ''parse'')]),
      (Kind_Counter, ''connections_rejected'', rejected_help, [(''reason'', ''tls'')]),
      (Kind_Counter, ''bytes_sent'', ''Response bytes written to sockets'', []),
      (Kind_Gauge, ''request_duration_seconds_sum'', ''Cumulative request service time'', []),
      (Kind_Counter, ''request_duration_seconds_count'', ''Requests contributing to the sum'', []),
      (Kind_Counter, ''tls_handshakes'', ''TLS handshakes completed'', []),
      (Kind_Counter, ''tls_handshake_failures'', ''TLS handshakes that failed or timed out'', [])]"

fun register_all ::
  "(metric_kind \<times> bytes \<times> bytes \<times> labels) list \<Rightarrow> registry \<Rightarrow> (metrics_error, nat list \<times> registry) expected" where
  "register_all [] reg = Inr ([], reg)"
| "register_all ((kind, name, help, labels) # series) reg =
     (case (if kind = Kind_Counter then counter name help labels reg else gauge name help labels reg) of Inl e \<Rightarrow> Inl e
      | Inr (reference, reg) \<Rightarrow>
          (case register_all series reg of Inl e \<Rightarrow> Inl e | Inr (references, reg) \<Rightarrow> Inr (reference # references, reg)))"

record server_metrics =
  requests_2xx :: nat
  requests_3xx :: nat
  requests_4xx :: nat
  requests_5xx :: nat
  connections_accepted :: nat
  connections_active :: nat
  rejected_limit :: nat
  rejected_source_limit :: nat
  rejected_cidr :: nat
  rejected_parse :: nat
  rejected_tls :: nat
  bytes_sent :: nat
  request_duration_seconds_sum :: nat
  request_duration_count :: nat
  tls_handshakes :: nat
  tls_handshake_failures :: nat

definition new_server_metrics :: "registry \<Rightarrow> (metrics_error, server_metrics \<times> registry) expected" where
  "new_server_metrics reg =
     (case register_all server_series reg of Inl e \<Rightarrow> Inl e
      | Inr (r, reg) \<Rightarrow>
          Inr (\<lparr>requests_2xx = r ! 0, requests_3xx = r ! 1, requests_4xx = r ! 2, requests_5xx = r ! 3,
                connections_accepted = r ! 4, connections_active = r ! 5, rejected_limit = r ! 6,
                rejected_source_limit = r ! 7, rejected_cidr = r ! 8, rejected_parse = r ! 9, rejected_tls = r ! 10,
                bytes_sent = r ! 11, request_duration_seconds_sum = r ! 12, request_duration_count = r ! 13,
                tls_handshakes = r ! 14, tls_handshake_failures = r ! 15\<rparr>, reg))"

section \<open>Counting\<close>

datatype connection_rejection = Rejection_Limit | Rejection_SourceLimit | Rejection_Cidr | Rejection_Parse | Rejection_Tls

definition response_bucket :: "server_metrics \<Rightarrow> status \<Rightarrow> nat" where
  "response_bucket m status =
     (let bucket = status_class status in
      if bucket = ''2xx'' then requests_2xx m
      else if bucket = ''3xx'' then requests_3xx m
      else if bucket = ''4xx'' then requests_4xx m
      else requests_5xx m)"

definition connection_accepted :: "server_metrics \<Rightarrow> registry \<Rightarrow> registry" where
  "connection_accepted m = counter_increment (connections_accepted m) 1"

definition connections_active_changed :: "double_ops \<Rightarrow> server_metrics \<Rightarrow> int \<Rightarrow> registry \<Rightarrow> registry" where
  "connections_active_changed ops m delta = gauge_add ops (connections_active m) (double_of_int ops delta)"

definition connection_rejected :: "server_metrics \<Rightarrow> connection_rejection \<Rightarrow> registry \<Rightarrow> registry" where
  "connection_rejected m reason =
     (case reason of
        Rejection_Limit \<Rightarrow> counter_increment (rejected_limit m) 1
      | Rejection_SourceLimit \<Rightarrow> counter_increment (rejected_source_limit m) 1
      | Rejection_Cidr \<Rightarrow> counter_increment (rejected_cidr m) 1
      | Rejection_Parse \<Rightarrow> counter_increment (rejected_parse m) 1
      | Rejection_Tls \<Rightarrow> counter_increment (rejected_tls m) 1)"

definition bytes_written :: "server_metrics \<Rightarrow> nat \<Rightarrow> registry \<Rightarrow> registry" where
  "bytes_written m bytes = counter_increment (bytes_sent m) (of_nat bytes)"

definition tls_handshake_completed :: "server_metrics \<Rightarrow> registry \<Rightarrow> registry" where
  "tls_handshake_completed m = counter_increment (tls_handshakes m) 1"

definition tls_handshake_failed :: "server_metrics \<Rightarrow> registry \<Rightarrow> registry" where
  "tls_handshake_failed m = counter_increment (tls_handshake_failures m) 1"

definition response_completed :: "double_ops \<Rightarrow> server_metrics \<Rightarrow> status \<Rightarrow> double option \<Rightarrow> registry \<Rightarrow> registry" where
  "response_completed ops m status service_time reg =
     (let reg = counter_increment (response_bucket m status) 1 reg;
          reg = counter_increment (request_duration_count m) 1 reg
      in case service_time of None \<Rightarrow> reg | Some seconds \<Rightarrow> gauge_add ops (request_duration_seconds_sum m) seconds reg)"

text \<open>The calls the reactors and connections make, from any thread and in any order.\<close>

datatype metrics_call =
    Connection_Accepted | Connections_Active_Changed int | Connection_Rejected connection_rejection | Bytes_Written nat
  | Tls_Handshake_Completed | Tls_Handshake_Failed | Response_Completed status "double option"

fun metrics_apply :: "double_ops \<Rightarrow> server_metrics \<Rightarrow> metrics_call \<Rightarrow> registry \<Rightarrow> registry" where
  "metrics_apply ops m Connection_Accepted = connection_accepted m"
| "metrics_apply ops m (Connections_Active_Changed delta) = connections_active_changed ops m delta"
| "metrics_apply ops m (Connection_Rejected reason) = connection_rejected m reason"
| "metrics_apply ops m (Bytes_Written bytes) = bytes_written m bytes"
| "metrics_apply ops m Tls_Handshake_Completed = tls_handshake_completed m"
| "metrics_apply ops m Tls_Handshake_Failed = tls_handshake_failed m"
| "metrics_apply ops m (Response_Completed status service_time) = response_completed ops m status service_time"

section \<open>Registration succeeds\<close>

definition full_name :: "bytes \<Rightarrow> metric_kind \<Rightarrow> bytes \<Rightarrow> bytes" where
  "full_name prefix kind name = (if kind = Kind_Counter then counter_name prefix name else qualified_name prefix name)"

definition id_of :: "bytes \<Rightarrow> metric_kind \<times> bytes \<times> bytes \<times> labels \<Rightarrow> bytes \<times> labels" where
  "id_of prefix = (\<lambda>(kind, name, help, labels). (full_name prefix kind name, sort labels))"

text \<open>The references handed out when all series are new.\<close>

fun new_references :: "(metric_kind \<times> 'a) list \<Rightarrow> nat \<Rightarrow> nat \<Rightarrow> nat list" where
  "new_references [] counters gauges = []"
| "new_references ((kind, _) # series) counters gauges =
     (if kind = Kind_Counter then counters # new_references series (counters + 1) gauges
      else gauges # new_references series counters (gauges + 1))"

lemma counter_fresh:
  assumes "(counter_name (mr_prefix reg) name, sort labels) \<notin> set (map series_id (mr_samples reg))"
    and "series_ok (counter_name (mr_prefix reg) name) (sort labels)" "length (mr_samples reg) < mr_max_series reg"
    and "\<forall>s \<in> set (mr_samples reg). sm_name s = counter_name (mr_prefix reg) name \<longrightarrow> sm_kind s = Kind_Counter"
  shows "\<exists>reg' s. counter name help labels reg = Inr (length (mr_counter_storage reg), reg') \<and>
    mr_samples reg' = mr_samples reg @ [s] \<and> mr_prefix reg' = mr_prefix reg \<and> mr_max_series reg' = mr_max_series reg \<and>
    sm_name s = counter_name (mr_prefix reg) name \<and> sm_labels s = sort labels \<and> sm_kind s = Kind_Counter \<and>
    mr_counter_storage reg' = mr_counter_storage reg @ [0] \<and> mr_gauge_storage reg' = mr_gauge_storage reg"
proof -
  have "check_series (counter_name (mr_prefix reg) name) labels Kind_Counter reg = Inr (sort labels)"
    using assms(2,4) by (simp add: check_series_Inr)
  moreover have "find (is_series (counter_name (mr_prefix reg) name) (sort labels)) (mr_samples reg) = None"
    using assms(1) find_series_None by metis
  ultimately show ?thesis using assms(3) by (simp add: counter_def require_room_for_series_def Let_def)
qed

lemma gauge_fresh:
  assumes "(qualified_name (mr_prefix reg) name, sort labels) \<notin> set (map series_id (mr_samples reg))"
    and "series_ok (qualified_name (mr_prefix reg) name) (sort labels)" "length (mr_samples reg) < mr_max_series reg"
    and "\<forall>s \<in> set (mr_samples reg). sm_name s = qualified_name (mr_prefix reg) name \<longrightarrow> sm_kind s = Kind_Gauge"
  shows "\<exists>reg' s. gauge name help labels reg = Inr (length (mr_gauge_storage reg), reg') \<and>
    mr_samples reg' = mr_samples reg @ [s] \<and> mr_prefix reg' = mr_prefix reg \<and> mr_max_series reg' = mr_max_series reg \<and>
    sm_name s = qualified_name (mr_prefix reg) name \<and> sm_labels s = sort labels \<and> sm_kind s = Kind_Gauge \<and>
    mr_counter_storage reg' = mr_counter_storage reg \<and> mr_gauge_storage reg' = mr_gauge_storage reg @ [double_zero]"
proof -
  have "check_series (qualified_name (mr_prefix reg) name) labels Kind_Gauge reg = Inr (sort labels)"
    using assms(2,4) by (simp add: check_series_Inr)
  moreover have "find (is_series (qualified_name (mr_prefix reg) name) (sort labels)) (mr_samples reg) = None"
    using assms(1) find_series_None by metis
  ultimately show ?thesis using assms(3) by (simp add: gauge_def require_room_for_series_def Let_def)
qed

text \<open>The conditions under which a list of new series registers.\<close>

definition consistent_kinds :: "(bytes \<times> metric_kind) list \<Rightarrow> bool" where
  "consistent_kinds named \<longleftrightarrow> (\<forall>(n, k) \<in> set named. \<forall>(n', k') \<in> set named. n = n' \<longrightarrow> k = k')"

definition registrable :: "(metric_kind \<times> bytes \<times> bytes \<times> labels) list \<Rightarrow> registry \<Rightarrow> bool" where
  "registrable series reg \<longleftrightarrow>
     length (mr_samples reg) + length series \<le> mr_max_series reg \<and>
     distinct (map series_id (mr_samples reg) @ map (id_of (mr_prefix reg)) series) \<and>
     (\<forall>(kind, name, help, labels) \<in> set series. series_ok (full_name (mr_prefix reg) kind name) (sort labels)) \<and>
     consistent_kinds (map (\<lambda>s. (sm_name s, sm_kind s)) (mr_samples reg) @
       map (\<lambda>(kind, name, _). (full_name (mr_prefix reg) kind name, kind)) series)"

lemma registrable_append:
  assumes "registrable ((kind, name, h, labels) # series) reg"
    and "mr_samples reg' = mr_samples reg @ [s]" "mr_prefix reg' = mr_prefix reg" "mr_max_series reg' = mr_max_series reg"
    and "sm_name s = full_name (mr_prefix reg) kind name" "sm_labels s = sort labels" "sm_kind s = kind"
  shows "registrable series reg'"
proof -
  have "series_id s = id_of (mr_prefix reg) (kind, name, h, labels)" using assms(5,6) by (simp add: series_id_def id_of_def)
  then have "map series_id (mr_samples reg') @ map (id_of (mr_prefix reg)) series =
      map series_id (mr_samples reg) @ map (id_of (mr_prefix reg)) ((kind, name, h, labels) # series)" using assms(2) by simp
  moreover have "map (\<lambda>s. (sm_name s, sm_kind s)) (mr_samples reg') @
        map (\<lambda>(kind, name, _). (full_name (mr_prefix reg) kind name, kind)) series =
      map (\<lambda>s. (sm_name s, sm_kind s)) (mr_samples reg) @
        map (\<lambda>(kind, name, _). (full_name (mr_prefix reg) kind name, kind)) ((kind, name, h, labels) # series)"
    using assms(2,5,7) by simp
  ultimately show ?thesis
    using assms(1) unfolding registrable_def assms(3,4) by (simp add: assms(2))
qed

lemma registrable_step:
  assumes "registrable ((kind, name, help, labels) # series) reg"
  obtains reference reg' where
    "(if kind = Kind_Counter then counter name help labels reg else gauge name help labels reg) = Inr (reference, reg')"
    "reference = (if kind = Kind_Counter then length (mr_counter_storage reg) else length (mr_gauge_storage reg))"
    "registrable series reg'"
    "mr_counter_storage reg' = mr_counter_storage reg @ (if kind = Kind_Counter then [0] else [])"
    "mr_gauge_storage reg' = mr_gauge_storage reg @ (if kind = Kind_Counter then [] else [double_zero])"
proof -
  have nk: "sm_kind s = kind" if "s \<in> set (mr_samples reg)" "sm_name s = full_name (mr_prefix reg) kind name" for s
    using assms that unfolding registrable_def consistent_kinds_def by fastforce
  have c: "(full_name (mr_prefix reg) kind name, sort labels) \<notin> set (map series_id (mr_samples reg))"
    "series_ok (full_name (mr_prefix reg) kind name) (sort labels)" "length (mr_samples reg) < mr_max_series reg"
    using assms by (auto simp: registrable_def id_of_def)
  show thesis
  proof (cases kind)
    case Kind_Counter
    with c nk have f: "full_name (mr_prefix reg) kind name = counter_name (mr_prefix reg) name" by (simp add: full_name_def)
    have "\<forall>s \<in> set (mr_samples reg). sm_name s = full_name (mr_prefix reg) kind name \<longrightarrow> sm_kind s = Kind_Counter"
      using nk Kind_Counter by simp
    from counter_fresh [of reg name labels "help", OF c [unfolded f] this [unfolded f]] obtain reg' s where
      r: "counter name help labels reg = Inr (length (mr_counter_storage reg), reg')"
        "mr_samples reg' = mr_samples reg @ [s]" "mr_prefix reg' = mr_prefix reg" "mr_max_series reg' = mr_max_series reg"
        "sm_name s = counter_name (mr_prefix reg) name" "sm_labels s = sort labels" "sm_kind s = Kind_Counter"
        "mr_counter_storage reg' = mr_counter_storage reg @ [0]" "mr_gauge_storage reg' = mr_gauge_storage reg"
      by blast
    then have "registrable series reg'" using registrable_append [OF assms, of reg' s] Kind_Counter f by simp
    then show thesis using r Kind_Counter by (intro that [of _ reg']) simp_all
  next
    case Kind_Gauge
    with c nk have f: "full_name (mr_prefix reg) kind name = qualified_name (mr_prefix reg) name" by (simp add: full_name_def)
    have "\<forall>s \<in> set (mr_samples reg). sm_name s = full_name (mr_prefix reg) kind name \<longrightarrow> sm_kind s = Kind_Gauge"
      using nk Kind_Gauge by simp
    from gauge_fresh [of reg name labels "help", OF c [unfolded f] this [unfolded f]] obtain reg' s where
      r: "gauge name help labels reg = Inr (length (mr_gauge_storage reg), reg')"
        "mr_samples reg' = mr_samples reg @ [s]" "mr_prefix reg' = mr_prefix reg" "mr_max_series reg' = mr_max_series reg"
        "sm_name s = qualified_name (mr_prefix reg) name" "sm_labels s = sort labels" "sm_kind s = Kind_Gauge"
        "mr_counter_storage reg' = mr_counter_storage reg" "mr_gauge_storage reg' = mr_gauge_storage reg @ [double_zero]"
      by blast
    then have "registrable series reg'" using registrable_append [OF assms, of reg' s] Kind_Gauge f by simp
    then show thesis using r Kind_Gauge by (intro that [of _ reg']) simp_all
  qed
qed

lemma register_all_fresh:
  "registrable series reg \<Longrightarrow>
     \<exists>reg'. register_all series reg =
       Inr (new_references series (length (mr_counter_storage reg)) (length (mr_gauge_storage reg)), reg') \<and>
       mr_counter_storage reg' = mr_counter_storage reg @ replicate (length (filter (\<lambda>x. fst x = Kind_Counter) series)) 0 \<and>
       mr_gauge_storage reg' = mr_gauge_storage reg @ replicate (length (filter (\<lambda>x. fst x \<noteq> Kind_Counter) series)) double_zero"
proof (induction series arbitrary: reg)
  case (Cons x series)
  obtain kind name h labels where x: "x = (kind, name, h, labels)" by (metis prod_cases4)
  from Cons.prems [unfolded x] obtain reference reg' where r:
    "(if kind = Kind_Counter then counter name h labels reg else gauge name h labels reg) = Inr (reference, reg')"
    "reference = (if kind = Kind_Counter then length (mr_counter_storage reg) else length (mr_gauge_storage reg))"
    "registrable series reg'"
    "mr_counter_storage reg' = mr_counter_storage reg @ (if kind = Kind_Counter then [0] else [])"
    "mr_gauge_storage reg' = mr_gauge_storage reg @ (if kind = Kind_Counter then [] else [double_zero])"
    by (rule registrable_step)
  from Cons.IH [OF r(3)] show ?case
    by (cases "kind = Kind_Counter") (use r in \<open>auto simp: x\<close>)
qed simp

lemma qualified_name_eq [simp]: "qualified_name prefix a = qualified_name prefix b \<longleftrightarrow> a = b"
  by (simp add: qualified_name_def)

lemma qualified_name_valid:
  "prefix = [] \<or> is_valid_identifier prefix \<Longrightarrow> is_valid_identifier name \<Longrightarrow> is_valid_identifier (qualified_name prefix name)"
  by (auto simp: qualified_name_def is_valid_identifier_def is_identifier_character_def is_identifier_start_def)

text \<open>For a name as long as the suffix, the prefix does not matter.\<close>

lemma counter_name_long:
  assumes "length kCounterSuffix \<le> length name" "\<not> ends_with name kCounterSuffix"
  shows "counter_name prefix name = qualified_name prefix (name @ kCounterSuffix)"
proof -
  have "\<not> ends_with (p @ name) kCounterSuffix" for p
    using assms by (simp add: ends_with_def)
  from this [of "prefix @ ''_''"] show ?thesis using assms by (simp add: counter_name_def qualified_name_def Let_def)
qed

lemma consistent_kinds_qualified: "consistent_kinds named \<Longrightarrow> consistent_kinds (map (apfst (qualified_name prefix)) named)"
  by (fastforce simp: consistent_kinds_def)

definition server_names :: "bytes list" where
  "server_names = [''requests'', ''connections_accepted'', ''connections_active'', ''connections_rejected'', ''bytes_sent'',
     ''request_duration_seconds_sum'', ''request_duration_seconds_count'', ''tls_handshakes'', ''tls_handshake_failures'']"

lemma server_names_long:
  "name \<in> set server_names \<Longrightarrow> counter_name prefix name = qualified_name prefix (name @ kCounterSuffix)"
  by (rule counter_name_long) (auto simp: server_names_def kCounterSuffix_def ends_with_def)

lemma full_name_eq:
  "name \<in> set server_names \<Longrightarrow>
     full_name prefix kind name = qualified_name prefix (name @ (if kind = Kind_Counter then kCounterSuffix else []))"
  by (simp add: full_name_def server_names_long)

lemma server_names_valid:
  "name \<in> set server_names \<Longrightarrow> is_valid_identifier (name @ (if kind = Kind_Counter then kCounterSuffix else []))"
proof -
  have "list_all (\<lambda>n. is_valid_identifier n \<and> is_valid_identifier (n @ kCounterSuffix)) server_names" by code_simp
  then show "name \<in> set server_names \<Longrightarrow> ?thesis" by (auto simp: list_all_iff)
qed

lemma server_series_registrable:
  assumes "prefix = [] \<or> is_valid_identifier prefix" "mr_prefix reg = prefix" "mr_samples reg = []" "16 \<le> mr_max_series reg"
  shows "registrable server_series reg"
proof -
  have n: "list_all (\<lambda>(kind, name, _). name \<in> set server_names) server_series" by code_simp
  have ids: "map (id_of prefix) server_series =
      map (\<lambda>(kind, name, h, labels). (qualified_name prefix (name @ (if kind = Kind_Counter then kCounterSuffix else [])), sort labels)) server_series"
    using n by (auto simp: id_of_def full_name_eq list_all_iff split_beta)
  have kinds: "map (\<lambda>(kind, name, _). (full_name prefix kind name, kind)) server_series =
      map (apfst (qualified_name prefix)) (map (\<lambda>(kind, name, _). (name @ (if kind = Kind_Counter then kCounterSuffix else []), kind)) server_series)"
    using n by (auto simp: full_name_eq list_all_iff split_beta)
  have "distinct (map (\<lambda>(kind, name, h, labels). (name @ (if kind = Kind_Counter then kCounterSuffix else []), sort labels)) server_series)"
    by code_simp
  then have d: "distinct (map (id_of prefix) server_series)"
    unfolding ids by (auto simp: distinct_map inj_on_def split_beta)
  have "consistent_kinds (map (\<lambda>(kind, name, _). (name @ (if kind = Kind_Counter then kCounterSuffix else []), kind)) server_series)"
    by code_simp
  then have k: "consistent_kinds (map (\<lambda>(kind, name, _). (full_name prefix kind name, kind)) server_series)"
    unfolding kinds by (rule consistent_kinds_qualified)
  have "list_all (\<lambda>(_, _, _, labels). sorted (sort labels) \<and> distinct (map fst (sort labels)) \<and>
      list_all (\<lambda>l. is_valid_identifier (fst l)) (sort labels)) server_series" by code_simp
  then have v: "\<forall>(kind, name, h, labels) \<in> set server_series. series_ok (full_name prefix kind name) (sort labels)"
    using n assms(1) qualified_name_valid server_names_valid by (fastforce simp: series_ok_def full_name_eq list_all_iff)
  have "length server_series = 16" by (simp add: server_series_def)
  then show ?thesis using assms(2-4) d k v by (simp add: registrable_def)
qed

section \<open>What the counters say\<close>

text \<open>The counters a call increments and by how much.\<close>

fun call_increments :: "server_metrics \<Rightarrow> metrics_call \<Rightarrow> (nat \<times> nat) list" where
  "call_increments m Connection_Accepted = [(connections_accepted m, 1)]"
| "call_increments m (Connections_Active_Changed delta) = []"
| "call_increments m (Connection_Rejected reason) =
     [(case reason of Rejection_Limit \<Rightarrow> rejected_limit m | Rejection_SourceLimit \<Rightarrow> rejected_source_limit m
       | Rejection_Cidr \<Rightarrow> rejected_cidr m | Rejection_Parse \<Rightarrow> rejected_parse m | Rejection_Tls \<Rightarrow> rejected_tls m, 1)]"
| "call_increments m (Bytes_Written bytes) = [(bytes_sent m, bytes)]"
| "call_increments m Tls_Handshake_Completed = [(tls_handshakes m, 1)]"
| "call_increments m Tls_Handshake_Failed = [(tls_handshake_failures m, 1)]"
| "call_increments m (Response_Completed status service_time) = [(response_bucket m status, 1), (request_duration_count m, 1)]"

definition added_to :: "nat \<Rightarrow> (nat \<times> nat) list \<Rightarrow> nat" where
  "added_to c increments = sum_list (map (\<lambda>(d, n). if d = c then n else 0) increments)"

lemma counter_value_gauge_add [simp]: "counter_value c (gauge_add ops g d reg) = counter_value c reg"
  by (simp add: counter_value_def gauge_add_def)

lemma counter_value_increment:
  "c < length (mr_counter_storage reg) \<Longrightarrow>
     counter_value c (counter_increment d n reg) = counter_value c reg + (if d = c then n else 0)"
  by (simp add: counter_value_def counter_increment_def)

lemma gauge_add_storage [simp]: "mr_counter_storage (gauge_add ops g d reg) = mr_counter_storage reg"
  by (simp add: gauge_add_def)

lemma metrics_apply_storage [simp]:
  "length (mr_counter_storage (metrics_apply ops m call reg)) = length (mr_counter_storage reg)"
  by (cases call) (simp_all add: connection_accepted_def connections_active_changed_def connection_rejected_def
      bytes_written_def tls_handshake_completed_def tls_handshake_failed_def response_completed_def Let_def
      split: connection_rejection.split option.split)

lemma metrics_apply_value:
  "c < length (mr_counter_storage reg) \<Longrightarrow>
     counter_value c (metrics_apply ops m call reg) = counter_value c reg + of_nat (added_to c (call_increments m call))"
  by (cases call) (simp_all add: connection_accepted_def connections_active_changed_def connection_rejected_def
      bytes_written_def tls_handshake_completed_def tls_handshake_failed_def response_completed_def Let_def
      added_to_def counter_value_increment split: connection_rejection.split option.split)

lemma metrics_fold_value:
  "c < length (mr_counter_storage reg) \<Longrightarrow>
     counter_value c (fold (metrics_apply ops m) calls reg) =
       counter_value c reg + of_nat (sum_list (map (\<lambda>call. added_to c (call_increments m call)) calls))"
  by (induction calls arbitrary: reg) (simp_all add: metrics_apply_value add.assoc)

definition fresh_metrics :: server_metrics where
  "fresh_metrics = \<lparr>requests_2xx = 0, requests_3xx = 1, requests_4xx = 2, requests_5xx = 3, connections_accepted = 4,
     connections_active = 0, rejected_limit = 5, rejected_source_limit = 6, rejected_cidr = 7, rejected_parse = 8,
     rejected_tls = 9, bytes_sent = 10, request_duration_seconds_sum = 1, request_duration_count = 11,
     tls_handshakes = 12, tls_handshake_failures = 13\<rparr>"

lemma new_server_metrics_fresh:
  assumes "new_registry prefix max_series = Inr reg" "16 \<le> max_series"
  shows "\<exists>reg'. new_server_metrics reg = Inr (fresh_metrics, reg') \<and> mr_counter_storage reg' = replicate 14 0"
proof -
  have r: "mr_samples reg = []" "mr_counter_storage reg = []" "mr_gauge_storage reg = []" "mr_prefix reg = prefix"
    "mr_max_series reg = max_series" "prefix = [] \<or> is_valid_identifier prefix"
    using assms(1) by (auto simp: new_registry_def split: if_splits)
  have "new_references server_series 0 0 = [0, 1, 2, 3, 4, 0, 5, 6, 7, 8, 9, 10, 1, 11, 12, 13]"
    "length (filter (\<lambda>x. fst x = Kind_Counter) server_series) = 14" by code_simp+
  with register_all_fresh [OF server_series_registrable [of prefix reg]] r assms(2) show ?thesis
    by (auto simp: new_server_metrics_def fresh_metrics_def)
qed

lemma status_classes: "status_class s \<in> {''1xx'', ''2xx'', ''3xx'', ''4xx'', ''5xx''}"
  by (simp add: status_class_def Let_def)

lemma sum_list_delta: "sum_list (map (\<lambda>x. if P x then 1 else 0) xs) = length (filter P xs)"
  by (induction xs) simp_all

definition responses_in :: "bytes list \<Rightarrow> metrics_call \<Rightarrow> bool" where
  "responses_in classes call = (case call of Response_Completed status _ \<Rightarrow> status_class status \<in> set classes | _ \<Rightarrow> False)"

definition written_by :: "metrics_call \<Rightarrow> nat" where
  "written_by call = (case call of Bytes_Written bytes \<Rightarrow> bytes | _ \<Rightarrow> 0)"

lemma responses_in_simps [simp]:
  "responses_in classes (Response_Completed status service_time) \<longleftrightarrow> status_class status \<in> set classes"
  "\<not> responses_in classes Connection_Accepted" "\<not> responses_in classes (Connections_Active_Changed delta)"
  "\<not> responses_in classes (Connection_Rejected reason)" "\<not> responses_in classes (Bytes_Written bytes)"
  "\<not> responses_in classes Tls_Handshake_Completed" "\<not> responses_in classes Tls_Handshake_Failed"
  by (simp_all add: responses_in_def)

lemma fresh_metrics_simps [simp]:
  "requests_2xx fresh_metrics = 0" "requests_3xx fresh_metrics = 1" "requests_4xx fresh_metrics = 2"
  "requests_5xx fresh_metrics = 3" "connections_accepted fresh_metrics = 4" "rejected_limit fresh_metrics = 5"
  "rejected_source_limit fresh_metrics = 6" "rejected_cidr fresh_metrics = 7" "rejected_parse fresh_metrics = 8"
  "rejected_tls fresh_metrics = 9" "bytes_sent fresh_metrics = 10" "request_duration_count fresh_metrics = 11"
  "tls_handshakes fresh_metrics = 12" "tls_handshake_failures fresh_metrics = 13"
  by (simp_all add: fresh_metrics_def)

lemma response_bucket_fresh:
  "response_bucket fresh_metrics s = (if status_class s = ''2xx'' then 0 else if status_class s = ''3xx'' then 1
     else if status_class s = ''4xx'' then 2 else 3)"
  by (simp add: response_bucket_def Let_def)

lemma status_class_other:
  "status_class s \<noteq> ''2xx'' \<Longrightarrow> status_class s \<noteq> ''3xx'' \<Longrightarrow> status_class s \<noteq> ''4xx'' \<Longrightarrow>
     status_class s = ''1xx'' \<or> status_class s = ''5xx''"
  using status_classes [of s] by auto

lemma added_fresh_responses:
  "added_to 0 (call_increments fresh_metrics call) = (if responses_in [''2xx''] call then 1 else 0)"
  "added_to (Suc 0) (call_increments fresh_metrics call) = (if responses_in [''3xx''] call then 1 else 0)"
  "added_to 2 (call_increments fresh_metrics call) = (if responses_in [''4xx''] call then 1 else 0)"
  "added_to 3 (call_increments fresh_metrics call) = (if responses_in [''1xx'', ''5xx''] call then 1 else 0)"
  "added_to 11 (call_increments fresh_metrics call) =
     (if responses_in [''2xx''] call \<or> responses_in [''3xx''] call \<or> responses_in [''4xx''] call \<or>
        responses_in [''1xx'', ''5xx''] call then 1 else 0)"
  by (cases call; auto simp: added_to_def response_bucket_fresh split: connection_rejection.split dest!: status_class_other)+

lemma added_fresh_events:
  "added_to 10 (call_increments fresh_metrics call) = written_by call"
  "added_to 4 (call_increments fresh_metrics call) = (if call = Connection_Accepted then 1 else 0)"
  "added_to 5 (call_increments fresh_metrics call) = (if call = Connection_Rejected Rejection_Limit then 1 else 0)"
  "added_to 6 (call_increments fresh_metrics call) = (if call = Connection_Rejected Rejection_SourceLimit then 1 else 0)"
  "added_to 7 (call_increments fresh_metrics call) = (if call = Connection_Rejected Rejection_Cidr then 1 else 0)"
  "added_to 8 (call_increments fresh_metrics call) = (if call = Connection_Rejected Rejection_Parse then 1 else 0)"
  "added_to 9 (call_increments fresh_metrics call) = (if call = Connection_Rejected Rejection_Tls then 1 else 0)"
  "added_to 12 (call_increments fresh_metrics call) = (if call = Tls_Handshake_Completed then 1 else 0)"
  "added_to 13 (call_increments fresh_metrics call) = (if call = Tls_Handshake_Failed then 1 else 0)"
  by (cases call; simp add: added_to_def response_bucket_fresh written_by_def split: connection_rejection.split)+

lemma responses_split:
  "length (filter (\<lambda>c. responses_in [''2xx''] c \<or> responses_in [''3xx''] c \<or> responses_in [''4xx''] c \<or>
      responses_in [''1xx'', ''5xx''] c) calls) =
    length (filter (responses_in [''2xx'']) calls) + length (filter (responses_in [''3xx'']) calls) +
    length (filter (responses_in [''4xx'']) calls) + length (filter (responses_in [''1xx'', ''5xx'']) calls)"
proof (induction calls)
  case (Cons call calls)
  then show ?case by (cases call) auto
qed simp

text \<open>The server's counters count what happened. On a fresh registry with room for its sixteen series
  the constructor succeeds, and after any calls each counter is, modulo 2 to the 64, the number of its
  events: responses by class, where the four classes add up to the number of timed requests, bytes
  written, connections accepted, and rejections by their reason.\<close>

theorem server_metrics_count:
  assumes "new_registry prefix max_series = Inr reg0" and "16 \<le> max_series"
  shows "\<exists>m reg. new_server_metrics reg0 = Inr (m, reg) \<and>
    (\<forall>ops calls. let after = fold (metrics_apply ops m) calls reg;
         happened = (\<lambda>P. of_nat (length (filter P calls)) :: 64 word) in
       counter_value (requests_2xx m) after = happened (responses_in [''2xx'']) \<and>
       counter_value (requests_3xx m) after = happened (responses_in [''3xx'']) \<and>
       counter_value (requests_4xx m) after = happened (responses_in [''4xx'']) \<and>
       counter_value (requests_5xx m) after = happened (responses_in [''1xx'', ''5xx'']) \<and>
       counter_value (request_duration_count m) after = counter_value (requests_2xx m) after +
         counter_value (requests_3xx m) after + counter_value (requests_4xx m) after + counter_value (requests_5xx m) after \<and>
       counter_value (bytes_sent m) after = of_nat (sum_list (map written_by calls)) \<and>
       counter_value (connections_accepted m) after = happened (\<lambda>call. call = Connection_Accepted) \<and>
       counter_value (rejected_limit m) after = happened (\<lambda>call. call = Connection_Rejected Rejection_Limit) \<and>
       counter_value (rejected_source_limit m) after = happened (\<lambda>call. call = Connection_Rejected Rejection_SourceLimit) \<and>
       counter_value (rejected_cidr m) after = happened (\<lambda>call. call = Connection_Rejected Rejection_Cidr) \<and>
       counter_value (rejected_parse m) after = happened (\<lambda>call. call = Connection_Rejected Rejection_Parse) \<and>
       counter_value (rejected_tls m) after = happened (\<lambda>call. call = Connection_Rejected Rejection_Tls) \<and>
       counter_value (tls_handshakes m) after = happened (\<lambda>call. call = Tls_Handshake_Completed) \<and>
       counter_value (tls_handshake_failures m) after = happened (\<lambda>call. call = Tls_Handshake_Failed))"
proof -
  obtain reg where r: "new_server_metrics reg0 = Inr (fresh_metrics, reg)" "mr_counter_storage reg = replicate 14 0"
    using new_server_metrics_fresh [OF assms] by blast
  have v: "counter_value c (fold (metrics_apply ops fresh_metrics) calls reg) =
      of_nat (sum_list (map (\<lambda>call. added_to c (call_increments fresh_metrics call)) calls))" if "c < 14" for c ops calls
    using metrics_fold_value [of c reg ops fresh_metrics calls] r(2) that by (simp add: counter_value_def)
  show ?thesis
    by (intro exI [of _ fresh_metrics] exI [of _ reg] conjI r(1) allI)
      (simp add: Let_def v added_fresh_responses added_fresh_events sum_list_delta responses_split)
qed

theorem server_metrics_count_witness:
  "\<exists>reg0 m reg. new_registry [] 16 = Inr reg0 \<and> new_server_metrics reg0 = Inr (m, reg) \<and>
     counter_value (requests_2xx m) (metrics_apply sample_double_ops m (Response_Completed Status_Ok None) reg) = 1"
proof -
  obtain reg0 where r: "new_registry [] 16 = Inr reg0" by (simp add: new_registry_def)
  have "status_class Status_Ok = ''2xx''" by code_simp
  then have "length (filter (responses_in [''2xx'']) [Response_Completed Status_Ok None]) = 1" by simp
  moreover obtain m reg where "new_server_metrics reg0 = Inr (m, reg)"
    "counter_value (requests_2xx m) (fold (metrics_apply sample_double_ops m) [Response_Completed Status_Ok None] reg) =
      of_nat (length (filter (responses_in [''2xx'']) [Response_Completed Status_Ok None]))"
    using server_metrics_count [OF r] unfolding Let_def by (metis order_refl)
  ultimately show ?thesis using r by auto
qed

end
