(* ===== verification/Http_Reactor.thy ===== *)
theory Http_Reactor
  imports Http_Connection_Invariant Http_Server_State Http_Server_Metrics
begin

text \<open>
  \<open>reactor.cpp\<close> and \<open>reactor.hpp\<close>: one worker. The record holds the members of \<open>Reactor\<close> with its wake
  state, the part of the kernel it talks to (the epoll registrations, the open descriptors of its
  connections, the answers \<open>epoll_ctl\<close> will give), the server state all reactors share, and the metrics
  calls made. Two fields are observations only: every connection has a serial number that is never used
  again, and \<open>rx_issued\<close> lists the stream ids handed out with the connection each was made for.
\<close>

section \<open>State\<close>

record reactor_config =
  rc_allow_list :: "cidr_rule list"
  rc_metrics :: bool
  rc_listener_config :: "nat \<Rightarrow> conn_config"
  rc_listener_tls :: "nat \<Rightarrow> bool"
  rc_seconds :: "int \<Rightarrow> double"

record entry =
  en_connection :: connection
  en_config :: conn_config
  en_admission :: admission
  en_serial :: nat

record reactor =
  rx_event_fd :: int
  rx_alive :: bool
  rx_pending_streams :: "64 word list"
  rx_signalled :: bool
  rx_listeners :: "(nat \<times> int) list"
  rx_connections :: "(int, entry) flat_map"
  rx_streaming :: "(64 word, int) flat_map"
  rx_next_stream_id :: "64 word"
  rx_epoll :: "(int, 32 word) flat_map"
  rx_open :: "int list"
  rx_ctl :: "bool list"
  rx_server :: server_state
  rx_metrics :: "metrics_call list"
  rx_serial :: nat
  rx_issued :: "(64 word \<times> nat option) list"

definition kMaxAcceptsPerTurn :: nat where "kMaxAcceptsPerTurn = 64"
definition kEPOLLIN :: "32 word" where "kEPOLLIN = 1"
definition kEPOLLOUT :: "32 word" where "kEPOLLOUT = 4"

unbundle bit_operations_syntax

definition epoll_mask_for :: "epoll_interest \<Rightarrow> 32 word" where
  "epoll_mask_for interest =
     (case interest of
        Interest_Read \<Rightarrow> kEPOLLIN
      | Interest_Write \<Rightarrow> kEPOLLOUT
      | Interest_ReadWrite \<Rightarrow> kEPOLLIN OR kEPOLLOUT
      | Interest_Quiescent \<Rightarrow> 0
      | Interest_Done \<Rightarrow> 0)"

section \<open>Waking\<close>

definition signal_event_fd :: "reactor \<Rightarrow> reactor" where
  "signal_event_fd r = r\<lparr>rx_signalled := True\<rparr>"

text \<open>The part of \<open>WakeState::notify_stream\<close> under the mutex; \<open>enough_memory\<close> is false when \<open>push_back\<close> throws.\<close>

definition push_pending :: "bool \<Rightarrow> 64 word \<Rightarrow> reactor \<Rightarrow> reactor option" where
  "push_pending enough_memory stream_id r =
     (if stream_id \<in> set (rx_pending_streams r) then Some r
      else if \<not> enough_memory then None
      else Some (r\<lparr>rx_pending_streams := rx_pending_streams r @ [stream_id]\<rparr>))"

text \<open>Publishers and the reactor share the wake state without one lock around a whole call, so a call is
  written as the sequence of its indivisible steps, each of which does its part and says what remains to
  be done. \<open>perform\<close> is the call undisturbed; the interleavings of several calls take their steps one
  by one.\<close>

datatype activity = Act_Done | Act_Next "reactor \<Rightarrow> reactor \<times> activity"

primrec perform :: "activity \<Rightarrow> reactor \<Rightarrow> reactor" where
  "perform Act_Done = (\<lambda>r. r)"
| "perform (Act_Next action) = (\<lambda>r. case map_prod id perform (action r) of (r, rest) \<Rightarrow> rest r)"

lemma perform_next: "perform (Act_Next action) r = perform (snd (action r)) (fst (action r))"
  by (simp add: case_prod_beta)

declare perform.simps(2) [simp del] perform_next [simp]

text \<open>\<open>WakeState::notify_stream\<close>: reads \<open>alive\<close>, pushes the id under the mutex, then signals.\<close>

definition notify_activity :: "bool \<Rightarrow> 64 word \<Rightarrow> activity" where
  "notify_activity enough_memory stream_id =
     Act_Next (\<lambda>r. (r, if \<not> rx_alive r then Act_Done else
       Act_Next (\<lambda>r. case push_pending enough_memory stream_id r of
           None \<Rightarrow> (r, Act_Done)
         | Some r \<Rightarrow> (r, Act_Next (\<lambda>r. (signal_event_fd r, Act_Done))))))"

definition notify_stream :: "bool \<Rightarrow> 64 word \<Rightarrow> reactor \<Rightarrow> reactor" where
  "notify_stream enough_memory stream_id r = perform (notify_activity enough_memory stream_id) r"

lemma notify_stream_eq:
  "notify_stream enough_memory stream_id r =
     (if \<not> rx_alive r then r
      else case push_pending enough_memory stream_id r of None \<Rightarrow> r | Some r \<Rightarrow> signal_event_fd r)"
  by (simp add: notify_stream_def notify_activity_def split: option.split)

definition reactor_wake :: "reactor \<Rightarrow> reactor" where
  "reactor_wake r = signal_event_fd r"

text \<open>What the reactor does when the event descriptor is readable: it resets it, then takes the pending ids.\<close>

definition drain_event_fd :: "reactor \<Rightarrow> reactor" where
  "drain_event_fd r = r\<lparr>rx_signalled := False\<rparr>"

definition take_pending :: "reactor \<Rightarrow> 64 word list \<times> reactor" where
  "take_pending r = (rx_pending_streams r, r\<lparr>rx_pending_streams := []\<rparr>)"

section \<open>Construction and listeners\<close>

datatype reactor_error = EpollFailed | ListenerNotRegistered int | AcceptFailed

definition new_reactor :: "int \<Rightarrow> bool list \<Rightarrow> server_state \<Rightarrow> reactor" where
  "new_reactor event_fd ctl server =
     \<lparr>rx_event_fd = event_fd, rx_alive = True, rx_pending_streams = [], rx_signalled = False, rx_listeners = [],
      rx_connections = [], rx_streaming = [], rx_next_stream_id = 1, rx_epoll = [], rx_open = [], rx_ctl = ctl,
      rx_server = server, rx_metrics = [], rx_serial = 0, rx_issued = []\<rparr>"

text \<open>The next answer of \<open>epoll_ctl\<close>.\<close>

definition epoll_ctl :: "reactor \<Rightarrow> bool \<times> reactor" where
  "epoll_ctl r = (case rx_ctl r of [] \<Rightarrow> (True, r) | answer # answers \<Rightarrow> (answer, r\<lparr>rx_ctl := answers\<rparr>))"

definition add_listener :: "nat \<Rightarrow> int \<Rightarrow> reactor \<Rightarrow> (reactor_error, reactor) expected" where
  "add_listener listener listen_fd r =
     (let (registered, r) = epoll_ctl r in
      if \<not> registered then Inl (ListenerNotRegistered listen_fd)
      else Inr (r\<lparr>rx_listeners := rx_listeners r @ [(listener, listen_fd)]\<rparr>))"

definition record_metric :: "reactor_config \<Rightarrow> metrics_call \<Rightarrow> reactor \<Rightarrow> reactor" where
  "record_metric rc call r = (if rc_metrics rc then r\<lparr>rx_metrics := rx_metrics r @ [call]\<rparr> else r)"

section \<open>Connections\<close>

definition make_notifier :: "int \<Rightarrow> reactor \<Rightarrow> 64 word \<times> reactor" where
  "make_notifier connection_fd r =
     (let stream_id = rx_next_stream_id r in
      (stream_id, r\<lparr>rx_next_stream_id := stream_id + 1,
         rx_streaming := fm_insert_or_assign stream_id connection_fd (rx_streaming r),
         rx_issued := rx_issued r @ [(stream_id, map_option en_serial (fm_find connection_fd (rx_connections r)))]\<rparr>))"

text \<open>The destructor of a connection: its source is detached, its admission released, its descriptor closed.\<close>

definition destroy_entry :: "int \<Rightarrow> entry \<Rightarrow> reactor \<Rightarrow> reactor" where
  "destroy_entry fd e r =
     r\<lparr>rx_server := snd (admission_release (en_admission e) (rx_server r)), rx_open := removeAll fd (rx_open r)\<rparr>"

definition close_connection :: "reactor_config \<Rightarrow> int \<Rightarrow> reactor \<Rightarrow> reactor" where
  "close_connection rc fd r =
     (case fm_find fd (rx_connections r) of None \<Rightarrow> r
      | Some e \<Rightarrow>
          record_metric rc (Connections_Active_Changed (-1))
            (destroy_entry fd e
              (r\<lparr>rx_epoll := fm_erase fd (rx_epoll r),
                 rx_streaming := filter (\<lambda>mapping. snd mapping \<noteq> fd) (rx_streaming r),
                 rx_connections := fm_erase fd (rx_connections r)\<rparr>)))"

definition arm :: "reactor_config \<Rightarrow> int \<Rightarrow> epoll_interest \<Rightarrow> reactor \<Rightarrow> reactor" where
  "arm rc fd interest r =
     (let (updated, r) = epoll_ctl r in
      if \<not> updated then close_connection rc fd r
      else r\<lparr>rx_epoll := fm_insert_or_assign fd (epoll_mask_for interest) (rx_epoll r)\<rparr>)"

text \<open>What the calls of a connection do to its reactor: it asks for a notifier before it attaches its
  source, and counts.\<close>

definition metrics_call_of :: "reactor_config \<Rightarrow> metric_call \<Rightarrow> metrics_call" where
  "metrics_call_of rc call =
     (case call of
        M_Bytes_Written bytes \<Rightarrow> Bytes_Written bytes
      | M_Tls_Handshake_Completed \<Rightarrow> Tls_Handshake_Completed
      | M_Tls_Handshake_Failed \<Rightarrow> Tls_Handshake_Failed
      | M_Rejected_Parse \<Rightarrow> Connection_Rejected Rejection_Parse
      | M_Response_Completed status service_time \<Rightarrow> Response_Completed status (map_option (rc_seconds rc) service_time))"

fun absorb_event :: "reactor_config \<Rightarrow> int \<Rightarrow> conn_event \<Rightarrow> reactor \<Rightarrow> reactor" where
  "absorb_event rc fd (Ev_Attached source) r = snd (make_notifier fd r)"
| "absorb_event rc fd (Ev_Metric call) r = record_metric rc (metrics_call_of rc call) r"
| "absorb_event rc fd _ r = r"

text \<open>A call of a method of the connection at \<open>fd\<close>, with its outcome \<open>c\<close>.\<close>

definition put_connection :: "reactor_config \<Rightarrow> int \<Rightarrow> entry \<Rightarrow> connection \<Rightarrow> reactor \<Rightarrow> reactor" where
  "put_connection rc fd e c r =
     fold (absorb_event rc fd) (drop (length (cx_events (en_connection e))) (cx_events c))
       (r\<lparr>rx_connections := fm_insert_or_assign fd (e\<lparr>en_connection := c\<rparr>) (rx_connections r)\<rparr>)"

definition settle :: "reactor_config \<Rightarrow> int \<Rightarrow> epoll_interest \<Rightarrow> reactor \<Rightarrow> reactor" where
  "settle rc fd interest r = (if interest = Interest_Done then close_connection rc fd r else arm rc fd interest r)"

definition call_connection ::
  "reactor_config \<Rightarrow> (conn_config \<Rightarrow> connection \<Rightarrow> epoll_interest \<times> connection) \<Rightarrow> int \<Rightarrow> reactor \<Rightarrow> reactor" where
  "call_connection rc f fd r =
     (case fm_find fd (rx_connections r) of None \<Rightarrow> r
      | Some e \<Rightarrow> let (interest, c) = f (en_config e) (en_connection e) in settle rc fd interest (put_connection rc fd e c r))"

text \<open>\<open>thrown\<close> is the connection as an exception left it, when \<open>step\<close> throws.\<close>

definition handle_connection_event ::
  "reactor_config \<Rightarrow> connection option \<Rightarrow> int \<Rightarrow> 32 word \<Rightarrow> reactor \<Rightarrow> reactor" where
  "handle_connection_event rc thrown fd events r =
     (case thrown of
        None \<Rightarrow> call_connection rc (\<lambda>cfg. conn_step cfg events) fd r
      | Some c \<Rightarrow>
          (case fm_find fd (rx_connections r) of None \<Rightarrow> r
           | Some e \<Rightarrow> close_connection rc fd (put_connection rc fd e c r)))"

definition scan_deadlines :: "reactor_config \<Rightarrow> int \<Rightarrow> reactor \<Rightarrow> reactor" where
  "scan_deadlines rc moment r =
     (let expired = map fst (filter (\<lambda>(fd, e). cn_deadline (en_connection e) \<le> moment) (rx_connections r))
      in fold (call_connection rc on_deadline_expired) expired r)"

definition wake_stream :: "reactor_config \<Rightarrow> 64 word \<Rightarrow> reactor \<Rightarrow> reactor" where
  "wake_stream rc stream_id r =
     (case fm_find stream_id (rx_streaming r) of None \<Rightarrow> r
      | Some connection_fd \<Rightarrow> call_connection rc on_stream_notified connection_fd r)"

text \<open>\<open>drain_stream_wakeups\<close> takes the ids under the mutex, then calls the connection of each.\<close>

primrec wake_each :: "reactor_config \<Rightarrow> 64 word list \<Rightarrow> activity" where
  "wake_each rc [] = Act_Done"
| "wake_each rc (stream_id # pending) = Act_Next (\<lambda>r. (wake_stream rc stream_id r, wake_each rc pending))"

definition drain_activity :: "reactor_config \<Rightarrow> activity" where
  "drain_activity rc = Act_Next (\<lambda>r. let (pending, r) = take_pending r in (r, wake_each rc pending))"

definition drain_stream_wakeups :: "reactor_config \<Rightarrow> reactor \<Rightarrow> reactor" where
  "drain_stream_wakeups rc r = perform (drain_activity rc) r"

lemma perform_wake_each [simp]: "perform (wake_each rc pending) r = fold (wake_stream rc) pending r"
  by (induction pending arbitrary: r) simp_all

lemma drain_stream_wakeups_eq:
  "drain_stream_wakeups rc r = (let (pending, r) = take_pending r in fold (wake_stream rc) pending r)"
  by (simp add: drain_stream_wakeups_def drain_activity_def take_pending_def)

text \<open>What \<open>run\<close> does for the event descriptor: it resets it, then drains the wake-ups.\<close>

definition wake_event_activity :: "reactor_config \<Rightarrow> activity" where
  "wake_event_activity rc = Act_Next (\<lambda>r. (drain_event_fd r, drain_activity rc))"

lemma perform_wake_event [simp]: "perform (wake_event_activity rc) r = drain_stream_wakeups rc (drain_event_fd r)"
  by (simp add: wake_event_activity_def drain_stream_wakeups_def)

section \<open>Accepting\<close>

text \<open>What the world gives an accepted socket: the TLS transport the context makes for it, the socket of a
  plain one, and what its connection meets outside.\<close>

record arrival =
  ar_fd :: int
  ar_peer :: peer_address
  ar_socket :: socket
  ar_tls :: "tls_stream option"
  ar_outside :: connection

datatype accept_answer = Accepted arrival | Accept_WouldBlock | Accept_TransientError | Accept_FatalError

text \<open>The end of \<open>admit\<close>, for a peer that holds a slot.\<close>

definition start_connection :: "reactor_config \<Rightarrow> nat \<Rightarrow> arrival \<Rightarrow> admission \<Rightarrow> reactor \<Rightarrow> reactor" where
  "start_connection rc listener a slot r =
     (let transport = (if rc_listener_tls rc listener then map_option Transport_Tls (ar_tls a)
                       else Some (Transport_Plain (ar_socket a)))
      in case transport of
        None \<Rightarrow> record_metric rc (Connection_Rejected Rejection_Tls)
          (r\<lparr>rx_server := snd (admission_release slot (rx_server r))\<rparr>)
      | Some transport \<Rightarrow>
          let cfg = rc_listener_config rc listener;
              e = \<lparr>en_connection = new_connection cfg (ar_peer a) transport (ar_outside a), en_config = cfg,
                en_admission = fst (admission_move slot), en_serial = rx_serial r\<rparr>;
              (registered, r) = epoll_ctl (r\<lparr>rx_open := ar_fd a # rx_open r, rx_serial := rx_serial r + 1\<rparr>)
          in if \<not> registered then destroy_entry (ar_fd a) e r
             else record_metric rc (Connections_Active_Changed 1)
               (r\<lparr>rx_epoll := fm_insert_or_assign (ar_fd a) (epoll_mask_for Interest_Read) (rx_epoll r),
                  rx_connections := fm_insert_or_assign (ar_fd a) e (rx_connections r)\<rparr>))"

definition admit_allowed :: "reactor_config \<Rightarrow> nat \<Rightarrow> arrival \<Rightarrow> reactor \<Rightarrow> reactor" where
  "admit_allowed rc listener a r =
     (case admit (ar_peer a) (rx_server r) of
        (Inl why, server) \<Rightarrow>
          record_metric rc (Connection_Rejected (if why = GlobalLimit then Rejection_Limit else Rejection_SourceLimit))
            (r\<lparr>rx_server := server\<rparr>)
      | (Inr slot, server) \<Rightarrow> start_connection rc listener a slot (r\<lparr>rx_server := server\<rparr>))"

definition reactor_admit :: "reactor_config \<Rightarrow> nat \<Rightarrow> arrival \<Rightarrow> reactor \<Rightarrow> reactor" where
  "reactor_admit rc listener a r =
     (let r = record_metric rc Connection_Accepted r; peer = ar_peer a in
      if \<not> peer_is_unix peer \<and> rc_allow_list rc \<noteq> [] \<and> \<not> allows (rc_allow_list rc) peer
      then record_metric rc (Connection_Rejected Rejection_Cidr) r
      else admit_allowed rc listener a r)"

text \<open>A descriptor the kernel can hand out: none that is open.\<close>

definition unused_fd :: "int \<Rightarrow> reactor \<Rightarrow> bool" where
  "unused_fd fd r \<longleftrightarrow> fd \<notin> set (rx_open r) \<and> fd \<noteq> rx_event_fd r \<and> fd \<notin> snd ` set (rx_listeners r)"

text \<open>The loop of \<open>accept_ready\<close>. An answer with a descriptor that is in use is none the kernel gives.\<close>

fun accept_loop ::
  "nat \<Rightarrow> reactor_config \<Rightarrow> nat \<Rightarrow> accept_answer list \<Rightarrow> reactor \<Rightarrow> (reactor_error option \<times> accept_answer list) \<times> reactor" where
  "accept_loop 0 rc listener answers r = ((None, answers), r)"
| "accept_loop (Suc n) rc listener [] r = ((None, []), r)"
| "accept_loop (Suc n) rc listener (answer # answers) r =
     (case answer of
        Accepted a \<Rightarrow>
          if unused_fd (ar_fd a) r then accept_loop n rc listener answers (reactor_admit rc listener a r)
          else ((None, answers), r)
      | Accept_WouldBlock \<Rightarrow> ((None, answers), r)
      | Accept_TransientError \<Rightarrow> ((None, answers), r)
      | Accept_FatalError \<Rightarrow> ((Some AcceptFailed, answers), r))"

definition accept_ready ::
  "reactor_config \<Rightarrow> nat \<Rightarrow> accept_answer list \<Rightarrow> reactor \<Rightarrow> (reactor_error option \<times> accept_answer list) \<times> reactor" where
  "accept_ready rc listener answers r = accept_loop kMaxAcceptsPerTurn rc listener answers r"

section \<open>The event loop\<close>

text \<open>An event of \<open>epoll_wait\<close>: the descriptor, the mask and how a step on it may throw.\<close>

type_synonym ready = "int \<times> 32 word \<times> connection option"

definition is_listener :: "int \<Rightarrow> reactor \<Rightarrow> bool" where
  "is_listener fd r \<longleftrightarrow> fd \<in> snd ` set (rx_listeners r)"

definition serve_ready :: "reactor_config \<Rightarrow> ready \<Rightarrow> reactor \<Rightarrow> reactor" where
  "serve_ready rc ev r =
     (case ev of (fd, events, thrown) \<Rightarrow>
        if fd = rx_event_fd r \<or> is_listener fd r then r else handle_connection_event rc thrown fd events r)"

text \<open>The second loop over the events; an exception ends it.\<close>

fun serve_wakes ::
  "reactor_config \<Rightarrow> ready list \<Rightarrow> accept_answer list \<Rightarrow> reactor \<Rightarrow> reactor_error option \<times> reactor" where
  "serve_wakes rc [] answers r = (None, r)"
| "serve_wakes rc ((fd, _) # events) answers r =
     (if fd = rx_event_fd r
      then serve_wakes rc events answers (perform (wake_event_activity rc) r)
      else case find (\<lambda>binding. snd binding = fd) (rx_listeners r) of
        None \<Rightarrow> serve_wakes rc events answers r
      | Some (listener, _) \<Rightarrow>
          (case accept_ready rc listener answers r of
             ((Some error, _), r) \<Rightarrow> (Some error, r)
           | ((None, answers), r) \<Rightarrow> serve_wakes rc events answers r))"

definition reactor_turn ::
  "reactor_config \<Rightarrow> ready list \<Rightarrow> accept_answer list \<Rightarrow> int \<Rightarrow> reactor \<Rightarrow> reactor_error option \<times> reactor" where
  "reactor_turn rc events answers moment r =
     (case serve_wakes rc events answers (fold (serve_ready rc) events r) of
        (Some error, r) \<Rightarrow> (Some error, r)
      | (None, r) \<Rightarrow> (None, scan_deadlines rc moment r))"

text \<open>The end of \<open>run\<close>, by a stop or, with its identity, an exception.\<close>

definition reactor_leave :: "nat option \<Rightarrow> reactor \<Rightarrow> reactor" where
  "reactor_leave failure r =
     (let r = (case failure of None \<Rightarrow> r | Some error \<Rightarrow> r\<lparr>rx_server := state_fail error (rx_server r)\<rparr>)
      in r\<lparr>rx_alive := False,
           rx_connections := map (apsnd (\<lambda>e. e\<lparr>en_connection := begin_close (en_config e) (en_connection e)\<rparr>)) (rx_connections r)\<rparr>)"

definition destroy_reactor :: "reactor_config \<Rightarrow> reactor \<Rightarrow> reactor" where
  "destroy_reactor rc r =
     (let r = r\<lparr>rx_alive := False, rx_epoll := []\<rparr>;
          r = (if rx_connections r \<noteq> []
               then record_metric rc (Connections_Active_Changed (- int (length (rx_connections r)))) r else r);
          r = fold (\<lambda>(fd, e). destroy_entry fd e) (rx_connections r) r
      in r\<lparr>rx_connections := [], rx_streaming := []\<rparr>)"

section \<open>What every operation keeps\<close>

lemma fm_keys_cong: "map fst m = map fst m' \<Longrightarrow> map fst (fm_insert_or_assign k v m) = map fst (fm_insert_or_assign k v' m')"
proof (induction m arbitrary: m')
  case (Cons kv m)
  then obtain kv' m2 where "m' = kv' # m2" "fst kv' = fst kv" "map fst m = map fst m2" by (cases m') auto
  then show ?case using Cons.IH [of m2] by (cases kv; cases kv') auto
qed simp

lemma fm_find_iff: "fm_ok m \<Longrightarrow> fm_find k m = Some v \<longleftrightarrow> (k, v) \<in> set m"
  by (simp add: fm_find_def fm_ok_distinct)

lemma fm_find_None: "fm_find k m = None \<longleftrightarrow> k \<notin> fst ` set m"
  by (simp add: fm_find_def map_of_eq_None_iff)

lemma fm_keys_assign:
  assumes "fm_ok m" "fm_find k m = Some v" shows "map fst (fm_insert_or_assign k v' m) = map fst m"
  using assms by (induction k v' m rule: fm_insert_or_assign.induct) (auto simp: fm_ok_def fm_find_def dest!: map_of_SomeD, force)

lemma fm_keys_erase: "map fst (fm_erase k m) = filter (\<lambda>j. j \<noteq> k) (map fst m)"
  by (simp add: fm_erase_def filter_map comp_def)

lemma fm_values_assign:
  assumes "fm_ok m" "fm_find k m = Some v" "f v' = f v"
  shows "map (f \<circ> snd) (fm_insert_or_assign k v' m) = map (f \<circ> snd) m"
  using assms by (induction k v' m rule: fm_insert_or_assign.induct) (auto simp: fm_ok_def fm_find_def dest!: map_of_SomeD, force)

lemma fm_values_insert:
  assumes "fm_find k m = None"
  shows "mset (map (f \<circ> snd) (fm_insert_or_assign k v m)) = add_mset (f v) (mset (map (f \<circ> snd) m))"
  using assms by (induction k v m rule: fm_insert_or_assign.induct) (auto simp: fm_find_def split: if_splits)

lemma fm_values_erase:
  assumes "fm_ok m" "fm_find k m = Some v"
  shows "mset (map (f \<circ> snd) m) = add_mset (f v) (mset (map (f \<circ> snd) (fm_erase k m)))"
  using assms
proof (induction m)
  case (Cons kv m)
  show ?case
  proof (cases "fst kv = k")
    case True
    then have "fm_erase k (kv # m) = m" using Cons.prems(1)
      by (auto simp: fm_erase_def fm_ok_def filter_id_conv)
    then show ?thesis using True Cons.prems(2) by (cases kv) (simp add: fm_find_def)
  next
    case False
    then show ?thesis using Cons by (cases kv) (auto simp: fm_erase_def fm_find_def fm_ok_def)
  qed
qed simp

lemma fm_ok_filter: "fm_ok m \<Longrightarrow> fm_ok (filter P m)"
  by (induction m) (auto simp: fm_ok_def)

text \<open>The gauge the calls add up to.\<close>

definition active_change :: "metrics_call \<Rightarrow> int" where
  "active_change call = (case call of Connections_Active_Changed delta \<Rightarrow> delta | _ \<Rightarrow> 0)"

definition gauge_total :: "metrics_call list \<Rightarrow> int" where
  "gauge_total calls = sum_list (map active_change calls)"

definition own_slots :: "reactor \<Rightarrow> admission multiset" where
  "own_slots r = mset (map (en_admission \<circ> snd) (rx_connections r))"

text \<open>The tables agree with each other: every connection has its registration and its descriptor, every
  stream id leads to the connection it was made for. \<open>X\<close> are descriptors whose connection is about to
  be closed because its step threw.\<close>

definition tables_ok :: "int set \<Rightarrow> reactor \<Rightarrow> bool" where
  "tables_ok X r \<longleftrightarrow>
     fm_ok (rx_connections r) \<and> fm_ok (rx_streaming r) \<and> fm_ok (rx_epoll r) \<and>
     map fst (rx_epoll r) = map fst (rx_connections r) \<and>
     distinct (rx_open r) \<and> set (rx_open r) = fst ` set (rx_connections r) \<and>
     (\<forall>fd \<in> fst ` set (rx_connections r). fd \<noteq> rx_event_fd r \<and> fd \<notin> snd ` set (rx_listeners r)) \<and>
     (\<forall>fd e. fm_find fd (rx_connections r) = Some e \<longrightarrow>
        en_serial e < rx_serial r \<and> (fd \<in> X \<or> connection_run (en_config e) (en_connection e))) \<and>
     distinct (map (en_serial \<circ> snd) (rx_connections r))"

definition streams_ok :: "reactor \<Rightarrow> bool" where
  "streams_ok r \<longleftrightarrow> distinct (rx_pending_streams r) \<and>
     map fst (rx_issued r) = map of_nat [1..<Suc (length (rx_issued r))] \<and>
     rx_next_stream_id r = of_nat (Suc (length (rx_issued r))) \<and>
     (\<forall>(stream_id, fd) \<in> set (rx_streaming r).
        \<exists>e. fm_find fd (rx_connections r) = Some e \<and> (stream_id, Some (en_serial e)) \<in> set (rx_issued r))"

definition accounts_ok :: "reactor_config \<Rightarrow> 32 word \<Rightarrow> 32 word \<Rightarrow> admission multiset \<Rightarrow> reactor \<Rightarrow> bool" where
  "accounts_ok rc g s others r \<longleftrightarrow>
     (\<forall>slot \<in># own_slots r. ad_held slot) \<and> admission_run g s (rx_server r) (own_slots r + others) \<and>
     (rc_metrics rc \<longrightarrow> gauge_total (rx_metrics r) = int (length (rx_connections r)))"

definition reactor_ok ::
  "reactor_config \<Rightarrow> 32 word \<Rightarrow> 32 word \<Rightarrow> admission multiset \<Rightarrow> int set \<Rightarrow> reactor \<Rightarrow> bool" where
  "reactor_ok rc g s others X r \<longleftrightarrow> tables_ok X r \<and> streams_ok r \<and> accounts_ok rc g s others r"

lemmas reactor_oks = reactor_ok_def tables_ok_def streams_ok_def accounts_ok_def own_slots_def

lemma record_metric_fields [simp]:
  "rx_connections (record_metric rc call r) = rx_connections r" "rx_streaming (record_metric rc call r) = rx_streaming r"
  "rx_epoll (record_metric rc call r) = rx_epoll r" "rx_open (record_metric rc call r) = rx_open r"
  "rx_event_fd (record_metric rc call r) = rx_event_fd r" "rx_listeners (record_metric rc call r) = rx_listeners r"
  "rx_serial (record_metric rc call r) = rx_serial r" "rx_issued (record_metric rc call r) = rx_issued r"
  "rx_next_stream_id (record_metric rc call r) = rx_next_stream_id r" "rx_server (record_metric rc call r) = rx_server r"
  "rx_pending_streams (record_metric rc call r) = rx_pending_streams r" "rx_alive (record_metric rc call r) = rx_alive r"
  "rx_signalled (record_metric rc call r) = rx_signalled r"
  by (simp_all add: record_metric_def)

lemma gauge_total_record:
  "rc_metrics rc \<Longrightarrow> gauge_total (rx_metrics (record_metric rc call r)) = gauge_total (rx_metrics r) + active_change call"
  by (simp add: record_metric_def gauge_total_def)

lemma record_metric_ok:
  "active_change call = 0 \<Longrightarrow> reactor_ok rc g s others X (record_metric rc call r) = reactor_ok rc g s others X r"
  by (simp add: reactor_oks gauge_total_record cong: conj_cong)

lemma epoll_ctl_cases:
  obtains answers where "snd (epoll_ctl r) = r\<lparr>rx_ctl := answers\<rparr>"
proof (cases "rx_ctl r")
  case Nil
  then show thesis using that [of "rx_ctl r"] by (simp add: epoll_ctl_def)
next
  case (Cons b bs)
  then show thesis using that [of bs] by (simp add: epoll_ctl_def)
qed

lemma reactor_ok_frame [simp]:
  "reactor_ok rc g s others X (r\<lparr>rx_ctl := answers\<rparr>) = reactor_ok rc g s others X r"
  "reactor_ok rc g s others X (r\<lparr>rx_signalled := b\<rparr>) = reactor_ok rc g s others X r"
  "reactor_ok rc g s others X (r\<lparr>rx_alive := b\<rparr>) = reactor_ok rc g s others X r"
  by (simp_all add: reactor_oks)

lemma make_notifier_ok:
  assumes "reactor_ok rc g s others X r" "fm_find fd (rx_connections r) = Some e"
  shows "reactor_ok rc g s others X (snd (make_notifier fd r))"
proof -
  have "[1..<Suc (Suc n)] = [1..<Suc n] @ [Suc n]" for n by simp
  then show ?thesis using assms
    by (auto simp: reactor_oks make_notifier_def Let_def fm_set_insert)
qed

lemma make_notifier_connections [simp]: "rx_connections (snd (make_notifier fd r)) = rx_connections r"
  by (simp add: make_notifier_def Let_def)

lemma absorb_event_connections [simp]: "rx_connections (absorb_event rc fd ev r) = rx_connections r"
  by (cases ev) simp_all

lemma absorb_event_ok:
  assumes "reactor_ok rc g s others X r" "fm_find fd (rx_connections r) = Some e"
  shows "reactor_ok rc g s others X (absorb_event rc fd ev r)"
proof (cases ev)
  case (Ev_Metric call)
  have "active_change (metrics_call_of rc call) = 0" by (cases call) (simp_all add: metrics_call_of_def active_change_def)
  then show ?thesis using assms(1) by (simp add: Ev_Metric record_metric_ok)
qed (use assms in \<open>simp_all add: make_notifier_ok\<close>)

lemma absorb_events_ok:
  assumes "reactor_ok rc g s others X r" "fm_find fd (rx_connections r) = Some e"
  shows "reactor_ok rc g s others X (fold (absorb_event rc fd) evs r)"
  using assms by (induction evs arbitrary: r) (simp_all add: absorb_event_ok)

lemma absorb_events_connections [simp]: "rx_connections (fold (absorb_event rc fd) evs r) = rx_connections r"
  by (induction evs arbitrary: r) simp_all

lemma put_connection_connections [simp]:
  "rx_connections (put_connection rc fd e c r) = fm_insert_or_assign fd (e\<lparr>en_connection := c\<rparr>) (rx_connections r)"
  by (simp add: put_connection_def)

lemma put_connection_ok:
  assumes ok: "reactor_ok rc g s others X r" and e: "fm_find fd (rx_connections r) = Some e"
    and "fd \<in> X \<or> connection_run (en_config e) c"
  shows "reactor_ok rc g s others X (put_connection rc fd e c r)"
proof -
  let ?e = "e\<lparr>en_connection := c\<rparr>"
  let ?r = "r\<lparr>rx_connections := fm_insert_or_assign fd ?e (rx_connections r)\<rparr>"
  have f: "fm_ok (rx_connections r)" using ok by (simp add: reactor_ok_def tables_ok_def)
  have keys: "map fst (rx_connections ?r) = map fst (rx_connections r)" using fm_keys_assign [OF f e] by simp
  have slots: "own_slots ?r = own_slots r"
    using fm_values_assign [OF f e, of en_admission ?e] by (simp add: own_slots_def)
  have serials: "map (en_serial \<circ> snd) (rx_connections ?r) = map (en_serial \<circ> snd) (rx_connections r)"
    using fm_values_assign [OF f e, of en_serial ?e] by simp
  have len: "length (rx_connections ?r) = length (rx_connections r)" using keys by (metis length_map)
  have ks: "fst ` set (rx_connections ?r) = fst ` set (rx_connections r)" using keys by (metis set_map)
  have es: "fm_find fd' (rx_connections r) = Some e' \<longrightarrow> en_serial e' < rx_serial r" for fd' e'
    using ok by (auto simp: reactor_ok_def tables_ok_def)
  have t: "tables_ok X ?r" using ok f keys ks serials e es assms(3)
    by (auto simp: reactor_ok_def tables_ok_def fm_find_insert)
  have st: "streams_ok ?r" using ok f e by (fastforce simp: reactor_ok_def tables_ok_def streams_ok_def fm_find_insert)
  have "accounts_ok rc g s others ?r" using ok slots len by (simp add: reactor_ok_def accounts_ok_def)
  with t st have "reactor_ok rc g s others X ?r" by (simp add: reactor_ok_def)
  then show ?thesis unfolding put_connection_def
    by (rule absorb_events_ok [where e = ?e]) (simp add: fm_find_insert f)
qed

lemma close_connection_ok:
  assumes ok: "reactor_ok rc g s others X r"
  shows "reactor_ok rc g s others (X - {fd}) (close_connection rc fd r)"
proof (cases "fm_find fd (rx_connections r)")
  case None
  then have "\<forall>e. fm_find fd (rx_connections r) \<noteq> Some e" by simp
  then show ?thesis using ok None by (auto simp: close_connection_def reactor_ok_def tables_ok_def)
next
  case (Some e)
  let ?r = "close_connection rc fd r"
  have f: "fm_ok (rx_connections r)" "fm_ok (rx_streaming r)"
    and tr: "tables_ok X r" "streams_ok r" "accounts_ok rc g s others r"
    using ok by (simp_all add: reactor_ok_def tables_ok_def)
  have c: "rx_connections ?r = fm_erase fd (rx_connections r)" "rx_epoll ?r = fm_erase fd (rx_epoll r)"
    "rx_streaming ?r = filter (\<lambda>m. snd m \<noteq> fd) (rx_streaming r)" "rx_open ?r = removeAll fd (rx_open r)"
    "rx_server ?r = snd (admission_release (en_admission e) (rx_server r))"
    "rx_event_fd ?r = rx_event_fd r" "rx_listeners ?r = rx_listeners r" "rx_serial ?r = rx_serial r"
    "rx_issued ?r = rx_issued r" "rx_next_stream_id ?r = rx_next_stream_id r"
    "rx_pending_streams ?r = rx_pending_streams r"
    by (simp_all add: close_connection_def Some destroy_entry_def)
  have own: "own_slots r = add_mset (en_admission e) (own_slots ?r)"
    using fm_values_erase [OF f(1) Some, of en_admission] by (simp add: own_slots_def c(1))
  then have len: "length (rx_connections r) = Suc (length (rx_connections ?r))"
    unfolding own_slots_def by (metis length_map size_add_mset size_mset)
  have "distinct (map (en_serial \<circ> snd) (rx_connections ?r))"
    using tr(1) by (simp add: c(1) fm_erase_def tables_ok_def distinct_map_filter)
  then have t: "tables_ok (X - {fd}) ?r"
    using tr(1) fm_ok_filter [OF f(2), of "\<lambda>m. snd m \<noteq> fd"] by (auto simp: tables_ok_def c fm_find_erase fm_keys_erase fm_set_erase distinct_removeAll fm_ok_def
        sorted_wrt_filter image_iff filter_map [symmetric])
  have st: "streams_ok ?r" using tr(2) by (auto simp: streams_ok_def c fm_find_erase)
  have "admission_run g s (rx_server ?r) (own_slots ?r + others)"
    using tr(3) own run_destroy [of g s "rx_server r" "en_admission e" "own_slots ?r + others"]
    by (simp add: accounts_ok_def c(5)) (metis prod.collapse)
  moreover have "rc_metrics rc \<Longrightarrow> gauge_total (rx_metrics ?r) = gauge_total (rx_metrics r) - 1"
    by (simp add: close_connection_def Some gauge_total_record active_change_def destroy_entry_def)
  ultimately have "accounts_ok rc g s others ?r" using tr(3) own len by (auto simp: accounts_ok_def)
  with t st show ?thesis by (simp add: reactor_ok_def)
qed

lemma close_ok: "reactor_ok rc g s others {} r \<Longrightarrow> reactor_ok rc g s others {} (close_connection rc fd r)"
  using close_connection_ok [of rc g s others "{}" r fd] by simp

lemma arm_ok:
  assumes ok: "reactor_ok rc g s others {} r" and e: "fm_find fd (rx_connections r) = Some e"
  shows "reactor_ok rc g s others {} (arm rc fd interest r)"
proof -
  obtain answers where a: "snd (epoll_ctl r) = r\<lparr>rx_ctl := answers\<rparr>" by (rule epoll_ctl_cases)
  let ?r = "r\<lparr>rx_ctl := answers\<rparr>"
  have ok': "reactor_ok rc g s others {} ?r" using ok by simp
  have f: "fm_ok (rx_epoll r)" "map fst (rx_epoll r) = map fst (rx_connections r)"
    using ok by (simp_all add: reactor_ok_def tables_ok_def)
  then have "fm_find fd (rx_epoll r) \<noteq> None" using e fm_find_None by (metis list.set_map option.distinct(1))
  then have "map fst (fm_insert_or_assign fd m (rx_epoll r)) = map fst (rx_connections r)" for m
    using fm_keys_assign [OF f(1)] f(2) by auto
  then have "reactor_ok rc g s others {} (?r\<lparr>rx_epoll := fm_insert_or_assign fd m (rx_epoll ?r)\<rparr>)" for m
    using ok' f by (simp add: reactor_oks)
  then show ?thesis using close_ok [OF ok', of fd] a by (cases "epoll_ctl r") (simp add: arm_def)
qed

lemma settle_ok:
  "reactor_ok rc g s others {} r \<Longrightarrow> fm_find fd (rx_connections r) = Some e \<Longrightarrow>
     reactor_ok rc g s others {} (settle rc fd interest r)"
  by (simp add: settle_def close_ok arm_ok)

lemma call_connection_ok:
  assumes ok: "reactor_ok rc g s others {} r"
    and f: "\<And>cfg c. connection_run cfg c \<Longrightarrow> connection_run cfg (snd (f cfg c))"
  shows "reactor_ok rc g s others {} (call_connection rc f fd r)"
proof (cases "fm_find fd (rx_connections r)")
  case None
  then show ?thesis using ok by (simp add: call_connection_def)
next
  case (Some e)
  obtain interest c where c: "f (en_config e) (en_connection e) = (interest, c)" by fastforce
  have fo: "fm_ok (rx_connections r)" using ok by (simp add: reactor_ok_def tables_ok_def)
  have "connection_run (en_config e) (en_connection e)" using ok Some by (auto simp: reactor_ok_def tables_ok_def)
  then have "connection_run (en_config e) c" using f [of "en_config e" "en_connection e"] c by simp
  then have "reactor_ok rc g s others {} (put_connection rc fd e c r)" using put_connection_ok [OF ok Some] by blast
  then have "reactor_ok rc g s others {} (settle rc fd interest (put_connection rc fd e c r))"
    by (rule settle_ok [where e = "e\<lparr>en_connection := c\<rparr>"]) (simp add: fm_find_insert fo)
  then show ?thesis by (simp add: call_connection_def Some c)
qed

lemma fold_ok:
  assumes "\<And>x r. P r \<Longrightarrow> P (f x r)" shows "P r \<Longrightarrow> P (fold f xs r)"
  by (induction xs arbitrary: r) (simp_all add: assms)

lemma handle_connection_event_ok:
  assumes ok: "reactor_ok rc g s others {} r"
  shows "reactor_ok rc g s others {} (handle_connection_event rc thrown fd events r)"
proof (cases thrown)
  case None
  then show ?thesis using call_connection_ok [OF ok run_step] by (simp add: handle_connection_event_def)
next
  case (Some c)
  have X: "reactor_ok rc g s others {fd} r" using ok by (auto simp: reactor_ok_def tables_ok_def)
  show ?thesis
  proof (cases "fm_find fd (rx_connections r)")
    case (Some e)
    then have "reactor_ok rc g s others {fd} (put_connection rc fd e c r)" using put_connection_ok [OF X] by blast
    from close_connection_ok [OF this, of fd] show ?thesis
      by (simp add: handle_connection_event_def Some \<open>thrown = Some c\<close>)
  qed (use ok Some in \<open>simp add: handle_connection_event_def\<close>)
qed

lemma scan_deadlines_ok:
  "reactor_ok rc g s others {} r \<Longrightarrow> reactor_ok rc g s others {} (scan_deadlines rc moment r)"
  unfolding scan_deadlines_def Let_def
  by (rule fold_ok [where P = "reactor_ok rc g s others {}"]) (auto intro: call_connection_ok run_expired)

lemma wake_stream_ok:
  "reactor_ok rc g s others {} r \<Longrightarrow> reactor_ok rc g s others {} (wake_stream rc stream_id r)"
  by (auto simp: wake_stream_def intro: call_connection_ok run_notified split: option.split)

lemma drain_stream_wakeups_ok:
  assumes "reactor_ok rc g s others {} r" shows "reactor_ok rc g s others {} (drain_stream_wakeups rc r)"
proof -
  have "reactor_ok rc g s others {} (r\<lparr>rx_pending_streams := []\<rparr>)" using assms by (simp add: reactor_oks)
  then show ?thesis unfolding drain_stream_wakeups_eq take_pending_def Let_def prod.case
    by (rule fold_ok [where P = "reactor_ok rc g s others {}", rotated]) (rule wake_stream_ok)
qed

lemma notify_stream_ok:
  "reactor_ok rc g s others {} r \<Longrightarrow> reactor_ok rc g s others {} (notify_stream enough_memory stream_id r)"
  by (auto simp: notify_stream_eq push_pending_def signal_event_fd_def reactor_oks)

lemma register_ok:
  assumes ok: "reactor_ok rc g s others {} r" and fd: "unused_fd fd r"
    and run: "admission_run g s server (add_mset (en_admission e) (own_slots r + others))" and "ad_held (en_admission e)"
    and c: "connection_run (en_config e) (en_connection e)" and "en_serial e = rx_serial r"
  shows "reactor_ok rc g s others {}
    (record_metric rc (Connections_Active_Changed 1)
      (r\<lparr>rx_server := server, rx_open := fd # rx_open r, rx_serial := rx_serial r + 1, rx_ctl := answers,
         rx_epoll := fm_insert_or_assign fd flags (rx_epoll r), rx_connections := fm_insert_or_assign fd e (rx_connections r)\<rparr>))"
    (is "reactor_ok rc g s others {} (record_metric rc _ ?r)")
proof -
  have tr: "tables_ok {} r" "streams_ok r" "accounts_ok rc g s others r" using ok by (simp_all add: reactor_ok_def)
  have f: "fm_ok (rx_connections r)" "fm_ok (rx_epoll r)" "map fst (rx_epoll r) = map fst (rx_connections r)"
    using tr(1) by (simp_all add: tables_ok_def)
  have new: "fm_find fd (rx_connections r) = None" using fd tr(1) by (simp add: fm_find_None unused_fd_def tables_ok_def)
  have own: "own_slots ?r = add_mset (en_admission e) (own_slots r)"
    using fm_values_insert [OF new, of en_admission e] by (simp add: own_slots_def)
  have len: "length (rx_connections ?r) = Suc (length (rx_connections r))"
    using arg_cong [OF fm_values_insert [OF new, of id e], of size] by simp
  have "mset (map (en_serial \<circ> snd) (rx_connections ?r)) = add_mset (rx_serial r) (mset (map (en_serial \<circ> snd) (rx_connections r)))"
    using fm_values_insert [OF new, of en_serial e] assms(6) by simp
  moreover have "rx_serial r \<notin> set (map (en_serial \<circ> snd) (rx_connections r))"
    using tr(1) f(1) by (fastforce simp: tables_ok_def fm_find_iff)
  ultimately have serials: "distinct (map (en_serial \<circ> snd) (rx_connections ?r))"
    using tr(1) unfolding tables_ok_def by (metis distinct.simps(2) mset.simps(2) mset_eq_imp_distinct_iff)
  have "tables_ok {} ?r"
    using tr(1) f fd serials c assms(6) fm_keys_cong [OF f(3), of fd flags e]
    by (auto simp: tables_ok_def unused_fd_def fm_find_insert fm_set_insert less_Suc_eq)
  moreover have "streams_ok ?r" using tr(2) f(1) new by (fastforce simp: streams_ok_def fm_find_insert)
  moreover have "accounts_ok rc g s others (record_metric rc (Connections_Active_Changed 1) ?r)"
    using tr(3) own len run assms(4) by (auto simp: accounts_ok_def gauge_total_record active_change_def own_slots_def)
  ultimately show ?thesis by (simp add: reactor_ok_def tables_ok_def streams_ok_def)
qed

lemma reactor_ok_server:
  "reactor_ok rc g s others X r \<Longrightarrow> admission_run g s server (own_slots r + others) \<Longrightarrow>
     reactor_ok rc g s others X (r\<lparr>rx_server := server\<rparr>)"
  by (simp add: reactor_oks)

lemma start_connection_ok:
  assumes ok: "reactor_ok rc g s others {} r" and fd: "unused_fd (ar_fd a) r" and held: "ad_held slot"
    and run: "admission_run g s server (add_mset slot (own_slots r + others))"
  shows "reactor_ok rc g s others {} (start_connection rc listener a slot (r\<lparr>rx_server := server\<rparr>))"
proof -
  define transport where "transport = (if rc_listener_tls rc listener then map_option Transport_Tls (ar_tls a)
    else Some (Transport_Plain (ar_socket a)))"
  have "admission_run g s (snd (admission_release slot server)) (own_slots r + others)"
    using run_destroy [OF run] by (metis prod.collapse)
  note rel = reactor_ok_server [OF ok this]
  show ?thesis
  proof (cases transport)
    case None
    then show ?thesis using rel
      by (simp add: start_connection_def transport_def [symmetric] record_metric_ok active_change_def)
  next
    case (Some t)
    let ?cfg = "rc_listener_config rc listener"
    define e where "e = \<lparr>en_connection = new_connection ?cfg (ar_peer a) t (ar_outside a), en_config = ?cfg,
      en_admission = slot, en_serial = rx_serial r\<rparr>"
    let ?r1 = "r\<lparr>rx_server := server, rx_open := ar_fd a # rx_open r, rx_serial := rx_serial r + 1\<rparr>"
    obtain registered where ctl: "fst (epoll_ctl ?r1) = registered" by blast
    obtain answers where ans: "snd (epoll_ctl ?r1) = ?r1\<lparr>rx_ctl := answers\<rparr>" by (rule epoll_ctl_cases)
    have adm: "start_connection rc listener a slot (r\<lparr>rx_server := server\<rparr>) =
      (if \<not> registered then destroy_entry (ar_fd a) e (?r1\<lparr>rx_ctl := answers\<rparr>)
       else record_metric rc (Connections_Active_Changed 1)
         (?r1\<lparr>rx_ctl := answers, rx_epoll := fm_insert_or_assign (ar_fd a) (epoll_mask_for Interest_Read) (rx_epoll r),
           rx_connections := fm_insert_or_assign (ar_fd a) e (rx_connections r)\<rparr>))"
      using Some ctl ans
      by (cases "epoll_ctl ?r1") (simp add: start_connection_def Let_def transport_def [symmetric] e_def admission_move_def)
    have "reactor_ok rc g s others {} (destroy_entry (ar_fd a) e (?r1\<lparr>rx_ctl := answers\<rparr>))"
      using rel fd by (auto simp: destroy_entry_def e_def reactor_oks unused_fd_def less_Suc_eq)
    then show ?thesis
      using register_ok [OF ok, where fd = "ar_fd a" and server = server and e = e and answers = answers and
        flags = "epoll_mask_for Interest_Read"] fd run held
      by (simp add: adm e_def run_new)
  qed
qed

lemma admit_allowed_ok:
  assumes ok: "reactor_ok rc g s others {} r" and fd: "unused_fd (ar_fd a) r"
  shows "reactor_ok rc g s others {} (admit_allowed rc listener a r)"
proof -
  have run: "admission_run g s (rx_server r) (own_slots r + others)" using ok by (simp add: reactor_ok_def accounts_ok_def)
  obtain verdict server where v: "admit (ar_peer a) (rx_server r) = (verdict, server)" by fastforce
  show ?thesis
  proof (cases verdict)
    case (Inl why)
    have "reactor_ok rc g s others {} (r\<lparr>rx_server := server\<rparr>)"
      using reactor_ok_server [OF ok] run_reject [OF run] v Inl by simp
    then show ?thesis using v Inl by (simp add: admit_allowed_def record_metric_ok active_change_def)
  next
    case (Inr slot)
    have "ad_held slot" using v Inr by (auto simp: admit_def Let_def split: if_splits)
    then show ?thesis using start_connection_ok [OF ok fd] run_admit [OF run] v Inr by (simp add: admit_allowed_def)
  qed
qed

lemma reactor_admit_ok:
  assumes ok: "reactor_ok rc g s others {} r" and fd: "unused_fd (ar_fd a) r"
  shows "reactor_ok rc g s others {} (reactor_admit rc listener a r)"
proof -
  have "reactor_ok rc g s others {} (record_metric rc Connection_Accepted r)" "unused_fd (ar_fd a) (record_metric rc Connection_Accepted r)"
    using ok fd by (simp_all add: record_metric_ok active_change_def unused_fd_def)
  then show ?thesis using admit_allowed_ok by (simp add: reactor_admit_def Let_def record_metric_ok active_change_def)
qed

lemma accept_loop_ok:
  "reactor_ok rc g s others {} r \<Longrightarrow> reactor_ok rc g s others {} (snd (accept_loop n rc listener answers r))"
  by (induction n rc listener answers r rule: accept_loop.induct) (auto simp: reactor_admit_ok split: accept_answer.split)

lemma serve_wakes_ok:
  "reactor_ok rc g s others {} r \<Longrightarrow> reactor_ok rc g s others {} (snd (serve_wakes rc events answers r))"
proof (induction rc events answers r rule: serve_wakes.induct)
  case (2 rc fd rest events answers r)
  have acc: "reactor_ok rc g s others {} r'" if "accept_ready rc listener answers r = (x, r')" for listener x r'
    using accept_loop_ok [OF 2(4), of kMaxAcceptsPerTurn listener answers] that by (simp add: accept_ready_def)
  show ?case
    using 2 acc drain_stream_wakeups_ok [of rc g s others "drain_event_fd r"]
    by (auto simp: drain_event_fd_def split: option.split prod.split)
qed simp

lemma reactor_turn_ok:
  assumes "reactor_ok rc g s others {} r" shows "reactor_ok rc g s others {} (snd (reactor_turn rc events answers moment r))"
proof -
  have "reactor_ok rc g s others {} (fold (serve_ready rc) events r)"
    by (rule fold_ok [where P = "reactor_ok rc g s others {}", OF _ assms])
      (auto simp: serve_ready_def handle_connection_event_ok split: prod.split)
  from serve_wakes_ok [OF this, of events answers] show ?thesis
    by (auto simp: reactor_turn_def scan_deadlines_ok split: prod.split option.split)
qed

lemma leave_ok:
  assumes ok: "reactor_ok rc g s others {} r" shows "reactor_ok rc g s others {} (reactor_leave failure r)"
proof -
  define r0 where "r0 = (case failure of None \<Rightarrow> r | Some error \<Rightarrow> r\<lparr>rx_server := state_fail error (rx_server r)\<rparr>)"
  have "admission_run g s (rx_server r) (own_slots r + others)" using ok by (simp add: reactor_ok_def accounts_ok_def)
  then have "admission_run g s (state_fail error (rx_server r)) (own_slots r + others)" for error by (rule run_fail)
  then have ok0: "reactor_ok rc g s others {} r0"
    using ok reactor_ok_server [OF ok] by (simp add: r0_def split: option.split)
  let ?f = "\<lambda>e. e\<lparr>en_connection := begin_close (en_config e) (en_connection e)\<rparr>"
  have find: "fm_find fd (map (apsnd ?f) m) = map_option ?f (fm_find fd m)" for fd m
    by (induction m) (auto simp: fm_find_def)
  have vals: "map (en_admission \<circ> snd) (map (apsnd ?f) m) = map (en_admission \<circ> snd) m"
    "map (en_serial \<circ> snd) (map (apsnd ?f) m) = map (en_serial \<circ> snd) m" "map fst (map (apsnd ?f) m) = map fst m"
    "fst ` set (map (apsnd ?f) m) = fst ` set m" for m by (auto simp: image_image)
  show ?thesis unfolding reactor_leave_def r0_def [symmetric] Let_def
    using ok0 by (auto simp: reactor_ok_def tables_ok_def streams_ok_def accounts_ok_def own_slots_def find vals fm_ok_def
        run_begin_close simp del: map_map set_map mset_map)
qed

section \<open>Runs of a reactor\<close>

text \<open>A reactor is started with a server whose other slots are held elsewhere; then turns of its loop,
  notifications and wakes from other threads, what the other reactors do to the shared state, what the
  world does to a connection, and the end of its loop come in any order.\<close>

inductive reactor_run :: "reactor_config \<Rightarrow> 32 word \<Rightarrow> 32 word \<Rightarrow> reactor \<Rightarrow> admission multiset \<Rightarrow> bool"
  for rc g s where
  rx_start: "admission_run g s server others \<Longrightarrow> reactor_run rc g s (new_reactor event_fd ctl server) others"
| rx_listen: "reactor_run rc g s r others \<Longrightarrow> unused_fd listen_fd r \<Longrightarrow> add_listener listener listen_fd r = Inr r' \<Longrightarrow>
    reactor_run rc g s r' others"
| rx_notify: "reactor_run rc g s r others \<Longrightarrow> reactor_run rc g s (notify_stream enough_memory stream_id r) others"
| rx_wake: "reactor_run rc g s r others \<Longrightarrow> reactor_run rc g s (reactor_wake r) others"
| rx_turn: "reactor_run rc g s r others \<Longrightarrow> reactor_run rc g s (snd (reactor_turn rc events answers moment r)) others"
| rx_leave: "reactor_run rc g s r others \<Longrightarrow> reactor_run rc g s (reactor_leave failure r) others"
| rx_others: "reactor_run rc g s r others \<Longrightarrow> admission_run g s server (own_slots r + others') \<Longrightarrow>
    reactor_run rc g s (r\<lparr>rx_server := server, rx_ctl := ctl\<rparr>) others'"
| rx_world: "reactor_run rc g s r others \<Longrightarrow> fm_find fd (rx_connections r) = Some e \<Longrightarrow>
    transport_sent t = transport_sent (cn_transport (en_connection e)) \<Longrightarrow>
    transport_is_secure t = transport_is_secure (cn_transport (en_connection e)) \<Longrightarrow>
    reactor_run rc g s (put_connection rc fd e ((en_connection e)\<lparr>cn_transport := t, cx_ticks := ticks, cx_pulls := pulls,
      cx_attach_throws := throws\<rparr>) r) others"

lemma reactor_run_ok: "reactor_run rc g s r others \<Longrightarrow> reactor_ok rc g s others {} r"
proof (induction rule: reactor_run.induct)
  case (rx_start server others event_fd ctl)
  then show ?case by (simp add: new_reactor_def reactor_oks gauge_total_def)
next
  case (rx_listen r others listen_fd listener r')
  obtain answers where a: "snd (epoll_ctl r) = r\<lparr>rx_ctl := answers\<rparr>" by (rule epoll_ctl_cases)
  then have "r' = r\<lparr>rx_ctl := answers, rx_listeners := rx_listeners r @ [(listener, listen_fd)]\<rparr>"
    using rx_listen.hyps(3) by (cases "epoll_ctl r") (auto simp: add_listener_def split: if_splits)
  then show ?case using rx_listen by (auto simp: reactor_oks unused_fd_def)
next
  case (rx_others r others server others' ctl)
  then show ?case by (simp add: reactor_oks)
next
  case (rx_world r others fd e t ticks pulls throws)
  have "connection_run (en_config e) (en_connection e)"
    using rx_world.IH rx_world.hyps(2) by (auto simp: reactor_ok_def tables_ok_def)
  then show ?case using put_connection_ok [OF rx_world.IH rx_world.hyps(2)] rx_world.hyps(3,4) run_world by blast
qed (simp_all add: notify_stream_ok reactor_wake_def signal_event_fd_def reactor_turn_ok leave_ok)

text \<open>C8: the tables of a reactor agree in every run, whatever peers, publishers and the kernel do: every
  connection it holds has exactly one registration and one open descriptor and no other descriptor stays
  open, no connection is confused with a listener, every stream id leads to a live connection, and every
  connection is in a run of its own, so that the properties of connections hold of it.\<close>

theorem reactor_tables_agree:
  assumes "reactor_run rc g s r others"
  shows "map fst (rx_epoll r) = map fst (rx_connections r) \<and> distinct (map fst (rx_connections r)) \<and>
    distinct (rx_open r) \<and> set (rx_open r) = set (map fst (rx_connections r)) \<and>
    (\<forall>fd \<in> set (map fst (rx_connections r)). fd \<noteq> rx_event_fd r \<and> \<not> is_listener fd r) \<and>
    set (map snd (rx_streaming r)) \<subseteq> set (map fst (rx_connections r)) \<and> distinct (rx_pending_streams r) \<and>
    (\<forall>fd e. fm_find fd (rx_connections r) = Some e \<longrightarrow> connection_run (en_config e) (en_connection e))"
proof -
  have ok: "tables_ok {} r" "streams_ok r" using reactor_run_ok [OF assms] by (simp_all add: reactor_ok_def)
  have "fd \<in> fst ` set (rx_connections r)" if "(i, fd) \<in> set (rx_streaming r)" for i fd
    using ok(2) that fm_find_None [of fd "rx_connections r"] by (fastforce simp: streams_ok_def)
  then show ?thesis using ok fm_ok_distinct [of "rx_connections r"] by (auto simp: tables_ok_def streams_ok_def is_listener_def)
qed

lemma issued_unique:
  assumes "map fst issued = map (of_nat :: nat \<Rightarrow> 64 word) [1..<Suc (length issued)]" "length issued < 2 ^ 64"
    and "(i, k) \<in> set issued" "(i, k') \<in> set issued"
  shows "k = k'"
proof -
  have "inj_on (of_nat :: nat \<Rightarrow> 64 word) {1..<Suc (length issued)}"
    using assms(2) by (intro inj_onI) (auto simp: word_of_nat_eq_iff take_bit_nat_eq_self)
  then have "distinct (map fst issued)" unfolding assms(1) by (simp add: distinct_map del: upt_Suc)
  then show ?thesis using assms(3,4) by (meson eq_key_imp_eq_value)
qed

text \<open>A stream notification never reaches the wrong connection. As long as fewer than 2 to the 64 stream
  ids were handed out, waking an id either changes nothing, because its connection is gone, or calls
  the very connection the notifier was made for, even when the kernel gave that connection's old
  descriptor to another one.\<close>

theorem stale_notification_harmless:
  assumes "reactor_run rc g s r others" and "length (rx_issued r) < 2 ^ 64"
    and "(stream_id, made_for) \<in> set (rx_issued r)"
  shows "wake_stream rc stream_id r = r \<or>
    (\<exists>fd e. fm_find fd (rx_connections r) = Some e \<and> made_for = Some (en_serial e) \<and>
       wake_stream rc stream_id r = call_connection rc on_stream_notified fd r)"
proof (cases "fm_find stream_id (rx_streaming r)")
  case None
  then show ?thesis by (simp add: wake_stream_def)
next
  case (Some fd)
  have ok: "tables_ok {} r" "streams_ok r" using reactor_run_ok [OF assms(1)] by (simp_all add: reactor_ok_def)
  then have "(stream_id, fd) \<in> set (rx_streaming r)" using Some by (simp add: tables_ok_def fm_find_iff)
  then obtain e where e: "fm_find fd (rx_connections r) = Some e" "(stream_id, Some (en_serial e)) \<in> set (rx_issued r)"
    using ok(2) by (fastforce simp: streams_ok_def)
  have "made_for = Some (en_serial e)"
    using issued_unique [OF _ assms(2,3) e(2)] ok(2) by (simp add: streams_ok_def)
  then show ?thesis using e(1) Some by (auto simp: wake_stream_def)
qed

text \<open>C12: a reactor accounts for every connection it holds: each holds one slot of the server, so that all
  reactors together never hold more than the limit nor more than the source limit for one source, and the
  gauge of active connections is the size of the table.\<close>

theorem reactor_accounts_exact:
  assumes "reactor_run rc g s r others"
  shows "unat (ss_active_connections (rx_server r)) = length (rx_connections r) + held_slots others \<and>
    length (rx_connections r) + held_slots others \<le> unat g \<and>
    (\<forall>source. length (filter (\<lambda>(fd, e). ad_source_counted (en_admission e) \<and> ad_source (en_admission e) = source)
       (rx_connections r)) + held_from source others \<le> unat s) \<and>
    (rc_metrics rc \<longrightarrow> gauge_total (rx_metrics r) = int (length (rx_connections r)))"
proof -
  have ok: "accounts_ok rc g s others r" using reactor_run_ok [OF assms] by (simp add: reactor_ok_def)
  note run = admission_run_ok [of g s "rx_server r" "own_slots r + others"]
  have held: "\<forall>slot \<in># own_slots r. ad_held slot" using ok by (simp add: accounts_ok_def)
  then have "filter_mset ad_held (own_slots r) = own_slots r"
    using filter_mset_cong [of "own_slots r" "own_slots r" ad_held "\<lambda>_. True"] by simp
  then have all: "held_slots (own_slots r) = length (rx_connections r)" by (simp add: held_slots_def) (simp add: own_slots_def)
  have src: "held_from source (own_slots r) = length (filter (\<lambda>(fd, e). ad_source_counted (en_admission e) \<and>
      ad_source (en_admission e) = source) (rx_connections r))" for source
  proof -
    have "filter_mset (\<lambda>a. ad_held a \<and> ad_source_counted a \<and> ad_source a = source) (own_slots r) =
        filter_mset (\<lambda>a. ad_source_counted a \<and> ad_source a = source) (own_slots r)"
      using held by (intro filter_mset_cong) auto
    moreover have "size (filter_mset P (mset (map (en_admission \<circ> snd) m))) = length (filter (\<lambda>(fd, e). P (en_admission e)) m)"
      for P m by (induction m) auto
    ultimately show ?thesis by (simp add: held_from_def own_slots_def)
  qed
  have "held_slots (A + B) = held_slots A + held_slots B" "held_from source (A + B) = held_from source A + held_from source B"
    for A B source by (simp_all add: held_slots_def held_from_def)
  then show ?thesis using run ok all src by (simp add: accounts_ok_def admission_ok_def)
qed

text \<open>Destruction.\<close>

lemma destroy_entry_fields [simp]:
  "rx_connections (destroy_entry fd e r) = rx_connections r" "rx_epoll (destroy_entry fd e r) = rx_epoll r"
  "rx_metrics (destroy_entry fd e r) = rx_metrics r" "rx_alive (destroy_entry fd e r) = rx_alive r"
  by (simp_all add: destroy_entry_def)

lemma destroy_entries:
  assumes "admission_run g s (rx_server r) (mset (map (en_admission \<circ> snd) entries) + others)"
  shows "admission_run g s (rx_server (fold (\<lambda>(fd, e). destroy_entry fd e) entries r)) others"
  using assms
proof (induction entries arbitrary: r)
  case (Cons entry entries)
  obtain fd e where e: "entry = (fd, e)" by (cases entry)
  obtain slot' server' where rel: "admission_release (en_admission e) (rx_server r) = (slot', server')" by fastforce
  have "admission_run g s (rx_server (destroy_entry fd e r)) (mset (map (en_admission \<circ> snd) entries) + others)"
    using run_destroy [OF _ rel] Cons.prems by (simp add: e destroy_entry_def rel comp_def)
  from Cons.IH [OF this] show ?case by (simp add: e)
qed simp

lemma destroy_entries_fields:
  "rx_open (fold (\<lambda>(fd, e). destroy_entry fd e) entries r) = filter (\<lambda>fd. fd \<notin> fst ` set entries) (rx_open r)"
  "rx_epoll (fold (\<lambda>(fd, e). destroy_entry fd e) entries r) = rx_epoll r"
  "rx_metrics (fold (\<lambda>(fd, e). destroy_entry fd e) entries r) = rx_metrics r"
  "rx_alive (fold (\<lambda>(fd, e). destroy_entry fd e) entries r) = rx_alive r"
  by (induction entries arbitrary: r)
    (auto simp: removeAll_filter_not_eq destroy_entry_def intro: filter_cong)

text \<open>Destroying a reactor gives back everything it held: all its connections, registrations and
  descriptors are gone, the server counts exactly the slots held elsewhere, the gauge is back at zero,
  and late notifications find it dead.\<close>

theorem destroyed_reactor_holds_nothing:
  assumes "reactor_run rc g s r others"
  defines "r' \<equiv> destroy_reactor rc r"
  shows "rx_connections r' = [] \<and> rx_streaming r' = [] \<and> rx_epoll r' = [] \<and> rx_open r' = [] \<and>
    admission_run g s (rx_server r') others \<and> unat (ss_active_connections (rx_server r')) = held_slots others \<and>
    (rc_metrics rc \<longrightarrow> gauge_total (rx_metrics r') = 0) \<and> notify_stream enough_memory stream_id r' = r'"
proof -
  have ok: "tables_ok {} r" "accounts_ok rc g s others r" using reactor_run_ok [OF assms(1)] by (simp_all add: reactor_ok_def)
  define r1 where "r1 = (if rx_connections r \<noteq> []
    then record_metric rc (Connections_Active_Changed (- int (length (rx_connections r)))) (r\<lparr>rx_alive := False, rx_epoll := []\<rparr>)
    else r\<lparr>rx_alive := False, rx_epoll := []\<rparr>)"
  have r1: "rx_server r1 = rx_server r" "rx_open r1 = rx_open r" "rx_epoll r1 = []" "\<not> rx_alive r1"
    "rx_connections r1 = rx_connections r" by (simp_all add: r1_def)
  have m: "gauge_total (rx_metrics r1) = 0" if "rc_metrics rc"
    using ok(2) that by (simp add: r1_def accounts_ok_def gauge_total_record active_change_def)
  have r': "r' = (fold (\<lambda>(fd, e). destroy_entry fd e) (rx_connections r) r1)\<lparr>rx_connections := [], rx_streaming := []\<rparr>"
    by (simp add: assms(2) destroy_reactor_def r1_def Let_def)
  have "admission_run g s (rx_server r1) (mset (map (en_admission \<circ> snd) (rx_connections r)) + others)"
    using ok(2) r1(1) by (simp add: accounts_ok_def own_slots_def)
  then have "admission_run g s (rx_server r') others" using destroy_entries by (simp add: r')
  moreover have "rx_open r' = []" using ok(1) r1(2) by (simp add: r' destroy_entries_fields tables_ok_def)
  ultimately show ?thesis
    using admission_run_ok [of g s "rx_server r'" others] r1 m
    by (simp add: r' admission_ok_def notify_stream_eq destroy_entries_fields)
qed

text \<open>The deadline scan.\<close>

lemma close_connection_connections [simp]:
  "rx_connections (close_connection rc fd r) = fm_erase fd (rx_connections r)"
proof (cases "fm_find fd (rx_connections r)")
  case None
  then have "fm_erase fd (rx_connections r) = rx_connections r"
    by (auto simp: fm_erase_def fm_find_None image_iff intro!: filter_True)
  then show ?thesis using None by (simp add: close_connection_def)
qed (simp add: close_connection_def)

lemma call_connection_find:
  assumes "fm_ok (rx_connections r)"
  shows "fm_ok (rx_connections (call_connection rc f fd r))"
    "j \<noteq> fd \<Longrightarrow> fm_find j (rx_connections (call_connection rc f fd r)) = fm_find j (rx_connections r)"
    "fm_find fd (rx_connections r) = Some e \<Longrightarrow> fm_find fd (rx_connections (call_connection rc f fd r)) \<in>
       {None, Some (e\<lparr>en_connection := snd (f (en_config e) (en_connection e))\<rparr>)}"
    "fm_find fd (rx_connections r) = Some e \<Longrightarrow> fst (f (en_config e) (en_connection e)) = Interest_Done \<Longrightarrow>
       fm_find fd (rx_connections (call_connection rc f fd r)) = None"
  using assms
  by (auto simp: call_connection_def settle_def arm_def epoll_ctl_def fm_find_insert fm_find_erase Let_def
      split: option.split prod.split list.split)

lemma fold_call_other:
  "fm_ok (rx_connections r) \<Longrightarrow> j \<notin> set fds \<Longrightarrow>
     fm_find j (rx_connections (fold (call_connection rc f) fds r)) = fm_find j (rx_connections r)"
  by (induction fds arbitrary: r) (simp_all add: call_connection_find(1,2))

lemma fold_call_member:
  "fm_ok (rx_connections r) \<Longrightarrow> distinct fds \<Longrightarrow> j \<in> set fds \<Longrightarrow> fm_find j (rx_connections r) = Some e \<Longrightarrow>
     fm_find j (rx_connections (fold (call_connection rc f) fds r)) \<in>
       {None, Some (e\<lparr>en_connection := snd (f (en_config e) (en_connection e))\<rparr>)} \<and>
     (fst (f (en_config e) (en_connection e)) = Interest_Done \<longrightarrow>
       fm_find j (rx_connections (fold (call_connection rc f) fds r)) = None)"
proof (induction fds arbitrary: r)
  case (Cons fd fds)
  note c = call_connection_find [OF Cons.prems(1), where rc = rc and f = f and fd = fd]
  show ?case
  proof (cases "j = fd")
    case True
    then show ?thesis
      using fold_call_other [OF c(1), of j fds rc f] c(3,4) [of e] Cons.prems(2,4) by simp
  next
    case False
    then show ?thesis using Cons.IH [OF c(1)] c(2) [of j] Cons.prems(2-4) by simp
  qed
qed simp

text \<open>No connection outlives its deadline unanswered. After a scan every connection whose deadline had
  passed was given its expiry: it is gone, and surely so when the expiry ends it, or it is in the state
  the expiry put it in; a connection whose deadline had not passed is untouched.\<close>

theorem deadlines_enforced:
  fixes moment :: int
  assumes "reactor_run rc g s r others" and "fm_find fd (rx_connections r) = Some e"
  defines "after \<equiv> fm_find fd (rx_connections (scan_deadlines rc moment r))"
  shows "if cn_deadline (en_connection e) \<le> moment
    then (case on_deadline_expired (en_config e) (en_connection e) of (interest, c) \<Rightarrow>
        after \<in> {None, Some (e\<lparr>en_connection := c\<rparr>)} \<and> (interest = Interest_Done \<longrightarrow> after = None))
    else after = Some e"
proof -
  have f: "fm_ok (rx_connections r)" using reactor_run_ok [OF assms(1)] by (simp add: reactor_ok_def tables_ok_def)
  let ?fds = "map fst (filter (\<lambda>(fd, e). cn_deadline (en_connection e) \<le> moment) (rx_connections r))"
  have d: "distinct ?fds" using fm_ok_distinct [OF f] by (rule distinct_map_filter)
  have "fd \<in> set ?fds \<longleftrightarrow> cn_deadline (en_connection e) \<le> moment"
    using assms(2) f by (auto simp: fm_find_iff image_iff dest: eq_key_imp_eq_value [OF fm_ok_distinct [OF f]])
  then show ?thesis
    using fold_call_other [OF f, of fd ?fds rc on_deadline_expired]
      fold_call_member [OF f d _ assms(2), of rc on_deadline_expired] assms(2)
    by (auto simp: after_def scan_deadlines_def Let_def split: prod.split)
qed

section \<open>No wake-up is lost\<close>

text \<open>The interleavings of any number of publishers with the reactor. The list holds what remains of each
  \<open>notify_stream\<close> call under way, the last argument what remains of the reactor's turn at the event
  descriptor. A call may begin at any moment and any call may take its next step; \<open>wk_other\<close> is all
  other work, of the reactor between two turns or of anything else, which neither touches the ids nor
  the descriptor.\<close>

inductive wake_run :: "reactor_config \<Rightarrow> reactor \<Rightarrow> activity list \<Rightarrow> activity \<Rightarrow> bool" for rc where
  wk_start: "wake_run rc (new_reactor event_fd ctl server) [] Act_Done"
| wk_notify: "wake_run rc r publishers turn \<Longrightarrow>
    wake_run rc r (notify_activity enough_memory stream_id # publishers) turn"
| wk_publisher: "wake_run rc r publishers turn \<Longrightarrow> i < length publishers \<Longrightarrow> publishers ! i = Act_Next action \<Longrightarrow>
    wake_run rc (fst (action r)) (publishers[i := snd (action r)]) turn"
| wk_event: "wake_run rc r publishers Act_Done \<Longrightarrow> wake_run rc r publishers (wake_event_activity rc)"
| wk_reactor: "wake_run rc r publishers (Act_Next action) \<Longrightarrow>
    wake_run rc (fst (action r)) publishers (snd (action r))"
| wk_wake: "wake_run rc r publishers turn \<Longrightarrow> wake_run rc (reactor_wake r) publishers turn"
| wk_other: "wake_run rc r publishers turn \<Longrightarrow> rx_pending_streams r' = rx_pending_streams r \<Longrightarrow>
    rx_signalled r' = rx_signalled r \<Longrightarrow> wake_run rc r' publishers turn"

text \<open>The calls of connections leave the wake state alone.\<close>

definition wake_state :: "reactor \<Rightarrow> 64 word list \<times> bool" where
  "wake_state r = (rx_pending_streams r, rx_signalled r)"

lemma absorb_events_wake_state: "wake_state (fold (absorb_event rc fd) events r) = wake_state r"
proof -
  have "wake_state (absorb_event rc fd event r) = wake_state r" for event r
    by (cases event) (simp_all add: wake_state_def make_notifier_def record_metric_def Let_def)
  then show ?thesis by (induction events arbitrary: r) simp_all
qed

lemma close_connection_wake_state: "wake_state (close_connection rc fd r) = wake_state r"
  by (simp add: wake_state_def close_connection_def destroy_entry_def record_metric_def split: option.split)

lemma arm_wake_state: "wake_state (arm rc fd interest r) = wake_state r"
proof -
  obtain updated r1 where e: "epoll_ctl r = (updated, r1)" by fastforce
  then have "wake_state r1 = wake_state r" by (auto simp: epoll_ctl_def wake_state_def split: list.splits)
  moreover have "wake_state (arm rc fd interest r) = wake_state r1"
    using close_connection_wake_state [of rc fd r1] by (simp add: arm_def e) (simp add: wake_state_def)
  ultimately show ?thesis by simp
qed

lemma wake_stream_wake_state: "wake_state (wake_stream rc stream_id r) = wake_state r"
proof -
  have "wake_state (put_connection rc fd e c r) = wake_state r" for fd e c
    by (simp add: put_connection_def absorb_events_wake_state) (simp add: wake_state_def)
  then have "wake_state (call_connection rc f fd r) = wake_state r" for f fd
    by (simp add: call_connection_def settle_def close_connection_wake_state arm_wake_state split: option.split prod.split)
  then show ?thesis by (simp add: wake_stream_def split: option.split)
qed

text \<open>What can remain of a publisher's call.\<close>

definition to_signal :: activity where
  "to_signal = Act_Next (\<lambda>r. (signal_event_fd r, Act_Done))"

definition to_push :: "bool \<Rightarrow> 64 word \<Rightarrow> activity" where
  "to_push enough_memory stream_id = Act_Next (\<lambda>r. case push_pending enough_memory stream_id r of
     None \<Rightarrow> (r, Act_Done) | Some r \<Rightarrow> (r, to_signal))"

inductive publisher_rest :: "activity \<Rightarrow> bool" where
  "publisher_rest Act_Done"
| "publisher_rest (notify_activity enough_memory stream_id)"
| "publisher_rest (to_push enough_memory stream_id)"
| "publisher_rest to_signal"

lemma notify_activity_next:
  "notify_activity enough_memory stream_id =
     Act_Next (\<lambda>r. (r, if \<not> rx_alive r then Act_Done else to_push enough_memory stream_id))"
  unfolding notify_activity_def to_push_def to_signal_def by (rule refl)

inductive reactor_rest :: "reactor_config \<Rightarrow> activity \<Rightarrow> bool" for rc where
  "reactor_rest rc (wake_event_activity rc)"
| "reactor_rest rc (drain_activity rc)"
| "reactor_rest rc (wake_each rc pending)"

text \<open>The invariant of the protocol: an id that waits has a signal standing or still to come, or the reactor
  is about to take it.\<close>

definition wake_inv :: "reactor_config \<Rightarrow> reactor \<Rightarrow> activity list \<Rightarrow> activity \<Rightarrow> bool" where
  "wake_inv rc r publishers turn \<longleftrightarrow> list_all publisher_rest publishers \<and> reactor_rest rc turn \<and>
     (rx_pending_streams r = [] \<or> rx_signalled r \<or> to_signal \<in> set publishers \<or> turn = drain_activity rc)"

lemma wake_inv_publisher:
  assumes inv: "wake_inv rc r publishers turn" and i: "i < length publishers" "publishers ! i = Act_Next action"
  shows "wake_inv rc (fst (action r)) (publishers[i := snd (action r)]) turn"
proof (cases "publishers ! i = to_signal")
  case True
  then have "action r = (signal_event_fd r, Act_Done)" using i(2) by (simp add: to_signal_def)
  then show ?thesis
    using inv i(1) by (auto simp: wake_inv_def signal_event_fd_def list_all_length nth_list_update intro: publisher_rest.intros)
next
  case False
  have kept: "to_signal \<in> set (publishers[i := p])" if "to_signal \<in> set publishers" for p
    using that False i(1) by (metis in_set_conv_nth length_list_update nth_list_update_neq)
  have new: "to_signal \<in> set (publishers[i := to_signal])" using i(1) by (rule set_update_memI)
  have "publisher_rest (Act_Next action)" using inv i by (metis list_all_length wake_inv_def)
  then have "publisher_rest (snd (action r)) \<and> (wake_state (fst (action r)) = wake_state r \<or> snd (action r) = to_signal)"
  proof cases
    case (2 enough_memory stream_id)
    then show ?thesis by (auto simp: notify_activity_next intro: publisher_rest.intros)
  next
    case (3 enough_memory stream_id)
    then show ?thesis by (auto simp: to_push_def intro: publisher_rest.intros split: option.split)
  qed (use False i(2) in auto)
  then show ?thesis
    using inv i(1) kept new
    by (auto simp: wake_inv_def wake_state_def list_all_length nth_list_update)
qed

lemma wake_inv_reactor:
  assumes inv: "wake_inv rc r publishers (Act_Next action)"
  shows "wake_inv rc (fst (action r)) publishers (snd (action r))"
proof -
  have drain: "?thesis" if "Act_Next action = drain_activity rc"
    using that inv by (auto simp: drain_activity_def take_pending_def wake_inv_def intro: reactor_rest.intros)
  from inv have "reactor_rest rc (Act_Next action)" by (simp add: wake_inv_def)
  then show ?thesis
  proof cases
    case 1
    then show ?thesis using inv by (auto simp: wake_event_activity_def wake_inv_def intro: reactor_rest.intros)
  next
    case 2
    then show ?thesis by (rule drain)
  next
    case (3 pending)
    then obtain stream_id rest where "action = (\<lambda>r. (wake_stream rc stream_id r, wake_each rc rest))" by (cases pending) auto
    then show ?thesis
      using inv drain wake_stream_wake_state [of rc stream_id r]
      by (auto simp: wake_inv_def wake_state_def intro: reactor_rest.intros)
  qed
qed

lemma wake_run_inv: "wake_run rc r publishers turn \<Longrightarrow> wake_inv rc r publishers turn"
proof (induction rule: wake_run.induct)
  case (wk_start event_fd ctl server)
  then show ?case using reactor_rest.intros(3) [of rc "[]"] by (simp add: wake_inv_def new_reactor_def)
next
  case (wk_publisher r publishers turn i action)
  then show ?case using wake_inv_publisher by blast
next
  case (wk_reactor r publishers action)
  then show ?case using wake_inv_reactor by blast
next
  case (wk_event r publishers)
  then have "Act_Done \<noteq> drain_activity rc" by (simp add: drain_activity_def)
  then show ?case using wk_event.IH by (auto simp: wake_inv_def intro: reactor_rest.intros)
qed (auto simp: wake_inv_def reactor_wake_def signal_event_fd_def intro: publisher_rest.intros)

text \<open>C20: no wake-up is lost. However the calls of \<open>notify_stream\<close> by any number of publishers interleave, step
  by step, with each other and with the reactor's turns at the event descriptor, whenever a stream id
  waits to be served, the event descriptor is readable, so that the reactor's next wait returns at once,
  or a publisher has the signal as its next step, or the reactor's next step takes exactly the waiting ids
  and each of them is then served.\<close>

theorem no_wakeup_lost:
  assumes "wake_run rc r publishers turn" and "rx_pending_streams r \<noteq> []"
  shows "rx_signalled r \<or> Act_Next (\<lambda>r. (signal_event_fd r, Act_Done)) \<in> set publishers \<or>
    (\<exists>action. turn = Act_Next action \<and> action r = (r\<lparr>rx_pending_streams := []\<rparr>, wake_each rc (rx_pending_streams r)))"
  using wake_run_inv [OF assms(1)] assms(2)
  by (auto simp: wake_inv_def to_signal_def drain_activity_def take_pending_def)

section \<open>Examples\<close>

definition sample_server :: server_state where
  "sample_server = new_server_state 2 2"

definition sample_rc :: "conn_config \<Rightarrow> reactor_config" where
  "sample_rc cfg = \<lparr>rc_allow_list = [], rc_metrics = True, rc_listener_config = (\<lambda>_. cfg), rc_listener_tls = (\<lambda>_. False),
     rc_seconds = (\<lambda>_. 0)\<rparr>"

definition sample_arrival :: "socket \<Rightarrow> connection \<Rightarrow> arrival" where
  "sample_arrival so outside = \<lparr>ar_fd = 5, ar_peer = sample_peer, ar_socket = so, ar_tls = None, ar_outside = outside\<rparr>"

lemma sample_start: "reactor_run rc 2 2 (new_reactor 3 [] sample_server) {#}"
  unfolding sample_server_def by (intro rx_start run_start)

text \<open>A reactor that accepted one connection, with its descriptor 5.\<close>

lemma new_connection_deadline: "cx_now outside \<le> cn_deadline (new_connection cfg peer transport outside)"
  by (simp add: new_connection_def enter_state_def arm_deadline_def read_clock_def millis_def Let_def split: list.split)

lemma sample_accepted:
  fixes outside :: connection
  shows "\<exists>r e. reactor_run (sample_rc cfg) 2 2 r {#} \<and> rx_connections r = [(5, e)] \<and> rx_issued r = [] \<and> rx_next_stream_id r = 1 \<and>
     rx_streaming r = [] \<and> rx_listeners r = [(0, 4)] \<and> rx_event_fd r = 3 \<and> rx_alive r \<and> rx_pending_streams r = [] \<and>
     rx_ctl r = [] \<and> cx_now outside \<le> cn_deadline (en_connection e) \<and> en_serial e = 0 \<and> en_config e = cfg"
proof -
  fix so :: socket
  let ?rc = "sample_rc cfg" and ?a = "sample_arrival so outside"
  let ?r = "(new_reactor 3 [] sample_server)\<lparr>rx_listeners := [(0, 4)]\<rparr>"
  obtain slot server where ad: "admit sample_peer sample_server = (Inr slot, server)"
    by (auto simp: admit_def sample_server_def new_server_state_def sample_peer_def default_peer_def Let_def)
  have listen: "reactor_run ?rc 2 2 ?r {#}"
    by (rule rx_listen [OF sample_start, where listen_fd = 4 and listener = 0])
      (simp_all add: unused_fd_def new_reactor_def add_listener_def epoll_ctl_def)
  define e where "e = \<lparr>en_connection = new_connection cfg sample_peer (Transport_Plain so) outside, en_config = cfg,
    en_admission = slot, en_serial = 0\<rparr>"
  define r1 where "r1 = reactor_admit ?rc 0 ?a ?r"
  have r1: "rx_connections r1 = [(5, e)]" "rx_issued r1 = []" "rx_next_stream_id r1 = 1" "rx_streaming r1 = []"
    "rx_listeners r1 = [(0, 4)]" "rx_event_fd r1 = 3" "rx_alive r1" "rx_pending_streams r1 = []" "rx_ctl r1 = []"
    using ad by (simp_all add: r1_def reactor_admit_def admit_allowed_def start_connection_def sample_rc_def sample_arrival_def
        new_reactor_def epoll_ctl_def record_metric_def e_def admission_move_def Let_def)
  have late: "cx_now outside \<le> cn_deadline (en_connection e)" by (simp add: e_def new_connection_deadline)
  have acc: "accept_ready ?rc 0 [Accepted ?a] ?r = ((None, []), r1)"
    by (simp add: accept_ready_def kMaxAcceptsPerTurn_def numeral_eq_Suc r1_def)
      (simp add: unused_fd_def sample_arrival_def new_reactor_def)
  have "reactor_turn ?rc [(4, 1, None)] [Accepted ?a] (cx_now outside - 1) ?r = (None, r1)"
    using acc late r1(1) by (simp add: reactor_turn_def serve_ready_def is_listener_def scan_deadlines_def) (simp add: new_reactor_def)
  then have "reactor_run ?rc 2 2 r1 {#}" using rx_turn [OF listen] by (metis snd_conv)
  then show ?thesis using r1 late by (intro exI [of _ r1] exI [of _ e]) (simp add: e_def)
qed

text \<open>A publisher that did all of its three steps, and one that is still to signal.\<close>

lemma sample_pushed:
  fixes rc :: reactor_config
  defines "r \<equiv> new_reactor 3 [] sample_server"
  shows "wake_run rc (r\<lparr>rx_pending_streams := [7]\<rparr>) [to_signal] Act_Done"
proof -
  have "wake_run rc r [notify_activity True 7] Act_Done" unfolding r_def by (intro wk_notify wk_start)
  from wk_publisher [OF this, of 0] have "wake_run rc r [to_push True 7] Act_Done"
    by (simp add: notify_activity_next r_def new_reactor_def)
  from wk_publisher [OF this, of 0] show ?thesis by (simp add: to_push_def push_pending_def r_def new_reactor_def)
qed

theorem no_wakeup_lost_witness:
  "rx_pending_streams (notify_stream True 7 (new_reactor 3 [] sample_server)) = [7] \<and>
   rx_signalled (notify_stream True 7 (new_reactor 3 [] sample_server))"
proof -
  fix rc
  let ?r = "(new_reactor 3 [] sample_server)\<lparr>rx_pending_streams := [7]\<rparr>"
  have n: "notify_stream True 7 (new_reactor 3 [] sample_server) = signal_event_fd ?r"
    by (simp add: notify_stream_eq push_pending_def new_reactor_def)
  have "wake_run rc (signal_event_fd ?r) [Act_Done] Act_Done"
    using wk_publisher [OF sample_pushed [of rc], of 0 "\<lambda>r. (signal_event_fd r, Act_Done)"] by (simp add: to_signal_def)
  from no_wakeup_lost [OF this] show ?thesis by (simp add: n signal_event_fd_def)
qed

theorem reactor_tables_agree_witness:
  "\<forall>cfg. \<exists>r. reactor_run (sample_rc cfg) 2 2 r {#} \<and> map fst (rx_connections r) = [5] \<and> map fst (rx_epoll r) = [5] \<and> set (rx_open r) = {5}"
proof
  fix cfg
  obtain r e where r: "reactor_run (sample_rc cfg) 2 2 r {#}" "rx_connections r = [(5, e)]" using sample_accepted by blast
  show "\<exists>r. reactor_run (sample_rc cfg) 2 2 r {#} \<and> map fst (rx_connections r) = [5] \<and> map fst (rx_epoll r) = [5] \<and> set (rx_open r) = {5}"
    using reactor_tables_agree [OF r(1)] r by (intro exI [of _ r]) simp
qed

theorem reactor_accounts_exact_witness:
  "\<forall>cfg. \<exists>r. reactor_run (sample_rc cfg) 2 2 r {#} \<and> unat (ss_active_connections (rx_server r)) = 1 \<and> gauge_total (rx_metrics r) = 1"
proof
  fix cfg
  obtain r e where r: "reactor_run (sample_rc cfg) 2 2 r {#}" "rx_connections r = [(5, e)]" using sample_accepted by blast
  show "\<exists>r. reactor_run (sample_rc cfg) 2 2 r {#} \<and> unat (ss_active_connections (rx_server r)) = 1 \<and> gauge_total (rx_metrics r) = 1"
    using reactor_accounts_exact [OF r(1)] r by (intro exI [of _ r]) (simp add: sample_rc_def)
qed

theorem destroyed_reactor_holds_nothing_witness:
  "\<forall>cfg. \<exists>r. reactor_run (sample_rc cfg) 2 2 r {#} \<and> rx_connections r \<noteq> [] \<and>
     unat (ss_active_connections (rx_server (destroy_reactor (sample_rc cfg) r))) = 0"
proof
  fix cfg
  obtain r e where r: "reactor_run (sample_rc cfg) 2 2 r {#}" "rx_connections r = [(5, e)]" using sample_accepted by blast
  show "\<exists>r. reactor_run (sample_rc cfg) 2 2 r {#} \<and> rx_connections r \<noteq> [] \<and>
     unat (ss_active_connections (rx_server (destroy_reactor (sample_rc cfg) r))) = 0"
    using destroyed_reactor_holds_nothing [OF r(1)] r by (intro exI [of _ r]) simp
qed

theorem deadlines_enforced_witness:
  "\<forall>cfg. \<exists>r e. reactor_run (sample_rc cfg) 2 2 r {#} \<and> fm_find 5 (rx_connections r) = Some e \<and>
     fm_find 5 (rx_connections (scan_deadlines (sample_rc cfg) (cn_deadline (en_connection e) - 1) r)) = Some e"
proof
  fix cfg
  obtain r e where r: "reactor_run (sample_rc cfg) 2 2 r {#}" "rx_connections r = [(5, e)]" using sample_accepted by blast
  have f: "fm_find 5 (rx_connections r) = Some e" using r(2) by (simp add: fm_find_def)
  show "\<exists>r e. reactor_run (sample_rc cfg) 2 2 r {#} \<and> fm_find 5 (rx_connections r) = Some e \<and>
     fm_find 5 (rx_connections (scan_deadlines (sample_rc cfg) (cn_deadline (en_connection e) - 1) r)) = Some e"
    using deadlines_enforced [OF r(1) f, of "cn_deadline (en_connection e) - 1"] r(1) f by (intro exI [of _ r] exI [of _ e]) simp
qed

text \<open>A step that threw after it had asked for a notifier: the connection is closed, the notifier stays.\<close>

lemma sample_issued:
  "\<exists>r. reactor_run (sample_rc cfg) 2 2 r {#} \<and> rx_issued r = [(1, Some 0)] \<and> rx_connections r = []"
proof -
  obtain r e where r: "reactor_run (sample_rc cfg) 2 2 r {#}" "rx_connections r = [(5, e)]" "rx_issued r = []"
    "rx_next_stream_id r = 1" "rx_streaming r = []" "rx_listeners r = [(0, 4)]" "rx_event_fd r = 3" "en_serial e = 0"
    using sample_accepted by blast
  let ?c = "emit (Ev_Attached 9) (en_connection e)"
  let ?r = "fold (serve_ready (sample_rc cfg)) [(5, 1, Some ?c)] r"
  have "reactor_turn (sample_rc cfg) [(5, 1, Some ?c)] [] 0 r = (None, ?r)"
    "rx_issued ?r = [(1, Some 0)]" "rx_connections ?r = []"
    using r(2-8) by (simp_all add: reactor_turn_def serve_ready_def is_listener_def handle_connection_event_def fm_find_def
        put_connection_def emit_def make_notifier_def close_connection_def destroy_entry_def fm_erase_def scan_deadlines_def
        record_metric_def Let_def)
  then show ?thesis using rx_turn [OF r(1)] by (metis snd_conv)
qed

theorem stale_notification_harmless_witness:
  "\<forall>cfg. \<exists>r. reactor_run (sample_rc cfg) 2 2 r {#} \<and> rx_issued r = [(1, Some 0)] \<and> wake_stream (sample_rc cfg) 1 r = r"
proof
  fix cfg
  obtain r where r: "reactor_run (sample_rc cfg) 2 2 r {#}" "rx_issued r = [(1, Some 0)]" "rx_connections r = []"
    using sample_issued by blast
  then show "\<exists>r. reactor_run (sample_rc cfg) 2 2 r {#} \<and> rx_issued r = [(1, Some 0)] \<and> wake_stream (sample_rc cfg) 1 r = r"
    using stale_notification_harmless [OF r(1), of 1 "Some 0"] by (intro exI [of _ r]) simp
qed

end
