(* ===== verification/Http_Server.thy ===== *)
theory Http_Server
  imports Http_Socket Http_Reactor
begin

text \<open>
  \<open>server.cpp\<close>: starting, waiting for, stopping and destroying a server, its ports, and reloading TLS material.
  The operations act on a record that holds the members of \<open>Server\<close> and the kernel of \<open>Http_Socket\<close>. What
  \<open>start\<close> meets outside is a record \<open>startup\<close>: the TLS contexts that can be created, whether \<open>SO_REUSEPORT\<close> is
  supported (\<open>reuse_port_supported\<close> asks once per process), the number of processors, the descriptors and
  epoll answers each reactor gets or that its constructor throws, how many threads could be created where not
  all could, and the failure of a reactor that stopped before \<open>start\<close> returned.
\<close>

section \<open>State\<close>

record listener_state =
  ls_config :: listener
  ls_tls :: "nat option"
  ls_resolved_port :: "16 word"
  ls_per_reactor_sockets :: bool
  ls_is_unix :: bool
  ls_identity :: "identity option"
  ls_sockets :: "int list"

record server =
  sv_options :: options
  sv_state :: "server_state option"
  sv_listeners :: "listener_state list"
  sv_reactors :: "reactor list"
  sv_started :: bool
  sv_workers :: nat
  sv_kernel :: kernel
  sv_log :: "(log_level \<times> bytes) list"

record startup =
  su_pton4 :: "bytes \<Rightarrow> octets option"
  su_pton6 :: "bytes \<Rightarrow> octets option"
  su_tls_create :: "tls_options \<Rightarrow> nat option"
  su_reuse_port_supported :: bool
  su_hardware_concurrency :: nat
  su_reactors :: "(int \<times> bool list) option list"
  su_threads :: "nat option"
  su_failure :: "nat option"

datatype server_error =
    Started_Twice | Invalid_Options config_problem | Bad_Allow_List | Tls_Failed | Socket_Error socket_error
  | Reactor_Error reactor_error | Thread_Failed | Reactor_Stopped nat | No_Such_Listener nat nat
  | Metrics_After_Start | Metrics_Error metrics_error

definition new_server :: "options \<Rightarrow> kernel \<Rightarrow> server" where
  "new_server opts k =
     \<lparr>sv_options = opts, sv_state = None, sv_listeners = [], sv_reactors = [], sv_started = False, sv_workers = 0,
      sv_kernel = k, sv_log = []\<rparr>"

definition resolve_worker_count :: "nat \<Rightarrow> nat \<Rightarrow> nat" where
  "resolve_worker_count configured detected =
     (if configured > 0 then configured
      else min kMaxAutoWorkerThreads (max kMinAutoWorkerThreads (if detected = 0 then kMinAutoWorkerThreads else detected)))"

definition listener_url :: "listener_state \<Rightarrow> bytes" where
  "listener_url l =
     (if ls_is_unix l then ''unix:'' @ li_unix_socket_path (ls_config l)
      else
        let scheme = (if to_enabled (li_tls (ls_config l)) then ''https'' else ''http'');
            host = (if li_bind_address (ls_config l) = [] then kDefaultBindAddress else li_bind_address (ls_config l));
            host = (if find_char (CHR '':'') host \<noteq> None then ''['' @ host @ '']'' else host)
        in scheme @ ''://'' @ host @ '':'' @ nat_to_dec (unat (ls_resolved_port l)) @ ''/'')"

section \<open>Listeners\<close>

definition release_unix_path :: "listener_state \<Rightarrow> kernel \<Rightarrow> listener_state \<times> kernel" where
  "release_unix_path l k =
     (case ls_identity l of
        None \<Rightarrow> (l, k)
      | Some i \<Rightarrow>
          if li_unix_socket_path (ls_config l) = [] then (l, k)
          else (l\<lparr>ls_identity := None\<rparr>, unlink_owned_unix_socket (li_unix_socket_path (ls_config l)) i k))"

text \<open>The destructor: the name, then the sockets.\<close>

definition destroy_listener :: "listener_state \<Rightarrow> kernel \<Rightarrow> kernel" where
  "destroy_listener l k = (let (l, k) = release_unix_path l k in fold sys_close (ls_sockets l) k)"

definition bind_one ::
  "startup \<Rightarrow> options \<Rightarrow> 16 word \<Rightarrow> listener_state \<Rightarrow> kernel \<Rightarrow> (socket_error, int) expected \<times> listener_state \<times> kernel" where
  "bind_one su opts effective_port l k =
     (if ls_is_unix l
      then (case bind_unix_listener (li_unix_socket_path (ls_config l)) (so_listen_backlog opts) k of
              (Inl e, k) \<Rightarrow> (Inl e, l, k)
            | (Inr (fd, i), k) \<Rightarrow> (Inr fd, l\<lparr>ls_identity := Some i\<rparr>, k))
      else (case bind_tcp_listener (su_pton4 su) (su_pton6 su) (li_bind_address (ls_config l)) effective_port
                   (so_listen_backlog opts) (ls_per_reactor_sockets l) k of (r, k) \<Rightarrow> (r, l, k)))"

text \<open>The loop over the sockets of a listener, with the number still to bind. Where it throws, the listener
  built so far is returned too, for its destructor.\<close>

fun bind_sockets ::
  "startup \<Rightarrow> options \<Rightarrow> nat \<Rightarrow> nat \<Rightarrow> 16 word \<Rightarrow> listener_state \<Rightarrow> kernel \<Rightarrow> server_error option \<times> listener_state \<times> kernel" where
  "bind_sockets su opts 0 index effective_port l k = (None, l, k)"
| "bind_sockets su opts (Suc left) index effective_port l k =
     (case bind_one su opts effective_port l k of
        (Inl e, l, k) \<Rightarrow> (Some (Socket_Error e), l, k)
      | (Inr fd, l, k) \<Rightarrow>
          if index = 0 \<and> \<not> ls_is_unix l
          then (case resolved_port_of fd k of
                  (Inl e, k) \<Rightarrow> (Some (Socket_Error e), l, sys_close fd k)
                | (Inr port, k) \<Rightarrow>
                    bind_sockets su opts left (index + 1) port (l\<lparr>ls_resolved_port := port, ls_sockets := ls_sockets l @ [fd]\<rparr>) k)
          else bind_sockets su opts left (index + 1) effective_port (l\<lparr>ls_sockets := ls_sockets l @ [fd]\<rparr>) k)"

definition start_listener ::
  "startup \<Rightarrow> options \<Rightarrow> nat \<Rightarrow> listener \<Rightarrow> kernel \<Rightarrow> server_error option \<times> listener_state \<times> kernel" where
  "start_listener su opts workers configured k =
     (let l = \<lparr>ls_config = configured, ls_tls = None, ls_resolved_port = 0, ls_per_reactor_sockets = False,
            ls_is_unix = (li_unix_socket_path configured \<noteq> []), ls_identity = None, ls_sockets = []\<rparr>;
          context = (if to_enabled (li_tls configured) then map_option Some (su_tls_create su (li_tls configured)) else Some None)
      in case context of
        None \<Rightarrow> (Some Tls_Failed, l, k)
      | Some context \<Rightarrow>
          let per_reactor = so_reuse_port opts \<and> \<not> ls_is_unix l \<and> su_reuse_port_supported su;
              l = l\<lparr>ls_tls := context, ls_per_reactor_sockets := per_reactor\<rparr>
          in bind_sockets su opts (if per_reactor then workers else 1) 0 (of_nat (li_port configured)) l k)"

fun start_listeners ::
  "startup \<Rightarrow> options \<Rightarrow> nat \<Rightarrow> listener list \<Rightarrow> listener_state list \<Rightarrow> kernel \<Rightarrow>
     server_error option \<times> listener_state list \<times> kernel" where
  "start_listeners su opts workers [] ls k = (None, ls, k)"
| "start_listeners su opts workers (configured # rest) ls k =
     (case start_listener su opts workers configured k of
        (Some e, l, k) \<Rightarrow> (Some e, ls, destroy_listener l k)
      | (None, l, k) \<Rightarrow> start_listeners su opts workers rest (ls @ [l]) k)"

section \<open>Reactors\<close>

fun make_reactors ::
  "nat \<Rightarrow> (int \<times> bool list) option list \<Rightarrow> server_state \<Rightarrow> reactor list \<Rightarrow> server_error option \<times> reactor list" where
  "make_reactors 0 given st reactors = (None, reactors)"
| "make_reactors (Suc left) given st reactors =
     (case given of
        Some (event_fd, answers) # given \<Rightarrow> make_reactors left given st (reactors @ [new_reactor event_fd answers st])
      | _ \<Rightarrow> (Some (Reactor_Error EpollFailed), reactors))"

definition listen_fd_for :: "listener_state \<Rightarrow> nat \<Rightarrow> int" where
  "listen_fd_for l index = (if ls_per_reactor_sockets l then ls_sockets l ! index else hd (ls_sockets l))"

fun attach :: "nat \<Rightarrow> listener_state \<Rightarrow> nat \<Rightarrow> reactor list \<Rightarrow> (reactor_error, reactor list) expected" where
  "attach number l index [] = Inr []"
| "attach number l index (r # reactors) =
     (case add_listener number (listen_fd_for l index) r of
        Inl e \<Rightarrow> Inl e
      | Inr r \<Rightarrow> (case attach number l (index + 1) reactors of Inl e \<Rightarrow> Inl e | Inr reactors \<Rightarrow> Inr (r # reactors)))"

fun attach_all :: "nat \<Rightarrow> listener_state list \<Rightarrow> reactor list \<Rightarrow> (reactor_error, reactor list) expected" where
  "attach_all number [] reactors = Inr reactors"
| "attach_all number (l # ls) reactors =
     (case attach number l 0 reactors of Inl e \<Rightarrow> Inl e | Inr reactors \<Rightarrow> attach_all (number + 1) ls reactors)"

text \<open>The \<open>try\<close> block of \<open>start\<close> with its handler, which clears the reactors and then the listeners.\<close>

definition set_up ::
  "startup \<Rightarrow> options \<Rightarrow> nat \<Rightarrow> server_state \<Rightarrow> kernel \<Rightarrow> server_error option \<times> listener_state list \<times> reactor list \<times> kernel" where
  "set_up su opts workers st k =
     (case start_listeners su opts workers (so_listeners opts) [] k of
        (Some e, ls, k) \<Rightarrow> (Some e, [], [], fold destroy_listener ls k)
      | (None, ls, k) \<Rightarrow>
          (case make_reactors workers (su_reactors su) st [] of
             (Some e, _) \<Rightarrow> (Some e, [], [], fold destroy_listener ls k)
           | (None, reactors) \<Rightarrow>
               (case attach_all 0 ls reactors of
                  Inl e \<Rightarrow> (Some (Reactor_Error e), [], [], fold destroy_listener ls k)
                | Inr reactors \<Rightarrow> (None, ls, reactors, k))))"

section \<open>The server\<close>

definition public_bind_warning :: "bytes \<Rightarrow> bytes" where
  "public_bind_warning url = url @ '' is reachable from the network with neither TLS nor an allow list; '' @
     ''the status page and /metrics are unauthenticated''"

definition warns_of :: "startup \<Rightarrow> options \<Rightarrow> listener_state \<Rightarrow> bool" where
  "warns_of su opts l \<longleftrightarrow>
     (if \<not> so_warn_on_public_bind opts \<or> ls_is_unix l then False
      else if to_enabled (li_tls (ls_config l)) \<or> so_allow_cidrs opts \<noteq> [] then False
      else \<not> bind_address_is_local (su_pton4 su) (su_pton6 su) (li_bind_address (ls_config l)))"

definition listener_messages :: "startup \<Rightarrow> options \<Rightarrow> nat \<Rightarrow> listener_state \<Rightarrow> (log_level \<times> bytes) list" where
  "listener_messages su opts workers l =
     (let url = listener_url l;
          accept_model = (if ls_per_reactor_sockets l then ''SO_REUSEPORT socket per reactor''
                          else ''one shared socket, EPOLLEXCLUSIVE'')
      in (Log_Info, ''listening on '' @ url @ '' ('' @ nat_to_dec workers @ '' workers, '' @ accept_model @ '')'') #
         (if warns_of su opts l then [(Log_Warning, public_bind_warning url)] else []))"

text \<open>\<open>wait\<close>: the names, then the reactors, then the listeners.\<close>

definition server_wait :: "server \<Rightarrow> server_error option \<times> server" where
  "server_wait sv =
     (let (released, k) = fold (\<lambda>l (ls, k). let (l, k) = release_unix_path l k in (ls @ [l], k)) (sv_listeners sv) ([], sv_kernel sv);
          k = fold destroy_listener released k
      in (map_option Reactor_Stopped (Option.bind (sv_state sv) ss_failure),
          sv\<lparr>sv_workers := 0, sv_reactors := [], sv_listeners := [], sv_kernel := k\<rparr>))"

definition server_start :: "startup \<Rightarrow> server \<Rightarrow> server_error option \<times> server" where
  "server_start su sv =
     (if sv_started sv then (Some Started_Twice, sv)
      else
        let opts = sv_options sv;
            opts = (if so_listeners opts = [] then opts\<lparr>so_listeners := [default_listener]\<rparr> else opts);
            sv = sv\<lparr>sv_options := opts\<rparr>
        in case validate_server_options opts of
          Some problem \<Rightarrow> (Some (Invalid_Options problem), sv)
        | None \<Rightarrow>
            let st = new_server_state (of_nat (so_max_connections opts)) (of_nat (so_max_connections_per_source opts));
                sv = sv\<lparr>sv_state := Some st\<rparr>;
                workers = resolve_worker_count (so_worker_threads opts) (su_hardware_concurrency su)
            in case cidr_parse (su_pton4 su) (su_pton6 su) (so_allow_cidrs opts) [] of
              Inl _ \<Rightarrow> (Some Bad_Allow_List, sv)
            | Inr allow_list \<Rightarrow>
                (case set_up su opts workers st (sv_kernel sv) of
                   (Some e, ls, reactors, k) \<Rightarrow> (Some e, sv\<lparr>sv_listeners := ls, sv_reactors := reactors, sv_kernel := k\<rparr>)
                 | (None, ls, reactors, k) \<Rightarrow>
                     let messages = concat (map (listener_messages su opts workers) ls);
                         sv = sv\<lparr>sv_listeners := ls, sv_reactors := reactors, sv_kernel := k, sv_started := True\<rparr>
                     in case su_threads su of
                       Some spawned \<Rightarrow>
                         (Some Thread_Failed, sv\<lparr>sv_workers := min spawned workers, sv_state := Some (request_stop st)\<rparr>)
                     | None \<Rightarrow>
                         let sv = sv\<lparr>sv_workers := workers\<rparr> in
                         (case su_failure su of
                            Some error \<Rightarrow> server_wait (sv\<lparr>sv_state := Some (state_fail error st)\<rparr>)
                          | None \<Rightarrow> (None, sv\<lparr>sv_log := sv_log sv @ messages\<rparr>))))"

definition server_stop :: "server \<Rightarrow> server" where
  "server_stop sv = sv\<lparr>sv_state := map_option request_stop (sv_state sv), sv_reactors := map reactor_wake (sv_reactors sv)\<rparr>"

definition server_run :: "startup \<Rightarrow> server \<Rightarrow> server_error option \<times> server" where
  "server_run su sv =
     (if \<not> sv_started sv
      then (case server_start su sv of (Some e, sv) \<Rightarrow> (Some e, sv) | (None, sv) \<Rightarrow> server_wait sv)
      else server_wait sv)"

text \<open>The destructor stops the server; then the members go in reverse: the threads are joined, the reactors
  and the listeners destroyed.\<close>

definition destroy_server :: "server \<Rightarrow> kernel" where
  "destroy_server sv = (let sv = server_stop sv in fold destroy_listener (sv_listeners sv) (sv_kernel sv))"

definition server_port :: "server \<Rightarrow> 16 word" where
  "server_port sv = (case sv_listeners sv of [] \<Rightarrow> 0 | l # _ \<Rightarrow> ls_resolved_port l)"

definition server_port_of :: "nat \<Rightarrow> server \<Rightarrow> (server_error, 16 word) expected" where
  "server_port_of listener_index sv =
     (if listener_index \<ge> length (sv_listeners sv) then Inl (No_Such_Listener listener_index (length (sv_listeners sv)))
      else Inr (ls_resolved_port (sv_listeners sv ! listener_index)))"

text \<open>\<open>install_metrics\<close>: the counters of the server, the uptime, whose producer is known by its number, and the
  version of the library.\<close>

definition kLibraryName :: bytes where "kLibraryName = ''erikslund-http''"

definition install_metrics :: "nat \<Rightarrow> bytes \<Rightarrow> server \<Rightarrow> registry \<Rightarrow> (server_error, server_metrics \<times> registry) expected" where
  "install_metrics uptime version sv reg =
     (if sv_started sv then Inl Metrics_After_Start
      else case new_server_metrics reg of
        Inl e \<Rightarrow> Inl (Metrics_Error e)
      | Inr (m, reg) \<Rightarrow>
          (case gauge_fn ''uptime_seconds'' ''Seconds since the server registered its metrics'' (Some uptime) [] reg of
             Inl e \<Rightarrow> Inl (Metrics_Error e)
           | Inr reg \<Rightarrow>
               (case library_build_info kLibraryName version reg of
                  Inl e \<Rightarrow> Inl (Metrics_Error e)
                | Inr reg \<Rightarrow> Inr (m, reg))))"

text \<open>\<open>reload_tls\<close>: the contexts of the first loop, by the number of their listener, then the second loop.\<close>

fun load_contexts ::
  "(tls_options \<Rightarrow> nat option) \<Rightarrow> nat \<Rightarrow> listener_state list \<Rightarrow> (nat \<times> nat \<times> bytes) list \<Rightarrow> (nat \<times> nat \<times> bytes) list option" where
  "load_contexts create index [] loaded = Some loaded"
| "load_contexts create index (l # ls) loaded =
     (if \<not> to_enabled (li_tls (ls_config l)) then load_contexts create (index + 1) ls loaded
      else case create (li_tls (ls_config l)) of
        None \<Rightarrow> None
      | Some context \<Rightarrow> load_contexts create (index + 1) ls (loaded @ [(index, context, listener_url l)]))"

definition reload_message :: "bytes \<Rightarrow> log_level \<times> bytes" where
  "reload_message url = (Log_Info, ''reloaded the certificate for '' @ url)"

definition store_context :: "nat \<times> nat \<times> bytes \<Rightarrow> server \<Rightarrow> server" where
  "store_context entry sv =
     (case entry of (index, context, url) \<Rightarrow>
        sv\<lparr>sv_listeners := (sv_listeners sv)[index := (sv_listeners sv ! index)\<lparr>ls_tls := Some context\<rparr>],
           sv_log := sv_log sv @ [reload_message url]\<rparr>)"

definition reload_tls :: "(tls_options \<Rightarrow> nat option) \<Rightarrow> server \<Rightarrow> server_error option \<times> server" where
  "reload_tls create sv =
     (case load_contexts create 0 (sv_listeners sv) [] of
        None \<Rightarrow> (Some Tls_Failed, sv)
      | Some loaded \<Rightarrow> (None, fold store_context loaded sv))"

section \<open>What a server opens and closes\<close>

text \<open>The sockets of a listener and of a list of listeners, and that a listener remembers only a name of its own.\<close>

definition all_sockets :: "listener_state list \<Rightarrow> int list" where
  "all_sockets ls = concat (map ls_sockets ls)"

definition own_name :: "kernel \<Rightarrow> listener_state \<Rightarrow> bool" where
  "own_name k0 l \<longleftrightarrow> (\<forall>i. ls_identity l = Some i \<longrightarrow> kn_next_inode k0 \<le> id_inode i)"

definition owns :: "kernel \<Rightarrow> listener_state list \<Rightarrow> kernel \<Rightarrow> bool" where
  "owns k0 ls k \<longleftrightarrow> opened k0 (set (all_sockets ls)) k \<and> distinct (all_sockets ls) \<and> (\<forall>l \<in> set ls. own_name k0 l)"

lemma all_sockets_simps [simp]:
  "all_sockets [] = []" "all_sockets (l # ls) = ls_sockets l @ all_sockets ls" "all_sockets (ls @ ls') = all_sockets ls @ all_sockets ls'"
  by (simp_all add: all_sockets_def)

lemma opened_release:
  assumes "opened k0 own k" and "own_name k0 l" and "release_unix_path l k = (l', k')"
  shows "opened k0 own k' \<and> own_name k0 l' \<and> ls_sockets l' = ls_sockets l"
proof (cases "ls_identity l = None \<or> li_unix_socket_path (ls_config l) = []")
  case True
  then have "l' = l" "k' = k" using assms(3) by (auto simp: release_unix_path_def split: option.splits)
  then show ?thesis using assms by simp
next
  case False
  then obtain i where i: "ls_identity l = Some i" by auto
  then have "l' = l\<lparr>ls_identity := None\<rparr>" "k' = unlink_owned_unix_socket (li_unix_socket_path (ls_config l)) i k"
    using assms(3) False by (simp_all add: release_unix_path_def)
  then show ?thesis using opened_unlink [OF assms(1)] assms(2) i by (simp add: own_name_def)
qed

lemma opened_close_all:
  "opened k0 own k \<Longrightarrow> set fds \<subseteq> own \<Longrightarrow> distinct fds \<Longrightarrow> opened k0 (own - set fds) (fold sys_close fds k)"
proof (induction fds arbitrary: own k)
  case (Cons fd fds)
  have "opened k0 (own - {fd} - set fds) (fold sys_close fds (sys_close fd k))"
    by (rule Cons.IH [OF opened_close [OF Cons.prems(1)]]) (use Cons.prems(2,3) in auto)
  moreover have "own - {fd} - set fds = own - set (fd # fds)" by auto
  ultimately show ?case by simp
qed simp

lemma opened_destroy:
  assumes "opened k0 own k" and "own_name k0 l" and "set (ls_sockets l) \<subseteq> own" and "distinct (ls_sockets l)"
  shows "opened k0 (own - set (ls_sockets l)) (destroy_listener l k)"
proof -
  obtain l' k' where r: "release_unix_path l k = (l', k')" by fastforce
  then show ?thesis using opened_release [OF assms(1,2) r] opened_close_all assms(3,4) by (simp add: destroy_listener_def)
qed

lemma owns_destroy_all: "owns k0 ls k \<Longrightarrow> opened k0 {} (fold destroy_listener ls k)"
proof (induction ls arbitrary: k)
  case Nil
  then show ?case by (simp add: owns_def)
next
  case (Cons l ls)
  then have "opened k0 (set (all_sockets (l # ls)) - set (ls_sockets l)) (destroy_listener l k)"
    by (intro opened_destroy) (auto simp: owns_def)
  moreover have "set (all_sockets (l # ls)) - set (ls_sockets l) = set (all_sockets ls)"
    using Cons.prems by (auto simp: owns_def)
  ultimately show ?case using Cons by (simp add: owns_def)
qed

lemma opened_resolve:
  assumes "opened k0 own k" and "resolved_port_of fd k = (r, k')"
  shows "opened k0 own k'"
proof -
  have "\<exists>fs. k' = k\<lparr>kn_failures := fs\<rparr>"
    by (cases k rule: failure_cases) (use assms(2) in \<open>auto simp: resolved_port_of_def split: option.splits sockaddr.splits\<close>)
  then show ?thesis using opened_calm [OF assms(1)] by auto
qed

lemma opened_bind_one:
  assumes "opened k0 own k" and "own_name k0 l" and "bind_one su opts port l k = (r, l', k')"
  shows "ls_sockets l' = ls_sockets l \<and> own_name k0 l' \<and>
    (case r of Inl e \<Rightarrow> opened k0 own k' | Inr fd \<Rightarrow> opened k0 (insert fd own) k' \<and> fd \<notin> own)"
proof (cases "ls_is_unix l")
  case True
  obtain b k1 where b: "bind_unix_listener (li_unix_socket_path (ls_config l)) (so_listen_backlog opts) k = (b, k1)" by fastforce
  show ?thesis using assms True b opened_unix [OF assms(1) b]
    by (auto simp: bind_one_def own_name_def split: sum.splits)
next
  case False
  obtain b k1 where b: "bind_tcp_listener (su_pton4 su) (su_pton6 su) (li_bind_address (ls_config l)) port
      (so_listen_backlog opts) (ls_per_reactor_sockets l) k = (b, k1)" by fastforce
  show ?thesis using assms False b opened_tcp [OF assms(1) b] by (auto simp: bind_one_def)
qed

text \<open>Binding the sockets of a listener adds to \<open>own\<close> exactly the sockets the listener gains.\<close>

lemma opened_bind_sockets:
  assumes "bind_sockets su opts n index port l k = (r, l', k')" and "opened k0 (own \<union> set (ls_sockets l)) k"
    and "distinct (ls_sockets l)" and "own \<inter> set (ls_sockets l) = {}" and "own_name k0 l"
  shows "opened k0 (own \<union> set (ls_sockets l')) k' \<and> distinct (ls_sockets l') \<and> own \<inter> set (ls_sockets l') = {} \<and> own_name k0 l'"
  using assms
proof (induction n arbitrary: index port l k)
  case (Suc n)
  obtain b l1 k1 where b: "bind_one su opts port l k = (b, l1, k1)" by (metis prod_cases3)
  note o = opened_bind_one [OF Suc.prems(2,5) b]
  show ?case
  proof (cases b)
    case (Inl e)
    then show ?thesis using Suc.prems b o by simp
  next
    case (Inr fd)
    then have o1: "opened k0 (insert fd (own \<union> set (ls_sockets l))) k1" "fd \<notin> own \<union> set (ls_sockets l)" "ls_sockets l1 = ls_sockets l"
      "own_name k0 l1" using o by simp_all
    have un: "own \<union> set (ls_sockets l @ [fd]) = insert fd (own \<union> set (ls_sockets l))" by auto
    have grown: "distinct (ls_sockets l @ [fd])" "own \<inter> set (ls_sockets l @ [fd]) = {}" using Suc.prems(3,4) o1(2) by auto
    obtain p k2 where p: "resolved_port_of fd k1 = (p, k2)" by fastforce
    have o2: "opened k0 (insert fd (own \<union> set (ls_sockets l))) k2" by (rule opened_resolve [OF o1(1) p])
    consider (shared) "\<not> (index = 0 \<and> \<not> ls_is_unix l1)" | (unresolved) e where "index = 0 \<and> \<not> ls_is_unix l1" "p = Inl e"
      | (resolved) port' where "index = 0 \<and> \<not> ls_is_unix l1" "p = Inr port'" by (cases p; cases "index = 0 \<and> \<not> ls_is_unix l1") blast+
    then show ?thesis
    proof cases
      case shared
      then have "bind_sockets su opts n (index + 1) port (l1\<lparr>ls_sockets := ls_sockets l @ [fd]\<rparr>) k1 = (r, l', k')"
        using Suc.prems(1) b Inr o1(3) by (auto split: if_split_asm)
      then show ?thesis by (rule Suc.IH) (use o1 un grown in \<open>simp_all add: own_name_def\<close>)
    next
      case (unresolved e)
      have "opened k0 (insert fd (own \<union> set (ls_sockets l)) - {fd}) (sys_close fd k2)" by (rule opened_close [OF o2]) simp
      then show ?thesis using Suc.prems b p Inr unresolved o1 by simp
    next
      case (resolved port')
      then have "bind_sockets su opts n (index + 1) port' (l1\<lparr>ls_resolved_port := port', ls_sockets := ls_sockets l @ [fd]\<rparr>) k2 = (r, l', k')"
        using Suc.prems(1) b p Inr o1(3) by simp
      then show ?thesis by (rule Suc.IH) (use o1 o2 un grown in \<open>simp_all add: own_name_def\<close>)
    qed
  qed
qed simp

lemma opened_start_listener:
  assumes "start_listener su opts workers configured k = (r, l, k')" and "opened k0 own k"
  shows "opened k0 (own \<union> set (ls_sockets l)) k' \<and> distinct (ls_sockets l) \<and> own \<inter> set (ls_sockets l) = {} \<and> own_name k0 l"
proof -
  have idle: "?thesis" if "ls_sockets l = []" "ls_identity l = None" "k' = k"
    using that assms(2) by (simp add: own_name_def)
  let ?l = "\<lambda>context per. \<lparr>ls_config = configured, ls_tls = context, ls_resolved_port = 0, ls_per_reactor_sockets = per,
    ls_is_unix = (li_unix_socket_path configured \<noteq> []), ls_identity = None, ls_sockets = []\<rparr>"
  show ?thesis
  proof (cases "to_enabled (li_tls configured) \<and> su_tls_create su (li_tls configured) = None")
    case True
    then show ?thesis using assms(1) by (intro idle) (auto simp: start_listener_def Let_def)
  next
    case False
    then obtain ctx n port per where "bind_sockets su opts n 0 port (?l ctx per) k = (r, l, k')"
      using assms(1) by (auto simp: start_listener_def Let_def split: if_splits)
    then show ?thesis by (rule opened_bind_sockets) (use assms(2) in \<open>simp_all add: own_name_def\<close>)
  qed
qed

lemma owns_start_listeners:
  "start_listeners su opts workers cs ls k = (r, ls', k') \<Longrightarrow> owns k0 ls k \<Longrightarrow> owns k0 ls' k'"
proof (induction cs arbitrary: ls k)
  case (Cons c cs)
  obtain e l k1 where s: "start_listener su opts workers c k = (e, l, k1)" by (metis prod_cases3)
  have ow: "opened k0 (set (all_sockets ls)) k" "distinct (all_sockets ls)" "\<forall>l \<in> set ls. own_name k0 l"
    using Cons.prems(2) by (simp_all add: owns_def)
  note o = opened_start_listener [OF s ow(1)]
  show ?case
  proof (cases e)
    case None
    have "owns k0 (ls @ [l]) k1" using o ow by (auto simp: owns_def)
    then show ?thesis using Cons.IH Cons.prems(1) s None by simp
  next
    case (Some e')
    have "opened k0 (set (all_sockets ls) \<union> set (ls_sockets l) - set (ls_sockets l)) (destroy_listener l k1)"
      using o by (intro opened_destroy) auto
    moreover have "set (all_sockets ls) \<union> set (ls_sockets l) - set (ls_sockets l) = set (all_sockets ls)" using o by auto
    ultimately have "owns k0 ls (destroy_listener l k1)" using ow by (simp add: owns_def)
    then show ?thesis using Cons.prems(1) s Some by simp
  qed
qed simp

lemma owns_set_up:
  assumes "set_up su opts workers st k = (r, ls, reactors, k')" and "kernel_ok k" and "kn_others k = []"
  shows "owns k ls k' \<and> (r \<noteq> None \<longrightarrow> ls = [] \<and> reactors = [])"
proof -
  obtain e ls1 k1 where s: "start_listeners su opts workers (so_listeners opts) [] k = (e, ls1, k1)" by (metis prod_cases3)
  have "owns k [] k" using opened_start [OF assms(2,3)] by (simp add: owns_def)
  then have o: "owns k ls1 k1" by (rule owns_start_listeners [OF s])
  then have "owns k [] (fold destroy_listener ls1 k1)" using owns_destroy_all by (simp add: owns_def)
  then show ?thesis using assms(1) s o
    by (auto simp: set_up_def split: option.splits prod.splits sum.splits)
qed

lemma owns_release_all:
  "fold (\<lambda>l (ls, k). let (l, k) = release_unix_path l k in (ls @ [l], k)) ls (acc, k) = (ls', k') \<Longrightarrow>
   owns k0 (acc @ ls) k \<Longrightarrow> owns k0 ls' k'"
proof (induction ls arbitrary: acc k)
  case (Cons l ls)
  obtain l1 k1 where r: "release_unix_path l k = (l1, k1)" by fastforce
  have "opened k0 (set (all_sockets (acc @ l # ls))) k" "own_name k0 l" using Cons.prems(2) by (simp_all add: owns_def)
  from opened_release [OF this r] have "owns k0 ((acc @ [l1]) @ ls) k1" using Cons.prems(2) by (simp add: owns_def)
  then show ?case using Cons.prems(1) r by (intro Cons.IH [of "acc @ [l1]" k1]) simp_all
qed simp

lemma opened_wait: "owns k0 (sv_listeners sv) (sv_kernel sv) \<Longrightarrow> opened k0 {} (sv_kernel (snd (server_wait sv)))"
proof -
  assume o: "owns k0 (sv_listeners sv) (sv_kernel sv)"
  obtain ls k where f: "fold (\<lambda>l (ls, k). let (l, k) = release_unix_path l k in (ls @ [l], k)) (sv_listeners sv) ([], sv_kernel sv) = (ls, k)"
    by fastforce
  have "owns k0 ls k" by (rule owns_release_all [OF f]) (simp add: o)
  then show ?thesis using owns_destroy_all f by (simp add: server_wait_def)
qed

lemma server_wait_fields [simp]:
  "sv_listeners (snd (server_wait sv)) = []" "sv_reactors (snd (server_wait sv)) = []" "sv_workers (snd (server_wait sv)) = 0"
  by (simp_all add: server_wait_def split: prod.splits)

text \<open>\<open>start\<close> on a new server whose options are valid, from the end of its \<open>try\<close> block.\<close>

lemma server_start_set_up:
  assumes "opts' = (if so_listeners opts = [] then opts\<lparr>so_listeners := [default_listener]\<rparr> else opts)"
    and "validate_server_options opts' = None" "cidr_parse (su_pton4 su) (su_pton6 su) (so_allow_cidrs opts') [] = Inr rules"
    and "st = new_server_state (of_nat (so_max_connections opts')) (of_nat (so_max_connections_per_source opts'))"
    and "workers = resolve_worker_count (so_worker_threads opts') (su_hardware_concurrency su)"
    and "set_up su opts' workers st k = (e, ls, reactors, k')"
    and "sv = \<lparr>sv_options = opts', sv_state = Some st, sv_listeners = ls, sv_reactors = reactors, sv_started = True, sv_workers = 0,
      sv_kernel = k', sv_log = []\<rparr>"
  shows "server_start su (new_server opts k) = (case e of Some e \<Rightarrow> (Some e, sv\<lparr>sv_started := False\<rparr>)
      | None \<Rightarrow> (case su_threads su of
          Some spawned \<Rightarrow> (Some Thread_Failed, sv\<lparr>sv_workers := min spawned workers, sv_state := Some (request_stop st)\<rparr>)
        | None \<Rightarrow> (case su_failure su of
            Some error \<Rightarrow> server_wait (sv\<lparr>sv_workers := workers, sv_state := Some (state_fail error st)\<rparr>)
          | None \<Rightarrow> (None, sv\<lparr>sv_workers := workers, sv_log := concat (map (listener_messages su opts' workers) ls)\<rparr>))))"
  using assms(2,3,6)
  by (cases e; cases "su_threads su"; cases "su_failure su")
    (simp_all add: server_start_def new_server_def assms(1) [symmetric] assms(4,5) [symmetric] assms(7) Let_def)

lemma server_wait_failed: "sv_state sv = Some (state_fail error (new_server_state a b)) \<Longrightarrow> fst (server_wait sv) \<noteq> None"
  by (simp add: server_wait_def state_fail_def request_stop_def new_server_state_def split: prod.splits)

text \<open>The outcome of \<open>start\<close> on a new server, by where it ends.\<close>

lemma server_start_cases:
  assumes "server_start su (new_server opts k) = (r, sv)" and "kernel_ok k" and "kn_others k = []"
  obtains (refused) "r \<noteq> None" "sv_listeners sv = []" "sv_reactors sv = []" "sv_workers sv = 0"
      "owns k [] (sv_kernel sv)"
  | (started) opts' st workers ls reactors k' where
      "opts' = (if so_listeners opts = [] then opts\<lparr>so_listeners := [default_listener]\<rparr> else opts)"
      "validate_server_options opts' = None" "workers = resolve_worker_count (so_worker_threads opts') (su_hardware_concurrency su)"
      "set_up su opts' workers st k = (None, ls, reactors, k')" "owns k ls k'"
      "r = None \<or> su_threads su \<noteq> None" "sv_listeners sv = ls" "sv_reactors sv = reactors" "sv_kernel sv = k'" "sv_options sv = opts'"
      "r = None \<longrightarrow> sv_workers sv = workers \<and> sv_log sv = concat (map (listener_messages su opts' workers) ls)"
proof -
  define opts' where "opts' = (if so_listeners opts = [] then opts\<lparr>so_listeners := [default_listener]\<rparr> else opts)"
  define st where "st = new_server_state (of_nat (so_max_connections opts')) (of_nat (so_max_connections_per_source opts'))"
  define workers where "workers = resolve_worker_count (so_worker_threads opts') (su_hardware_concurrency su)"
  obtain e ls reactors k' where u: "set_up su opts' workers st k = (e, ls, reactors, k')" by (metis prod_cases4)
  have o: "owns k ls k'" "e \<noteq> None \<longrightarrow> ls = [] \<and> reactors = []" using owns_set_up [OF u assms(2,3)] by simp_all
  have k: "owns k [] k" using opened_start [OF assms(2,3)] by (simp add: owns_def)
  consider (invalid) "validate_server_options opts' \<noteq> None"
    | (cidr) error where "validate_server_options opts' = None" "cidr_parse (su_pton4 su) (su_pton6 su) (so_allow_cidrs opts') [] = Inl error"
    | (ready) rules where "validate_server_options opts' = None" "cidr_parse (su_pton4 su) (su_pton6 su) (so_allow_cidrs opts') [] = Inr rules"
    by (cases "cidr_parse (su_pton4 su) (su_pton6 su) (so_allow_cidrs opts') []") auto
  then show ?thesis
  proof cases
    case invalid
    then show ?thesis using assms(1) k refused
      by (auto simp: server_start_def new_server_def opts'_def [symmetric] Let_def)
  next
    case (cidr error)
    then show ?thesis using assms(1) k refused
      by (auto simp: server_start_def new_server_def opts'_def [symmetric] Let_def)
  next
    case (ready rules)
    let ?sv = "\<lparr>sv_options = opts', sv_state = Some st, sv_listeners = ls, sv_reactors = reactors, sv_started = True, sv_workers = 0,
      sv_kernel = k', sv_log = []\<rparr>"
    have eq: "(r, sv) = (case e of Some e \<Rightarrow> (Some e, ?sv\<lparr>sv_started := False\<rparr>)
      | None \<Rightarrow> (case su_threads su of
          Some spawned \<Rightarrow> (Some Thread_Failed, ?sv\<lparr>sv_workers := min spawned workers, sv_state := Some (request_stop st)\<rparr>)
        | None \<Rightarrow> (case su_failure su of
            Some error \<Rightarrow> server_wait (?sv\<lparr>sv_workers := workers, sv_state := Some (state_fail error st)\<rparr>)
          | None \<Rightarrow> (None, ?sv\<lparr>sv_workers := workers, sv_log := concat (map (listener_messages su opts' workers) ls)\<rparr>))))"
      unfolding assms(1) [symmetric] by (rule server_start_set_up [OF opts'_def ready st_def workers_def u refl])
    consider (thrown) e' where "e = Some e'" | (threads) spawned where "e = None" "su_threads su = Some spawned"
      | (stopped) error where "e = None" "su_threads su = None" "su_failure su = Some error"
      | (running) "e = None" "su_threads su = None" "su_failure su = None" by (cases e; cases "su_threads su"; cases "su_failure su") auto
    then show ?thesis
    proof cases
      case thrown
      then show ?thesis using eq o refused by simp
    next
      case threads
      then show ?thesis using eq ready(1) u o(1) started [OF opts'_def _ workers_def] by simp
    next
      case (stopped error)
      then have w: "(r, sv) = server_wait (?sv\<lparr>sv_workers := workers, sv_state := Some (state_fail error st)\<rparr>)" using eq by simp
      have "fst (server_wait (?sv\<lparr>sv_workers := workers, sv_state := Some (state_fail error st)\<rparr>)) \<noteq> None"
        by (rule server_wait_failed) (simp add: st_def)
      moreover have "opened k {} (sv_kernel sv)" using opened_wait w o(1) by (metis server.select_convs(3,7) server.update_convs(2,6) snd_conv)
      ultimately show ?thesis using refused w [symmetric] server_wait_fields by (metis all_sockets_simps(1) distinct.simps(1) empty_iff fst_conv list.set(1) owns_def snd_conv)
    next
      case running
      then show ?thesis using eq ready(1) u o(1) started [OF opts'_def _ workers_def] by simp
    qed
  qed
qed

text \<open>What a process that has closed everything leaves behind: the sockets are as they were, no name that was
  in use is gone, and no name accepts connections that did not before.\<close>

definition nothing_left :: "kernel \<Rightarrow> kernel \<Rightarrow> bool" where
  "nothing_left k0 k \<longleftrightarrow> kn_sockets k = kn_sockets k0 \<and>
     (\<forall>p f. kn_files k0 p = Some f \<and> (fl_live f \<or> \<not> fl_socket f) \<longrightarrow> kn_files k p = Some f) \<and>
     (\<forall>p f. kn_files k p = Some f \<and> fl_live f \<longrightarrow> kn_files k0 p = Some f)"

lemma opened_nothing_left:
  assumes "opened k0 {} k"
  shows "nothing_left k0 k"
proof -
  note o = openedD [OF assms]
  have "kn_sockets k = kn_sockets k0" using o(7) by auto
  moreover have "kn_files k p = Some f" if "kn_files k0 p = Some f" "fl_live f \<or> \<not> fl_socket f" for p f
  proof -
    have "\<not> reclaimable k0 p" using that by (auto simp: reclaimable_def)
    then show ?thesis using o(9) that(1) by simp
  qed
  moreover have "kn_files k0 p = Some f" if "kn_files k p = Some f" "fl_live f" for p f
    using o(10,11) [OF that(1)] that(2) by (cases "id_inode (fl_identity f) < kn_next_inode k0") (auto simp: not_less)
  ultimately show ?thesis unfolding nothing_left_def by blast
qed

text \<open>The names a server has bound: every file made since \<open>k0\<close> is the one a listener remembers, under its path.\<close>

definition binds_named :: "kernel \<Rightarrow> listener_state list \<Rightarrow> kernel \<Rightarrow> bool" where
  "binds_named k0 ls k \<longleftrightarrow> (\<forall>p f. kn_files k p = Some f \<longrightarrow> kn_next_inode k0 \<le> id_inode (fl_identity f) \<longrightarrow>
     p \<noteq> [] \<and> fl_socket f \<and> (\<exists>l \<in> set ls. li_unix_socket_path (ls_config l) = p \<and> ls_identity l = Some (fl_identity f)))"

lemma named_view:
  assumes "binds_named k0 ls k" "\<And>p. map_option (\<lambda>f. (fl_socket f, fl_identity f)) (kn_files k' p) =
      map_option (\<lambda>f. (fl_socket f, fl_identity f)) (kn_files k p)"
  shows "binds_named k0 ls k'"
  unfolding binds_named_def
proof (intro allI impI)
  fix p f
  assume f: "kn_files k' p = Some f" "kn_next_inode k0 \<le> id_inode (fl_identity f)"
  then obtain g where "kn_files k p = Some g" "fl_identity g = fl_identity f" "fl_socket g = fl_socket f"
    using assms(2) [of p] by (cases "kn_files k p") auto
  then show "p \<noteq> [] \<and> fl_socket f \<and> (\<exists>l \<in> set ls. li_unix_socket_path (ls_config l) = p \<and> ls_identity l = Some (fl_identity f))"
    using assms(1) f(2) by (metis binds_named_def)
qed

lemma named_files: "binds_named k0 ls k \<Longrightarrow> kn_files k' = kn_files k \<Longrightarrow> binds_named k0 ls k'"
  by (erule named_view) simp

lemma named_start: "kernel_ok k \<Longrightarrow> binds_named k ls k"
  unfolding binds_named_def kernel_ok_def by (meson leD)

lemma named_close [simp]: "binds_named k0 ls (sys_close fd k) \<longleftrightarrow> binds_named k0 ls k"
proof -
  have "map_option (\<lambda>f. (fl_socket f, fl_identity f)) (kn_files (sys_close fd k) p) =
      map_option (\<lambda>f. (fl_socket f, fl_identity f)) (kn_files k p)" for p
    by (cases "kn_files k p") (simp_all add: sys_close_file)
  then show ?thesis using named_view by metis
qed

lemma named_close_all [simp]: "binds_named k0 ls (fold sys_close fds k) \<longleftrightarrow> binds_named k0 ls k"
  by (induction fds arbitrary: k) simp_all

lemma quiet_close_all [simp]: "quiet (fold sys_close fds k) \<longleftrightarrow> quiet k"
  by (induction fds arbitrary: k) simp_all

text \<open>Releasing the name of a listener removes it, when no call fails.\<close>

lemma named_release:
  assumes "binds_named k0 (l # ls) k" "quiet k" "release_unix_path l k = (l', k')"
  shows "binds_named k0 ls k' \<and> quiet k' \<and> (ls_identity l' = None \<or> li_unix_socket_path (ls_config l') = []) \<and> ls_config l' = ls_config l"
proof (cases "ls_identity l = None \<or> li_unix_socket_path (ls_config l) = []")
  case True
  then have "l' = l" "k' = k" using assms(3) by (auto simp: release_unix_path_def split: option.splits)
  then show ?thesis using assms(1,2) True by (auto simp: binds_named_def)
next
  case False
  then obtain i where i: "ls_identity l = Some i" by auto
  let ?path = "li_unix_socket_path (ls_config l)"
  have r: "l' = l\<lparr>ls_identity := None\<rparr>" "k' = unlink_owned_unix_socket ?path i k"
    using assms(3) False i by (simp_all add: release_unix_path_def)
  note u = quiet_unlink_owned [OF assms(2), of ?path i, folded r(2)]
  have "binds_named k0 ls k'"
    unfolding binds_named_def
  proof (intro allI impI)
    fix p f
    assume f: "kn_files k' p = Some f" "kn_next_inode k0 \<le> id_inode (fl_identity f)"
    then have f0: "kn_files k p = Some f" using u by (auto split: option.splits if_splits)
    have "\<not> (p = ?path \<and> fl_identity f = i \<and> fl_socket f)"
      using u f(1) f0 by (auto simp: same_unix_socket_iff)
    then show "p \<noteq> [] \<and> fl_socket f \<and> (\<exists>l \<in> set ls. li_unix_socket_path (ls_config l) = p \<and> ls_identity l = Some (fl_identity f))"
      using assms(1) f0 f(2) i by (auto simp: binds_named_def)
  qed
  then show ?thesis using u r(1) by simp
qed

lemma named_destroy_all:
  "binds_named k0 ls k \<Longrightarrow> quiet k \<Longrightarrow> binds_named k0 [] (fold destroy_listener ls k) \<and> quiet (fold destroy_listener ls k)"
proof (induction ls arbitrary: k)
  case (Cons l ls)
  obtain l' k' where r: "release_unix_path l k = (l', k')" by fastforce
  from Cons.IH [of "destroy_listener l k"] named_release [OF Cons.prems r] show ?case by (simp add: destroy_listener_def r)
qed simp

lemma named_release_all:
  "fold (\<lambda>l (ls, k). let (l, k) = release_unix_path l k in (ls @ [l], k)) ls (acc, k) = (ls', k') \<Longrightarrow>
   binds_named k0 ls k \<Longrightarrow> quiet k \<Longrightarrow> binds_named k0 [] k' \<and> quiet k'"
proof (induction ls arbitrary: acc k)
  case (Cons l ls)
  obtain l1 k1 where r: "release_unix_path l k = (l1, k1)" by fastforce
  have "fold (\<lambda>l (ls, k). let (l, k) = release_unix_path l k in (ls @ [l], k)) ls (acc @ [l1], k1) = (ls', k')"
    using Cons.prems(1) r by simp
  then show ?case using Cons.IH named_release [OF Cons.prems(2,3) r] by blast
qed simp

text \<open>Binding keeps it, when it succeeds or when no call fails.\<close>

lemma named_bind_one:
  assumes "opened k0 own k" "binds_named k0 (l # ls) k" "bind_one su opts port l k = (r, l', k')" "quiet k \<or> (\<exists>fd. r = Inr fd)"
  shows "binds_named k0 (l' # ls) k' \<and> (quiet k \<longrightarrow> quiet k')"
proof (cases "ls_is_unix l")
  case True
  let ?path = "li_unix_socket_path (ls_config l)"
  obtain b k1 where b: "bind_unix_listener ?path (so_listen_backlog opts) k = (b, k1)" by fastforce
  have ok: "kernel_ok k" "kn_others k = []" using openedD(2,3) [OF assms(1)] by simp_all
  note q = quiet_bind_unix [OF b _ ok(1)]
  from b ok show ?thesis
  proof (cases rule: bind_unix_cases)
    case (listening s)
    then have l': "l' = l\<lparr>ls_identity := Some (new_identity k)\<rparr>" "k' = k1"
      using assms(3) True b by (simp_all add: bind_one_def)
    have "?path \<noteq> []" using b listening(1) by (auto simp: bind_unix_listener_def)
    then have "binds_named k0 (l' # ls) k'"
      using assms(2) listening(3) by (auto simp: binds_named_def l' bound_file_def split: if_splits)
    then show ?thesis using q l' by blast
  next
    case (failed e)
    then have l': "l' = l" "k' = k1" "r = Inl e" using assms(3) True b by (simp_all add: bind_one_def)
    then have "quiet k" using assms(4) by auto
    then have "quiet k'" "kn_files k' p = Some f \<Longrightarrow> kn_files k p = Some f" for p f using q failed(1) l'(2) by auto
    then show ?thesis using assms(2) l'(1) by (auto simp: binds_named_def)
  qed
next
  case False
  obtain b k1 where b: "bind_tcp_listener (su_pton4 su) (su_pton6 su) (li_bind_address (ls_config l)) port
      (so_listen_backlog opts) (ls_per_reactor_sockets l) k = (b, k1)" by fastforce
  have l': "l' = l" "k' = k1" using assms(3) False b by (simp_all add: bind_one_def)
  have "kn_files k1 = kn_files k"
    using b openedD(2) [OF assms(1)] by (cases rule: bind_tcp_cases) (auto simp: holding_def)
  then show ?thesis using assms(2) l' named_files quiet_bind_tcp [OF b] by blast
qed

lemma resolved_port_files: "resolved_port_of fd k = (r, k') \<Longrightarrow> kn_files k' = kn_files k"
  by (cases k rule: failure_cases) (auto simp: resolved_port_of_def split: option.splits sockaddr.splits)

lemma named_bind_sockets:
  assumes "bind_sockets su opts n index port l k = (r, l', k')" "opened k0 (own \<union> set (ls_sockets l)) k" "own_name k0 l"
    and "binds_named k0 (l # ls) k" "quiet k \<or> r = None"
  shows "binds_named k0 (l' # ls) k' \<and> (quiet k \<longrightarrow> quiet k')"
  using assms
proof (induction n arbitrary: index port l k)
  case (Suc n)
  obtain b l1 k1 where b: "bind_one su opts port l k = (b, l1, k1)" by (metis prod_cases3)
  note o = opened_bind_one [OF Suc.prems(2,3) b]
  note m = named_bind_one [OF Suc.prems(2,4) b]
  show ?case
  proof (cases b)
    case (Inl e)
    then show ?thesis using Suc.prems b m by auto
  next
    case (Inr fd)
    then have o1: "opened k0 (insert fd (own \<union> set (ls_sockets l))) k1" "ls_sockets l1 = ls_sockets l" "own_name k0 l1"
      and m1: "binds_named k0 (l1 # ls) k1" "quiet k \<longrightarrow> quiet k1" using o m by simp_all
    have same: "binds_named k0 (l1\<lparr>ls_sockets := ss\<rparr> # ls) k2" "binds_named k0 (l1\<lparr>ls_resolved_port := port', ls_sockets := ss\<rparr> # ls) k2"
      if "binds_named k0 (l1 # ls) k2" for ss port' k2
      using that by (simp_all add: binds_named_def)
    obtain p k2 where p: "resolved_port_of fd k1 = (p, k2)" by fastforce
    have o2: "opened k0 (insert fd (own \<union> set (ls_sockets l))) k2" by (rule opened_resolve [OF o1(1) p])
    have m2: "binds_named k0 (l1 # ls) k2" "quiet k \<longrightarrow> quiet k2"
      using m1 named_files resolved_port_files [OF p] quiet_resolved_port [OF _ p] by blast+
    consider (shared) "\<not> (index = 0 \<and> \<not> ls_is_unix l1)" | (unresolved) e where "index = 0 \<and> \<not> ls_is_unix l1" "p = Inl e"
      | (resolved) port' where "index = 0 \<and> \<not> ls_is_unix l1" "p = Inr port'" by (cases p; cases "index = 0 \<and> \<not> ls_is_unix l1") blast+
    then show ?thesis
    proof cases
      case shared
      then have e: "bind_sockets su opts n (index + 1) port (l1\<lparr>ls_sockets := ls_sockets l @ [fd]\<rparr>) k1 = (r, l', k')"
        using Suc.prems(1) b Inr o1(2) by (auto split: if_split_asm)
      have "binds_named k0 (l' # ls) k' \<and> (quiet k1 \<longrightarrow> quiet k')"
        using Suc.prems(5) m1 o1 same by (intro Suc.IH [OF e]) (auto simp: own_name_def insert_commute)
      then show ?thesis using m1(2) by blast
    next
      case (unresolved e)
      then show ?thesis using Suc.prems(1) b p Inr m2 by auto
    next
      case (resolved port')
      then have e: "bind_sockets su opts n (index + 1) port' (l1\<lparr>ls_resolved_port := port', ls_sockets := ls_sockets l @ [fd]\<rparr>) k2 = (r, l', k')"
        using Suc.prems(1) b p Inr o1(2) by simp
      have "binds_named k0 (l' # ls) k' \<and> (quiet k2 \<longrightarrow> quiet k')"
        using Suc.prems(5) m2 o1 o2 same by (intro Suc.IH [OF e]) (auto simp: own_name_def insert_commute)
      then show ?thesis using m2(2) by blast
    qed
  qed
qed simp

lemma named_start_listener:
  assumes "start_listener su opts workers configured k = (r, l, k')" "opened k0 own k" "binds_named k0 ls k" "quiet k \<or> r = None"
  shows "binds_named k0 (l # ls) k' \<and> (quiet k \<longrightarrow> quiet k')"
proof -
  let ?l = "\<lambda>context per. \<lparr>ls_config = configured, ls_tls = context, ls_resolved_port = 0, ls_per_reactor_sockets = per,
    ls_is_unix = (li_unix_socket_path configured \<noteq> []), ls_identity = None, ls_sockets = []\<rparr>"
  have new: "binds_named k0 (l0 # ls) k" for l0 using assms(3) by (auto simp: binds_named_def)
  show ?thesis
  proof (cases "to_enabled (li_tls configured) \<and> su_tls_create su (li_tls configured) = None")
    case True
    then have "k' = k" using assms(1) by (auto simp: start_listener_def Let_def)
    then show ?thesis using new by simp
  next
    case False
    then obtain ctx n port per where b: "bind_sockets su opts n 0 port (?l ctx per) k = (r, l, k')"
      using assms(1) by (auto simp: start_listener_def Let_def split: if_splits)
    show ?thesis
      by (rule named_bind_sockets [OF b, of k0 own]) (use assms(2,4) new in \<open>simp_all add: own_name_def\<close>)
  qed
qed

lemma named_start_listeners:
  "start_listeners su opts workers cs ls k = (r, ls', k') \<Longrightarrow> owns k0 ls k \<Longrightarrow> binds_named k0 ls k \<Longrightarrow> quiet k \<or> r = None \<Longrightarrow>
   binds_named k0 ls' k' \<and> (quiet k \<longrightarrow> quiet k')"
proof (induction cs arbitrary: ls k)
  case (Cons c cs)
  obtain e l k1 where s: "start_listener su opts workers c k = (e, l, k1)" by (metis prod_cases3)
  have ow: "opened k0 (set (all_sockets ls)) k" "distinct (all_sockets ls)" "\<forall>l \<in> set ls. own_name k0 l"
    using Cons.prems(2) by (simp_all add: owns_def)
  note o = opened_start_listener [OF s ow(1)]
  note m = named_start_listener [OF s ow(1) Cons.prems(3)]
  show ?case
  proof (cases e)
    case None
    have rest: "start_listeners su opts workers cs (ls @ [l]) k1 = (r, ls', k')" using Cons.prems(1) s None by simp
    have "owns k0 (ls @ [l]) k1" using o ow by (auto simp: owns_def)
    moreover have "binds_named k0 (ls @ [l]) k1" "quiet k \<longrightarrow> quiet k1" using m None by (auto simp: binds_named_def)
    ultimately show ?thesis using Cons.IH [OF rest] Cons.prems(4) by blast
  next
    case (Some e')
    then have q: "quiet k" using Cons.prems(1,4) s by auto
    then have m1: "binds_named k0 (l # ls) k1" "quiet k1" using m by auto
    obtain l2 k2 where r: "release_unix_path l k1 = (l2, k2)" by fastforce
    have "binds_named k0 ls (destroy_listener l k1) \<and> quiet (destroy_listener l k1)"
      using named_release [OF m1 r] by (simp add: destroy_listener_def r)
    then show ?thesis using Cons.prems(1) s Some by simp
  qed
qed simp

lemma named_set_up:
  assumes "set_up su opts workers st k = (r, ls, reactors, k')" "kernel_ok k" "kn_others k = []" "quiet k \<or> r = None"
  shows "binds_named k ls k' \<and> (quiet k \<longrightarrow> quiet k')"
proof -
  obtain e ls1 k1 where s: "start_listeners su opts workers (so_listeners opts) [] k = (e, ls1, k1)" by (metis prod_cases3)
  have "owns k [] k" using opened_start [OF assms(2,3)] by (simp add: owns_def)
  then have m: "quiet k \<or> e = None \<Longrightarrow> binds_named k ls1 k1 \<and> (quiet k \<longrightarrow> quiet k1)"
    using named_start_listeners [OF s _ named_start [OF assms(2)]] by blast
  show ?thesis
  proof (cases r)
    case None
    then have "e = None" "ls = ls1" "k' = k1" using assms(1) s by (auto simp: set_up_def split: option.splits prod.splits sum.splits)
    then show ?thesis using m by simp
  next
    case (Some error)
    then have "quiet k" using assms(4) by simp
    moreover have "ls = []" "k' = fold destroy_listener ls1 k1"
      using assms(1) s Some by (auto simp: set_up_def split: option.splits prod.splits sum.splits)
    ultimately show ?thesis using m named_destroy_all by blast
  qed
qed

text \<open>Nothing a process had made is left: every name there is was there before.\<close>

lemma named_none_new:
  assumes "opened k0 {} k" "binds_named k0 [] k" "kn_files k p = Some f"
  shows "kn_files k0 p = Some f"
proof (rule openedD(10) [OF assms(1,3)])
  show "id_inode (fl_identity f) < kn_next_inode k0" using assms(2,3) unfolding binds_named_def by (metis empty_iff list.set(1) not_less)
qed

lemma named_wait:
  assumes "binds_named k0 (sv_listeners sv) (sv_kernel sv)" "quiet (sv_kernel sv)"
  shows "binds_named k0 [] (sv_kernel (snd (server_wait sv))) \<and> quiet (sv_kernel (snd (server_wait sv)))"
proof -
  obtain ls k where f: "fold (\<lambda>l (ls, k). let (l, k) = release_unix_path l k in (ls @ [l], k)) (sv_listeners sv) ([], sv_kernel sv) = (ls, k)"
    by fastforce
  have "binds_named k0 ls k" "quiet k" using named_release_all [OF f assms] by (auto simp: binds_named_def)
  then show ?thesis using named_destroy_all f by (simp add: server_wait_def)
qed

lemma named_server_start:
  assumes "server_start su (new_server opts k) = (r, sv)" "kernel_ok k" "kn_others k = []" "quiet k \<or> r = None"
  shows "binds_named k (sv_listeners sv) (sv_kernel sv) \<and> (quiet k \<longrightarrow> quiet (sv_kernel sv))"
proof -
  define opts' where "opts' = (if so_listeners opts = [] then opts\<lparr>so_listeners := [default_listener]\<rparr> else opts)"
  define st where "st = new_server_state (of_nat (so_max_connections opts')) (of_nat (so_max_connections_per_source opts'))"
  define workers where "workers = resolve_worker_count (so_worker_threads opts') (su_hardware_concurrency su)"
  obtain e ls reactors k' where u: "set_up su opts' workers st k = (e, ls, reactors, k')" by (metis prod_cases4)
  note m = named_set_up [OF u assms(2,3)]
  have start: "(r, sv) = server_start su (new_server opts k)" using assms(1) by simp
  show ?thesis
  proof (cases "validate_server_options opts' = None \<and> (\<exists>rules. cidr_parse (su_pton4 su) (su_pton6 su) (so_allow_cidrs opts') [] = Inr rules)")
    case False
    then have "sv_kernel sv = k"
      using start by (cases "cidr_parse (su_pton4 su) (su_pton6 su) (so_allow_cidrs opts') []"; cases "validate_server_options opts'")
        (auto simp: server_start_def new_server_def opts'_def [symmetric] Let_def)
    then show ?thesis using named_start [OF assms(2)] by simp
  next
    case True
    then obtain rules where valid: "validate_server_options opts' = None"
      "cidr_parse (su_pton4 su) (su_pton6 su) (so_allow_cidrs opts') [] = Inr rules" by blast
    let ?sv = "\<lparr>sv_options = opts', sv_state = Some st, sv_listeners = ls, sv_reactors = reactors, sv_started = True, sv_workers = 0,
      sv_kernel = k', sv_log = []\<rparr>"
    note eq = server_start_set_up [OF opts'_def valid st_def workers_def u refl, folded start]
    show ?thesis
    proof (cases "e = None \<and> su_threads su = None \<and> su_failure su \<noteq> None")
      case stopped: True
      then obtain error where "su_failure su = Some error" by blast
      let ?sw = "?sv\<lparr>sv_workers := workers, sv_state := Some (state_fail error st)\<rparr>"
      have w: "r = fst (server_wait ?sw)" "sv = snd (server_wait ?sw)"
        using eq stopped \<open>su_failure su = Some error\<close> by (simp_all add: prod_eq_iff)
      have "fst (server_wait ?sw) \<noteq> None" by (rule server_wait_failed) (simp add: st_def)
      then have "quiet k" using assms(4) w(1) by metis
      moreover have "binds_named k (sv_listeners ?sw) (sv_kernel ?sw)" "quiet (sv_kernel ?sw)" using m stopped \<open>quiet k\<close> by simp_all
      from named_wait [OF this] have "binds_named k [] (sv_kernel sv)" "quiet (sv_kernel sv)" by (simp_all add: w(2))
      moreover have "sv_listeners sv = []" unfolding w(2) by (rule server_wait_fields)
      ultimately show ?thesis by simp
    next
      case False
      then have "sv_listeners sv = ls" "sv_kernel sv = k'" "e = r \<or> e = None"
        using eq by (cases e; cases "su_threads su"; cases "su_failure su"; simp)+
      then show ?thesis using m assms(4) by auto
    qed
  qed
qed


text \<open>The first loop of \<open>reload_tls\<close> fails with the first context it cannot create, and the second replaces the
  context of one listener after the other.\<close>

definition uses_tls :: "listener_state \<Rightarrow> bool" where
  "uses_tls l \<longleftrightarrow> to_enabled (li_tls (ls_config l))"

definition reloaded :: "(tls_options \<Rightarrow> nat option) \<Rightarrow> listener_state \<Rightarrow> listener_state" where
  "reloaded create l = (if uses_tls l then l\<lparr>ls_tls := create (li_tls (ls_config l))\<rparr> else l)"

definition new_contexts :: "(tls_options \<Rightarrow> nat option) \<Rightarrow> nat \<Rightarrow> listener_state list \<Rightarrow> (nat \<times> nat \<times> bytes) list" where
  "new_contexts create index ls =
     map (\<lambda>(n, l). (n, the (create (li_tls (ls_config l))), listener_url l)) (filter (uses_tls \<circ> snd) (enumerate index ls))"

lemma new_contexts_simps [simp]:
  "new_contexts create index [] = []"
  "new_contexts create index (l # ls) =
     (if uses_tls l then [(index, the (create (li_tls (ls_config l))), listener_url l)] else []) @ new_contexts create (Suc index) ls"
  by (simp_all add: new_contexts_def)

lemma load_contexts_eq:
  "load_contexts create index ls loaded =
     (if \<exists>l \<in> set ls. uses_tls l \<and> create (li_tls (ls_config l)) = None then None else Some (loaded @ new_contexts create index ls))"
  by (induction create index ls loaded rule: load_contexts.induct) (auto simp: uses_tls_def split: option.split)

lemma fold_store_context:
  assumes "\<forall>l \<in> set ls. uses_tls l \<longrightarrow> create (li_tls (ls_config l)) \<noteq> None" and "sv_listeners sv = before @ ls"
  shows "fold store_context (new_contexts create (length before) ls) sv =
    sv\<lparr>sv_listeners := before @ map (reloaded create) ls,
       sv_log := sv_log sv @ map (reload_message \<circ> listener_url) (filter uses_tls ls)\<rparr>"
  using assms
proof (induction ls arbitrary: before sv)
  case Nil
  then show ?case by (cases sv) simp
next
  case (Cons l ls)
  let ?sv = "if uses_tls l then store_context (length before, the (create (li_tls (ls_config l))), listener_url l) sv else sv"
  have listeners: "sv_listeners ?sv = (before @ [reloaded create l]) @ ls"
    using Cons.prems by (auto simp: store_context_def reloaded_def)
  have "fold store_context (new_contexts create (length before) (l # ls)) sv =
      fold store_context (new_contexts create (length (before @ [reloaded create l])) ls) ?sv" by simp
  also have "\<dots> = ?sv\<lparr>sv_listeners := (before @ [reloaded create l]) @ map (reloaded create) ls,
      sv_log := sv_log ?sv @ map (reload_message \<circ> listener_url) (filter uses_tls ls)\<rparr>"
    using Cons.prems(1) by (intro Cons.IH listeners) simp
  also have "\<dots> = sv\<lparr>sv_listeners := before @ map (reloaded create) (l # ls),
      sv_log := sv_log sv @ map (reload_message \<circ> listener_url) (filter uses_tls (l # ls))\<rparr>"
    by (cases sv) (simp add: store_context_def)
  finally show ?case .
qed

text \<open>C28: certificates are reloaded all together or not at all. When the new context of any listener cannot be
  created, every listener keeps the context it had; otherwise every TLS listener has the new one and the
  others are untouched.\<close>

theorem reload_tls_all_or_nothing:
  "reload_tls create sv =
     (if \<exists>l \<in> set (sv_listeners sv). to_enabled (li_tls (ls_config l)) \<and> create (li_tls (ls_config l)) = None
      then (Some Tls_Failed, sv)
      else (None, sv\<lparr>sv_listeners := map (\<lambda>l. if to_enabled (li_tls (ls_config l))
          then l\<lparr>ls_tls := create (li_tls (ls_config l))\<rparr> else l) (sv_listeners sv),
        sv_log := sv_log sv @ map (reload_message \<circ> listener_url)
          (filter (\<lambda>l. to_enabled (li_tls (ls_config l))) (sv_listeners sv))\<rparr>))"
proof -
  have u: "uses_tls = (\<lambda>l. to_enabled (li_tls (ls_config l)))" by (rule ext) (simp add: uses_tls_def)
  have r: "reloaded create = (\<lambda>l. if to_enabled (li_tls (ls_config l)) then l\<lparr>ls_tls := create (li_tls (ls_config l))\<rparr> else l)"
    by (rule ext) (simp add: reloaded_def u)
  show ?thesis
    using fold_store_context [of "sv_listeners sv" create sv "[]", unfolded u r] by (auto simp: reload_tls_def load_contexts_eq u)
qed

section \<open>What a started server listens on\<close>

text \<open>Sockets that are open stay as they are.\<close>

definition kept :: "kernel \<Rightarrow> kernel \<Rightarrow> bool" where
  "kept k k' \<longleftrightarrow> (\<forall>fd s. kn_sockets k fd = Some s \<longrightarrow> kn_sockets k' fd = Some s)"

lemma kept_refl [simp]: "kept k k"
  by (simp add: kept_def)

lemma kept_trans: "kept k k' \<Longrightarrow> kept k' k'' \<Longrightarrow> kept k k''"
  by (simp add: kept_def)

text \<open>A socket of a listener: it accepts connections with the configured backlog, and a TCP socket is bound to the
  configured address and the port the listener reports.\<close>

definition serving :: "startup \<Rightarrow> options \<Rightarrow> listener_state \<Rightarrow> open_socket \<Rightarrow> bool" where
  "serving su opts l s \<longleftrightarrow> os_backlog s = Some (so_listen_backlog opts) \<and>
     (\<not> ls_is_unix l \<longrightarrow>
        (\<exists>port address got. fill_bind_address (su_pton4 su) (su_pton6 su) (li_bind_address (ls_config l)) port = Inr address \<and>
           os_address s = Some got \<and> sin_addr got = sin_addr address \<and> is_Sockaddr_In got = is_Sockaddr_In address \<and>
           is_Sockaddr_In6 got = is_Sockaddr_In6 address \<and> ntohs (sin_port got) = ls_resolved_port l))"

definition serves :: "startup \<Rightarrow> options \<Rightarrow> kernel \<Rightarrow> listener_state \<Rightarrow> bool" where
  "serves su opts k l \<longleftrightarrow> (\<forall>fd \<in> set (ls_sockets l). \<exists>s. kn_sockets k fd = Some s \<and> serving su opts l s)"

lemma serves_kept: "serves su opts k l \<Longrightarrow> kept k k' \<Longrightarrow> serves su opts k' l"
  by (fastforce simp: serves_def kept_def)

lemma bound_port:
  assumes "fill_bind_address pton4 pton6 bind_address port = Inr address" and "bound_to ports address got" and "0 \<notin> ports"
  shows "ntohs (sin_port got) \<noteq> 0" and "port \<noteq> 0 \<Longrightarrow> ntohs (sin_port got) = port"
proof -
  have p: "sin_port address = htons port" using assms(1) by (auto simp: fill_bind_address_def split: if_splits option.splits)
  have "ntohs 0 = 0" "htons 0 = 0" by (simp_all add: ntohs_def htons_def)
  then have z: "htons w = 0 \<longleftrightarrow> w = 0" for w by (metis ntohs_htons)
  show "port \<noteq> 0 \<Longrightarrow> ntohs (sin_port got) = port" using assms(2) p z by (simp add: bound_to_def)
  show "ntohs (sin_port got) \<noteq> 0"
  proof (cases "port = 0")
    case True
    then have "ntohs (sin_port got) \<in> insert 32768 ports" using assms(2) p z by (simp add: bound_to_def)
    then show ?thesis using assms(3) by auto
  qed (use assms(2) p z in \<open>simp add: bound_to_def\<close>)
qed

lemma kept_upd: "kn_sockets k fd = None \<Longrightarrow> kn_sockets k' = (kn_sockets k)(fd \<mapsto> s) \<Longrightarrow> kept k k'"
  by (auto simp: kept_def)

lemma bind_one_serving:
  assumes "bind_one su opts port l k = (Inr fd, l', k')" and "opened k0 own k" and "0 \<notin> set (kn_ports k0)"
  obtains s where "kn_sockets k' fd = Some s" "kept k k'" "os_backlog s = Some (so_listen_backlog opts)"
    "l' = l\<lparr>ls_identity := ls_identity l'\<rparr>"
    "\<not> ls_is_unix l \<Longrightarrow> \<exists>address got. fill_bind_address (su_pton4 su) (su_pton6 su) (li_bind_address (ls_config l)) port = Inr address \<and>
       os_address s = Some got \<and> bound_to (set (kn_ports k)) address got"
proof (cases "ls_is_unix l")
  case True
  obtain b k1 where b: "bind_unix_listener (li_unix_socket_path (ls_config l)) (so_listen_backlog opts) k = (b, k1)" by fastforce
  then obtain i where i: "b = Inr (fd, i)" "l' = l\<lparr>ls_identity := Some i\<rparr>" "k1 = k'"
    using assms(1) True by (auto simp: bind_one_def split: sum.splits)
  from b openedD(2,3) [OF assms(2)] show ?thesis
  proof (cases rule: bind_unix_cases)
    case (listening s)
    then show ?thesis using that [of s] i True opened_fresh_fd [OF assms(2)] kept_upd [of k "kn_next_fd k" k' s] by simp
  qed (use i in simp)
next
  case False
  obtain b k1 where b: "bind_tcp_listener (su_pton4 su) (su_pton6 su) (li_bind_address (ls_config l)) port
      (so_listen_backlog opts) (ls_per_reactor_sockets l) k = (b, k1)" by fastforce
  then have i: "b = Inr fd" "l' = l" "k1 = k'" using assms(1) False by (simp_all add: bind_one_def)
  from b openedD(2) [OF assms(2)] show ?thesis
  proof (cases rule: bind_tcp_cases)
    case (listening s address got)
    have "l\<lparr>ls_identity := ls_identity l\<rparr> = l" by (cases l) simp
    then show ?thesis using that [of s] i listening kept_upd [of k "kn_next_fd k" k' s] by (simp add: holding_def)
  qed (use i in simp)
qed

lemma resolved_port_value:
  assumes "resolved_port_of fd k = (Inr port, k')"
  shows "kept k k' \<and> (\<forall>s got. kn_sockets k fd = Some s \<and> os_address s = Some got \<and> got \<notin> {Sockaddr_Un, Sockaddr_Other} \<longrightarrow>
    port = ntohs (sin_port got))"
  by (cases k rule: failure_cases)
    (use assms in \<open>auto simp: resolved_port_of_def kept_def split: option.splits sockaddr.splits\<close>)

lemma bound_to_net: "fill_bind_address pton4 pton6 bind_address port = Inr address \<Longrightarrow> bound_to ports address got \<Longrightarrow>
  got \<notin> {Sockaddr_Un, Sockaddr_Other}"
  by (auto simp: fill_bind_address_def bound_to_def split: if_splits option.splits)

text \<open>After the sockets of a listener are bound: how many, and what they serve. For a TCP listener the first
  socket fixes the port of the others.\<close>

lemma bind_sockets_serves:
  assumes "bind_sockets su opts n index port l k = (None, l', k')" and "opened k0 own k" and "0 \<notin> set (kn_ports k0)"
    and "own_name k0 l" and "serves su opts k l" and "if index = 0 then ls_sockets l = [] else \<not> ls_is_unix l \<longrightarrow> port = ls_resolved_port l \<and> port \<noteq> 0"
  shows "serves su opts k' l' \<and> kept k k' \<and> length (ls_sockets l') = length (ls_sockets l) + n \<and>
    ls_config l' = ls_config l \<and> ls_tls l' = ls_tls l \<and> ls_is_unix l' = ls_is_unix l \<and>
    ls_per_reactor_sockets l' = ls_per_reactor_sockets l \<and>
    (if index = 0 then n > 0 \<and> \<not> ls_is_unix l \<longrightarrow> ls_resolved_port l' \<noteq> 0 \<and> port \<in> {0, ls_resolved_port l'}
     else ls_resolved_port l' = ls_resolved_port l)"
  using assms
proof (induction n arbitrary: index port l k own)
  case (Suc n)
  obtain b l1 k1 where b: "bind_one su opts port l k = (b, l1, k1)" by (metis prod_cases3)
  then obtain fd where fd: "b = Inr fd" using Suc.prems(1) by (cases b) auto
  obtain s where s: "kn_sockets k1 fd = Some s" "kept k k1" "os_backlog s = Some (so_listen_backlog opts)"
    "l1 = l\<lparr>ls_identity := ls_identity l1\<rparr>"
    "\<not> ls_is_unix l \<Longrightarrow> \<exists>address got. fill_bind_address (su_pton4 su) (su_pton6 su) (li_bind_address (ls_config l)) port = Inr address \<and>
       os_address s = Some got \<and> bound_to (set (kn_ports k)) address got"
    using bind_one_serving [OF b [unfolded fd] Suc.prems(2,3)] by blast
  have o1: "opened k0 (insert fd own) k1" "own_name k0 l1" using opened_bind_one [OF Suc.prems(2,4) b] fd by simp_all
  have same: "ls_config l1 = ls_config l" "ls_tls l1 = ls_tls l" "ls_is_unix l1 = ls_is_unix l" "ls_resolved_port l1 = ls_resolved_port l"
    "ls_per_reactor_sockets l1 = ls_per_reactor_sockets l" "ls_sockets l1 = ls_sockets l" by (subst s(4); simp)+
  have ports: "0 \<notin> set (kn_ports k)" using openedD(12) [OF Suc.prems(2)] Suc.prems(3) by blast
  obtain p k2 where p: "resolved_port_of fd k1 = (p, k2)" by fastforce
  show ?case
  proof (cases "index = 0 \<and> \<not> ls_is_unix l")
    case True
    then obtain address got where a: "fill_bind_address (su_pton4 su) (su_pton6 su) (li_bind_address (ls_config l)) port = Inr address"
      "os_address s = Some got" "bound_to (set (kn_ports k)) address got" using s(5) by blast
    obtain port' where port': "p = Inr port'" using Suc.prems(1) b fd p True same(3) by (cases p) auto
    have v: "kept k1 k2" "port' = ntohs (sin_port got)"
      using resolved_port_value [OF p [unfolded port']] s(1) a(2) bound_to_net [OF a(1,3)] by blast+
    let ?l = "l1\<lparr>ls_resolved_port := port', ls_sockets := [fd]\<rparr>"
    have "serving su opts ?l s" using a s(3) v(2) same a(3) by (auto simp: serving_def bound_to_def)
    then have "serves su opts k2 ?l" using s(1) v(1) by (auto simp: serves_def kept_def)
    moreover have "bind_sockets su opts n (Suc 0) port' ?l k2 = (None, l', k')"
      using Suc.prems(1,6) b fd p port' True same by simp
    moreover have "opened k0 (insert fd own) k2" by (rule opened_resolve [OF o1(1) p])
    ultimately have "serves su opts k' l' \<and> kept k2 k' \<and> length (ls_sockets l') = Suc n \<and> ls_config l' = ls_config l \<and>
        ls_tls l' = ls_tls l \<and> ls_is_unix l' = ls_is_unix l \<and> ls_per_reactor_sockets l' = ls_per_reactor_sockets l \<and> ls_resolved_port l' = port'"
      using Suc.IH [of "Suc 0" port' ?l k2 "insert fd own"] Suc.prems(3) o1(2) bound_port(1) [OF a(1,3) ports] v(2) same
      by (simp add: own_name_def)
    then show ?thesis using True Suc.prems(6) kept_trans [OF s(2) kept_trans [OF v(1)]] bound_port [OF a(1,3) ports] v(2) by auto
  next
    case False
    let ?l = "l1\<lparr>ls_sockets := ls_sockets l @ [fd]\<rparr>"
    have old: "serving su opts ?l = serving su opts l" using same by (simp add: serving_def fun_eq_iff)
    have "serving su opts l s"
    proof (cases "ls_is_unix l")
      case tcp: False
      then obtain address got where a: "fill_bind_address (su_pton4 su) (su_pton6 su) (li_bind_address (ls_config l)) port = Inr address"
        "os_address s = Some got" "bound_to (set (kn_ports k)) address got" using s(5) by blast
      moreover have "ntohs (sin_port got) = ls_resolved_port l"
        using bound_port(2) [OF a(1,3) ports] Suc.prems(6) False tcp by auto
      ultimately show ?thesis using s(3) tcp by (auto simp: serving_def bound_to_def)
    qed (use s(3) in \<open>simp add: serving_def\<close>)
    then have "serves su opts k1 ?l"
      using serves_kept [OF Suc.prems(5) s(2)] s(1) old by (auto simp: serves_def)
    moreover have "bind_sockets su opts n (Suc index) port ?l k1 = (None, l', k')"
      using Suc.prems(1) b fd False same by (auto split: if_split_asm)
    ultimately have "serves su opts k' l' \<and> kept k1 k' \<and> length (ls_sockets l') = length (ls_sockets l) + Suc n \<and> ls_config l' = ls_config l \<and>
        ls_tls l' = ls_tls l \<and> ls_is_unix l' = ls_is_unix l \<and> ls_per_reactor_sockets l' = ls_per_reactor_sockets l \<and>
        ls_resolved_port l' = ls_resolved_port l"
      using Suc.IH [of "Suc index" port ?l k1 "insert fd own"] Suc.prems(3,6) o1 same False by (auto simp: own_name_def)
    then show ?thesis using False kept_trans [OF s(2)] by auto
  qed
qed simp

text \<open>What \<open>start\<close> makes of a configured listener.\<close>

definition realizes :: "startup \<Rightarrow> options \<Rightarrow> nat \<Rightarrow> kernel \<Rightarrow> listener_state \<Rightarrow> listener \<Rightarrow> bool" where
  "realizes su opts workers k l configured \<longleftrightarrow> ls_config l = configured \<and> ls_is_unix l = (li_unix_socket_path configured \<noteq> []) \<and>
     serves su opts k l \<and> length (ls_sockets l) = (if ls_per_reactor_sockets l then workers else 1) \<and>
     (\<not> ls_is_unix l \<longrightarrow> ls_resolved_port l \<noteq> 0 \<and> of_nat (li_port configured) \<in> {0, ls_resolved_port l})"

lemma realizes_kept: "realizes su opts workers k l c \<Longrightarrow> kept k k' \<Longrightarrow> realizes su opts workers k' l c"
  using serves_kept by (auto simp: realizes_def)

lemma start_listener_realizes:
  assumes "start_listener su opts workers c k = (None, l, k')" and "opened k0 own k" and "0 \<notin> set (kn_ports k0)" and "workers > 0"
  shows "realizes su opts workers k' l c \<and> kept k k'"
proof -
  define per where "per \<longleftrightarrow> so_reuse_port opts \<and> li_unix_socket_path c = [] \<and> su_reuse_port_supported su"
  obtain ctx where b: "bind_sockets su opts (if per then workers else 1) 0 (of_nat (li_port c))
      \<lparr>ls_config = c, ls_tls = ctx, ls_resolved_port = 0, ls_per_reactor_sockets = per,
       ls_is_unix = (li_unix_socket_path c \<noteq> []), ls_identity = None, ls_sockets = []\<rparr> k = (None, l, k')"
    using assms(1) by (auto simp: start_listener_def per_def Let_def split: if_splits option.splits)
  show ?thesis
    using bind_sockets_serves [OF b assms(2,3)] assms(4) by (auto simp: realizes_def serves_def own_name_def)
qed

lemma start_listeners_realize:
  assumes "start_listeners su opts workers cs ls k = (None, ls', k')" and "owns k0 ls k" and "0 \<notin> set (kn_ports k0)"
    and "workers > 0" and "list_all2 (realizes su opts workers k) ls before"
  shows "list_all2 (realizes su opts workers k') ls' (before @ cs)"
  using assms
proof (induction cs arbitrary: ls k before)
  case (Cons c cs)
  obtain e l k1 where s: "start_listener su opts workers c k = (e, l, k1)" by (metis prod_cases3)
  then have e: "e = None" using Cons.prems(1) by (cases e) auto
  have "opened k0 (set (all_sockets ls)) k" using Cons.prems(2) by (simp add: owns_def)
  note o = opened_start_listener [OF s this] and r = start_listener_realizes [OF s [unfolded e] this Cons.prems(3,4)]
  have "owns k0 (ls @ [l]) k1" using o Cons.prems(2) by (auto simp: owns_def)
  moreover have "list_all2 (realizes su opts workers k1) (ls @ [l]) (before @ [c])"
    using r Cons.prems(5) realizes_kept by (auto intro!: list_all2_appendI elim: list_all2_mono)
  ultimately show ?case using Cons.IH [of "ls @ [l]" k1 "before @ [c]"] Cons.prems(1,3,4) s e by simp
qed simp

lemma make_reactors_new:
  "make_reactors n given st acc = (None, rs) \<Longrightarrow> \<forall>r \<in> set acc. rx_listeners r = [] \<Longrightarrow>
   length rs = length acc + n \<and> (\<forall>r \<in> set rs. rx_listeners r = [])"
  by (induction n given st acc rule: make_reactors.induct)
    (auto simp: new_reactor_def split: list.splits option.splits)

lemma add_listener_appends: "add_listener n fd r = Inr r' \<Longrightarrow> rx_listeners r' = rx_listeners r @ [(n, fd)]"
  by (auto simp: add_listener_def epoll_ctl_def split: list.splits if_splits)

lemma attach_appends:
  "attach n l index rs = Inr rs' \<Longrightarrow> length rs' = length rs \<and>
     (\<forall>i < length rs. rx_listeners (rs' ! i) = rx_listeners (rs ! i) @ [(n, listen_fd_for l (index + i))])"
proof (induction n l index rs arbitrary: rs' rule: attach.induct)
  case (2 n l index r rs)
  then obtain r1 rs1 where a: "add_listener n (listen_fd_for l index) r = Inr r1" "attach n l (index + 1) rs = Inr rs1" "rs' = r1 # rs1"
    by (auto split: sum.splits)
  show ?case
  proof (intro conjI allI impI)
    show "length rs' = length (r # rs)" using 2(1) [OF a(1) a(2)] a(3) by simp
    fix i assume "i < length (r # rs)"
    then show "rx_listeners (rs' ! i) = rx_listeners ((r # rs) ! i) @ [(n, listen_fd_for l (index + i))]"
      using 2(1) [OF a(1) a(2)] add_listener_appends [OF a(1)] a(3) by (cases i) auto
  qed
qed simp

lemma attach_all_appends:
  "attach_all n ls rs = Inr rs' \<Longrightarrow> length rs' = length rs \<and>
     (\<forall>i < length rs. rx_listeners (rs' ! i) = rx_listeners (rs ! i) @ map (\<lambda>(n, l). (n, listen_fd_for l i)) (enumerate n ls))"
proof (induction n ls rs arbitrary: rs' rule: attach_all.induct)
  case (2 n l ls rs)
  then obtain rs1 where a: "attach n l 0 rs = Inr rs1" "attach_all (n + 1) ls rs1 = Inr rs'" by (auto split: sum.splits)
  then show ?case using 2(1) [OF a] attach_appends [OF a(1)] by simp
qed simp


lemma is_loopback_same_address:
  assumes "sin_addr a = sin_addr b" and "is_Sockaddr_In a = is_Sockaddr_In b" and "is_Sockaddr_In6 a = is_Sockaddr_In6 b"
    and "b \<notin> {Sockaddr_Un, Sockaddr_Other}"
  shows "is_loopback (peer_address_from a) = is_loopback (peer_address_from b)"
  using assms by (cases a; cases b) (auto simp: peer_address_from_def is_loopback_def)

text \<open>Nobody serves the network unprotected without being told. When a server started with the warning left
  on and no allow list, and a socket of a listener without TLS is bound to an address that is not a
  loopback address, the warning about that listener is in the log.\<close>

theorem public_listener_warned:
  assumes "kernel_ok k" and "kn_others k = []" and "0 \<notin> set (kn_ports k)" and "server_start su (new_server opts k) = (None, sv)"
    and "su_pton4 su ''localhost'' = None" and "su_pton6 su ''localhost'' = None"
    and "so_warn_on_public_bind opts" and "so_allow_cidrs opts = []" and "l \<in> set (sv_listeners sv)"
    and "\<not> to_enabled (li_tls (ls_config l))" and "\<not> ls_is_unix l"
    and "fd \<in> set (ls_sockets l)" and "kn_sockets (sv_kernel sv) fd = Some s" and "os_address s = Some bound"
    and "\<not> is_loopback (peer_address_from bound)"
  shows "(Log_Warning, public_bind_warning (listener_url l)) \<in> set (sv_log sv)"
  using assms(4,1,2)
proof (cases rule: server_start_cases)
  case (started opts' st workers ls reactors k')
  have w: "workers > 0"
    using started(3) by (auto simp: resolve_worker_count_def kMinAutoWorkerThreads_def kMaxAutoWorkerThreads_def)
  have u: "start_listeners su opts' workers (so_listeners opts') [] k = (None, ls, k')"
    using started(4) by (auto simp: set_up_def split: option.splits prod.splits sum.splits)
  have "owns k [] k" using opened_start [OF assms(1,2)] by (simp add: owns_def)
  then have "list_all2 (realizes su opts' workers k') ls (so_listeners opts')"
    using start_listeners_realize [OF u _ assms(3) w, of "[]"] by simp
  then have "\<forall>l \<in> set ls. \<exists>c. realizes su opts' workers k' l c" by (induction rule: list_all2_induct) auto
  then have "serves su opts' k' l" using assms(9) started(7) by (auto simp: realizes_def)
  then obtain port address where a: "fill_bind_address (su_pton4 su) (su_pton6 su) (li_bind_address (ls_config l)) port = Inr address"
    "sin_addr bound = sin_addr address" "is_Sockaddr_In bound = is_Sockaddr_In address" "is_Sockaddr_In6 bound = is_Sockaddr_In6 address"
    using assms(11-14) started(9) by (fastforce simp: serves_def serving_def)
  have "address \<notin> {Sockaddr_Un, Sockaddr_Other}" using a(1) by (auto simp: fill_bind_address_def split: if_splits option.splits)
  then have "\<not> bind_address_is_local (su_pton4 su) (su_pton6 su) (li_bind_address (ls_config l))"
    using local_iff_bound_to_loopback [OF assms(5,6) a(1)] is_loopback_same_address [OF a(2-4)] assms(15) by simp
  then have "warns_of su opts' l" using assms(7,8,10,11) started(1) by (simp add: warns_of_def)
  then show ?thesis using started(7,11) assms(9) by (auto simp: listener_messages_def Let_def)
qed simp

section \<open>Wake-ups\<close>

text \<open>The contract of the descriptor that wakes a reactor, and what follows for any sequence of its operations:
  it is readable exactly when the last operation was a signal.\<close>

locale wake_channel =
  fixes signal :: "'t \<Rightarrow> 's \<Rightarrow> 's" and drain :: "'t \<Rightarrow> 's \<Rightarrow> 's" and readable :: "'s \<Rightarrow> bool"
  assumes readable_signal: "readable (signal t s)" and readable_drain: "\<not> readable (drain t s)"
begin

definition operate :: "bool \<times> 't \<Rightarrow> 's \<Rightarrow> 's" where
  "operate call s = (if fst call then signal (snd call) s else drain (snd call) s)"

lemma readable_after: "readable (fold operate calls s) \<longleftrightarrow> (if calls = [] then readable s else fst (last calls))"
  by (induction calls rule: rev_induct) (auto simp: operate_def readable_signal readable_drain)

end

lemma eventfd_signal_pos: "eventfd_signal interrupted tickets > 0"
  by (induction interrupted tickets rule: eventfd_signal.induct) (auto simp: kEventFdTicket_def kEventFdMax_def)

lemma eventfd_drain_zero [simp]: "eventfd_drain interrupted tickets = 0"
  by (induction interrupted tickets rule: eventfd_drain.induct) auto

interpretation eventfd: wake_channel eventfd_signal eventfd_drain "\<lambda>tickets. tickets > 0"
  by unfold_locales (simp_all add: eventfd_signal_pos)

interpretation wake_flag: wake_channel "\<lambda>_ :: bool list. signal_event_fd" "\<lambda>_. drain_event_fd" rx_signalled
  by unfold_locales (simp_all add: signal_event_fd_def drain_event_fd_def)

text \<open>The flag of the reactor model is a faithful abstraction of the event descriptor. Whatever signals and
  drains happen, in any order and however often the system calls are interrupted, the 64-bit counter of
  the descriptor is positive exactly when the flag is set, at the saturated counter too.\<close>

theorem event_flag_refines_counter:
  assumes "tickets > 0 \<longleftrightarrow> rx_signalled r"
  shows "fold (\<lambda>(signalled, interrupted). (if signalled then eventfd_signal interrupted else eventfd_drain interrupted)) calls tickets > 0 \<longleftrightarrow>
    rx_signalled (fold (\<lambda>(signalled, interrupted). (if signalled then signal_event_fd else drain_event_fd)) calls r)"
proof -
  have "eventfd.operate = (\<lambda>(signalled, interrupted). (if signalled then eventfd_signal interrupted else eventfd_drain interrupted))"
    "wake_flag.operate = (\<lambda>(signalled, interrupted). (if signalled then signal_event_fd else drain_event_fd))"
    by (auto simp: eventfd.operate_def wake_flag.operate_def fun_eq_iff)
  then show ?thesis using eventfd.readable_after [of calls tickets] wake_flag.readable_after [of calls r] assms by simp
qed

section \<open>Stopping from another thread\<close>

text \<open>\<open>stop\<close> and \<open>wait\<close> in two threads, as \<open>run\<close> has them: its stop callback calls \<open>stop\<close> in the thread that
  requests the stop, while the thread of \<open>run\<close> is in \<open>wait\<close>. One step is one access to what they share. The
  loop of \<open>stop\<close> goes over the reactors that were there when it began; \<open>sd_reactors\<close> counts those that still
  exist. A worker ends at any time after the stop was requested, which wakes its reactor.\<close>

datatype stop_position = Stop_Not_Called | Stop_Waking nat | Stop_Returned
datatype wait_position = Wait_Joining | Wait_Clearing | Wait_Returned

record shutdown =
  sd_stop :: stop_position
  sd_wait :: wait_position
  sd_stop_requested :: bool
  sd_running :: nat
  sd_reactors :: nat

inductive shutdown_run :: "nat \<Rightarrow> shutdown \<Rightarrow> bool" for workers where
  sd_start: "shutdown_run workers \<lparr>sd_stop = Stop_Not_Called, sd_wait = Wait_Joining, sd_stop_requested = False,
    sd_running = workers, sd_reactors = workers\<rparr>"
| sd_request: "shutdown_run workers st \<Longrightarrow> sd_stop st = Stop_Not_Called \<Longrightarrow>
    shutdown_run workers (st\<lparr>sd_stop := Stop_Waking 0, sd_stop_requested := True\<rparr>)"
| sd_wake: "shutdown_run workers st \<Longrightarrow> sd_stop st = Stop_Waking i \<Longrightarrow> i < workers \<Longrightarrow>
    shutdown_run workers (st\<lparr>sd_stop := Stop_Waking (Suc i)\<rparr>)"
| sd_return: "shutdown_run workers st \<Longrightarrow> sd_stop st = Stop_Waking workers \<Longrightarrow>
    shutdown_run workers (st\<lparr>sd_stop := Stop_Returned\<rparr>)"
| sd_worker_ends: "shutdown_run workers st \<Longrightarrow> sd_stop_requested st \<Longrightarrow> sd_running st = Suc n \<Longrightarrow>
    shutdown_run workers (st\<lparr>sd_running := n\<rparr>)"
| sd_joined: "shutdown_run workers st \<Longrightarrow> sd_wait st = Wait_Joining \<Longrightarrow> sd_running st = 0 \<Longrightarrow>
    shutdown_run workers (st\<lparr>sd_wait := Wait_Clearing\<rparr>)"
| sd_clear: "shutdown_run workers st \<Longrightarrow> sd_wait st = Wait_Clearing \<Longrightarrow>
    shutdown_run workers (st\<lparr>sd_wait := Wait_Returned, sd_reactors := 0\<rparr>)"

lemma all_workers_end:
  "shutdown_run workers st \<Longrightarrow> sd_stop_requested st \<Longrightarrow> shutdown_run workers (st\<lparr>sd_running := 0\<rparr>)"
proof (induction "sd_running st" arbitrary: st)
  case 0
  then have "st\<lparr>sd_running := 0\<rparr> = st" by (cases st) simp
  then show ?case using 0(2) by (simp only:)
next
  case (Suc n)
  then show ?case using Suc.hyps(1) [of "st\<lparr>sd_running := n\<rparr>"] sd_worker_ends [OF Suc.prems, of n] by simp
qed

text \<open>C39: \<open>stop\<close> can wake a reactor that no longer exists. With any number of workers there is a run in which
  the workers end as soon as the stop is requested, the waiting thread destroys all reactors, and the
  loop of \<open>stop\<close> is still before its first reactor.\<close>

theorem stop_races_with_wait:
  "\<exists>st. shutdown_run (Suc n) st \<and> sd_stop st = Stop_Waking 0 \<and> sd_wait st = Wait_Returned \<and> sd_reactors st = 0"
proof -
  define st where "st = \<lparr>sd_stop = Stop_Waking 0, sd_wait = Wait_Joining, sd_stop_requested = True, sd_running = Suc n, sd_reactors = Suc n\<rparr>"
  have "shutdown_run (Suc n) st" using sd_request [OF sd_start] by (simp add: st_def)
  then have "shutdown_run (Suc n) (st\<lparr>sd_running := 0\<rparr>)" by (rule all_workers_end) (simp add: st_def)
  then have "shutdown_run (Suc n) (st\<lparr>sd_running := 0, sd_wait := Wait_Clearing\<rparr>)"
    using sd_joined [of "Suc n" "st\<lparr>sd_running := 0\<rparr>"] by (simp add: st_def)
  then have "shutdown_run (Suc n) (st\<lparr>sd_running := 0, sd_wait := Wait_Returned, sd_reactors := 0\<rparr>)"
    using sd_clear [of "Suc n" "st\<lparr>sd_running := 0, sd_wait := Wait_Clearing\<rparr>"] by simp
  then show ?thesis by (auto simp: st_def)
qed

section \<open>Examples\<close>

definition sample_startup :: startup where
  "sample_startup = \<lparr>su_pton4 = (\<lambda>_. None), su_pton6 = (\<lambda>_. None), su_tls_create = (\<lambda>_. None), su_reuse_port_supported = False,
     su_hardware_concurrency = 8, su_reactors = [Some (9, [])], su_threads = None, su_failure = None\<rparr>"

definition sample_options :: options where
  "sample_options = default_options\<lparr>so_listeners := [default_listener\<lparr>li_bind_address := ''::'', li_port := 0\<rparr>],
     so_worker_threads := 1\<rparr>"

definition sample_listener :: listener_state where
  "sample_listener = \<lparr>ls_config = default_listener\<lparr>li_bind_address := ''::'', li_port := 0\<rparr>, ls_tls = None, ls_resolved_port = 8080,
     ls_per_reactor_sockets = False, ls_is_unix = False, ls_identity = None, ls_sockets = [3]\<rparr>"

lemma sample_options_valid: "validate_server_options sample_options = None"
proof -
  have "kMaxParsedHeaders \<ge> 1" by (simp add: kMaxParsedHeaders_def)
  then show ?thesis
    by (subst server_options_accepted_iff)
      (simp add: sample_options_def default_options_def default_listener_def default_limits_def kMaxWorkerThreads_def
        kDefaultServerHeader_def has_control_character_def byte_def fixed_endpoints_def)
qed

lemma sample_bind:
  "\<exists>s k'. bind_tcp_listener (\<lambda>_. None) (\<lambda>_. None) ''::'' 0 128 False sample_kernel = (Inr 3, k') \<and> kn_failures k' = [] \<and>
     kn_sockets k' 3 = Some s \<and> os_address s = Some (Sockaddr_In6 (htons 8080) (replicate kIpv6ByteCount 0))"
proof -
  have "fill_bind_address (\<lambda>_. None) (\<lambda>_. None) ''::'' 0 = Inr (Sockaddr_In6 0 (replicate kIpv6ByteCount 0))"
    by (simp add: fill_bind_address_def is_wildcard_address_def htons_def)
  then show ?thesis
    by (simp add: bind_tcp_listener_def socket_calls sample_kernel_def Let_def)
qed

lemma sample_set_up:
  "\<exists>rs k' s. set_up sample_startup sample_options 1 st sample_kernel = (None, [sample_listener], rs, k') \<and>
     kn_sockets k' 3 = Some s \<and> os_address s = Some (Sockaddr_In6 (htons 8080) (replicate kIpv6ByteCount 0))"
proof -
  obtain s k' where b: "bind_tcp_listener (\<lambda>_. None) (\<lambda>_. None) ''::'' 0 128 False sample_kernel = (Inr 3, k')" "kn_failures k' = []"
    "kn_sockets k' 3 = Some s" "os_address s = Some (Sockaddr_In6 (htons 8080) (replicate kIpv6ByteCount 0))" using sample_bind by blast
  have "resolved_port_of 3 k' = (Inr 8080, k')" using b(2-4) by (simp add: resolved_port_of_def failure_def)
  then have "start_listeners sample_startup sample_options 1 (so_listeners sample_options) [] sample_kernel = (None, [sample_listener], k')"
    using b(1) by (simp add: start_listener_def bind_one_def sample_startup_def sample_options_def default_listener_def default_tls_options_def
        default_options_def sample_listener_def Let_def)
  then show ?thesis using b(3,4)
    by (simp add: set_up_def sample_startup_def add_listener_def epoll_ctl_def new_reactor_def)
qed

lemma sample_started:
  "\<exists>sv s. server_start sample_startup (new_server sample_options sample_kernel) = (None, sv) \<and> sv_listeners sv = [sample_listener] \<and>
     kn_sockets (sv_kernel sv) 3 = Some s \<and> os_address s = Some (Sockaddr_In6 (htons 8080) (replicate kIpv6ByteCount 0))"
proof -
  have o: "so_listeners sample_options \<noteq> []" "so_worker_threads sample_options = 1" "so_allow_cidrs sample_options = []"
    "su_threads sample_startup = None" "su_failure sample_startup = None"
    by (simp_all add: sample_options_def default_options_def sample_startup_def)
  obtain rs k' s where "set_up sample_startup sample_options 1 (new_server_state (of_nat (so_max_connections sample_options))
      (of_nat (so_max_connections_per_source sample_options))) sample_kernel = (None, [sample_listener], rs, k')"
    "kn_sockets k' 3 = Some s" "os_address s = Some (Sockaddr_In6 (htons 8080) (replicate kIpv6ByteCount 0))" using sample_set_up by blast
  then show ?thesis using o sample_options_valid by (simp add: server_start_def new_server_def resolve_worker_count_def Let_def)
qed

lemma sample_kernel_fields: "kn_others sample_kernel = []" "0 \<notin> set (kn_ports sample_kernel)"
  by (simp_all add: sample_kernel_def)



theorem public_listener_warned_witness:
  "\<exists>sv. server_start sample_startup (new_server sample_options sample_kernel) = (None, sv) \<and>
     (Log_Warning, public_bind_warning (listener_url sample_listener)) \<in> set (sv_log sv)"
proof -
  obtain sv s where sv: "server_start sample_startup (new_server sample_options sample_kernel) = (None, sv)"
    "sv_listeners sv = [sample_listener]" "kn_sockets (sv_kernel sv) 3 = Some s"
    "os_address s = Some (Sockaddr_In6 (htons 8080) (replicate kIpv6ByteCount 0))" using sample_started by blast
  have "\<not> is_loopback (peer_address_from (Sockaddr_In6 (htons 8080) (replicate kIpv6ByteCount 0)))"
    by (simp add: is_loopback_def peer_address_from_def default_peer_def socket_is_ipv4_mapped_eq is_ipv4_mapped_def cidr_consts
        is_ipv6_loopback_def kMappedMarkerByte_def)
  then have "(Log_Warning, public_bind_warning (listener_url sample_listener)) \<in> set (sv_log sv)"
    using sv by (intro public_listener_warned [OF sample_kernel_ok(1) sample_kernel_fields sv(1), of sample_listener 3])
      (simp_all add: sample_startup_def sample_options_def default_options_def sample_listener_def default_listener_def default_tls_options_def)
  then show ?thesis using sv(1) by blast
qed

theorem event_flag_refines_counter_witness:
  "eventfd_signal [True] (eventfd_drain [] 1) > 0 \<longleftrightarrow> rx_signalled (signal_event_fd (drain_event_fd (signal_event_fd (new_reactor 3 [] sample_server))))"
proof -
  have "(1 :: nat) > 0 \<longleftrightarrow> rx_signalled (signal_event_fd (new_reactor 3 [] sample_server))" by (simp add: signal_event_fd_def)
  from event_flag_refines_counter [OF this, of "[(False, []), (True, [True])]"] show ?thesis by simp
qed

end
