(* ===== verification/Http_Tls_Identity.thy ===== *)
theory Http_Tls_Identity
  imports Http_Text_Format
begin

text \<open>
  The identity of a TLS client: \<open>client_identity_has_attribute\<close> of \<open>tls.hpp\<close>, which a handler uses to
  authorise a request, and \<open>escape_equals_inside_values\<close> of \<open>tls_transport.cpp\<close>, which prepares the subject
  OpenSSL printed. A walk over an index is a recursion over the characters that remain. The two are shown
  to fit: whatever a subject's values hold, the attributes found are those of the certificate.
\<close>

section \<open>Matching an attribute\<close>

definition ends_value :: "char \<Rightarrow> bool" where
  "ends_value c \<longleftrightarrow> c = CHR '','' \<or> c = CHR ''+''"

definition ends_type :: "char \<Rightarrow> bool" where
  "ends_type c \<longleftrightarrow> c = CHR ''='' \<or> ends_value c"

text \<open>One character of a value, decoded, with what remains after it.\<close>

definition decode_value_char :: "char \<Rightarrow> bytes \<Rightarrow> char \<times> bytes" where
  "decode_value_char c cs =
     (if c = CHR 0x5C \<and> cs \<noteq> [] then
        let high = hex_digit_value (hd cs);
            low = (if tl cs \<noteq> [] then hex_digit_value (hd (tl cs)) else - 1)
        in if high \<noteq> - 1 \<and> low \<noteq> - 1 then (char_of (nat (high * 16 + low)), drop 2 cs)
           else (hd cs, tl cs)
      else (c, cs))"

lemma decode_value_char_length [termination_simp]:
  "(d, rest) = decode_value_char c cs \<Longrightarrow> length rest < Suc (length cs)"
  by (auto simp: decode_value_char_def Let_def split: if_splits)

fun compare_value :: "bytes \<Rightarrow> bool \<Rightarrow> nat \<Rightarrow> bytes \<Rightarrow> bool \<times> nat \<times> bytes" where
  "compare_value value_text same_value compared [] = (same_value, compared, [])"
| "compare_value value_text same_value compared (c # cs) =
     (if ends_value c then (same_value, compared, c # cs)
      else case decode_value_char c cs of (decoded, rest) \<Rightarrow>
        if \<not> same_value then compare_value value_text same_value compared rest
        else if compared = length value_text \<or> value_text ! compared \<noteq> decoded
        then compare_value value_text False compared rest
        else compare_value value_text same_value (compared + 1) rest)"

lemma compare_value_length:
  "compare_value v same n s = (same', n', rest) \<Longrightarrow> length rest \<le> length s"
  by (induction v same n s rule: compare_value.induct)
    (fastforce split: if_splits prod.splits dest: decode_value_char_length [OF sym])+

lemma rest_shorter:
  assumes "length rest \<le> length (tl (dropWhile P s))" "dropWhile P s \<noteq> []"
  shows "length (drop 1 rest) < length s"
  using assms length_dropWhile_le [of P s] by (cases "dropWhile P s") auto

function client_identity_has_attribute :: "bytes \<Rightarrow> bytes \<Rightarrow> bytes \<Rightarrow> bool" where
  "client_identity_has_attribute identity attribute value_text =
     (if identity = [] then False
      else let type = takeWhile (\<lambda>c. \<not> ends_type c) identity;
               rest = dropWhile (\<lambda>c. \<not> ends_type c) identity
      in if rest = [] \<or> hd rest \<noteq> CHR ''='' then False
         else case compare_value value_text (equals_ignore_case type attribute) 0 (tl rest) of
           (same_value, compared, rest) \<Rightarrow>
             if same_value \<and> compared = length value_text then True
             else client_identity_has_attribute (drop 1 rest) attribute value_text)"
  by pat_completeness auto

termination
  by (relation "measure (\<lambda>(identity, _, _). length identity)")
    (simp, metis (no_types, lifting) in_measure case_prod_conv compare_value_length rest_shorter)

declare client_identity_has_attribute.simps [simp del]

section \<open>The attributes an identity holds\<close>

text \<open>What the walk should see: the types and decoded values, up to the first piece that is not an
  attribute.\<close>

fun decode_value :: "bytes \<Rightarrow> bytes \<times> bytes" where
  "decode_value [] = ([], [])"
| "decode_value (c # cs) =
     (if ends_value c then ([], c # cs)
      else case decode_value_char c cs of (decoded, rest) \<Rightarrow>
        case decode_value rest of (v, rest') \<Rightarrow> (decoded # v, rest'))"

lemma decode_value_length: "decode_value s = (v, rest) \<Longrightarrow> length rest \<le> length s"
  by (induction s arbitrary: v rest rule: decode_value.induct)
    (fastforce split: if_splits prod.splits dest: decode_value_char_length [OF sym])+

function identity_attributes :: "bytes \<Rightarrow> (bytes \<times> bytes) list" where
  "identity_attributes identity =
     (let rest = dropWhile (\<lambda>c. \<not> ends_type c) identity
      in if rest = [] \<or> hd rest \<noteq> CHR ''='' then []
         else case decode_value (tl rest) of (v, rest') \<Rightarrow>
           (takeWhile (\<lambda>c. \<not> ends_type c) identity, v) # identity_attributes (drop 1 rest'))"
  by pat_completeness auto

termination
  by (relation "measure length")
    (simp, metis (no_types, lifting) in_measure decode_value_length rest_shorter)

declare identity_attributes.simps [simp del]

lemma compare_value_spec:
  assumes "decode_value s = (v, rest)" "same \<longrightarrow> n \<le> length value_text"
  shows "\<exists>same' n'. compare_value value_text same n s = (same', n', rest) \<and>
    (same' \<and> n' = length value_text \<longleftrightarrow> same \<and> v = drop n value_text)"
  using assms
proof (induction s arbitrary: v rest same n rule: decode_value.induct)
  case 1
  then show ?case by auto
next
  case (2 c cs)
  show ?case
  proof (cases "ends_value c")
    case True
    with 2 show ?thesis by auto
  next
    case False
    obtain d r where d: "decode_value_char c cs = (d, r)" by fastforce
    obtain w where w: "decode_value r = (w, rest)" "v = d # w"
      using 2(2) False d by (auto split: prod.splits)
    note IH = 2(1) [OF False d [symmetric] w(1)]
    show ?thesis
    proof (cases "same \<and> n < length value_text \<and> value_text ! n = d")
      case True
      have "d # w = drop n value_text \<longleftrightarrow> w = drop (Suc n) value_text"
        using True Cons_nth_drop_Suc [of n value_text] by (metis list.inject)
      with True False d w IH [of True "Suc n"] show ?thesis by auto
    next
      case mismatch: False
      have "\<not> (same \<and> v = drop n value_text)"
        using mismatch 2(3) w(2) by (metis drop_all list.distinct(1) list.inject not_le Cons_nth_drop_Suc)
      moreover have "compare_value value_text same n (c # cs) = compare_value value_text False n r"
        using mismatch 2(3) False d by auto
      ultimately show ?thesis using IH [of False n] by auto
    qed
  qed
qed

text \<open>A client identity has an attribute exactly when one of the attributes it spells has the given type, up
  to the case of letters, and the given value, byte for byte after decoding: never a part of a value, and
  never text of one value that looks like another attribute.\<close>

lemma identity_matches_whole:
  "client_identity_has_attribute identity attribute value_text \<longleftrightarrow>
     (\<exists>(type, v) \<in> set (identity_attributes identity). equals_ignore_case type attribute \<and> v = value_text)"
proof (induction identity rule: identity_attributes.induct)
  case (1 identity)
  let ?rest = "dropWhile (\<lambda>c. \<not> ends_type c) identity"
  show ?case
  proof (cases "?rest = [] \<or> hd ?rest \<noteq> CHR ''=''")
    case True
    then show ?thesis
      by (auto simp: client_identity_has_attribute.simps [of identity] identity_attributes.simps [of identity])
  next
    case False
    obtain v r where d: "decode_value (tl ?rest) = (v, r)" by fastforce
    obtain same n where c: "compare_value value_text
        (equals_ignore_case (takeWhile (\<lambda>c. \<not> ends_type c) identity) attribute) 0 (tl ?rest) = (same, n, r)"
      and m: "same \<and> n = length value_text \<longleftrightarrow>
        equals_ignore_case (takeWhile (\<lambda>c. \<not> ends_type c) identity) attribute \<and> v = value_text"
      using compare_value_spec [OF d, of "equals_ignore_case (takeWhile (\<lambda>c. \<not> ends_type c) identity) attribute" 0 value_text]
      unfolding drop_0 by blast
    have "client_identity_has_attribute identity attribute value_text \<longleftrightarrow>
        (same \<and> n = length value_text) \<or> client_identity_has_attribute (drop 1 r) attribute value_text"
      using False c by (subst client_identity_has_attribute.simps) (auto simp: Let_def)
    moreover have "identity_attributes identity = (takeWhile (\<lambda>c. \<not> ends_type c) identity, v) # identity_attributes (drop 1 r)"
      using False d by (subst identity_attributes.simps) (simp add: Let_def)
    ultimately show ?thesis using 1 [OF refl False d [symmetric]] m by auto
  qed
qed

section \<open>The subject of a certificate\<close>

definition kEqualsHexEscape :: bytes where "kEqualsHexEscape = [CHR 0x5C, CHR ''3'', CHR ''D'']"

fun escape_equals_loop :: "bool \<Rightarrow> bytes \<Rightarrow> bytes" where
  "escape_equals_loop inside_value [] = []"
| "escape_equals_loop inside_value (c # cs) =
     (if c = CHR 0x5C then
        c # (case cs of [] \<Rightarrow> [] | d # ds \<Rightarrow> d # escape_equals_loop inside_value ds)
      else if c = CHR ''='' then
        if inside_value then kEqualsHexEscape @ escape_equals_loop inside_value cs
        else c # escape_equals_loop True cs
      else if ends_value c then c # escape_equals_loop False cs
      else c # escape_equals_loop inside_value cs)"

definition escape_equals_inside_values :: "bytes \<Rightarrow> bytes" where
  "escape_equals_inside_values printed = escape_equals_loop False printed"

text \<open>RFC 2253, which \<open>X509_NAME_print_ex\<close> follows: a character of a value is printed as itself, or after a
  backslash, or as a backslash and two hexadecimal digits; the separators and the backslash are never
  printed as themselves. The equals sign is.\<close>

datatype printed_unit = Printed char | Escaped char | In_Hex char char

fun unit_text :: "printed_unit \<Rightarrow> bytes" where
  "unit_text (Printed c) = [c]"
| "unit_text (Escaped c) = [CHR 0x5C, c]"
| "unit_text (In_Hex high low) = [CHR 0x5C, high, low]"

fun unit_char :: "printed_unit \<Rightarrow> char" where
  "unit_char (Printed c) = c"
| "unit_char (Escaped c) = c"
| "unit_char (In_Hex high low) = char_of (nat (hex_digit_value high * 16 + hex_digit_value low))"

fun unit_allowed :: "printed_unit \<Rightarrow> bool" where
  "unit_allowed (Printed c) \<longleftrightarrow> \<not> ends_value c \<and> c \<noteq> CHR 0x5C"
| "unit_allowed (Escaped c) \<longleftrightarrow> hex_digit_value c = - 1"
| "unit_allowed (In_Hex high low) \<longleftrightarrow> hex_digit_value high \<noteq> - 1 \<and> hex_digit_value low \<noteq> - 1"

type_synonym printed_attribute = "bytes \<times> printed_unit list \<times> char"

definition value_printed :: "printed_unit list \<Rightarrow> bytes" where
  "value_printed us = concat (map unit_text us)"

fun subject_printed :: "printed_attribute list \<Rightarrow> bytes" where
  "subject_printed [] = []"
| "subject_printed ((type, us, separator) # attributes) =
     type @ [CHR ''=''] @ value_printed us @ (if attributes = [] then [] else separator # subject_printed attributes)"

definition attribute_allowed :: "printed_attribute \<Rightarrow> bool" where
  "attribute_allowed a = (case a of (type, us, separator) \<Rightarrow>
     list_all (\<lambda>c. \<not> ends_type c \<and> c \<noteq> CHR 0x5C) type \<and> list_all unit_allowed us \<and> ends_value separator)"

fun escape_unit :: "printed_unit \<Rightarrow> printed_unit" where
  "escape_unit (Printed c) = (if c = CHR ''='' then In_Hex (CHR ''3'') (CHR ''D'') else Printed c)"
| "escape_unit u = u"

lemma hex_digit_not_special:
  "hex_digit_value c \<noteq> - 1 \<Longrightarrow> c \<noteq> CHR ''='' \<and> c \<noteq> CHR 0x5C \<and> \<not> ends_value c"
  by (auto simp: hex_digit_value_def ends_value_def byte_def)

lemma escape_unit_allowed: "unit_allowed u \<Longrightarrow> unit_allowed (escape_unit u)"
  by (cases u) (auto simp: hex_digit_value_def byte_def)

lemma escape_unit_char: "unit_char (escape_unit u) = unit_char u"
proof -
  have "char_of (61 :: nat) = CHR ''=''" by code_simp
  then show ?thesis by (cases u) (auto simp: hex_digit_value_def byte_def)
qed

lemma escape_equals_value:
  "list_all unit_allowed us \<Longrightarrow>
     escape_equals_loop True (value_printed us @ rest) = value_printed (map escape_unit us) @ escape_equals_loop True rest"
proof (induction us)
  case Nil
  then show ?case by (simp add: value_printed_def)
next
  case (Cons u us)
  then show ?case
    by (cases u) (auto simp: value_printed_def kEqualsHexEscape_def dest: hex_digit_not_special)
qed

lemma escape_equals_type:
  "list_all (\<lambda>c. \<not> ends_type c \<and> c \<noteq> CHR 0x5C) type \<Longrightarrow>
     escape_equals_loop False (type @ rest) = type @ escape_equals_loop False rest"
  by (induction type) (auto simp: ends_type_def)

definition escape_attribute :: "printed_attribute \<Rightarrow> printed_attribute" where
  "escape_attribute a = (case a of (type, us, separator) \<Rightarrow> (type, map escape_unit us, separator))"

lemma separator_not_special: "ends_value c \<Longrightarrow> c \<noteq> CHR ''='' \<and> c \<noteq> CHR 0x5C"
  by (auto simp: ends_value_def)

lemma escape_equals_subject:
  "list_all attribute_allowed as \<Longrightarrow>
     escape_equals_loop False (subject_printed as) = subject_printed (map escape_attribute as)"
proof (induction as rule: subject_printed.induct)
  case (2 type us separator as)
  then show ?case
    using escape_equals_value [of us "[]"]
    by (auto simp: attribute_allowed_def escape_attribute_def escape_equals_type escape_equals_value
        dest: separator_not_special)
qed simp

lemma decode_value_printed:
  "list_all unit_allowed us \<Longrightarrow> rest = [] \<or> ends_value (hd rest) \<Longrightarrow>
     decode_value (value_printed us @ rest) = (map unit_char us, rest)"
proof (induction us)
  case Nil
  then show ?case by (cases rest) (auto simp: value_printed_def)
next
  case (Cons u us)
  then show ?case
    by (cases u)
      (auto simp: value_printed_def decode_value_char_def ends_value_def Let_def)
qed

lemma take_drop_type:
  assumes "list_all (\<lambda>c. \<not> ends_type c \<and> c \<noteq> CHR 0x5C) type"
  shows "takeWhile (\<lambda>c. \<not> ends_type c) (type @ CHR ''='' # rest) = type"
    and "dropWhile (\<lambda>c. \<not> ends_type c) (type @ CHR ''='' # rest) = CHR ''='' # rest"
  using assms by (induction type) (auto simp: ends_type_def)

lemma identity_attributes_printed:
  "list_all attribute_allowed as \<Longrightarrow>
     identity_attributes (subject_printed as) = map (\<lambda>(type, us, _). (type, map unit_char us)) as"
proof (induction as rule: subject_printed.induct)
  case 1
  then show ?case by (simp add: identity_attributes.simps)
next
  case (2 type us separator as)
  let ?rest = "if as = [] then [] else separator # subject_printed as"
  have "attribute_allowed (type, us, separator)" and rest: "list_all attribute_allowed as"
    using 2(2) by simp_all
  then have a: "list_all (\<lambda>c. \<not> ends_type c \<and> c \<noteq> CHR 0x5C) type" "list_all unit_allowed us" "ends_value separator"
    by (simp_all add: attribute_allowed_def)
  have d: "decode_value (value_printed us @ ?rest) = (map unit_char us, ?rest)"
    using decode_value_printed [OF a(2)] a(3) by simp
  have "identity_attributes (drop 1 ?rest) = map (\<lambda>(type, us, _). (type, map unit_char us)) as"
    using 2(1) rest by (auto simp: identity_attributes.simps [of "[]"])
  with d show ?case
    by (subst identity_attributes.simps) (simp add: take_drop_type [OF a(1)] Let_def)
qed

text \<open>The identity a handler is given fits the certificate. Let OpenSSL print a subject, by the rules of RFC
  2253, from attributes with any values. In the identity made of that text a handler finds an attribute
  exactly when the certificate has it: values that hold separators, equals signs or backslashes forge
  nothing and lose nothing.\<close>

theorem subject_attributes_exact:
  assumes "list_all attribute_allowed attributes"
  shows "client_identity_has_attribute (escape_equals_inside_values (subject_printed attributes)) attribute value_text \<longleftrightarrow>
    (\<exists>(type, us, separator) \<in> set attributes. equals_ignore_case type attribute \<and> map unit_char us = value_text)"
proof -
  have "list_all attribute_allowed (map escape_attribute attributes)"
    using assms by (fastforce simp: list_all_iff attribute_allowed_def escape_attribute_def intro: escape_unit_allowed)
  then have "identity_attributes (escape_equals_inside_values (subject_printed attributes)) =
      map (\<lambda>(type, us, _). (type, map unit_char us)) attributes"
    using assms
    by (auto simp: escape_equals_inside_values_def escape_equals_subject identity_attributes_printed
        escape_attribute_def escape_unit_char)
  then show ?thesis unfolding identity_matches_whole by (simp add: case_prod_unfold)
qed

theorem subject_attributes_exact_witness:
  "client_identity_has_attribute
     (escape_equals_inside_values (subject_printed
       [(''CN'', map Printed ''a=b'' @ [Escaped (CHR '',''), Printed (CHR ''c'')], CHR ''+''), (''O'', [In_Hex (CHR ''2'') (CHR ''B'')], CHR '','')]))
     ''cn'' ''a=b,c''"
proof -
  have "equals_ignore_case ''CN'' ''cn''" by code_simp
  then show ?thesis
    by (subst subject_attributes_exact)
      (simp_all add: attribute_allowed_def ends_type_def ends_value_def hex_digit_value_def byte_def)
qed

text \<open>Matching stops at the first attribute that agrees, so what follows it is not looked at, and a backslash
  at the very end stands for itself: identities that are not well formed can match.\<close>

theorem malformed_identity_can_match:
  "client_identity_has_attribute ''CN=alice,OU'' ''CN'' ''alice'' \<and>
   client_identity_has_attribute [CHR ''C'', CHR ''N'', CHR ''='', CHR 0x5C] ''CN'' [CHR 0x5C]"
  by (simp add: client_identity_has_attribute.simps ends_type_def ends_value_def decode_value_char_def
      equals_ignore_case_def Let_def)

end
