(* ===== verification/Http_Tls_Transport.thy ===== *)
theory Http_Tls_Transport
  imports Http_Tls_Identity Http_Transport
begin

text \<open>
  \<open>tls_transport.cpp\<close>: the transport over an OpenSSL connection. OpenSSL is outside: an \<open>ssl\<close> object carries the
  answers its calls will give, in order, each with what \<open>SSL_get_error\<close> would say of it and the errors it leaves
  on the thread's queue; a call with no answer left would block. The object also keeps a record of every
  \<open>SSL_write_ex\<close>, since OpenSSL asks that a call which blocked be repeated with the same address and length.
  A buffer is an address with its bytes.
\<close>

section \<open>OpenSSL\<close>

datatype ssl_error = SSL_ERROR_WANT_READ | SSL_ERROR_WANT_WRITE | SSL_ERROR_ZERO_RETURN | SSL_ERROR_SYSCALL
  | SSL_ERROR_SSL | SSL_ERROR_OTHER

record openssl_error =
  oe_unexpected_eof :: bool
  oe_text :: bytes

record ssl_call =
  sc_result :: int
  sc_count :: nat
  sc_errno :: int
  sc_error :: ssl_error
  sc_queued :: "openssl_error list"

datatype stalled_kind = Stalled_None | Stalled_Write | Stalled_Writev

text \<open>\<open>StalledWrite\<close>; the vector \<open>scratch\<close> is its address, its capacity and its bytes.\<close>

record stalled_write =
  sw_kind :: stalled_kind
  sw_buffer :: "nat option"
  sw_length :: nat
  sw_scratch_address :: "nat option"
  sw_scratch_capacity :: nat
  sw_scratch :: bytes

text \<open>A subject name is what OpenSSL prints of it, or nothing when that fails.\<close>

record certificate =
  cert_subject :: "bytes option option"

record write_call =
  wc_kind :: stalled_kind
  wc_address :: "nat option"
  wc_data :: bytes
  wc_blocked :: bool

record ssl =
  ssl_accepts :: "ssl_call list"
  ssl_reads :: "(ssl_call \<times> bytes) list"
  ssl_writes :: "ssl_call list"
  ssl_shutdowns :: "ssl_call list"
  ssl_ex_data :: "stalled_write option"
  ssl_ex_data_stored :: "bool list"
  ssl_allocations :: "nat option list"
  ssl_alpn :: "bytes option"
  ssl_verify_peer :: bool
  ssl_verify_ok :: bool
  ssl_certificate :: "certificate option"
  ssl_history :: "write_call list"
  ssl_wire :: bytes

record tls_transport =
  tt_fd :: int
  tt_ssl :: "ssl option"
  tt_has_logger :: bool
  tt_alpn :: bytes
  tt_queue :: "openssl_error list"
  tt_log :: "bytes list"

definition blocked_call :: "ssl_error \<Rightarrow> ssl_call" where
  "blocked_call e = \<lparr>sc_result = - 1, sc_count = 0, sc_errno = 0, sc_error = e, sc_queued = []\<rparr>"

section \<open>Errors\<close>

definition kMaxLoggedOpenSslErrors :: nat where "kMaxLoggedOpenSslErrors = 4"

definition log_tls_error :: "bytes \<Rightarrow> tls_transport \<Rightarrow> tls_transport" where
  "log_tls_error message tt = (if tt_has_logger tt then tt\<lparr>tt_log := tt_log tt @ [message]\<rparr> else tt)"

definition err_clear_error :: "tls_transport \<Rightarrow> tls_transport" where
  "err_clear_error tt = tt\<lparr>tt_queue := []\<rparr>"

definition append_detail :: "bytes \<Rightarrow> openssl_error \<Rightarrow> bytes" where
  "append_detail detail e = (if detail \<noteq> [] then detail @ ''; '' else detail) @ oe_text e"

definition openssl_failure_message :: "bytes \<Rightarrow> bytes \<Rightarrow> openssl_error list \<Rightarrow> bytes" where
  "openssl_failure_message operation ctx queue =
     (let detail = foldl append_detail [] (take kMaxLoggedOpenSslErrors queue) in
      ''tls: '' @ operation @ '' failed'' @ (if ctx \<noteq> [] then '' ('' @ ctx @ '')'' else []) @
      (if detail \<noteq> [] then '': '' @ detail else []))"

definition log_openssl_failure :: "bytes \<Rightarrow> bytes \<Rightarrow> tls_transport \<Rightarrow> tls_transport" where
  "log_openssl_failure operation ctx tt =
     err_clear_error (log_tls_error (openssl_failure_message operation ctx (tt_queue tt)) tt)"

text \<open>\<open>classify_ssl_failure\<close>; \<open>describe\<close> is \<open>std::generic_category().message\<close>.\<close>

definition classify_ssl_failure ::
  "(int \<Rightarrow> bytes) \<Rightarrow> ssl_call \<Rightarrow> bytes \<Rightarrow> tls_transport \<Rightarrow> transport_result \<times> tls_transport" where
  "classify_ssl_failure describe call operation tt = (case sc_error call of
     SSL_ERROR_WANT_READ \<Rightarrow> (tr_want_read, tt)
   | SSL_ERROR_WANT_WRITE \<Rightarrow> (tr_want_write, tt)
   | SSL_ERROR_ZERO_RETURN \<Rightarrow> (tr_closed, err_clear_error tt)
   | SSL_ERROR_SYSCALL \<Rightarrow>
       if sc_errno call = 0 then (tr_closed, err_clear_error tt)
       else (tr_error, log_openssl_failure operation (describe (sc_errno call)) tt)
   | SSL_ERROR_SSL \<Rightarrow>
       if tt_queue tt \<noteq> [] \<and> oe_unexpected_eof (hd (tt_queue tt)) then (tr_closed, err_clear_error tt)
       else (tr_error, log_openssl_failure operation [] tt)
   | SSL_ERROR_OTHER \<Rightarrow> (tr_error, log_openssl_failure operation [] tt))"

section \<open>Pending writes\<close>

definition fresh_stalled_write :: stalled_write where
  "fresh_stalled_write = \<lparr>sw_kind = Stalled_None, sw_buffer = None, sw_length = 0, sw_scratch_address = None,
     sw_scratch_capacity = 0, sw_scratch = []\<rparr>"

text \<open>\<open>stalled_write_for\<close>: the state kept with the object, made on first use; \<open>ssl_ex_data_stored\<close> says whether
  making it succeeds.\<close>

definition stalled_write_for :: "ssl \<Rightarrow> stalled_write option \<times> ssl" where
  "stalled_write_for s = (case ssl_ex_data s of
     Some existing \<Rightarrow> (Some existing, s)
   | None \<Rightarrow> (case ssl_ex_data_stored s of
       True # answers \<Rightarrow> (Some fresh_stalled_write, s\<lparr>ssl_ex_data := Some fresh_stalled_write, ssl_ex_data_stored := answers\<rparr>)
     | _ # answers \<Rightarrow> (None, s\<lparr>ssl_ex_data_stored := answers\<rparr>)
     | [] \<Rightarrow> (None, s)))"

definition matches_stalled_write :: "stalled_write \<Rightarrow> stalled_kind \<Rightarrow> nat option \<Rightarrow> nat \<Rightarrow> bool" where
  "matches_stalled_write pending kind buffer len =
     (if sw_kind pending = Stalled_None then True
      else sw_kind pending = kind \<and> sw_buffer pending = buffer \<and> sw_length pending = len)"

definition record_write_outcome ::
  "transport_result \<Rightarrow> stalled_kind \<Rightarrow> nat option \<Rightarrow> nat \<Rightarrow> stalled_write \<Rightarrow> stalled_write" where
  "record_write_outcome outcome kind buffer len pending =
     (if is_blocked outcome then pending\<lparr>sw_kind := kind, sw_buffer := buffer, sw_length := len\<rparr>
      else pending\<lparr>sw_kind := Stalled_None, sw_buffer := None, sw_length := 0\<rparr>)"

text \<open>\<open>SSL_write_ex\<close> on the first \<open>len\<close> bytes at an address: what it takes goes out; the call is recorded.\<close>

definition ssl_write_ex :: "stalled_kind \<Rightarrow> nat option \<Rightarrow> bytes \<Rightarrow> ssl \<Rightarrow> ssl_call \<times> ssl" where
  "ssl_write_ex kind address data s =
     (let (call, calls) = (case ssl_writes s of [] \<Rightarrow> (blocked_call SSL_ERROR_WANT_WRITE, []) | c # cs \<Rightarrow> (c, cs));
          written = (if sc_result call = 1 then min (sc_count call) (length data) else 0);
          blocked = (sc_result call \<noteq> 1 \<and> sc_error call \<in> {SSL_ERROR_WANT_READ, SSL_ERROR_WANT_WRITE})
      in (call\<lparr>sc_count := written\<rparr>,
          s\<lparr>ssl_writes := calls, ssl_wire := ssl_wire s @ take written data,
            ssl_history := ssl_history s @ [\<lparr>wc_kind = kind, wc_address = address, wc_data = data, wc_blocked = blocked\<rparr>]\<rparr>))"

definition write_through_ssl ::
  "(int \<Rightarrow> bytes) \<Rightarrow> ssl \<Rightarrow> stalled_write option \<Rightarrow> stalled_kind \<Rightarrow> nat option \<Rightarrow> bytes \<Rightarrow> nat \<Rightarrow> tls_transport \<Rightarrow>
    transport_result \<times> tls_transport" where
  "write_through_ssl describe s pending kind address data len tt =
     (if pending \<noteq> None \<and> \<not> matches_stalled_write (the pending) kind address len then
        (tr_error, log_tls_error ''tls: SSL_write_ex retry presented a different buffer than the stalled call''
           (tt\<lparr>tt_ssl := Some s\<rparr>))
      else
        let tt = err_clear_error tt;
            (call, s) = ssl_write_ex kind address (take len data) s;
            tt = tt\<lparr>tt_queue := sc_queued call\<rparr>;
            (outcome, tt) =
              (if sc_result call = 1 then (tr_ok (sc_count call), tt)
               else classify_ssl_failure describe call ''SSL_write_ex'' tt)
        in (outcome, tt\<lparr>tt_ssl := Some (s\<lparr>ssl_ex_data :=
             map_option (record_write_outcome outcome kind address len) pending\<rparr>)\<rparr>))"

text \<open>\<open>coalesce_into_scratch\<close>: whether it succeeds. \<open>reserve\<close> keeps the storage when it is large enough.\<close>

definition coalesce_into_scratch :: "bytes list \<Rightarrow> nat \<Rightarrow> stalled_write \<Rightarrow> ssl \<Rightarrow> bool \<times> stalled_write \<times> ssl" where
  "coalesce_into_scratch vectors total_bytes pending s =
     (if total_bytes \<le> sw_scratch_capacity pending then (True, pending\<lparr>sw_scratch := concat vectors\<rparr>, s)
      else case ssl_allocations s of
        Some address # answers \<Rightarrow>
          (True, pending\<lparr>sw_scratch_address := Some address, sw_scratch_capacity := total_bytes, sw_scratch := concat vectors\<rparr>,
           s\<lparr>ssl_allocations := answers\<rparr>)
      | _ # answers \<Rightarrow> (False, pending\<lparr>sw_scratch := []\<rparr>, s\<lparr>ssl_allocations := answers\<rparr>)
      | [] \<Rightarrow> (False, pending\<lparr>sw_scratch := []\<rparr>, s))"

section \<open>The transport\<close>

definition assign_negotiated_alpn :: "ssl \<Rightarrow> bytes" where
  "assign_negotiated_alpn s = (case ssl_alpn s of None \<Rightarrow> [] | Some protocol \<Rightarrow> protocol)"

definition TlsTransport_handshake :: "(int \<Rightarrow> bytes) \<Rightarrow> tls_transport \<Rightarrow> transport_result \<times> tls_transport" where
  "TlsTransport_handshake describe tt = (case tt_ssl tt of
     None \<Rightarrow> (tr_error, tt)
   | Some s \<Rightarrow>
       let tt = err_clear_error tt;
           (call, calls) = (case ssl_accepts s of [] \<Rightarrow> (blocked_call SSL_ERROR_WANT_READ, []) | c # cs \<Rightarrow> (c, cs));
           tt = tt\<lparr>tt_queue := sc_queued call, tt_ssl := Some (s\<lparr>ssl_accepts := calls\<rparr>)\<rparr>
       in if sc_result call = 1 then (tr_ok 0, tt\<lparr>tt_alpn := assign_negotiated_alpn s\<rparr>)
          else classify_ssl_failure describe call ''SSL_accept'' tt)"

text \<open>Bytes a read has no room for stay with OpenSSL, for the next.\<close>

definition TlsTransport_read :: "(int \<Rightarrow> bytes) \<Rightarrow> nat \<Rightarrow> tls_transport \<Rightarrow> transport_result \<times> bytes \<times> tls_transport" where
  "TlsTransport_read describe n tt = (case tt_ssl tt of
     None \<Rightarrow> (tr_error, [], tt)
   | Some s \<Rightarrow>
       if n = 0 then (tr_ok 0, [], tt)
       else
         let tt = err_clear_error tt;
             (call, data, calls) = (case ssl_reads s of
                [] \<Rightarrow> (blocked_call SSL_ERROR_WANT_READ, [], [])
              | (c, data) # cs \<Rightarrow> (c, take n data, if sc_result c = 1 \<and> drop n data \<noteq> [] then (c, drop n data) # cs else cs));
             tt = tt\<lparr>tt_queue := sc_queued call, tt_ssl := Some (s\<lparr>ssl_reads := calls\<rparr>)\<rparr>
         in if sc_result call = 1 then (tr_ok (length data), data, tt)
            else case classify_ssl_failure describe call ''SSL_read_ex'' tt of (outcome, tt) \<Rightarrow> (outcome, [], tt))"

definition TlsTransport_write :: "(int \<Rightarrow> bytes) \<Rightarrow> nat \<Rightarrow> bytes \<Rightarrow> tls_transport \<Rightarrow> transport_result \<times> tls_transport" where
  "TlsTransport_write describe address data tt = (case tt_ssl tt of
     None \<Rightarrow> (tr_error, tt)
   | Some s \<Rightarrow>
       if data = [] then (tr_ok 0, tt)
       else case stalled_write_for s of (pending, s) \<Rightarrow>
         write_through_ssl describe s pending Stalled_Write (Some address) data (length data) tt)"

definition TlsTransport_writev :: "(int \<Rightarrow> bytes) \<Rightarrow> bytes list \<Rightarrow> tls_transport \<Rightarrow> transport_result \<times> tls_transport" where
  "TlsTransport_writev describe vectors tt = (case tt_ssl tt of
     None \<Rightarrow> (tr_error, tt)
   | Some s \<Rightarrow>
       let total_bytes = sum_list (map length vectors) in
       if total_bytes = 0 then (tr_ok 0, tt)
       else case stalled_write_for s of
         (None, s) \<Rightarrow>
           (tr_error, log_tls_error ''tls: no memory for this connection's pending-write state'' (tt\<lparr>tt_ssl := Some s\<rparr>))
       | (Some pending, s) \<Rightarrow>
           let is_retry = (sw_kind pending = Stalled_Writev \<and> sw_length pending = total_bytes);
               (ready, pending, s) = (if is_retry then (True, pending, s) else coalesce_into_scratch vectors total_bytes pending s)
           in if \<not> ready
              then (tr_error, log_tls_error ''tls: no memory for the record coalescing buffer''
                      (tt\<lparr>tt_ssl := Some (s\<lparr>ssl_ex_data := Some pending\<rparr>)\<rparr>))
              else write_through_ssl describe (s\<lparr>ssl_ex_data := Some pending\<rparr>) (Some pending) Stalled_Writev
                     (sw_scratch_address pending) (sw_scratch pending) total_bytes tt)"

definition TlsTransport_shutdown :: "(int \<Rightarrow> bytes) \<Rightarrow> tls_transport \<Rightarrow> transport_result \<times> tls_transport" where
  "TlsTransport_shutdown describe tt = (case tt_ssl tt of
     None \<Rightarrow> (tr_ok 0, tt)
   | Some s \<Rightarrow>
       let tt = err_clear_error tt;
           (call, calls) = (case ssl_shutdowns s of [] \<Rightarrow> (blocked_call SSL_ERROR_WANT_WRITE, []) | c # cs \<Rightarrow> (c, cs));
           tt = tt\<lparr>tt_queue := sc_queued call, tt_ssl := Some (s\<lparr>ssl_shutdowns := calls\<rparr>)\<rparr>
       in if sc_result call \<ge> 0 then (tr_ok 0, tt)
          else classify_ssl_failure describe call ''SSL_shutdown'' tt)"

definition rfc2253_subject :: "bytes option \<Rightarrow> bytes option" where
  "rfc2253_subject printed = map_option escape_equals_inside_values printed"

definition TlsTransport_peer_certificate_subject :: "tls_transport \<Rightarrow> bytes option" where
  "TlsTransport_peer_certificate_subject tt = (case tt_ssl tt of
     None \<Rightarrow> None
   | Some s \<Rightarrow>
       if \<not> ssl_verify_peer s then None
       else if \<not> ssl_verify_ok s then None
       else case ssl_certificate s of
         None \<Rightarrow> None
       | Some c \<Rightarrow> (case cert_subject c of None \<Rightarrow> None | Some printed \<Rightarrow> rfc2253_subject printed))"

text \<open>Moving and destroying: the OpenSSL objects an operation frees come last. A moved-from string is empty;
  assigning an object to itself does nothing, so the two transports of an assignment are different objects.\<close>

definition moved_from :: "tls_transport \<Rightarrow> tls_transport" where
  "moved_from other = other\<lparr>tt_fd := - 1, tt_ssl := None, tt_has_logger := False, tt_alpn := []\<rparr>"

definition TlsTransport_move :: "tls_transport \<Rightarrow> tls_transport \<times> tls_transport" where
  "TlsTransport_move other = (other, moved_from other)"

definition TlsTransport_move_assign :: "tls_transport \<Rightarrow> tls_transport \<Rightarrow> tls_transport \<times> tls_transport \<times> ssl list" where
  "TlsTransport_move_assign this other =
     (other, moved_from other, case tt_ssl this of None \<Rightarrow> [] | Some s \<Rightarrow> [s])"

definition TlsTransport_destroy :: "tls_transport \<Rightarrow> ssl list" where
  "TlsTransport_destroy tt = (case tt_ssl tt of None \<Rightarrow> [] | Some s \<Rightarrow> [s])"

text \<open>Each object is freed exactly once: assigning and then destroying both transports frees what destroying
  both would have freed.\<close>

lemma move_assign_frees_once:
  assumes "TlsTransport_move_assign this other = (this', other', freed)"
  shows "freed @ TlsTransport_destroy this' @ TlsTransport_destroy other' = TlsTransport_destroy this @ TlsTransport_destroy other"
  using assms by (auto simp: TlsTransport_move_assign_def TlsTransport_destroy_def moved_from_def)

lemma move_frees_once:
  assumes "TlsTransport_move other = (tt, other')"
  shows "TlsTransport_destroy tt @ TlsTransport_destroy other' = TlsTransport_destroy other"
  using assms by (auto simp: TlsTransport_move_def TlsTransport_destroy_def moved_from_def)

section \<open>Retries\<close>

datatype write_op = Op_Write nat bytes | Op_Writev "bytes list"

definition op_data :: "write_op \<Rightarrow> bytes" where
  "op_data op = (case op of Op_Write address data \<Rightarrow> data | Op_Writev vectors \<Rightarrow> concat vectors)"

definition do_write :: "(int \<Rightarrow> bytes) \<Rightarrow> write_op \<Rightarrow> tls_transport \<Rightarrow> transport_result \<times> tls_transport" where
  "do_write describe op tt = (case op of
     Op_Write address data \<Rightarrow> TlsTransport_write describe address data tt
   | Op_Writev vectors \<Rightarrow> TlsTransport_writev describe vectors tt)"

text \<open>A client writes until a write reports that the connection is over.\<close>

fun run_writes :: "(int \<Rightarrow> bytes) \<Rightarrow> write_op list \<Rightarrow> tls_transport \<Rightarrow> transport_result list \<times> tls_transport" where
  "run_writes describe [] tt = ([], tt)"
| "run_writes describe (op # ops) tt =
     (case do_write describe op tt of (r, tt') \<Rightarrow>
        if is_terminal r then ([r], tt') else apfst (Cons r) (run_writes describe ops tt'))"

text \<open>The rule of \<open>SSL_write_ex\<close>: a call after one that blocked repeats it. A coalesced write also repeats the
  bytes.\<close>

definition retry_of :: "write_call \<Rightarrow> write_call \<Rightarrow> bool" where
  "retry_of c d \<longleftrightarrow> wc_address d = wc_address c \<and> length (wc_data d) = length (wc_data c) \<and> wc_kind d = wc_kind c \<and>
     (wc_kind c = Stalled_Writev \<longrightarrow> wc_data d = wc_data c)"

fun retries_agree :: "write_call list \<Rightarrow> bool" where
  "retries_agree (c # d # cs) \<longleftrightarrow> (wc_blocked c \<longrightarrow> retry_of c d) \<and> retries_agree (d # cs)"
| "retries_agree cs \<longleftrightarrow> True"

definition last_blocked :: "write_call list \<Rightarrow> bool" where
  "last_blocked cs \<longleftrightarrow> cs \<noteq> [] \<and> wc_blocked (last cs)"

lemma retries_agree_snoc:
  "retries_agree (cs @ [d]) \<longleftrightarrow> retries_agree cs \<and> (last_blocked cs \<longrightarrow> retry_of (last cs) d)"
  by (induction cs rule: retries_agree.induct) (auto simp: last_blocked_def)

lemma last_blocked_snoc [simp]: "last_blocked (cs @ [d]) \<longleftrightarrow> wc_blocked d"
  by (simp add: last_blocked_def)

text \<open>What the pending state knows of the last call.\<close>

definition pending_agrees :: "write_call list \<Rightarrow> stalled_write \<Rightarrow> bool" where
  "pending_agrees cs p \<longleftrightarrow> (last_blocked cs \<longleftrightarrow> sw_kind p \<noteq> Stalled_None) \<and>
     (last_blocked cs \<longrightarrow> wc_kind (last cs) = sw_kind p \<and> wc_address (last cs) = sw_buffer p \<and>
        length (wc_data (last cs)) = sw_length p \<and>
        (sw_kind p = Stalled_Writev \<longrightarrow> sw_scratch_address p = sw_buffer p \<and> sw_scratch p = wc_data (last cs)))"

definition retry_invariant :: "ssl \<Rightarrow> bool" where
  "retry_invariant s \<longleftrightarrow> retries_agree (ssl_history s) \<and>
     (case ssl_ex_data s of
        None \<Rightarrow> ssl_ex_data_stored s \<noteq> [] \<and> hd (ssl_ex_data_stored s) \<and> \<not> last_blocked (ssl_history s)
      | Some p \<Rightarrow> pending_agrees (ssl_history s) p)"

lemma classify_ssl_failure_frame:
  assumes "classify_ssl_failure describe call operation tt = (r, tt')"
  shows "tt_ssl tt' = tt_ssl tt" "tr_bytes r = 0" "tr_status r \<noteq> T_Ok"
    "is_blocked r \<longleftrightarrow> sc_error call \<in> {SSL_ERROR_WANT_READ, SSL_ERROR_WANT_WRITE}"
  using assms
  by (auto simp: classify_ssl_failure_def tr_defs is_blocked_def err_clear_error_def log_openssl_failure_def log_tls_error_def
      split: ssl_error.splits if_splits)

lemma write_through_ssl_cases:
  assumes "write_through_ssl describe s (Some p) kind address data len tt = (r, tt')"
  obtains (mismatch) "\<not> matches_stalled_write p kind address len" "r = tr_error" "tt_ssl tt' = Some s"
  | (called) calls where "matches_stalled_write p kind address len"
      "tt_ssl tt' = Some (s\<lparr>ssl_writes := calls, ssl_wire := ssl_wire s @ take (tr_bytes r) (take len data),
         ssl_history := ssl_history s @ [\<lparr>wc_kind = kind, wc_address = address, wc_data = take len data, wc_blocked = is_blocked r\<rparr>],
         ssl_ex_data := Some (record_write_outcome r kind address len p)\<rparr>)"
      "tr_bytes r \<le> length (take len data)" "tr_status r \<noteq> T_Ok \<longrightarrow> tr_bytes r = 0"
proof (cases "matches_stalled_write p kind address len")
  case False
  with assms show ?thesis by (intro mismatch) (auto simp: write_through_ssl_def log_tls_error_def split: if_splits)
next
  case True
  obtain call s' where w: "ssl_write_ex kind address (take len data) s = (call, s')" by fastforce
  show ?thesis
  proof (cases "sc_result call = 1")
    case ok: True
    with assms True w show ?thesis
      by (intro called [of "ssl_writes s'"])
        (auto simp: write_through_ssl_def ssl_write_ex_def Let_def tr_defs is_blocked_def split: list.splits)
  next
    case failed: False
    obtain r2 tt2 where c: "classify_ssl_failure describe call ''SSL_write_ex'' (err_clear_error tt\<lparr>tt_queue := sc_queued call\<rparr>) = (r2, tt2)"
      by fastforce
    have "r = r2" "tt' = tt2\<lparr>tt_ssl := Some (s'\<lparr>ssl_ex_data := Some (record_write_outcome r2 kind address len p)\<rparr>)\<rparr>"
      using assms True w failed c by (auto simp: write_through_ssl_def)
    with True w failed classify_ssl_failure_frame [OF c] show ?thesis
      by (intro called [of "ssl_writes s'"]) (auto simp: ssl_write_ex_def Let_def split: list.splits)
  qed
qed

lemma stalled_write_for_invariant:
  assumes "retry_invariant s"
  obtains p s' where "stalled_write_for s = (Some p, s')" "ssl_ex_data s' = Some p" "retry_invariant s'"
    "ssl_history s' = ssl_history s" "ssl_wire s' = ssl_wire s" "ssl_allocations s' = ssl_allocations s"
proof (cases "ssl_ex_data s")
  case None
  then obtain answers where "ssl_ex_data_stored s = True # answers"
    using assms by (cases "ssl_ex_data_stored s") (auto simp: retry_invariant_def)
  with None assms show ?thesis
    by (intro that [of fresh_stalled_write "s\<lparr>ssl_ex_data := Some fresh_stalled_write, ssl_ex_data_stored := answers\<rparr>"])
      (auto simp: stalled_write_for_def retry_invariant_def pending_agrees_def fresh_stalled_write_def)
next
  case (Some p)
  with assms show ?thesis by (intro that [of p s]) (auto simp: stalled_write_for_def)
qed

lemma coalesce_into_scratch_cases:
  assumes "coalesce_into_scratch vectors total_bytes p s = (ready, p', s')"
  shows "ssl_history s' = ssl_history s" "ssl_wire s' = ssl_wire s" "ssl_ex_data s' = ssl_ex_data s"
    "sw_kind p' = sw_kind p" "sw_length p' = sw_length p" "sw_buffer p' = sw_buffer p"
    "ready \<longrightarrow> sw_scratch p' = concat vectors"
  using assms by (auto simp: coalesce_into_scratch_def split: if_splits list.splits option.splits)

text \<open>A write either has nothing to do, or is refused before OpenSSL is called, or makes one call that agrees with
  the pending state: with the data given, or, when it repeats a coalesced write, with the bytes of that.\<close>

definition after_call :: "stalled_kind \<Rightarrow> nat option \<Rightarrow> bytes \<Rightarrow> transport_result \<Rightarrow> stalled_write \<Rightarrow> ssl_call list \<Rightarrow> ssl \<Rightarrow> ssl" where
  "after_call kind address data r p calls s =
     s\<lparr>ssl_writes := calls, ssl_wire := ssl_wire s @ take (tr_bytes r) data,
       ssl_history := ssl_history s @ [\<lparr>wc_kind = kind, wc_address = address, wc_data = data, wc_blocked = is_blocked r\<rparr>],
       ssl_ex_data := Some (record_write_outcome r kind address (length data) p)\<rparr>"

lemma write_through_ssl_outcome:
  assumes "write_through_ssl describe s (Some p) kind address data (length data) tt = (r, tt')"
  shows "(r = tr_error \<and> tt_ssl tt' = Some s) \<or>
    (matches_stalled_write p kind address (length data) \<and> tr_bytes r \<le> length data \<and>
      (\<exists>calls. tt_ssl tt' = Some (after_call kind address data r p calls s)))"
  using assms by (cases rule: write_through_ssl_cases) (auto simp: after_call_def)

lemma writev_prepared:
  assumes "TlsTransport_writev describe vectors tt = (r, tt')" "tt_ssl tt = Some s" "concat vectors \<noteq> []"
    and "stalled_write_for s = (Some p, s1)" "pending_agrees (ssl_history s1) p"
  obtains (failed) s' where "r = tr_error" "tt_ssl tt' = Some s'" "ssl_history s' = ssl_history s1" "ssl_wire s' = ssl_wire s1"
  | (ready) p2 s2 where
      "write_through_ssl describe s2 (Some p2) Stalled_Writev (sw_scratch_address p2) (sw_scratch p2) (length (sw_scratch p2)) tt = (r, tt')"
      "ssl_history s2 = ssl_history s1" "ssl_wire s2 = ssl_wire s1"
      "matches_stalled_write p2 Stalled_Writev (sw_scratch_address p2) (length (sw_scratch p2)) \<longrightarrow> pending_agrees (ssl_history s1) p2"
      "sw_scratch p2 = concat vectors \<or> last_blocked (ssl_history s1) \<and> sw_scratch p2 = wc_data (last (ssl_history s1)) \<and>
        length (sw_scratch p2) = length (concat vectors)"
proof -
  define total_bytes where "total_bytes = sum_list (map length vectors)"
  have total: "total_bytes = length (concat vectors)" by (simp add: total_bytes_def length_concat)
  with assms(3) have positive: "0 < total_bytes" by simp
  show ?thesis
  proof (cases "sw_kind p = Stalled_Writev \<and> sw_length p = total_bytes")
    case True
    have again: "last_blocked (ssl_history s1)" "sw_scratch p = wc_data (last (ssl_history s1))" "total_bytes = length (sw_scratch p)"
      using assms(5) True by (auto simp: pending_agrees_def)
    have "write_through_ssl describe (s1\<lparr>ssl_ex_data := Some p\<rparr>) (Some p) Stalled_Writev (sw_scratch_address p) (sw_scratch p)
        (length (sw_scratch p)) tt = (r, tt')"
      unfolding again(3) [symmetric]
      using assms True positive by (simp add: TlsTransport_writev_def total_bytes_def [symmetric] Let_def)
    then show ?thesis by (rule ready) (use assms(5) again total in simp_all)
  next
    case fresh: False
    obtain prepared p2 s2 where c: "coalesce_into_scratch vectors total_bytes p s1 = (prepared, p2, s2)" by (metis prod_cases3)
    note frame = coalesce_into_scratch_cases [OF c]
    let ?s = "s2\<lparr>ssl_ex_data := Some p2\<rparr>"
    have eq: "(r, tt') = (if \<not> prepared then (tr_error, log_tls_error ''tls: no memory for the record coalescing buffer'' (tt\<lparr>tt_ssl := Some ?s\<rparr>))
        else write_through_ssl describe ?s (Some p2) Stalled_Writev (sw_scratch_address p2) (sw_scratch p2) total_bytes tt)"
      using assms fresh positive c by (simp add: TlsTransport_writev_def total_bytes_def [symmetric] Let_def)
    show ?thesis
    proof (cases prepared)
      case False
      with eq failed [of ?s] frame show ?thesis by (auto simp: log_tls_error_def split: if_splits)
    next
      case True
      then have data: "sw_scratch p2 = concat vectors" using frame(7) by simp
      have "pending_agrees (ssl_history s1) p2"
        if "matches_stalled_write p2 Stalled_Writev (sw_scratch_address p2) total_bytes"
        using that fresh frame assms(5) by (auto simp: matches_stalled_write_def pending_agrees_def split: if_splits)
      moreover have "write_through_ssl describe ?s (Some p2) Stalled_Writev (sw_scratch_address p2) (sw_scratch p2)
          (length (sw_scratch p2)) tt = (r, tt')"
        using eq True data total by simp
      ultimately show ?thesis using ready [of ?s p2] frame data total by simp
    qed
  qed
qed

lemma do_write_cases:
  assumes "do_write describe op tt = (r, tt')" "tt_ssl tt = Some s" "retry_invariant s"
  obtains (idle) "op_data op = []" "r = tr_ok 0" "tt' = tt"
  | (refused) s' where "r = tr_error" "tt_ssl tt' = Some s'" "ssl_history s' = ssl_history s" "ssl_wire s' = ssl_wire s"
  | (called) kind address data p calls s1 where
      "tt_ssl tt' = Some (after_call kind address data r p calls s1)" "ssl_history s1 = ssl_history s" "ssl_wire s1 = ssl_wire s"
      "tr_bytes r \<le> length data" "kind \<noteq> Stalled_None" "op_data op \<noteq> []"
      "matches_stalled_write p kind address (length data)" "pending_agrees (ssl_history s) p"
      "kind = Stalled_Writev \<longrightarrow> address = sw_scratch_address p \<and> data = sw_scratch p"
      "data = op_data op \<or> last_blocked (ssl_history s) \<and> data = wc_data (last (ssl_history s)) \<and> length data = length (op_data op)"
proof (cases "op_data op = []")
  case True
  with assms have "r = tr_ok 0 \<and> tt' = tt"
    by (cases op) (auto simp: op_data_def do_write_def TlsTransport_write_def TlsTransport_writev_def)
  with True idle show ?thesis by blast
next
  case nonempty: False
  obtain p s1 where p: "stalled_write_for s = (Some p, s1)" "ssl_ex_data s1 = Some p" "retry_invariant s1"
      "ssl_history s1 = ssl_history s" "ssl_wire s1 = ssl_wire s"
    using assms(3) by (rule stalled_write_for_invariant)
  have pa: "pending_agrees (ssl_history s) p" using p by (auto simp: retry_invariant_def)
  show ?thesis
  proof (cases op)
    case (Op_Write address data)
    with nonempty assms p have "write_through_ssl describe s1 (Some p) Stalled_Write (Some address) data (length data) tt = (r, tt')"
      by (auto simp: do_write_def TlsTransport_write_def op_data_def)
    from write_through_ssl_outcome [OF this] show ?thesis
      using refused [of s1] called [of Stalled_Write "Some address" data p _ s1] Op_Write nonempty p pa
      by (auto simp: op_data_def)
  next
    case (Op_Writev vectors)
    with assms(1) nonempty have w: "TlsTransport_writev describe vectors tt = (r, tt')" "concat vectors \<noteq> []"
      by (simp_all add: do_write_def op_data_def)
    have pa1: "pending_agrees (ssl_history s1) p" using pa p(4) by simp
    show ?thesis
    proof (rule writev_prepared [OF w(1) assms(2) w(2) p(1) pa1], goal_cases)
      case (1 s')
      with refused p show ?case by simp
    next
      case (2 p2 s2)
      from write_through_ssl_outcome [OF 2(1)] show ?case
        using refused [of s2] called [of Stalled_Writev "sw_scratch_address p2" "sw_scratch p2" p2 _ s2] 2 p nonempty Op_Writev
        by (auto simp: op_data_def)
    qed
  qed
qed

lemma after_call_keeps:
  assumes "retries_agree (ssl_history s)" "pending_agrees (ssl_history s) p" "kind \<noteq> Stalled_None"
    and "matches_stalled_write p kind address (length data)"
    and "kind = Stalled_Writev \<longrightarrow> address = sw_scratch_address p \<and> data = sw_scratch p"
  shows "retry_invariant (after_call kind address data r p calls s)"
proof -
  let ?c = "\<lparr>wc_kind = kind, wc_address = address, wc_data = data, wc_blocked = is_blocked r\<rparr>"
  have "retries_agree (ssl_history s @ [?c])"
    using assms
    by (auto simp: retries_agree_snoc retry_of_def pending_agrees_def matches_stalled_write_def split: if_splits)
  moreover have "pending_agrees (ssl_history s @ [?c]) (record_write_outcome r kind address (length data) p)"
    using assms(3,5) by (auto simp: pending_agrees_def record_write_outcome_def)
  ultimately show ?thesis by (simp add: retry_invariant_def after_call_def)
qed

text \<open>One write of a client that repeats the data of a write that blocked: \<open>owed\<close> is what it owes.\<close>

definition owed :: "ssl \<Rightarrow> bytes option" where
  "owed s = (if last_blocked (ssl_history s) then Some (wc_data (last (ssl_history s))) else None)"

lemma do_write_keeps:
  assumes "do_write describe op tt = (r, tt')" "tt_ssl tt = Some s" "retry_invariant s"
  shows "\<exists>s'. tt_ssl tt' = Some s' \<and> retries_agree (ssl_history s') \<and> (\<not> is_terminal r \<longrightarrow> retry_invariant s')"
  using assms
proof (cases rule: do_write_cases)
  case idle
  with assms show ?thesis by (simp add: retry_invariant_def)
next
  case (refused s')
  with assms(3) show ?thesis by (auto simp: retry_invariant_def is_terminal_def tr_defs)
next
  case (called kind address data p calls s1)
  then have "retry_invariant (after_call kind address data r p calls s1)"
    using assms(3) by (intro after_call_keeps) (auto simp: retry_invariant_def)
  with called(1) show ?thesis by (auto simp: retry_invariant_def)
qed

lemma do_write_wire:
  assumes "do_write describe op tt = (r, tt')" "tt_ssl tt = Some s" "retry_invariant s"
    and "owed s \<noteq> None \<longrightarrow> owed s = Some (op_data op) \<and> op_data op \<noteq> []"
  shows "\<exists>s'. tt_ssl tt' = Some s' \<and> ssl_wire s' = ssl_wire s @ take (tr_bytes r) (op_data op) \<and> tr_bytes r \<le> length (op_data op) \<and>
    (\<not> is_terminal r \<longrightarrow> (if is_blocked r then owed s' = Some (op_data op) \<and> op_data op \<noteq> [] else owed s' = None))"
  using assms(1-3)
proof (cases rule: do_write_cases)
  case idle
  with assms show ?thesis by (auto simp: tr_defs is_blocked_def)
next
  case (refused s')
  then show ?thesis by (auto simp: is_terminal_def tr_defs)
next
  case (called kind address data p calls s1)
  have "data = op_data op"
    using called(10) assms(4) by (auto simp: owed_def)
  with called show ?thesis by (auto simp: after_call_def owed_def)
qed

lemma run_writes_keeps:
  assumes "tt_ssl tt = Some s" "retry_invariant s"
  shows "\<exists>s'. tt_ssl (snd (run_writes describe ops tt)) = Some s' \<and> retries_agree (ssl_history s')"
  using assms
proof (induction describe ops tt arbitrary: s rule: run_writes.induct)
  case (1 describe tt)
  then show ?case by (simp add: retry_invariant_def)
next
  case (2 describe op ops tt)
  obtain r tt' where w: "do_write describe op tt = (r, tt')" by fastforce
  obtain s' where "tt_ssl tt' = Some s'" "retries_agree (ssl_history s')" "\<not> is_terminal r \<longrightarrow> retry_invariant s'"
    using do_write_keeps [OF w 2(2,3)] by blast
  with w 2(1) [OF w [symmetric]] show ?case by auto
qed

text \<open>Without the pending state \<open>writev\<close> refuses every write.\<close>

lemma run_writev_unstored:
  assumes "tt_ssl tt = Some s" "ssl_ex_data s = None" "ssl_ex_data_stored s = [] \<or> \<not> hd (ssl_ex_data_stored s)"
    and "\<forall>op \<in> set ops. \<exists>vectors. op = Op_Writev vectors"
  shows "\<exists>s'. tt_ssl (snd (run_writes describe ops tt)) = Some s' \<and> ssl_history s' = ssl_history s"
  using assms(4)
proof (induction ops)
  case Nil
  then show ?case using assms(1) by simp
next
  case (Cons op ops)
  then obtain vectors where op: "op = Op_Writev vectors" by auto
  obtain s1 where none: "stalled_write_for s = (None, s1)" "ssl_history s1 = ssl_history s"
    using assms(2,3) by (cases "ssl_ex_data_stored s") (auto simp: stalled_write_for_def)
  show ?case
  proof (cases "concat vectors = []")
    case True
    then have "do_write describe op tt = (tr_ok 0, tt)"
      using assms(1) op by (auto simp: do_write_def TlsTransport_writev_def)
    then show ?thesis using Cons by (auto simp: is_terminal_def tr_defs)
  next
    case False
    then have "sum_list (map length vectors) \<noteq> 0" by (metis length_0_conv length_concat)
    then obtain message where "TlsTransport_writev describe vectors tt = (tr_error, log_tls_error message (tt\<lparr>tt_ssl := Some s1\<rparr>))"
      unfolding TlsTransport_writev_def Let_def assms(1) option.case none(1) prod.case using if_not_P by metis
    then obtain tt' where "do_write describe op tt = (tr_error, tt')" "tt_ssl tt' = Some s1"
      by (simp add: op do_write_def log_tls_error_def)
    then show ?thesis using none(2) by (simp add: is_terminal_def tr_defs)
  qed
qed

text \<open>C22: OpenSSL never sees a bad write retry. On a fresh connection, and whatever OpenSSL answers to the writes,
  every \<open>SSL_write_ex\<close> that follows one which blocked is given the same address and length, and a coalesced
  one the same bytes; a client that comes back with another buffer is refused before the call. This holds
  for a client that only uses \<open>writev\<close>, as the server's connections do, whether or not the pending state can
  be stored with the connection, and for one that also uses \<open>write\<close> when it can.\<close>

theorem write_retries_agree:
  assumes "tt_ssl tt = Some s" "ssl_history s = []" "ssl_ex_data s = None"
    and "(\<forall>op \<in> set ops. \<exists>vectors. op = Op_Writev vectors) \<or> (\<exists>answers. ssl_ex_data_stored s = True # answers)"
  shows "\<exists>s'. tt_ssl (snd (run_writes describe ops tt)) = Some s' \<and> retries_agree (ssl_history s')"
proof (cases "ssl_ex_data_stored s = [] \<or> \<not> hd (ssl_ex_data_stored s)")
  case True
  then have "\<exists>s'. tt_ssl (snd (run_writes describe ops tt)) = Some s' \<and> ssl_history s' = ssl_history s"
    using assms(4) by (intro run_writev_unstored [OF assms(1,3)]) auto
  then show ?thesis using assms(2) by auto
next
  case False
  then have "retry_invariant s" using assms(2,3) by (simp add: retry_invariant_def last_blocked_def)
  then show ?thesis using run_writes_keeps [OF assms(1)] by blast
qed

text \<open>\<open>write\<close> has no such check: when the pending state cannot be stored it hands OpenSSL whatever buffer it
  is given after a write that blocked.\<close>

theorem unstored_write_retry_unchecked:
  "\<exists>tt s. tt_ssl tt = Some s \<and> ssl_history s = [] \<and> ssl_ex_data s = None \<and> ssl_ex_data_stored s = [False, False] \<and>
     map wc_address (ssl_history (the (tt_ssl (snd (run_writes (\<lambda>_. []) [Op_Write 100 ''ab'', Op_Write 200 ''cde''] tt))))) =
       [Some 100, Some 200] \<and>
     \<not> retries_agree (ssl_history (the (tt_ssl (snd (run_writes (\<lambda>_. []) [Op_Write 100 ''ab'', Op_Write 200 ''cde''] tt)))))"
proof -
  define s :: ssl where "s = \<lparr>ssl_accepts = [], ssl_reads = [], ssl_writes = [], ssl_shutdowns = [], ssl_ex_data = None,
    ssl_ex_data_stored = [False, False], ssl_allocations = [], ssl_alpn = None, ssl_verify_peer = False, ssl_verify_ok = False,
    ssl_certificate = None, ssl_history = [], ssl_wire = []\<rparr>"
  define tt where "tt = \<lparr>tt_fd = 7, tt_ssl = Some s, tt_has_logger = False, tt_alpn = [], tt_queue = [], tt_log = []\<rparr>"
  show ?thesis
    by (intro exI [of _ tt] exI [of _ s])
      (simp add: s_def tt_def do_write_def TlsTransport_write_def stalled_write_for_def write_through_ssl_def ssl_write_ex_def
        blocked_call_def classify_ssl_failure_def err_clear_error_def is_terminal_def tr_defs retry_of_def Let_def)
qed

text \<open>A client that comes back with the same data after a write that blocked.\<close>

fun same_data_on_retry :: "write_op list \<Rightarrow> transport_result list \<Rightarrow> bool" where
  "same_data_on_retry (op # op' # ops) (r # rs) \<longleftrightarrow>
     (is_blocked r \<longrightarrow> op_data op' = op_data op) \<and> same_data_on_retry (op' # ops) rs"
| "same_data_on_retry ops rs \<longleftrightarrow> True"

definition reported :: "write_op list \<Rightarrow> transport_result list \<Rightarrow> bytes" where
  "reported ops rs = concat (map (\<lambda>(op, r). take (tr_bytes r) (op_data op)) (zip ops rs))"

lemma run_writes_wire:
  assumes "run_writes describe ops tt = (rs, tt')" "tt_ssl tt = Some s" "retry_invariant s" "same_data_on_retry ops rs"
    and "ops \<noteq> [] \<longrightarrow> owed s \<noteq> None \<longrightarrow> owed s = Some (op_data (hd ops)) \<and> op_data (hd ops) \<noteq> []"
  shows "\<exists>s'. tt_ssl tt' = Some s' \<and> ssl_wire s' = ssl_wire s @ reported ops rs"
  using assms
proof (induction describe ops tt arbitrary: s rs rule: run_writes.induct)
  case (1 describe tt)
  then show ?case by (simp add: reported_def)
next
  case (2 describe op ops tt)
  obtain r tt1 where w: "do_write describe op tt = (r, tt1)" by fastforce
  obtain s1 where s1: "tt_ssl tt1 = Some s1" "ssl_wire s1 = ssl_wire s @ take (tr_bytes r) (op_data op)"
    "\<not> is_terminal r \<longrightarrow> (if is_blocked r then owed s1 = Some (op_data op) \<and> op_data op \<noteq> [] else owed s1 = None)"
    "\<not> is_terminal r \<longrightarrow> retry_invariant s1"
    using do_write_wire [OF w 2(3,4)] do_write_keeps [OF w 2(3,4)] 2(6) by force
  show ?case
  proof (cases "is_terminal r")
    case True
    with 2(2) w s1 show ?thesis by (auto simp: reported_def)
  next
    case False
    obtain rs' where rs: "run_writes describe ops tt1 = (rs', tt')" "rs = r # rs'"
      using 2(2) w False by (cases "run_writes describe ops tt1") auto
    have next_op: "ops \<noteq> [] \<longrightarrow> owed s1 \<noteq> None \<longrightarrow> owed s1 = Some (op_data (hd ops)) \<and> op_data (hd ops) \<noteq> []"
      and same: "same_data_on_retry ops rs'"
      using 2(5) s1(3) False rs(2) by (cases ops; auto split: if_splits)+
    show ?thesis
      using 2(1) [OF w [symmetric] False rs(1) s1(1) _ same next_op] s1(2,4) False rs(2) by (auto simp: reported_def)
  qed
qed

text \<open>C23: what the peer's TLS stream carries is what the writes reported. For a client that repeats the same data
  after a write that blocked, in a run of any writes and any answers of OpenSSL, the bytes that went out
  are, in order, the first bytes of each write's data, as many as its result says; none is sent twice
  and none is lost.\<close>

theorem tls_wire_exact:
  assumes "run_writes describe ops tt = (rs, tt')" "same_data_on_retry ops rs"
    and "tt_ssl tt = Some s" "ssl_history s = []" "ssl_ex_data s = None" "ssl_ex_data_stored s \<noteq> []" "hd (ssl_ex_data_stored s)"
  shows "\<exists>s'. tt_ssl tt' = Some s' \<and> ssl_wire s' = ssl_wire s @ reported ops rs"
  using assms by (intro run_writes_wire [OF assms(1,3)])
    (auto simp: retry_invariant_def last_blocked_def owed_def)

text \<open>C21: an identity is only reported for a client that was asked for a certificate and whose certificate passed
  verification, and a handler finds in it exactly the attributes of the certificate's subject.\<close>

theorem verified_identity_exact:
  assumes "TlsTransport_peer_certificate_subject tt = Some identity"
    and "tt_ssl tt = Some s" "ssl_certificate s = Some c" "cert_subject c = Some (Some (subject_printed attributes))"
    and "list_all attribute_allowed attributes"
  shows "ssl_verify_peer s \<and> ssl_verify_ok s \<and>
    (client_identity_has_attribute identity attribute value_text \<longleftrightarrow>
      (\<exists>(type, us, separator) \<in> set attributes. equals_ignore_case type attribute \<and> map unit_char us = value_text))"
  using assms subject_attributes_exact [OF assms(5)]
  by (auto simp: TlsTransport_peer_certificate_subject_def rfc2253_subject_def split: if_splits)

text \<open>The thread's error queue stays clean: calls that succeed or would block leave nothing on it, and all
  others are drained.\<close>

definition orderly_call :: "ssl_call \<Rightarrow> bool" where
  "orderly_call c \<longleftrightarrow> (0 \<le> sc_result c \<and> sc_result c = 1 \<or> sc_error c \<in> {SSL_ERROR_WANT_READ, SSL_ERROR_WANT_WRITE} \<longrightarrow> sc_queued c = [])"

lemma classify_drains:
  assumes "classify_ssl_failure describe call operation tt = (r, tt')"
    and "sc_error call \<in> {SSL_ERROR_WANT_READ, SSL_ERROR_WANT_WRITE} \<longrightarrow> tt_queue tt = []"
  shows "tt_queue tt' = []"
  using assms
  by (auto simp: classify_ssl_failure_def err_clear_error_def log_openssl_failure_def split: ssl_error.splits if_splits)

section \<open>Samples\<close>

definition sample_ssl :: ssl where
  "sample_ssl = \<lparr>ssl_accepts = [], ssl_reads = [], ssl_writes = [blocked_call SSL_ERROR_WANT_WRITE, \<lparr>sc_result = 1, sc_count = 5, sc_errno = 0, sc_error = SSL_ERROR_OTHER, sc_queued = []\<rparr>],
     ssl_shutdowns = [], ssl_ex_data = None, ssl_ex_data_stored = [True], ssl_allocations = [Some 4096], ssl_alpn = None,
     ssl_verify_peer = True, ssl_verify_ok = True, ssl_certificate = Some \<lparr>cert_subject = Some (Some (subject_printed [(''CN'', map Printed ''a=b'', CHR '','')]))\<rparr>,
     ssl_history = [], ssl_wire = []\<rparr>"

definition sample_tls_transport :: tls_transport where
  "sample_tls_transport = \<lparr>tt_fd = 7, tt_ssl = Some sample_ssl, tt_has_logger = True, tt_alpn = [], tt_queue = [], tt_log = []\<rparr>"

definition sample_writes :: "write_op list" where
  "sample_writes = [Op_Writev [''ab'', ''cde''], Op_Writev [''ab'', ''cde'']]"

lemma sample_transport_fields:
  "tt_ssl sample_tls_transport = Some sample_ssl" "ssl_history sample_ssl = []" "ssl_ex_data sample_ssl = None"
  "ssl_ex_data_stored sample_ssl \<noteq> []" "hd (ssl_ex_data_stored sample_ssl)" "ssl_wire sample_ssl = []"
  by (simp_all add: sample_tls_transport_def sample_ssl_def)

theorem write_retries_agree_witness:
  "\<exists>s'. tt_ssl (snd (run_writes (\<lambda>_. []) sample_writes sample_tls_transport)) = Some s' \<and> retries_agree (ssl_history s')"
  using write_retries_agree [OF sample_transport_fields(1-3), of sample_writes] by (simp add: sample_writes_def)

lemmas sample_evaluation = sample_writes_def sample_tls_transport_def sample_ssl_def do_write_def TlsTransport_writev_def
  stalled_write_for_def fresh_stalled_write_def coalesce_into_scratch_def write_through_ssl_def matches_stalled_write_def
  ssl_write_ex_def blocked_call_def classify_ssl_failure_def record_write_outcome_def err_clear_error_def is_terminal_def
  is_blocked_def tr_defs Let_def

theorem tls_wire_exact_witness:
  "\<exists>rs tt' s'. run_writes (\<lambda>_. []) sample_writes sample_tls_transport = (rs, tt') \<and> tt_ssl tt' = Some s' \<and> ssl_wire s' = ''abcde''"
proof -
  obtain rs tt' where run: "run_writes (\<lambda>_. []) sample_writes sample_tls_transport = (rs, tt')" by fastforce
  then have rs: "rs = [tr_want_write, tr_ok 5]" by (auto simp: sample_evaluation)
  have "same_data_on_retry sample_writes rs" by (simp add: sample_writes_def rs op_data_def)
  from tls_wire_exact [OF run this sample_transport_fields(1-5)] run show ?thesis
    by (auto simp: sample_transport_fields reported_def rs sample_writes_def op_data_def tr_defs)
qed

theorem verified_identity_exact_witness:
  "\<exists>identity. TlsTransport_peer_certificate_subject sample_tls_transport = Some identity \<and>
     client_identity_has_attribute identity ''cn'' ''a=b''"
proof -
  let ?attributes = "[(''CN'', map Printed ''a=b'', CHR '','')]"
  obtain identity where i: "TlsTransport_peer_certificate_subject sample_tls_transport = Some identity"
    by (simp add: TlsTransport_peer_certificate_subject_def sample_tls_transport_def sample_ssl_def rfc2253_subject_def)
  have same_type: "equals_ignore_case ''CN'' ''cn''" by code_simp
  have "list_all attribute_allowed ?attributes"
    by (simp add: attribute_allowed_def ends_type_def ends_value_def)
  from verified_identity_exact [OF i sample_transport_fields(1) _ _ this, of "\<lparr>cert_subject = Some (Some (subject_printed ?attributes))\<rparr>" "''cn''" "''a=b''"]
  have "client_identity_has_attribute identity ''cn'' ''a=b''"
    using same_type by (simp add: sample_ssl_def)
  with i show ?thesis by blast
qed

end
