(* ===== verification/Http_Tls_Context.thy ===== *)
theory Http_Tls_Context
  imports Http_Tls_Transport Http_Config
begin

text \<open>
  \<open>tls_context.cpp\<close>: building a hardened \<open>SSL_CTX\<close> from the options of a listener. OpenSSL is outside: a record
  of functions says whether each of its calls accepts its arguments and what PEM text reads as. The context
  is a record of what was set. \<open>TlsContext_create\<close> runs the steps in the order of the source and returns the
  first error; the theorem says which options are accepted and what the context then enforces.
\<close>

section \<open>OpenSSL\<close>

datatype ssl_option = SSL_OP_NO_RENEGOTIATION | SSL_OP_CIPHER_SERVER_PREFERENCE | SSL_OP_NO_COMPRESSION
  | SSL_OP_ENABLE_KTLS | SSL_OP_NO_TICKET

text \<open>What ended the reading of a chain: the queue's last error.\<close>

datatype pem_end = Pem_No_Start_Line | Pem_Other_Error | Pem_No_Error

type_synonym x509 = nat
type_synonym private_key = nat

record pem_chain =
  pc_leaf :: "x509 option"
  pc_intermediates :: "x509 list"
  pc_end :: pem_end

record openssl =
  os_ctx_new :: bool
  os_set_min_proto_version :: "nat \<Rightarrow> bool"
  os_has_ktls :: bool
  os_set_groups_list :: "bytes \<Rightarrow> bool"
  os_set_num_tickets :: bool
  os_set_max_early_data :: "nat \<Rightarrow> bool"
  os_mem_buf :: "bytes \<Rightarrow> bool"
  os_chain_file :: "bytes \<Rightarrow> x509 list option"
  os_chain_pem :: "bytes \<Rightarrow> pem_chain"
  os_use_certificate :: "x509 \<Rightarrow> bool"
  os_clear_chain_certs :: bool
  os_add_chain_cert :: "x509 \<Rightarrow> bool"
  os_key_file :: "bytes \<Rightarrow> private_key option"
  os_key_pem :: "bytes \<Rightarrow> private_key option"
  os_use_private_key :: "private_key \<Rightarrow> bool"
  os_check_private_key :: "x509 list \<Rightarrow> private_key \<Rightarrow> bool"
  os_set_session_id_context :: "bytes \<Rightarrow> bool"
  os_load_verify_locations :: "bytes \<Rightarrow> bool"
  os_load_client_ca_file :: "bytes \<Rightarrow> bool"
  os_not_after_from_now :: "x509 list \<Rightarrow> (int \<times> int) option"

record ssl_ctx =
  ctx_min_version :: nat
  ctx_options :: "ssl_option set"
  ctx_release_buffers :: bool
  ctx_groups :: bytes
  ctx_num_tickets :: "nat option"
  ctx_max_early_data :: nat
  ctx_selects_alpn :: bool
  ctx_refuses_passphrase :: bool
  ctx_chain :: "x509 list"
  ctx_key :: "private_key option"
  ctx_session_id_context :: bytes
  ctx_ca_locations :: "bytes option"
  ctx_ca_names :: "bytes option"
  ctx_verify_depth :: "nat option"
  ctx_verify_peer :: bool
  ctx_fail_if_no_peer_cert :: bool

definition new_ssl_ctx :: ssl_ctx where
  "new_ssl_ctx = \<lparr>ctx_min_version = 0, ctx_options = {}, ctx_release_buffers = False, ctx_groups = [], ctx_num_tickets = None,
     ctx_max_early_data = 0, ctx_selects_alpn = False, ctx_refuses_passphrase = False, ctx_chain = [], ctx_key = None,
     ctx_session_id_context = [], ctx_ca_locations = None, ctx_ca_names = None, ctx_verify_depth = None,
     ctx_verify_peer = False, ctx_fail_if_no_peer_cert = False\<rparr>"

text \<open>The errors thrown, without the detail OpenSSL adds.\<close>

datatype tls_context_error = Ctx_New_Failed | Alpn_Unsupported bytes | Min_Version_Refused nat | Groups_Refused bytes
  | Tickets_Not_Disabled | Early_Data_Refused | Chain_File_Unreadable bytes | Chain_Pem_Unwrapped | Chain_Pem_No_Leaf
  | Leaf_Refused | Chain_Not_Reset | Intermediate_Refused | Chain_Pem_Malformed | Key_File_Unreadable bytes
  | Key_Pem_Unwrapped | Key_Pem_Unparsed | Key_Refused | No_Certificate | No_Private_Key | Key_Mismatch bytes bytes
  | Session_Context_Refused | Client_Certificate_Without_Ca | Ca_Unreadable bytes | Ca_Names_Unreadable bytes

section \<open>Application protocols\<close>

definition kAlpnHttp11Name :: bytes where "kAlpnHttp11Name = ''http/1.1''"

definition kAlpnHttp11Wire :: bytes where "kAlpnHttp11Wire = CHR 0x08 # ''http/1.1''"

definition trim_ascii_spaces :: "bytes \<Rightarrow> bytes" where
  "trim_ascii_spaces t =
     rev (dropWhile is_optional_whitespace (rev (dropWhile is_optional_whitespace t)))"

text \<open>\<open>reject_unsupported_alpn\<close>: the entry it would throw for.\<close>

function unsupported_alpn :: "bytes \<Rightarrow> bytes option" where
  "unsupported_alpn remaining =
     (if remaining = [] then None
      else let separator = find_char (CHR '','') remaining;
               entry = trim_ascii_spaces (case separator of None \<Rightarrow> remaining | Some i \<Rightarrow> take i remaining);
               remaining' = (case separator of None \<Rightarrow> [] | Some i \<Rightarrow> drop (i + 1) remaining)
           in if entry = [] then unsupported_alpn remaining'
              else if entry \<noteq> kAlpnHttp11Name then Some entry
              else unsupported_alpn remaining')"
  by pat_completeness auto

termination
  by (relation "measure length") (auto split: option.splits dest: find_char_less)

declare unsupported_alpn.simps [simp del]

definition reject_unsupported_alpn :: "tls_options \<Rightarrow> (tls_context_error, unit) expected" where
  "reject_unsupported_alpn options =
     (case unsupported_alpn (to_alpn_protocols options) of None \<Rightarrow> Inr () | Some entry \<Rightarrow> Inl (Alpn_Unsupported entry))"

text \<open>\<open>select_alpn_protocol\<close> over \<open>SSL_select_next_proto\<close>, which says whether it found a common protocol and which;
  no answer is a fatal alert.\<close>

definition select_alpn_protocol :: "(bytes \<Rightarrow> bytes \<Rightarrow> bool \<times> bytes) \<Rightarrow> bytes \<Rightarrow> bytes option" where
  "select_alpn_protocol select_next_proto client_protocols =
     (case select_next_proto kAlpnHttp11Wire client_protocols of (negotiated, selected) \<Rightarrow>
        if negotiated then Some selected else None)"

section \<open>The steps\<close>

definition TLS1_2_VERSION :: nat where "TLS1_2_VERSION = 0x0303"
definition TLS1_3_VERSION :: nat where "TLS1_3_VERSION = 0x0304"

definition floor_version :: "tls_options \<Rightarrow> nat" where
  "floor_version options = (if to_minimum_version options = Tls12 then TLS1_2_VERSION else TLS1_3_VERSION)"

definition apply_protocol_floor :: "openssl \<Rightarrow> tls_options \<Rightarrow> ssl_ctx \<Rightarrow> (tls_context_error, ssl_ctx) expected" where
  "apply_protocol_floor os options ctx =
     (if \<not> os_set_min_proto_version os (floor_version options) then Inl (Min_Version_Refused (floor_version options))
      else Inr (ctx\<lparr>ctx_min_version := floor_version options\<rparr>))"

definition apply_hardening_options :: "openssl \<Rightarrow> tls_options \<Rightarrow> ssl_ctx \<Rightarrow> ssl_ctx" where
  "apply_hardening_options os options ctx =
     (let ctx = ctx\<lparr>ctx_options := ctx_options ctx \<union>
            {SSL_OP_NO_RENEGOTIATION, SSL_OP_CIPHER_SERVER_PREFERENCE, SSL_OP_NO_COMPRESSION}\<rparr>;
          ctx = ctx\<lparr>ctx_release_buffers := True\<rparr>
      in if os_has_ktls os \<and> to_kernel_tls options then ctx\<lparr>ctx_options := insert SSL_OP_ENABLE_KTLS (ctx_options ctx)\<rparr> else ctx)"

definition kDefaultGroupList :: bytes where "kDefaultGroupList = ''X25519MLKEM768:X25519:P-256''"

definition apply_group_list :: "openssl \<Rightarrow> tls_options \<Rightarrow> ssl_ctx \<Rightarrow> (tls_context_error, ssl_ctx) expected" where
  "apply_group_list os options ctx =
     (let groups = (if to_group_list options = [] then kDefaultGroupList else to_group_list options) in
      if \<not> os_set_groups_list os groups then Inl (Groups_Refused groups) else Inr (ctx\<lparr>ctx_groups := groups\<rparr>))"

definition kMaxEarlyDataBytes :: nat where "kMaxEarlyDataBytes = 16384"

definition apply_session_policy :: "openssl \<Rightarrow> tls_options \<Rightarrow> ssl_ctx \<Rightarrow> (tls_context_error, ssl_ctx) expected" where
  "apply_session_policy os options ctx =
     (let early_data_bytes = (if to_early_data options then kMaxEarlyDataBytes else 0);
          ctx' = (if \<not> to_session_tickets options
                  then ctx\<lparr>ctx_options := insert SSL_OP_NO_TICKET (ctx_options ctx), ctx_num_tickets := Some 0\<rparr> else ctx)
      in if \<not> to_session_tickets options \<and> \<not> os_set_num_tickets os then Inl Tickets_Not_Disabled
         else if \<not> os_set_max_early_data os early_data_bytes then Inl Early_Data_Refused
         else Inr (ctx'\<lparr>ctx_max_early_data := early_data_bytes\<rparr>))"

definition use_chain_from_file :: "openssl \<Rightarrow> bytes \<Rightarrow> ssl_ctx \<Rightarrow> (tls_context_error, ssl_ctx) expected" where
  "use_chain_from_file os path ctx = (case os_chain_file os path of
     None \<Rightarrow> Inl (Chain_File_Unreadable path)
   | Some chain \<Rightarrow> Inr (ctx\<lparr>ctx_chain := chain\<rparr>))"

fun add_intermediates :: "openssl \<Rightarrow> x509 list \<Rightarrow> ssl_ctx \<Rightarrow> (tls_context_error, ssl_ctx) expected" where
  "add_intermediates os [] ctx = Inr ctx"
| "add_intermediates os (c # cs) ctx =
     (if \<not> os_add_chain_cert os c then Inl Intermediate_Refused
      else add_intermediates os cs (ctx\<lparr>ctx_chain := ctx_chain ctx @ [c]\<rparr>))"

definition use_chain_from_pem :: "openssl \<Rightarrow> bytes \<Rightarrow> ssl_ctx \<Rightarrow> (tls_context_error, ssl_ctx) expected" where
  "use_chain_from_pem os pem ctx =
     (if \<not> os_mem_buf os pem then Inl Chain_Pem_Unwrapped
      else case pc_leaf (os_chain_pem os pem) of
        None \<Rightarrow> Inl Chain_Pem_No_Leaf
      | Some leaf \<Rightarrow>
          if \<not> os_use_certificate os leaf then Inl Leaf_Refused
          else if \<not> os_clear_chain_certs os then Inl Chain_Not_Reset
          else case add_intermediates os (pc_intermediates (os_chain_pem os pem)) (ctx\<lparr>ctx_chain := [leaf]\<rparr>) of
            Inl e \<Rightarrow> Inl e
          | Inr ctx \<Rightarrow> if pc_end (os_chain_pem os pem) = Pem_Other_Error then Inl Chain_Pem_Malformed else Inr ctx)"

definition use_private_key_from_file :: "openssl \<Rightarrow> bytes \<Rightarrow> ssl_ctx \<Rightarrow> (tls_context_error, ssl_ctx) expected" where
  "use_private_key_from_file os path ctx = (case os_key_file os path of
     None \<Rightarrow> Inl (Key_File_Unreadable path)
   | Some key \<Rightarrow> Inr (ctx\<lparr>ctx_key := Some key\<rparr>))"

definition use_private_key_from_pem :: "openssl \<Rightarrow> bytes \<Rightarrow> ssl_ctx \<Rightarrow> (tls_context_error, ssl_ctx) expected" where
  "use_private_key_from_pem os pem ctx =
     (if \<not> os_mem_buf os pem then Inl Key_Pem_Unwrapped
      else case os_key_pem os pem of
        None \<Rightarrow> Inl Key_Pem_Unparsed
      | Some key \<Rightarrow> if \<not> os_use_private_key os key then Inl Key_Refused else Inr (ctx\<lparr>ctx_key := Some key\<rparr>))"

definition load_certificate_material :: "openssl \<Rightarrow> tls_options \<Rightarrow> ssl_ctx \<Rightarrow> (tls_context_error, ssl_ctx) expected" where
  "load_certificate_material os options ctx =
     (let ctx = ctx\<lparr>ctx_refuses_passphrase := True\<rparr>;
          chain_is_inline = (to_certificate_chain_pem options \<noteq> []);
          key_is_inline = (to_private_key_pem options \<noteq> [])
      in if \<not> chain_is_inline \<and> to_certificate_chain_file options = [] then Inl No_Certificate
         else if \<not> key_is_inline \<and> to_private_key_file options = [] then Inl No_Private_Key
         else case (if chain_is_inline then use_chain_from_pem os (to_certificate_chain_pem options) ctx
                    else use_chain_from_file os (to_certificate_chain_file options) ctx) of
           Inl e \<Rightarrow> Inl e
         | Inr ctx \<Rightarrow>
             (case (if key_is_inline then use_private_key_from_pem os (to_private_key_pem options) ctx
                    else use_private_key_from_file os (to_private_key_file options) ctx) of
                Inl e \<Rightarrow> Inl e
              | Inr ctx \<Rightarrow>
                  if \<not> os_check_private_key os (ctx_chain ctx) (the (ctx_key ctx))
                  then Inl (Key_Mismatch
                         (if key_is_inline then ''private_key_pem'' else to_private_key_file options)
                         (if chain_is_inline then ''certificate_chain_pem'' else to_certificate_chain_file options))
                  else Inr ctx))"

definition kAnonymousSessionContext :: bytes where "kAnonymousSessionContext = ''erikslund-http/anon''"
definition kMutualSessionContext :: bytes where "kMutualSessionContext = ''erikslund-http/mtls''"

definition apply_session_id_context :: "openssl \<Rightarrow> bool \<Rightarrow> ssl_ctx \<Rightarrow> (tls_context_error, ssl_ctx) expected" where
  "apply_session_id_context os verifies_client_certificates ctx =
     (let identifier = (if verifies_client_certificates then kMutualSessionContext else kAnonymousSessionContext) in
      if \<not> os_set_session_id_context os identifier then Inl Session_Context_Refused
      else Inr (ctx\<lparr>ctx_session_id_context := identifier\<rparr>))"

definition kMaxClientCertificateChainDepth :: nat where "kMaxClientCertificateChainDepth = 4"

definition configure_client_verification :: "openssl \<Rightarrow> tls_options \<Rightarrow> ssl_ctx \<Rightarrow> (tls_context_error, ssl_ctx) expected" where
  "configure_client_verification os options ctx =
     (case apply_session_id_context os (to_client_ca_file options \<noteq> []) ctx of
        Inl e \<Rightarrow> Inl e
      | Inr ctx \<Rightarrow>
          let ca = to_client_ca_file options in
          if ca = [] then
            if to_require_client_certificate options then Inl Client_Certificate_Without_Ca
            else Inr (ctx\<lparr>ctx_verify_peer := False, ctx_fail_if_no_peer_cert := False\<rparr>)
          else if \<not> os_load_verify_locations os ca then Inl (Ca_Unreadable ca)
          else if \<not> os_load_client_ca_file os ca then Inl (Ca_Names_Unreadable ca)
          else Inr (ctx\<lparr>ctx_ca_locations := Some ca, ctx_ca_names := Some ca,
                 ctx_verify_depth := Some kMaxClientCertificateChainDepth, ctx_verify_peer := True,
                 ctx_fail_if_no_peer_cert := to_require_client_certificate options\<rparr>))"

section \<open>The context\<close>

text \<open>Times are nanoseconds since the epoch, which stands for "unknown".\<close>

definition kNanosPerSecond :: int where "kNanosPerSecond = 1000000000"

definition leaf_certificate_not_after :: "openssl \<Rightarrow> int \<Rightarrow> ssl_ctx \<Rightarrow> int" where
  "leaf_certificate_not_after os now ctx = (case os_not_after_from_now os (ctx_chain ctx) of
     None \<Rightarrow> 0
   | Some (day_difference, second_difference) \<Rightarrow>
       now + day_difference * 86400 * kNanosPerSecond + second_difference * kNanosPerSecond)"

text \<open>Whether the warning is written.\<close>

definition warn_when_certificate_already_expired :: "int \<Rightarrow> int \<Rightarrow> bool" where
  "warn_when_certificate_already_expired not_after now =
     (if not_after = 0 then False else if not_after > now then False else True)"

record tls_context =
  tc_context :: "ssl_ctx option"
  tc_not_after :: int
  tc_requires_client_certificate :: bool

text \<open>\<open>TlsContext::create\<close>, with the clock's two readings: the context, and whether the warning was written.\<close>

definition TlsContext_create :: "openssl \<Rightarrow> int \<Rightarrow> int \<Rightarrow> tls_options \<Rightarrow> (tls_context_error, tls_context \<times> bool) expected" where
  "TlsContext_create os now now' options =
     (if \<not> os_ctx_new os then Inl Ctx_New_Failed
      else case reject_unsupported_alpn options of Inl e \<Rightarrow> Inl e | Inr _ \<Rightarrow>
      case apply_protocol_floor os options new_ssl_ctx of Inl e \<Rightarrow> Inl e | Inr ctx \<Rightarrow>
      let ctx = apply_hardening_options os options ctx in
      case apply_group_list os options ctx of Inl e \<Rightarrow> Inl e | Inr ctx \<Rightarrow>
      case apply_session_policy os options ctx of Inl e \<Rightarrow> Inl e | Inr ctx \<Rightarrow>
      case load_certificate_material os options (ctx\<lparr>ctx_selects_alpn := True\<rparr>) of Inl e \<Rightarrow> Inl e | Inr ctx \<Rightarrow>
      case configure_client_verification os options ctx of Inl e \<Rightarrow> Inl e | Inr ctx \<Rightarrow>
      let not_after = leaf_certificate_not_after os now ctx in
      Inr (\<lparr>tc_context = Some ctx, tc_not_after = not_after,
             tc_requires_client_certificate = to_require_client_certificate options\<rparr>,
           warn_when_certificate_already_expired not_after now'))"

definition kNoFurtherDetail :: bytes where "kNoFurtherDetail = ''no further detail from OpenSSL''"

definition drain_openssl_errors :: "openssl_error list \<Rightarrow> bytes" where
  "drain_openssl_errors queue =
     (let detail = foldl append_detail [] (take kMaxLoggedOpenSslErrors queue)
      in if detail = [] then kNoFurtherDetail else detail)"

text \<open>\<open>make_transport\<close>: \<open>SSL_new\<close> gives the object or the errors it queued, \<open>SSL_set_fd\<close> the errors of a failure.
  The transport, or the message logged.\<close>

definition make_transport ::
  "(ssl_ctx \<Rightarrow> openssl_error list + ssl) \<Rightarrow> (ssl \<Rightarrow> int \<Rightarrow> openssl_error list option) \<Rightarrow> tls_context \<Rightarrow> int \<Rightarrow>
    tls_transport option \<times> bytes list" where
  "make_transport ssl_new ssl_set_fd tc fd = (case tc_context tc of
     None \<Rightarrow> (None, [])
   | Some ctx \<Rightarrow> (case ssl_new ctx of
       Inl queue \<Rightarrow> (None, [''tls: SSL_new failed: '' @ drain_openssl_errors queue])
     | Inr s \<Rightarrow> (case ssl_set_fd s fd of
         Some queue \<Rightarrow> (None, [''tls: SSL_set_fd failed: '' @ drain_openssl_errors queue])
       | None \<Rightarrow> (Some \<lparr>tt_fd = fd, tt_ssl = Some s, tt_has_logger = True, tt_alpn = [], tt_queue = [], tt_log = []\<rparr>, []))))"

text \<open>The slot of a listener: an atomic pointer that is stored and loaded whole. The destructor of a context frees
  its \<open>SSL_CTX\<close>.\<close>

record tls_context_slot =
  slot_context :: "tls_context option"

definition slot_load :: "tls_context_slot \<Rightarrow> tls_context option" where
  "slot_load slot = slot_context slot"

definition slot_store :: "tls_context option \<Rightarrow> tls_context_slot \<Rightarrow> tls_context_slot" where
  "slot_store tc slot = slot\<lparr>slot_context := tc\<rparr>"

definition slot_empty :: "tls_context_slot \<Rightarrow> bool" where
  "slot_empty slot \<longleftrightarrow> slot_load slot = None"

definition TlsContext_destroy :: "tls_context \<Rightarrow> ssl_ctx list" where
  "TlsContext_destroy tc = (case tc_context tc of None \<Rightarrow> [] | Some ctx \<Rightarrow> [ctx])"

section \<open>What a created context enforces\<close>

lemma trim_ascii_spaces_Nil [simp]: "trim_ascii_spaces [] = []"
  by (simp add: trim_ascii_spaces_def)

lemma unsupported_alpn_None_iff:
  "unsupported_alpn s = None \<longleftrightarrow>
     list_all (\<lambda>entry. trim_ascii_spaces entry = [] \<or> trim_ascii_spaces entry = kAlpnHttp11Name) (split_on (CHR '','') s)"
proof (induction s rule: unsupported_alpn.induct)
  case (1 s)
  have known: "kAlpnHttp11Name \<noteq> []" by (simp add: kAlpnHttp11Name_def)
  show ?case
  proof (cases "find_char (CHR '','') s")
    case None
    with 1 known show ?thesis
      by (subst unsupported_alpn.simps) (auto simp: split_on_None Let_def unsupported_alpn.simps [of "[]"])
  next
    case (Some i)
    then have "s \<noteq> []" by auto
    with 1 known Some show ?thesis
      by (subst unsupported_alpn.simps) (auto simp: split_on_Some Let_def)
  qed
qed

lemma add_intermediates_eq:
  "add_intermediates os cs ctx =
     (if list_all (os_add_chain_cert os) cs then Inr (ctx\<lparr>ctx_chain := ctx_chain ctx @ cs\<rparr>) else Inl Intermediate_Refused)"
  by (induction os cs ctx rule: add_intermediates.induct) auto

text \<open>The chain and the key the options name: inline text goes before files.\<close>

definition chain_of :: "openssl \<Rightarrow> tls_options \<Rightarrow> x509 list option" where
  "chain_of os options =
     (let pem = to_certificate_chain_pem options; read = os_chain_pem os pem in
      if pem \<noteq> [] then
        if os_mem_buf os pem \<and> os_clear_chain_certs os \<and> pc_end read \<noteq> Pem_Other_Error \<and>
           list_all (os_add_chain_cert os) (pc_intermediates read)
        then (case pc_leaf read of None \<Rightarrow> None
              | Some leaf \<Rightarrow> if os_use_certificate os leaf then Some (leaf # pc_intermediates read) else None)
        else None
      else if to_certificate_chain_file options \<noteq> [] then os_chain_file os (to_certificate_chain_file options)
      else None)"

definition key_of :: "openssl \<Rightarrow> tls_options \<Rightarrow> private_key option" where
  "key_of os options =
     (let pem = to_private_key_pem options in
      if pem \<noteq> [] then
        if os_mem_buf os pem then
          (case os_key_pem os pem of None \<Rightarrow> None | Some key \<Rightarrow> if os_use_private_key os key then Some key else None)
        else None
      else if to_private_key_file options \<noteq> [] then os_key_file os (to_private_key_file options)
      else None)"

text \<open>A step that fails ends the construction: what it means that a sequence of steps succeeds.\<close>

lemma expected_bind_Inr_iff:
  "(case x of Inl e \<Rightarrow> Inl e | Inr c \<Rightarrow> f c) = Inr y \<longleftrightarrow> (\<exists>c. x = Inr c \<and> f c = Inr y)"
  by (cases x) auto

lemma guarded_Inr_iff:
  "(if b then Inl e else x) = Inr y \<longleftrightarrow> \<not> b \<and> x = Inr y"
  by simp

lemma use_chain_from_pem_iff:
  "use_chain_from_pem os pem ctx = Inr ctx' \<longleftrightarrow>
     os_mem_buf os pem \<and> os_clear_chain_certs os \<and> pc_end (os_chain_pem os pem) \<noteq> Pem_Other_Error \<and>
     list_all (os_add_chain_cert os) (pc_intermediates (os_chain_pem os pem)) \<and>
     (\<exists>leaf. pc_leaf (os_chain_pem os pem) = Some leaf \<and> os_use_certificate os leaf \<and>
        ctx' = ctx\<lparr>ctx_chain := leaf # pc_intermediates (os_chain_pem os pem)\<rparr>)"
  by (cases "pc_leaf (os_chain_pem os pem)") (auto simp: use_chain_from_pem_def add_intermediates_eq)

lemma chain_step_iff:
  assumes "to_certificate_chain_pem options \<noteq> [] \<or> to_certificate_chain_file options \<noteq> []"
  shows "(if to_certificate_chain_pem options \<noteq> [] then use_chain_from_pem os (to_certificate_chain_pem options) ctx
      else use_chain_from_file os (to_certificate_chain_file options) ctx) = Inr ctx' \<longleftrightarrow>
    (\<exists>chain. chain_of os options = Some chain \<and> ctx' = ctx\<lparr>ctx_chain := chain\<rparr>)"
proof (cases "to_certificate_chain_pem options = []")
  case True
  with assms show ?thesis
    by (cases "os_chain_file os (to_certificate_chain_file options)") (auto simp: chain_of_def use_chain_from_file_def)
next
  case False
  then show ?thesis
    by (cases "pc_leaf (os_chain_pem os (to_certificate_chain_pem options))") (auto simp: chain_of_def use_chain_from_pem_iff Let_def)
qed

lemma key_step_iff:
  assumes "to_private_key_pem options \<noteq> [] \<or> to_private_key_file options \<noteq> []"
  shows "(if to_private_key_pem options \<noteq> [] then use_private_key_from_pem os (to_private_key_pem options) ctx
      else use_private_key_from_file os (to_private_key_file options) ctx) = Inr ctx' \<longleftrightarrow>
    (\<exists>key. key_of os options = Some key \<and> ctx' = ctx\<lparr>ctx_key := Some key\<rparr>)"
proof (cases "to_private_key_pem options = []")
  case True
  with assms show ?thesis
    by (cases "os_key_file os (to_private_key_file options)") (auto simp: key_of_def use_private_key_from_file_def)
next
  case False
  then show ?thesis
    by (cases "os_key_pem os (to_private_key_pem options)") (auto simp: key_of_def use_private_key_from_pem_def Let_def)
qed

lemma chain_of_given: "chain_of os options = Some chain \<Longrightarrow> to_certificate_chain_pem options \<noteq> [] \<or> to_certificate_chain_file options \<noteq> []"
  by (auto simp: chain_of_def)

lemma key_of_given: "key_of os options = Some key \<Longrightarrow> to_private_key_pem options \<noteq> [] \<or> to_private_key_file options \<noteq> []"
  by (auto simp: key_of_def)

lemma load_certificate_material_iff:
  "load_certificate_material os options ctx = Inr ctx' \<longleftrightarrow>
     (\<exists>chain key. chain_of os options = Some chain \<and> key_of os options = Some key \<and> os_check_private_key os chain key \<and>
        ctx' = ctx\<lparr>ctx_refuses_passphrase := True, ctx_chain := chain, ctx_key := Some key\<rparr>)"
proof (cases "(to_certificate_chain_pem options \<noteq> [] \<or> to_certificate_chain_file options \<noteq> []) \<and>
    (to_private_key_pem options \<noteq> [] \<or> to_private_key_file options \<noteq> [])")
  case True
  then have "to_certificate_chain_pem options \<noteq> [] \<or> to_certificate_chain_file options \<noteq> []"
    "to_private_key_pem options \<noteq> [] \<or> to_private_key_file options \<noteq> []" by blast+
  note steps = chain_step_iff [OF this(1)] key_step_iff [OF this(2)]
  show ?thesis
    unfolding load_certificate_material_def Let_def guarded_Inr_iff expected_bind_Inr_iff steps using True by auto
next
  case False
  then show ?thesis
    unfolding load_certificate_material_def Let_def guarded_Inr_iff using chain_of_given key_of_given by blast
qed

lemma configure_client_verification_iff:
  "configure_client_verification os options ctx = Inr ctx' \<longleftrightarrow>
     (let ca = to_client_ca_file options in
      if ca = [] then
        os_set_session_id_context os kAnonymousSessionContext \<and> \<not> to_require_client_certificate options \<and>
        ctx' = ctx\<lparr>ctx_session_id_context := kAnonymousSessionContext, ctx_verify_peer := False, ctx_fail_if_no_peer_cert := False\<rparr>
      else
        os_set_session_id_context os kMutualSessionContext \<and> os_load_verify_locations os ca \<and> os_load_client_ca_file os ca \<and>
        ctx' = ctx\<lparr>ctx_session_id_context := kMutualSessionContext, ctx_ca_locations := Some ca, ctx_ca_names := Some ca,
          ctx_verify_depth := Some 4, ctx_verify_peer := True,
          ctx_fail_if_no_peer_cert := to_require_client_certificate options\<rparr>)"
  unfolding configure_client_verification_def apply_session_id_context_def Let_def expected_bind_Inr_iff
    kMaxClientCertificateChainDepth_def by auto

text \<open>The options from which a context can be made.\<close>

definition options_usable :: "openssl \<Rightarrow> tls_options \<Rightarrow> bool" where
  "options_usable os options \<longleftrightarrow>
     os_ctx_new os \<and>
     list_all (\<lambda>entry. trim_ascii_spaces entry = [] \<or> trim_ascii_spaces entry = kAlpnHttp11Name)
       (split_on (CHR '','') (to_alpn_protocols options)) \<and>
     os_set_min_proto_version os (case to_minimum_version options of Tls12 \<Rightarrow> 0x0303 | Tls13 \<Rightarrow> 0x0304) \<and>
     os_set_groups_list os (if to_group_list options = [] then kDefaultGroupList else to_group_list options) \<and>
     (to_session_tickets options \<or> os_set_num_tickets os) \<and>
     os_set_max_early_data os (if to_early_data options then 16384 else 0) \<and>
     (case chain_of os options of None \<Rightarrow> False
      | Some chain \<Rightarrow> (case key_of os options of None \<Rightarrow> False | Some key \<Rightarrow> os_check_private_key os chain key)) \<and>
     (let ca = to_client_ca_file options in
      if ca = [] then os_set_session_id_context os kAnonymousSessionContext \<and> \<not> to_require_client_certificate options
      else os_set_session_id_context os kMutualSessionContext \<and> os_load_verify_locations os ca \<and> os_load_client_ca_file os ca)"

text \<open>The context made from them.\<close>

definition intended_context :: "openssl \<Rightarrow> tls_options \<Rightarrow> ssl_ctx" where
  "intended_context os options =
     (let mutual = (to_client_ca_file options \<noteq> []); ca = (if mutual then Some (to_client_ca_file options) else None) in
      \<lparr>ctx_min_version = (case to_minimum_version options of Tls12 \<Rightarrow> 0x0303 | Tls13 \<Rightarrow> 0x0304),
       ctx_options = {SSL_OP_NO_RENEGOTIATION, SSL_OP_CIPHER_SERVER_PREFERENCE, SSL_OP_NO_COMPRESSION} \<union>
         (if os_has_ktls os \<and> to_kernel_tls options then {SSL_OP_ENABLE_KTLS} else {}) \<union>
         (if to_session_tickets options then {} else {SSL_OP_NO_TICKET}),
       ctx_release_buffers = True,
       ctx_groups = (if to_group_list options = [] then kDefaultGroupList else to_group_list options),
       ctx_num_tickets = (if to_session_tickets options then None else Some 0),
       ctx_max_early_data = (if to_early_data options then 16384 else 0),
       ctx_selects_alpn = True, ctx_refuses_passphrase = True,
       ctx_chain = the (chain_of os options), ctx_key = key_of os options,
       ctx_session_id_context = (if mutual then kMutualSessionContext else kAnonymousSessionContext),
       ctx_ca_locations = ca, ctx_ca_names = ca,
       ctx_verify_depth = (if mutual then Some 4 else None),
       ctx_verify_peer = mutual, ctx_fail_if_no_peer_cert = (mutual \<and> to_require_client_certificate options)\<rparr>)"

lemma reject_unsupported_alpn_iff:
  "reject_unsupported_alpn options = Inr u \<longleftrightarrow>
     list_all (\<lambda>entry. trim_ascii_spaces entry = [] \<or> trim_ascii_spaces entry = kAlpnHttp11Name)
       (split_on (CHR '','') (to_alpn_protocols options))"
  unfolding unsupported_alpn_None_iff [symmetric] by (auto simp: reject_unsupported_alpn_def split: option.split)

lemma apply_protocol_floor_iff:
  "apply_protocol_floor os options ctx = Inr ctx' \<longleftrightarrow>
     (let version = (case to_minimum_version options of Tls12 \<Rightarrow> 0x0303 | Tls13 \<Rightarrow> 0x0304) in
      os_set_min_proto_version os version \<and> ctx' = ctx\<lparr>ctx_min_version := version\<rparr>)"
  by (cases "to_minimum_version options")
    (auto simp: apply_protocol_floor_def floor_version_def TLS1_2_VERSION_def TLS1_3_VERSION_def)

lemma apply_hardening_options_eq:
  "apply_hardening_options os options ctx = ctx\<lparr>ctx_options := ctx_options ctx \<union>
       {SSL_OP_NO_RENEGOTIATION, SSL_OP_CIPHER_SERVER_PREFERENCE, SSL_OP_NO_COMPRESSION} \<union>
       (if os_has_ktls os \<and> to_kernel_tls options then {SSL_OP_ENABLE_KTLS} else {}), ctx_release_buffers := True\<rparr>"
  by (cases ctx) (auto simp: apply_hardening_options_def Let_def)

lemma apply_group_list_iff:
  "apply_group_list os options ctx = Inr ctx' \<longleftrightarrow>
     (let groups = (if to_group_list options = [] then kDefaultGroupList else to_group_list options) in
      os_set_groups_list os groups \<and> ctx' = ctx\<lparr>ctx_groups := groups\<rparr>)"
  unfolding apply_group_list_def Let_def guarded_Inr_iff by auto

lemma apply_session_policy_iff:
  "apply_session_policy os options ctx = Inr ctx' \<longleftrightarrow>
     (let tickets = to_session_tickets options; early = (if to_early_data options then 16384 else 0) in
      (tickets \<or> os_set_num_tickets os) \<and> os_set_max_early_data os early \<and>
      ctx' = ctx\<lparr>ctx_options := ctx_options ctx \<union> (if tickets then {} else {SSL_OP_NO_TICKET}),
        ctx_num_tickets := (if tickets then ctx_num_tickets ctx else Some 0), ctx_max_early_data := early\<rparr>)"
  by (cases "to_session_tickets options") (auto simp: apply_session_policy_def kMaxEarlyDataBytes_def Let_def)

lemmas step_iffs = expected_bind_Inr_iff guarded_Inr_iff reject_unsupported_alpn_iff apply_protocol_floor_iff
  apply_hardening_options_eq apply_group_list_iff apply_session_policy_iff load_certificate_material_iff

lemma create_iff:
  "TlsContext_create os now now' options = Inr (tc, warned) \<longleftrightarrow>
     options_usable os options \<and>
     tc = \<lparr>tc_context = Some (intended_context os options),
       tc_not_after = leaf_certificate_not_after os now (intended_context os options),
       tc_requires_client_certificate = to_require_client_certificate options\<rparr> \<and>
     warned = warn_when_certificate_already_expired (tc_not_after tc) now'"
proof (cases "\<exists>chain key. chain_of os options = Some chain \<and> key_of os options = Some key")
  case True
  then obtain chain key where material: "chain_of os options = Some chain" "key_of os options = Some key" by blast
  show ?thesis
  proof (cases "to_client_ca_file options = []")
    case True
    have "options_usable os options \<Longrightarrow> \<not> to_require_client_certificate options"
      using True by (simp add: options_usable_def)
    then show ?thesis
      unfolding TlsContext_create_def step_iffs configure_client_verification_iff options_usable_def intended_context_def Let_def
      by (auto simp: material True new_ssl_ctx_def)
  next
    case False
    then show ?thesis
      unfolding TlsContext_create_def step_iffs configure_client_verification_iff options_usable_def intended_context_def Let_def
      by (auto simp: material new_ssl_ctx_def)
  qed
next
  case False
  then have "\<not> options_usable os options" by (auto simp: options_usable_def split: option.splits)
  with False show ?thesis unfolding TlsContext_create_def step_iffs Let_def by auto
qed

text \<open>The options from which a TLS context is made, and what it then is. \<open>create\<close> succeeds exactly when OpenSSL
  takes every setting, the application protocols name nothing but HTTP/1.1, a chain and a key are given and
  fit each other, and a required client certificate comes with an authority to check it; no setting is lost
  on the way, whatever the others.\<close>

theorem tls_context_created_iff:
  "(\<exists>tc warned. TlsContext_create os now now' options = Inr (tc, warned) \<and> tc_context tc = Some ctx) \<longleftrightarrow>
     options_usable os options \<and> ctx = intended_context os options"
  by (auto simp: create_iff)


definition sample_openssl :: openssl where
  "sample_openssl = \<lparr>os_ctx_new = True, os_set_min_proto_version = (\<lambda>_. True), os_has_ktls = True, os_set_groups_list = (\<lambda>_. True),
     os_set_num_tickets = True, os_set_max_early_data = (\<lambda>_. True), os_mem_buf = (\<lambda>_. True),
     os_chain_file = (\<lambda>path. if path = ''chain.pem'' then Some [1, 2] else None),
     os_chain_pem = (\<lambda>_. \<lparr>pc_leaf = None, pc_intermediates = [], pc_end = Pem_No_Start_Line\<rparr>),
     os_use_certificate = (\<lambda>_. True), os_clear_chain_certs = True, os_add_chain_cert = (\<lambda>_. True),
     os_key_file = (\<lambda>path. if path = ''key.pem'' then Some 7 else None), os_key_pem = (\<lambda>_. None), os_use_private_key = (\<lambda>_. True),
     os_check_private_key = (\<lambda>chain key. chain = [1, 2] \<and> key = 7), os_set_session_id_context = (\<lambda>_. True),
     os_load_verify_locations = (\<lambda>_. True), os_load_client_ca_file = (\<lambda>_. True), os_not_after_from_now = (\<lambda>_. Some (30, 0))\<rparr>"

definition sample_tls_options :: tls_options where
  "sample_tls_options = default_tls_options\<lparr>to_enabled := True, to_certificate_chain_file := ''chain.pem'', to_private_key_file := ''key.pem''\<rparr>"

lemma sample_options_usable:
  "options_usable sample_openssl sample_tls_options"
  "options_usable sample_openssl (sample_tls_options\<lparr>to_client_ca_file := ''ca.pem'', to_require_client_certificate := True\<rparr>)"
  by (simp_all add: options_usable_def sample_openssl_def sample_tls_options_def default_tls_options_def chain_of_def key_of_def
      trim_ascii_spaces_def is_optional_whitespace_def kAlpnHttp11Name_def kDefaultAlpnProtocols_def)


end
