(* ===== verification/Http_Sha256.thy ===== *)
theory Http_Sha256
  imports Http_Prelude
begin

text \<open>
  \<open>internal/sha256.hpp\<close>: the digest of the inline script, which the content security policy names, and its
  base64 form. Words are 32-bit words, bytes 8-bit words; the arrays the loops fill in order are lists that
  grow. The padding, computed byte by byte from an offset, is shown to be the padding of FIPS 180-4, and the
  encoding is shown to lose nothing. The table of round constants is an argument, \<open>round_constants\<close>: nothing
  shown depends on its values, so it holds for the table of the header as for any other.
\<close>

unbundle bit_operations_syntax

section \<open>The digest\<close>

definition kSha256InitialState :: "32 word list" where
  "kSha256InitialState = [0x6a09e667, 0xbb67ae85, 0x3c6ef372, 0xa54ff53a, 0x510e527f, 0x9b05688c, 0x1f83d9ab, 0x5be0cd19]"

definition rotate_right :: "32 word \<Rightarrow> nat \<Rightarrow> 32 word" where
  "rotate_right w bits = drop_bit bits w OR push_bit (32 - bits) w"

definition padded_message_byte :: "bytes \<Rightarrow> nat \<Rightarrow> nat \<Rightarrow> 8 word" where
  "padded_message_byte message padded_bytes offset =
     (if offset < length message then word_of_nat (byte (message ! offset))
      else if offset = length message then 0x80
      else if offset < padded_bytes - 8 then 0
      else let message_bits = word_of_nat (length message) * 8 :: 64 word;
               shift = (padded_bytes - 1 - offset) * 8
           in ucast (drop_bit shift message_bits AND 0xFF))"

definition padded_length :: "bytes \<Rightarrow> nat" where
  "padded_length message =
     (let minimum = length message + 1 + 8 in ((minimum + 64 - 1) div 64) * 64)"

definition pack_word :: "(nat \<Rightarrow> 8 word) \<Rightarrow> nat \<Rightarrow> 32 word" where
  "pack_word byte_at offset =
     foldl (\<lambda>packed byte_in_word. push_bit 8 packed OR ucast (byte_at (offset + byte_in_word))) 0 [0..<4]"

definition schedule_step :: "32 word list \<Rightarrow> 32 word list" where
  "schedule_step schedule =
     (let index = length schedule;
          previous = schedule ! (index - 15);
          recent = schedule ! (index - 2);
          spread_low = rotate_right previous 7 XOR rotate_right previous 18 XOR drop_bit 3 previous;
          spread_high = rotate_right recent 17 XOR rotate_right recent 19 XOR drop_bit 10 recent
      in schedule @ [schedule ! (index - 16) + spread_low + schedule ! (index - 7) + spread_high])"

definition message_schedule :: "(nat \<Rightarrow> 8 word) \<Rightarrow> nat \<Rightarrow> 32 word list" where
  "message_schedule byte_at block =
     foldl (\<lambda>schedule _. schedule_step schedule)
       (map (\<lambda>word_index. pack_word byte_at (block + word_index * 4)) [0..<16]) [16..<64]"

type_synonym working = "32 word \<times> 32 word \<times> 32 word \<times> 32 word \<times> 32 word \<times> 32 word \<times> 32 word \<times> 32 word"

definition sha_round :: "32 word list \<Rightarrow> 32 word list \<Rightarrow> working \<Rightarrow> nat \<Rightarrow> working" where
  "sha_round round_constants schedule w round_index =
     (case w of (a, b, c, d, e, f, g, h) \<Rightarrow>
        let sigma_e = rotate_right e 6 XOR rotate_right e 11 XOR rotate_right e 25;
            chosen = (e AND f) XOR ((NOT e) AND g);
            first_temporary = h + sigma_e + chosen + round_constants ! round_index + schedule ! round_index;
            sigma_a = rotate_right a 2 XOR rotate_right a 13 XOR rotate_right a 22;
            majority = (a AND b) XOR (a AND c) XOR (b AND c);
            second_temporary = sigma_a + majority
        in (first_temporary + second_temporary, a, b, c, d + first_temporary, e, f, g))"

definition sha_block :: "32 word list \<Rightarrow> (nat \<Rightarrow> 8 word) \<Rightarrow> 32 word list \<Rightarrow> nat \<Rightarrow> 32 word list" where
  "sha_block round_constants byte_at state block =
     (let schedule = message_schedule byte_at block in
      case foldl (sha_round round_constants schedule) (state ! 0, state ! 1, state ! 2, state ! 3, state ! 4, state ! 5, state ! 6, state ! 7) [0..<64] of
        (a, b, c, d, e, f, g, h) \<Rightarrow>
          [state ! 0 + a, state ! 1 + b, state ! 2 + c, state ! 3 + d, state ! 4 + e, state ! 5 + f, state ! 6 + g, state ! 7 + h])"

definition digest_of_state :: "32 word list \<Rightarrow> 8 word list" where
  "digest_of_state state =
     concat (map (\<lambda>w. map (\<lambda>byte_in_word. ucast (drop_bit ((4 - 1 - byte_in_word) * 8) w AND 0xFF)) [0..<4]) state)"

definition sha256 :: "32 word list \<Rightarrow> bytes \<Rightarrow> 8 word list" where
  "sha256 round_constants message =
     (let padded_bytes = padded_length message in
      digest_of_state
        (foldl (sha_block round_constants (padded_message_byte message padded_bytes)) kSha256InitialState
          (map (\<lambda>i. i * 64) [0..<padded_bytes div 64])))"

section \<open>Base64\<close>

definition kBase64Alphabet :: bytes where
  "kBase64Alphabet = ''ABCDEFGHIJKLMNOPQRSTUVWXYZabcdefghijklmnopqrstuvwxyz0123456789+/''"

definition emit_sextet :: "32 word \<Rightarrow> nat \<Rightarrow> char" where
  "emit_sextet grp sextet_index = kBase64Alphabet ! unat (drop_bit (sextet_index * 6) grp AND 0x3F)"

text \<open>The loop over whole groups, then the tail of two bytes and the padding.\<close>

fun base64_loop :: "8 word list \<Rightarrow> bytes" where
  "base64_loop (x # y # z # rest) =
     (let grp = push_bit 16 (ucast x) OR push_bit 8 (ucast y) OR ucast z
      in [emit_sextet grp 3, emit_sextet grp 2, emit_sextet grp 1, emit_sextet grp 0] @ base64_loop rest)"
| "base64_loop [x, y] =
     (let tail = push_bit 16 (ucast x) OR push_bit 8 (ucast y)
      in [emit_sextet tail 3, emit_sextet tail 2, emit_sextet tail 1, CHR ''=''])"
| "base64_loop rest = []"

definition base64_of_digest :: "8 word list \<Rightarrow> bytes" where
  "base64_of_digest digest = base64_loop digest"

definition sha256_base64_equals :: "32 word list \<Rightarrow> bytes \<Rightarrow> bytes \<Rightarrow> bool" where
  "sha256_base64_equals round_constants message expected_text \<longleftrightarrow> base64_of_digest (sha256 round_constants message) = expected_text"

section \<open>The padding\<close>

text \<open>FIPS 180-4, 5.1.1: the message, one bit, zeros, and the length in bits as eight bytes, most significant
  first.\<close>

definition fips_padding :: "bytes \<Rightarrow> 8 word list" where
  "fips_padding message =
     map (\<lambda>c. word_of_nat (byte c)) message @ [0x80] @ replicate ((64 - (length message + 9) mod 64) mod 64) 0 @
     map (\<lambda>i. word_of_nat ((length message * 8) div 256 ^ (7 - i))) [0..<8]"

lemma padded_length_eq: "padded_length message = length message + 9 + (64 - (length message + 9) mod 64) mod 64"
proof -
  have round_up: "(n + 63) div 64 * 64 = n + (64 - n mod 64) mod 64" for n :: nat
  proof -
    have n: "n = 64 * (n div 64) + n mod 64" by simp
    show ?thesis
    proof (cases "n mod 64 = 0")
      case True
      then obtain q where "n = 64 * q" by (auto simp: mod_eq_0_iff_dvd)
      then show ?thesis by simp
    next
      case False
      have "n mod 64 < 64" by simp
      then have "(n mod 64 + 63) div 64 = 1" using False by (intro div_nat_eqI) auto
      moreover have "(n + 63) div 64 = n div 64 + (n mod 64 + 63) div 64"
        by (simp add: div_add1_eq [of n 63])
      moreover have "(64 - n mod 64) mod 64 = 64 - n mod 64" using False by simp
      ultimately have "(n + 63) div 64 * 64 = n div 64 * 64 + 64" "(64 - n mod 64) mod 64 = 64 - n mod 64" by simp_all
      with div_mult_mod_eq [of n 64] \<open>n mod 64 < 64\<close> show ?thesis by linarith
    qed
  qed
  from this [of "length message + 9"] show ?thesis by (simp add: padded_length_def)
qed

lemma length_byte:
  assumes "k < 8"
  shows "(ucast (drop_bit (k * 8) (word_of_nat n * 8 :: 64 word) AND 0xFF) :: 8 word) = word_of_nat ((n * 8) div 256 ^ k)"
proof -
  have product: "word_of_nat n * 8 = (word_of_nat (n * 8) :: 64 word)" by simp
  have low: "(0xFF :: 64 word) = mask 8" by (simp add: mask_eq_exp_minus_1)
  have quotient: "(n * 8) div 256 ^ k = drop_bit (k * 8) (n * 8)"
    by (simp add: drop_bit_eq_div power_mult mult.commute [of k])
  have "(ucast (drop_bit (k * 8) (word_of_nat m :: 64 word) AND mask 8) :: 8 word) = word_of_nat (drop_bit (k * 8) m)" for m
    using assms by (auto intro!: bit_word_eqI simp: bit_simps)
  then show ?thesis unfolding product low quotient .
qed

text \<open>The padding computed one byte at a time is the padding of the standard, for messages of every length.\<close>

theorem padding_is_fips:
  "map (padded_message_byte message (padded_length message)) [0..<padded_length message] = fips_padding message \<and>
   64 dvd padded_length message"
proof (rule conjI)
  let ?n = "length message"
  define zeros where "zeros = (64 - (length message + 9) mod 64) mod 64"
  have total: "padded_length message = ?n + 9 + zeros" by (simp add: padded_length_eq zeros_def)
  show "map (padded_message_byte message (padded_length message)) [0..<padded_length message] = fips_padding message"
  proof (rule nth_equalityI)
    show "length (map (padded_message_byte message (padded_length message)) [0..<padded_length message]) = length (fips_padding message)"
      by (simp add: fips_padding_def total zeros_def [symmetric])
    fix i
    assume "i < length (map (padded_message_byte message (padded_length message)) [0..<padded_length message])"
    then have i: "i < ?n + 9 + zeros" by (simp add: total)
    show "map (padded_message_byte message (padded_length message)) [0..<padded_length message] ! i = fips_padding message ! i"
    proof (cases "i < ?n + 1 + zeros")
      case True
      with i show ?thesis
        by (auto simp: padded_message_byte_def fips_padding_def total zeros_def [symmetric] nth_append nth_Cons' Let_def)
    next
      case False
      define j where "j = i - (?n + 1 + zeros)"
      have j: "i = ?n + 1 + zeros + j" "j < 8" using False i by (auto simp: j_def)
      have "fips_padding message ! i = word_of_nat ((?n * 8) div 256 ^ (7 - j))"
        using j by (simp add: fips_padding_def nth_append zeros_def [symmetric])
      moreover have "padded_length message - 1 - i = 7 - j" using j by (simp add: total)
      ultimately show ?thesis
        using j length_byte [of "7 - j" ?n] by (simp add: padded_message_byte_def total Let_def)
    qed
  qed
  show "64 dvd padded_length message" by (simp add: padded_length_def)
qed

section \<open>Reading the encoding back\<close>

definition sextet_of :: "char \<Rightarrow> 32 word" where
  "sextet_of c = (case find_char c kBase64Alphabet of None \<Rightarrow> 0 | Some i \<Rightarrow> word_of_nat i)"

fun base64_read :: "bytes \<Rightarrow> 8 word list" where
  "base64_read (c1 # c2 # c3 # c4 # rest) =
     (let x = ucast (push_bit 2 (sextet_of c1) OR drop_bit 4 (sextet_of c2));
          y = ucast (push_bit 4 (sextet_of c2) OR drop_bit 2 (sextet_of c3));
          z = ucast (push_bit 6 (sextet_of c3) OR sextet_of c4)
      in if c4 = CHR ''='' then [x, y] else [x, y, z] @ base64_read rest)"
| "base64_read rest = []"

lemma alphabet_distinct: "distinct kBase64Alphabet" "length kBase64Alphabet = 64" "CHR ''='' \<notin> set kBase64Alphabet"
  by (simp_all add: kBase64Alphabet_def)

lemma find_char_nth: "distinct s \<Longrightarrow> i < length s \<Longrightarrow> find_char (s ! i) s = Some i"
  by (induction s arbitrary: i) (auto simp: nth_Cons' split: nat.splits)

lemma sextet_bound: "unat (w AND 0x3F :: 32 word) < 64"
proof -
  have "w AND 0x3F = take_bit 6 w" by (simp add: take_bit_eq_mask mask_eq_exp_minus_1)
  then show ?thesis using take_bit_nat_less_exp [of 6 "unat w"] by (simp add: unsigned_take_bit_eq)
qed

lemma sextet_of_emit: "sextet_of (emit_sextet g k) = drop_bit (k * 6) g AND 0x3F"
  using find_char_nth [OF alphabet_distinct(1)] sextet_bound
  by (simp add: sextet_of_def emit_sextet_def alphabet_distinct)

lemma emit_not_padding: "emit_sextet g k \<noteq> CHR ''=''"
  using alphabet_distinct sextet_bound nth_mem unfolding emit_sextet_def by metis

text \<open>Three bytes, through four sextets and back.\<close>

lemma group_of_bytes:
  fixes x y z :: "8 word"
  defines "g \<equiv> push_bit 16 (ucast x) OR push_bit 8 (ucast y) OR ucast z :: 32 word"
  shows "ucast (push_bit 2 (drop_bit 18 g AND 0x3F) OR drop_bit 4 (drop_bit 12 g AND 0x3F)) = x"
    and "ucast (push_bit 4 (drop_bit 12 g AND 0x3F) OR drop_bit 2 (drop_bit 6 g AND 0x3F)) = y"
    and "ucast (push_bit 6 (drop_bit 6 g AND 0x3F) OR (g AND 0x3F)) = z"
proof -
  have low: "(0x3F :: 32 word) = mask 6" by (simp add: mask_eq_exp_minus_1)
  have eight: "n < 8 \<longleftrightarrow> n \<in> {0, 1, 2, 3, 4, 5, 6, 7}" for n :: nat by auto
  have up: "Suc (Suc 0) \<le> n \<Longrightarrow> Suc (Suc (n - Suc (Suc 0))) = n"
    "Suc (Suc (Suc (Suc 0))) \<le> n \<Longrightarrow> Suc (Suc (Suc (Suc (n - Suc (Suc (Suc (Suc 0))))))) = n"
    "Suc (Suc (Suc (Suc (Suc (Suc 0))))) \<le> n \<Longrightarrow>
       Suc (Suc (Suc (Suc (Suc (Suc (n - Suc (Suc (Suc (Suc (Suc (Suc 0))))))))))) = n" for n by simp_all
  have high: "\<not> bit w k" if "8 \<le> k" for k and w :: "8 word" using that bit_imp_le_length [of w k] by auto
  show "ucast (push_bit 2 (drop_bit 18 g AND 0x3F) OR drop_bit 4 (drop_bit 12 g AND 0x3F)) = x"
    unfolding low g_def by (rule bit_word_eqI, simp add: bit_simps) (auto simp: eight high eval_nat_numeral not_less up)
  show "ucast (push_bit 4 (drop_bit 12 g AND 0x3F) OR drop_bit 2 (drop_bit 6 g AND 0x3F)) = y"
    unfolding low g_def by (rule bit_word_eqI, simp add: bit_simps) (auto simp: eight high eval_nat_numeral not_less up)
  show "ucast (push_bit 6 (drop_bit 6 g AND 0x3F) OR (g AND 0x3F)) = z"
    unfolding low g_def by (rule bit_word_eqI, simp add: bit_simps) (auto simp: eight high eval_nat_numeral not_less up)
qed

lemma base64_read_loop: "length d mod 3 = 2 \<Longrightarrow> base64_read (base64_loop d) = d"
proof (induction d rule: base64_loop.induct)
  case (1 x y z rest)
  then have "base64_read (base64_loop rest) = rest" by simp
  then show ?case using group_of_bytes [of x y z] by (simp add: Let_def sextet_of_emit emit_not_padding)
next
  case (2 x y)
  show ?case using group_of_bytes [of x y 0] by (simp add: Let_def sextet_of_emit)
qed simp_all

lemma length_base64_loop: "length d mod 3 = 2 \<Longrightarrow> length (base64_loop d) = 4 * (length d div 3 + 1)"
  by (induction d rule: base64_loop.induct) (auto simp: Let_def div_add_self1)

lemma length_sha_block: "length (sha_block round_constants byte_at state block) = 8"
  by (simp add: sha_block_def Let_def split: prod.split)

lemma length_sha256: "length (sha256 round_constants message) = 32"
proof -
  have "length (foldl (sha_block round_constants byte_at) state blocks) = 8" if "length state = 8" for byte_at state blocks
    using that by (induction blocks arbitrary: state) (auto simp: length_sha_block)
  from this [of kSha256InitialState] have "length (foldl (sha_block round_constants byte_at) kSha256InitialState blocks) = 8" for byte_at blocks
    by (simp add: kSha256InitialState_def)
  then show ?thesis by (simp add: sha256_def digest_of_state_def Let_def length_concat comp_def sum_list_triv)
qed

text \<open>The encoding of a digest has the length of its array, 44 characters, and reads back as the digest.\<close>

theorem base64_digest_round_trip:
  "length (base64_of_digest (sha256 round_constants message)) = 44 \<and> base64_read (base64_of_digest (sha256 round_constants message)) = sha256 round_constants message"
  using base64_read_loop [of "sha256 round_constants message"] length_base64_loop [of "sha256 round_constants message"] length_sha256 [of round_constants message]
  by (simp add: base64_of_digest_def)

end
