(* ===== verification/Http_Sse.thy ===== *)
theory Http_Sse
  imports Http_Request_Parser Http_Response
begin

text \<open>
  \<open>sse.cpp\<close> and \<open>sse.hpp\<close>: server-sent events. An event is encoded into a frame once and queued at every
  subscriber; the connection of a subscriber pulls its queue. Subscribers are shared by the channel, their
  connection and the heartbeat pump, so they live in a store; every operation holds the mutex of what it
  changes, hence is one step. Times are nanoseconds, intervals seconds, as the source has them.
\<close>

section \<open>Frames\<close>

definition kEventStreamContentType :: bytes where "kEventStreamContentType = ''text/event-stream''"
definition kEventFieldPrefix :: bytes where "kEventFieldPrefix = ''event: ''"
definition kDataFieldPrefix :: bytes where "kDataFieldPrefix = ''data: ''"
definition kRetryFieldPrefix :: bytes where "kRetryFieldPrefix = ''retry: ''"
definition kLineBreaks :: bytes where "kLineBreaks = [CHR 0x0D, CHR 0x0A]"
definition kHeartbeatFrame :: bytes where "kHeartbeatFrame = '': heartbeat'' @ [CHR 0x0A, CHR 0x0A]"
definition kSubscriberLimitBody :: bytes where
  "kSubscriberLimitBody = ''sse: subscriber limit reached'' @ [CHR 0x0A]"
definition kChannelClosedBody :: bytes where "kChannelClosedBody = ''sse: channel closed'' @ [CHR 0x0A]"
definition kOverflowsBeforeDisconnect :: nat where "kOverflowsBeforeDisconnect = 4"
definition kMillisecondsPerSecond :: int where "kMillisecondsPerSecond = 1000"

text \<open>Where the next line starts when a line breaks at \<open>break_at\<close>: a CR LF pair is one break.\<close>

definition after_break :: "nat \<Rightarrow> bytes \<Rightarrow> bytes" where
  "after_break break_at payload =
     (let rest = drop (break_at + 1) payload in
      if payload ! break_at = CHR 0x0D \<and> rest \<noteq> [] \<and> hd rest = CHR 0x0A then tl rest else rest)"

lemma find_first_of_less [termination_simp]: "find_first_of cs s = Some i \<Longrightarrow> i < length s"
  by (induction s arbitrary: i) (auto split: if_splits)

lemma length_after_break:
  "find_first_of cs s = Some i \<Longrightarrow> length (after_break i s) < length s"
  "Some i = find_first_of cs s \<Longrightarrow> length (after_break i s) < length s"
  by (auto simp: after_break_def Let_def dest!: find_first_of_less sym [of "Some i"])

function append_data_lines :: "bytes \<Rightarrow> bytes \<Rightarrow> bytes" where
  "append_data_lines frame payload =
     (case find_first_of kLineBreaks payload of
        None \<Rightarrow> frame @ kDataFieldPrefix @ payload @ [CHR 0x0A]
      | Some break_at \<Rightarrow>
          append_data_lines (frame @ kDataFieldPrefix @ take break_at payload @ [CHR 0x0A])
            (after_break break_at payload))"
  by pat_completeness auto
termination
  by (relation "measure (\<lambda>(_, payload). length payload)") (auto intro: length_after_break)

declare append_data_lines.simps [simp del]

definition append_event_name :: "bytes \<Rightarrow> bytes \<Rightarrow> bytes" where
  "append_event_name frame event =
     frame @ kEventFieldPrefix @
       map (\<lambda>c. if c = CHR 0x0D \<or> c = CHR 0x0A then CHR '' '' else c) event @ [CHR 0x0A]"

text \<open>\<open>add_frame_bytes\<close>: the size after adding, or nothing; the size never exceeds the limit, so the
  subtraction does not wrap.\<close>

definition add_frame_bytes :: "nat \<Rightarrow> nat \<Rightarrow> nat \<Rightarrow> nat option" where
  "add_frame_bytes frame_size n limit = (if n > limit - frame_size then None else Some (frame_size + n))"

definition add_field :: "nat \<Rightarrow> bytes \<Rightarrow> nat \<Rightarrow> nat \<Rightarrow> nat option" where
  "add_field frame_size prefix n limit =
     Option.bind (add_frame_bytes frame_size (length prefix) limit)
       (\<lambda>bytes_so_far. Option.bind (add_frame_bytes bytes_so_far n limit) (\<lambda>bytes_so_far. add_frame_bytes bytes_so_far 1 limit))"

function data_lines_size :: "nat \<Rightarrow> bytes \<Rightarrow> nat \<Rightarrow> nat option" where
  "data_lines_size frame_size data limit =
     (let break_at = find_first_of kLineBreaks data;
          line_end = (case break_at of None \<Rightarrow> length data | Some b \<Rightarrow> b) in
      case add_field frame_size kDataFieldPrefix line_end limit of
        None \<Rightarrow> None
      | Some bytes_so_far \<Rightarrow>
          (case break_at of None \<Rightarrow> Some bytes_so_far
           | Some b \<Rightarrow> data_lines_size bytes_so_far (after_break b data) limit))"
  by pat_completeness auto
termination
  by (relation "measure (\<lambda>(_, data, _). length data)") (auto intro: length_after_break)

declare data_lines_size.simps [simp del]

definition event_frame_size :: "bytes \<Rightarrow> bytes \<Rightarrow> nat \<Rightarrow> nat option" where
  "event_frame_size event data limit =
     Option.bind (if event \<noteq> [] then add_field 0 kEventFieldPrefix (length event) limit else Some 0)
       (\<lambda>bytes_so_far. Option.bind (data_lines_size bytes_so_far data limit) (\<lambda>bytes_so_far. add_frame_bytes bytes_so_far 1 limit))"

definition build_event_frame :: "bytes \<Rightarrow> bytes \<Rightarrow> bytes" where
  "build_event_frame event data =
     append_data_lines (if event \<noteq> [] then append_event_name [] event else []) data @ [CHR 0x0A]"

text \<open>\<open>std::to_string\<close> of a signed number.\<close>

definition int_to_string :: "int \<Rightarrow> bytes" where
  "int_to_string n = (if n < 0 then CHR ''-'' # nat_to_dec (nat (- n)) else nat_to_dec (nat n))"

definition build_retry_frame :: "int \<Rightarrow> bytes" where
  "build_retry_frame retry_hint =
     kRetryFieldPrefix @ int_to_string (retry_hint * kMillisecondsPerSecond) @ [CHR 0x0A, CHR 0x0A]"

section \<open>Subscribers\<close>

record sse_options =
  max_subscribers :: nat
  max_queued_bytes_per_subscriber :: nat
  max_event_bytes :: nat
  heartbeat_interval :: int
  retry_hint :: int

record subscriber =
  sb_queue :: "bytes list"
  sb_queued_bytes :: nat
  sb_max_queued_bytes :: nat
  sb_heartbeat_interval :: int
  sb_notifier :: "nat option"
  sb_last_write :: int
  sb_consecutive_overflows :: nat
  sb_closed :: bool
  sb_detached :: bool

datatype pull = Pulled_Wrote | Pulled_Idle | Pulled_Finished

definition push_back_locked :: "bytes \<Rightarrow> subscriber \<Rightarrow> subscriber" where
  "push_back_locked frame s =
     s\<lparr>sb_queued_bytes := sb_queued_bytes s + length frame, sb_queue := sb_queue s @ [frame]\<rparr>"

definition close_locked :: "subscriber \<Rightarrow> subscriber" where
  "close_locked s = s\<lparr>sb_closed := True, sb_queue := [], sb_queued_bytes := 0\<rparr>"

definition new_subscriber :: "sse_options \<Rightarrow> int \<Rightarrow> subscriber" where
  "new_subscriber options now =
     (let s = \<lparr>sb_queue = [], sb_queued_bytes = 0,
            sb_max_queued_bytes = max_queued_bytes_per_subscriber options,
            sb_heartbeat_interval = heartbeat_interval options, sb_notifier = None, sb_last_write = now,
            sb_consecutive_overflows = 0, sb_closed = False, sb_detached = False\<rparr> in
      if retry_hint options > 0
      then let retry = build_retry_frame (retry_hint options) in
        if length retry \<le> sb_max_queued_bytes s then push_back_locked retry s else s
      else s)"

definition sb_pull :: "int \<Rightarrow> subscriber \<Rightarrow> (pull \<times> bytes) \<times> subscriber" where
  "sb_pull now s =
     (if sb_queue s = [] then ((if sb_closed s then Pulled_Finished else Pulled_Idle, []), s)
      else ((Pulled_Wrote, concat (sb_queue s)),
        s\<lparr>sb_queue := [], sb_queued_bytes := 0, sb_consecutive_overflows := 0, sb_last_write := now\<rparr>))"

definition on_attached :: "nat \<Rightarrow> subscriber \<Rightarrow> subscriber" where
  "on_attached notifier s = s\<lparr>sb_notifier := Some notifier\<rparr>"

definition on_detached :: "subscriber \<Rightarrow> subscriber" where
  "on_detached s = s\<lparr>sb_detached := True, sb_closed := True, sb_notifier := None, sb_queue := [], sb_queued_bytes := 0\<rparr>"

text \<open>The loop of \<open>enqueue\<close> that makes room: the queue and its size, and whether anything was dropped.\<close>

fun make_room :: "nat \<Rightarrow> nat \<Rightarrow> nat \<Rightarrow> bytes list \<Rightarrow> bool \<Rightarrow> bytes list \<times> nat \<times> bool" where
  "make_room frame_size max_bytes queued [] dropped = ([], queued, dropped)"
| "make_room frame_size max_bytes queued (front # queue) dropped =
     (if frame_size > max_bytes - queued
      then make_room frame_size max_bytes (queued - length front) queue True
      else (front # queue, queued, dropped))"

text \<open>\<open>enqueue\<close>: the subscriber afterwards and the notifier that is told.\<close>

definition enqueue :: "bytes \<Rightarrow> subscriber \<Rightarrow> subscriber \<times> nat option" where
  "enqueue frame s =
     (if sb_closed s then (s, None)
      else if length frame > sb_max_queued_bytes s then (close_locked s, sb_notifier s)
      else
        let (queue, queued, dropped) =
              make_room (length frame) (sb_max_queued_bytes s) (sb_queued_bytes s) (sb_queue s) False;
            s = push_back_locked frame (s\<lparr>sb_queue := queue, sb_queued_bytes := queued\<rparr>);
            s = (if dropped
                 then let s = s\<lparr>sb_consecutive_overflows := sb_consecutive_overflows s + 1\<rparr> in
                   if sb_consecutive_overflows s \<ge> kOverflowsBeforeDisconnect then close_locked s else s
                 else s)
        in (s, sb_notifier s))"

definition sb_begin_close :: "subscriber \<Rightarrow> subscriber \<times> nat option" where
  "sb_begin_close s = (s\<lparr>sb_closed := True\<rparr>, sb_notifier s)"

definition alive :: "subscriber \<Rightarrow> bool" where
  "alive s \<longleftrightarrow> \<not> sb_closed s \<and> \<not> sb_detached s"

definition maybe_heartbeat :: "int \<Rightarrow> subscriber \<Rightarrow> subscriber \<times> nat option" where
  "maybe_heartbeat now s =
     (if sb_closed s \<or> sb_detached s \<or> sb_heartbeat_interval s \<le> 0 then (s, None)
      else if now - sb_last_write s < sb_heartbeat_interval s * 1000000000 then (s, None)
      else if sb_queue s \<noteq> [] then (s, None)
      else
        let s = (if length kHeartbeatFrame > sb_max_queued_bytes s then close_locked s
                 else push_back_locked kHeartbeatFrame s)
        in (s\<lparr>sb_last_write := now\<rparr>, sb_notifier s))"

section \<open>Channels\<close>

text \<open>The state of a channel with the store of its subscribers, the pump's list of them (weak references:
  what the store no longer has is gone), the next identity and the notifiers told so far.\<close>

record channel =
  ch_options :: sse_options
  ch_store :: "nat \<Rightarrow> subscriber option"
  ch_subscribers :: "nat list"
  ch_accepting :: bool
  ch_pump :: "nat list"
  ch_next :: nat
  ch_notified :: "nat list"

definition new_channel :: "sse_options \<Rightarrow> channel" where
  "new_channel options = \<lparr>ch_options = options, ch_store = (\<lambda>_. None), ch_subscribers = [], ch_accepting = True,
     ch_pump = [], ch_next = 0, ch_notified = []\<rparr>"

definition alive_in :: "channel \<Rightarrow> nat \<Rightarrow> bool" where
  "alive_in ch i = (case ch_store ch i of None \<Rightarrow> False | Some s \<Rightarrow> alive s)"

definition prune_dead :: "channel \<Rightarrow> channel" where
  "prune_dead ch = ch\<lparr>ch_subscribers := filter (alive_in ch) (ch_subscribers ch)\<rparr>"

text \<open>One call of a subscriber's operation through a shared pointer.\<close>

definition on_subscriber :: "(subscriber \<Rightarrow> subscriber \<times> nat option) \<Rightarrow> nat \<Rightarrow> channel \<Rightarrow> channel" where
  "on_subscriber f i ch =
     (case ch_store ch i of None \<Rightarrow> ch
      | Some s \<Rightarrow> let (s', told) = f s in
          ch\<lparr>ch_store := (ch_store ch)(i := Some s'),
             ch_notified := ch_notified ch @ (case told of None \<Rightarrow> [] | Some n \<Rightarrow> [n])\<rparr>)"

definition subscribe :: "http_method \<Rightarrow> int \<Rightarrow> channel \<Rightarrow> response \<times> channel" where
  "subscribe meth now ch =
     (if meth = Method_Head
      then (set_header ''Content-Type'' kEventStreamContentType (response_empty Status_Ok), ch)
      else
        let subscriber = new_subscriber (ch_options ch) now in
        if \<not> ch_accepting ch then (response_text kChannelClosedBody Status_ServiceUnavailable, ch)
        else let ch = prune_dead ch in
          if length (ch_subscribers ch) \<ge> max_subscribers (ch_options ch)
          then (set_header ''Retry-After'' (int_to_string (retry_hint (ch_options ch)))
                  (response_text kSubscriberLimitBody Status_ServiceUnavailable), ch)
          else let i = ch_next ch in
            (set_header ''X-Accel-Buffering'' ''no'' (response_stream (Some (i, kEventStreamContentType))),
             ch\<lparr>ch_store := (ch_store ch)(i := Some subscriber), ch_subscribers := ch_subscribers ch @ [i],
                ch_pump := ch_pump ch @ [i], ch_next := i + 1\<rparr>))"

datatype sse_error = EventTooLarge

definition publish :: "bytes \<Rightarrow> bytes \<Rightarrow> channel \<Rightarrow> (sse_error, channel) expected" where
  "publish event data ch =
     (case event_frame_size event data (max_event_bytes (ch_options ch)) of
        None \<Rightarrow> Inl EventTooLarge
      | Some frame_size \<Rightarrow>
          let frame = build_event_frame event data; ch = prune_dead ch
          in Inr (fold (on_subscriber (enqueue frame)) (ch_subscribers ch) ch))"

definition publish_json :: "bytes \<Rightarrow> bytes \<Rightarrow> channel \<Rightarrow> (sse_error, channel) expected" where
  "publish_json event json_body ch = publish event json_body ch"

definition subscriber_count :: "channel \<Rightarrow> nat" where
  "subscriber_count ch = length (filter (alive_in ch) (ch_subscribers ch))"

definition close_subscribers :: "channel \<Rightarrow> channel" where
  "close_subscribers ch = (fold (on_subscriber sb_begin_close) (ch_subscribers ch) ch)\<lparr>ch_subscribers := []\<rparr>"

definition close_all :: "channel \<Rightarrow> channel" where
  "close_all ch = close_subscribers ch"

definition channel_shutdown :: "channel \<Rightarrow> channel" where
  "channel_shutdown ch = close_subscribers (ch\<lparr>ch_accepting := False\<rparr>)"

text \<open>\<open>HeartbeatPump::tick_locked\<close>: \<open>erase_if\<close> over the list, one subscriber after the other.\<close>

fun tick_loop :: "int \<Rightarrow> nat list \<Rightarrow> channel \<Rightarrow> nat list \<times> channel" where
  "tick_loop now [] ch = ([], ch)"
| "tick_loop now (i # is) ch =
     (if \<not> alive_in ch i then tick_loop now is ch
      else let (kept, ch) = tick_loop now is (on_subscriber (maybe_heartbeat now) i ch) in (i # kept, ch))"

definition tick_locked :: "int \<Rightarrow> channel \<Rightarrow> channel" where
  "tick_locked now ch = (let (kept, ch) = tick_loop now (ch_pump ch) ch in ch\<lparr>ch_pump := kept\<rparr>)"

section \<open>What a client reads\<close>

text \<open>The reference: how a client splits the stream into lines and lines into events. Any of CR LF, CR and
  LF ends a line; an empty line dispatches what was collected; comments and other fields are ignored.\<close>

fun normalise :: "bytes \<Rightarrow> bytes" where
  "normalise [] = []"
| "normalise (c # s) =
     (if c = CHR 0x0D then CHR 0x0A # normalise (if s \<noteq> [] \<and> hd s = CHR 0x0A then tl s else s)
      else c # normalise s)"

fun sse_read_lines :: "bytes \<Rightarrow> bytes list \<Rightarrow> bytes list \<Rightarrow> (bytes \<times> bytes) list" where
  "sse_read_lines event data [] = []"
| "sse_read_lines event data (l # ls) =
     (if l = [] then (if data = [] then [] else [(event, join_with [CHR 0x0A] data)]) @ sse_read_lines [] [] ls
      else if starts_with l kEventFieldPrefix then sse_read_lines (drop (length kEventFieldPrefix) l) data ls
      else if starts_with l kDataFieldPrefix
      then sse_read_lines event (data @ [drop (length kDataFieldPrefix) l]) ls
      else sse_read_lines event data ls)"

definition sse_read :: "bytes \<Rightarrow> (bytes \<times> bytes) list" where
  "sse_read stream = sse_read_lines [] [] (split_on (CHR 0x0A) (normalise stream))"

definition one_line :: "bytes \<Rightarrow> bytes" where
  "one_line event = map (\<lambda>c. if c = CHR 0x0D \<or> c = CHR 0x0A then CHR '' '' else c) event"

text \<open>Lines, each ended by LF.\<close>

definition unlines :: "bytes list \<Rightarrow> bytes" where
  "unlines ls = concat (map (\<lambda>l. l @ [CHR 0x0A]) ls)"

lemma unlines_simps [simp]:
  "unlines [] = []" "unlines (l # ls) = l @ CHR 0x0A # unlines ls" "unlines (ls @ ms) = unlines ls @ unlines ms"
  by (simp_all add: unlines_def)

lemma split_unlines:
  "\<forall>l \<in> set ls. CHR 0x0A \<notin> set l \<Longrightarrow> split_on (CHR 0x0A) (unlines ls @ rest) = ls @ split_on (CHR 0x0A) rest"
  by (induction ls) (simp_all add: split_on_append)

lemma normalise_plain: "CHR 0x0D \<notin> set s \<Longrightarrow> normalise (s @ t) = s @ normalise t"
  by (induction s) auto

lemma normalise_id: "CHR 0x0D \<notin> set s \<Longrightarrow> normalise s = s"
  using normalise_plain [of s "[]"] by simp

lemma normalise_no_cr: "CHR 0x0D \<notin> set (normalise s)"
  by (induction s rule: normalise.induct) auto

lemma find_first_of_None: "find_first_of cs s = None \<longleftrightarrow> (\<forall>c \<in> set cs. c \<notin> set s)"
  by (induction s) auto

lemma find_first_of_Some:
  "find_first_of cs s = Some i \<Longrightarrow> i < length s \<and> s ! i \<in> set cs \<and> (\<forall>c \<in> set cs. c \<notin> set (take i s))"
  by (induction s arbitrary: i) (auto split: if_splits)

lemma normalise_break:
  assumes "find_first_of kLineBreaks s = Some i"
  shows "normalise s = take i s @ CHR 0x0A # normalise (after_break i s)" "CHR 0x0A \<notin> set (take i s)"
proof -
  note F = find_first_of_Some [OF assms]
  have "s = take i s @ s ! i # drop (i + 1) s" using F id_take_nth_drop by force
  then have "normalise s = normalise (take i s @ s ! i # drop (i + 1) s)" by (rule arg_cong)
  also have "\<dots> = take i s @ normalise (s ! i # drop (i + 1) s)"
    using F by (intro normalise_plain) (auto simp: kLineBreaks_def)
  also have "normalise (s ! i # drop (i + 1) s) = CHR 0x0A # normalise (after_break i s)"
    using F by (auto simp: kLineBreaks_def after_break_def Let_def)
  finally show "normalise s = take i s @ CHR 0x0A # normalise (after_break i s)" .
  show "CHR 0x0A \<notin> set (take i s)" using F by (auto simp: kLineBreaks_def)
qed

definition payload_lines :: "bytes \<Rightarrow> bytes list" where
  "payload_lines data = split_on (CHR 0x0A) (normalise data)"

lemma payload_lines_None: "find_first_of kLineBreaks data = None \<Longrightarrow> payload_lines data = [data]"
  by (simp add: payload_lines_def find_first_of_None kLineBreaks_def normalise_id split_on_notin)

lemma payload_lines_Some:
  "find_first_of kLineBreaks data = Some i \<Longrightarrow> payload_lines data = take i data # payload_lines (after_break i data)"
  using normalise_break [of data i] by (simp add: payload_lines_def split_on_append)

lemma payload_lines_free:
  "l \<in> set (payload_lines data) \<Longrightarrow> CHR 0x0A \<notin> set l \<and> CHR 0x0D \<notin> set l"
  using split_on_pieces_free [of l "CHR 0x0A" "normalise data"] split_on_pieces_subset [of l "CHR 0x0A" "normalise data"]
    normalise_no_cr [of data]
  by (auto simp: payload_lines_def)

lemma append_data_lines_eq:
  "append_data_lines frame data = frame @ unlines (map ((@) kDataFieldPrefix) (payload_lines data))"
proof (induction frame data rule: append_data_lines.induct)
  case (1 frame data)
  then show ?case
    by (subst append_data_lines.simps)
      (simp add: payload_lines_None payload_lines_Some split: option.split)
qed

definition event_lines :: "bytes \<Rightarrow> bytes \<Rightarrow> bytes list" where
  "event_lines event data =
     (if event = [] then [] else [kEventFieldPrefix @ one_line event]) @
     map ((@) kDataFieldPrefix) (payload_lines data) @ [[]]"

lemma build_event_frame_eq: "build_event_frame event data = unlines (event_lines event data)"
  by (simp add: build_event_frame_def append_data_lines_eq append_event_name_def event_lines_def one_line_def)

lemma event_lines_free: "l \<in> set (event_lines event data) \<Longrightarrow> CHR 0x0A \<notin> set l \<and> CHR 0x0D \<notin> set l"
  using payload_lines_free [of _ data]
  by (auto simp: event_lines_def one_line_def kEventFieldPrefix_def kDataFieldPrefix_def split: if_splits)

lemma read_data_lines:
  "sse_read_lines event acc (map ((@) kDataFieldPrefix) ds @ rest) = sse_read_lines event (acc @ ds) rest"
  by (induction ds arbitrary: acc) (simp_all add: starts_with_def kDataFieldPrefix_def kEventFieldPrefix_def)

lemma read_event_lines:
  "sse_read_lines [] [] (event_lines event data @ rest) = (one_line event, normalise data) # sse_read_lines [] [] rest"
proof -
  have ne: "payload_lines data \<noteq> []" by (simp add: payload_lines_def)
  have j: "join_with [CHR 0x0A] (payload_lines data) = normalise data" by (simp add: payload_lines_def join_split_on)
  have "sse_read_lines e [] (map ((@) kDataFieldPrefix) (payload_lines data) @ [] # rest) =
      (e, normalise data) # sse_read_lines [] [] rest" for e
    using ne by (simp add: read_data_lines j)
  then show ?thesis
    by (auto simp: event_lines_def one_line_def starts_with_def kEventFieldPrefix_def)
qed

text \<open>What a subscriber's queue may hold besides events.\<close>

fun chunk_lines :: "(bytes \<times> bytes) option \<Rightarrow> bytes list" where
  "chunk_lines None = ['': heartbeat'', []]"
| "chunk_lines (Some (event, data)) = event_lines event data"

fun chunk_frame :: "(bytes \<times> bytes) option \<Rightarrow> bytes" where
  "chunk_frame None = kHeartbeatFrame"
| "chunk_frame (Some (event, data)) = build_event_frame event data"

lemma chunk_frame_eq: "chunk_frame c = unlines (chunk_lines c)"
  by (cases c rule: chunk_lines.cases) (simp_all add: build_event_frame_eq kHeartbeatFrame_def)

lemma chunk_lines_free: "l \<in> set (chunk_lines c) \<Longrightarrow> CHR 0x0A \<notin> set l \<and> CHR 0x0D \<notin> set l"
  by (cases c rule: chunk_lines.cases) (auto dest: event_lines_free)

lemma read_chunk_lines:
  "sse_read_lines [] [] (chunk_lines c @ rest) =
     map (\<lambda>(event, data). (one_line event, normalise data)) (case c of None \<Rightarrow> [] | Some e \<Rightarrow> [e]) @
     sse_read_lines [] [] rest"
  by (cases c rule: chunk_lines.cases)
    (simp_all add: read_event_lines starts_with_def kEventFieldPrefix_def kDataFieldPrefix_def)

lemma read_retry_lines: "sse_read_lines [] [] ((kRetryFieldPrefix @ n) # [] # rest) = sse_read_lines [] [] rest"
  by (simp add: kRetryFieldPrefix_def starts_with_def kEventFieldPrefix_def kDataFieldPrefix_def)

lemma int_to_string_free: "0 \<le> n \<Longrightarrow> CHR 0x0A \<notin> set (int_to_string n) \<and> CHR 0x0D \<notin> set (int_to_string n)"
  using nat_to_dec_digits [of "nat n"] by (auto simp: int_to_string_def is_decimal_digit_def byte_def)

text \<open>C17: a client reads back exactly what was published. Whatever event names and payloads are published,
  line breaks included, and wherever heartbeats fall between them, the frames after the retry hint read
  as one event per publication, in order, with the name on one line and the payload with its line breaks
  normalised; nothing in a name or a payload can end an event early or add a field.\<close>

theorem sse_frames_read_back:
  "sse_read ((if hint > 0 then build_retry_frame hint else []) @ concat (map chunk_frame chunks)) =
     map (\<lambda>(event, data). (one_line event, normalise data)) (List.map_filter id chunks)"
proof -
  let ?retry = "if hint > 0 then [kRetryFieldPrefix @ int_to_string (hint * kMillisecondsPerSecond), []] else []"
  let ?ls = "?retry @ concat (map chunk_lines chunks)"
  have "concat (map chunk_frame chunks) = unlines (concat (map chunk_lines chunks))"
    by (induction chunks) (simp_all add: chunk_frame_eq)
  then have stream: "(if hint > 0 then build_retry_frame hint else []) @ concat (map chunk_frame chunks) = unlines ?ls"
    by (simp add: build_retry_frame_def)
  have "l \<in> set ?ls \<Longrightarrow> CHR 0x0A \<notin> set l \<and> CHR 0x0D \<notin> set l" for l
    using chunk_lines_free int_to_string_free [of "hint * kMillisecondsPerSecond"]
    by (auto simp: kRetryFieldPrefix_def kMillisecondsPerSecond_def split: if_splits)
  then have free: "\<forall>l \<in> set ?ls. CHR 0x0A \<notin> set l" "CHR 0x0D \<notin> set (unlines ?ls)"
    by (auto simp: unlines_def)
  have "sse_read_lines [] [] (concat (map chunk_lines chunks) @ [[]]) =
      map (\<lambda>(event, data). (one_line event, normalise data)) (List.map_filter id chunks)"
    by (induction chunks) (auto simp: read_chunk_lines map_filter_simps split: option.split)
  then have read: "sse_read_lines [] [] (?ls @ [[]]) =
      map (\<lambda>(event, data). (one_line event, normalise data)) (List.map_filter id chunks)"
    by (simp add: read_retry_lines del: sse_read_lines.simps(2))
  have split: "split_on (CHR 0x0A) (unlines ?ls) = ?ls @ [[]]"
    using split_unlines [OF free(1), of "[]"] unfolding append_Nil2 split_on.simps(1) .
  show ?thesis unfolding stream sse_read_def normalise_id [OF free(2)] split by (rule read)
qed

section \<open>Sizes\<close>

lemma add_field_eq:
  "frame_size \<le> limit \<Longrightarrow> add_field frame_size prefix n limit =
     (let bytes_so_far = frame_size + length prefix + n + 1 in if bytes_so_far \<le> limit then Some bytes_so_far else None)"
  by (auto simp: add_field_def add_frame_bytes_def Let_def)

lemma data_lines_size_eq:
  "frame_size \<le> limit \<Longrightarrow> data_lines_size frame_size data limit =
     (let bytes_so_far = frame_size + length (unlines (map ((@) kDataFieldPrefix) (payload_lines data)))
      in if bytes_so_far \<le> limit then Some bytes_so_far else None)"
proof (induction frame_size data limit rule: data_lines_size.induct)
  case (1 frame_size data limit)
  show ?case
  proof (cases "find_first_of kLineBreaks data")
    case None
    then show ?thesis
      using 1(2) by (subst data_lines_size.simps) (simp add: add_field_eq payload_lines_None Let_def)
  next
    case (Some b)
    have len: "length (take b data) = b" using find_first_of_Some [OF Some] by simp
    let ?bytes_so_far = "frame_size + length kDataFieldPrefix + b + 1"
    have IH: "?bytes_so_far \<le> limit \<Longrightarrow> data_lines_size ?bytes_so_far (after_break b data) limit =
       (let bytes_so_far = ?bytes_so_far + length (unlines (map ((@) kDataFieldPrefix) (payload_lines (after_break b data))))
        in if bytes_so_far \<le> limit then Some bytes_so_far else None)"
      using 1(1) [OF refl refl, of ?bytes_so_far b] 1(2) Some by (simp add: add_field_eq Let_def)
    show ?thesis
      using 1(2) IH len Some
      by (subst data_lines_size.simps) (auto simp: add_field_eq payload_lines_Some Let_def)
  qed
qed

text \<open>The size computed before a frame is built is the size of the frame, and an event is refused
  exactly when its frame would exceed the limit.\<close>

theorem event_frame_size_exact:
  "event_frame_size event data limit =
     (if length (build_event_frame event data) \<le> limit then Some (length (build_event_frame event data)) else None)"
  by (auto simp: event_frame_size_def build_event_frame_eq event_lines_def one_line_def add_field_eq
      data_lines_size_eq add_frame_bytes_def Let_def)

section \<open>The queue of a subscriber\<close>

definition queue_bytes :: "bytes list \<Rightarrow> nat" where
  "queue_bytes queue = sum_list (map length queue)"

lemma queue_bytes_simps [simp]:
  "queue_bytes [] = 0" "queue_bytes (f # q) = length f + queue_bytes q" "queue_bytes (p @ q) = queue_bytes p + queue_bytes q"
  by (simp_all add: queue_bytes_def)

definition subscriber_ok :: "nat \<Rightarrow> subscriber \<Rightarrow> bool" where
  "subscriber_ok limit s \<longleftrightarrow> sb_max_queued_bytes s = limit \<and> sb_queued_bytes s = queue_bytes (sb_queue s) \<and>
     queue_bytes (sb_queue s) \<le> limit \<and> (sb_detached s \<longrightarrow> sb_closed s \<and> sb_queue s = []) \<and>
     (\<not> sb_closed s \<longrightarrow> sb_consecutive_overflows s < kOverflowsBeforeDisconnect)"

text \<open>Room is made by dropping the oldest frames, no more than needed.\<close>

lemma make_room_spec:
  assumes "make_room n limit (queue_bytes queue) queue dropped = (queue', queued, dropped')"
    and "queue_bytes queue \<le> limit" "n \<le> limit"
  obtains k where "queue' = drop k queue" "k \<le> length queue" "queued = queue_bytes queue'" "n + queued \<le> limit"
    "dropped' \<longleftrightarrow> dropped \<or> 0 < k" "\<And>j. j < k \<Longrightarrow> limit < n + queue_bytes (drop j queue)"
proof -
  have "\<exists>k. queue' = drop k queue \<and> k \<le> length queue \<and> queued = queue_bytes queue' \<and> n + queued \<le> limit \<and>
    (dropped' \<longleftrightarrow> dropped \<or> 0 < k) \<and> (\<forall>j < k. limit < n + queue_bytes (drop j queue))"
    using assms
  proof (induction queue arbitrary: dropped)
    case Nil
    then show ?case by (auto intro!: exI [of _ 0])
  next
    case (Cons front queue)
    show ?case
    proof (cases "n > limit - queue_bytes (front # queue)")
      case True
      then have "make_room n limit (queue_bytes queue) queue True = (queue', queued, dropped')"
        using Cons.prems(1) by simp
      then obtain k where k: "queue' = drop k queue" "k \<le> length queue" "queued = queue_bytes queue'" "n + queued \<le> limit"
        "dropped'" "\<forall>j < k. limit < n + queue_bytes (drop j queue)"
        using Cons.IH [of True] Cons.prems(2,3) by auto
      have "limit < n + queue_bytes (drop j (front # queue))" if "j < Suc k" for j
        using that k(6) True Cons.prems(2) by (cases j) auto
      then show ?thesis using k by (intro exI [of _ "Suc k"]) auto
    next
      case False
      then show ?thesis using Cons.prems by (intro exI [of _ 0]) auto
    qed
  qed
  then show thesis using that by blast
qed

lemma new_subscriber_ok: "subscriber_ok (max_queued_bytes_per_subscriber options) (new_subscriber options now)"
  by (auto simp: new_subscriber_def subscriber_ok_def push_back_locked_def Let_def kOverflowsBeforeDisconnect_def)

lemma sb_pull_ok: "subscriber_ok limit s \<Longrightarrow> subscriber_ok limit (snd (sb_pull now s))"
  by (auto simp: sb_pull_def subscriber_ok_def kOverflowsBeforeDisconnect_def)

lemma attach_ok: "subscriber_ok limit s \<Longrightarrow> subscriber_ok limit (on_attached n s)"
  by (simp add: on_attached_def subscriber_ok_def)

lemma detach_ok: "subscriber_ok limit s \<Longrightarrow> subscriber_ok limit (on_detached s)"
  by (simp add: on_detached_def subscriber_ok_def)

lemma sb_begin_close_ok: "subscriber_ok limit s \<Longrightarrow> subscriber_ok limit (fst (sb_begin_close s))"
  by (simp add: sb_begin_close_def subscriber_ok_def)

lemma heartbeat_ok: "subscriber_ok limit s \<Longrightarrow> subscriber_ok limit (fst (maybe_heartbeat now s))"
  by (auto simp: maybe_heartbeat_def subscriber_ok_def close_locked_def push_back_locked_def Let_def)

text \<open>The effect of \<open>enqueue\<close> on an open subscriber with room for the frame.\<close>

definition enqueued :: "nat \<Rightarrow> bytes \<Rightarrow> subscriber \<Rightarrow> nat \<Rightarrow> subscriber \<Rightarrow> bool" where
  "enqueued limit frame s k s' \<longleftrightarrow> k \<le> length (sb_queue s) \<and>
     length frame + queue_bytes (drop k (sb_queue s)) \<le> limit \<and>
     (\<forall>j < k. limit < length frame + queue_bytes (drop j (sb_queue s))) \<and>
     s' = (if 0 < k \<and> sb_consecutive_overflows s + 1 \<ge> kOverflowsBeforeDisconnect
       then s\<lparr>sb_closed := True, sb_queue := [], sb_queued_bytes := 0,
              sb_consecutive_overflows := sb_consecutive_overflows s + 1\<rparr>
       else s\<lparr>sb_queue := drop k (sb_queue s) @ [frame],
              sb_queued_bytes := queue_bytes (drop k (sb_queue s)) + length frame,
              sb_consecutive_overflows := sb_consecutive_overflows s + (if 0 < k then 1 else 0)\<rparr>)"

lemma enqueue_open:
  assumes "subscriber_ok limit s" "\<not> sb_closed s" "length frame \<le> limit"
  obtains k where "enqueued limit frame s k (fst (enqueue frame s))" "snd (enqueue frame s) = sb_notifier s"
proof -
  obtain queue queued dropped where m: "make_room (length frame) (sb_max_queued_bytes s) (sb_queued_bytes s) (sb_queue s) False =
      (queue, queued, dropped)" by (metis prod_cases3)
  have ok: "sb_max_queued_bytes s = limit" "sb_queued_bytes s = queue_bytes (sb_queue s)" "queue_bytes (sb_queue s) \<le> limit"
    using assms(1) by (simp_all add: subscriber_ok_def)
  show thesis
  proof (rule make_room_spec [OF m [unfolded ok(1,2)] ok(3) assms(3)])
    fix k
    assume k: "queue = drop k (sb_queue s)" "k \<le> length (sb_queue s)" "queued = queue_bytes queue"
      "length frame + queued \<le> limit" "dropped \<longleftrightarrow> False \<or> 0 < k"
      "\<And>j. j < k \<Longrightarrow> limit < length frame + queue_bytes (drop j (sb_queue s))"
    have "\<not> length frame > sb_max_queued_bytes s" using ok(1) assms(3) by simp
    then have "enqueue frame s = (if 0 < k \<and> sb_consecutive_overflows s + 1 \<ge> kOverflowsBeforeDisconnect
       then s\<lparr>sb_closed := True, sb_queue := [], sb_queued_bytes := 0,
              sb_consecutive_overflows := sb_consecutive_overflows s + 1\<rparr>
       else s\<lparr>sb_queue := drop k (sb_queue s) @ [frame],
              sb_queued_bytes := queue_bytes (drop k (sb_queue s)) + length frame,
              sb_consecutive_overflows := sb_consecutive_overflows s + (if 0 < k then 1 else 0)\<rparr>, sb_notifier s)"
      using assms(2) k(1,3,5) by (simp add: enqueue_def m push_back_locked_def close_locked_def)
    then show thesis using k(1-4,6) by (intro that [of k]) (simp_all add: enqueued_def)
  qed
qed

lemma enqueue_ok:
  assumes "subscriber_ok limit s" shows "subscriber_ok limit (fst (enqueue frame s))"
proof (cases "sb_closed s \<or> limit < length frame")
  case True
  then show ?thesis using assms by (auto simp: enqueue_def subscriber_ok_def close_locked_def)
next
  case False
  then obtain k where "enqueued limit frame s k (fst (enqueue frame s))"
    using enqueue_open [OF assms, of frame] by auto
  then show ?thesis using assms False by (simp add: enqueued_def subscriber_ok_def)
qed

section \<open>Runs of a channel\<close>

text \<open>Publishers, the reactors that own the subscribers' connections, and the pump, in any order. A
  subscriber that the channel no longer holds may be destroyed.\<close>

inductive sse_run :: "sse_options \<Rightarrow> channel \<Rightarrow> bool" for options where
  sse_new: "sse_run options (new_channel options)"
| sse_subscribe: "sse_run options ch \<Longrightarrow> sse_run options (snd (subscribe meth now ch))"
| sse_publish: "sse_run options ch \<Longrightarrow> publish event data ch = Inr ch' \<Longrightarrow> sse_run options ch'"
| sse_close_all: "sse_run options ch \<Longrightarrow> sse_run options (close_all ch)"
| sse_shutdown: "sse_run options ch \<Longrightarrow> sse_run options (channel_shutdown ch)"
| sse_tick: "sse_run options ch \<Longrightarrow> sse_run options (tick_locked now ch)"
| sse_pull: "sse_run options ch \<Longrightarrow> sse_run options (on_subscriber (\<lambda>s. (snd (sb_pull now s), None)) i ch)"
| sse_attach: "sse_run options ch \<Longrightarrow> sse_run options (on_subscriber (\<lambda>s. (on_attached n s, None)) i ch)"
| sse_detach: "sse_run options ch \<Longrightarrow> sse_run options (on_subscriber (\<lambda>s. (on_detached s, None)) i ch)"
| sse_destroy: "sse_run options ch \<Longrightarrow> i \<notin> set (ch_subscribers ch) \<Longrightarrow>
    sse_run options (ch\<lparr>ch_store := (ch_store ch)(i := None)\<rparr>)"

definition channel_ok :: "sse_options \<Rightarrow> channel \<Rightarrow> bool" where
  "channel_ok options ch \<longleftrightarrow> ch_options ch = options \<and> distinct (ch_subscribers ch) \<and>
     length (ch_subscribers ch) \<le> max_subscribers options \<and>
     (\<forall>i \<in> set (ch_subscribers ch). ch_store ch i \<noteq> None) \<and>
     (\<forall>i s. ch_store ch i = Some s \<longrightarrow> i < ch_next ch \<and> subscriber_ok (max_queued_bytes_per_subscriber options) s)"

lemma on_subscriber_fields [simp]:
  "ch_subscribers (on_subscriber f i ch) = ch_subscribers ch" "ch_options (on_subscriber f i ch) = ch_options ch"
  "ch_next (on_subscriber f i ch) = ch_next ch" "ch_accepting (on_subscriber f i ch) = ch_accepting ch"
  "ch_pump (on_subscriber f i ch) = ch_pump ch"
  by (simp_all add: on_subscriber_def split: option.split prod.split)

lemma on_subscriber_store:
  "ch_store (on_subscriber f i ch) = (ch_store ch)(i := map_option (fst \<circ> f) (ch_store ch i))"
  by (auto simp: on_subscriber_def split: option.split prod.split)

lemma on_subscriber_ok:
  assumes "channel_ok options ch"
    and "\<And>s. subscriber_ok (max_queued_bytes_per_subscriber options) s \<Longrightarrow>
      subscriber_ok (max_queued_bytes_per_subscriber options) (fst (f s))"
  shows "channel_ok options (on_subscriber f i ch)"
  using assms by (auto simp: channel_ok_def on_subscriber_store)

lemma fold_on_subscriber_ok:
  assumes "channel_ok options ch"
    and "\<And>s. subscriber_ok (max_queued_bytes_per_subscriber options) s \<Longrightarrow>
      subscriber_ok (max_queued_bytes_per_subscriber options) (fst (f s))"
  shows "channel_ok options (fold (on_subscriber f) is ch)"
  using assms(1) by (induction "is" arbitrary: ch) (simp_all add: on_subscriber_ok assms(2))

lemma fold_on_subscriber_fields [simp]:
  "ch_subscribers (fold (on_subscriber f) is ch) = ch_subscribers ch"
  "ch_options (fold (on_subscriber f) is ch) = ch_options ch"
  by (induction "is" arbitrary: ch) simp_all

lemma prune_dead_ok: "channel_ok options ch \<Longrightarrow> channel_ok options (prune_dead ch)"
  by (auto simp: channel_ok_def prune_dead_def intro: le_trans [OF length_filter_le])

lemma close_subscribers_ok:
  assumes "channel_ok options ch" shows "channel_ok options (close_subscribers ch)"
  using fold_on_subscriber_ok [OF assms, of sb_begin_close "ch_subscribers ch"] sb_begin_close_ok
  by (simp add: close_subscribers_def channel_ok_def)

lemma tick_loop_ok: "channel_ok options ch \<Longrightarrow> channel_ok options (snd (tick_loop now is ch))"
proof (induction "is" arbitrary: ch)
  case (Cons i "is")
  then show ?case
    using on_subscriber_ok [OF Cons.prems, of "maybe_heartbeat now" i] heartbeat_ok
      Cons.IH [of ch] Cons.IH [of "on_subscriber (maybe_heartbeat now) i ch"]
    by (cases "tick_loop now is (on_subscriber (maybe_heartbeat now) i ch)") simp
qed simp

lemma tick_locked_ok: "channel_ok options ch \<Longrightarrow> channel_ok options (tick_locked now ch)"
  using tick_loop_ok [of options ch now "ch_pump ch"]
  by (cases "tick_loop now (ch_pump ch) ch") (simp add: tick_locked_def channel_ok_def)

lemma subscribe_ok:
  assumes "channel_ok options ch" shows "channel_ok options (snd (subscribe meth now ch))"
proof -
  have p: "channel_ok options (prune_dead ch)" using assms by (rule prune_dead_ok)
  have "ch_next (prune_dead ch) \<notin> set (ch_subscribers (prune_dead ch))"
    using p unfolding channel_ok_def by (metis less_irrefl not_None_eq)
  then show ?thesis
    using assms p new_subscriber_ok [of options now]
    by (auto simp: subscribe_def Let_def channel_ok_def less_Suc_eq)
qed

lemma sse_run_ok: "sse_run options ch \<Longrightarrow> channel_ok options ch"
proof (induction rule: sse_run.induct)
  case sse_new
  then show ?case by (simp add: channel_ok_def new_channel_def)
next
  case (sse_publish ch event data ch')
  then have "ch' = fold (on_subscriber (enqueue (build_event_frame event data))) (ch_subscribers (prune_dead ch)) (prune_dead ch)"
    by (auto simp: publish_def Let_def split: option.splits)
  then show ?case using fold_on_subscriber_ok [OF prune_dead_ok [OF sse_publish.IH]] enqueue_ok by simp
next
  case (sse_shutdown ch)
  then have "channel_ok options (ch\<lparr>ch_accepting := False\<rparr>)" by (simp add: channel_ok_def)
  then show ?case by (simp add: channel_shutdown_def close_subscribers_ok)
next
  case (sse_destroy ch i)
  then show ?case by (auto simp: channel_ok_def)
qed (simp_all add: subscribe_ok close_all_def close_subscribers_ok tick_locked_ok on_subscriber_ok sb_pull_ok attach_ok detach_ok)

text \<open>C18: a channel's memory is bounded by its options, however fast it publishes and however slowly its
  subscribers read: in every run it has at most the configured number of subscribers, and each of them
  queues at most the configured number of bytes, which its counter states exactly; a detached
  subscriber queues nothing.\<close>

theorem sse_memory_bounded:
  assumes "sse_run options ch"
  shows "length (ch_subscribers ch) \<le> max_subscribers options \<and> distinct (ch_subscribers ch) \<and>
    (\<forall>i s. ch_store ch i = Some s \<longrightarrow>
       sb_queued_bytes s = sum_list (map length (sb_queue s)) \<and>
       sb_queued_bytes s \<le> max_queued_bytes_per_subscriber options \<and> (sb_detached s \<longrightarrow> sb_queue s = []))"
  using sse_run_ok [OF assms] by (auto simp: channel_ok_def subscriber_ok_def queue_bytes_def)

text \<open>Publishing reaches each live subscriber once.\<close>

lemma fold_on_subscriber_store:
  "distinct is \<Longrightarrow> ch_store (fold (on_subscriber f) is ch) i =
     (if i \<in> set is then map_option (fst \<circ> f) (ch_store ch i) else ch_store ch i)"
  by (induction "is" arbitrary: ch) (auto simp: on_subscriber_store)

lemma on_subscriber_told:
  "ch_store ch i = Some s \<Longrightarrow> snd (f s) = Some n \<Longrightarrow> n \<in> set (ch_notified (on_subscriber f i ch))"
  "n \<in> set (ch_notified ch) \<Longrightarrow> n \<in> set (ch_notified (on_subscriber f i ch))"
  by (auto simp: on_subscriber_def split: option.split prod.splits)

lemma fold_on_subscriber_told:
  "distinct is \<Longrightarrow> i \<in> set is \<Longrightarrow> ch_store ch i = Some s \<Longrightarrow> snd (f s) = Some n \<Longrightarrow>
     n \<in> set (ch_notified (fold (on_subscriber f) is ch))"
proof (induction "is" arbitrary: ch)
  case (Cons j "is")
  have mono: "n \<in> set (ch_notified ch) \<Longrightarrow> n \<in> set (ch_notified (fold (on_subscriber f) js ch))" for js ch
    by (induction js arbitrary: ch) (auto intro: on_subscriber_told(2))
  show ?case
  proof (cases "i = j")
    case True
    then show ?thesis using on_subscriber_told(1) [where f = f, OF Cons.prems(3,4)] mono by simp
  next
    case False
    then show ?thesis using Cons by (auto simp: on_subscriber_store)
  qed
qed simp

text \<open>C19: an event reaches every live subscriber. After a successful publish its frame is the newest in the
  queue of each subscriber that was alive, behind the frames that were there, of which only the oldest
  were dropped and no more than needed to keep the limit; the connection of an attached subscriber is
  told. Instead a subscriber is disconnected when the frame alone exceeds its limit or this is the
  fourth overflow since it last read.\<close>

theorem publish_reaches_subscribers:
  assumes "sse_run options ch" and "publish event data ch = Inr ch'"
    and "i \<in> set (ch_subscribers ch)" and "ch_store ch i = Some s" and "alive s"
  defines "frame \<equiv> build_event_frame event data" and "limit \<equiv> max_queued_bytes_per_subscriber options"
  shows "\<exists>s'. ch_store ch' i = Some s' \<and>
    (\<forall>n. sb_notifier s = Some n \<longrightarrow> n \<in> set (ch_notified ch')) \<and>
    (if limit < length frame then sb_closed s'
     else \<exists>k \<le> length (sb_queue s).
       (\<forall>j < k. limit < length frame + sum_list (map length (drop j (sb_queue s)))) \<and>
       (if 0 < k \<and> sb_consecutive_overflows s + 1 \<ge> kOverflowsBeforeDisconnect then sb_closed s'
        else sb_queue s' = drop k (sb_queue s) @ [frame]))"
proof -
  have ok: "channel_ok options ch" using assms(1) by (rule sse_run_ok)
  have sok: "subscriber_ok limit s" using ok assms(4) by (auto simp: channel_ok_def limit_def)
  let ?p = "prune_dead ch"
  have ch': "ch' = fold (on_subscriber (enqueue frame)) (ch_subscribers ?p) ?p"
    using assms(2) by (auto simp: publish_def Let_def frame_def split: option.splits)
  have p: "distinct (ch_subscribers ?p)" "i \<in> set (ch_subscribers ?p)" "ch_store ?p i = Some s"
    using prune_dead_ok [OF ok] assms(3-5) by (auto simp: channel_ok_def prune_dead_def alive_in_def)
  have st: "ch_store ch' i = Some (fst (enqueue frame s))"
    using p by (simp add: ch' fold_on_subscriber_store)
  have told: "snd (enqueue frame s) = sb_notifier s \<Longrightarrow> \<forall>n. sb_notifier s = Some n \<longrightarrow> n \<in> set (ch_notified ch')"
    using fold_on_subscriber_told [OF p, of "enqueue frame"] by (simp add: ch')
  have opn: "\<not> sb_closed s" using assms(5) by (simp add: alive_def)
  show ?thesis
  proof (cases "limit < length frame")
    case True
    then have "sb_closed (fst (enqueue frame s))" "snd (enqueue frame s) = sb_notifier s"
      using opn sok by (simp_all add: enqueue_def subscriber_ok_def close_locked_def)
    then show ?thesis using True st told by simp
  next
    case False
    then obtain k where "enqueued limit frame s k (fst (enqueue frame s))" "snd (enqueue frame s) = sb_notifier s"
      using enqueue_open [OF sok opn, of frame] by auto
    then show ?thesis using False st told by (auto simp: enqueued_def queue_bytes_def intro!: exI [of _ k])
  qed
qed

section \<open>Examples\<close>

definition sample_sse :: sse_options where
  "sample_sse = \<lparr>max_subscribers = 1, max_queued_bytes_per_subscriber = 20, max_event_bytes = 9,
     heartbeat_interval = 15, retry_hint = 0\<rparr>"

definition sample_subscriber :: subscriber where
  "sample_subscriber = \<lparr>sb_queue = [], sb_queued_bytes = 0, sb_max_queued_bytes = 20, sb_heartbeat_interval = 15,
     sb_notifier = Some 7, sb_last_write = 5, sb_consecutive_overflows = 0, sb_closed = False, sb_detached = False\<rparr>"

definition sample_channel :: channel where
  "sample_channel = on_subscriber (\<lambda>s. (on_attached 7 s, None)) 0 (snd (subscribe Method_Get 5 (new_channel sample_sse)))"

lemma sample_channel_run: "sse_run sample_sse sample_channel"
  unfolding sample_channel_def by (intro sse_attach sse_subscribe sse_new)

lemma sample_channel_fields:
  "ch_subscribers sample_channel = [0]" "ch_store sample_channel 0 = Some sample_subscriber" "ch_options sample_channel = sample_sse"
  by (simp_all add: sample_channel_def on_subscriber_def subscribe_def new_channel_def prune_dead_def sample_sse_def
      new_subscriber_def on_attached_def sample_subscriber_def Let_def Method_Get_def Method_Head_def)

lemma sample_published: "\<exists>ch'. publish [] ''x'' sample_channel = Inr ch'"
proof -
  have "event_frame_size [] ''x'' 9 = Some 9"
    by (simp add: event_frame_size_def data_lines_size.simps [of _ "''x''"] add_field_def add_frame_bytes_def
        kDataFieldPrefix_def kLineBreaks_def Let_def)
  then have "event_frame_size [] ''x'' (max_event_bytes sample_sse) = Some 9" by (simp add: sample_sse_def)
  then show ?thesis by (simp add: publish_def sample_channel_fields(3) Let_def)
qed

theorem sse_memory_bounded_witness:
  "length (ch_subscribers sample_channel) \<le> 1 \<and> ch_store sample_channel 0 = Some sample_subscriber \<and>
     sb_queued_bytes sample_subscriber = sum_list (map length (sb_queue sample_subscriber)) \<and>
     sb_queued_bytes sample_subscriber \<le> 20"
proof -
  have "max_subscribers sample_sse = 1" "max_queued_bytes_per_subscriber sample_sse = 20"
    by (simp_all add: sample_sse_def)
  with sse_memory_bounded [OF sample_channel_run] sample_channel_fields(2) show ?thesis by metis
qed

theorem publish_reaches_subscribers_witness:
  "\<exists>ch' s'. publish [] ''x'' sample_channel = Inr ch' \<and> ch_store ch' 0 = Some s' \<and>
     sb_queue s' = [build_event_frame [] ''x''] \<and> 7 \<in> set (ch_notified ch')"
proof -
  obtain ch' where p: "publish [] ''x'' sample_channel = Inr ch'" using sample_published by blast
  have "length (build_event_frame [] ''x'') = 9"
    by (simp add: build_event_frame_def append_data_lines.simps [of _ "''x''"] kDataFieldPrefix_def kLineBreaks_def)
  then show ?thesis
    using publish_reaches_subscribers [OF sample_channel_run p, of 0 sample_subscriber] p
    by (simp add: sample_channel_fields alive_def sample_subscriber_def sample_sse_def) blast
qed

end
