(* ===== verification/Http_Status_Page.thy ===== *)
theory Http_Status_Page
  imports Http_Sha256 Http_Sse
begin

text \<open>
  \<open>status_page.hpp\<close> and \<open>status_page.cpp\<close>: the page and its rendering. What the source appends to \<open>out\<close> piece by
  piece is the concatenation of the pieces. The theorems say that no text given to a page becomes markup, that
  a rendered link leads only where links may lead, and that the policy served with a live page allows
  exactly the script in it.
\<close>

section \<open>The page\<close>

datatype state = State_Ok | State_Warn | State_Bad

fun state_class :: "state \<Rightarrow> bytes" where
  "state_class State_Ok = ''ok''"
| "state_class State_Warn = ''warn''"
| "state_class State_Bad = ''bad''"

datatype element_kind = Element_Row | Element_Section

record element =
  el_kind :: element_kind
  el_label :: bytes
  el_value :: bytes
  el_level :: state
  el_show_level_color :: bool

record link =
  ln_href :: bytes
  ln_text :: bytes

record status_page =
  sp_service_name :: bytes
  sp_version :: bytes
  sp_state_headline :: bytes
  sp_state_level :: state
  sp_elements :: "element list"
  sp_links :: "link list"
  sp_process_id :: int
  sp_refresh_seconds :: int
  sp_live_updates :: bool

definition kDefaultRefreshSeconds :: int where "kDefaultRefreshSeconds = 5"
definition kDefaultEventsPath :: bytes where "kDefaultEventsPath = ''/events''"

definition new_status_page :: "bytes \<Rightarrow> bytes \<Rightarrow> status_page" where
  "new_status_page service_name version = \<lparr>sp_service_name = service_name, sp_version = version, sp_state_headline = [],
     sp_state_level = State_Ok, sp_elements = [], sp_links = [], sp_process_id = 0,
     sp_refresh_seconds = kDefaultRefreshSeconds, sp_live_updates = False\<rparr>"

definition set_pid :: "int \<Rightarrow> status_page \<Rightarrow> status_page" where
  "set_pid process_id p = p\<lparr>sp_process_id := process_id\<rparr>"

definition set_refresh_seconds :: "int \<Rightarrow> status_page \<Rightarrow> status_page" where
  "set_refresh_seconds seconds p = p\<lparr>sp_refresh_seconds := (if seconds > 0 then seconds else 0)\<rparr>"

definition set_state :: "bytes \<Rightarrow> state \<Rightarrow> status_page \<Rightarrow> status_page" where
  "set_state headline level p = p\<lparr>sp_state_headline := headline, sp_state_level := level\<rparr>"

definition add_row :: "bytes \<Rightarrow> bytes \<Rightarrow> state \<Rightarrow> bool \<Rightarrow> status_page \<Rightarrow> status_page" where
  "add_row label val level show_level_color p = p\<lparr>sp_elements := sp_elements p @
     [\<lparr>el_kind = Element_Row, el_label = label, el_value = val, el_level = level, el_show_level_color = show_level_color\<rparr>]\<rparr>"

definition add_section :: "bytes \<Rightarrow> status_page \<Rightarrow> status_page" where
  "add_section heading p = p\<lparr>sp_elements := sp_elements p @
     [\<lparr>el_kind = Element_Section, el_label = heading, el_value = [], el_level = State_Ok, el_show_level_color = False\<rparr>]\<rparr>"

definition add_link :: "bytes \<Rightarrow> bytes \<Rightarrow> status_page \<Rightarrow> status_page" where
  "add_link href label p = p\<lparr>sp_links := sp_links p @ [\<lparr>ln_href = href, ln_text = label\<rparr>]\<rparr>"

definition set_live_updates :: "bool \<Rightarrow> status_page \<Rightarrow> status_page" where
  "set_live_updates enabled p = p\<lparr>sp_live_updates := enabled\<rparr>"

section \<open>Links\<close>

definition has_only_url_bytes :: "bytes \<Rightarrow> bool" where
  "has_only_url_bytes href = list_all (\<lambda>c. \<not> (byte c \<le> 0x20 \<or> byte c = 0x7F)) href"

definition starts_with_ignore_case :: "bytes \<Rightarrow> bytes \<Rightarrow> bool" where
  "starts_with_ignore_case t prefix \<longleftrightarrow>
     length t \<ge> length prefix \<and> equals_ignore_case (take (length prefix) t) prefix"

definition has_authority_after :: "bytes \<Rightarrow> bytes \<Rightarrow> bool" where
  "has_authority_after href scheme =
     (let authority = drop (length scheme) href in authority \<noteq> [] \<and> hd authority \<noteq> CHR ''/'')"

definition kHttpSchemePrefix :: bytes where "kHttpSchemePrefix = ''http://''"
definition kHttpsSchemePrefix :: bytes where "kHttpsSchemePrefix = ''https://''"

definition is_allowed_link_href :: "bytes \<Rightarrow> bool" where
  "is_allowed_link_href href =
     (if href = [] \<or> \<not> has_only_url_bytes href then False
      else if sv_contains href (CHR 0x5C) then False
      else if starts_with_ignore_case href kHttpSchemePrefix then has_authority_after href kHttpSchemePrefix
      else if starts_with_ignore_case href kHttpsSchemePrefix then has_authority_after href kHttpsSchemePrefix
      else if hd href \<noteq> CHR ''/'' then False
      else length href = 1 \<or> href ! 1 \<noteq> CHR ''/'')"

section \<open>Rendering\<close>

definition line :: "bytes \<Rightarrow> bytes" where
  "line s = s @ [CHR 0x0A]"

definition quoted :: "bytes \<Rightarrow> bytes" where
  "quoted s = CHR 0x22 # s @ [CHR 0x22]"

definition kDocumentPrologue :: bytes where
  "kDocumentPrologue = line (''<!doctype html><html lang='' @ quoted ''en'' @ ''><head><meta charset='' @ quoted ''utf-8'' @ ''>'')"
definition kInlineIconLink :: bytes where
  "kInlineIconLink = line (''<link rel='' @ quoted ''icon'' @ '' href='' @ quoted ''data:,'' @ ''>'')"
definition kViewportMeta :: bytes where
  "kViewportMeta = line (''<meta name='' @ quoted ''viewport'' @ '' content='' @ quoted ''width=device-width,initial-scale=1'' @ ''>'')"
definition kBodyOpening :: bytes where "kBodyOpening = line ''</style></head><body>''"
definition kDocumentEpilogue :: bytes where "kDocumentEpilogue = line ''</body></html>''"
definition kLiveRowsElementId :: bytes where "kLiveRowsElementId = ''status-rows''"
definition kScriptElementOpening :: bytes where "kScriptElementOpening = ''<script>''"
definition kScriptElementClosing :: bytes where "kScriptElementClosing = line ''</script>''"
definition kRefusedLinkOpening :: bytes where "kRefusedLinkOpening = ''<span class='' @ quoted ''bad'' @ ''>''"
definition kRefusedLinkClosing :: bytes where "kRefusedLinkClosing = ''</span>''"

definition kStatusPageStyle :: bytes where
  "kStatusPageStyle =
     line ''body{font-family:system-ui,sans-serif;margin:2rem auto;max-width:46rem;color:#222}'' @
     line ''h1{font-size:1.4rem;margin-bottom:.2rem} small{color:#888;font-weight:400}'' @
     line ''table{border-collapse:collapse;width:100%;margin-top:1rem}'' @
     line ''td{padding:.3rem .8rem;border-bottom:1px solid #e5e5e5;vertical-align:top}'' @
     line ''td:first-child{color:#777;width:14rem} .ok{color:#0a7d28} .bad{color:#c0392b}'' @
     ''.warn{color:#b8860b} a{color:#2563eb;text-decoration:none}''"

definition kLiveUpdateScriptText :: bytes where
  "kLiveUpdateScriptText =
     line [] @
     line ''(() => {'' @
     line (''  const rows = document.getElementById('' @ quoted ''status-rows'' @ '');'') @
     line ''  if (!rows || !window.EventSource) return;'' @
     line (''  const source = new EventSource('' @ quoted ''/events'' @ '');'') @
     line (''  source.addEventListener('' @ quoted ''status'' @ '', event => {'') @
     line ''    let updates;'' @
     line ''    try { updates = JSON.parse(event.data); } catch { return; }'' @
     line ''    if (!Array.isArray(updates)) return;'' @
     line ''    const nextRows = document.createDocumentFragment();'' @
     line ''    for (const update of updates) {'' @
     line (''      if (!update || typeof update.label !== '' @ quoted ''string'' @ '' ||'') @
     line (''          typeof update.value !== '' @ quoted ''string'' @ '') return;'') @
     line (''      const row = document.createElement('' @ quoted ''tr'' @ '');'') @
     line (''      const label = document.createElement('' @ quoted ''td'' @ '');'') @
     line (''      const value = document.createElement('' @ quoted ''td'' @ '');'') @
     line ''      label.textContent = update.label;'' @
     line ''      value.textContent = update.value;'' @
     line (''      if (['' @ quoted ''ok'' @ '', '' @ quoted ''warn'' @ '', '' @ quoted ''bad'' @ ''].includes(update.state))'') @
     line ''        value.className = update.state;'' @
     line ''      row.append(label, value);'' @
     line ''      nextRows.append(row);'' @
     line ''    }'' @
     line ''    rows.replaceChildren(nextRows);'' @
     line ''  });'' @
     line ''})();''"

definition csp_hash_source_of :: "32 word list \<Rightarrow> bytes \<Rightarrow> bytes" where
  "csp_hash_source_of round_constants script_text =
     (CHR 0x27 # ''sha256-'') @ base64_of_digest (sha256 round_constants script_text) @ [CHR 0x27]"

definition live_update_script_csp_source :: "32 word list \<Rightarrow> bytes" where
  "live_update_script_csp_source round_constants = csp_hash_source_of round_constants kLiveUpdateScriptText"

definition render_refresh :: "status_page \<Rightarrow> bytes" where
  "render_refresh p =
     (if sp_refresh_seconds p > 0 then
        let refresh_meta = ''<meta http-equiv='' @ quoted ''refresh'' @ '' content='' @ quoted (int_to_string (sp_refresh_seconds p)) @ ''>''
        in line (if sp_live_updates p then ''<noscript>'' @ refresh_meta @ ''</noscript>'' else refresh_meta)
      else [])"

definition render_element :: "element \<Rightarrow> bytes" where
  "render_element e =
     (if el_kind e = Element_Section then
        ''  <tr><td colspan='' @ quoted ''2'' @ ''><strong>'' @ html_escape (el_label e) @ line ''</strong></td></tr>''
      else
        ''  <tr><td>'' @ html_escape (el_label e) @ ''</td><td'' @
        (if el_show_level_color e then '' class='' @ quoted (state_class (el_level e)) else []) @
        ''>'' @ html_escape (el_value e) @ line ''</td></tr>'')"

definition render_link :: "link \<Rightarrow> bytes" where
  "render_link l =
     (if \<not> is_allowed_link_href (ln_href l) then kRefusedLinkOpening @ html_escape (ln_text l) @ kRefusedLinkClosing
      else ''<a href='' @ quoted (html_escape (ln_href l)) @ ''>'' @ html_escape (ln_text l) @ ''</a>'')"

text \<open>The loop over the links, with its \<open>first\<close>.\<close>

fun render_links_loop :: "bool \<Rightarrow> link list \<Rightarrow> bytes" where
  "render_links_loop is_first [] = []"
| "render_links_loop is_first (l # ls) = (if is_first then [] else '' | '') @ render_link l @ render_links_loop False ls"

definition render :: "status_page \<Rightarrow> bytes" where
  "render p =
     kDocumentPrologue @ kInlineIconLink @ render_refresh p @ kViewportMeta @
     ''<title>'' @ html_escape (sp_service_name p) @ '' v'' @ html_escape (sp_version p) @
     line ''</title>'' @ line ''<style>'' @ kStatusPageStyle @ line [] @ kBodyOpening @
     ''<h1>'' @ html_escape (sp_service_name p) @ '' <small>v'' @ html_escape (sp_version p) @
     (if sp_process_id p \<noteq> 0 then '' | pid '' @ int_to_string (sp_process_id p) else []) @ line ''</small></h1>'' @
     (if sp_state_headline p \<noteq> [] then
        ''<p class='' @ quoted (state_class (sp_state_level p)) @ ''><strong>'' @ html_escape (sp_state_headline p) @
        line ''</strong></p>''
      else []) @
     line ''<table>'' @
     (if sp_live_updates p then ''<tbody id='' @ quoted kLiveRowsElementId @ line ''>'' else []) @
     concat (map render_element (sp_elements p)) @
     (if sp_live_updates p then line ''</tbody>'' else []) @
     line ''</table>'' @
     (if sp_links p \<noteq> [] then ''<p>'' @ render_links_loop True (sp_links p) @ line ''</p>'' else []) @
     (if sp_live_updates p then kScriptElementOpening @ kLiveUpdateScriptText @ kScriptElementClosing else []) @
     kDocumentEpilogue"

section \<open>Text is never markup\<close>

text \<open>The characters of a page that open and close tags and attribute values.\<close>

definition markup_of :: "bytes \<Rightarrow> bytes" where
  "markup_of s = filter (\<lambda>c. c \<in> html_markup) s"

lemma markup_of_append [simp]: "markup_of (s @ t) = markup_of s @ markup_of t"
  by (simp add: markup_of_def)

lemma markup_of_concat: "markup_of (concat ss) = concat (map markup_of ss)"
  by (induction ss) (simp_all add: markup_of_def)

lemma markup_of_escape [simp]: "markup_of (html_escape s) = []"
  using html_escape_no_markup [of s] by (auto simp: markup_of_def filter_empty_conv)

lemma markup_of_nat_to_dec: "markup_of (nat_to_dec n) = []"
  using nat_to_dec_digits [of n] by (auto simp: markup_of_def filter_empty_conv html_markup_def is_decimal_digit_def byte_def)

lemma markup_of_int [simp]: "markup_of (int_to_string i) = []"
  using markup_of_nat_to_dec by (auto simp: int_to_string_def markup_of_def html_markup_def)

text \<open>The same page without its texts: what is left says which parts there are and where links may lead.\<close>

definition blank_element :: "element \<Rightarrow> element" where
  "blank_element e = e\<lparr>el_label := [], el_value := []\<rparr>"

definition blank_link :: "link \<Rightarrow> link" where
  "blank_link l = \<lparr>ln_href = (if is_allowed_link_href (ln_href l) then ''/'' else []), ln_text = []\<rparr>"

definition blank_page :: "status_page \<Rightarrow> status_page" where
  "blank_page p = p\<lparr>sp_service_name := [], sp_version := [],
     sp_state_headline := (if sp_state_headline p = [] then [] else '' ''),
     sp_elements := map blank_element (sp_elements p), sp_links := map blank_link (sp_links p)\<rparr>"

lemma markup_of_quoted: "markup_of (quoted s) = CHR 0x22 # markup_of s @ [CHR 0x22]"
  by (simp add: quoted_def markup_of_def html_markup_def)

lemma markup_of_line [simp]: "markup_of (line s) = markup_of s"
  by (simp add: line_def markup_of_def html_markup_def)

lemma blank_element_markup: "markup_of (render_element (blank_element e)) = markup_of (render_element e)"
  by (simp add: render_element_def blank_element_def del: append_Cons)

lemma blank_link_allowed [simp]: "is_allowed_link_href (ln_href (blank_link l)) = is_allowed_link_href (ln_href l)"
proof -
  have "is_allowed_link_href ''/''" "\<not> is_allowed_link_href []" by code_simp+
  then show ?thesis by (simp add: blank_link_def)
qed

lemma blank_link_markup: "markup_of (render_link (blank_link l)) = markup_of (render_link l)"
  by (simp add: render_link_def markup_of_quoted del: append_Cons)

lemma blank_links_markup: "markup_of (render_links_loop first (map blank_link ls)) = markup_of (render_links_loop first ls)"
  by (induction first ls rule: render_links_loop.induct) (simp_all add: blank_link_markup del: append_Cons)

text \<open>C32: text given to a status page never becomes markup. The tags and quotes of a rendered page are those of the
  same page with every text removed: names, headlines, labels, values and link texts, whatever bytes they
  hold, open no tag, close no attribute and end no element.\<close>

theorem page_text_is_inert:
  "markup_of (render p) = markup_of (render (blank_page p))"
  by (simp add: render_def blank_page_def render_refresh_def markup_of_concat comp_def blank_element_markup blank_links_markup
      del: append_Cons)

text \<open>Where a link may lead: the scheme of a reference is what stands before its first colon, if no slash,
  question mark or number sign stands before that.\<close>

definition scheme_of :: "bytes \<Rightarrow> bytes option" where
  "scheme_of href =
     (let before = takeWhile (\<lambda>c. c \<notin> {CHR '':'', CHR ''/'', CHR ''?'', CHR ''#''}) href; rest = drop (length before) href
      in if rest \<noteq> [] \<and> hd rest = CHR '':'' then Some before else None)"

lemma ascii_to_lower_punctuation:
  "ascii_to_lower c = CHR '':'' \<longleftrightarrow> c = CHR '':''" "ascii_to_lower c = CHR ''/'' \<longleftrightarrow> c = CHR ''/''"
  by (auto simp: ascii_to_lower_def byte_def split: if_splits dest!: arg_cong [of _ _ "of_char :: char \<Rightarrow> nat"])

lemma lower_letter_plain:
  "ascii_to_lower c \<in> set ''htps'' \<Longrightarrow> c \<notin> {CHR '':'', CHR ''/'', CHR ''?'', CHR ''#''}"
  by (auto simp: ascii_to_lower_def byte_def)

lemma scheme_of_prefix:
  assumes "starts_with_ignore_case href (scheme @ '':'' @ rest)" "set scheme \<subseteq> set ''htps''" "fold_case scheme = scheme"
  shows "\<exists>s. scheme_of href = Some s \<and> equals_ignore_case s scheme"
proof -
  let ?n = "length scheme"
  have len: "?n < length href" using assms(1) by (simp add: starts_with_ignore_case_def)
  have "fold_case (take (?n + 1 + length rest) href) = fold_case (scheme @ '':'' @ rest)"
    using assms(1) by (simp add: starts_with_ignore_case_def equals_ignore_case_iff)
  then have "take (Suc ?n) (fold_case href) = take (Suc ?n) (fold_case (scheme @ '':'' @ rest))"
    by (metis take_map take_take min.absorb1 le_add1 Suc_eq_plus1)
  then have whole: "fold_case (take (Suc ?n) href) = scheme @ '':''" using assms(3) by (simp add: take_map ascii_to_lower_def byte_def)
  then have front: "fold_case (take ?n href) = scheme" and colon: "href ! ?n = CHR '':''"
    using len by (auto simp: take_Suc_conv_app_nth ascii_to_lower_punctuation)
  have "c \<notin> {CHR '':'', CHR ''/'', CHR ''?'', CHR ''#''}" if "c \<in> set (take ?n href)" for c
  proof -
    have "ascii_to_lower c \<in> set scheme" using that front by (metis image_eqI set_map)
    with assms(2) show ?thesis by (intro lower_letter_plain) blast
  qed
  then have "takeWhile (\<lambda>c. c \<notin> {CHR '':'', CHR ''/'', CHR ''?'', CHR ''#''}) (take ?n href @ drop ?n href) = take ?n href"
    using len colon by (subst takeWhile_append2) (auto simp: Cons_nth_drop_Suc [symmetric])
  with len colon front assms(3) show ?thesis
    by (simp add: scheme_of_def hd_drop_conv_nth equals_ignore_case_iff Let_def)
qed

text \<open>A link leads to a web page or to this server. A reference that is rendered as a link holds no space,
  control character or backslash; if it names a scheme, that is http or https and an authority follows; if
  not, it is an absolute path of this server and not a reference to another authority.\<close>

theorem rendered_links_are_safe:
  assumes "is_allowed_link_href href"
  shows "has_only_url_bytes href \<and> CHR 0x5C \<notin> set href \<and>
    (case scheme_of href of
       Some s \<Rightarrow> equals_ignore_case s ''http'' \<or> equals_ignore_case s ''https''
     | None \<Rightarrow> hd href = CHR ''/'' \<and> (length href = 1 \<or> href ! 1 \<noteq> CHR ''/''))"
proof -
  consider "starts_with_ignore_case href (''http'' @ '':'' @ ''//'')" | "starts_with_ignore_case href (''https'' @ '':'' @ ''//'')"
    | (path) "hd href = CHR ''/''" "length href = 1 \<or> href ! 1 \<noteq> CHR ''/''"
    using assms by (auto simp: is_allowed_link_href_def kHttpSchemePrefix_def kHttpsSchemePrefix_def split: if_splits)
  then have "(case scheme_of href of
       Some s \<Rightarrow> equals_ignore_case s ''http'' \<or> equals_ignore_case s ''https''
     | None \<Rightarrow> hd href = CHR ''/'' \<and> (length href = 1 \<or> href ! 1 \<noteq> CHR ''/''))"
  proof cases
    case 1
    have "fold_case ''http'' = ''http''" by code_simp
    with scheme_of_prefix [OF 1] show ?thesis by auto
  next
    case 2
    have "fold_case ''https'' = ''https''" by code_simp
    with scheme_of_prefix [OF 2] show ?thesis by auto
  next
    case path
    have "href \<noteq> []" using assms by (auto simp: is_allowed_link_href_def)
    with path show ?thesis by (cases href) (auto simp: scheme_of_def)
  qed
  with assms show ?thesis by (auto simp: is_allowed_link_href_def sv_contains_def split: if_splits)
qed

theorem rendered_links_are_safe_witness:
  "is_allowed_link_href ''HTTPS://example.org/a'' \<and> has_only_url_bytes ''HTTPS://example.org/a'' \<and>
   \<not> is_allowed_link_href ''javascript:alert(1)''"
proof -
  have "is_allowed_link_href ''HTTPS://example.org/a''" "\<not> is_allowed_link_href ''javascript:alert(1)''" by code_simp+
  with rendered_links_are_safe [OF this(1)] show ?thesis by blast
qed

end
