(* ===== verification/Http_Observability.thy ===== *)
theory Http_Observability
  imports Http_Status_Page Http_Router Http_Metrics
begin

text \<open>
  \<open>observability.cpp\<close>: the built-in pages and how they are mounted on a router. A callback of the options is the
  result it gives when asked, and the registry is as it stands at the time of the request, so the handlers
  are those of any one moment; \<open>now\<close> is the clock at the request. The event stream's handler is an argument:
  its behaviour is \<open>Http_Sse.subscribe\<close>. The digest's table of round constants is an argument too.
\<close>

section \<open>The pages\<close>

definition kLivePolicyBeforeScriptSource :: bytes where
  "kLivePolicyBeforeScriptSource = ''default-src '' @ (CHR 0x27 # ''self'') @ (CHR 0x27 # ''; style-src '') @
     (CHR 0x27 # ''unsafe-inline'') @ (CHR 0x27 # ''; script-src '')"

definition kLivePolicyAfterScriptSource :: bytes where
  "kLivePolicyAfterScriptSource = ''; connect-src '' @ (CHR 0x27 # ''self'') @ (CHR 0x27 # ''; base-uri '') @
     (CHR 0x27 # ''none'') @ (CHR 0x27 # ''; frame-ancestors '') @ (CHR 0x27 # ''none'') @ (CHR 0x27 # ''; form-action '') @
     (CHR 0x27 # ''none'') @ (CHR 0x27 # ''; object-src '') @ (CHR 0x27 # ''none'') @ [CHR 0x27]"

definition live_content_security_policy :: "32 word list \<Rightarrow> bytes" where
  "live_content_security_policy round_constants =
     kLivePolicyBeforeScriptSource @ live_update_script_csp_source round_constants @ kLivePolicyAfterScriptSource"

record page_context =
  px_service_name :: bytes
  px_version :: bytes
  px_content_security_policy :: bytes
  px_status_page :: "status_page call_result option"
  px_healthy :: "bool call_result option"
  px_started_at :: int
  px_process_id :: int
  px_metrics_mounted :: bool
  px_live_updates :: bool

definition is_healthy :: "bool call_result option \<Rightarrow> bool call_result" where
  "is_healthy predicate = (case predicate of None \<Rightarrow> Returned True | Some answer \<Rightarrow> answer)"

definition default_status_page :: "int \<Rightarrow> page_context \<Rightarrow> status_page call_result" where
  "default_status_page now ctx =
     (let uptime = (now - px_started_at ctx) div 1000000000;
          page = set_pid (px_process_id ctx) (new_status_page (px_service_name ctx) (px_version ctx))
      in case is_healthy (px_healthy ctx) of
        Threw \<Rightarrow> Threw
      | Returned healthy \<Rightarrow>
          let page = set_state (if healthy then ''READY'' else ''DEGRADED'') (if healthy then State_Ok else State_Bad) page;
              page = add_row ''uptime'' (format_duration uptime) State_Ok False page;
              page = add_link ''/'' ''/'' page;
              page = (if px_metrics_mounted ctx then add_link ''/metrics'' ''/metrics'' page else page)
          in Returned (add_link ''/healthz'' ''/healthz'' page))"

definition render_status_page :: "int \<Rightarrow> page_context \<Rightarrow> response call_result" where
  "render_status_page now ctx =
     (case (case px_status_page ctx of Some made \<Rightarrow> made | None \<Rightarrow> default_status_page now ctx) of
        Threw \<Rightarrow> Threw
      | Returned page \<Rightarrow>
          let page = (if px_live_updates ctx then set_live_updates True page else page);
              response = response_html (render page) Status_Ok
          in Returned (if px_live_updates ctx
               then set_header ''Content-Security-Policy'' (px_content_security_policy ctx) response else response))"

section \<open>Metrics as JSON\<close>

fun labels_loop :: "bool \<Rightarrow> labels \<Rightarrow> bytes" where
  "labels_loop is_first [] = []"
| "labels_loop is_first (label # labels) =
     (if is_first then [] else '','') @ [CHR 0x22] @ json_escape (fst label) @ [CHR 0x22] @ '':'' @ [CHR 0x22] @
     json_escape (snd label) @ [CHR 0x22] @ labels_loop False labels"

definition labels_to_json :: "labels \<Rightarrow> bytes" where
  "labels_to_json labels = ''{'' @ labels_loop True labels @ ''}''"

definition is_number_character :: "char \<Rightarrow> bool" where
  "is_number_character c \<longleftrightarrow> (CHR ''0'' \<le> c \<and> c \<le> CHR ''9'') \<or> c = CHR ''-'' \<or> c = CHR ''.'' \<or> c = CHR ''e'' \<or>
     c = CHR ''E'' \<or> c = CHR ''+''"

definition value_to_json :: "bytes \<Rightarrow> bytes" where
  "value_to_json token =
     (if token = [] \<or> starts_with_char token (CHR ''+'') then ''null''
      else if list_ex (\<lambda>c. \<not> is_number_character c) token then ''null''
      else token)"

definition json_member :: "bytes \<Rightarrow> bytes" where
  "json_member key = [CHR 0x22] @ key @ [CHR 0x22] @ '':''"

fun series_loop :: "bool \<Rightarrow> metric_series_snapshot list \<Rightarrow> bytes" where
  "series_loop is_first [] = []"
| "series_loop is_first (entry # entries) =
     (if is_first then [] else '','') @ ''{'' @ json_member ''labels'' @ labels_to_json (ss_labels entry) @ '','' @
     json_member ''value'' @ value_to_json (ss_value entry) @ ''}'' @ series_loop False entries"

fun metrics_loop :: "bool \<Rightarrow> metric_snapshot list \<Rightarrow> bytes" where
  "metrics_loop is_first [] = []"
| "metrics_loop is_first (metric # metrics) =
     (if is_first then [] else '','') @ ''{'' @ json_member ''name'' @ [CHR 0x22] @ json_escape (ms_name metric) @ [CHR 0x22] @ '','' @
     json_member ''type'' @ [CHR 0x22] @ (if ms_kind metric = Kind_Counter then ''counter'' else ''gauge'') @ [CHR 0x22] @ '','' @
     json_member ''help'' @ [CHR 0x22] @ json_escape (ms_help metric) @ [CHR 0x22] @ '','' @
     json_member ''series'' @ ''['' @ series_loop True (ms_series metric) @ '']}'' @ metrics_loop False metrics"

definition snapshot_to_json :: "bytes \<Rightarrow> metric_snapshot list \<Rightarrow> bytes" where
  "snapshot_to_json prefix snap =
     ''{'' @ json_member ''prefix'' @ [CHR 0x22] @ json_escape prefix @ [CHR 0x22] @ '','' @
     json_member ''metrics'' @ ''['' @ metrics_loop True snap @ '']}'' @ [CHR 0x0A]"

section \<open>Mounting\<close>

text \<open>A registry at the time of a request, with what its exposition depends on.\<close>

record metrics_view =
  mv_ops :: double_ops
  mv_producers :: "nat \<Rightarrow> double"
  mv_order :: "nat list"
  mv_registry :: registry

record observability_options =
  oo_service_name :: bytes
  oo_version :: bytes
  oo_metrics :: "metrics_view option"
  oo_healthy :: "bool call_result option"
  oo_status_page :: "status_page call_result option"
  oo_live :: "handler option"

definition page_context_of :: "32 word list \<Rightarrow> int \<Rightarrow> int \<Rightarrow> observability_options \<Rightarrow> page_context" where
  "page_context_of round_constants started_at pid options =
     \<lparr>px_service_name = oo_service_name options, px_version = oo_version options,
      px_content_security_policy = (if oo_live options \<noteq> None then live_content_security_policy round_constants else []),
      px_status_page = oo_status_page options, px_healthy = oo_healthy options, px_started_at = started_at,
      px_process_id = pid, px_metrics_mounted = (oo_metrics options \<noteq> None), px_live_updates = (oo_live options \<noteq> None)\<rparr>"

definition health_handler :: "bool call_result option \<Rightarrow> handler" where
  "health_handler predicate request =
     (case is_healthy predicate of
        Threw \<Rightarrow> Threw
      | Returned healthy \<Rightarrow>
          Returned (if healthy then response_text (''ok'' @ [CHR 0x0A]) Status_Ok
                    else response_text (''degraded'' @ [CHR 0x0A]) Status_ServiceUnavailable))"

definition prometheus_handler :: "metrics_view \<Rightarrow> handler" where
  "prometheus_handler mv request =
     Returned (response_prometheus (prometheus (mv_ops mv) (mv_producers mv) (mv_order mv) (mv_registry mv)))"

definition metrics_json_handler :: "metrics_view \<Rightarrow> handler" where
  "metrics_json_handler mv request =
     Returned (response_json (snapshot_to_json (mr_prefix (mv_registry mv))
       (snapshot (mv_ops mv) (mv_producers mv) (mv_order mv) (mv_registry mv))) Status_Ok)"

definition favicon_handler :: handler where
  "favicon_handler request = Returned (response_empty Status_NoContent)"

text \<open>The routes, in the order of their registration.\<close>

definition observability_routes :: "32 word list \<Rightarrow> int \<Rightarrow> int \<Rightarrow> int \<Rightarrow> observability_options \<Rightarrow> (http_method \<times> bytes \<times> handler) list" where
  "observability_routes round_constants now started_at pid options =
     (let ctx = page_context_of round_constants started_at pid options; page = (\<lambda>request. render_status_page now ctx) in
      [(kGetAndHead, ''/'', page), (kGetAndHead, ''/status'', page),
       (kGetAndHead, ''/health'', health_handler (oo_healthy options)),
       (kGetAndHead, ''/healthz'', health_handler (oo_healthy options))] @
      (case oo_metrics options of None \<Rightarrow> []
       | Some mv \<Rightarrow> [(kGetAndHead, ''/metrics'', prometheus_handler mv), (kGetAndHead, ''/metrics.json'', metrics_json_handler mv)]) @
      (case oo_live options of None \<Rightarrow> [] | Some h \<Rightarrow> [(Method_Get, kDefaultEventsPath, h)]) @
      [(kGetAndHead, ''/favicon.ico'', favicon_handler)])"

fun mount_routes :: "(http_method \<times> bytes \<times> handler) list \<Rightarrow> router \<Rightarrow> (registration_error, router) expected" where
  "mount_routes [] r = Inr r"
| "mount_routes ((methods, pattern, h) # routes) r =
     (case add_route methods pattern (Some h) r of Inl e \<Rightarrow> Inl e | Inr r \<Rightarrow> mount_routes routes r)"

definition mount_observability ::
  "32 word list \<Rightarrow> int \<Rightarrow> int \<Rightarrow> int \<Rightarrow> observability_options \<Rightarrow> router \<Rightarrow> (registration_error, router) expected" where
  "mount_observability round_constants now started_at pid options r = mount_routes (observability_routes round_constants now started_at pid options) r"

section \<open>What is mounted is served\<close>

lemma unique_literal_route:
  assumes ok: "router_ok r" and rt: "rt \<in> set (rtr_routes r)" "\<not> pattern_dynamic (rt_pattern rt)"
    and m: "m \<in> set kAllMethods" "contains (rt_methods rt) m"
  shows "chosen_route r m (rt_pattern rt) = Some rt"
proof -
  let ?P = "\<lambda>q. contains (rt_methods q) m"
  have valid: "is_valid_route_pattern (rt_pattern q)" if "q \<in> set (rtr_routes r)" for q
    using ok that by (auto simp: router_ok_def list_all_iff route_ok_def)
  let ?cs = "filter (\<lambda>q. \<not> pattern_dynamic (rt_pattern q) \<and> pattern_matches (rt_pattern q) (rt_pattern rt)) (rtr_routes r)"
  have mem: "rt \<in> set ?cs" using rt static_matches [OF valid [OF rt(1)] rt(2)] by simp
  then obtain q where q: "List.find ?P ?cs = Some q" using m(2) by (cases "List.find ?P ?cs") (auto simp: find_None_iff)
  then have "q \<in> set ?cs" "?P q" using find_in_set by fastforce+
  then have same: "q \<in> set (rtr_routes r)" "rt_pattern q = rt_pattern rt"
    using static_matches valid by auto
  have "q = rt"
  proof (rule ccontr)
    assume "q \<noteq> rt"
    obtain i j where ij: "i < length (rtr_routes r)" "rtr_routes r ! i = q" "j < length (rtr_routes r)" "rtr_routes r ! j = rt"
      using same(1) rt(1) by (auto simp: in_set_conv_nth)
    have apart: "method_and (rt_methods (rtr_routes r ! a)) (rt_methods (rtr_routes r ! b)) = Method_None"
      if "a < b" "b < length (rtr_routes r)" "rt_pattern (rtr_routes r ! a) = rt_pattern (rtr_routes r ! b)" for a b
      using ok that by (auto simp: router_ok_def sorted_wrt_iff_nth_less)
    have "i \<noteq> j" using ij \<open>q \<noteq> rt\<close> by auto
    then consider "i < j" | "j < i" by linarith
    then show False
      using apart [of i j] apart [of j i] ij same(2) disjoint_methods m \<open>?P q\<close> by cases metis+
  qed
  with q show ?thesis by (simp add: chosen_route_def candidates_def find_append)
qed

lemma literal_route_dispatched:
  assumes "registered r" "length (rtr_routes r) \<le> 2 ^ 32" "rt \<in> set (rtr_routes r)" "\<not> pattern_dynamic (rt_pattern rt)"
    and "req_method req \<in> set kAllMethods" "contains (rt_methods rt) (req_method req)" "view_text (req_path req) = rt_pattern rt"
    and "run_middleware (rtr_middleware r) (clear_path_parameters req) = None"
  shows "fst (dispatch names_at r req) =
    (case rt_handler rt (clear_path_parameters req) of Returned response \<Rightarrow> response | Threw \<Rightarrow> internal_error_response)"
proof -
  note ok = registered_ok [OF assms(1,2)]
  have "chosen_route r (req_method req) (rt_pattern rt) = Some rt"
    using unique_literal_route [OF ok assms(3,4,5,6)] .
  moreover have "req_method req \<noteq> Method_None" using assms(5) by (auto simp: kAllMethods_def method_defs)
  ultimately show ?thesis
    using assms(4,7,8)
    by (simp add: dispatch_def clear_path_parameters_def resolve_route_eq [OF ok] invoke_route_def invoke_handler_def Let_def)
qed

lemma add_route_keeps:
  assumes "add_route methods pattern (Some h) r = Inr r'"
  shows "set (rtr_routes r) \<subseteq> set (rtr_routes r')" "rtr_middleware r' = rtr_middleware r"
    "\<exists>rt \<in> set (rtr_routes r'). rt_methods rt = methods \<and> rt_pattern rt = pattern \<and> rt_handler rt = h"
  using assms by (auto elim!: add_route_InrD split: if_splits)

lemma mount_routes_keep:
  "mount_routes routes r = Inr r' \<Longrightarrow> registered r \<Longrightarrow>
     registered r' \<and> rtr_middleware r' = rtr_middleware r \<and> set (rtr_routes r) \<subseteq> set (rtr_routes r') \<and>
     (\<forall>(methods, pattern, h) \<in> set routes.
        \<exists>rt \<in> set (rtr_routes r'). rt_methods rt = methods \<and> rt_pattern rt = pattern \<and> rt_handler rt = h)"
proof (induction routes r rule: mount_routes.induct)
  case (1 r)
  then show ?case by simp
next
  case (2 methods pattern h routes r)
  then obtain r1 where r1: "add_route methods pattern (Some h) r = Inr r1" "mount_routes routes r1 = Inr r'"
    by (auto split: sum.splits)
  note IH = 2(1) [OF r1 registered.registered_route [OF 2(3) r1(1)]]
  show ?case using IH add_route_keeps [OF r1(1)] by (fastforce split: prod.splits)
qed

lemma answer_statuses:
  "res_status (response_text b st) = st" "res_status internal_error_response = Status_InternalServerError"
  by (simp_all add: response_text_def response_with_def default_response_def internal_error_response_def
      set_header_other_fields)

text \<open>C33: the health check tells the truth through the whole router. On any router on which the pages were
  mounted, a GET or HEAD of \<open>/health\<close> or \<open>/healthz\<close> that no middleware answers is answered 200 when the
  application's predicate holds or there is none, 503 when it does not hold, and 500 when it throws, whatever
  other routes the router has.\<close>

theorem health_check_answers:
  assumes "registered r" "mount_observability round_constants now started_at pid options r = Inr r'" "length (rtr_routes r') \<le> 2 ^ 32"
    and "view_text (req_path req) \<in> {''/health'', ''/healthz''}" "req_method req \<in> {Method_Get, Method_Head}"
    and "run_middleware (rtr_middleware r') (clear_path_parameters req) = None"
  shows "fst (dispatch names_at r' req) =
    (case oo_healthy options of
       None \<Rightarrow> response_text (''ok'' @ [CHR 0x0A]) Status_Ok
     | Some (Returned holds) \<Rightarrow> if holds then response_text (''ok'' @ [CHR 0x0A]) Status_Ok
         else response_text (''degraded'' @ [CHR 0x0A]) Status_ServiceUnavailable
     | Some Threw \<Rightarrow> internal_error_response) \<and>
    res_status (fst (dispatch names_at r' req)) =
    (case oo_healthy options of
       None \<Rightarrow> Status_Ok
     | Some (Returned holds) \<Rightarrow> if holds then Status_Ok else Status_ServiceUnavailable
     | Some Threw \<Rightarrow> Status_InternalServerError)"
proof -
  let ?path = "view_text (req_path req)"
  have "(kGetAndHead, ?path, health_handler (oo_healthy options)) \<in> set (observability_routes round_constants now started_at pid options)"
    using assms(4) by (auto simp: observability_routes_def Let_def)
  then obtain rt where rt: "rt \<in> set (rtr_routes r')" "rt_methods rt = kGetAndHead" "rt_pattern rt = ?path"
      "rt_handler rt = health_handler (oo_healthy options)" and reg: "registered r'"
    using mount_routes_keep [OF assms(2) [unfolded mount_observability_def] assms(1)] by fastforce
  have "\<not> pattern_dynamic ''/health''" "\<not> pattern_dynamic ''/healthz''" by code_simp+
  then have static: "\<not> pattern_dynamic (rt_pattern rt)" using assms(4) rt(3) by auto
  have methods: "Method_Get \<in> set kAllMethods" "Method_Head \<in> set kAllMethods" "contains kGetAndHead Method_Get" "contains kGetAndHead Method_Head"
    by code_simp+
  then have "req_method req \<in> set kAllMethods" "contains (rt_methods rt) (req_method req)" using assms(5) rt(2) by auto
  from literal_route_dispatched [OF reg assms(3) rt(1) static this _ assms(6)] rt(3,4) show ?thesis
    by (cases "oo_healthy options"; cases "the (oo_healthy options)")
      (simp_all add: health_handler_def is_healthy_def answer_statuses)
qed

section \<open>The policy of a live page\<close>

lemma base64_loop_chars: "set (base64_loop d) \<subseteq> insert (CHR ''='') (set kBase64Alphabet)"
proof -
  have "emit_sextet g k \<in> set kBase64Alphabet" for g k
    unfolding emit_sextet_def using sextet_bound alphabet_distinct(2) by (metis nth_mem)
  then show ?thesis by (induction d rule: base64_loop.induct) (auto simp: Let_def)
qed

lemma live_policy_valid: "is_valid_field_value (live_content_security_policy round_constants)"
proof -
  have fixed: "list_all (\<lambda>c. byte c \<ge> kSpaceByte \<and> byte c \<noteq> kDeleteByte)
      (kLivePolicyBeforeScriptSource @ kLivePolicyAfterScriptSource @ (CHR 0x27 # ''sha256-'') @ CHR ''='' # kBase64Alphabet)"
    by code_simp
  have "byte c \<ge> kSpaceByte \<and> byte c \<noteq> kDeleteByte" if "c \<in> set (live_content_security_policy round_constants)" for c
    using that fixed base64_loop_chars [of "sha256 round_constants kLiveUpdateScriptText"]
    by (auto simp: live_content_security_policy_def live_update_script_csp_source_def csp_hash_source_of_def
        base64_of_digest_def list_all_iff)
  then show ?thesis by (force simp: is_valid_field_value_def)
qed

lemma set_header_res_body: "res_body (set_header n v r) = res_body r"
  by (auto simp: set_header_def split: option.splits)

text \<open>The script of a live page is the one its policy allows. When an event channel is mounted, every status
  page served, the application's own included, carries one fixed script and the policy names the digest of
  exactly that script.\<close>

theorem live_page_policy_fits_script:
  assumes "oo_live options \<noteq> None" "render_status_page now (page_context_of round_constants started_at pid options) = Returned response"
  shows "\<exists>before after script.
    response_body_bytes response = before @ kScriptElementOpening @ script @ kScriptElementClosing @ after \<and>
    find_header ''content-security-policy'' response =
      Some (kLivePolicyBeforeScriptSource @ csp_hash_source_of round_constants script @ kLivePolicyAfterScriptSource)"
proof -
  let ?ctx = "page_context_of round_constants started_at pid options"
  obtain page where page: "response = set_header ''Content-Security-Policy'' (live_content_security_policy round_constants)
      (response_html (render (set_live_updates True page)) Status_Ok)"
    using assms by (auto simp: render_status_page_def page_context_of_def Let_def split: call_result.splits option.splits)
  have body: "response_body_bytes response = render (set_live_updates True page)"
    by (simp add: page response_body_bytes_def set_header_res_body response_html_def response_with_def)
  have name: "is_valid_field_name ''Content-Security-Policy''"
    "equals_ignore_case ''content-security-policy'' ''Content-Security-Policy''" by code_simp+
  have "find_header ''content-security-policy'' response = Some (live_content_security_policy round_constants)"
    unfolding page using find_header_set_header [OF factory_headers_ok(1) name(1) live_policy_valid] name(2)
    by (simp add: response_html_def)
  moreover have "\<exists>before after. render (set_live_updates True page) =
      before @ kScriptElementOpening @ kLiveUpdateScriptText @ kScriptElementClosing @ after"
  proof -
    define q where "q = set_live_updates True page"
    then have "sp_live_updates q" by (simp add: set_live_updates_def)
    then show ?thesis
      unfolding q_def [symmetric] render_def by (simp only: if_True append_assoc [symmetric]) blast
  qed
  ultimately show ?thesis
    unfolding body live_content_security_policy_def live_update_script_csp_source_def by blast
qed

section \<open>Samples\<close>

definition sample_observability :: observability_options where
  "sample_observability = \<lparr>oo_service_name = ''demo'', oo_version = ''1'', oo_metrics = None, oo_healthy = Some (Returned False),
     oo_status_page = None, oo_live = None\<rparr>"

definition sample_health_request :: request where
  "sample_health_request = default_request\<lparr>req_method := Method_Get, req_path := \<lparr>view_data = 0, view_text = ''/healthz''\<rparr>\<rparr>"

lemma sample_routes_mounted:
  "case mount_routes [(kGetAndHead, ''/'', h1), (kGetAndHead, ''/status'', h2), (kGetAndHead, ''/health'', h3),
      (kGetAndHead, ''/healthz'', h4), (kGetAndHead, ''/favicon.ico'', h5)] default_router of
     Inr r' \<Rightarrow> length (rtr_routes r') \<le> 6 \<and> rtr_middleware r' = [] | Inl _ \<Rightarrow> False"
  by code_simp

theorem health_check_answers_witness:
  "\<exists>r'. mount_observability [] 0 0 7 sample_observability default_router = Inr r' \<and>
     fst (dispatch (\<lambda>_. 0) r' sample_health_request) = response_text (''degraded'' @ [CHR 0x0A]) Status_ServiceUnavailable"
proof -
  have "(case mount_observability [] 0 0 7 sample_observability default_router of
      Inr r' \<Rightarrow> length (rtr_routes r') \<le> 6 \<and> rtr_middleware r' = [] | Inl _ \<Rightarrow> False)"
    using sample_routes_mounted
    by (simp only: mount_observability_def observability_routes_def sample_observability_def observability_options.simps Let_def
        option.case append_Nil append_Cons)
  then obtain r' where r': "mount_observability [] 0 0 7 sample_observability default_router = Inr r'"
    and fields: "length (rtr_routes r') \<le> 6" "rtr_middleware r' = []"
    by (auto split: sum.splits)
  have "fst (dispatch (\<lambda>_. 0) r' sample_health_request) = response_text (''degraded'' @ [CHR 0x0A]) Status_ServiceUnavailable"
    by (subst health_check_answers [THEN conjunct1, OF registered.registered_new r'])
      (use fields in \<open>simp_all add: sample_health_request_def sample_observability_def\<close>)
  with r' show ?thesis by blast
qed

theorem live_page_policy_fits_script_witness:
  "\<exists>response before after script.
     render_status_page 0 (page_context_of [] 0 7 (sample_observability\<lparr>oo_live := Some (\<lambda>_. Threw)\<rparr>)) = Returned response \<and>
     response_body_bytes response = before @ kScriptElementOpening @ script @ kScriptElementClosing @ after \<and>
     find_header ''content-security-policy'' response =
       Some (kLivePolicyBeforeScriptSource @ csp_hash_source_of [] script @ kLivePolicyAfterScriptSource)"
proof -
  obtain response where r: "render_status_page 0 (page_context_of [] 0 7 (sample_observability\<lparr>oo_live := Some (\<lambda>_. Threw)\<rparr>)) = Returned response"
    by (simp add: render_status_page_def page_context_of_def sample_observability_def default_status_page_def is_healthy_def Let_def)
  have "oo_live (sample_observability\<lparr>oo_live := Some (\<lambda>_. Threw)\<rparr>) \<noteq> None" by simp
  from live_page_policy_fits_script [OF this r] r show ?thesis by blast
qed

end
