(* ===== verification/Http_Json.thy ===== *)
theory Http_Json
  imports Http_Router
begin

text \<open>
  \<open>json.cpp\<close> and \<open>json.hpp\<close>: typed JSON bodies and responses. Reading, validating and writing values is Glaze's
  work and an argument: \<open>read_json\<close> gives a value or fails, \<open>validate_json\<close> says whether a text is not well formed,
  \<open>write_json\<close> gives a text or fails.
\<close>

section \<open>Bodies\<close>

datatype json_error = NotJson | Malformed | TypeMismatch | TooLarge

definition kJsonMediaType :: bytes where "kJsonMediaType = ''application/json''"
definition kJsonStructuredSuffix :: bytes where "kJsonStructuredSuffix = ''+json''"

definition is_json_media_type :: "bytes \<Rightarrow> bool" where
  "is_json_media_type content_type =
     (let media_type = trim_optional_whitespace (case find_char (CHR '';'') content_type of
            None \<Rightarrow> content_type | Some i \<Rightarrow> take i content_type)
      in if equals_ignore_case media_type kJsonMediaType then True
         else if length media_type \<le> length kJsonStructuredSuffix then False
         else equals_ignore_case (drop (length media_type - length kJsonStructuredSuffix) media_type) kJsonStructuredSuffix)"

fun json_error_message :: "json_error \<Rightarrow> bytes" where
  "json_error_message NotJson = ''expected a request body with Content-Type: application/json''"
| "json_error_message Malformed = ''request body is not well-formed JSON''"
| "json_error_message TypeMismatch = ''request body does not match the expected field types''"
| "json_error_message TooLarge = ''request body exceeds the JSON size limit for this route''"

definition json_error_response :: "json_error \<Rightarrow> response" where
  "json_error_response error =
     (let status = (if error = TooLarge then Status_ContentTooLarge else Status_BadRequest)
      in response_json ((CHR ''{'' # CHR 0x22 # ''error'') @ [CHR 0x22, CHR '':'', CHR 0x22] @
           json_escape (json_error_message error) @ [CHR 0x22, CHR ''}'']) status)"

definition json_body_of :: "request \<Rightarrow> nat \<Rightarrow> (json_error, bytes) expected" where
  "json_body_of req max_bytes =
     (case header req ''Content-Type'' of
        None \<Rightarrow> Inl NotJson
      | Some content_type \<Rightarrow>
          if \<not> is_json_media_type (view_text content_type) then Inl NotJson
          else let body = view_text (req_body req) in
            if length body > max_bytes then Inl TooLarge
            else if body = [] then Inl NotJson
            else Inr body)"

definition kDefaultMaxJsonBodyBytes :: nat where "kDefaultMaxJsonBodyBytes = 262144"

definition json_read_failure_kind :: "(bytes \<Rightarrow> bool) \<Rightarrow> bytes \<Rightarrow> json_error" where
  "json_read_failure_kind validate_json body = (if validate_json body then Malformed else TypeMismatch)"

definition parse_json_body ::
  "(bytes \<Rightarrow> 'v option) \<Rightarrow> (bytes \<Rightarrow> bool) \<Rightarrow> request \<Rightarrow> nat \<Rightarrow> (json_error, 'v) expected" where
  "parse_json_body read_json validate_json req max_bytes =
     (case json_body_of req max_bytes of
        Inl e \<Rightarrow> Inl e
      | Inr body \<Rightarrow>
          (case read_json body of
             None \<Rightarrow> Inl (json_read_failure_kind validate_json body)
           | Some v \<Rightarrow> Inr v))"

section \<open>Responses\<close>

definition json_response :: "('v \<Rightarrow> bytes option) \<Rightarrow> 'v \<Rightarrow> status \<Rightarrow> response" where
  "json_response write_json v status =
     (case write_json v of
        None \<Rightarrow> response_json ((CHR ''{'' # CHR 0x22 # ''error'') @ [CHR 0x22, CHR '':'', CHR 0x22] @
                 ''serialization failed'' @ [CHR 0x22, CHR ''}'']) Status_InternalServerError
      | Some buffer \<Rightarrow> response_json buffer status)"

text \<open>\<open>Router::json_get\<close>, with what the producer gives when asked.\<close>

definition json_get ::
  "('v \<Rightarrow> bytes option) \<Rightarrow> bytes \<Rightarrow> 'v call_result \<Rightarrow> router \<Rightarrow> (registration_error, router) expected" where
  "json_get write_json pattern producer r =
     route_get pattern (Some (\<lambda>_. case producer of Threw \<Rightarrow> Threw | Returned v \<Rightarrow> Returned (json_response write_json v Status_Ok))) r"

section \<open>What a handler may rely on\<close>

text \<open>The media types taken: the essence, before parameters and blanks, is \<open>application/json\<close> or ends in \<open>+json\<close>.\<close>

definition media_essence :: "bytes \<Rightarrow> bytes" where
  "media_essence content_type = trim_optional_whitespace (takeWhile (\<lambda>c. c \<noteq> CHR '';'') content_type)"

lemma takeWhile_find_char:
  "takeWhile (\<lambda>c. c \<noteq> d) s = (case find_char d s of None \<Rightarrow> s | Some i \<Rightarrow> take i s)"
  by (induction s) (auto split: option.splits)

lemma is_json_media_type_iff:
  "is_json_media_type content_type \<longleftrightarrow>
     fold_case (media_essence content_type) = kJsonMediaType \<or>
     (\<exists>tree. tree \<noteq> [] \<and> fold_case (media_essence content_type) = tree @ kJsonStructuredSuffix)"
proof -
  let ?m = "media_essence content_type"
  have m: "?m = trim_optional_whitespace (case find_char (CHR '';'') content_type of
            None \<Rightarrow> content_type | Some i \<Rightarrow> take i content_type)"
    by (simp add: media_essence_def takeWhile_find_char)
  have lower: "fold_case kJsonMediaType = kJsonMediaType" "fold_case kJsonStructuredSuffix = kJsonStructuredSuffix" by code_simp+
  have "length ?m > length kJsonStructuredSuffix \<and>
      fold_case (drop (length ?m - length kJsonStructuredSuffix) ?m) = kJsonStructuredSuffix \<longleftrightarrow>
    (\<exists>tree. tree \<noteq> [] \<and> fold_case ?m = tree @ kJsonStructuredSuffix)" (is "?L \<longleftrightarrow> ?R")
  proof
    assume L: ?L
    let ?tree = "fold_case (take (length ?m - length kJsonStructuredSuffix) ?m)"
    have "fold_case ?m = ?tree @ kJsonStructuredSuffix"
      using L by (metis append_take_drop_id map_append)
    moreover have "?tree \<noteq> []" using L by auto
    ultimately show ?R by blast
  next
    assume ?R
    then obtain tree where t: "tree \<noteq> []" "fold_case ?m = tree @ kJsonStructuredSuffix" by blast
    then have "length ?m = length tree + length kJsonStructuredSuffix" by (metis length_append length_map)
    with t show ?L by (simp add: drop_map [symmetric])
  qed
  then show ?thesis
    unfolding is_json_media_type_def m [symmetric] Let_def equals_ignore_case_iff lower by auto
qed

text \<open>What a JSON handler gets and what it answers otherwise. A value is returned exactly when the first
  Content-Type is a JSON media type, the body is not empty and within the limit, and reads as a value of the
  type; every failure has its own kind, the size is judged before the emptiness and both before the text.\<close>

theorem json_body_parsed:
  "parse_json_body read_json validate_json req max_bytes =
     (let typed = (\<exists>content_type. header req ''Content-Type'' = Some content_type \<and>
            (fold_case (media_essence (view_text content_type)) = kJsonMediaType \<or>
             (\<exists>tree. tree \<noteq> [] \<and> fold_case (media_essence (view_text content_type)) = tree @ kJsonStructuredSuffix)));
          body = view_text (req_body req)
      in if \<not> typed then Inl NotJson
         else if length body > max_bytes then Inl TooLarge
         else if body = [] then Inl NotJson
         else case read_json body of
           Some v \<Rightarrow> Inr v
         | None \<Rightarrow> Inl (if validate_json body then Malformed else TypeMismatch))"
proof (cases "header req ''Content-Type''")
  case None
  then show ?thesis by (auto simp: parse_json_body_def json_body_of_def)
next
  case (Some content_type)
  then show ?thesis
    by (auto simp: parse_json_body_def json_body_of_def json_read_failure_kind_def is_json_media_type_iff Let_def
        split: option.splits)
qed

text \<open>The body of an error is one JSON object whose only member reads back as the message.\<close>

lemma json_error_body_reads_back:
  "response_body_bytes (json_error_response error) = (CHR ''{'' # CHR 0x22 # ''error'') @ [CHR 0x22, CHR '':'', CHR 0x22] @ rest \<Longrightarrow>
     json_read_string rest = Some (utf8_repair (json_error_message error), ''}'')"
proof -
  assume a: "response_body_bytes (json_error_response error) = (CHR ''{'' # CHR 0x22 # ''error'') @ [CHR 0x22, CHR '':'', CHR 0x22] @ rest"
  have "res_body (set_header n v r) = res_body r" for n v r
    by (auto simp: set_header_def split: option.splits)
  then have "rest = json_escape (json_error_message error) @ CHR 0x22 # ''}''"
    using a by (simp add: json_error_response_def response_json_def response_with_def response_body_bytes_def)
  then show ?thesis using json_read_escape by simp
qed

end
