(* ===== verification/Spec2Isabelle.thy ===== *)
theory Spec2Isabelle
  imports Http_Text_Format Http_Method_Status Http_Buffer Http_Cidr Http_Request_Properties
    Http_Encoder Http_Router Http_Server_State Http_Connection_Properties Http_Server Http_Tls_Context Http_Observability Http_Json
begin

text \<open>
  A verification library for the embedded HTTP/1.1 server erikslund-http-embedded (C++).

  \<^bold>\<open>The program.\<close> A server owns listeners and worker threads. Each worker runs a reactor over epoll that
  accepts sockets, asks the shared server state for admission, and drives one \<open>Connection\<close> per socket by
  readiness, deadlines and stream notifications. A connection reads into a \<open>Buffer\<close>, feeds the buffered bytes
  to an incremental \<open>RequestParser\<close>, hands the request to the \<open>Router\<close>, which runs middleware and a handler or
  serves an embedded asset, applies the conditional-request rule, encodes the \<open>Response\<close> into its write buffer
  and writes it to a plain or TLS transport; a streaming response is pulled from a source instead.

  \<^bold>\<open>The theories\<close>, bottom up, and the sources they translate (under \<^verbatim>\<open>src/\<close>):

  \<^item> \<open>Http_Prelude\<close>: bytes, views (a \<open>string_view\<close> is an address with the text it shows), searching,
    splitting, decimal numerals, results of \<open>std::expected\<close>, and the lemmas all components share.
  \<^item> \<open>Http_Text\<close>, \<open>Http_Text_Format\<close>: \<^verbatim>\<open>src/text.cpp\<close>: UTF-8 repair, JSON, HTML and label escaping, percent
    decoding, digit grouping, dates. The escapes read back as the repaired input and emit no markup.
  \<^item> \<open>Http_Method_Status\<close>: \<^verbatim>\<open>method.hpp\<close>, \<^verbatim>\<open>status.hpp\<close>: the enumerations and their tables.
  \<^item> \<open>Http_Buffer\<close>: \<^verbatim>\<open>internal/buffer.hpp\<close>, an instance of the locale \<open>byte_queue\<close>.
  \<^item> \<open>Http_Cidr\<close>: \<^verbatim>\<open>cidr.cpp\<close>, \<^verbatim>\<open>peer_address.hpp\<close>: the allow list admits exactly the peers that agree with an
    entry on its prefix bits. \<open>inet_pton\<close> and \<open>inet_ntop\<close> are parameters.
  \<^item> \<open>Http_Request_Syntax\<close>, \<open>Http_Request_Fields\<close>, \<open>Http_Request_Parser\<close>: \<^verbatim>\<open>request.cpp\<close> and its headers, in
    the order of the file. \<open>Http_Request_Parser\<close> shows what an accepted request is: canonical path, safe
    fields, unambiguous framing, one authority, sizes within the limits. \<open>Http_Request_Incremental\<close> shows that
    parsing in pieces, in a buffer that moves, gives what parsing at once gives, but for one case at the limit on
    the request line. \<open>Http_Request_Progress\<close> shows when the parser waits and what it consumes.
    \<open>Http_Request_Properties\<close> shows that plain origin-form requests are accepted and read back, and the case at
    the limit.
  \<^item> \<open>Http_Flat_Map\<close>, \<open>Http_Response\<close>: \<^verbatim>\<open>response.cpp\<close>: the header map is sorted, free of duplicates up to case,
    and holds only valid names and values, whatever a handler does.
  \<^item> \<open>Http_Encoder\<close>: \<^verbatim>\<open>response_encoder.cpp\<close>, \<^verbatim>\<open>compress.cpp\<close>, \<^verbatim>\<open>conditional_request.cpp\<close>: the head reads back
    line by line as the fields meant, framing is unambiguous, and a body is compressed exactly when it may be
    and the head says so. zlib is a parameter.
  \<^item> \<open>Http_Assets\<close>, \<open>Http_Router\<close>: \<^verbatim>\<open>assets.cpp\<close>, \<^verbatim>\<open>router.cpp\<close>: registration and dispatch; routing refines a
    specification by pieces of pattern and path. Handlers and middleware are functions from requests to a
    response or an exception.
  \<^item> \<open>Http_Server_State\<close>: \<^verbatim>\<open>server_state.cpp\<close> and the peer-message limiter of \<^verbatim>\<open>logger.cpp\<close>. Each operation holds
    a mutex, so it is one step; \<open>admission_run\<close> is the step relation.
  \<^item> \<open>Http_Transport\<close>: \<^verbatim>\<open>transport.cpp\<close>, \<^verbatim>\<open>plain_transport.cpp\<close>, \<open>write_vectors\<close> of \<^verbatim>\<open>socket.cpp\<close>, behind the locale
    \<open>byte_transport\<close>, interpreted for the plain socket, the TLS stream and the variant of both.
  \<^item> \<open>Http_Connection\<close>: every operation of \<^verbatim>\<open>connection.cpp\<close>. \<open>Http_Connection_Invariant\<close> shows what each
    operation keeps; \<open>Http_Connection_Properties\<close> closes it over the runs of a connection
    (\<open>connection_run\<close>) and shows that responses are written exactly once, that no buffered request is left
    behind, that memory is bounded, that stream sources are attached and detached in order, that errors
    close, and that writing completes.
  \<^item> \<open>Http_Sse\<close>: \<^verbatim>\<open>sse.cpp\<close>: frames, subscribers, the channel and its heartbeat. Frames read back as the events
    published, memory is bounded, and an event published reaches every live subscriber.
  \<^item> \<open>Http_Metrics\<close>, \<open>Http_Server_Metrics\<close>: \<^verbatim>\<open>metrics.cpp\<close>, \<^verbatim>\<open>server_metrics.cpp\<close>: registration, counters, gauges and
    the exposition, which reads back as the series registered. Floating-point arithmetic is a parameter.
  \<^item> \<open>Http_Config\<close>: \<^verbatim>\<open>config.cpp\<close> and the option checks of \<^verbatim>\<open>server.cpp\<close>: a configuration is accepted exactly when
    the declarative conditions hold.
  \<^item> \<open>Http_Socket\<close>: \<^verbatim>\<open>socket.cpp\<close>: addresses, listening sockets and the names of Unix-domain sockets over a model of
    the kernel's descriptors and names: a listener owns its name and removes only what it probed.
  \<^item> \<open>Http_Reactor\<close>: \<^verbatim>\<open>reactor.cpp\<close>: one worker. Its tables agree, its accounts with the server state and the
    metrics are exact, and no stream notification is lost: a notification and the drain are written as
    activities (\<open>activity\<close>), which \<open>perform\<close> runs in one go and \<open>wake_run\<close> interleaves step by step.
  \<^item> \<open>Http_Server\<close>: \<^verbatim>\<open>server.cpp\<close>: start, wait, stop, destruction and reloading; a failed start leaves nothing
    behind. The locale \<open>wake_channel\<close> relates the reactor's flag to the kernel's event counter.
  \<^item> \<open>Http_Tls_Identity\<close>, \<open>Http_Tls_Transport\<close>, \<open>Http_Tls_Context\<close>: \<^verbatim>\<open>tls.hpp\<close>, \<^verbatim>\<open>tls_transport.cpp\<close>,
    \<^verbatim>\<open>tls_context.cpp\<close> over the answers of OpenSSL: the identity of a client fits its certificate, blocked writes
    are repeated as OpenSSL demands and lose no byte, and a context is made exactly from usable options and enforces what they ask for. The
    transport of a connection abstracts from this level: it sees the results of the operations.
  \<^item> \<open>Http_Sha256\<close>, \<open>Http_Status_Page\<close>, \<open>Http_Observability\<close>: \<^verbatim>\<open>internal/sha256.hpp\<close>, \<^verbatim>\<open>status_page.cpp\<close>,
    \<^verbatim>\<open>observability.cpp\<close>: the built-in pages. No text becomes markup, links lead only where they may, and the health check answers through the whole router. The digest's table of
    round constants is an argument, since no result depends on its values.
  \<^item> \<open>Http_Json\<close>: \<^verbatim>\<open>json.cpp\<close>, \<^verbatim>\<open>json.hpp\<close>: which bodies are taken as JSON and how each failure is answered; Glaze is a
    parameter.

  \<^bold>\<open>What stands outside\<close> is an argument or a tape. A socket carries the answers its system calls will give;
  a call with no answer left blocks. A connection carries the ticks of the clock, the answers of its stream
  source and whether attaching throws; a source with no answer left is idle. Time is an integer number of
  nanoseconds. No result depends on the length of a tape: between events the tapes may be replaced by any
  others (\<open>run_world\<close>). Loops are total functions: the reading loops decrease the input still to come, the
  writing loops the bytes pending, the streaming loop the answers of the source, so no fuel is needed; the
  two loops the source bounds itself (pipelined requests per step, drain passes) keep its bounds.

  \<^bold>\<open>Integers.\<close> Sizes are natural numbers: they count bytes in memory. Counters that are compared with a
  configured width (requests per connection) are words; \<open>saturating_add\<close> is written out.

  \<^bold>\<open>Not modelled\<close>: memory exhaustion (\<open>bad_alloc\<close>), except where the sources give it a meaning of its own
  (notifications, pending TLS writes), hence the \<open>catch\<close> around \<open>Router::dispatch\<close> in
  \<open>dispatch_and_serialize\<close>, since the router already turns what handlers and middleware throw into a
  response; OpenSSL, zlib, Glaze and the kernel, which are parameters; a build without TLS; the values of the
  SHA-256 round constants; the debug assertions, and a callback of the metrics that throws; the width of
  \<open>std::chrono\<close> durations; the separate locks an event channel takes, one subscriber after the other, inside one
  publication; the reflection over C++ types of \<^verbatim>\<open>reflect.hpp\<close>, and pretty printing and schemas, which
  are Glaze's; \<open>format_count\<close> and \<open>format_bytes\<close>, which format floating-point numbers; tools, examples and
  benchmarks. Threads are interleavings of the steps of their operations; the memory model of
  C++ is not modelled.
\<close>

end
